(* ===== verification/Prelude.thy ===== *)
theory Prelude
  imports Main "HOL-Library.Word"
begin

text \<open>
  Shared vocabulary of the development: the result type every operation that can fail returns,
  the machine integers of the LP64 little-endian Linux build the repository targets, and the
  computation rules the component theories reuse.

  A run of the C++ code that does not return normally is a \<open>fault\<close>: a failed \<open>ASSERT\<close>
  (\<open>BaseLib/CommonDefines.h\<close> undefines \<open>NDEBUG\<close>, so \<open>ASSERT\<close> aborts in every build), a thrown
  \<open>BaseLib::Exception\<close>, or behaviour the C++ standard leaves undefined (reading or writing outside
  an allocation, dereferencing an end iterator).
\<close>

named_theorems res_simps "computation rules for results"

datatype fault = AssertFailed | ExceptionThrown | UndefinedBehaviour

type_synonym 'a res = "fault + 'a"

fun rbind :: "'a res \<Rightarrow> ('a \<Rightarrow> 'b res) \<Rightarrow> 'b res" where
  "rbind (Inl e) f = Inl e"
| "rbind (Inr x) f = f x"

definition asserting :: "bool \<Rightarrow> 'a res \<Rightarrow> 'a res" where
  "asserting c r = (if c then r else Inl AssertFailed)"

lemma asserting_simps [simp]:
  "asserting True r = r"
  "asserting False r = Inl AssertFailed"
  by (simp_all add: asserting_def)

lemma asserting_Inr_iff [res_simps]:
  "asserting c r = Inr x \<longleftrightarrow> c \<and> r = Inr x"
  by (simp add: asserting_def)

lemma rbind_Inr_iff [res_simps]:
  "rbind r f = Inr y \<longleftrightarrow> (\<exists>x. r = Inr x \<and> f x = Inr y)"
  by (cases r) auto

lemma rbind_Inl_iff [res_simps]:
  "rbind r f = Inl e \<longleftrightarrow> r = Inl e \<or> (\<exists>x. r = Inr x \<and> f x = Inl e)"
  by (cases r) auto

lemma rbind_assoc: "rbind (rbind r f) g = rbind r (\<lambda>x. rbind (f x) g)"
  by (cases r) auto

lemma rbind_cong [fundef_cong]:
  "r = r' \<Longrightarrow> (\<And>x. r' = Inr x \<Longrightarrow> f x = f' x) \<Longrightarrow> rbind r f = rbind r' f'"
  by (cases r') auto

text \<open>Running a list of steps one after the other, as a C++ \<open>for\<close> loop with a body that can fail.\<close>

fun rfold :: "('a \<Rightarrow> 's \<Rightarrow> 's res) \<Rightarrow> 'a list \<Rightarrow> 's \<Rightarrow> 's res" where
  "rfold f [] s = Inr s"
| "rfold f (x # xs) s = rbind (f x s) (rfold f xs)"

lemma rfold_append: "rfold f (xs @ ys) s = rbind (rfold f xs s) (rfold f ys)"
  by (induction xs arbitrary: s) (auto simp: rbind_assoc intro!: rbind_cong)

lemma rfold_invariant:
  assumes "rfold f xs s = Inr s'" "P s"
    and "\<And>x t t'. x \<in> set xs \<Longrightarrow> P t \<Longrightarrow> f x t = Inr t' \<Longrightarrow> P t'"
  shows "P s'"
  using assms by (induction xs arbitrary: s) (auto simp: res_simps)

section \<open>Machine integers\<close>

type_synonym u8 = "8 word"

text \<open>
  Signed integers are \<open>int\<close>s with their width written out: \<open>wrap32\<close> and \<open>wrap64\<close> give the value
  the two's complement conversion to \<open>int\<close> and \<open>int64_t\<close> has, \<open>to_uint32\<close> the conversion to
  \<open>unsigned int\<close>.
\<close>

definition wrap32 :: "int \<Rightarrow> int" where
  "wrap32 x = (x + 2147483648) mod 4294967296 - 2147483648"

definition wrap64 :: "int \<Rightarrow> int" where
  "wrap64 x = (x + 9223372036854775808) mod 18446744073709551616 - 9223372036854775808"

definition to_uint32 :: "int \<Rightarrow> int" where
  "to_uint32 x = x mod 4294967296"

definition int32_max :: int where "int32_max = 2147483647"
definition uint32_max :: int where "uint32_max = 4294967295"

definition in_int32 :: "int \<Rightarrow> bool" where
  "in_int32 x \<longleftrightarrow> - 2147483648 \<le> x \<and> x < 2147483648"

definition in_int64 :: "int \<Rightarrow> bool" where
  "in_int64 x \<longleftrightarrow> - 9223372036854775808 \<le> x \<and> x < 9223372036854775808"

text \<open>The result of a signed operation on \<open>int\<close>, which must not overflow.\<close>

definition int_result :: "int \<Rightarrow> int res" where
  "int_result v = (if in_int32 v then Inr v else Inl UndefinedBehaviour)"

lemma wrap32_id [simp]: "in_int32 x \<Longrightarrow> wrap32 x = x"
  by (simp add: wrap32_def in_int32_def)

lemma wrap64_id [simp]: "in_int64 x \<Longrightarrow> wrap64 x = x"
  by (simp add: wrap64_def in_int64_def)

lemma wrap32_range: "in_int32 (wrap32 x)"
  unfolding wrap32_def in_int32_def by (smt (verit) pos_mod_bound pos_mod_sign)

lemma wrap64_range: "in_int64 (wrap64 x)"
  unfolding wrap64_def in_int64_def by (smt (verit) pos_mod_bound pos_mod_sign)

lemma to_uint32_id [simp]: "0 \<le> x \<Longrightarrow> x < 4294967296 \<Longrightarrow> to_uint32 x = x"
  by (simp add: to_uint32_def)

lemma to_uint32_range: "0 \<le> to_uint32 x" "to_uint32 x < 4294967296"
  by (simp_all add: to_uint32_def)

end
