(* ===== verification/Ordered_Map.thy ===== *)
theory Ordered_Map
  imports Prelude
begin

text \<open>
  \<open>std::map\<close> over a comparator: the keys in iteration order, each operation written as the
  \<open>lower_bound\<close> search the standard prescribes (skip the keys less than the argument, then compare
  the other way round to decide equivalence). The comparators of this repository are not all
  strict orders, so the laws of the container are stated in the locale \<open>key_order\<close>, for the keys
  of a carrier on which the comparator is one.
\<close>

type_synonym ('k, 'v) omap = "('k \<times> 'v) list"

text \<open>\<open>find\<close> and \<open>count\<close>\<close>

fun om_find :: "('k \<Rightarrow> 'k \<Rightarrow> bool) \<Rightarrow> 'k \<Rightarrow> ('k, 'v) omap \<Rightarrow> 'v option" where
  "om_find lt k [] = None"
| "om_find lt k ((k', v) # m) =
     (if lt k' k then om_find lt k m else if lt k k' then None else Some v)"

definition om_member :: "('k \<Rightarrow> 'k \<Rightarrow> bool) \<Rightarrow> 'k \<Rightarrow> ('k, 'v) omap \<Rightarrow> bool" where
  "om_member lt k m = (om_find lt k m \<noteq> None)"

text \<open>\<open>insert\<close>: no effect when an equivalent key is present.\<close>

fun om_insert :: "('k \<Rightarrow> 'k \<Rightarrow> bool) \<Rightarrow> 'k \<Rightarrow> 'v \<Rightarrow> ('k, 'v) omap \<Rightarrow> ('k, 'v) omap" where
  "om_insert lt k v [] = [(k, v)]"
| "om_insert lt k v ((k', v') # m) =
     (if lt k' k then (k', v') # om_insert lt k v m
      else if lt k k' then (k, v) # (k', v') # m
      else (k', v') # m)"

text \<open>\<open>m[k] = v\<close>: overwrites the value of an equivalent key.\<close>

fun om_assign :: "('k \<Rightarrow> 'k \<Rightarrow> bool) \<Rightarrow> 'k \<Rightarrow> 'v \<Rightarrow> ('k, 'v) omap \<Rightarrow> ('k, 'v) omap" where
  "om_assign lt k v [] = [(k, v)]"
| "om_assign lt k v ((k', v') # m) =
     (if lt k' k then (k', v') # om_assign lt k v m
      else if lt k k' then (k, v) # (k', v') # m
      else (k', v) # m)"

text \<open>\<open>erase(key)\<close>\<close>

fun om_erase :: "('k \<Rightarrow> 'k \<Rightarrow> bool) \<Rightarrow> 'k \<Rightarrow> ('k, 'v) omap \<Rightarrow> ('k, 'v) omap" where
  "om_erase lt k [] = []"
| "om_erase lt k ((k', v') # m) =
     (if lt k' k then (k', v') # om_erase lt k m
      else if lt k k' then (k', v') # m
      else m)"

lemma om_assign_found: "om_find lt k m = Some v \<Longrightarrow> om_assign lt k v m = m"
  by (induction lt k m rule: om_find.induct) (auto split: if_splits)

lemma om_find_inserted: "\<not> lt k k \<Longrightarrow> om_find lt k m = None \<Longrightarrow> om_find lt k (om_insert lt k v m) = Some v"
  by (induction lt k v m rule: om_insert.induct) (auto split: if_splits)

locale key_order =
  fixes lt :: "'k \<Rightarrow> 'k \<Rightarrow> bool" and K :: "'k set"
  assumes lt_irrefl: "a \<in> K \<Longrightarrow> \<not> lt a a"
    and lt_trans: "a \<in> K \<Longrightarrow> b \<in> K \<Longrightarrow> c \<in> K \<Longrightarrow> lt a b \<Longrightarrow> lt b c \<Longrightarrow> lt a c"
    and lt_total: "a \<in> K \<Longrightarrow> b \<in> K \<Longrightarrow> a \<noteq> b \<Longrightarrow> lt a b \<or> lt b a"
begin

lemma lt_asym: "a \<in> K \<Longrightarrow> b \<in> K \<Longrightarrow> lt a b \<Longrightarrow> \<not> lt b a"
  using lt_irrefl lt_trans by blast

definition om_wf :: "('k, 'v) omap \<Rightarrow> bool" where
  "om_wf m \<longleftrightarrow> sorted_wrt (\<lambda>e f. lt (fst e) (fst f)) m \<and> fst ` set m \<subseteq> K"

lemma om_wf_Nil [simp]: "om_wf []"
  by (simp add: om_wf_def)

lemma om_wf_Cons:
  "om_wf (e # m) \<longleftrightarrow> fst e \<in> K \<and> (\<forall>f \<in> set m. lt (fst e) (fst f)) \<and> om_wf m"
  by (auto simp: om_wf_def)

lemma om_wf_distinct: "om_wf m \<Longrightarrow> distinct (map fst m)"
  by (induction m) (auto simp: om_wf_Cons lt_irrefl)

lemma om_wf_notin:
  "om_wf ((k', v') # m) \<Longrightarrow> \<not> lt k' k \<Longrightarrow> k \<notin> fst ` set m"
  by (auto simp: om_wf_Cons)

lemma om_wf_map_of_None:
  "om_wf ((k', v') # m) \<Longrightarrow> \<not> lt k' k \<Longrightarrow> map_of m k = None"
  using om_wf_notin by (simp add: map_of_eq_None_iff)

lemma lt_cases:
  assumes "a \<in> K" "b \<in> K"
  obtains (less) "lt a b" "\<not> lt b a" "a \<noteq> b" | (greater) "lt b a" "\<not> lt a b" "a \<noteq> b"
    | (equal) "a = b" "\<not> lt a a"
  using assms lt_asym lt_irrefl lt_total by metis

lemma om_find_map_of: "om_wf m \<Longrightarrow> k \<in> K \<Longrightarrow> om_find lt k m = map_of m k"
proof (induction m)
  case (Cons e m)
  obtain k' v' where e: "e = (k', v')" by force
  have K: "k' \<in> K" "om_wf m" using Cons.prems by (auto simp: e om_wf_Cons)
  note none = om_wf_map_of_None[OF Cons.prems(1)[unfolded e]]
  show ?case using K(1) Cons.prems(2)
    by (cases rule: lt_cases) (use Cons.IH[OF K(2) Cons.prems(2)] none in \<open>simp_all add: e\<close>)
qed simp

lemma om_insert_keys: "fst ` set (om_insert lt k v m) \<subseteq> insert k (fst ` set m)"
  by (induction lt k v m rule: om_insert.induct) auto

lemma om_assign_keys: "fst ` set (om_assign lt k v m) \<subseteq> insert k (fst ` set m)"
  by (induction lt k v m rule: om_assign.induct) auto

lemma om_erase_subset: "set (om_erase lt k m) \<subseteq> set m"
  by (induction m) (auto split: if_splits)

lemma om_wf_insert: "om_wf m \<Longrightarrow> k \<in> K \<Longrightarrow> om_wf (om_insert lt k v m)"
proof (induction m)
  case Nil then show ?case by (simp add: om_wf_def)
next
  case (Cons e m)
  obtain k' v' where e: "e = (k', v')" by force
  have below: "lt k' (fst f)" if "lt k' k" "f \<in> set (om_insert lt k v m)" for f
    using om_insert_keys[of k v m] that Cons.prems unfolding e om_wf_Cons by fastforce
  have "lt k (fst f)" if "lt k k'" "f \<in> set m" for f
    using that Cons.prems lt_trans[of k k' "fst f"] unfolding e om_wf_Cons
    by (auto simp: om_wf_def)
  then show ?case using Cons below unfolding e by (auto simp: om_wf_Cons)
qed

lemma om_wf_assign: "om_wf m \<Longrightarrow> k \<in> K \<Longrightarrow> om_wf (om_assign lt k v m)"
proof (induction m)
  case Nil then show ?case by (simp add: om_wf_def)
next
  case (Cons e m)
  obtain k' v' where e: "e = (k', v')" by force
  have below: "lt k' (fst f)" if "lt k' k" "f \<in> set (om_assign lt k v m)" for f
    using om_assign_keys[of k v m] that Cons.prems unfolding e om_wf_Cons by fastforce
  have "lt k (fst f)" if "lt k k'" "f \<in> set m" for f
    using that Cons.prems lt_trans[of k k' "fst f"] unfolding e om_wf_Cons
    by (auto simp: om_wf_def)
  then show ?case using Cons below unfolding e by (auto simp: om_wf_Cons)
qed

lemma om_wf_erase: "om_wf m \<Longrightarrow> om_wf (om_erase lt k m)"
proof (induction m)
  case (Cons e m)
  then show ?case using om_erase_subset[of k m] by (cases e) (auto simp: om_wf_Cons)
qed simp

lemma map_of_insert:
  "om_wf m \<Longrightarrow> k \<in> K \<Longrightarrow>
   map_of (om_insert lt k v m) = (if k \<in> fst ` set m then map_of m else (map_of m)(k \<mapsto> v))"
proof (induction m)
  case (Cons e m)
  obtain k' v' where e: "e = (k', v')" by force
  have K: "k' \<in> K" "om_wf m" using Cons.prems by (auto simp: e om_wf_Cons)
  note none = om_wf_map_of_None[OF Cons.prems(1)[unfolded e]]
  note notin = om_wf_notin[OF Cons.prems(1)[unfolded e]]
  note IH = Cons.IH[OF K(2) Cons.prems(2)]
  show ?case using K(1) Cons.prems(2)
    by (cases rule: lt_cases)
      (use IH none notin in \<open>auto simp: e fun_upd_twist fun_upd_idem\<close>)
qed simp

lemma map_of_assign:
  "om_wf m \<Longrightarrow> k \<in> K \<Longrightarrow> map_of (om_assign lt k v m) = (map_of m)(k \<mapsto> v)"
proof (induction m)
  case (Cons e m)
  obtain k' v' where e: "e = (k', v')" by force
  have K: "k' \<in> K" "om_wf m" using Cons.prems by (auto simp: e om_wf_Cons)
  note none = om_wf_map_of_None[OF Cons.prems(1)[unfolded e]]
  note notin = om_wf_notin[OF Cons.prems(1)[unfolded e]]
  note IH = Cons.IH[OF K(2) Cons.prems(2)]
  show ?case using K(1) Cons.prems(2)
    by (cases rule: lt_cases)
      (use IH none notin in \<open>auto simp: e fun_upd_twist fun_upd_idem\<close>)
qed simp

lemma map_of_erase:
  "om_wf m \<Longrightarrow> k \<in> K \<Longrightarrow> map_of (om_erase lt k m) = (map_of m)(k := None)"
proof (induction m)
  case (Cons e m)
  obtain k' v' where e: "e = (k', v')" by force
  have K: "k' \<in> K" "om_wf m" using Cons.prems by (auto simp: e om_wf_Cons)
  note none = om_wf_map_of_None[OF Cons.prems(1)[unfolded e]]
  note notin = om_wf_notin[OF Cons.prems(1)[unfolded e]]
  note IH = Cons.IH[OF K(2) Cons.prems(2)]
  show ?case using K(1) Cons.prems(2)
    by (cases rule: lt_cases)
      (use IH none notin in \<open>auto simp: e fun_upd_twist fun_upd_idem\<close>)
qed (simp add: fun_upd_idem)

lemma om_member_iff: "om_wf m \<Longrightarrow> k \<in> K \<Longrightarrow> om_member lt k m \<longleftrightarrow> k \<in> fst ` set m"
  by (simp add: om_member_def om_find_map_of map_of_eq_None_iff)

end

end
