(* ===== verification/Serialize.thy ===== *)
theory Serialize
  imports Prelude
begin

text \<open>
  \<open>NetworkLib/Serialize\<close>: the growable output buffer \<open>ByteArray\<close> and the input buffer
  \<open>InByteArray\<close>. A cell of an output buffer is \<open>None\<close> while \<open>new char[sz]\<close> has left it
  uninitialised; a null array is the one without cells. The second half states what the element
  classes need of the two buffers, as the locale \<open>wire_codec\<close>.
\<close>

section \<open>ByteArray\<close>

record byte_array =
  ba_cells :: "u8 option list"
  ba_position :: int

definition ba_size :: "byte_array \<Rightarrow> int" where
  "ba_size b = int (length (ba_cells b))"

definition ba_null :: byte_array where
  "ba_null = \<lparr> ba_cells = [], ba_position = 0 \<rparr>"

definition expand_array :: "int \<Rightarrow> byte_array \<Rightarrow> byte_array res" where
  "expand_array sz b =
     asserting (0 < sz) (asserting (ba_size b \<le> sz)
       (Inr (b\<lparr> ba_cells := ba_cells b @ replicate (nat (sz - ba_size b)) None \<rparr>)))"

definition ba_new :: "int \<Rightarrow> byte_array res" where
  "ba_new sz = asserting (0 \<le> sz) (if 0 < sz then expand_array sz ba_null else Inr ba_null)"

text \<open>
  \<open>copyData\<close>: at most one expansion, to the larger of twice the size and 512, and then a loop
  that stores every byte whether or not the expansion made room for it.
\<close>

definition store_bytes :: "u8 option list \<Rightarrow> byte_array \<Rightarrow> (int \<times> byte_array) res" where
  "store_bytes bytes b =
     (let pos = ba_position b; len = int (length bytes) in
      if 0 \<le> pos \<and> pos + len \<le> ba_size b
      then Inr (len, b\<lparr> ba_cells := take (nat pos) (ba_cells b) @ bytes @ drop (nat (pos + len)) (ba_cells b),
                       ba_position := pos + len \<rparr>)
      else Inl UndefinedBehaviour)"

definition copy_data :: "u8 option list \<Rightarrow> byte_array \<Rightarrow> (int \<times> byte_array) res" where
  "copy_data bytes b =
     (let len = int (length bytes) in
      asserting (0 < len)
       (rbind (if ba_size b - ba_position b < len
               then expand_array (max (ba_size b * 2) 512) b else Inr b)
         (store_bytes bytes)))"

definition ba_copy :: "byte_array \<Rightarrow> byte_array res" where
  "ba_copy other = rbind (copy_data (ba_cells other) ba_null) (\<lambda>(n, b). Inr b)"

definition ba_append :: "byte_array \<Rightarrow> byte_array \<Rightarrow> byte_array res" where
  "ba_append b rhs = rbind (copy_data (ba_cells rhs) b) (\<lambda>(n, b). Inr b)"

text \<open>Little-endian representation of an integer in \<open>n\<close> bytes, and the unsigned value back.\<close>

fun le_bytes :: "nat \<Rightarrow> int \<Rightarrow> u8 list" where
  "le_bytes 0 x = []"
| "le_bytes (Suc n) x = word_of_int x # le_bytes n (x div 256)"

fun le_value :: "u8 list \<Rightarrow> int" where
  "le_value [] = 0"
| "le_value (b # bs) = uint b + 256 * le_value bs"

definition ba_write :: "u8 list \<Rightarrow> byte_array \<Rightarrow> (int \<times> byte_array) res" where
  "ba_write bytes b = copy_data (map Some bytes) b"

definition ba_write_int8 :: "u8 \<Rightarrow> byte_array \<Rightarrow> (int \<times> byte_array) res" where
  "ba_write_int8 c b = copy_data [Some c] b"

definition ba_write_int16 :: "int \<Rightarrow> byte_array \<Rightarrow> (int \<times> byte_array) res" where
  "ba_write_int16 x b = copy_data (map Some (le_bytes 2 x)) b"

definition ba_write_int32 :: "int \<Rightarrow> byte_array \<Rightarrow> (int \<times> byte_array) res" where
  "ba_write_int32 x b = copy_data (map Some (le_bytes 4 x)) b"

definition ba_write_int64 :: "int \<Rightarrow> byte_array \<Rightarrow> (int \<times> byte_array) res" where
  "ba_write_int64 x b = copy_data (map Some (le_bytes 8 x)) b"

definition ba_write_string :: "u8 list \<Rightarrow> byte_array \<Rightarrow> (int \<times> byte_array) res" where
  "ba_write_string str b =
     rbind (copy_data (map Some (le_bytes 4 (int (length str)))) b)
       (\<lambda>(n, b'). if str = [] then Inr (0, b') else copy_data (map Some str) b')"

text \<open>
  \<open>Flush\<close>: the device is the argument, a function from the bytes handed to it to the count it
  says it wrote. The stream variant drops the buffer, the datagram variant keeps it.
\<close>

definition ba_flush :: "(u8 option list \<Rightarrow> int) \<Rightarrow> byte_array \<Rightarrow> (bool \<times> byte_array) res" where
  "ba_flush device b =
     (if ba_position b \<le> 0 then Inr (True, b)
      else asserting (ba_cells b \<noteq> [])
        (if device (take (nat (ba_position b)) (ba_cells b)) \<noteq> ba_position b
         then Inl ExceptionThrown else Inr (True, ba_null)))"

definition ba_flush_datagram ::
  "(u8 option list \<Rightarrow> 'h \<Rightarrow> int \<Rightarrow> int) \<Rightarrow> 'h \<Rightarrow> int \<Rightarrow> byte_array \<Rightarrow> (bool \<times> byte_array) res" where
  "ba_flush_datagram device host port b =
     (if ba_position b \<le> 0 then Inr (True, b)
      else asserting (ba_cells b \<noteq> [])
        (if device (take (nat (ba_position b)) (ba_cells b)) host port \<noteq> ba_position b
         then Inl ExceptionThrown else Inr (True, b)))"

definition ba_is_empty :: "byte_array \<Rightarrow> bool" where
  "ba_is_empty b = (ba_position b = 0)"

definition ba_set_position :: "int \<Rightarrow> byte_array \<Rightarrow> bool \<times> byte_array" where
  "ba_set_position pos b =
     (if ba_size b < pos then (False, b) else (False, b\<lparr> ba_position := pos \<rparr>))"

definition ba_clear :: "byte_array \<Rightarrow> byte_array" where
  "ba_clear b = ba_null"

section \<open>InByteArray\<close>

record in_byte_array =
  ib_data :: "u8 list"
  ib_position :: int

definition ib_size :: "in_byte_array \<Rightarrow> int" where
  "ib_size r = int (length (ib_data r))"

definition ib_new :: "u8 list \<Rightarrow> in_byte_array" where
  "ib_new data = \<lparr> ib_data = data, ib_position = 0 \<rparr>"

definition expand_and_copy_array :: "u8 list \<Rightarrow> in_byte_array \<Rightarrow> in_byte_array res" where
  "expand_and_copy_array data r =
     asserting (data \<noteq> []) (Inr (r\<lparr> ib_data := ib_data r @ data \<rparr>))"

text \<open>Reading a cell nobody wrote is undefined: the copy goes through the first \<open>GetLength()\<close> cells.\<close>

fun defined_bytes :: "u8 option list \<Rightarrow> u8 list res" where
  "defined_bytes [] = Inr []"
| "defined_bytes (None # cs) = Inl UndefinedBehaviour"
| "defined_bytes (Some c # cs) = rbind (defined_bytes cs) (\<lambda>bs. Inr (c # bs))"

definition ba_contents :: "byte_array \<Rightarrow> u8 list res" where
  "ba_contents b = defined_bytes (take (nat (ba_position b)) (ba_cells b))"

definition ib_of_byte_array :: "byte_array \<Rightarrow> in_byte_array res" where
  "ib_of_byte_array other =
     rbind (ba_contents other) (\<lambda>bs. expand_and_copy_array bs (ib_new []))"

definition ib_append :: "in_byte_array \<Rightarrow> in_byte_array \<Rightarrow> in_byte_array res" where
  "ib_append r other = expand_and_copy_array (ib_data other) r"

definition ib_set_read_position :: "int \<Rightarrow> in_byte_array \<Rightarrow> (bool \<times> in_byte_array) res" where
  "ib_set_read_position pos r =
     asserting (0 \<le> pos)
       (if ib_size r < pos then Inr (False, r) else Inr (True, r\<lparr> ib_position := pos \<rparr>))"

definition ib_set_position :: "int \<Rightarrow> in_byte_array \<Rightarrow> bool \<times> in_byte_array" where
  "ib_set_position pos r =
     (if ib_size r < pos then (False, r) else (False, r\<lparr> ib_position := pos \<rparr>))"

definition ib_is_empty :: "in_byte_array \<Rightarrow> bool" where
  "ib_is_empty r = (ib_position r = 0)"

definition ib_clear :: "in_byte_array \<Rightarrow> in_byte_array" where
  "ib_clear r = ib_new []"

definition read_data :: "int \<Rightarrow> in_byte_array \<Rightarrow> (u8 list \<times> in_byte_array) res" where
  "read_data len r =
     asserting (0 < len)
      (if ib_size r - ib_position r < len then Inl ExceptionThrown
       else if ib_data r = [] then Inl ExceptionThrown
       else if ib_position r < 0 then Inl UndefinedBehaviour
       else Inr (take (nat len) (drop (nat (ib_position r)) (ib_data r)),
                 r\<lparr> ib_position := ib_position r + len \<rparr>))"

definition ib_read_int8 :: "in_byte_array \<Rightarrow> (u8 \<times> in_byte_array) res" where
  "ib_read_int8 r = rbind (read_data 1 r) (\<lambda>(bs, r'). Inr (hd bs, r'))"

definition wrap16 :: "int \<Rightarrow> int" where
  "wrap16 x = (x + 32768) mod 65536 - 32768"

definition ib_read_int16 :: "in_byte_array \<Rightarrow> (int \<times> in_byte_array) res" where
  "ib_read_int16 r = rbind (read_data 2 r) (\<lambda>(bs, r'). Inr (wrap16 (le_value bs), r'))"

definition ib_read_int32 :: "in_byte_array \<Rightarrow> (int \<times> in_byte_array) res" where
  "ib_read_int32 r = rbind (read_data 4 r) (\<lambda>(bs, r'). Inr (wrap32 (le_value bs), r'))"

definition ib_read_int64 :: "in_byte_array \<Rightarrow> (int \<times> in_byte_array) res" where
  "ib_read_int64 r = rbind (read_data 8 r) (\<lambda>(bs, r'). Inr (wrap64 (le_value bs), r'))"

text \<open>\<open>ReadString\<close>: the bytes are copied into a C string, so the value stops at the first NUL.\<close>

definition ib_read_string :: "in_byte_array \<Rightarrow> (u8 list \<times> in_byte_array) res" where
  "ib_read_string r =
     rbind (ib_read_int32 r)
       (\<lambda>(len, r'). if len \<le> 0 then Inr ([], r')
          else rbind (read_data len r') (\<lambda>(bs, r''). Inr (takeWhile (\<lambda>c. c \<noteq> 0) bs, r'')))"

section \<open>Facts about the buffers\<close>

text \<open>
  A buffer is well-formed when the position lies inside it; \<open>ba_written\<close> abstracts it to the
  bytes before the position and \<open>ib_unread\<close> an input buffer to the bytes after it.
\<close>

definition ba_ok :: "byte_array \<Rightarrow> bool" where
  "ba_ok b \<longleftrightarrow> 0 \<le> ba_position b \<and> ba_position b \<le> ba_size b"

definition ba_written :: "byte_array \<Rightarrow> u8 option list" where
  "ba_written b = take (nat (ba_position b)) (ba_cells b)"

definition ib_ok :: "in_byte_array \<Rightarrow> bool" where
  "ib_ok r \<longleftrightarrow> 0 \<le> ib_position r \<and> ib_position r \<le> ib_size r"

definition ib_unread :: "in_byte_array \<Rightarrow> u8 list" where
  "ib_unread r = drop (nat (ib_position r)) (ib_data r)"

lemma length_ba_written: "ba_ok b \<Longrightarrow> int (length (ba_written b)) = ba_position b"
  by (auto simp: ba_ok_def ba_written_def ba_size_def min_def)

lemma expand_array_ok:
  assumes "0 < sz" "ba_size b \<le> sz"
  shows "expand_array sz b = Inr (b\<lparr> ba_cells := ba_cells b @ replicate (nat (sz - ba_size b)) None \<rparr>)"
  using assms by (simp add: expand_array_def)

lemma store_bytes_ok:
  assumes "ba_ok b" "ba_position b + int (length bs) \<le> ba_size b"
  shows "\<exists>b'. store_bytes bs b = Inr (int (length bs), b') \<and> ba_ok b' \<and>
           ba_written b' = ba_written b @ bs \<and> ba_size b' = ba_size b"
proof -
  have "nat (ba_position b) + length bs \<le> length (ba_cells b)" "0 \<le> ba_position b"
    using assms by (auto simp: ba_ok_def ba_size_def)
  then show ?thesis using assms
    by (auto simp: store_bytes_def Let_def ba_ok_def ba_size_def ba_written_def nat_add_distrib)
qed

lemma ba_expanded:
  assumes "ba_ok b" "ba_size b \<le> sz"
  defines "b' \<equiv> b\<lparr> ba_cells := ba_cells b @ replicate (nat (sz - ba_size b)) None \<rparr>"
  shows "ba_ok b'" "ba_written b' = ba_written b" "ba_size b' = sz" "ba_position b' = ba_position b"
  using assms by (auto simp: ba_ok_def ba_written_def ba_size_def nat_le_iff)

lemma copy_data_expands:
  assumes "ba_ok b" "bs \<noteq> []" "ba_size b < ba_position b + int (length bs)"
  obtains b' where "copy_data bs b = store_bytes bs b'" "ba_ok b'" "ba_written b' = ba_written b"
    "ba_size b' = max (ba_size b * 2) 512" "ba_position b' = ba_position b"
proof -
  let ?sz = "max (ba_size b * 2) 512"
  have "0 \<le> ba_size b" by (simp add: ba_size_def)
  then have sz: "0 < ?sz" "ba_size b \<le> ?sz" by auto
  let ?b = "b\<lparr> ba_cells := ba_cells b @ replicate (nat (?sz - ba_size b)) None \<rparr>"
  have "copy_data bs b = store_bytes bs ?b"
    using assms by (simp add: copy_data_def expand_array_ok[OF sz])
  then show thesis using that ba_expanded[OF assms(1) sz(2)] by blast
qed

lemma copy_data_room:
  assumes "ba_ok b" "bs \<noteq> []" "ba_position b + int (length bs) \<le> max (ba_size b * 2) 512"
  shows "\<exists>b'. copy_data bs b = Inr (int (length bs), b') \<and> ba_ok b' \<and>
           ba_written b' = ba_written b @ bs \<and> ba_size b \<le> ba_size b'"
proof (cases "ba_size b < ba_position b + int (length bs)")
  case True
  then obtain b' where b': "copy_data bs b = store_bytes bs b'" "ba_ok b'"
      "ba_written b' = ba_written b" "ba_size b' = max (ba_size b * 2) 512"
      "ba_position b' = ba_position b"
    using copy_data_expands assms by metis
  have "ba_size b \<le> ba_size b'" using b'(4) by (simp add: ba_size_def)
  then show ?thesis using store_bytes_ok[OF b'(2), of bs] assms(3) b' by auto
next
  case False
  then show ?thesis using store_bytes_ok[OF assms(1), of bs] assms(2) by (auto simp: copy_data_def)
qed

lemma copy_data_no_room:
  assumes "ba_ok b" "bs \<noteq> []" "max (ba_size b * 2) 512 < ba_position b + int (length bs)"
  shows "copy_data bs b = Inl UndefinedBehaviour"
proof -
  have "ba_size b < ba_position b + int (length bs)"
    using assms(3) unfolding ba_size_def by linarith
  then obtain b' where b': "copy_data bs b = store_bytes bs b'"
      "ba_size b' = max (ba_size b * 2) 512" "ba_position b' = ba_position b"
    using copy_data_expands assms by metis
  then show ?thesis using assms(3) by (simp add: store_bytes_def Let_def)
qed

lemma le_bytes_length [simp]: "length (le_bytes n x) = n"
  by (induction n arbitrary: x) simp_all

lemma le_value_le_bytes: "le_value (le_bytes n x) = x mod 256 ^ n"
proof (induction n arbitrary: x)
  case (Suc n)
  have "x mod (256 * 256 ^ n) = 256 * (x div 256 mod 256 ^ n) + x mod 256"
    by (rule zmod_zmult2_eq) simp
  then show ?case using Suc by (simp add: uint_word_of_int)
qed simp

lemma le_value_int8 [simp]: "le_bytes (Suc 0) x = [word_of_int x]"
  by simp

lemma wrap_mod [simp]:
  "wrap32 (x mod 4294967296) = wrap32 x"
  "wrap64 (x mod 18446744073709551616) = wrap64 x"
  "wrap16 (x mod 65536) = wrap16 x"
  by (simp_all add: wrap32_def wrap64_def wrap16_def mod_add_left_eq)

section \<open>Properties\<close>

text \<open>Writing to a \<open>ByteArray\<close> appends exactly the given bytes when they fit the one growth step
  \<open>copyData\<close> makes, to the larger of twice the size and 512; when they do not, the copy loop runs past
  the end of the allocation.\<close>

theorem copy_data_exact:
  assumes "ba_ok b" "bs \<noteq> []"
  shows "if ba_position b + int (length bs) \<le> max (ba_size b * 2) 512
    then \<exists>b'. copy_data bs b = Inr (int (length bs), b') \<and> ba_ok b' \<and> ba_written b' = ba_written b @ bs
    else copy_data bs b = Inl UndefinedBehaviour"
proof (cases "ba_position b + int (length bs) \<le> max (ba_size b * 2) 512")
  case True
  then show ?thesis using copy_data_room[OF assms True] by auto
next
  case False
  then have "max (ba_size b * 2) 512 < ba_position b + int (length bs)" by linarith
  from copy_data_no_room[OF assms this] False show ?thesis by simp
qed

theorem copy_data_exact_witness:
  "copy_data (replicate 600 (Some 0)) ba_null = Inl UndefinedBehaviour"
  using copy_data_exact[of ba_null "replicate 600 (Some 0)"]
  by (simp add: ba_null_def ba_ok_def ba_size_def)

end
