(* ===== verification/Codec.thy ===== *)
theory Codec
  imports Serialize
begin

text \<open>
  The contract between an element class (\<open>NetObjectBase\<close>: \<open>Write\<close> and \<open>Read\<close>) and the two
  buffers. \<open>emits\<close> and \<open>consumes\<close> state what one writer and one reader do to the abstract
  contents of a buffer; the locale \<open>wire_codec\<close> collects both for a class and yields the round trip
  through a buffer. Every element with a serialised form interprets it.
\<close>

named_theorems emits_intros "byte sequences writers emit"
named_theorems consumes_intros "byte sequences readers consume"

type_synonym writer = "byte_array \<Rightarrow> byte_array res"
type_synonym 'a reader = "in_byte_array \<Rightarrow> ('a \<times> in_byte_array) res"

text \<open>The element classes ignore the count a \<open>Write\<close> call returns.\<close>

definition dropping_count :: "(byte_array \<Rightarrow> (int \<times> byte_array) res) \<Rightarrow> writer" where
  "dropping_count f b = rbind (f b) (\<lambda>(n, b'). Inr b')"

definition put_bytes :: "u8 list \<Rightarrow> writer" where "put_bytes bs = dropping_count (ba_write bs)"
definition put_int8 :: "u8 \<Rightarrow> writer" where "put_int8 c = dropping_count (ba_write_int8 c)"
definition put_int16 :: "int \<Rightarrow> writer" where "put_int16 x = dropping_count (ba_write_int16 x)"
definition put_int32 :: "int \<Rightarrow> writer" where "put_int32 x = dropping_count (ba_write_int32 x)"
definition put_int64 :: "int \<Rightarrow> writer" where "put_int64 x = dropping_count (ba_write_int64 x)"

definition wseq :: "writer \<Rightarrow> writer \<Rightarrow> writer" where
  "wseq f g b = rbind (f b) g"

definition wskip :: writer where
  "wskip b = Inr b"

fun wseqs :: "writer list \<Rightarrow> writer" where
  "wseqs [] = wskip"
| "wseqs (f # fs) = wseq f (wseqs fs)"

definition rret :: "'a \<Rightarrow> 'a reader" where
  "rret x r = Inr (x, r)"

definition rthen :: "'a reader \<Rightarrow> ('a \<Rightarrow> 'b reader) \<Rightarrow> 'b reader" where
  "rthen f g r = rbind (f r) (\<lambda>(x, r'). g x r')"

fun repeat_read :: "nat \<Rightarrow> 'a reader \<Rightarrow> 'a list reader" where
  "repeat_read 0 f = rret []"
| "repeat_read (Suc n) f = rthen f (\<lambda>x. rthen (repeat_read n f) (\<lambda>xs. rret (x # xs)))"

section \<open>What writers emit and readers consume\<close>

definition emits :: "writer \<Rightarrow> u8 list \<Rightarrow> bool" where
  "emits w bs \<longleftrightarrow> (\<forall>b. ba_ok b \<longrightarrow>
     (\<exists>b'. w b = Inr b' \<and> ba_ok b' \<and> ba_written b' = ba_written b @ map Some bs))"

definition consumes :: "'a reader \<Rightarrow> u8 list \<Rightarrow> 'a \<Rightarrow> bool" where
  "consumes rd bs x \<longleftrightarrow> (\<forall>r rest. ib_ok r \<longrightarrow> ib_unread r = bs @ rest \<longrightarrow>
     (\<exists>r'. rd r = Inr (x, r') \<and> ib_ok r' \<and> ib_unread r' = rest))"

lemma emitsE:
  assumes "emits w bs" "ba_ok b"
  obtains b' where "w b = Inr b'" "ba_ok b'" "ba_written b' = ba_written b @ map Some bs"
  using assms unfolding emits_def by blast

lemma consumesE:
  assumes "consumes rd bs x" "ib_ok r" "ib_unread r = bs @ rest"
  obtains r' where "rd r = Inr (x, r')" "ib_ok r'" "ib_unread r' = rest"
  using assms unfolding consumes_def by blast

lemma emits_copy_data:
  assumes "bs \<noteq> []" "length bs \<le> 256"
  shows "emits (dropping_count (copy_data (map Some bs))) bs"
  unfolding emits_def
proof (intro allI impI)
  fix b assume "ba_ok b"
  moreover have "ba_position b + int (length bs) \<le> max (ba_size b * 2) 512"
    using \<open>ba_ok b\<close> assms(2) unfolding ba_ok_def by linarith
  ultimately show "\<exists>b'. dropping_count (copy_data (map Some bs)) b = Inr b' \<and> ba_ok b' \<and>
       ba_written b' = ba_written b @ map Some bs"
    using copy_data_room[of b "map Some bs"] assms(1) by (auto simp: dropping_count_def)
qed

lemma emits_put_bytes [emits_intros]:
  "bs \<noteq> [] \<Longrightarrow> length bs \<le> 256 \<Longrightarrow> emits (put_bytes bs) bs"
  unfolding put_bytes_def ba_write_def by (rule emits_copy_data)

lemma le_bytes_Nil_iff [simp]: "le_bytes n x = [] \<longleftrightarrow> n = 0"
  by (metis le_bytes_length length_0_conv)

lemma emits_put_ints [emits_intros]:
  "emits (put_int8 c) [c]"
  "emits (put_int16 x) (le_bytes 2 x)"
  "emits (put_int32 x) (le_bytes 4 x)"
  "emits (put_int64 x) (le_bytes 8 x)"
proof -
  have le: "emits (dropping_count (copy_data (map Some (le_bytes n x)))) (le_bytes n x)"
    if "0 < n" "n \<le> 256" for n
    using that emits_copy_data[of "le_bytes n x"] by (cases n) auto
  show "emits (put_int8 c) [c]"
    using emits_copy_data[of "[c]"] by (simp add: put_int8_def ba_write_int8_def[abs_def])
  show "emits (put_int16 x) (le_bytes 2 x)" "emits (put_int32 x) (le_bytes 4 x)"
    "emits (put_int64 x) (le_bytes 8 x)"
    using le[of 2] le[of 4] le[of 8]
    by (simp_all add: put_int16_def ba_write_int16_def[abs_def] put_int32_def
        ba_write_int32_def[abs_def] put_int64_def ba_write_int64_def[abs_def])
qed

lemma emits_wskip [emits_intros]: "emits wskip []"
  by (simp add: emits_def wskip_def)

lemma emits_wseq [emits_intros]: "emits f bs \<Longrightarrow> emits g cs \<Longrightarrow> emits (wseq f g) (bs @ cs)"
  unfolding emits_def wseq_def by fastforce

lemma emits_wseqs_Nil [emits_intros]: "emits (wseqs []) []"
  by (simp add: emits_wskip)

lemma emits_wseqs [emits_intros]:
  "emits f bs \<Longrightarrow> emits (wseqs fs) cs \<Longrightarrow> emits (wseqs (f # fs)) (bs @ cs)"
  by (simp add: emits_wseq)

lemma emits_wseqs_map:
  "(\<And>x. x \<in> set xs \<Longrightarrow> emits (f x) (e x)) \<Longrightarrow> emits (wseqs (map f xs)) (concat (map e xs))"
  by (induction xs) (auto intro!: emits_wskip emits_wseq)

lemma consumes_rret [consumes_intros]: "consumes (rret x) [] x"
  by (simp add: consumes_def rret_def)

lemma consumes_rret_eq: "x = y \<Longrightarrow> consumes (rret x) [] y"
  by (simp add: consumes_rret)

lemma consumes_rthen [consumes_intros]:
  assumes "consumes f bs x" "consumes (g x) cs y"
  shows "consumes (rthen f g) (bs @ cs) y"
  unfolding consumes_def
proof (intro allI impI)
  fix r rest assume r: "ib_ok r" "ib_unread r = (bs @ cs) @ rest"
  obtain r1 where r1: "f r = Inr (x, r1)" "ib_ok r1" "ib_unread r1 = cs @ rest"
    using consumesE[OF assms(1) r(1)] r(2) by (metis append.assoc)
  obtain r2 where "g x r1 = Inr (y, r2)" "ib_ok r2" "ib_unread r2 = rest"
    using consumesE[OF assms(2) r1(2,3)] .
  then show "\<exists>r'. rthen f g r = Inr (y, r') \<and> ib_ok r' \<and> ib_unread r' = rest"
    using r1 by (simp add: rthen_def)
qed

lemma consumes_rthen_last:
  "consumes f bs x \<Longrightarrow> consumes (g x) [] y \<Longrightarrow> consumes (rthen f g) bs y"
  using consumes_rthen[of f bs x g "[]" y] by simp

lemma consumes_rthen_ret [consumes_intros]:
  "consumes f bs x \<Longrightarrow> y = g x \<Longrightarrow> consumes (rthen f (\<lambda>x. rret (g x))) bs y"
  using consumes_rthen[of f bs x "\<lambda>x. rret (g x)" "[]" y] consumes_rret[of y] by simp

lemma consumes_repeat_read:
  "(\<And>x. x \<in> set xs \<Longrightarrow> consumes f (e x) x) \<Longrightarrow>
   consumes (repeat_read (length xs) f) (concat (map e xs)) xs"
proof (induction xs)
  case (Cons x xs)
  then show ?case
    by (auto intro!: consumes_rthen[of f "e x" x] consumes_rthen_ret)
qed (simp add: consumes_rret)

lemma consumes_read_data:
  assumes "bs \<noteq> []" shows "consumes (read_data (int (length bs))) bs bs"
  unfolding consumes_def
proof (intro allI impI)
  fix r rest assume r: "ib_ok r" "ib_unread r = bs @ rest"
  from r have pos: "0 \<le> ib_position r" "ib_position r \<le> int (length (ib_data r))"
    by (simp_all add: ib_ok_def ib_size_def)
  have "length (ib_data r) - nat (ib_position r) = length bs + length rest"
    using arg_cong[OF r(2), of length] by (simp add: ib_unread_def)
  then have len: "int (length bs) + int (length rest) = int (length (ib_data r)) - ib_position r"
    using pos by linarith
  then have "ib_data r \<noteq> []" using assms pos by (cases bs) auto
  moreover have "drop (nat (ib_position r + int (length bs))) (ib_data r) = rest"
    using r(2) pos(1) unfolding ib_unread_def
    by (simp add: nat_add_distrib add.commute[of "nat (ib_position r)"] flip: drop_drop)
  ultimately show "\<exists>r'. read_data (int (length bs)) r = Inr (bs, r') \<and> ib_ok r' \<and> ib_unread r' = rest"
    using assms r(2) pos len
    by (auto simp: read_data_def ib_size_def ib_ok_def ib_unread_def)
qed

text \<open>The integer readers, as readers in the sense of this theory.\<close>

definition get_bytes :: "int \<Rightarrow> u8 list reader" where "get_bytes n = read_data n"
definition get_int8 :: "u8 reader" where "get_int8 = ib_read_int8"
definition get_int16 :: "int reader" where "get_int16 = ib_read_int16"
definition get_int32 :: "int reader" where "get_int32 = ib_read_int32"
definition get_int64 :: "int reader" where "get_int64 = ib_read_int64"

lemma consumes_get_bytes [consumes_intros]:
  "bs \<noteq> [] \<Longrightarrow> n = int (length bs) \<Longrightarrow> consumes (get_bytes n) bs bs"
  by (simp add: get_bytes_def consumes_read_data)

definition in_int16 :: "int \<Rightarrow> bool" where
  "in_int16 x \<longleftrightarrow> - 32768 \<le> x \<and> x < 32768"

lemma wrap16_id [simp]: "in_int16 x \<Longrightarrow> wrap16 x = x"
  by (simp add: wrap16_def in_int16_def)

lemma consumes_ints_wrap:
  fixes c :: u8 and x :: int
  shows "consumes get_int8 [c] c"
  "consumes get_int16 (le_bytes 2 x) (wrap16 x)"
  "consumes get_int32 (le_bytes 4 x) (wrap32 x)"
  "consumes get_int64 (le_bytes 8 x) (wrap64 x)"
proof -
  have rd: "consumes (\<lambda>r. rbind (read_data (int (length bs)) r) (\<lambda>(bs, r'). Inr (f bs, r'))) bs (f bs)"
    if "bs \<noteq> []" for bs :: "u8 list" and f :: "u8 list \<Rightarrow> 'b"
    using consumes_read_data[OF that] unfolding consumes_def by fastforce
  show "consumes get_int8 [c] c"
    using rd[of "[c]" hd] by (simp add: get_int8_def ib_read_int8_def[abs_def])
  have ne: "le_bytes 2 x \<noteq> []" "le_bytes 4 x \<noteq> []" "le_bytes 8 x \<noteq> []"
    by simp_all
  show "consumes get_int16 (le_bytes 2 x) (wrap16 x)"
    using rd[OF ne(1), of "wrap16 \<circ> le_value"]
    by (simp add: get_int16_def ib_read_int16_def[abs_def] le_value_le_bytes)
  show "consumes get_int32 (le_bytes 4 x) (wrap32 x)"
    using rd[OF ne(2), of "wrap32 \<circ> le_value"]
    by (simp add: get_int32_def ib_read_int32_def[abs_def] le_value_le_bytes)
  show "consumes get_int64 (le_bytes 8 x) (wrap64 x)"
    using rd[OF ne(3), of "wrap64 \<circ> le_value"]
    by (simp add: get_int64_def ib_read_int64_def[abs_def] le_value_le_bytes)
qed

lemma consumes_ints [consumes_intros]:
  "consumes get_int8 [c] c"
  "in_int16 x \<Longrightarrow> consumes get_int16 (le_bytes 2 x) x"
  "in_int32 x \<Longrightarrow> consumes get_int32 (le_bytes 4 x) x"
  "in_int64 x \<Longrightarrow> consumes get_int64 (le_bytes 8 x) x"
  using consumes_ints_wrap(1)[of c] consumes_ints_wrap(2-4)[of x] by simp_all

text \<open>A reader that fails on every buffer that goes on with the given bytes.\<close>

definition rejects :: "'a reader \<Rightarrow> u8 list \<Rightarrow> fault \<Rightarrow> bool" where
  "rejects rd bs e \<longleftrightarrow> (\<forall>r rest. ib_ok r \<longrightarrow> ib_unread r = bs @ rest \<longrightarrow> rd r = Inl e)"

lemma rejects_first: "rejects f bs e \<Longrightarrow> rejects (rthen f g) bs e"
  by (simp add: rejects_def rthen_def)

lemma rejects_first_append: "rejects f bs e \<Longrightarrow> rejects f (bs @ cs) e"
  by (simp add: rejects_def)

lemma rejects_then:
  assumes "consumes f bs x" "rejects (g x) cs e"
  shows "rejects (rthen f g) (bs @ cs) e"
  unfolding rejects_def
proof (intro allI impI)
  fix r rest assume r: "ib_ok r" "ib_unread r = (bs @ cs) @ rest"
  obtain r1 where "f r = Inr (x, r1)" "ib_ok r1" "ib_unread r1 = cs @ rest"
    using consumesE[OF assms(1) r(1)] r(2) by (metis append.assoc)
  then show "rthen f g r = Inl e" using assms(2) by (simp add: rthen_def rejects_def)
qed

section \<open>The codec interface\<close>

text \<open>One object written to a fresh buffer of the default size, handed over and read back.\<close>

definition transfer :: "('a \<Rightarrow> writer) \<Rightarrow> 'b reader \<Rightarrow> 'a \<Rightarrow> 'b res" where
  "transfer wr rd x =
     rbind (ba_new 512) (\<lambda>b. rbind (wr x b) (\<lambda>b'.
       rbind (ib_of_byte_array b') (\<lambda>r. rbind (rd r) (\<lambda>(y, r'). Inr y))))"

lemma ba_new_ok: "\<exists>b. ba_new 512 = Inr b \<and> ba_ok b \<and> ba_written b = []"
  by (auto simp: ba_new_def expand_array_def ba_null_def ba_ok_def ba_written_def ba_size_def)

lemma defined_bytes_map_Some: "defined_bytes (map Some bs) = Inr bs"
  by (induction bs) auto

lemma transfer_consumes_prefix:
  assumes "emits (wr x) (bs @ cs)" "bs \<noteq> []" "consumes rd bs y"
  shows "transfer wr rd x = Inr y"
proof -
  obtain b where b: "ba_new 512 = Inr b" "ba_ok b" "ba_written b = []" using ba_new_ok by blast
  obtain b' where b': "wr x b = Inr b'" "ba_written b' = map Some (bs @ cs)"
    using emitsE[OF assms(1) b(2)] b(3) by (metis append_Nil)
  have "ib_of_byte_array b' = Inr (ib_new (bs @ cs))"
    using b'(2) assms(2)
    by (simp add: ib_of_byte_array_def ba_contents_def ba_written_def[symmetric]
        defined_bytes_map_Some expand_and_copy_array_def ib_new_def del: map_append)
  moreover have "ib_ok (ib_new (bs @ cs))" "ib_unread (ib_new (bs @ cs)) = bs @ cs"
    by (simp_all add: ib_ok_def ib_new_def ib_size_def ib_unread_def)
  then obtain r' where "rd (ib_new (bs @ cs)) = Inr (y, r')" using consumesE[OF assms(3)] by blast
  ultimately show ?thesis using b b' by (simp add: transfer_def)
qed

lemma transfer_consumes:
  "emits (wr x) bs \<Longrightarrow> bs \<noteq> [] \<Longrightarrow> consumes rd bs y \<Longrightarrow> transfer wr rd x = Inr y"
  using transfer_consumes_prefix[of wr x bs "[]" rd y] by simp

lemma transfer_rejects:
  assumes "emits (wr x) bs" "bs \<noteq> []" "rejects rd bs e"
  shows "transfer wr rd x = Inl e"
proof -
  obtain b where b: "ba_new 512 = Inr b" "ba_ok b" "ba_written b = []" using ba_new_ok by blast
  obtain b' where b': "wr x b = Inr b'" "ba_written b' = map Some bs"
    using emitsE[OF assms(1) b(2)] b(3) by (metis append_Nil)
  have "ib_of_byte_array b' = Inr (ib_new bs)"
    using b'(2) assms(2)
    by (simp add: ib_of_byte_array_def ba_contents_def ba_written_def[symmetric]
        defined_bytes_map_Some expand_and_copy_array_def ib_new_def)
  moreover have "rd (ib_new bs) = Inl e"
    using assms(3) by (simp add: rejects_def ib_ok_def ib_new_def ib_size_def ib_unread_def)
  ultimately show ?thesis using b b' by (simp add: transfer_def)
qed

locale wire_codec =
  fixes valid :: "'a \<Rightarrow> bool" and enc :: "'a \<Rightarrow> u8 list"
    and wr :: "'a \<Rightarrow> writer" and rd :: "'a reader"
  assumes wr_emits: "valid x \<Longrightarrow> emits (wr x) (enc x)"
    and rd_consumes: "valid x \<Longrightarrow> consumes rd (enc x) x"
    and enc_nonempty: "valid x \<Longrightarrow> enc x \<noteq> []"
begin

lemma transfer_id: "valid x \<Longrightarrow> transfer wr rd x = Inr x"
  by (rule transfer_consumes[OF wr_emits enc_nonempty rd_consumes])

lemma enc_prefix_free:
  assumes "valid x" "valid y" "enc x @ bs = enc y @ cs"
  shows "x = y"
proof -
  have ok: "ib_ok (ib_new (enc x @ bs))" "ib_unread (ib_new (enc x @ bs)) = enc x @ bs"
    by (simp_all add: ib_ok_def ib_new_def ib_size_def ib_unread_def)
  obtain r where "rd (ib_new (enc x @ bs)) = Inr (x, r)"
    using consumesE[OF rd_consumes[OF assms(1)] ok] .
  moreover obtain r' where "rd (ib_new (enc x @ bs)) = Inr (y, r')"
    using consumesE[OF rd_consumes[OF assms(2)] ok(1)] ok(2) assms(3) by metis
  ultimately show ?thesis by simp
qed

lemma list_emits: "list_all valid xs \<Longrightarrow> emits (wseqs (map wr xs)) (concat (map enc xs))"
  by (rule emits_wseqs_map) (auto simp: list_all_iff wr_emits)

lemma list_consumes:
  "list_all valid xs \<Longrightarrow> consumes (repeat_read (length xs) rd) (concat (map enc xs)) xs"
  by (rule consumes_repeat_read) (auto simp: list_all_iff rd_consumes)

end

interpretation int64_codec: wire_codec in_int64 "le_bytes 8" put_int64 get_int64
  by unfold_locales (auto intro: emits_intros consumes_intros)

interpretation int32_codec: wire_codec in_int32 "le_bytes 4" put_int32 get_int32
  by unfold_locales (auto intro: emits_intros consumes_intros)

end
