(* ===== verification/Sequence_Number.thy ===== *)
theory Sequence_Number
  imports Ordered_Map Codec
begin

text \<open>
  \<open>RTPS/Elements/SequenceNumber.h\<close>: the 64-bit sequence number kept as a signed high half
  (\<open>long high_\<close>) and a low half (\<open>int64 low_\<close>) in base 2^32, with its increment, predecessor,
  addition and the wrap-around comparison that orders the caches and the proxy maps.
\<close>

record sequence_number =
  sn_high :: int
  sn_low :: int

definition mk_sn :: "int \<Rightarrow> int \<Rightarrow> sequence_number" where
  "mk_sn h l = \<lparr> sn_high = h, sn_low = l \<rparr>"

text \<open>\<open>setValue\<close>: values below \<open>MIN_VALUE = 1\<close> are clamped to it.\<close>

definition sn_of_value :: "int \<Rightarrow> sequence_number" where
  "sn_of_value v =
     (let v' = (if v < 1 then 1 else v)
      in mk_sn (v' div 4294967296) (v' mod 4294967296))"

definition sn_unknown :: sequence_number where
  "sn_unknown = mk_sn (- 1) 0"

text \<open>\<open>GetSequenceNumber\<close>, at the width of \<open>int64_t\<close>.\<close>

definition sn_get :: "sequence_number \<Rightarrow> int" where
  "sn_get s = wrap64 (4294967296 * sn_high s + sn_low s)"

text \<open>\<open>operator++\<close>\<close>

definition sn_inc :: "sequence_number \<Rightarrow> sequence_number" where
  "sn_inc s =
     (if sn_low s = uint32_max
      then if sn_high s = int32_max then mk_sn 0 1 else mk_sn (sn_high s + 1) 0
      else s\<lparr> sn_low := sn_low s + 1 \<rparr>)"

definition sn_previous :: "sequence_number \<Rightarrow> sequence_number" where
  "sn_previous s =
     (if sn_low s = 1 \<and> sn_high s = 0 then mk_sn int32_max uint32_max
      else if sn_low s = 0 then mk_sn (sn_high s - 1) uint32_max
      else s\<lparr> sn_low := sn_low s - 1 \<rparr>)"

text \<open>\<open>operator<\<close> and the comparisons derived from it.\<close>

definition sn_less :: "sequence_number \<Rightarrow> sequence_number \<Rightarrow> bool" where
  "sn_less a b =
     (let distance = (sn_high b - sn_high a) * 2
      in if distance = 0 then sn_low a < sn_low b
         else if distance < 0 then int32_max < - distance
         else distance < int32_max)"

definition sn_ge :: "sequence_number \<Rightarrow> sequence_number \<Rightarrow> bool" where
  "sn_ge a b = (\<not> sn_less a b)"

definition sn_le :: "sequence_number \<Rightarrow> sequence_number \<Rightarrow> bool" where
  "sn_le a b = (\<not> sn_less b a)"

definition sn_greater :: "sequence_number \<Rightarrow> sequence_number \<Rightarrow> bool" where
  "sn_greater a b = (sn_less b a \<and> a \<noteq> b)"

text \<open>\<open>operator+(SequenceNumber, int)\<close>\<close>

definition sn_plus :: "sequence_number \<Rightarrow> int \<Rightarrow> sequence_number" where
  "sn_plus s n = sn_of_value (wrap64 (sn_get s + n))"

text \<open>\<open>Write\<close> and \<open>Read\<close>: both halves as 64-bit integers.\<close>

definition write_sn :: "sequence_number \<Rightarrow> writer" where
  "write_sn s = wseq (put_int64 (sn_high s)) (put_int64 (sn_low s))"

definition read_sn :: "sequence_number reader" where
  "read_sn = rthen get_int64 (\<lambda>h. rthen get_int64 (\<lambda>l. rret (mk_sn h l)))"

definition sn_SIZE :: int where
  "sn_SIZE = 8"

section \<open>Well-formedness\<close>

text \<open>
  The numbers the public constructor and the operators produce: the high half in
  \<open>0 .. INT32_MAX\<close>, the low half in \<open>0 .. UINT32_MAX\<close>, and not the pair \<open>(0, 0)\<close>.
\<close>

definition sn_valid :: "sequence_number \<Rightarrow> bool" where
  "sn_valid s \<longleftrightarrow> 0 \<le> sn_high s \<and> sn_high s \<le> int32_max
     \<and> 0 \<le> sn_low s \<and> sn_low s \<le> uint32_max \<and> (sn_high s, sn_low s) \<noteq> (0, 0)"

definition sn_max :: sequence_number where
  "sn_max = mk_sn int32_max uint32_max"

lemmas sn_defs = mk_sn_def sn_of_value_def sn_unknown_def sn_get_def sn_inc_def sn_previous_def
  sn_less_def sn_ge_def sn_le_def sn_greater_def sn_plus_def int32_max_def uint32_max_def

lemma sn_valid_get:
  "sn_valid s \<Longrightarrow> sn_get s = 4294967296 * sn_high s + sn_low s"
  unfolding sn_get_def by (rule wrap64_id) (auto simp: sn_valid_def in_int64_def sn_defs)

lemma sn_valid_get_range:
  assumes "sn_valid s" shows "1 \<le> sn_get s" and "sn_get s \<le> 9223372036854775807"
  using assms unfolding sn_valid_get[OF assms] by (auto simp: sn_valid_def sn_defs)

lemma sn_of_value_valid: "in_int64 v \<Longrightarrow> sn_valid (sn_of_value v)"
proof -
  assume v: "in_int64 v"
  define w where "w = (if v < 1 then 1 else v)"
  have w: "1 \<le> w" "w < 9223372036854775808" using v by (auto simp: w_def in_int64_def)
  then have "0 \<le> w div 4294967296" "w div 4294967296 \<le> 2147483647" by auto
  moreover have "w = 4294967296 * (w div 4294967296) + w mod 4294967296" by simp
  ultimately show ?thesis using w
    by (auto simp: sn_valid_def sn_defs Let_def w_def[symmetric] split: if_splits)
qed

lemma sn_get_of_value:
  assumes "1 \<le> v" "v < 9223372036854775808"
  shows "sn_get (sn_of_value v) = v"
  using assms by (simp add: sn_defs Let_def in_int64_def)

lemma sn_of_value_get:
  assumes "sn_valid s" shows "sn_of_value (sn_get s) = s"
proof -
  have "sn_get s \<ge> 1" using sn_valid_get_range[OF assms] by simp
  then show ?thesis using assms unfolding sn_valid_get[OF assms]
    by (auto simp: sn_of_value_def mk_sn_def sn_valid_def uint32_max_def)
qed

lemma sn_get_inj: "sn_valid a \<Longrightarrow> sn_valid b \<Longrightarrow> sn_get a = sn_get b \<longleftrightarrow> a = b"
  using sn_of_value_get by metis

lemma sn_valid_inc: "sn_valid s \<Longrightarrow> sn_valid (sn_inc s)"
  by (auto simp: sn_valid_def sn_defs)

lemma sn_get_inc:
  assumes "sn_valid s" "s \<noteq> sn_max" shows "sn_get (sn_inc s) = sn_get s + 1"
  using assms unfolding sn_valid_get[OF assms(1)] sn_valid_get[OF sn_valid_inc[OF assms(1)]]
  by (auto simp: sn_inc_def sn_max_def mk_sn_def sn_valid_def int32_max_def uint32_max_def)

lemma sn_max_get: "sn_get sn_max = 9223372036854775807"
  by (simp add: sn_max_def sn_defs in_int64_def)

lemma sn_valid_plus: "sn_valid (sn_plus s n)"
  by (simp add: sn_plus_def sn_of_value_valid wrap64_range)

lemma sn_get_plus:
  assumes "sn_valid s" "1 \<le> sn_get s + n" "sn_get s + n < 9223372036854775808"
  shows "sn_get (sn_plus s n) = sn_get s + n"
  using assms by (simp add: sn_plus_def sn_get_of_value in_int64_def)

section \<open>The comparison\<close>

definition sn_near :: "sequence_number \<Rightarrow> sequence_number \<Rightarrow> bool" where
  "sn_near a b \<longleftrightarrow> \<bar>sn_high b - sn_high a\<bar> < 1073741824"

lemma sn_less_near:
  assumes "sn_valid a" "sn_valid b" "sn_near a b"
  shows "sn_less a b \<longleftrightarrow> sn_get a < sn_get b"
  using assms unfolding sn_valid_get[OF assms(1)] sn_valid_get[OF assms(2)]
  by (auto simp: sn_less_def sn_near_def sn_valid_def int32_max_def uint32_max_def Let_def)

lemma sn_less_far:
  assumes "sn_valid a" "sn_valid b" "\<not> sn_near a b"
  shows "sn_less a b \<longleftrightarrow> sn_get b < sn_get a"
  using assms unfolding sn_valid_get[OF assms(1)] sn_valid_get[OF assms(2)]
  by (auto simp: sn_less_def sn_near_def sn_valid_def int32_max_def uint32_max_def Let_def)

lemma sn_less_irrefl [simp]: "\<not> sn_less a a"
  by (simp add: sn_less_def)

lemma sn_less_asym: "sn_less a b \<Longrightarrow> \<not> sn_less b a"
  by (auto simp: sn_less_def Let_def int32_max_def split: if_splits)

lemma sn_less_total: "a \<noteq> b \<Longrightarrow> sn_less a b \<or> sn_less b a"
  by (cases a; cases b) (auto simp: sn_less_def Let_def int32_max_def, presburger+)

text \<open>
  The comparison is a strict order on the numbers whose high halves differ by less than 2^30: the
  containers keyed by sequence numbers are well-behaved as long as they hold such a window.
\<close>

definition sn_window :: "int \<Rightarrow> sequence_number set" where
  "sn_window h = {s. sn_valid s \<and> h \<le> sn_high s \<and> sn_high s < h + 1073741824}"

lemma sn_window_near: "a \<in> sn_window h \<Longrightarrow> b \<in> sn_window h \<Longrightarrow> sn_near a b"
  by (auto simp: sn_window_def sn_near_def)

lemma sn_window_valid: "a \<in> sn_window h \<Longrightarrow> sn_valid a"
  by (simp add: sn_window_def)

lemma sn_window_less:
  "a \<in> sn_window h \<Longrightarrow> b \<in> sn_window h \<Longrightarrow> sn_less a b \<longleftrightarrow> sn_get a < sn_get b"
  using sn_less_near sn_window_near sn_window_valid by blast

lemma sn_window_not_max: "s \<in> sn_window 0 \<Longrightarrow> s \<noteq> sn_max"
  by (auto simp: sn_window_def sn_max_def mk_sn_def int32_max_def)

interpretation sn_key: key_order sn_less "sn_window h" for h
proof
  fix a b c
  assume ab: "a \<in> sn_window h" "b \<in> sn_window h"
  show "a \<noteq> b \<Longrightarrow> sn_less a b \<or> sn_less b a" by (rule sn_less_total)
  assume c: "c \<in> sn_window h" and "sn_less a b" "sn_less b c"
  then show "sn_less a c" using ab by (simp add: sn_window_less)
qed simp

section \<open>Serialised form\<close>

definition sn_representable :: "sequence_number \<Rightarrow> bool" where
  "sn_representable s \<longleftrightarrow> in_int64 (sn_high s) \<and> in_int64 (sn_low s)"

definition sn_enc :: "sequence_number \<Rightarrow> u8 list" where
  "sn_enc s = le_bytes 8 (sn_high s) @ le_bytes 8 (sn_low s)"

lemma sn_enc_length: "length (sn_enc s) = 16"
  by (simp add: sn_enc_def)

lemma sn_valid_representable: "sn_valid s \<Longrightarrow> sn_representable s"
  by (auto simp: sn_valid_def sn_representable_def in_int64_def int32_max_def uint32_max_def)

lemma sn_unknown_representable: "sn_representable sn_unknown"
  by (simp add: sn_representable_def sn_unknown_def mk_sn_def in_int64_def)

interpretation sn_codec: wire_codec sn_representable sn_enc write_sn read_sn
proof
  fix s assume s: "sn_representable s"
  show "emits (write_sn s) (sn_enc s)"
    unfolding write_sn_def sn_enc_def by (intro emits_intros)
  show "consumes read_sn (sn_enc s) s"
    unfolding read_sn_def sn_enc_def
    by (rule consumes_rthen consumes_rthen_ret consumes_ints
        | (simp add: s[unfolded sn_representable_def] mk_sn_def; fail))+
  show "sn_enc s \<noteq> []" by (simp add: sn_enc_def)
qed

lemmas sn_wire = sn_codec.wr_emits sn_codec.rd_consumes

section \<open>Properties\<close>

text \<open>\<open>operator++\<close> moves every valid sequence number below the maximum to its successor, carries
  from the low into the high half included, keeps it valid, and is undone by \<open>GetPreviousSeqNum\<close>.\<close>

theorem sn_inc_successor:
  assumes "sn_valid s" "s \<noteq> sn_max"
  shows "sn_valid (sn_inc s) \<and> sn_get (sn_inc s) = sn_get s + 1 \<and> sn_previous (sn_inc s) = s"
proof (intro conjI)
  show "sn_valid (sn_inc s)" by (rule sn_valid_inc[OF assms(1)])
  show "sn_get (sn_inc s) = sn_get s + 1" by (rule sn_get_inc[OF assms])
  show "sn_previous (sn_inc s) = s"
    using assms by (cases s) (auto simp: sn_previous_def sn_inc_def mk_sn_def sn_max_def sn_valid_def
      int32_max_def uint32_max_def)
qed

theorem sn_inc_successor_witness:
  "sn_get (sn_inc (mk_sn 0 4294967295)) = 4294967296"
  using sn_inc_successor[of "mk_sn 0 4294967295"]
  by (simp add: sn_defs sn_valid_def sn_max_def in_int64_def)

text \<open>\<open>operator<\<close> is the numeric order on valid numbers whose high halves differ by less than
  2^30, and its reverse on numbers further apart, the wrap-around the comparison is written for.\<close>

theorem sn_less_numeric:
  assumes "sn_valid a" "sn_valid b"
  shows "sn_less a b \<longleftrightarrow> (if sn_near a b then sn_get a < sn_get b else sn_get b < sn_get a)"
  using sn_less_near[OF assms] sn_less_far[OF assms] by simp

theorem sn_less_numeric_witness:
  "sn_less (mk_sn 0 7) (mk_sn 1 3) \<and> sn_less sn_max (mk_sn 0 1)"
  using sn_less_numeric[of "mk_sn 0 7" "mk_sn 1 3"] sn_less_numeric[of sn_max "mk_sn 0 1"]
  by (simp add: sn_defs sn_valid_def sn_max_def sn_near_def in_int64_def)

text \<open>A sequence number built from a positive 64-bit value is valid, and \<open>GetSequenceNumber\<close> gives
  the value back; a value below 1 gives the number 1.\<close>

theorem sn_value_roundtrip:
  assumes "in_int64 v"
  shows "sn_valid (sn_of_value v) \<and> sn_get (sn_of_value v) = max 1 v"
proof
  show "sn_valid (sn_of_value v)" by (rule sn_of_value_valid[OF assms])
  have "sn_of_value v = sn_of_value (max 1 v)" by (simp add: sn_of_value_def max_def)
  then show "sn_get (sn_of_value v) = max 1 v"
    using sn_get_of_value[of "max 1 v"] assms by (simp add: in_int64_def)
qed

theorem sn_value_roundtrip_witness: "sn_get (sn_of_value 4294967299) = 4294967299 \<and> sn_get (sn_of_value 0) = 1"
  using sn_value_roundtrip[of 4294967299] sn_value_roundtrip[of 0] by (simp add: in_int64_def)

end
