(* ===== verification/Sequence_Set.thy ===== *)
theory Sequence_Set
  imports Sequence_Number
begin

text \<open>
  \<open>RTPS/Elements/SequenceNumberSet.h\<close>: the bitmap of an ACKNACK and of a GAP, eight words of 32
  bits relative to a base. \<open>numBits_\<close> holds the highest position ever set. The lemmas treat a set
  as the predicate \<open>sns_bit\<close> on positions.
\<close>

record sequence_number_set =
  sns_base :: sequence_number
  sns_num_bits :: int
  sns_words :: "32 word list"

definition sns_new :: sequence_number_set where
  "sns_new = \<lparr> sns_base = sn_of_value 1, sns_num_bits = 0, sns_words = replicate 8 0 \<rparr>"

text \<open>The static \<open>UNKNOWN()\<close> is a default-constructed set.\<close>

definition sns_unknown :: sequence_number_set where
  "sns_unknown = sns_new"

definition sns_set_base :: "sequence_number \<Rightarrow> sequence_number_set \<Rightarrow> sequence_number_set" where
  "sns_set_base sn s = s\<lparr> sns_base := sn \<rparr>"

definition sns_is_empty :: "sequence_number_set \<Rightarrow> bool" where
  "sns_is_empty s = (sns_base s = sn_unknown)"

definition sns_eq :: "sequence_number_set \<Rightarrow> sequence_number_set \<Rightarrow> bool" where
  "sns_eq a b = (sns_base a = sns_base b \<and> sns_num_bits a = sns_num_bits b)"

definition sns_neq :: "sequence_number_set \<Rightarrow> sequence_number_set \<Rightarrow> bool" where
  "sns_neq a b = (sns_base a \<noteq> sns_base b \<or> sns_num_bits a \<noteq> sns_num_bits b)"

text \<open>The positions are \<open>unsigned int\<close>s; a 32-bit word is chosen by \<open>pos / 32\<close>.\<close>

definition set_bit_at_position ::
  "int \<Rightarrow> bool \<Rightarrow> sequence_number_set \<Rightarrow> bool \<times> sequence_number_set" where
  "set_bit_at_position pos v s =
     (if 255 < pos then (False, s)
      else
        let local_pos = nat (pos mod 32);
            vector_pos = nat (pos div 32);
            w = sns_words s ! vector_pos;
            n = (if sns_num_bits s < pos \<and> v then pos else sns_num_bits s)
        in (True, s\<lparr> sns_num_bits := n,
                     sns_words := (sns_words s)[vector_pos :=
                        (if v then set_bit local_pos w else unset_bit local_pos w)] \<rparr>))"

definition add_seq_number ::
  "sequence_number \<Rightarrow> bool \<Rightarrow> sequence_number_set \<Rightarrow> (bool \<times> sequence_number_set) res" where
  "add_seq_number sn v s =
     (let next_gap_pos = wrap32 (wrap64 (sn_get sn - sn_get (sns_base s))) in
      if 255 < next_gap_pos then Inr (False, s)
      else asserting (0 \<le> next_gap_pos) (Inr (set_bit_at_position next_gap_pos v s)))"

definition test_bit_at_position :: "int \<Rightarrow> sequence_number_set \<Rightarrow> bool res" where
  "test_bit_at_position pos s =
     (if sns_num_bits s < pos then Inr False
      else
        let local_pos = nat (pos mod 32); vector_pos = pos div 32 in
        asserting (0 \<le> vector_pos) (asserting (vector_pos < 8)
          (Inr (bit (sns_words s ! nat vector_pos) local_pos))))"

text \<open>\<open>ceil(numBits / 32)\<close>, the count of words that travel.\<close>

definition sns_vector_size :: "int \<Rightarrow> int" where
  "sns_vector_size n = (n + 31) div 32"

definition write_sns :: "sequence_number_set \<Rightarrow> writer" where
  "write_sns s =
     wseq (write_sn (sns_base s)) (wseq (put_int64 (sns_num_bits s))
       (\<lambda>b. let vs = sns_vector_size (sns_num_bits s) in
         asserting (sns_num_bits s < 256) (asserting (0 \<le> vs) (asserting (vs \<le> 8)
           (wseqs (map (\<lambda>w. put_int64 (uint w)) (take (nat vs) (sns_words s))) b)))))"

definition read_sns :: "sequence_number_set \<Rightarrow> sequence_number_set reader" where
  "read_sns old =
     rthen read_sn (\<lambda>base. rthen get_int64 (\<lambda>n r.
       let vs = sns_vector_size n in
       asserting (n < 256) (asserting (0 \<le> vs) (asserting (vs \<le> 8)
         (rthen (repeat_read (nat vs) get_int64)
           (\<lambda>ws. rret \<lparr> sns_base = base, sns_num_bits = n,
              sns_words = map word_of_int ws @ drop (nat vs) (sns_words old) \<rparr>) r)))))"

section \<open>Bits\<close>

definition sns_bit :: "sequence_number_set \<Rightarrow> int \<Rightarrow> bool" where
  "sns_bit s p \<longleftrightarrow> 0 \<le> p \<and> p \<le> 255 \<and> bit (sns_words s ! nat (p div 32)) (nat (p mod 32))"

definition sns_ok :: "sequence_number_set \<Rightarrow> bool" where
  "sns_ok s \<longleftrightarrow> length (sns_words s) = 8 \<and> sn_representable (sns_base s)
     \<and> 0 \<le> sns_num_bits s \<and> sns_num_bits s \<le> 255 \<and> (\<forall>p. sns_bit s p \<longrightarrow> p \<le> sns_num_bits s)"

lemma div_mod_32_eq_iff:
  assumes "0 \<le> p" "0 \<le> (q::int)"
  shows "nat (p div 32) = nat (q div 32) \<and> nat (p mod 32) = nat (q mod 32) \<longleftrightarrow> p = q"
proof -
  have "nat (p div 32) = nat (q div 32) \<longleftrightarrow> p div 32 = q div 32"
    using assms by (intro eq_nat_nat_iff) (simp_all add: pos_imp_zdiv_nonneg_iff)
  moreover have "nat (p mod 32) = nat (q mod 32) \<longleftrightarrow> p mod 32 = q mod 32"
    by (intro eq_nat_nat_iff) simp_all
  ultimately show ?thesis using mult_div_mod_eq[of 32 p] mult_div_mod_eq[of 32 q] by metis
qed

lemma bit_zero_word [simp]: "nat (p div 32) < 8 \<Longrightarrow> \<not> bit (replicate 8 (0::32 word) ! nat (p div 32)) n"
  by simp

lemma sns_bit_new [simp]: "\<not> sns_bit sns_new p"
  by (auto simp: sns_bit_def sns_new_def)

lemma sns_ok_new: "sns_ok sns_new"
  using sn_valid_representable[OF sn_of_value_valid[of 1]]
  by (auto simp: sns_ok_def in_int64_def) (simp_all add: sns_new_def)

lemma set_bit_at_position_bit:
  assumes "length (sns_words s) = 8" "0 \<le> p" "p \<le> 255"
  shows "sns_bit (snd (set_bit_at_position p v s)) q = (if q = p then v else sns_bit s q)"
proof (cases "0 \<le> q \<and> q \<le> 255")
  case True
  have lt: "nat (p mod 32) < LENGTH(32)" "nat (q mod 32) < LENGTH(32)" by simp_all
  have idx: "nat (p div 32) < 8" "nat (q div 32) < 8" using assms True by auto
  note eq = div_mod_32_eq_iff[of q p]
  show ?thesis
  proof (cases "nat (q div 32) = nat (p div 32)")
    case same: True
    show ?thesis
    proof (cases "nat (q mod 32) = nat (p mod 32)")
      case True
      then have "q = p" using eq same assms \<open>0 \<le> q \<and> q \<le> 255\<close> by simp
      then show ?thesis using assms lt idx
        by (simp add: set_bit_at_position_def sns_bit_def Let_def bit_set_bit_iff bit_unset_bit_iff)
    next
      case False
      then have "q \<noteq> p" by auto
      then show ?thesis using assms True same False lt idx
        by (simp add: set_bit_at_position_def sns_bit_def Let_def bit_set_bit_iff bit_unset_bit_iff)
    qed
  next
    case False
    then have "q \<noteq> p" by auto
    then show ?thesis using assms True False
      by (simp add: set_bit_at_position_def sns_bit_def Let_def)
  qed
qed (use assms in \<open>auto simp: sns_bit_def\<close>)

lemma set_bit_at_position_ok:
  assumes "sns_ok s" "0 \<le> p"
  shows "sns_ok (snd (set_bit_at_position p v s))"
proof (cases "p \<le> 255")
  case True
  note b = set_bit_at_position_bit[OF _ assms(2) True, of s v]
  show ?thesis
    using assms True unfolding sns_ok_def
    by (auto simp: b split: if_splits) (auto simp: set_bit_at_position_def Let_def)
qed (use assms in \<open>simp add: set_bit_at_position_def\<close>)

lemma test_bit_at_position_ok:
  assumes "sns_ok s" "0 \<le> p"
  shows "test_bit_at_position p s = Inr (sns_bit s p)"
  using assms by (auto simp: test_bit_at_position_def sns_ok_def sns_bit_def Let_def asserting_def)

lemma add_seq_number_bit:
  assumes "sns_ok s" "add_seq_number sn v s = Inr (True, s')"
  shows "sns_ok s'" "sns_base s' = sns_base s"
    "sns_bit s' q = (if q = wrap32 (wrap64 (sn_get sn - sn_get (sns_base s))) then v else sns_bit s q)"
proof -
  let ?p = "wrap32 (wrap64 (sn_get sn - sn_get (sns_base s)))"
  have p: "0 \<le> ?p" "?p \<le> 255" and s': "s' = snd (set_bit_at_position ?p v s)"
    using assms(2) by (auto simp: add_seq_number_def Let_def asserting_def split: if_splits)
  have l: "length (sns_words s) = 8" using assms(1) by (simp add: sns_ok_def)
  show "sns_ok s'" unfolding s' by (rule set_bit_at_position_ok[OF assms(1) p(1)])
  show "sns_bit s' q = (if q = ?p then v else sns_bit s q)"
    unfolding s' by (rule set_bit_at_position_bit[OF l p])
  show "sns_base s' = sns_base s" unfolding s' by (simp add: set_bit_at_position_def Let_def)
qed

section \<open>Serialised form\<close>

definition sns_enc :: "sequence_number_set \<Rightarrow> u8 list" where
  "sns_enc s = sn_enc (sns_base s) @ le_bytes 8 (sns_num_bits s) @
     concat (map (\<lambda>w. le_bytes 8 (uint w)) (take (nat (sns_vector_size (sns_num_bits s))) (sns_words s)))"

text \<open>What a reader that starts from \<open>old\<close> ends up with: the words that did not travel are its own.\<close>

definition sns_received :: "sequence_number_set \<Rightarrow> sequence_number_set \<Rightarrow> sequence_number_set" where
  "sns_received old s =
     (let vs = nat (sns_vector_size (sns_num_bits s))
      in s\<lparr> sns_words := take vs (sns_words s) @ drop vs (sns_words old) \<rparr>)"

lemma sns_vector_size_range:
  "0 \<le> n \<Longrightarrow> n \<le> 255 \<Longrightarrow> 0 \<le> sns_vector_size n \<and> sns_vector_size n \<le> 8"
  by (auto simp: sns_vector_size_def)

lemma emits_write_sns: "sns_ok s \<Longrightarrow> emits (write_sns s) (sns_enc s)"
  unfolding write_sns_def sns_enc_def Let_def
  using sns_vector_size_range[of "sns_num_bits s"]
  by (auto simp: sns_ok_def simp del: append_assoc intro!: emits_wseq sn_wire emits_put_ints emits_wseqs_map)

lemma in_int64_uint_word32 [simp]: "in_int64 (uint (w :: 32 word))"
proof -
  have "uint w < 4294967296" "0 \<le> uint w" using uint_lt2p[of w] by simp_all
  then show ?thesis unfolding in_int64_def by linarith
qed

lemma consumes_word_list:
  "consumes (repeat_read (length ws) get_int64) (concat (map (\<lambda>w. le_bytes 8 (uint (w :: 32 word))) ws))
     (map uint ws)"
  using consumes_repeat_read[of "map uint ws" get_int64 "le_bytes 8"] consumes_ints(4)
  by (fastforce simp: comp_def)

lemma consumes_read_sns:
  assumes "sns_ok s"
  shows "consumes (read_sns old) (sns_enc s) (sns_received old s)"
proof -
  let ?vs = "sns_vector_size (sns_num_bits s)"
  have s: "sn_representable (sns_base s)" "in_int64 (sns_num_bits s)" "sns_num_bits s < 256"
    "0 \<le> ?vs" "?vs \<le> 8" "length (sns_words s) = 8"
    using assms sns_vector_size_range[of "sns_num_bits s"] by (auto simp: sns_ok_def in_int64_def)
  have words: "consumes (repeat_read (nat ?vs) get_int64)
      (concat (map (\<lambda>w. le_bytes 8 (uint w)) (take (nat ?vs) (sns_words s))))
      (map uint (take (nat ?vs) (sns_words s)))"
    using consumes_word_list[of "take (nat ?vs) (sns_words s)"] s by (simp add: min_absorb2 nat_le_iff)
  show ?thesis
    unfolding read_sns_def sns_enc_def
    apply (rule consumes_rthen[OF sn_wire(2)[OF s(1)]])
    apply (rule consumes_rthen[OF consumes_ints(4)[OF s(2)]])
    using s(3-5) words
    by (auto simp: sns_received_def Let_def comp_def intro!: consumes_rthen_ret)
qed

definition sns_exact :: "sequence_number_set \<Rightarrow> bool" where
  "sns_exact s \<longleftrightarrow> sns_ok s \<and> sns_received sns_new s = s"

interpretation sns_codec: wire_codec sns_exact sns_enc write_sns "read_sns sns_new"
proof
  fix s assume s: "sns_exact s"
  then show "emits (write_sns s) (sns_enc s)" by (simp add: sns_exact_def emits_write_sns)
  show "consumes (read_sns sns_new) (sns_enc s) s"
    using s consumes_read_sns[of s sns_new] by (simp add: sns_exact_def)
  show "sns_enc s \<noteq> []" using sn_enc_length[of "sns_base s"] by (auto simp: sns_enc_def)
qed

lemma sns_received_ok:
  assumes "sns_ok s" shows "length (sns_words (sns_received sns_new s)) = 8"
  using assms sns_vector_size_range[of "sns_num_bits s"]
  by (auto simp: sns_ok_def sns_received_def sns_new_def Let_def min_def)

lemma sns_received_bit:
  assumes "sns_ok s"
  shows "sns_bit (sns_received sns_new s) p \<longleftrightarrow>
         sns_bit s p \<and> \<not> (p = sns_num_bits s \<and> sns_num_bits s mod 32 = 0)"
proof (cases "0 \<le> p \<and> p \<le> 255")
  case True
  let ?n = "sns_num_bits s" let ?vs = "nat (sns_vector_size ?n)"
  have l: "length (sns_words s) = 8" and n: "0 \<le> ?n" "?n \<le> 255"
    and le: "sns_bit s p \<Longrightarrow> p \<le> ?n"
    using assms by (auto simp: sns_ok_def)
  have vs: "?vs \<le> 8" using n by (auto simp: sns_vector_size_def)
  have "nat (p div 32) < ?vs \<longleftrightarrow> p < 32 * ((?n + 31) div 32)"
    using True n by (auto simp: sns_vector_size_def)
  moreover have "p < 32 * ((?n + 31) div 32) \<longleftrightarrow> \<not> (p = ?n \<and> ?n mod 32 = 0)" if "p \<le> ?n"
    using that by presburger
  moreover have "nat (p div 32) < 8" using True by auto
  moreover have "\<not> bit (replicate (8 - ?vs) (0 :: 32 word) ! (nat (p div 32) - ?vs)) k"
    if "\<not> nat (p div 32) < ?vs" for k
  proof -
    have "nat (p div 32) - ?vs < 8 - ?vs" using that \<open>nat (p div 32) < 8\<close> by linarith
    then show ?thesis by (simp only: nth_replicate) simp
  qed
  ultimately show ?thesis using True l vs le
    by (auto simp: sns_bit_def sns_received_def sns_new_def Let_def nth_append min_def)
qed (auto simp: sns_bit_def)

section \<open>Properties\<close>

text \<open>After a successful \<open>AddSeqNumber\<close>, \<open>TestBitAtPosition\<close> answers true at the distance of the
  number from the base and at every position that was set before, and false everywhere else.\<close>

theorem bitmap_add_test:
  assumes "sns_ok s" "add_seq_number sn True s = Inr (True, s')" "0 \<le> q"
  shows "test_bit_at_position q s' =
    Inr (q = wrap32 (wrap64 (sn_get sn - sn_get (sns_base s))) \<or> sns_bit s q)"
  using add_seq_number_bit[OF assms(1,2)] test_bit_at_position_ok[of s' q] assms(3) by auto

theorem bitmap_add_test_witness:
  "test_bit_at_position 4 (snd (set_bit_at_position 4 True sns_new)) = Inr True"
proof -
  have d: "sn_get (sn_of_value 5) - sn_get (sn_of_value 1) = 4" by (simp add: sn_get_of_value)
  have "wrap32 (wrap64 4) = 4" by (simp add: in_int32_def in_int64_def)
  then have "add_seq_number (sn_of_value 5) True sns_new = Inr (True, snd (set_bit_at_position 4 True sns_new))"
    using d by (simp add: add_seq_number_def sns_new_def set_bit_at_position_def)
  from bitmap_add_test[OF sns_ok_new this, of 4] show ?thesis
    using d \<open>wrap32 (wrap64 4) = 4\<close> by (simp add: sns_new_def)
qed

text \<open>C39: A sequence number set that travels through a buffer keeps its base, its number of bits and
  every bit, except the one at the highest position when that position is a multiple of 32: the words
  sent are \<open>ceil(numBits / 32)\<close>, and the bit is in the next one.\<close>

theorem sequence_number_set_transfer:
  assumes "sns_ok s"
  shows "\<exists>s'. transfer write_sns (read_sns sns_new) s = Inr s' \<and> sns_base s' = sns_base s
    \<and> sns_num_bits s' = sns_num_bits s
    \<and> (\<forall>p. sns_bit s' p = (sns_bit s p \<and> \<not> (p = sns_num_bits s \<and> sns_num_bits s mod 32 = 0)))"
proof -
  have "sns_enc s \<noteq> []" using sn_enc_length[of "sns_base s"] by (auto simp: sns_enc_def)
  then have "transfer write_sns (read_sns sns_new) s = Inr (sns_received sns_new s)"
    using transfer_consumes[of write_sns s "sns_enc s" "read_sns sns_new" "sns_received sns_new s"]
      emits_write_sns[OF assms] consumes_read_sns[OF assms] by blast
  moreover have "sns_base (sns_received sns_new s) = sns_base s"
    "sns_num_bits (sns_received sns_new s) = sns_num_bits s"
    by (simp_all add: sns_received_def Let_def)
  ultimately show ?thesis using sns_received_bit[OF assms] by blast
qed

theorem sequence_number_set_transfer_witness:
  "\<exists>s'. transfer write_sns (read_sns sns_new) (snd (set_bit_at_position 32 True sns_new)) = Inr s' \<and>
     sns_num_bits s' = 32 \<and> sns_bit (snd (set_bit_at_position 32 True sns_new)) 32 \<and> \<not> sns_bit s' 32"
proof -
  let ?s = "snd (set_bit_at_position 32 True sns_new)"
  have "sns_num_bits ?s = 32" by (simp add: set_bit_at_position_def sns_new_def)
  moreover have "sns_bit ?s 32"
    using set_bit_at_position_bit[of sns_new 32 True 32] by (simp add: sns_new_def)
  ultimately show ?thesis
    using sequence_number_set_transfer[OF set_bit_at_position_ok[OF sns_ok_new, of 32 True]] by auto
qed

end
