(* ===== verification/Identity.thy ===== *)
theory Identity
  imports Ordered_Map Codec
begin

text \<open>
  The identity types of \<open>RTPS/Elements\<close>: \<open>GuidPrefix.h\<close>, \<open>EntityId.h\<close>, \<open>GUID.h\<close>,
  \<open>VendorId.h\<close>, \<open>ProtocolVersion.h\<close> and \<open>Count.h\<close>, with their comparison operators and
  serialised forms. A \<open>std::vector\<close> of octets is a list; \<open>octet\<close> is \<open>char\<close>
  (\<open>RTPS/CommonDefines.h\<close>), so the lexicographic comparison of two vectors compares signed values.
\<close>

section \<open>Octet vectors\<close>

fun lex_less :: "('a \<Rightarrow> 'a \<Rightarrow> bool) \<Rightarrow> 'a list \<Rightarrow> 'a list \<Rightarrow> bool" where
  "lex_less lt xs [] = False"
| "lex_less lt [] (y # ys) = True"
| "lex_less lt (x # xs) (y # ys) = (lt x y \<or> (\<not> lt y x \<and> lex_less lt xs ys))"

definition char_less :: "u8 \<Rightarrow> u8 \<Rightarrow> bool" where
  "char_less a b = (sint a < sint b)"

text \<open>
  Writing the first \<open>n\<close> elements of a vector, and reading \<open>n\<close> octets over the front of one; an
  index outside the vector is undefined behaviour.
\<close>

definition write_octets :: "nat \<Rightarrow> u8 list \<Rightarrow> writer" where
  "write_octets n v b =
     (if length v < n then Inl UndefinedBehaviour else wseqs (map put_int8 (take n v)) b)"

definition read_octets :: "nat \<Rightarrow> u8 list \<Rightarrow> u8 list reader" where
  "read_octets n old r =
     (if length old < n then Inl UndefinedBehaviour
      else rthen (repeat_read n get_int8) (\<lambda>bs. rret (bs @ drop n old)) r)"

lemma concat_singletons [simp]: "concat (map (\<lambda>c. [c]) bs) = bs"
  by (induction bs) auto

lemma emits_write_octets [emits_intros]:
  "length v = n \<Longrightarrow> emits (write_octets n v) v"
  using emits_wseqs_map[of v put_int8 "\<lambda>c. [c]"] emits_put_ints(1)
  by (simp add: write_octets_def[abs_def])

lemma consumes_read_octets [consumes_intros]:
  assumes "length old = n" "length v = n" shows "consumes (read_octets n old) v v"
proof -
  have "consumes (repeat_read n get_int8) v v"
    using consumes_repeat_read[of v get_int8 "\<lambda>c. [c]"] consumes_ints(1) assms by simp
  then show ?thesis
    using assms by (auto simp: read_octets_def[abs_def] intro!: consumes_rthen_ret)
qed

locale octet_order =
  fixes lt :: "u8 \<Rightarrow> u8 \<Rightarrow> bool" and rank :: "u8 \<Rightarrow> int"
  assumes lt_rank: "lt a b \<longleftrightarrow> rank a < rank b"
    and rank_inj: "rank a = rank b \<Longrightarrow> a = b"
begin

lemma lex_irrefl: "\<not> lex_less lt xs xs"
  by (induction xs) (auto simp: lt_rank)

lemma lex_trans: "lex_less lt xs ys \<Longrightarrow> lex_less lt ys zs \<Longrightarrow> lex_less lt xs zs"
proof (induction xs arbitrary: ys zs)
  case Nil then show ?case by (cases ys; cases zs) auto
next
  case (Cons x xs)
  obtain y ys' where ys: "ys = y # ys'" using Cons.prems(1) by (cases ys) auto
  obtain z zs' where zs: "zs = z # zs'" using Cons.prems(2) ys by (cases zs) auto
  show ?case using Cons.prems Cons.IH[of ys' zs'] unfolding ys zs by (auto simp: lt_rank)
qed

lemma lex_total: "xs \<noteq> ys \<Longrightarrow> lex_less lt xs ys \<or> lex_less lt ys xs"
proof (induction xs arbitrary: ys)
  case Nil then show ?case by (cases ys) auto
next
  case (Cons x xs)
  then show ?case using rank_inj by (cases ys) (auto simp: lt_rank not_less)
qed

end

interpretation char_order: octet_order char_less sint
  by unfold_locales (simp_all add: char_less_def signed_word_eqI)

section \<open>GuidPrefix\<close>

record guid_prefix =
  gp_octets :: "u8 list"

definition gp_unknown :: guid_prefix where
  "gp_unknown = \<lparr> gp_octets = replicate 12 0 \<rparr>"

definition gp_new :: "u8 list \<Rightarrow> guid_prefix res" where
  "gp_new v = (if length v \<noteq> 12 then Inl ExceptionThrown else Inr \<lparr> gp_octets = v \<rparr>)"

definition write_gp :: "guid_prefix \<Rightarrow> writer" where
  "write_gp g = write_octets 12 (gp_octets g)"

definition read_gp :: "guid_prefix \<Rightarrow> guid_prefix reader" where
  "read_gp old = rthen (read_octets 12 (gp_octets old)) (\<lambda>v. rret \<lparr> gp_octets = v \<rparr>)"

definition gp_less :: "guid_prefix \<Rightarrow> guid_prefix \<Rightarrow> bool" where
  "gp_less a b = lex_less char_less (gp_octets a) (gp_octets b)"

definition gp_ok :: "guid_prefix \<Rightarrow> bool" where
  "gp_ok g \<longleftrightarrow> length (gp_octets g) = 12"

lemma gp_ok_new: "gp_new v = Inr g \<Longrightarrow> gp_ok g"
  by (auto simp: gp_new_def gp_ok_def split: if_splits)

lemma gp_ok_unknown [simp]: "gp_ok gp_unknown"
  by (simp add: gp_ok_def gp_unknown_def)

interpretation gp_codec: wire_codec gp_ok gp_octets write_gp "read_gp gp_unknown"
  by unfold_locales
    (auto simp: gp_ok_def write_gp_def read_gp_def gp_unknown_def
      intro!: emits_write_octets consumes_rthen_ret consumes_read_octets)

lemma gp_less_total: "a \<noteq> b \<Longrightarrow> gp_less a b \<or> gp_less b a"
  unfolding gp_less_def by (rule char_order.lex_total) (cases a; cases b; simp)

interpretation gp_key: key_order gp_less UNIV
  using char_order.lex_irrefl char_order.lex_trans gp_less_total
  by unfold_locales (auto simp: gp_less_def)

section \<open>EntityId\<close>

record entity_id =
  ei_key :: "u8 list"
  ei_kind :: u8

definition ei_unknown :: entity_id where
  "ei_unknown = \<lparr> ei_key = replicate 3 0, ei_kind = 0 \<rparr>"

definition ei_new :: "u8 list \<Rightarrow> u8 \<Rightarrow> entity_id res" where
  "ei_new key kind =
     (if length key \<noteq> 3 then Inl ExceptionThrown else Inr \<lparr> ei_key = key, ei_kind = kind \<rparr>)"

text \<open>The two predefined ids append their key to the three zero octets of a default one.\<close>

definition ei_spdp_builtin_participant_writer :: entity_id where
  "ei_spdp_builtin_participant_writer =
     (let key = [0x00, 0x01, 0x00, 0xc2]
      in ei_unknown\<lparr> ei_key := ((ei_key ei_unknown @ [key ! 0]) @ [key ! 1]) @ [key ! 2],
                     ei_kind := key ! 3 \<rparr>)"

definition ei_spdp_builtin_participant_reader :: entity_id where
  "ei_spdp_builtin_participant_reader =
     (let key = [0x00, 0x01, 0x00, 0xc7]
      in ei_unknown\<lparr> ei_key := ((ei_key ei_unknown @ [key ! 0]) @ [key ! 1]) @ [key ! 2],
                     ei_kind := key ! 3 \<rparr>)"

definition write_ei :: "entity_id \<Rightarrow> writer" where
  "write_ei e = wseq (write_octets 3 (take 3 (ei_key e))) (put_int8 (ei_kind e))"

definition read_ei :: "entity_id \<Rightarrow> entity_id reader" where
  "read_ei old =
     rthen (read_octets 3 (ei_key old)) (\<lambda>key. rthen get_int8 (\<lambda>kind.
       rret \<lparr> ei_key = key, ei_kind = kind \<rparr>))"

definition ei_less :: "entity_id \<Rightarrow> entity_id \<Rightarrow> bool" where
  "ei_less a b = lex_less char_less (ei_key a) (ei_key b)"

definition ei_ok :: "entity_id \<Rightarrow> bool" where
  "ei_ok e \<longleftrightarrow> length (ei_key e) = 3"

definition ei_enc :: "entity_id \<Rightarrow> u8 list" where
  "ei_enc e = ei_key e @ [ei_kind e]"

lemma ei_ok_new: "ei_new key kind = Inr e \<Longrightarrow> ei_ok e"
  by (auto simp: ei_new_def ei_ok_def split: if_splits)

lemma ei_ok_unknown [simp]: "ei_ok ei_unknown"
  by (simp add: ei_ok_def ei_unknown_def)

interpretation ei_codec: wire_codec ei_ok ei_enc write_ei "read_ei ei_unknown"
proof
  fix e assume e: "ei_ok e"
  then show "emits (write_ei e) (ei_enc e)"
    by (simp add: write_ei_def ei_enc_def ei_ok_def emits_wseq emits_write_octets emits_put_ints)
  show "consumes (read_ei ei_unknown) (ei_enc e) e"
    unfolding read_ei_def ei_enc_def
    by (rule consumes_rthen consumes_read_octets consumes_rthen_ret consumes_ints
        | (simp add: e[unfolded ei_ok_def] ei_unknown_def; fail))+
qed (simp add: ei_enc_def)

text \<open>The comparator looks at the key only: it orders ids of one kind.\<close>

lemma ei_less_total: "a \<noteq> b \<Longrightarrow> ei_kind a = ei_kind b \<Longrightarrow> ei_less a b \<or> ei_less b a"
  unfolding ei_less_def by (rule char_order.lex_total) (cases a; cases b; simp)

interpretation ei_key: key_order ei_less "{e. ei_kind e = k}" for k
proof
  fix a b c :: entity_id
  show "\<not> ei_less a a" by (simp add: ei_less_def char_order.lex_irrefl)
  show "ei_less a b \<Longrightarrow> ei_less b c \<Longrightarrow> ei_less a c"
    unfolding ei_less_def by (rule char_order.lex_trans)
  show "a \<in> {e. ei_kind e = k} \<Longrightarrow> b \<in> {e. ei_kind e = k} \<Longrightarrow> a \<noteq> b \<Longrightarrow> ei_less a b \<or> ei_less b a"
    by (rule ei_less_total) simp_all
qed

section \<open>GUID\<close>

record guid =
  guid_prefix_of :: guid_prefix
  guid_entity :: entity_id

definition guid_unknown :: guid where
  "guid_unknown = \<lparr> guid_prefix_of = gp_unknown, guid_entity = ei_unknown \<rparr>"

definition guid_new :: "guid_prefix \<Rightarrow> entity_id \<Rightarrow> guid" where
  "guid_new p e = \<lparr> guid_prefix_of = p, guid_entity = e \<rparr>"

definition write_guid :: "guid \<Rightarrow> writer" where
  "write_guid g = wseq (write_gp (guid_prefix_of g)) (write_ei (guid_entity g))"

definition read_guid :: "guid \<Rightarrow> guid reader" where
  "read_guid old =
     rthen (read_gp (guid_prefix_of old)) (\<lambda>p. rthen (read_ei (guid_entity old)) (\<lambda>e.
       rret (guid_new p e)))"

definition guid_less :: "guid \<Rightarrow> guid \<Rightarrow> bool" where
  "guid_less a b =
     (gp_less (guid_prefix_of a) (guid_prefix_of b) \<and> ei_less (guid_entity a) (guid_entity b))"

definition guid_ok :: "guid \<Rightarrow> bool" where
  "guid_ok g \<longleftrightarrow> gp_ok (guid_prefix_of g) \<and> ei_ok (guid_entity g)"

definition guid_enc :: "guid \<Rightarrow> u8 list" where
  "guid_enc g = gp_octets (guid_prefix_of g) @ ei_enc (guid_entity g)"

interpretation guid_codec: wire_codec guid_ok guid_enc write_guid "read_guid guid_unknown"
proof
  fix g assume g: "guid_ok g"
  then show "emits (write_guid g) (guid_enc g)"
    by (simp add: write_guid_def guid_enc_def guid_ok_def emits_wseq gp_codec.wr_emits ei_codec.wr_emits)
  show "consumes (read_guid guid_unknown) (guid_enc g) g"
    using g unfolding read_guid_def guid_enc_def guid_ok_def
    by (auto simp: guid_unknown_def guid_new_def
        intro!: consumes_rthen[OF gp_codec.rd_consumes] consumes_rthen_ret[OF ei_codec.rd_consumes])
qed (simp add: guid_enc_def ei_enc_def)

text \<open>
  Two endpoints of one participant share the prefix, and \<open>operator<\<close> asks for both parts to be
  less: neither is less than the other, so a map keyed by GUIDs takes them for the same key.
\<close>

lemma guid_less_same_prefix:
  "guid_prefix_of a = guid_prefix_of b \<Longrightarrow> \<not> guid_less a b"
  by (simp add: guid_less_def gp_key.lt_irrefl)

lemma guid_insert_same_prefix:
  assumes "guid_prefix_of a = guid_prefix_of b"
  shows "om_insert guid_less b v [(a, w)] = [(a, w)]" "om_find guid_less b [(a, w)] = Some w"
    "om_erase guid_less b [(a, w)] = []"
  using assms guid_less_same_prefix[of a b] guid_less_same_prefix[of b a] by simp_all

section \<open>VendorId, ProtocolVersion and Count\<close>

record vendor_id =
  vi_octets :: "u8 list"

definition vi_unknown :: vendor_id where
  "vi_unknown = \<lparr> vi_octets = [0, 0] \<rparr>"

definition vi_new :: "u8 list \<Rightarrow> vendor_id res" where
  "vi_new v = (if length v \<noteq> 2 then Inl ExceptionThrown else Inr \<lparr> vi_octets = v \<rparr>)"

definition vi_set :: "u8 list \<Rightarrow> vendor_id \<Rightarrow> vendor_id res" where
  "vi_set v old = asserting (length v = 2) (Inr \<lparr> vi_octets = v \<rparr>)"

definition write_vi :: "vendor_id \<Rightarrow> writer" where
  "write_vi v b =
     (if vi_octets v = [] then Inr b
      else asserting (length (vi_octets v) = 2) (write_octets 2 (vi_octets v) b))"

definition read_vi :: "vendor_id \<Rightarrow> vendor_id reader" where
  "read_vi old =
     rthen (read_octets 2 (vi_octets old)) (\<lambda>v r. asserting (length v = 2) (rret \<lparr> vi_octets = v \<rparr> r))"

definition vi_ok :: "vendor_id \<Rightarrow> bool" where
  "vi_ok v \<longleftrightarrow> length (vi_octets v) = 2"

interpretation vi_codec: wire_codec vi_ok vi_octets write_vi "read_vi vi_unknown"
proof
  fix v assume v: "vi_ok v"
  then have w: "write_vi v = write_octets 2 (vi_octets v)"
    by (auto simp: write_vi_def vi_ok_def fun_eq_iff)
  show "emits (write_vi v) (vi_octets v)"
    unfolding w using v by (simp add: emits_write_octets vi_ok_def)
  show "consumes (read_vi vi_unknown) (vi_octets v) v"
    using v unfolding read_vi_def vi_ok_def
    by (auto simp: vi_unknown_def intro!: consumes_rthen_last[OF consumes_read_octets] consumes_rret_eq)
qed (auto simp: vi_ok_def)

record protocol_version =
  pv_major :: u8
  pv_minor :: u8

text \<open>The default version is made of the characters \<open>'2'\<close> and \<open>'1'\<close>.\<close>

definition pv_default :: protocol_version where
  "pv_default = \<lparr> pv_major = 0x32, pv_minor = 0x31 \<rparr>"

definition write_pv :: "protocol_version \<Rightarrow> writer" where
  "write_pv v = wseq (put_int8 (pv_major v)) (put_int8 (pv_minor v))"

definition read_pv :: "protocol_version reader" where
  "read_pv = rthen get_int8 (\<lambda>ma. rthen get_int8 (\<lambda>mi. rret \<lparr> pv_major = ma, pv_minor = mi \<rparr>))"

interpretation pv_codec:
  wire_codec "\<lambda>_. True" "\<lambda>v. [pv_major v] @ [pv_minor v]" write_pv read_pv
proof
  fix v :: protocol_version
  show "emits (write_pv v) ([pv_major v] @ [pv_minor v])"
    unfolding write_pv_def by (intro emits_wseq emits_put_ints)
  show "consumes read_pv ([pv_major v] @ [pv_minor v]) v"
    unfolding read_pv_def by (rule consumes_rthen consumes_rthen_ret consumes_ints | (simp; fail))+
qed simp

text \<open>\<open>Count\<close> holds a \<open>long\<close> and travels as 32 bits.\<close>

definition count_default :: int where
  "count_default = - 1"

definition write_count :: "int \<Rightarrow> writer" where
  "write_count c = put_int32 c"

definition read_count :: "int reader" where
  "read_count = get_int32"

interpretation count_codec: wire_codec in_int32 "le_bytes 4" write_count read_count
  by unfold_locales (auto simp: write_count_def read_count_def intro: emits_put_ints consumes_ints)

section \<open>Properties\<close>

text \<open>Two GUIDs with the same prefix or with the same entity id are equivalent keys of a
  \<open>std::map\<close>: \<open>operator<\<close> asks for both parts to be less. The second of two endpoints of one
  participant cannot be inserted, and a lookup or removal of it hits the first.\<close>

theorem guid_map_conflates:
  assumes "guid_prefix_of a = guid_prefix_of b \<or> guid_entity a = guid_entity b"
  shows "om_insert guid_less b v [(a, w)] = [(a, w)] \<and> om_find guid_less b [(a, w)] = Some w
    \<and> om_erase guid_less b [(a, w)] = []"
proof -
  have "\<not> ei_less e e" for e by (simp add: ei_less_def char_order.lex_irrefl)
  then have "\<not> guid_less a b" "\<not> guid_less b a" using assms by (auto simp: guid_less_def gp_key.lt_irrefl)
  then show ?thesis by simp
qed

theorem guid_map_conflates_witness:
  "om_insert guid_less (guid_new gp_unknown ei_unknown) True [(guid_new (\<lparr> gp_octets = replicate 12 1 \<rparr>) ei_unknown, False)]
    = [(guid_new (\<lparr> gp_octets = replicate 12 1 \<rparr>) ei_unknown, False)]"
  using guid_map_conflates[of "guid_new (\<lparr> gp_octets = replicate 12 1 \<rparr>) ei_unknown" "guid_new gp_unknown ei_unknown" True False]
  by (simp add: guid_new_def)

end
