(* ===== verification/Elements.thy ===== *)
theory Elements
  imports Identity
begin

text \<open>
  The remaining element classes of \<open>RTPS/Elements\<close>: locators and locator lists, fragment numbers,
  timestamps, key hash and status info, the kinds, parameters and parameter lists, and the
  serialized payload. Each has its state, its \<open>Write\<close> and \<open>Read\<close> on the two buffers and, where
  reading gives back what was written, an interpretation of \<open>wire_codec\<close>.
\<close>

unbundle bit_operations_syntax

section \<open>Locator and LocatorList\<close>

record locator =
  loc_kind :: int
  loc_port :: int
  loc_address :: "u8 list"

definition loc_default :: locator where
  "loc_default = \<lparr> loc_kind = - 1, loc_port = - 1, loc_address = [] \<rparr>"

definition loc_invalid :: locator where
  "loc_invalid = \<lparr> loc_kind = - 1, loc_port = 0, loc_address = [] \<rparr>"

definition put_string :: "u8 list \<Rightarrow> writer" where
  "put_string s = dropping_count (ba_write_string s)"

definition write_locator :: "locator \<Rightarrow> writer" where
  "write_locator l =
     wseq (put_int64 (loc_kind l)) (wseq (put_int64 (loc_port l)) (put_string (loc_address l)))"

definition read_locator :: "locator reader" where
  "read_locator =
     rthen get_int64 (\<lambda>k. rthen get_int64 (\<lambda>p. rthen ib_read_string (\<lambda>a.
       rret \<lparr> loc_kind = k, loc_port = p, loc_address = a \<rparr>)))"

definition loc_less :: "locator \<Rightarrow> locator \<Rightarrow> bool" where
  "loc_less a b =
     (loc_kind a < loc_kind b \<or> loc_port a < loc_port b
      \<or> length (loc_address a) < length (loc_address b))"

definition loc_size :: "locator \<Rightarrow> int" where
  "loc_size l = to_uint32 (4 + 4 + int (length (loc_address l)))"

definition write_locator_list :: "locator list \<Rightarrow> writer" where
  "write_locator_list ls = wseq (put_int64 (int (length ls))) (wseqs (map write_locator ls))"

text \<open>\<open>Read\<close> appends to the locators the list already holds.\<close>

definition read_locator_list :: "locator list \<Rightarrow> locator list reader" where
  "read_locator_list old =
     rthen get_int64 (\<lambda>num. rthen (repeat_read (nat num) read_locator) (\<lambda>ls. rret (old @ ls)))"

fun locator_list_size :: "locator list \<Rightarrow> int" where
  "locator_list_size [] = 0"
| "locator_list_size (l # ls) = to_uint32 (loc_size l + locator_list_size ls)"

text \<open>
  A locator travels unchanged when its address has no NUL character and fits the one growth step of
  the buffer.
\<close>

definition loc_ok :: "locator \<Rightarrow> bool" where
  "loc_ok l \<longleftrightarrow> in_int64 (loc_kind l) \<and> in_int64 (loc_port l)
     \<and> length (loc_address l) \<le> 256 \<and> 0 \<notin> set (loc_address l)"

definition string_enc :: "u8 list \<Rightarrow> u8 list" where
  "string_enc s = le_bytes 4 (int (length s)) @ s"

definition loc_enc :: "locator \<Rightarrow> u8 list" where
  "loc_enc l = le_bytes 8 (loc_kind l) @ le_bytes 8 (loc_port l) @ string_enc (loc_address l)"

lemma emits_put_string [emits_intros]:
  assumes "length s \<le> 256" shows "emits (put_string s) (string_enc s)"
proof -
  have eq: "put_string s = wseq (put_int32 (int (length s))) (if s = [] then wskip else put_bytes s)"
    by (auto simp: fun_eq_iff put_string_def dropping_count_def ba_write_string_def wseq_def
        put_int32_def ba_write_int32_def put_bytes_def ba_write_def wskip_def rbind_assoc
        intro!: rbind_cong split: prod.splits)
  have "emits (if s = [] then wskip else put_bytes s) s"
    using assms by (auto intro: emits_put_bytes emits_wskip)
  then show ?thesis unfolding eq string_enc_def by (rule emits_wseq[OF emits_put_ints(3)])
qed

lemma takeWhile_no_NUL: "0 \<notin> set s \<Longrightarrow> takeWhile (\<lambda>c. c \<noteq> 0) s = s" for s :: "u8 list"
  by (auto simp: takeWhile_eq_all_conv)

lemma consumes_read_string [consumes_intros]:
  assumes "length s \<le> 256" "0 \<notin> set s" shows "consumes ib_read_string (string_enc s) s"
proof -
  let ?n = "int (length s)"
  have eq: "ib_read_string = rthen get_int32 (\<lambda>n. if n \<le> 0 then rret []
      else rthen (get_bytes n) (\<lambda>bs. rret (takeWhile (\<lambda>c. c \<noteq> 0) bs)))"
    by (auto simp: fun_eq_iff ib_read_string_def rthen_def get_int32_def get_bytes_def rret_def
        intro!: rbind_cong split: prod.splits)
  have n: "in_int32 ?n" using assms by (simp add: in_int32_def)
  have body: "consumes (if ?n \<le> 0 then rret [] else rthen (get_bytes ?n) (\<lambda>bs. rret (takeWhile (\<lambda>c. c \<noteq> 0) bs))) s s"
    using consumes_rthen_ret[of "get_bytes ?n" s s s "takeWhile (\<lambda>c. c \<noteq> 0)"]
      consumes_get_bytes[of s ?n] takeWhile_no_NUL[OF assms(2)] consumes_rret[of "[]"]
    by (cases "s = []") simp_all
  show ?thesis unfolding eq string_enc_def by (rule consumes_rthen[OF consumes_ints(3)[OF n]]) (rule body)
qed

interpretation loc_codec: wire_codec loc_ok loc_enc write_locator read_locator
proof
  fix l assume l: "loc_ok l"
  then show "emits (write_locator l) (loc_enc l)"
    unfolding write_locator_def loc_enc_def loc_ok_def
    by (intro emits_wseq emits_put_ints emits_put_string) simp
  show "consumes read_locator (loc_enc l) l"
    using l unfolding read_locator_def loc_enc_def loc_ok_def
    by (auto intro!: consumes_rthen[OF consumes_ints(4)] consumes_rthen_ret[OF consumes_read_string])
qed (simp add: loc_enc_def)

definition loc_list_ok :: "locator list \<Rightarrow> bool" where
  "loc_list_ok ls \<longleftrightarrow> list_all loc_ok ls \<and> in_int64 (int (length ls))"

definition loc_list_enc :: "locator list \<Rightarrow> u8 list" where
  "loc_list_enc ls = le_bytes 8 (int (length ls)) @ concat (map loc_enc ls)"

interpretation loc_list_codec:
  wire_codec loc_list_ok loc_list_enc write_locator_list "read_locator_list []"
proof
  fix ls assume ls: "loc_list_ok ls"
  then show "emits (write_locator_list ls) (loc_list_enc ls)"
    unfolding write_locator_list_def loc_list_enc_def loc_list_ok_def
    by (intro emits_wseq emits_put_ints loc_codec.list_emits) simp
  have "consumes (repeat_read (nat (int (length ls))) read_locator) (concat (map loc_enc ls)) ls"
    using ls loc_codec.list_consumes[of ls] by (simp add: loc_list_ok_def)
  then show "consumes (read_locator_list []) (loc_list_enc ls) ls"
    using ls unfolding read_locator_list_def loc_list_enc_def loc_list_ok_def
    by (auto intro!: consumes_rthen[OF consumes_ints(4)] consumes_rthen_ret)
qed (simp add: loc_list_enc_def)

text \<open>\<open>operator<\<close> is a disjunction: two locators can each be less than the other.\<close>

lemma loc_less_both_ways:
  "loc_kind a < loc_kind b \<Longrightarrow> loc_port b < loc_port a \<Longrightarrow> loc_less a b \<and> loc_less b a"
  by (simp add: loc_less_def)

section \<open>Timestamp and fragment numbers\<close>

record timestamp =
  ts_seconds :: int
  ts_fraction :: int

definition ts_zero :: timestamp where "ts_zero = \<lparr> ts_seconds = 0, ts_fraction = 0 \<rparr>"
definition ts_invalid :: timestamp where "ts_invalid = \<lparr> ts_seconds = - 1, ts_fraction = 0xffffffff \<rparr>"
definition ts_infinite :: timestamp where
  "ts_infinite = \<lparr> ts_seconds = 0x7fffffff, ts_fraction = 0xffffffff \<rparr>"

definition write_ts :: "timestamp \<Rightarrow> writer" where
  "write_ts t = wseq (put_int64 (ts_seconds t)) (put_int64 (ts_fraction t))"

definition read_ts :: "timestamp reader" where
  "read_ts = rthen get_int64 (\<lambda>s. rthen get_int64 (\<lambda>f. rret \<lparr> ts_seconds = s, ts_fraction = f \<rparr>))"

text \<open>\<open>GetTime\<close>: \<open>fraction_ / 2^32\<close> is a division by 2 and then an exclusive or with 32.\<close>

definition ts_get_time :: "timestamp \<Rightarrow> int" where
  "ts_get_time t =
     wrap64 (ts_seconds t + ((sgn (ts_fraction t) * (\<bar>ts_fraction t\<bar> div 2)) XOR 32))"

definition ts_ok :: "timestamp \<Rightarrow> bool" where
  "ts_ok t \<longleftrightarrow> in_int64 (ts_seconds t) \<and> in_int64 (ts_fraction t)"

interpretation ts_codec: wire_codec ts_ok
  "\<lambda>t. le_bytes 8 (ts_seconds t) @ le_bytes 8 (ts_fraction t)" write_ts read_ts
proof
  fix t assume t: "ts_ok t"
  show "emits (write_ts t) (le_bytes 8 (ts_seconds t) @ le_bytes 8 (ts_fraction t))"
    unfolding write_ts_def by (intro emits_wseq emits_put_ints)
  show "consumes read_ts (le_bytes 8 (ts_seconds t) @ le_bytes 8 (ts_fraction t)) t"
    using t unfolding read_ts_def ts_ok_def
    by (auto intro!: consumes_rthen[OF consumes_ints(4)] consumes_rthen_ret[OF consumes_ints(4)])
qed simp

definition write_fragment_number :: "int \<Rightarrow> writer" where
  "write_fragment_number n = put_int64 n"

definition read_fragment_number :: "int reader" where
  "read_fragment_number = get_int64"

record fragment_number_set =
  fns_base :: int
  fns_num_bits :: int

definition fns_new :: fragment_number_set where
  "fns_new = \<lparr> fns_base = - 1, fns_num_bits = - 1 \<rparr>"

definition write_fns :: "fragment_number_set \<Rightarrow> writer" where
  "write_fns s = wseq (write_fragment_number (fns_base s)) (put_int64 (fns_num_bits s))"

definition read_fns :: "fragment_number_set reader" where
  "read_fns = rthen read_fragment_number (\<lambda>b. rthen get_int64 (\<lambda>n.
     rret \<lparr> fns_base = b, fns_num_bits = n \<rparr>))"

definition fns_ok :: "fragment_number_set \<Rightarrow> bool" where
  "fns_ok s \<longleftrightarrow> in_int64 (fns_base s) \<and> in_int64 (fns_num_bits s)"

interpretation fns_codec: wire_codec fns_ok
  "\<lambda>s. le_bytes 8 (fns_base s) @ le_bytes 8 (fns_num_bits s)" write_fns read_fns
proof
  fix s assume s: "fns_ok s"
  show "emits (write_fns s) (le_bytes 8 (fns_base s) @ le_bytes 8 (fns_num_bits s))"
    unfolding write_fns_def write_fragment_number_def by (intro emits_wseq emits_put_ints)
  show "consumes read_fns (le_bytes 8 (fns_base s) @ le_bytes 8 (fns_num_bits s)) s"
    using s unfolding read_fns_def fns_ok_def read_fragment_number_def
    by (auto intro!: consumes_rthen[OF consumes_ints(4)] consumes_rthen_ret[OF consumes_ints(4)])
qed simp

section \<open>KeyHash and StatusInfo\<close>

text \<open>A default key hash is an empty vector: writing it emits nothing, reading into it is undefined.\<close>

definition kh_default :: "u8 list" where
  "kh_default = []"

definition kh_new :: "u8 list \<Rightarrow> u8 list res" where
  "kh_new v = (if length v \<noteq> 16 then Inl ExceptionThrown else Inr v)"

definition write_kh :: "u8 list \<Rightarrow> writer" where
  "write_kh v b =
     (if v = [] then Inr b else asserting (length v = 16) (write_octets 16 v b))"

definition read_kh :: "u8 list \<Rightarrow> u8 list reader" where
  "read_kh old = rthen (read_octets 16 old) (\<lambda>v r. asserting (length v = 16) (rret v r))"

definition si_default :: "u8 list" where
  "si_default = replicate 4 0"

definition si_new :: "u8 list \<Rightarrow> u8 list res" where
  "si_new v = (if length v \<noteq> 4 then Inl ExceptionThrown else asserting (length v = 4) (Inr v))"

definition write_si :: "u8 list \<Rightarrow> writer" where
  "write_si v b = asserting (length v = 4) (write_octets 4 v b)"

definition read_si :: "u8 list \<Rightarrow> u8 list reader" where
  "read_si old = rthen (read_octets 4 old) (\<lambda>v r. asserting (length v = 4) (rret v r))"

text \<open>The flag tests compare the masked octet with the character \<open>'1'\<close> (0x31).\<close>

definition si_has_dispose_flag :: "u8 list \<Rightarrow> bool" where
  "si_has_dispose_flag v = ((v ! 0) AND 0x01 = 0x31)"

definition si_has_unregister_flag :: "u8 list \<Rightarrow> bool" where
  "si_has_unregister_flag v = ((v ! 0) AND 0x02 = 0x31)"

interpretation si_codec: wire_codec "\<lambda>v. length v = 4" "\<lambda>v. v" write_si "read_si si_default"
proof
  fix v :: "u8 list" assume v: "length v = 4"
  have w: "write_si v = write_octets 4 v" using v by (auto simp: write_si_def fun_eq_iff)
  show "emits (write_si v) v" unfolding w using v by (rule emits_write_octets)
  show "consumes (read_si si_default) v v"
    using v unfolding read_si_def
    by (auto simp: si_default_def intro!: consumes_rthen_last[OF consumes_read_octets] consumes_rret_eq)
qed auto

section \<open>The kinds\<close>

datatype reliability_kind = ReliabilityUnknown | BestEffort | Reliable | ReliabilityOther int

fun reliability_code :: "reliability_kind \<Rightarrow> int" where
  "reliability_code ReliabilityUnknown = 0"
| "reliability_code BestEffort = 1"
| "reliability_code Reliable = 3"
| "reliability_code (ReliabilityOther n) = n"

definition reliability_of_code :: "int \<Rightarrow> reliability_kind" where
  "reliability_of_code n =
     (if n = 0 then ReliabilityUnknown else if n = 1 then BestEffort
      else if n = 3 then Reliable else ReliabilityOther n)"

definition write_reliability :: "reliability_kind \<Rightarrow> writer" where
  "write_reliability k = put_int32 (reliability_code k)"

definition read_reliability :: "reliability_kind reader" where
  "read_reliability = rthen get_int32 (\<lambda>n. rret (reliability_of_code n))"

definition reliability_named :: "reliability_kind \<Rightarrow> bool" where
  "reliability_named k \<longleftrightarrow> k \<in> {ReliabilityUnknown, BestEffort, Reliable}"

interpretation reliability_codec: wire_codec reliability_named
  "\<lambda>k. le_bytes 4 (reliability_code k)" write_reliability read_reliability
proof
  fix k assume "reliability_named k"
  then show "consumes read_reliability (le_bytes 4 (reliability_code k)) k"
    unfolding read_reliability_def
    by (intro consumes_rthen_ret[OF consumes_ints(3)])
      (auto simp: reliability_named_def in_int32_def reliability_of_code_def)
qed (simp_all add: write_reliability_def emits_put_ints)

datatype change_kind = Alive | NotAliveDisposed | NotAliveUnregistered | ChangeKindOther int

fun change_kind_code :: "change_kind \<Rightarrow> int" where
  "change_kind_code Alive = 1"
| "change_kind_code NotAliveDisposed = 2"
| "change_kind_code NotAliveUnregistered = 3"
| "change_kind_code (ChangeKindOther n) = n"

definition change_kind_of_code :: "int \<Rightarrow> change_kind" where
  "change_kind_of_code n =
     (if n = 1 then Alive else if n = 2 then NotAliveDisposed
      else if n = 3 then NotAliveUnregistered else ChangeKindOther n)"

definition write_change_kind :: "change_kind \<Rightarrow> writer" where
  "write_change_kind k = put_int32 (change_kind_code k)"

definition read_change_kind :: "change_kind reader" where
  "read_change_kind = rthen get_int32 (\<lambda>n. rret (change_kind_of_code n))"

definition change_kind_named :: "change_kind \<Rightarrow> bool" where
  "change_kind_named k \<longleftrightarrow> k \<in> {Alive, NotAliveDisposed, NotAliveUnregistered}"

interpretation change_kind_codec: wire_codec change_kind_named
  "\<lambda>k. le_bytes 4 (change_kind_code k)" write_change_kind read_change_kind
proof
  fix k assume "change_kind_named k"
  then show "consumes read_change_kind (le_bytes 4 (change_kind_code k)) k"
    unfolding read_change_kind_def
    by (intro consumes_rthen_ret[OF consumes_ints(3)])
      (auto simp: change_kind_named_def in_int32_def change_kind_of_code_def)
qed (simp_all add: write_change_kind_def emits_put_ints)

section \<open>Parameter and ParameterList\<close>

record parameter =
  par_id :: int
  par_value :: "u8 list"

definition par_default :: parameter where
  "par_default = \<lparr> par_id = - 1, par_value = [] \<rparr>"

definition par_sentinel :: parameter where
  "par_sentinel = \<lparr> par_id = 1, par_value = [] \<rparr>"

definition write_par :: "parameter \<Rightarrow> writer" where
  "write_par p =
     wseq (put_int16 (par_id p)) (wseq (put_int16 (wrap16 (int (length (par_value p)))))
       (wseqs (map put_int8 (par_value p))))"

text \<open>\<open>Read\<close> stores through \<open>operator[]\<close> into the vector the object already has.\<close>

fun read_par_value :: "nat \<Rightarrow> nat \<Rightarrow> u8 list \<Rightarrow> u8 list reader" where
  "read_par_value 0 i v = rret v"
| "read_par_value (Suc n) i v =
     rthen get_int8 (\<lambda>c r. if i < length v then read_par_value n (Suc i) (v[i := c]) r
                          else Inl UndefinedBehaviour)"

definition read_par :: "parameter \<Rightarrow> parameter reader" where
  "read_par old =
     rthen get_int16 (\<lambda>pid. rthen get_int16 (\<lambda>len.
       rthen (read_par_value (nat len) 0 (par_value old)) (\<lambda>v.
         rret \<lparr> par_id = pid, par_value = v \<rparr>)))"

definition write_par_list :: "parameter list \<Rightarrow> writer" where
  "write_par_list ps = wseq (wseqs (map write_par ps)) (write_par par_sentinel)"

text \<open>The loop of \<open>Read\<close>: the first argument counts the iterations left of its 1001.\<close>

fun read_par_loop :: "nat \<Rightarrow> parameter list \<Rightarrow> parameter list reader" where
  "read_par_loop 0 acc = rret acc"
| "read_par_loop (Suc n) acc =
     rthen (read_par par_default) (\<lambda>p.
       if par_id p \<noteq> par_id par_sentinel then read_par_loop n (acc @ [p]) else rret acc)"

definition read_par_list :: "parameter list \<Rightarrow> parameter list reader" where
  "read_par_list old = read_par_loop 1001 old"

definition uint16 :: "int \<Rightarrow> int" where
  "uint16 x = x mod 65536"

definition par_size :: "parameter \<Rightarrow> int" where
  "par_size p = uint16 (2 + 2 + uint16 (int (length (par_value p))))"

fun par_list_size_loop :: "parameter list \<Rightarrow> int \<Rightarrow> int" where
  "par_list_size_loop [] acc = acc"
| "par_list_size_loop (p # ps) acc = par_list_size_loop ps (uint16 (acc + par_size p))"

definition par_list_size :: "parameter list \<Rightarrow> int" where
  "par_list_size ps = uint16 (par_list_size_loop ps 0 + par_size par_sentinel)"

definition par_enc :: "parameter \<Rightarrow> u8 list" where
  "par_enc p = le_bytes 2 (par_id p) @ le_bytes 2 (int (length (par_value p))) @ par_value p"

definition par_empty_ok :: "parameter \<Rightarrow> bool" where
  "par_empty_ok p \<longleftrightarrow> in_int16 (par_id p) \<and> par_value p = []"

lemma emits_write_par:
  assumes "length (par_value p) < 32768" shows "emits (write_par p) (par_enc p)"
proof -
  have "in_int16 (int (length (par_value p)))" using assms by (simp add: in_int16_def)
  moreover have "emits (wseqs (map put_int8 (par_value p))) (par_value p)"
    using emits_wseqs_map[of "par_value p" put_int8 "\<lambda>c. [c]"] emits_put_ints(1) by simp
  ultimately show ?thesis unfolding write_par_def par_enc_def
    by (auto intro!: emits_wseq emits_put_ints)
qed

interpretation par_codec: wire_codec par_empty_ok par_enc write_par "read_par par_default"
proof
  fix p assume p: "par_empty_ok p"
  then show "emits (write_par p) (par_enc p)" by (intro emits_write_par) (simp add: par_empty_ok_def)
  show "consumes (read_par par_default) (par_enc p) p"
    unfolding read_par_def par_enc_def
  proof (intro consumes_rthen)
    show "consumes get_int16 (le_bytes 2 (par_id p)) (par_id p)"
      "consumes get_int16 (le_bytes 2 (int (length (par_value p)))) 0"
      using p consumes_ints(2)[of "par_id p"] consumes_ints(2)[of 0]
      by (simp_all add: par_empty_ok_def in_int16_def)
    show "consumes (rthen (read_par_value (nat 0) 0 (par_value par_default))
        (\<lambda>v. rret \<lparr> par_id = par_id p, par_value = v \<rparr>)) (par_value p) p"
      using p by (auto simp: par_empty_ok_def par_default_def
          intro!: consumes_rthen_ret consumes_rret)
  qed
qed (simp add: par_enc_def)

definition par_list_ok :: "parameter list \<Rightarrow> bool" where
  "par_list_ok ps \<longleftrightarrow> list_all (\<lambda>p. par_empty_ok p \<and> par_id p \<noteq> 1) ps \<and> length ps \<le> 1000"

definition par_list_enc :: "parameter list \<Rightarrow> u8 list" where
  "par_list_enc ps = concat (map par_enc ps) @ par_enc par_sentinel"

lemma par_sentinel_ok: "par_empty_ok par_sentinel"
  by (simp add: par_empty_ok_def par_sentinel_def in_int16_def)

lemma consumes_read_par_loop:
  assumes "list_all (\<lambda>p. par_empty_ok p \<and> par_id p \<noteq> 1) ps" "length ps < n"
  shows "consumes (read_par_loop n acc) (par_list_enc ps) (acc @ ps)"
  using assms
proof (induction ps arbitrary: n acc)
  case Nil
  then obtain m where n: "n = Suc m" by (cases n) auto
  show ?case unfolding n read_par_loop.simps par_list_enc_def
    using par_codec.rd_consumes[OF par_sentinel_ok]
    by (auto intro!: consumes_rthen_last consumes_rret)
next
  case (Cons p ps)
  then obtain m where n: "n = Suc m" by (cases n) auto
  have "consumes (read_par_loop m (acc @ [p])) (par_list_enc ps) (acc @ p # ps)"
    using Cons.IH[of m "acc @ [p]"] Cons.prems n by simp
  moreover have "consumes (read_par par_default) (par_enc p) p" "par_id p \<noteq> par_id par_sentinel"
    using Cons.prems by (auto intro: par_codec.rd_consumes simp: par_sentinel_def)
  ultimately show ?case unfolding n read_par_loop.simps par_list_enc_def
    by (auto intro!: consumes_rthen[of _ "par_enc p" p])
qed

interpretation par_list_codec:
  wire_codec par_list_ok par_list_enc write_par_list "read_par_list []"
proof
  fix ps assume ps: "par_list_ok ps"
  then have "list_all par_empty_ok ps" by (auto simp: par_list_ok_def list_all_iff)
  then show "emits (write_par_list ps) (par_list_enc ps)"
    unfolding write_par_list_def par_list_enc_def
    by (intro emits_wseq par_codec.list_emits par_codec.wr_emits par_sentinel_ok)
  show "consumes (read_par_list []) (par_list_enc ps) ps"
    using consumes_read_par_loop[of ps 1001 "[]"] ps by (simp add: par_list_ok_def read_par_list_def)
qed (simp add: par_list_enc_def par_enc_def)

text \<open>A parameter with a value cannot be read: the first octet is stored outside the empty vector.\<close>

lemma rejects_read_par:
  assumes "in_int16 (par_id p)" "par_value p \<noteq> []" "length (par_value p) < 32768"
  shows "rejects (read_par par_default) (par_enc p) UndefinedBehaviour"
proof -
  obtain c cs where v: "par_value p = c # cs" using assms(2) by (cases "par_value p") auto
  have len: "in_int16 (int (length (par_value p)))" using assms(3) by (simp add: in_int16_def)
  have "rejects (\<lambda>r. if (0::nat) < length ([] :: u8 list) then read_par_value (length cs) (Suc 0) ([][0 := c]) r
      else Inl UndefinedBehaviour) cs UndefinedBehaviour"
    by (simp add: rejects_def)
  moreover have "nat (int (length (par_value p))) = Suc (length cs)" by (simp add: v)
  ultimately have body: "rejects (read_par_value (nat (int (length (par_value p)))) 0 (par_value par_default))
      (par_value p) UndefinedBehaviour"
    using rejects_then[OF consumes_ints(1)[of c], of _ cs UndefinedBehaviour]
    by (simp add: v par_default_def)
  show ?thesis unfolding read_par_def par_enc_def
    by (intro rejects_then[OF consumes_ints(2)] assms(1) len rejects_first body)
qed

section \<open>SerializedPayload\<close>

record serialized_payload =
  sp_endian :: int
  sp_length :: int
  sp_out :: "byte_array option"
  sp_in :: "in_byte_array option"

definition sp_default :: "int \<Rightarrow> serialized_payload" where
  "sp_default endian = \<lparr> sp_endian = endian, sp_length = 0, sp_out = None, sp_in = None \<rparr>"

definition sp_new :: "byte_array option \<Rightarrow> int \<Rightarrow> serialized_payload res" where
  "sp_new payload endian =
     (case payload of
        None \<Rightarrow> Inl ExceptionThrown
      | Some w \<Rightarrow> Inr \<lparr> sp_endian = endian, sp_length = uint16 (ba_position w),
                       sp_out = Some w, sp_in = None \<rparr>)"

definition sp_set_out_payload :: "byte_array option \<Rightarrow> serialized_payload \<Rightarrow> serialized_payload res" where
  "sp_set_out_payload ptr sp =
     (case ptr of
        None \<Rightarrow> Inl AssertFailed
      | Some w \<Rightarrow> Inr (sp\<lparr> sp_out := Some w, sp_length := uint16 (ba_position w) \<rparr>))"

definition write_sp :: "serialized_payload \<Rightarrow> writer" where
  "write_sp sp =
     (case sp_out sp of
        None \<Rightarrow> wskip
      | Some w \<Rightarrow> wseq (put_int16 (sp_endian sp)) (wseq (put_int16 (sp_length sp))
          (dropping_count (copy_data (take (nat (ba_position w)) (ba_cells w))))))"

text \<open>
  \<open>new InByteArray(length_)\<close> takes the length through the implicit \<open>ByteArray(int)\<close> constructor:
  the buffer it copies from has no bytes written.
\<close>

definition read_sp :: "serialized_payload \<Rightarrow> serialized_payload reader" where
  "read_sp old =
     rthen get_int16 (\<lambda>e r.
       let endian = uint16 e in
       if endian \<notin> {0, 1, 2, 3} then Inl ExceptionThrown
       else rthen get_int16 (\<lambda>l. let len = uint16 l in
         rthen (get_bytes len) (\<lambda>payload r'.
           rbind (ba_new len) (\<lambda>b. rbind (ib_of_byte_array b) (\<lambda>fresh.
             rbind (asserting (0 < len) (expand_and_copy_array payload fresh)) (\<lambda>inp.
               rret (old\<lparr> sp_endian := endian, sp_length := len, sp_in := Some inp \<rparr>) r'))))) r)"

lemma ib_of_fresh_byte_array:
  assumes "ba_new n = Inr b" shows "ib_of_byte_array b = Inl AssertFailed"
proof -
  have "ba_position b = 0"
    using assms by (auto simp: ba_new_def expand_array_def ba_null_def res_simps split: if_splits)
  then show ?thesis
    by (simp add: ib_of_byte_array_def ba_contents_def expand_and_copy_array_def)
qed

lemma read_sp_no_result: "read_sp old r \<noteq> Inr x"
  using ib_of_fresh_byte_array
  by (auto simp: read_sp_def rthen_def res_simps Let_def split: if_splits prod.splits)

section \<open>Properties\<close>

text \<open>A list of locators whose addresses are at most 256 characters without NUL arrives unchanged
  when it is written to a buffer and read back.\<close>

theorem locator_list_roundtrip:
  assumes "loc_list_ok ls"
  shows "transfer write_locator_list (read_locator_list []) ls = Inr ls"
  by (rule loc_list_codec.transfer_id[OF assms])

theorem locator_list_roundtrip_witness:
  "transfer write_locator_list (read_locator_list [])
     [\<lparr> loc_kind = 1, loc_port = 7400, loc_address = [49, 48, 46, 49] \<rparr>, loc_invalid]
   = Inr [\<lparr> loc_kind = 1, loc_port = 7400, loc_address = [49, 48, 46, 49] \<rparr>, loc_invalid]"
  by (rule locator_list_roundtrip)
    (simp add: loc_list_ok_def loc_ok_def loc_invalid_def in_int64_def)

text \<open>As keys of a \<open>std::map\<close>, two locators of the same kind and port whose addresses have the
  same length are the same key, whatever the addresses: \<open>operator<\<close> compares lengths.\<close>

theorem locator_map_conflates:
  assumes "loc_kind a = loc_kind b" "loc_port a = loc_port b" "length (loc_address a) = length (loc_address b)"
  shows "om_insert loc_less b v [(a, w)] = [(a, w)] \<and> om_find loc_less b [(a, w)] = Some w"
  using assms by (simp add: loc_less_def)

theorem locator_map_conflates_witness:
  "om_find loc_less \<lparr> loc_kind = 1, loc_port = 7400, loc_address = [49] \<rparr>
     [(\<lparr> loc_kind = 1, loc_port = 7400, loc_address = [50] \<rparr>, True)] = Some True"
  using locator_map_conflates[of "\<lparr> loc_kind = 1, loc_port = 7400, loc_address = [50] \<rparr>"
      "\<lparr> loc_kind = 1, loc_port = 7400, loc_address = [49] \<rparr>" False True]
  by simp

text \<open>Reading back a parameter that has a value, from the bytes \<open>Write\<close> produced for it, stores
  the first octet outside the empty value vector.\<close>

theorem parameter_value_unreadable:
  assumes "in_int16 (par_id p)" "par_value p \<noteq> []" "length (par_value p) < 32768"
  shows "transfer write_par (read_par par_default) p = Inl UndefinedBehaviour"
proof -
  have "par_enc p \<noteq> []" by (simp add: par_enc_def)
  then show ?thesis
    using transfer_rejects[of write_par p "par_enc p"] emits_write_par[OF assms(3)] rejects_read_par[OF assms]
    by blast
qed

theorem parameter_value_unreadable_witness:
  "transfer write_par (read_par par_default) \<lparr> par_id = 5, par_value = [1, 2, 3, 4] \<rparr> = Inl UndefinedBehaviour"
  by (rule parameter_value_unreadable) (simp_all add: in_int16_def)

text \<open>\<open>SerializedPayload::Read\<close> never returns: with an encapsulation and a length it accepts, the
  buffer it copies the payload to is built from a \<open>ByteArray\<close> nobody wrote to, which fails an assertion.\<close>

theorem payload_read_never_returns: "read_sp old r \<noteq> Inr x"
  by (rule read_sp_no_result)

end
