(* ===== verification/Headers.thy ===== *)
theory Headers
  imports Elements
begin

text \<open>
  \<open>RTPS/Headers\<close>: the encapsulation octet of a datagram, the message header and the submessage
  header with its endianness flag, and the flag conventions every submessage class follows: a flag
  is tested and set by comparing the masked octet with the characters \<open>'0'\<close> (0x30) and \<open>'1'\<close>
  (0x31).
\<close>

section \<open>DataEncapsulation\<close>

record data_encapsulation =
  de_endian :: u8

definition de_new :: "u8 \<Rightarrow> data_encapsulation" where
  "de_new endian = \<lparr> de_endian = endian \<rparr>"

definition write_de :: "data_encapsulation \<Rightarrow> writer" where
  "write_de d = put_int8 (de_endian d)"

definition read_de :: "data_encapsulation reader" where
  "read_de = rthen get_int8 (\<lambda>e. rret (de_new e))"

interpretation de_codec: wire_codec "\<lambda>_. True" "\<lambda>d. [de_endian d]" write_de read_de
proof
  fix d :: data_encapsulation
  show "consumes read_de [de_endian d] d"
    unfolding read_de_def by (intro consumes_rthen_ret[OF consumes_ints(1)]) (simp add: de_new_def)
qed (simp_all add: write_de_def emits_put_ints)

section \<open>MessageHeader\<close>

text \<open>The protocol id is the 16-bit code of the enumeration (0 none, 1 Intact, 2 RTPS).\<close>

record message_header =
  mh_protocol_id :: int
  mh_version :: protocol_version
  mh_vendor :: vendor_id
  mh_prefix :: guid_prefix

definition mh_new :: "int \<Rightarrow> protocol_version \<Rightarrow> vendor_id \<Rightarrow> guid_prefix \<Rightarrow> message_header" where
  "mh_new p ver v g = \<lparr> mh_protocol_id = p, mh_version = ver, mh_vendor = v, mh_prefix = g \<rparr>"

definition mh_default :: message_header where
  "mh_default = mh_new 1 pv_default vi_unknown gp_unknown"

definition mh_SIZE :: int where
  "mh_SIZE = 2 + 2 + 2 + 12"

definition write_mh :: "message_header \<Rightarrow> writer" where
  "write_mh h =
     wseq (put_int16 (mh_protocol_id h)) (wseq (write_pv (mh_version h))
       (wseq (write_vi (mh_vendor h)) (write_gp (mh_prefix h))))"

definition read_mh :: "message_header \<Rightarrow> message_header reader" where
  "read_mh old =
     rthen get_int16 (\<lambda>p. rthen read_pv (\<lambda>ver. rthen (read_vi (mh_vendor old)) (\<lambda>v.
       rthen (read_gp (mh_prefix old)) (\<lambda>g. rret (mh_new p ver v g)))))"

definition mh_is_valid :: "message_header \<Rightarrow> bool" where
  "mh_is_valid h = True"

definition mh_ok :: "message_header \<Rightarrow> bool" where
  "mh_ok h \<longleftrightarrow> in_int16 (mh_protocol_id h) \<and> vi_ok (mh_vendor h) \<and> gp_ok (mh_prefix h)"

definition mh_enc :: "message_header \<Rightarrow> u8 list" where
  "mh_enc h = le_bytes 2 (mh_protocol_id h) @ ([pv_major (mh_version h)] @ [pv_minor (mh_version h)])
     @ vi_octets (mh_vendor h) @ gp_octets (mh_prefix h)"

lemma mh_ok_default: "mh_ok mh_default"
  by (simp add: mh_ok_def mh_default_def mh_new_def in_int16_def vi_ok_def vi_unknown_def)

lemma mh_enc_length: "mh_ok h \<Longrightarrow> int (length (mh_enc h)) = mh_SIZE"
  by (simp add: mh_enc_def mh_SIZE_def mh_ok_def vi_ok_def gp_ok_def)

interpretation mh_codec: wire_codec mh_ok mh_enc write_mh "read_mh mh_default"
proof
  fix h assume h: "mh_ok h"
  then show "emits (write_mh h) (mh_enc h)"
    unfolding write_mh_def mh_enc_def mh_ok_def
    by (intro emits_wseq emits_put_ints pv_codec.wr_emits vi_codec.wr_emits gp_codec.wr_emits) auto
  show "consumes (read_mh mh_default) (mh_enc h) h"
    using h unfolding read_mh_def mh_enc_def mh_ok_def
    by (auto simp: mh_default_def mh_new_def simp del: append_Cons append_Nil append_assoc
        intro!: consumes_rthen[OF consumes_ints(2)] consumes_rthen[OF pv_codec.rd_consumes]
          consumes_rthen[OF vi_codec.rd_consumes] consumes_rthen_ret[OF gp_codec.rd_consumes])
qed (simp add: mh_enc_def)

section \<open>SubmessageHeader\<close>

datatype submessage_kind =
    KindUnknown | Pad | AckNack | Heartbeat | Gap | InfoTs | InfoSrc | InfoReplyIp4 | InfoDst
  | InfoReply | NackFrag | HeartbeatFrag | Data | DataFrag | KindOther int

fun kind_code :: "submessage_kind \<Rightarrow> int" where
  "kind_code KindUnknown = 0x00"
| "kind_code Pad = 0x01"
| "kind_code AckNack = 0x06"
| "kind_code Heartbeat = 0x07"
| "kind_code Gap = 0x08"
| "kind_code InfoTs = 0x09"
| "kind_code InfoSrc = 0x0c"
| "kind_code InfoReplyIp4 = 0x0d"
| "kind_code InfoDst = 0x0e"
| "kind_code InfoReply = 0x0f"
| "kind_code NackFrag = 0x12"
| "kind_code HeartbeatFrag = 0x13"
| "kind_code Data = 0x15"
| "kind_code DataFrag = 0x16"
| "kind_code (KindOther n) = n"

definition named_kinds :: "submessage_kind list" where
  "named_kinds = [KindUnknown, Pad, AckNack, Heartbeat, Gap, InfoTs, InfoSrc, InfoReplyIp4,
     InfoDst, InfoReply, NackFrag, HeartbeatFrag, Data, DataFrag]"

text \<open>The cast of a signed octet to the enumeration.\<close>

definition kind_of_code :: "int \<Rightarrow> submessage_kind" where
  "kind_of_code n =
     (case find (\<lambda>k. kind_code k = n) named_kinds of Some k \<Rightarrow> k | None \<Rightarrow> KindOther n)"

record submessage_header =
  sh_kind :: submessage_kind
  sh_flags :: u8
  sh_length :: int

definition sh_new :: "submessage_kind \<Rightarrow> int \<Rightarrow> u8 \<Rightarrow> submessage_header" where
  "sh_new k len flags = \<lparr> sh_kind = k, sh_flags = flags, sh_length = len \<rparr>"

definition sh_of_flags :: "u8 \<Rightarrow> submessage_header" where
  "sh_of_flags flags = sh_new KindUnknown 0 flags"

definition sh_SIZE :: int where
  "sh_SIZE = 4"

definition write_sh :: "submessage_header \<Rightarrow> writer" where
  "write_sh h =
     wseq (put_int8 (word_of_int (kind_code (sh_kind h))))
       (wseq (put_int8 (sh_flags h)) (put_int16 (wrap16 (sh_length h))))"

definition read_sh :: "submessage_header reader" where
  "read_sh =
     rthen get_int8 (\<lambda>k. rthen get_int8 (\<lambda>f. rthen get_int16 (\<lambda>l.
       rret (sh_new (kind_of_code (sint k)) (uint16 l) f))))"

definition sh_is_valid :: "submessage_header \<Rightarrow> bool" where
  "sh_is_valid h = True"

definition is_big_endian :: "submessage_header \<Rightarrow> bool" where
  "is_big_endian h = (let E = sh_flags h AND 0x01 in if E = 0x30 then True else False)"

definition is_little_endian :: "submessage_header \<Rightarrow> bool" where
  "is_little_endian h = (let E = sh_flags h AND 0x01 in if E = 0x30 then False else True)"

definition set_endian_flag :: "u8 \<Rightarrow> submessage_header \<Rightarrow> submessage_header res" where
  "set_endian_flag endian h =
     (if endian = 0x01 then Inr (h\<lparr> sh_flags := sh_flags h OR 0x01 \<rparr>)
      else asserting (endian = 0x00) (Inr (h\<lparr> sh_flags := sh_flags h AND NOT 0x01 \<rparr>)))"

lemma kind_of_kind_code: "k \<in> set named_kinds \<Longrightarrow> kind_of_code (kind_code k) = k"
  by (auto simp: named_kinds_def kind_of_code_def)

lemma kind_code_signed:
  "k \<in> set named_kinds \<Longrightarrow> sint (word_of_int (kind_code k) :: u8) = kind_code k"
  by (auto simp: named_kinds_def)

definition sh_ok :: "submessage_header \<Rightarrow> bool" where
  "sh_ok h \<longleftrightarrow> sh_kind h \<in> set named_kinds \<and> 0 \<le> sh_length h \<and> sh_length h < 65536"

definition sh_enc :: "submessage_header \<Rightarrow> u8 list" where
  "sh_enc h = [word_of_int (kind_code (sh_kind h))] @ [sh_flags h] @ le_bytes 2 (wrap16 (sh_length h))"

lemma sh_enc_length: "int (length (sh_enc h)) = sh_SIZE"
  by (simp add: sh_enc_def sh_SIZE_def)

lemma in_int16_wrap16: "in_int16 (wrap16 x)"
  unfolding wrap16_def in_int16_def by (smt (verit) pos_mod_bound pos_mod_sign)

lemma uint16_wrap16: "0 \<le> x \<Longrightarrow> x < 65536 \<Longrightarrow> uint16 (wrap16 x) = x"
  by (simp add: uint16_def wrap16_def mod_diff_left_eq mod_diff_eq)

interpretation sh_codec: wire_codec sh_ok sh_enc write_sh read_sh
proof
  fix h assume h: "sh_ok h"
  then show "emits (write_sh h) (sh_enc h)"
    unfolding write_sh_def sh_enc_def by (intro emits_wseq emits_put_ints)
  show "consumes read_sh (sh_enc h) h"
    using h unfolding read_sh_def sh_enc_def sh_ok_def
    by (auto simp: sh_new_def kind_of_kind_code kind_code_signed uint16_wrap16 in_int16_wrap16
        simp del: append_Cons append_Nil
        intro!: consumes_rthen[OF consumes_ints(1)] consumes_rthen_ret[OF consumes_ints(2)])
qed (simp add: sh_enc_def)

section \<open>Flags\<close>

definition flag_is_one :: "u8 \<Rightarrow> u8 \<Rightarrow> bool" where
  "flag_is_one msk flags = (flags AND msk = 0x31)"

definition flag_is_zero :: "u8 \<Rightarrow> u8 \<Rightarrow> bool" where
  "flag_is_zero msk flags = (flags AND msk = 0x30)"

text \<open>The body all \<open>Set...Flag\<close> methods share: change the bit, then assert on the character.\<close>

definition set_checked_flag :: "u8 \<Rightarrow> bool \<Rightarrow> u8 \<Rightarrow> u8 res" where
  "set_checked_flag msk b flags =
     (if b then let f = flags OR msk in asserting (flag_is_one msk f) (Inr f)
      else let f = flags AND NOT msk in asserting (flag_is_zero msk f) (Inr f))"

lemma masked_not_character:
  assumes "\<not> bit msk 4" shows "flags AND msk \<noteq> (0x31::u8)" "flags AND msk \<noteq> (0x30::u8)"
proof -
  have "\<not> bit (flags AND msk) 4" using assms by (simp add: bit_and_iff)
  moreover have "bit (0x31::u8) 4" "bit (0x30::u8) 4" by simp_all
  ultimately show "flags AND msk \<noteq> (0x31::u8)" "flags AND msk \<noteq> (0x30::u8)" by metis+
qed

lemma flags_never:
  assumes "\<not> bit msk 4"
  shows "\<not> flag_is_one msk flags" "\<not> flag_is_zero msk flags"
    "set_checked_flag msk b flags = Inl AssertFailed"
  using masked_not_character[OF assms]
  by (simp_all add: flag_is_one_def flag_is_zero_def set_checked_flag_def Let_def)

lemma flag_masks [simp]:
  "\<not> bit (0x01::u8) 4" "\<not> bit (0x02::u8) 4" "\<not> bit (0x04::u8) 4" "\<not> bit (0x08::u8) 4"
  by simp_all

section \<open>Properties\<close>

text \<open>For every flag mask the submessages use, testing the flag is false whatever the flags octet
  holds, and setting or clearing it fails the assertion that follows: the masked octet is compared
  with the characters \<open>'0'\<close> and \<open>'1'\<close>.\<close>

theorem flags_never_hold:
  assumes "msk \<in> {0x01, 0x02, 0x04, 0x08}"
  shows "\<not> flag_is_one msk flags \<and> \<not> flag_is_zero msk flags
    \<and> set_checked_flag msk b flags = Inl AssertFailed"
  using assms flags_never[of msk] by auto

theorem flags_never_hold_witness: "set_checked_flag 0x02 True 0x01 = Inl AssertFailed"
  using flags_never_hold[of "0x02" "0x01" True] by simp

text \<open>A message header arrives unchanged, and occupies exactly the \<open>SIZE()\<close> it announces.\<close>

theorem message_header_roundtrip:
  assumes "mh_ok h"
  shows "transfer write_mh (read_mh mh_default) h = Inr h \<and> int (length (mh_enc h)) = mh_SIZE"
  using mh_codec.transfer_id[OF assms] mh_enc_length[OF assms] by blast

theorem message_header_roundtrip_witness:
  "transfer write_mh (read_mh mh_default) (mh_default\<lparr> mh_prefix := \<lparr> gp_octets = replicate 12 7 \<rparr> \<rparr>)
     = Inr (mh_default\<lparr> mh_prefix := \<lparr> gp_octets = replicate 12 7 \<rparr> \<rparr>)"
  using message_header_roundtrip[of "mh_default\<lparr> mh_prefix := \<lparr> gp_octets = replicate 12 7 \<rparr> \<rparr>"]
    mh_ok_default by (simp add: mh_ok_def gp_ok_def)

end
