(* ===== verification/Submessages.thy ===== *)
theory Submessages
  imports Sequence_Set Headers
begin

text \<open>
  \<open>RTPS/Submessages\<close>: one record per submessage class, extending the state of
  \<open>RtpsSubmessageBase\<close>, with its two constructors, \<open>Write\<close>, \<open>Read\<close>, \<open>GetSubmessageKind\<close>,
  \<open>GetSubmessageSize\<close> and its flags. A member the constructor leaves uninitialised is an argument
  of it. \<open>Read\<close> takes the object it fills.
\<close>

section \<open>RtpsSubmessageBase\<close>

record submessage_base =
  sb_header :: submessage_header
  sb_timestamp :: timestamp
  sb_source_prefix :: guid_prefix

definition sb_of_header :: "submessage_header \<Rightarrow> submessage_base" where
  "sb_of_header h = \<lparr> sb_header = h, sb_timestamp = ts_invalid, sb_source_prefix = gp_unknown \<rparr>"

definition sb_of_kind :: "submessage_kind \<Rightarrow> submessage_base" where
  "sb_of_kind k = sb_of_header ((sh_of_flags 0x00)\<lparr> sh_kind := k \<rparr>)"

definition write_with_header ::
  "('a submessage_base_scheme \<Rightarrow> int res) \<Rightarrow> ('a submessage_base_scheme \<Rightarrow> writer) \<Rightarrow>
   'a submessage_base_scheme \<Rightarrow> byte_array \<Rightarrow> (bool \<times> 'a submessage_base_scheme \<times> byte_array) res" where
  "write_with_header get_size wr m b =
     (if \<not> sh_is_valid (sb_header m) then Inr (False, m, b)
      else rbind (get_size m) (\<lambda>n.
        let m' = m\<lparr> sb_header := (sb_header m)\<lparr> sh_length := uint16 n \<rparr> \<rparr>
        in rbind (write_sh (sb_header m') b) (\<lambda>b1. rbind (wr m' b1) (\<lambda>b2. Inr (True, m', b2)))))"

definition get_kind :: "submessage_kind \<Rightarrow> 'a submessage_base_scheme \<Rightarrow> submessage_kind res" where
  "get_kind k m = asserting (sh_kind (sb_header m) = k) (Inr (sh_kind (sb_header m)))"

text \<open>The tests and the setters of a flag, on the flags octet of the header.\<close>

definition has_flag :: "u8 \<Rightarrow> 'a submessage_base_scheme \<Rightarrow> bool" where
  "has_flag msk m = flag_is_one msk (sh_flags (sb_header m))"

definition set_flag :: "u8 \<Rightarrow> bool \<Rightarrow> 'a submessage_base_scheme \<Rightarrow> 'a submessage_base_scheme res" where
  "set_flag msk b m =
     rbind (set_checked_flag msk b (sh_flags (sb_header m)))
       (\<lambda>f. Inr (m\<lparr> sb_header := (sb_header m)\<lparr> sh_flags := f \<rparr> \<rparr>))"

lemma set_flag_aborts: "\<not> bit msk 4 \<Longrightarrow> set_flag msk b m = Inl AssertFailed"
  by (simp add: set_flag_def flags_never)

lemma has_flag_never: "\<not> bit msk 4 \<Longrightarrow> \<not> has_flag msk m"
  by (simp add: has_flag_def flags_never)

section \<open>RtpsAckNack\<close>

record rtps_ack_nack = submessage_base +
  an_reader :: entity_id
  an_writer :: entity_id
  an_sn_state :: sequence_number_set
  an_count :: int

definition an_of_base :: "submessage_base \<Rightarrow> rtps_ack_nack" where
  "an_of_base b = submessage_base.extend b
     \<lparr> an_reader = ei_unknown, an_writer = ei_unknown, an_sn_state = sns_new, an_count = count_default \<rparr>"

definition an_of_header :: "submessage_header \<Rightarrow> rtps_ack_nack res" where
  "an_of_header h = asserting (sh_kind h = AckNack) (Inr (an_of_base (sb_of_header h)))"

definition an_new :: rtps_ack_nack where
  "an_new = an_of_base (sb_of_kind AckNack)"

definition write_an :: "rtps_ack_nack \<Rightarrow> writer" where
  "write_an m =
     wseq (write_ei (an_reader m)) (wseq (write_ei (an_writer m))
       (wseq (write_sns (an_sn_state m)) (write_count (an_count m))))"

definition read_an :: "rtps_ack_nack \<Rightarrow> rtps_ack_nack reader" where
  "read_an old =
     rthen (read_ei (an_reader old)) (\<lambda>r. rthen (read_ei (an_writer old)) (\<lambda>w.
       rthen (read_sns (an_sn_state old)) (\<lambda>s. rthen read_count (\<lambda>c.
         rret (old\<lparr> an_reader := r, an_writer := w, an_sn_state := s, an_count := c \<rparr>)))))"

definition an_SIZE :: int where
  "an_SIZE = 4 + 4 + (4 + sn_SIZE) + 4"

definition an_has_final_flag :: "rtps_ack_nack \<Rightarrow> bool" where
  "an_has_final_flag m = has_flag 0x02 m"

definition an_set_final_flag :: "bool \<Rightarrow> rtps_ack_nack \<Rightarrow> rtps_ack_nack res" where
  "an_set_final_flag b m = set_flag 0x02 b m"

definition an_ok :: "submessage_base \<Rightarrow> rtps_ack_nack \<Rightarrow> bool" where
  "an_ok base m \<longleftrightarrow> submessage_base.truncate m = base \<and> ei_ok (an_reader m) \<and> ei_ok (an_writer m)
     \<and> sns_exact (an_sn_state m) \<and> in_int32 (an_count m)"

definition an_enc :: "rtps_ack_nack \<Rightarrow> u8 list" where
  "an_enc m = ei_enc (an_reader m) @ ei_enc (an_writer m) @ sns_enc (an_sn_state m) @ le_bytes 4 (an_count m)"

interpretation an_codec: wire_codec "an_ok base" an_enc write_an "read_an (an_of_base base)" for base
proof
  fix m assume m: "an_ok base m"
  then show "emits (write_an m) (an_enc m)"
    unfolding write_an_def an_enc_def an_ok_def
    by (intro emits_wseq ei_codec.wr_emits sns_codec.wr_emits count_codec.wr_emits) auto
  show "consumes (read_an (an_of_base base)) (an_enc m) m"
    using m unfolding read_an_def an_enc_def an_ok_def
    by (auto simp: an_of_base_def submessage_base.defs
        intro!: consumes_rthen[OF ei_codec.rd_consumes] consumes_rthen[OF sns_codec.rd_consumes]
          consumes_rthen_ret[OF count_codec.rd_consumes])
qed (simp add: an_enc_def ei_enc_def)

section \<open>RtpsGap\<close>

record rtps_gap = submessage_base +
  gap_reader :: entity_id
  gap_writer :: entity_id
  gap_start :: sequence_number
  gap_list :: sequence_number_set

definition gap_of_base :: "submessage_base \<Rightarrow> rtps_gap" where
  "gap_of_base b = submessage_base.extend b
     \<lparr> gap_reader = ei_unknown, gap_writer = ei_unknown, gap_start = sn_of_value 1, gap_list = sns_new \<rparr>"

definition gap_of_header :: "submessage_header \<Rightarrow> rtps_gap res" where
  "gap_of_header h = asserting (sh_kind h = Gap) (Inr (gap_of_base (sb_of_header h)))"

definition gap_new :: rtps_gap where
  "gap_new = gap_of_base (sb_of_kind Gap)"

definition write_gap :: "rtps_gap \<Rightarrow> writer" where
  "write_gap m =
     wseq (write_ei (gap_reader m)) (wseq (write_ei (gap_writer m))
       (wseq (write_sn (gap_start m)) (write_sns (gap_list m))))"

definition read_gap :: "rtps_gap \<Rightarrow> rtps_gap reader" where
  "read_gap old =
     rthen (read_ei (gap_reader old)) (\<lambda>r. rthen (read_ei (gap_writer old)) (\<lambda>w.
       rthen read_sn (\<lambda>s. rthen (read_sns (gap_list old)) (\<lambda>l.
         rret (old\<lparr> gap_reader := r, gap_writer := w, gap_start := s, gap_list := l \<rparr>)))))"

definition gap_SIZE :: int where
  "gap_SIZE = 4 + 4 + sn_SIZE + (4 + sn_SIZE)"

definition gap_ok :: "submessage_base \<Rightarrow> rtps_gap \<Rightarrow> bool" where
  "gap_ok base m \<longleftrightarrow> submessage_base.truncate m = base \<and> ei_ok (gap_reader m) \<and> ei_ok (gap_writer m)
     \<and> sn_representable (gap_start m) \<and> sns_exact (gap_list m)"

definition gap_enc :: "rtps_gap \<Rightarrow> u8 list" where
  "gap_enc m = ei_enc (gap_reader m) @ ei_enc (gap_writer m) @ sn_enc (gap_start m) @ sns_enc (gap_list m)"

interpretation gap_codec: wire_codec "gap_ok base" gap_enc write_gap "read_gap (gap_of_base base)" for base
proof
  fix m assume m: "gap_ok base m"
  then show "emits (write_gap m) (gap_enc m)"
    unfolding write_gap_def gap_enc_def gap_ok_def
    by (intro emits_wseq ei_codec.wr_emits sn_codec.wr_emits sns_codec.wr_emits) auto
  show "consumes (read_gap (gap_of_base base)) (gap_enc m) m"
    using m unfolding read_gap_def gap_enc_def gap_ok_def
    by (auto simp: gap_of_base_def submessage_base.defs
        intro!: consumes_rthen[OF ei_codec.rd_consumes] consumes_rthen[OF sn_codec.rd_consumes]
          consumes_rthen_ret[OF sns_codec.rd_consumes])
qed (simp add: gap_enc_def ei_enc_def)

section \<open>RtpsHeartbeat\<close>

record rtps_heartbeat = submessage_base +
  hb_reader :: entity_id
  hb_writer :: entity_id
  hb_first :: sequence_number
  hb_last :: sequence_number
  hb_count :: int

definition hb_of_base :: "submessage_base \<Rightarrow> rtps_heartbeat" where
  "hb_of_base b = submessage_base.extend b
     \<lparr> hb_reader = ei_unknown, hb_writer = ei_unknown, hb_first = sn_of_value 1, hb_last = sn_of_value 1,
       hb_count = count_default \<rparr>"

definition hb_of_header :: "submessage_header \<Rightarrow> rtps_heartbeat res" where
  "hb_of_header h = asserting (sh_kind h = Heartbeat) (Inr (hb_of_base (sb_of_header h)))"

definition hb_new :: rtps_heartbeat where
  "hb_new = hb_of_base (sb_of_kind Heartbeat)"

definition write_hb :: "rtps_heartbeat \<Rightarrow> writer" where
  "write_hb m =
     wseq (write_ei (hb_reader m)) (wseq (write_ei (hb_writer m))
       (wseq (write_sn (hb_first m)) (wseq (write_sn (hb_last m)) (write_count (hb_count m)))))"

definition read_hb :: "rtps_heartbeat \<Rightarrow> rtps_heartbeat reader" where
  "read_hb old =
     rthen (read_ei (hb_reader old)) (\<lambda>r. rthen (read_ei (hb_writer old)) (\<lambda>w.
       rthen read_sn (\<lambda>f. rthen read_sn (\<lambda>l. rthen read_count (\<lambda>c.
         rret (old\<lparr> hb_reader := r, hb_writer := w, hb_first := f, hb_last := l, hb_count := c \<rparr>))))))"

definition hb_SIZE :: int where
  "hb_SIZE = 4 + 4 + sn_SIZE + sn_SIZE + 4"

definition hb_has_final_flag :: "rtps_heartbeat \<Rightarrow> bool" where
  "hb_has_final_flag m = has_flag 0x02 m"

definition hb_set_final_flag :: "bool \<Rightarrow> rtps_heartbeat \<Rightarrow> rtps_heartbeat res" where
  "hb_set_final_flag b m = set_flag 0x02 b m"

definition hb_has_liveliness_flag :: "rtps_heartbeat \<Rightarrow> bool" where
  "hb_has_liveliness_flag m = has_flag 0x04 m"

definition hb_set_liveliness_flag :: "bool \<Rightarrow> rtps_heartbeat \<Rightarrow> rtps_heartbeat res" where
  "hb_set_liveliness_flag b m = set_flag 0x04 b m"

definition hb_ok :: "submessage_base \<Rightarrow> rtps_heartbeat \<Rightarrow> bool" where
  "hb_ok base m \<longleftrightarrow> submessage_base.truncate m = base \<and> ei_ok (hb_reader m) \<and> ei_ok (hb_writer m)
     \<and> sn_representable (hb_first m) \<and> sn_representable (hb_last m) \<and> in_int32 (hb_count m)"

definition hb_enc :: "rtps_heartbeat \<Rightarrow> u8 list" where
  "hb_enc m = ei_enc (hb_reader m) @ ei_enc (hb_writer m) @ sn_enc (hb_first m) @ sn_enc (hb_last m)
     @ le_bytes 4 (hb_count m)"

interpretation hb_codec: wire_codec "hb_ok base" hb_enc write_hb "read_hb (hb_of_base base)" for base
proof
  fix m assume m: "hb_ok base m"
  then show "emits (write_hb m) (hb_enc m)"
    unfolding write_hb_def hb_enc_def hb_ok_def
    by (intro emits_wseq ei_codec.wr_emits sn_codec.wr_emits count_codec.wr_emits) auto
  show "consumes (read_hb (hb_of_base base)) (hb_enc m) m"
    using m unfolding read_hb_def hb_enc_def hb_ok_def
    by (auto simp: hb_of_base_def submessage_base.defs
        intro!: consumes_rthen[OF ei_codec.rd_consumes] consumes_rthen[OF sn_codec.rd_consumes]
          consumes_rthen_ret[OF count_codec.rd_consumes])
qed (simp add: hb_enc_def ei_enc_def)

section \<open>Properties\<close>

text \<open>An ACKNACK whose ids have the declared lengths and whose bitmap survives its word count
  arrives unchanged at a reader that starts from a freshly constructed object.\<close>

theorem acknack_roundtrip:
  assumes "an_ok base m"
  shows "transfer write_an (read_an (an_of_base base)) m = Inr m"
  by (rule an_codec.transfer_id[OF assms])

theorem acknack_roundtrip_witness:
  "transfer write_an (read_an (an_of_base (sb_of_kind AckNack))) (an_new\<lparr> an_count := 7 \<rparr>)
     = Inr (an_new\<lparr> an_count := 7 \<rparr>)"
proof (rule acknack_roundtrip)
  have "sns_exact sns_new"
    using sns_ok_new by (simp add: sns_exact_def sns_received_def sns_new_def sns_vector_size_def)
  then show "an_ok (sb_of_kind AckNack) (an_new\<lparr> an_count := 7 \<rparr>)"
    by (simp add: an_ok_def an_new_def an_of_base_def submessage_base.defs in_int32_def sb_of_kind_def sb_of_header_def)
qed

text \<open>A GAP with valid ids, a representable start and a bitmap that survives its word count arrives
  unchanged.\<close>

theorem gap_roundtrip:
  assumes "gap_ok base m"
  shows "transfer write_gap (read_gap (gap_of_base base)) m = Inr m"
  by (rule gap_codec.transfer_id[OF assms])

theorem gap_roundtrip_witness:
  "transfer write_gap (read_gap (gap_of_base (sb_of_kind Gap))) (gap_new\<lparr> gap_start := sn_max \<rparr>)
     = Inr (gap_new\<lparr> gap_start := sn_max \<rparr>)"
proof (rule gap_roundtrip)
  have "sns_exact sns_new"
    using sns_ok_new by (simp add: sns_exact_def sns_received_def sns_new_def sns_vector_size_def)
  then show "gap_ok (sb_of_kind Gap) (gap_new\<lparr> gap_start := sn_max \<rparr>)"
    by (simp add: gap_ok_def gap_new_def gap_of_base_def submessage_base.defs sb_of_kind_def sb_of_header_def
        sn_representable_def sn_max_def mk_sn_def in_int64_def int32_max_def uint32_max_def)
qed

text \<open>A HEARTBEAT arrives unchanged; its body is 44 octets long, while the \<open>SIZE()\<close> that
  \<open>WriteWithHeader\<close> stores in the header, and that the sender plans its datagrams with, is 28.\<close>

theorem heartbeat_roundtrip:
  assumes "hb_ok base m"
  shows "transfer write_hb (read_hb (hb_of_base base)) m = Inr m
    \<and> int (length (hb_enc m)) = 44 \<and> hb_SIZE = 28"
proof -
  have "length (ei_enc (hb_reader m)) = 4" "length (ei_enc (hb_writer m)) = 4"
    using assms by (simp_all add: hb_ok_def ei_ok_def ei_enc_def)
  then show ?thesis using hb_codec.transfer_id[OF assms]
    by (simp add: hb_enc_def sn_enc_length hb_SIZE_def sn_SIZE_def)
qed

theorem heartbeat_roundtrip_witness:
  "transfer write_hb (read_hb (hb_of_base (sb_of_kind Heartbeat))) (hb_new\<lparr> hb_last := sn_of_value 9 \<rparr>)
     = Inr (hb_new\<lparr> hb_last := sn_of_value 9 \<rparr>)"
proof -
  have "hb_ok (sb_of_kind Heartbeat) (hb_new\<lparr> hb_last := sn_of_value 9 \<rparr>)"
    using sn_valid_representable[OF sn_of_value_valid[of 1]] sn_valid_representable[OF sn_of_value_valid[of 9]]
    by (simp add: hb_ok_def hb_new_def hb_of_base_def submessage_base.defs sb_of_kind_def sb_of_header_def
        in_int64_def in_int32_def count_default_def)
  from heartbeat_roundtrip[OF this] show ?thesis by blast
qed

end
