(* ===== verification/Data_Submessages.thy ===== *)
theory Data_Submessages
  imports Submessages
begin

text \<open>
  \<open>RtpsData\<close> and \<open>RtpsDataFrag\<close>, the submessages that carry a change. Their \<open>Read\<close> consults the
  flags of the header before it reads the optional parts; the two mutually recursive flag setters
  of \<open>RtpsData\<close> are a partial function, so that a call that never returns has the value \<open>None\<close>.
\<close>

unbundle bit_operations_syntax

section \<open>RtpsData\<close>

record rtps_data = submessage_base +
  d_extra_flags :: int
  d_reader :: entity_id
  d_writer :: entity_id
  d_sn :: sequence_number
  d_inline_qos :: "parameter list"
  d_payload :: serialized_payload

definition d_of_base :: "int \<Rightarrow> submessage_base \<Rightarrow> rtps_data" where
  "d_of_base junk b = submessage_base.extend b
     \<lparr> d_extra_flags = junk, d_reader = ei_unknown, d_writer = ei_unknown, d_sn = sn_of_value 1,
       d_inline_qos = [], d_payload = sp_default 0 \<rparr>"

definition d_of_header :: "int \<Rightarrow> submessage_header \<Rightarrow> rtps_data res" where
  "d_of_header junk h = asserting (sh_kind h = Data) (Inr (d_of_base junk (sb_of_header h)))"

definition d_of_payload :: "int \<Rightarrow> serialized_payload \<Rightarrow> rtps_data" where
  "d_of_payload junk p = (d_of_base junk (sb_of_kind Data))\<lparr> d_payload := p \<rparr>"

definition d_new :: "int \<Rightarrow> rtps_data" where
  "d_new junk = d_of_base junk (sb_of_kind Data)"

definition d_is_valid :: "rtps_data \<Rightarrow> bool" where
  "d_is_valid m = True"

definition d_has_inline_qos :: "rtps_data \<Rightarrow> bool" where
  "d_has_inline_qos m = has_flag 0x02 m"

definition d_set_inline_qos_flag :: "bool \<Rightarrow> rtps_data \<Rightarrow> rtps_data res" where
  "d_set_inline_qos_flag b m = set_flag 0x02 b m"

definition d_has_serialized_payload :: "rtps_data \<Rightarrow> bool" where
  "d_has_serialized_payload m =
     (let fl = sh_flags (sb_header m);
          data0 = flag_is_zero 0x04 fl; data1 = flag_is_one 0x04 fl;
          key0 = flag_is_zero 0x08 fl; key1 = flag_is_one 0x08 fl
      in if data0 \<and> key0 then False
         else if data1 \<and> key0 then True
         else if data0 \<and> key1 then True
         else False)"

definition d_has_serialized_data :: "rtps_data \<Rightarrow> bool" where
  "d_has_serialized_data m =
     (let fl = sh_flags (sb_header m) in flag_is_one 0x04 fl \<and> flag_is_zero 0x08 fl)"

definition d_has_serialized_key :: "rtps_data \<Rightarrow> bool" where
  "d_has_serialized_key m =
     (let fl = sh_flags (sb_header m) in flag_is_zero 0x04 fl \<and> flag_is_one 0x08 fl)"

text \<open>
  \<open>SetSerializedDataFlag\<close> (first argument \<open>False\<close>) starts with \<open>SetSerializedKeyFlag(false)\<close>, which
  (first argument \<open>True\<close>) starts with \<open>SetSerializedDataFlag(false)\<close>.
\<close>

partial_function (option) d_set_serialized_flag ::
  "bool \<Rightarrow> bool \<Rightarrow> rtps_data \<Rightarrow> rtps_data res option" where
  "d_set_serialized_flag key b m =
     Option.bind (d_set_serialized_flag (\<not> key) False m)
       (\<lambda>r. Some (rbind r (set_flag (if key then 0x08 else 0x04) b)))"

definition write_d :: "rtps_data \<Rightarrow> writer" where
  "write_d m =
     wseq (put_int16 (d_extra_flags m)) (wseq (put_int16 (32 * 3))
       (wseq (write_ei (d_reader m)) (wseq (write_ei (d_writer m)) (wseq (write_sn (d_sn m))
         (wseq (if d_inline_qos m \<noteq> [] then write_par_list (d_inline_qos m) else wskip)
           (write_sp (d_payload m)))))))"

definition read_d :: "rtps_data \<Rightarrow> rtps_data reader" where
  "read_d old =
     rthen get_int16 (\<lambda>x. rthen get_int16 (\<lambda>octets_to_inline_qos.
       rthen (read_ei (d_reader old)) (\<lambda>r. rthen (read_ei (d_writer old)) (\<lambda>w. rthen read_sn (\<lambda>s.
         rthen (if d_has_inline_qos old then read_par_list (d_inline_qos old)
                else rret (d_inline_qos old)) (\<lambda>q.
           rthen (if d_has_serialized_payload old then read_sp (d_payload old)
                  else rret (d_payload old)) (\<lambda>p.
             rret (old\<lparr> d_extra_flags := uint16 x, d_reader := r, d_writer := w, d_sn := s,
                        d_inline_qos := q, d_payload := p \<rparr>))))))))"

definition d_size :: "rtps_data \<Rightarrow> int" where
  "d_size m = 2 + 2 + 4 + 4 + sn_SIZE + par_list_size (d_inline_qos m) + sp_length (d_payload m)"

lemma d_no_optional_parts:
  "\<not> d_has_inline_qos m" "\<not> d_has_serialized_payload m" "\<not> d_has_serialized_data m"
  "\<not> d_has_serialized_key m"
  by (simp_all add: d_has_inline_qos_def has_flag_never d_has_serialized_payload_def
      d_has_serialized_data_def d_has_serialized_key_def flags_never)

lemma d_set_inline_qos_flag_aborts: "d_set_inline_qos_flag b m = Inl AssertFailed"
  by (simp add: d_set_inline_qos_flag_def set_flag_aborts)

section \<open>RtpsDataFrag\<close>

record rtps_data_frag = submessage_base +
  df_extra_flags :: int
  df_reader :: entity_id
  df_writer :: entity_id
  df_sn :: sequence_number
  df_starting_num :: int
  df_fragments :: int
  df_fragment_size :: int
  df_sample_size :: int
  df_inline_qos :: "parameter list"
  df_payload :: serialized_payload

definition df_of_base :: "int \<Rightarrow> int \<Rightarrow> int \<Rightarrow> int \<Rightarrow> submessage_base \<Rightarrow> rtps_data_frag" where
  "df_of_base junk1 junk2 junk3 junk4 b = submessage_base.extend b
     \<lparr> df_extra_flags = junk1, df_reader = ei_unknown, df_writer = ei_unknown, df_sn = sn_of_value 1,
       df_starting_num = - 1, df_fragments = junk2, df_fragment_size = junk3, df_sample_size = junk4,
       df_inline_qos = [], df_payload = sp_default 0 \<rparr>"

definition df_of_header ::
  "int \<Rightarrow> int \<Rightarrow> int \<Rightarrow> int \<Rightarrow> submessage_header \<Rightarrow> rtps_data_frag res" where
  "df_of_header j1 j2 j3 j4 h =
     asserting (sh_kind h = DataFrag) (Inr (df_of_base j1 j2 j3 j4 (sb_of_header h)))"

definition df_new :: "int \<Rightarrow> int \<Rightarrow> int \<Rightarrow> int \<Rightarrow> rtps_data_frag" where
  "df_new j1 j2 j3 j4 = df_of_base j1 j2 j3 j4 (sb_of_kind DataFrag)"

definition df_has_inline_qos :: "rtps_data_frag \<Rightarrow> bool" where
  "df_has_inline_qos m = has_flag 0x02 m"

definition df_has_serialized_data :: "rtps_data_frag \<Rightarrow> bool" where
  "df_has_serialized_data m = flag_is_zero 0x04 (sh_flags (sb_header m))"

definition df_has_serialized_key :: "rtps_data_frag \<Rightarrow> bool" where
  "df_has_serialized_key m = has_flag 0x04 m"

definition df_set_inline_qos_flag :: "bool \<Rightarrow> rtps_data_frag \<Rightarrow> rtps_data_frag res" where
  "df_set_inline_qos_flag b m = set_flag 0x02 b m"

definition df_set_serialized_data_flag :: "bool \<Rightarrow> rtps_data_frag \<Rightarrow> rtps_data_frag res" where
  "df_set_serialized_data_flag b m = set_flag 0x04 (\<not> b) m"

definition df_set_serialized_key_flag :: "bool \<Rightarrow> rtps_data_frag \<Rightarrow> rtps_data_frag res" where
  "df_set_serialized_key_flag b m = set_flag 0x04 b m"

definition write_df :: "rtps_data_frag \<Rightarrow> writer" where
  "write_df m =
     wseq (put_int16 (df_extra_flags m)) (wseq (put_int16 (32 * 3))
       (wseq (write_ei (df_reader m)) (wseq (write_ei (df_writer m)) (wseq (write_sn (df_sn m))
         (wseq (write_fragment_number (df_starting_num m)) (wseq (put_int16 (df_fragments m))
           (wseq (put_int16 (df_fragment_size m)) (wseq (put_int32 (df_sample_size m))
             (wseq (if df_inline_qos m \<noteq> [] then write_par_list (df_inline_qos m) else wskip)
               (write_sp (df_payload m)))))))))))"

definition read_df :: "rtps_data_frag \<Rightarrow> rtps_data_frag reader" where
  "read_df old =
     rthen get_int16 (\<lambda>x. rthen get_int16 (\<lambda>octets_to_inline_qos.
       rthen (read_ei (df_reader old)) (\<lambda>r. rthen (read_ei (df_writer old)) (\<lambda>w. rthen read_sn (\<lambda>s.
         rthen read_fragment_number (\<lambda>n. rthen get_int16 (\<lambda>fs. rthen get_int16 (\<lambda>sz. rthen get_int16 (\<lambda>ss.
         rthen (if df_has_inline_qos old then read_par_list (df_inline_qos old)
                else rret (df_inline_qos old)) (\<lambda>q.
           rthen (if df_has_serialized_data old \<or> df_has_serialized_key old then read_sp (df_payload old)
                  else rret (df_payload old)) (\<lambda>p.
             rret (old\<lparr> df_extra_flags := uint16 x, df_reader := r, df_writer := w, df_sn := s,
                        df_starting_num := n, df_fragments := uint16 fs, df_fragment_size := uint16 sz,
                        df_sample_size := ss, df_inline_qos := q, df_payload := p \<rparr>))))))))))))"

definition df_size :: "rtps_data_frag \<Rightarrow> int" where
  "df_size m = 2 + 2 + 4 + 4 + sn_SIZE + 4 + 2 + 2 + 4 + par_list_size (df_inline_qos m)
     + sp_length (df_payload m)"

section \<open>Facts\<close>

lemma d_set_serialized_flag_diverges: "d_set_serialized_flag key b m = None"
proof -
  have "False" if "d_set_serialized_flag key b m = Some r" for r
    using that
    by (rule d_set_serialized_flag.raw_induct[where P = "\<lambda>_ _ _ _. False", rotated])
      (auto simp: bind_eq_Some_conv)
  then show ?thesis by (cases "d_set_serialized_flag key b m") auto
qed

lemma df_no_optional_parts:
  "\<not> df_has_inline_qos m" "\<not> df_has_serialized_data m" "\<not> df_has_serialized_key m"
  by (simp_all add: df_has_inline_qos_def has_flag_never df_has_serialized_data_def
      df_has_serialized_key_def flags_never)

lemma df_setters_abort:
  "df_set_inline_qos_flag b m = Inl AssertFailed"
  "df_set_serialized_data_flag b m = Inl AssertFailed"
  "df_set_serialized_key_flag b m = Inl AssertFailed"
  by (simp_all add: df_set_inline_qos_flag_def df_set_serialized_data_flag_def
      df_set_serialized_key_flag_def set_flag_aborts)

text \<open>
  A payload that can be written: none at all, or a buffer holding between 1 and 256 bytes (what one
  growth step of the destination always has room for).
\<close>

definition sp_writable :: "serialized_payload \<Rightarrow> bool" where
  "sp_writable p \<longleftrightarrow> (case sp_out p of None \<Rightarrow> True
     | Some w \<Rightarrow> 0 < ba_position w \<and> ba_position w \<le> 256 \<and> ba_position w \<le> ba_size w
         \<and> (\<exists>bs. ba_contents w = Inr bs))"

lemma defined_bytes_Inr: "defined_bytes cs = Inr bs \<longleftrightarrow> cs = map Some bs"
  by (induction cs arbitrary: bs rule: defined_bytes.induct) (auto simp: res_simps)

lemma emits_write_sp:
  assumes "sp_writable p" shows "\<exists>bs. emits (write_sp p) bs"
proof (cases "sp_out p")
  case None then show ?thesis using emits_wskip by (auto simp: write_sp_def)
next
  case (Some w)
  then obtain bs where bs: "take (nat (ba_position w)) (ba_cells w) = map Some bs"
    using assms by (auto simp: sp_writable_def ba_contents_def defined_bytes_Inr)
  have "length (take (nat (ba_position w)) (ba_cells w)) = nat (ba_position w)"
    using assms Some by (auto simp: sp_writable_def ba_size_def min_def nat_le_iff)
  then have "length bs = nat (ba_position w)" by (simp add: bs)
  then have len: "bs \<noteq> []" "length bs \<le> 256"
    using assms Some by (auto simp: sp_writable_def nat_le_iff)
  show ?thesis
    unfolding write_sp_def Some option.case bs
    by (rule exI emits_wseq emits_put_ints emits_copy_data len)+
qed

definition d_ok :: "submessage_base \<Rightarrow> rtps_data \<Rightarrow> bool" where
  "d_ok base m \<longleftrightarrow> submessage_base.truncate m = base \<and> in_int16 (d_extra_flags m)
     \<and> 0 \<le> d_extra_flags m \<and> ei_ok (d_reader m) \<and> ei_ok (d_writer m) \<and> sn_representable (d_sn m)
     \<and> par_list_ok (d_inline_qos m) \<and> sp_writable (d_payload m)"

definition d_head_enc :: "rtps_data \<Rightarrow> u8 list" where
  "d_head_enc m = le_bytes 2 (d_extra_flags m) @ le_bytes 2 96 @ ei_enc (d_reader m)
     @ ei_enc (d_writer m) @ sn_enc (d_sn m)"

lemma emits_write_d:
  assumes "d_ok base m" shows "\<exists>bs. emits (write_d m) (d_head_enc m @ bs)"
proof -
  obtain ps where ps: "emits (write_sp (d_payload m)) ps"
    using assms emits_write_sp by (auto simp: d_ok_def)
  have qos: "emits (if d_inline_qos m \<noteq> [] then write_par_list (d_inline_qos m) else wskip)
      (if d_inline_qos m \<noteq> [] then par_list_enc (d_inline_qos m) else [])"
    using assms par_list_codec.wr_emits emits_wskip by (auto simp: d_ok_def)
  have ids: "emits (write_ei (d_reader m)) (ei_enc (d_reader m))"
    "emits (write_ei (d_writer m)) (ei_enc (d_writer m))" "emits (write_sn (d_sn m)) (sn_enc (d_sn m))"
    using assms ei_codec.wr_emits sn_codec.wr_emits by (auto simp: d_ok_def)
  have "32 * 3 = (96::int)" by simp
  then show ?thesis
    using emits_wseq[OF emits_put_ints(2) emits_wseq[OF emits_put_ints(2) emits_wseq[OF ids(1)
        emits_wseq[OF ids(2) emits_wseq[OF ids(3) emits_wseq[OF qos ps]]]]],
        of "d_extra_flags m" "32 * 3"]
    unfolding write_d_def d_head_enc_def append_assoc by (metis (no_types))
qed

lemma consumes_read_d:
  assumes "d_ok base m"
  shows "consumes (read_d (d_of_base junk base)) (d_head_enc m)
     (m\<lparr> d_inline_qos := [], d_payload := sp_default 0 \<rparr>)"
proof -
  have "in_int16 96" "uint16 (d_extra_flags m) = d_extra_flags m"
    using assms by (simp_all add: in_int16_def d_ok_def uint16_def)
  then show ?thesis
    using assms unfolding read_d_def d_head_enc_def d_ok_def
    by (auto simp: d_no_optional_parts d_of_base_def submessage_base.defs
        intro!: consumes_rthen[OF consumes_ints(2)] consumes_rthen[OF ei_codec.rd_consumes]
          consumes_rthen_last[OF sn_codec.rd_consumes] consumes_rthen_last[OF consumes_rret]
          consumes_rret_eq)
qed

section \<open>Properties\<close>

text \<open>A DATA submessage loses its inline QoS and its payload in transit: \<open>Write\<close> emits both, and
  the receiver, whose flag tests are never true, reads neither; ids, sequence number and extra flags
  arrive.\<close>

theorem data_transfer_drops_payload:
  assumes "d_ok base m"
  shows "transfer write_d (read_d (d_of_base junk base)) m
    = Inr (m\<lparr> d_inline_qos := [], d_payload := sp_default 0 \<rparr>)"
proof -
  obtain bs where bs: "emits (write_d m) (d_head_enc m @ bs)" using emits_write_d[OF assms] by blast
  have ne: "d_head_enc m \<noteq> []" by (simp add: d_head_enc_def)
  show ?thesis by (rule transfer_consumes_prefix[where wr = write_d and x = m, OF bs ne consumes_read_d[OF assms]])
qed

theorem data_transfer_drops_payload_witness:
  "\<exists>m. d_payload m \<noteq> sp_default 0 \<and> transfer write_d (read_d (d_of_base 0 (sb_of_kind Data))) m
    = Inr (m\<lparr> d_inline_qos := [], d_payload := sp_default 0 \<rparr>)"
proof -
  let ?p = "\<lparr> sp_endian = 0, sp_length = 1,
     sp_out = Some \<lparr> ba_cells = [Some 42], ba_position = 1 \<rparr>, sp_in = None \<rparr>"
  let ?m = "(d_new 0)\<lparr> d_payload := ?p \<rparr>"
  have "par_list_ok []" by (simp add: par_list_ok_def)
  then have "d_ok (sb_of_kind Data) ?m"
    using sn_valid_representable[OF sn_of_value_valid[of 1]]
    by (simp add: d_ok_def d_new_def d_of_base_def submessage_base.defs sb_of_kind_def sb_of_header_def
        in_int16_def in_int64_def sp_writable_def ba_size_def ba_contents_def)
  from data_transfer_drops_payload[OF this, of 0] show ?thesis
    by (intro exI[of _ ?m]) (simp add: sp_default_def)
qed

text \<open>\<open>SetSerializedDataFlag\<close> and \<open>SetSerializedKeyFlag\<close> call each other without end: neither
  returns, whatever the flag and the message.\<close>

theorem serialized_flag_setters_diverge:
  "d_set_serialized_flag False b m = None \<and> d_set_serialized_flag True b m = None"
  by (simp add: d_set_serialized_flag_diverges)

end
