(* ===== verification/Data_Cache.thy ===== *)
theory Data_Cache
  imports Data_Submessages
begin

text \<open>
  \<open>RTPS/Cache\<close>: a \<open>CacheChange\<close> and the history cache \<open>DataCache\<close>, a \<open>std::map\<close> from sequence
  numbers to changes. The abstract contents of a cache is the finite map \<open>map_of\<close> of its entries;
  the operations refine the map operations as long as the keys lie in one window of the sequence
  number order.
\<close>

record cache_change =
  cc_kind :: change_kind
  cc_guid :: guid
  cc_sn :: sequence_number
  cc_data :: "rtps_data option"
  cc_handle :: int

definition cc_new ::
  "change_kind \<Rightarrow> guid \<Rightarrow> sequence_number \<Rightarrow> rtps_data option \<Rightarrow> int \<Rightarrow> cache_change" where
  "cc_new k g s d h = \<lparr> cc_kind = k, cc_guid = g, cc_sn = s, cc_data = d, cc_handle = h \<rparr>"

definition cc_is_valid :: "cache_change \<Rightarrow> bool" where
  "cc_is_valid c =
     (if cc_guid c = guid_unknown then False
      else if cc_sn c = sn_unknown then False
      else case cc_data c of None \<Rightarrow> True | Some d \<Rightarrow> d_is_valid d)"

type_synonym data_cache = "(sequence_number, cache_change) omap"

definition cache_new :: data_cache where
  "cache_new = []"

definition add_change :: "cache_change \<Rightarrow> data_cache \<Rightarrow> data_cache res" where
  "add_change c cache =
     asserting (\<not> om_member sn_less (cc_sn c) cache)
       (let cache' = om_insert sn_less (cc_sn c) c cache
        in asserting (om_member sn_less (cc_sn c) cache') (Inr cache'))"

definition remove_change_sn :: "sequence_number \<Rightarrow> data_cache \<Rightarrow> bool \<times> data_cache" where
  "remove_change_sn s cache =
     (if om_find sn_less s cache = None then (False, cache)
      else (om_member sn_less s cache, om_erase sn_less s cache))"

definition remove_change :: "cache_change \<Rightarrow> data_cache \<Rightarrow> bool \<times> data_cache" where
  "remove_change c cache =
     (if om_find sn_less (cc_sn c) cache = None then (False, cache)
      else (om_member sn_less (cc_sn c) cache, om_erase sn_less (cc_sn c) cache))"

definition get_change :: "sequence_number \<Rightarrow> data_cache \<Rightarrow> cache_change option" where
  "get_change s cache = om_find sn_less s cache"

definition sequence_number_min :: "data_cache \<Rightarrow> sequence_number" where
  "sequence_number_min cache = (case cache of [] \<Rightarrow> sn_unknown | (k, c) # m \<Rightarrow> k)"

text \<open>\<open>GetSequenceNumberMax\<close> dereferences \<open>end()\<close>.\<close>

definition sequence_number_max :: "data_cache \<Rightarrow> sequence_number res" where
  "sequence_number_max cache = (case cache of [] \<Rightarrow> Inr sn_unknown | e # m \<Rightarrow> Inl UndefinedBehaviour)"

section \<open>Well-formed maps over sequence numbers\<close>

definition sn_map_wf :: "int \<Rightarrow> (sequence_number, 'v) omap \<Rightarrow> bool" where
  "sn_map_wf h m \<longleftrightarrow> sn_key.om_wf h m"

lemmas sn_map_lemmas = sn_key.om_find_map_of sn_key.om_member_iff sn_key.map_of_insert
  sn_key.map_of_assign sn_key.map_of_erase sn_key.om_wf_insert sn_key.om_wf_assign sn_key.om_wf_erase

lemma sn_map_wf_Cons:
  "sn_map_wf h (e # m) \<longleftrightarrow> fst e \<in> sn_window h \<and> (\<forall>f \<in> set m. sn_less (fst e) (fst f)) \<and> sn_map_wf h m"
  by (simp add: sn_map_wf_def sn_key.om_wf_Cons)

lemma sn_map_wf_Nil [simp]: "sn_map_wf h []"
  by (simp add: sn_map_wf_def)

lemma sn_map_keys: "sn_map_wf h m \<Longrightarrow> fst ` set m \<subseteq> sn_window h"
  by (simp add: sn_map_wf_def sn_key.om_wf_def)

text \<open>A map with the same keys is as well-formed: the proxies change statuses in place.\<close>

lemma sn_map_wf_keys: "map fst m' = map fst m \<Longrightarrow> sn_map_wf h m \<Longrightarrow> sn_map_wf h m'"
proof (induction m' arbitrary: m)
  case (Cons e m')
  then obtain f n where m: "m = f # n" "fst f = fst e" "map fst n = map fst m'" by (cases m) auto
  have "fst ` set m' = fst ` set n" using m(3) by (metis list.set_map)
  then have "(\<forall>f \<in> set m'. sn_less (fst e) (fst f)) = (\<forall>f \<in> set n. sn_less (fst e) (fst f))"
    by (metis (no_types, lifting) imageE imageI)
  then show ?case using Cons.IH[of n] Cons.prems(2) m by (auto simp: sn_map_wf_Cons)
qed simp

definition cache_ok :: "int \<Rightarrow> data_cache \<Rightarrow> bool" where
  "cache_ok h cache \<longleftrightarrow> sn_map_wf h cache \<and> (\<forall>(k, c) \<in> set cache. cc_sn c = k)"

lemma cache_ok_new: "cache_ok h cache_new"
  by (simp add: cache_ok_def cache_new_def)

lemma add_change_fresh:
  assumes "cache_ok h cache" "cc_sn c \<in> sn_window h" "cc_sn c \<notin> fst ` set cache"
  shows "add_change c cache = Inr (om_insert sn_less (cc_sn c) c cache)"
    "cache_ok h (om_insert sn_less (cc_sn c) c cache)"
    "map_of (om_insert sn_less (cc_sn c) c cache) = (map_of cache)(cc_sn c \<mapsto> c)"
proof -
  have wf: "sn_key.om_wf h cache" using assms(1) by (simp add: cache_ok_def sn_map_wf_def)
  note wf' = sn_key.om_wf_insert[OF wf assms(2), of c]
  show map: "map_of (om_insert sn_less (cc_sn c) c cache) = (map_of cache)(cc_sn c \<mapsto> c)"
    using sn_key.map_of_insert[OF wf assms(2), of c] assms(3) by simp
  then have "cc_sn c \<in> fst ` set (om_insert sn_less (cc_sn c) c cache)"
    by (metis fun_upd_same map_of_eq_None_iff option.distinct(1))
  then show "add_change c cache = Inr (om_insert sn_less (cc_sn c) c cache)"
    using sn_key.om_member_iff[OF wf assms(2)] sn_key.om_member_iff[OF wf' assms(2)] assms(3)
    by (simp add: add_change_def Let_def)
  have "cc_sn c' = k" if "(k, c') \<in> set (om_insert sn_less (cc_sn c) c cache)" for k c'
  proof -
    have "map_of (om_insert sn_less (cc_sn c) c cache) k = Some c'"
      using that sn_key.om_wf_distinct[OF wf'] by simp
    then have "k = cc_sn c \<and> c' = c \<or> (k, c') \<in> set cache"
      unfolding map by (auto split: if_splits dest: map_of_SomeD)
    then show ?thesis using assms(1) by (auto simp: cache_ok_def)
  qed
  then show "cache_ok h (om_insert sn_less (cc_sn c) c cache)"
    using wf' by (auto simp: cache_ok_def sn_map_wf_def)
qed

lemma add_change_present:
  assumes "cache_ok h cache" "cc_sn c \<in> fst ` set cache"
  shows "add_change c cache = Inl AssertFailed"
proof -
  have wf: "sn_key.om_wf h cache" and k: "cc_sn c \<in> sn_window h"
    using assms sn_map_keys by (auto simp: cache_ok_def sn_map_wf_def)
  show ?thesis using sn_key.om_member_iff[OF wf k] assms(2) by (simp add: add_change_def)
qed

lemma get_change_map_of:
  "cache_ok h cache \<Longrightarrow> s \<in> sn_window h \<Longrightarrow> get_change s cache = map_of cache s"
  unfolding get_change_def cache_ok_def sn_map_wf_def by (rule sn_key.om_find_map_of) simp_all

lemma remove_change_sn_ok:
  assumes "cache_ok h cache" "s \<in> sn_window h"
  shows "remove_change_sn s cache =
           (s \<in> fst ` set cache, if s \<in> fst ` set cache then om_erase sn_less s cache else cache)"
    and "cache_ok h (snd (remove_change_sn s cache))"
    and "map_of (snd (remove_change_sn s cache)) = (map_of cache)(s := None)"
proof -
  have wf: "sn_key.om_wf h cache" using assms(1) by (simp add: cache_ok_def sn_map_wf_def)
  have find: "om_find sn_less s cache = map_of cache s" by (rule sn_key.om_find_map_of[OF wf assms(2)])
  show eq: "remove_change_sn s cache =
      (s \<in> fst ` set cache, if s \<in> fst ` set cache then om_erase sn_less s cache else cache)"
    using sn_key.om_member_iff[OF wf assms(2)] by (simp add: remove_change_sn_def find map_of_eq_None_iff)
  show "cache_ok h (snd (remove_change_sn s cache))"
    unfolding eq using assms(1) sn_key.om_wf_erase[OF wf, of s] sn_key.om_erase_subset[of s cache]
    by (auto simp: cache_ok_def sn_map_wf_def)
  show "map_of (snd (remove_change_sn s cache)) = (map_of cache)(s := None)"
    unfolding eq using sn_key.map_of_erase[OF wf assms(2)]
    by (auto simp: fun_upd_idem map_of_eq_None_iff)
qed

lemma sequence_number_min_least:
  assumes "cache_ok h cache" "cache \<noteq> []"
  shows "sequence_number_min cache \<in> fst ` set cache"
    and "k \<in> fst ` set cache \<Longrightarrow> sn_get (sequence_number_min cache) \<le> sn_get k"
proof -
  obtain e m where c: "cache = e # m" using assms(2) by (cases cache) auto
  then have min: "sequence_number_min cache = fst e" by (cases e) (simp add: sequence_number_min_def)
  then show "sequence_number_min cache \<in> fst ` set cache" by (simp add: c)
  assume k: "k \<in> fst ` set cache"
  have "fst e \<in> sn_window h" "k \<in> sn_window h"
    using assms(1) k sn_map_keys[of h cache] by (auto simp: c cache_ok_def)
  moreover have "k = fst e \<or> sn_less (fst e) k"
    using k assms(1) by (auto simp: c cache_ok_def sn_map_wf_Cons)
  ultimately show "sn_get (sequence_number_min cache) \<le> sn_get k"
    unfolding min using sn_window_less by fastforce
qed

section \<open>Properties\<close>

text \<open>C38: On a cache whose sequence numbers lie in one window of the order, \<open>AddChange\<close> is the map
  update at the change's number when that number is new, keeping the cache well-formed, and fails its
  assertion when it is present; \<open>GetChange\<close> is the map lookup.\<close>

theorem cache_refines_map:
  assumes "cache_ok h cache" "cc_sn c \<in> sn_window h"
  shows "get_change (cc_sn c) cache = map_of cache (cc_sn c)
    \<and> (if map_of cache (cc_sn c) = None
       then \<exists>cache'. add_change c cache = Inr cache' \<and> cache_ok h cache'
         \<and> map_of cache' = (map_of cache)(cc_sn c \<mapsto> c)
       else add_change c cache = Inl AssertFailed)"
  using get_change_map_of[OF assms] add_change_fresh[OF assms] add_change_present[OF assms(1)]
  by (auto simp: map_of_eq_None_iff)

theorem cache_refines_map_witness:
  "add_change (cc_new Alive guid_unknown (sn_of_value 3) None 0)
     [(sn_of_value 3, cc_new Alive guid_unknown (sn_of_value 3) None 0)] = Inl AssertFailed"
proof -
  have s: "sn_of_value 3 \<in> sn_window 0"
    by (simp add: sn_window_def sn_of_value_valid in_int64_def) (simp add: sn_of_value_def mk_sn_def)
  then have "cache_ok 0 [(sn_of_value 3, cc_new Alive guid_unknown (sn_of_value 3) None 0)]"
    by (simp add: cache_ok_def sn_map_wf_Cons cc_new_def)
  from cache_refines_map[OF this, of "cc_new Alive guid_unknown (sn_of_value 3) None 0"] s
  show ?thesis by (simp add: cc_new_def)
qed

text \<open>\<open>RemoveChange\<close> removes exactly the change of the given number and reports whether there was
  one; the cache stays well-formed.\<close>

theorem cache_remove:
  assumes "cache_ok h cache" "s \<in> sn_window h"
  shows "fst (remove_change_sn s cache) = (map_of cache s \<noteq> None)
    \<and> map_of (snd (remove_change_sn s cache)) = (map_of cache)(s := None)
    \<and> cache_ok h (snd (remove_change_sn s cache))"
  using remove_change_sn_ok[OF assms] by (auto simp: map_of_eq_None_iff)

theorem cache_remove_witness:
  "map_of (snd (remove_change_sn (sn_of_value 3)
     [(sn_of_value 3, cc_new Alive guid_unknown (sn_of_value 3) None 0)])) (sn_of_value 3) = None"
proof -
  have s: "sn_of_value 3 \<in> sn_window 0"
    by (simp add: sn_window_def sn_of_value_valid in_int64_def) (simp add: sn_of_value_def mk_sn_def)
  then have "cache_ok 0 [(sn_of_value 3, cc_new Alive guid_unknown (sn_of_value 3) None 0)]"
    by (simp add: cache_ok_def sn_map_wf_Cons cc_new_def)
  from cache_remove[OF this s] show ?thesis by simp
qed

text \<open>On a non-empty cache \<open>GetSequenceNumberMin\<close> is the least number present, while
  \<open>GetSequenceNumberMax\<close> reads the element behind the last one.\<close>

theorem cache_min_and_max:
  assumes "cache_ok h cache" "cache \<noteq> []"
  shows "sequence_number_min cache \<in> fst ` set cache
    \<and> (\<forall>k \<in> fst ` set cache. sn_get (sequence_number_min cache) \<le> sn_get k)
    \<and> sequence_number_max cache = Inl UndefinedBehaviour"
  using sequence_number_min_least[OF assms] assms(2)
  by (auto simp: sequence_number_max_def split: list.split)

theorem cache_min_and_max_witness:
  "sequence_number_max [(sn_of_value 3, cc_new Alive guid_unknown (sn_of_value 3) None 0)]
     = Inl UndefinedBehaviour"
proof -
  have "sn_of_value 3 \<in> sn_window 0"
    by (simp add: sn_window_def sn_of_value_valid in_int64_def) (simp add: sn_of_value_def mk_sn_def)
  then have "cache_ok 0 [(sn_of_value 3, cc_new Alive guid_unknown (sn_of_value 3) None 0)]"
    by (simp add: cache_ok_def sn_map_wf_Cons cc_new_def)
  from cache_min_and_max[OF this] show ?thesis by simp
qed

end
