(* ===== verification/Reader_Proxy.thy ===== *)
theory Reader_Proxy
  imports Data_Cache
begin

text \<open>
  \<open>RTPS/Stateful/ReaderProxy\<close>, \<open>ChangeForReader\<close> and the base \<open>RTPS/Structure/RtpsReaderProxyBase\<close>:
  what a stateful writer knows of one matched reader, a map from the sequence number of each change
  to its delivery status. The status objects are reached through pointers no two entries share, so
  the map holds them by value.
\<close>

datatype cfr_status = Unsent | Unacknowledged | Requested | Acknowledged | Underway

record change_for_reader =
  cfr_relevant :: bool
  cfr_status_of :: cfr_status

definition cfr_new :: "bool \<Rightarrow> cfr_status \<Rightarrow> change_for_reader" where
  "cfr_new rel st = \<lparr> cfr_relevant = rel, cfr_status_of = st \<rparr>"

type_synonym change_map = "(sequence_number, change_for_reader) omap"

text \<open>The guard condition of a proxy is its handler, its attachment to a wait set and its trigger.\<close>

record reader_proxy_base =
  rp_highest_sent :: sequence_number
  rp_lowest_requested :: sequence_number
  rp_requested_set :: sequence_number_set
  rp_has_handler :: bool
  rp_attached :: bool
  rp_trigger :: bool

definition rpb_new :: reader_proxy_base where
  "rpb_new = \<lparr> rp_highest_sent = sn_of_value 1, rp_lowest_requested = sn_of_value 1,
     rp_requested_set = sns_new, rp_has_handler = False, rp_attached = False, rp_trigger = False \<rparr>"

definition rpb_set_requested_changes_set ::
  "sequence_number_set \<Rightarrow> 'a reader_proxy_base_scheme \<Rightarrow> 'a reader_proxy_base_scheme" where
  "rpb_set_requested_changes_set s p =
     p\<lparr> rp_requested_set := s, rp_lowest_requested := sns_base s \<rparr>"

definition rpb_set_handler :: "'a reader_proxy_base_scheme \<Rightarrow> bool \<times> 'a reader_proxy_base_scheme" where
  "rpb_set_handler p = (if rp_has_handler p then (False, p) else (True, p\<lparr> rp_has_handler := True \<rparr>))"

record reader_proxy = reader_proxy_base +
  rp_guid :: guid
  rp_expects_inline_qos :: bool
  rp_active :: bool
  rp_unicast :: "locator list"
  rp_multicast :: "locator list"
  rp_changes :: change_map

text \<open>The constructor with a GUID leaves \<open>isActive_\<close> uninitialised: its value is the first argument.\<close>

definition rp_new :: "bool \<Rightarrow> guid \<Rightarrow> bool \<Rightarrow> reader_proxy" where
  "rp_new junk g qos = reader_proxy_base.extend rpb_new
     \<lparr> rp_guid = g, rp_expects_inline_qos = qos, rp_active = junk, rp_unicast = [], rp_multicast = [],
       rp_changes = [] \<rparr>"

definition rp_default :: "bool \<Rightarrow> reader_proxy" where
  "rp_default qos = rp_new False guid_unknown qos"

definition add_change_for_reader ::
  "sequence_number \<Rightarrow> change_for_reader \<Rightarrow> reader_proxy \<Rightarrow> (bool \<times> reader_proxy) res" where
  "add_change_for_reader s c p =
     (if om_member sn_less s (rp_changes p)
      then Inr (True, p\<lparr> rp_changes := om_assign sn_less s c (rp_changes p) \<rparr>)
      else
        let inserted = \<not> om_member sn_less s (rp_changes p)
        in asserting inserted
             (Inr (inserted, p\<lparr> rp_changes := om_insert sn_less s c (rp_changes p) \<rparr>)))"

definition is_acked_change :: "sequence_number \<Rightarrow> reader_proxy \<Rightarrow> bool" where
  "is_acked_change s p =
     (case om_find sn_less s (rp_changes p) of
        None \<Rightarrow> False
      | Some c \<Rightarrow> cfr_relevant c \<and> cfr_status_of c = Acknowledged)"

text \<open>\<open>SetStatus\<close> through the pointer an entry holds; the entry must exist.\<close>

fun set_status_at :: "sequence_number \<Rightarrow> cfr_status \<Rightarrow> change_map \<Rightarrow> change_map" where
  "set_status_at s st [] = []"
| "set_status_at s st ((k, c) # m) =
     (if sn_less k s then (k, c) # set_status_at s st m
      else if sn_less s k then (k, c) # m
      else (k, c\<lparr> cfr_status_of := st \<rparr>) # m)"

text \<open>One round of the loop of \<open>RequestedChangesSet\<close>, for \<open>i = base + pos\<close>.\<close>

definition request_position ::
  "sequence_number_set \<Rightarrow> int \<Rightarrow> change_map \<Rightarrow> change_map res" where
  "request_position req i m =
     (let base = sn_get (sns_base req); position = wrap32 (i - base) in
      rbind (test_bit_at_position (to_uint32 position) req) (\<lambda>is_set.
        if \<not> is_set then Inr m
        else
          let s = sn_of_value (wrap64 (base + 1 + i)) in
          if \<not> om_member sn_less s m then Inr m
          else Inr (set_status_at s Requested m)))"

definition requested_changes_set :: "sequence_number_set \<Rightarrow> reader_proxy \<Rightarrow> reader_proxy res" where
  "requested_changes_set req p =
     (let base = sns_base req; key = sn_of_value (sn_get base) in
      asserting (base \<noteq> sn_unknown)
       (asserting (om_member sn_less key (rp_changes p))
         (rbind (rfold (request_position req)
                  [sn_get base .. sn_get base + sns_num_bits req]
                  (set_status_at key Requested (rp_changes p)))
           (\<lambda>m. Inr (p\<lparr> rp_changes := m \<rparr>)))))"

fun ack_changes :: "sequence_number \<Rightarrow> change_map \<Rightarrow> change_map" where
  "ack_changes committed [] = []"
| "ack_changes committed ((k, c) # m) =
     (if sn_greater k committed then (k, c) # m
      else (k, c\<lparr> cfr_status_of := Acknowledged \<rparr>) # ack_changes committed m)"

definition acked_changes_set :: "sequence_number \<Rightarrow> reader_proxy \<Rightarrow> reader_proxy res" where
  "acked_changes_set committed p =
     asserting (committed \<noteq> sn_unknown) (Inr (p\<lparr> rp_changes := ack_changes committed (rp_changes p) \<rparr>))"

fun find_change :: "cfr_status \<Rightarrow> change_map \<Rightarrow> (sequence_number \<times> change_for_reader) option" where
  "find_change st [] = None"
| "find_change st ((k, c) # m) = (if cfr_status_of c = st then Some (k, c) else find_change st m)"

fun find_changes_loop :: "cfr_status \<Rightarrow> change_map \<Rightarrow> change_map \<Rightarrow> bool \<Rightarrow> bool \<times> change_map" where
  "find_changes_loop st [] acc found = (found, acc)"
| "find_changes_loop st ((k, c) # m) acc found =
     (if cfr_status_of c = st then find_changes_loop st m (om_insert sn_less k c acc) True
      else find_changes_loop st m acc found)"

definition find_changes :: "cfr_status \<Rightarrow> change_map \<Rightarrow> change_map \<Rightarrow> bool \<times> change_map" where
  "find_changes st m acc = find_changes_loop st m acc False"

fun has_change_state :: "cfr_status \<Rightarrow> change_map \<Rightarrow> bool" where
  "has_change_state st [] = False"
| "has_change_state st ((k, c) # m) = (if cfr_status_of c = st then True else has_change_state st m)"

definition next_requested_change :: "reader_proxy \<Rightarrow> (sequence_number \<times> change_for_reader) option" where
  "next_requested_change p = find_change Requested (rp_changes p)"

definition next_unsent_change :: "reader_proxy \<Rightarrow> (sequence_number \<times> change_for_reader) option" where
  "next_unsent_change p = find_change Unsent (rp_changes p)"

definition requested_changes :: "reader_proxy \<Rightarrow> change_map \<Rightarrow> bool \<times> change_map" where
  "requested_changes p acc = find_changes Requested (rp_changes p) acc"

definition unsent_changes :: "reader_proxy \<Rightarrow> change_map \<Rightarrow> bool \<times> change_map" where
  "unsent_changes p acc = find_changes Unsent (rp_changes p) acc"

definition unacked_changes :: "reader_proxy \<Rightarrow> change_map \<Rightarrow> bool \<times> change_map" where
  "unacked_changes p acc = find_changes Unacknowledged (rp_changes p) acc"

definition has_requested_changes :: "reader_proxy \<Rightarrow> bool" where
  "has_requested_changes p = has_change_state Requested (rp_changes p)"

definition has_unsent_changes :: "reader_proxy \<Rightarrow> bool" where
  "has_unsent_changes p = has_change_state Unsent (rp_changes p)"

definition has_unacked_changes :: "reader_proxy \<Rightarrow> bool" where
  "has_unacked_changes p = has_change_state Unacknowledged (rp_changes p)"

section \<open>Facts\<close>

lemma set_status_at_keys [simp]: "map fst (set_status_at s st m) = map fst m"
  by (induction s st m rule: set_status_at.induct) auto

lemma ack_changes_keys [simp]: "map fst (ack_changes c m) = map fst m"
  by (induction c m rule: ack_changes.induct) auto

lemma set_status_at_wf: "sn_map_wf h m \<Longrightarrow> sn_map_wf h (set_status_at s st m)"
  by (rule sn_map_wf_keys[OF set_status_at_keys])

lemma ack_changes_wf: "sn_map_wf h m \<Longrightarrow> sn_map_wf h (ack_changes c m)"
  by (rule sn_map_wf_keys[OF ack_changes_keys])

lemma request_position_keys: "request_position req i m = Inr m' \<Longrightarrow> map fst m' = map fst m"
  by (auto simp: request_position_def Let_def res_simps split: if_splits)

lemma requested_changes_set_keys:
  assumes "requested_changes_set req p = Inr p'"
  shows "map fst (rp_changes p') = map fst (rp_changes p)"
proof -
  obtain m where m: "rfold (request_position req)
      [sn_get (sns_base req) .. sn_get (sns_base req) + sns_num_bits req]
      (set_status_at (sn_of_value (sn_get (sns_base req))) Requested (rp_changes p)) = Inr m"
    and p': "p' = p\<lparr> rp_changes := m \<rparr>"
    using assms by (auto simp: requested_changes_set_def Let_def res_simps)
  have "map fst m = map fst (rp_changes p)"
    by (rule rfold_invariant[OF m, of "\<lambda>t. map fst t = map fst (rp_changes p)"])
      (simp_all add: request_position_keys)
  then show ?thesis by (simp add: p')
qed

lemma acked_changes_set_keys:
  "acked_changes_set c p = Inr p' \<Longrightarrow> map fst (rp_changes p') = map fst (rp_changes p)"
  by (auto simp: acked_changes_set_def res_simps)

lemma has_change_state_iff: "has_change_state st m \<longleftrightarrow> (\<exists>(k, c) \<in> set m. cfr_status_of c = st)"
  by (induction st m rule: has_change_state.induct) auto

lemma find_change_None: "find_change st m = None \<longleftrightarrow> \<not> has_change_state st m"
  by (induction st m rule: find_change.induct) auto

lemma find_change_split:
  "find_change st m = Some (k, c) \<Longrightarrow>
   \<exists>pre post. m = pre @ (k, c) # post \<and> cfr_status_of c = st \<and> (\<forall>(k', c') \<in> set pre. cfr_status_of c' \<noteq> st)"
proof (induction st m rule: find_change.induct)
  case (2 st k1 c1 m)
  show ?case
  proof (cases "cfr_status_of c1 = st")
    case True
    then have "(k1, c1) # m = [] @ (k, c) # m \<and> cfr_status_of c = st" using 2 by simp
    then show ?thesis by (metis (no_types, lifting) empty_iff list.set(1))
  next
    case False
    then obtain pre post where "m = pre @ (k, c) # post" "cfr_status_of c = st"
      "\<forall>(k', c') \<in> set pre. cfr_status_of c' \<noteq> st" using 2 by auto
    then have "(k1, c1) # m = ((k1, c1) # pre) @ (k, c) # post \<and> cfr_status_of c = st \<and>
        (\<forall>(k', c') \<in> set ((k1, c1) # pre). cfr_status_of c' \<noteq> st)" using False by simp
    then show ?thesis by blast
  qed
qed simp

lemma sn_map_wf_append:
  "sn_map_wf h (xs @ ys) \<longleftrightarrow> sn_map_wf h xs \<and> sn_map_wf h ys \<and>
     (\<forall>e \<in> set xs. \<forall>f \<in> set ys. sn_less (fst e) (fst f))"
  by (induction xs) (auto simp: sn_map_wf_Cons)

lemma find_change_least:
  assumes "sn_map_wf h m" "find_change st m = Some (k, c)" "(k', c') \<in> set m" "cfr_status_of c' = st"
  shows "sn_get k \<le> sn_get k'"
proof -
  obtain pre post where m: "m = pre @ (k, c) # post" "\<forall>(k', c') \<in> set pre. cfr_status_of c' \<noteq> st"
    using find_change_split[OF assms(2)] by blast
  have "(k', c') = (k, c) \<or> (k', c') \<in> set post" using m assms(3,4) by auto
  then have "k' = k \<or> sn_less k k'"
    using assms(1) unfolding m by (auto simp: sn_map_wf_append sn_map_wf_Cons)
  moreover have "k \<in> sn_window h" "k' \<in> sn_window h"
    using sn_map_keys[OF assms(1)] assms(3) m(1) by auto
  ultimately show ?thesis using sn_window_less by fastforce
qed

section \<open>What the updates do to the statuses\<close>

lemma ack_changes_map_of:
  assumes "sn_map_wf h m" "committed \<in> sn_window h"
  shows "map_of (ack_changes committed m) k =
     map_option (\<lambda>c. if sn_get k \<le> sn_get committed then c\<lparr> cfr_status_of := Acknowledged \<rparr> else c)
       (map_of m k)"
  using assms
proof (induction m)
  case (Cons e m)
  obtain k1 c1 where e: "e = (k1, c1)" by force
  have k1: "k1 \<in> sn_window h" and m: "sn_map_wf h m" using Cons.prems(1) by (auto simp: e sn_map_wf_Cons)
  note cmp = sn_window_less[OF Cons.prems(2) k1]
  show ?case
  proof (cases "sn_greater k1 committed")
    case True
    then have above: "sn_get committed < sn_get k1" using cmp by (simp add: sn_greater_def)
    have "sn_get committed < sn_get k" if "map_of m k = Some c" for c
    proof -
      have "(k, c) \<in> set m" using that by (rule map_of_SomeD)
      then have "sn_less k1 k" "k \<in> sn_window h"
        using Cons.prems(1) sn_map_keys[OF m] by (auto simp: e sn_map_wf_Cons)
      then show ?thesis using sn_window_less[OF k1] above by force
    qed
    then show ?thesis using True above by (cases "map_of m k") (auto simp: e)
  next
    case False
    then have "sn_get k1 \<le> sn_get committed" using cmp sn_less_irrefl by (auto simp: sn_greater_def)
    then show ?thesis using False Cons.IH[OF m Cons.prems(2)] by (auto simp: e)
  qed
qed simp

lemma set_status_at_map_of:
  assumes "sn_map_wf h m" "s \<in> sn_window h"
  shows "map_of (set_status_at s st m) k =
     (if k = s then map_option (\<lambda>c. c\<lparr> cfr_status_of := st \<rparr>) (map_of m s) else map_of m k)"
  using assms
proof (induction m)
  case (Cons e m)
  obtain k1 c1 where e: "e = (k1, c1)" by force
  have k1: "k1 \<in> sn_window h" and m: "sn_map_wf h m" using Cons.prems(1) by (auto simp: e sn_map_wf_Cons)
  have wf: "sn_key.om_wf h ((k1, c1) # m)" using Cons.prems(1) by (simp add: e sn_map_wf_def)
  show ?case using k1 Cons.prems(2)
    by (cases rule: sn_key.lt_cases)
      (use Cons.IH[OF m Cons.prems(2)] sn_key.om_wf_map_of_None[OF wf, of s] in \<open>auto simp: e\<close>)
qed simp

lemma sn_of_value_low_window:
  "1 \<le> v \<Longrightarrow> v < 4611686018427387904 \<Longrightarrow> sn_of_value v \<in> sn_window 0"
  by (auto simp: sn_window_def sn_of_value_valid in_int64_def) (auto simp: sn_of_value_def mk_sn_def)

lemma sn_eq_of_value_iff:
  assumes "sn_valid k" "1 \<le> v" "v < 9223372036854775808"
  shows "k = sn_of_value v \<longleftrightarrow> sn_get k = v"
  using assms sn_get_of_value sn_of_value_get by metis

text \<open>
  The sequence number the loop of \<open>RequestedChangesSet\<close> derives from position \<open>p\<close> of the bitmap is
  \<open>2 * base + 1 + p\<close>: the base is added twice.
\<close>

definition requested_by :: "sequence_number_set \<Rightarrow> int list \<Rightarrow> sequence_number \<Rightarrow> bool" where
  "requested_by req is k \<longleftrightarrow>
     (\<exists>i \<in> set is. sns_bit req (i - sn_get (sns_base req)) \<and> sn_get k = sn_get (sns_base req) + 1 + i)"

lemma request_position_map_of:
  assumes "sn_map_wf 0 m" "sns_ok req" "sn_valid (sns_base req)" "sn_get (sns_base req) < 2305843009213693696"
    and "sn_get (sns_base req) \<le> i" "i \<le> sn_get (sns_base req) + 255"
  obtains m' where "request_position req i m = Inr m'" "sn_map_wf 0 m'"
    "\<And>k. map_of m' k = map_option (\<lambda>c. if requested_by req [i] k then c\<lparr> cfr_status_of := Requested \<rparr> else c)
       (map_of m k)"
proof -
  let ?b = "sn_get (sns_base req)"
  let ?s = "sn_of_value (?b + 1 + i)"
  have b: "1 \<le> ?b" using sn_valid_get_range[OF assms(3)] by simp
  have pos: "to_uint32 (wrap32 (i - ?b)) = i - ?b"
    using assms(5,6) by (subst wrap32_id) (auto simp: in_int32_def)
  have test: "test_bit_at_position (i - ?b) req = Inr (sns_bit req (i - ?b))"
    using assms(2,5) by (intro test_bit_at_position_ok) simp_all
  have s64: "wrap64 (?b + 1 + i) = ?b + 1 + i"
    using assms(4,5,6) b by (intro wrap64_id) (simp add: in_int64_def)
  have win: "?s \<in> sn_window 0" using assms(4,5,6) b by (intro sn_of_value_low_window) auto
  define hit where "hit = (sns_bit req (i - ?b) \<and> om_member sn_less ?s m)"
  have run: "request_position req i m = Inr (if hit then set_status_at ?s Requested m else m)"
    by (simp add: request_position_def Let_def pos test s64 hit_def)
  have keys: "k \<in> sn_window 0" if "map_of m k = Some c" for k c
    using sn_map_keys[OF assms(1)] map_of_SomeD[OF that] by force
  have s_eq: "k = ?s \<longleftrightarrow> sn_get k = ?b + 1 + i" if "map_of m k = Some c" for k c
    using sn_eq_of_value_iff[of k "?b + 1 + i"] sn_window_valid[OF keys[OF that]] assms(4,5,6) b by auto
  have member: "om_member sn_less ?s m \<longleftrightarrow> map_of m ?s \<noteq> None"
    using sn_key.om_member_iff[OF _ win, of m] assms(1)
    by (auto simp: sn_map_wf_def map_of_eq_None_iff)
  have "map_of (if hit then set_status_at ?s Requested m else m) k =
      map_option (\<lambda>c. if requested_by req [i] k then c\<lparr> cfr_status_of := Requested \<rparr> else c) (map_of m k)" for k
  proof (cases "map_of m k")
    case None
    then show ?thesis using set_status_at_map_of[OF assms(1) win, of Requested k] by auto
  next
    case (Some c)
    then show ?thesis
      using set_status_at_map_of[OF assms(1) win, of Requested k] s_eq[OF Some] member
      by (auto simp: hit_def requested_by_def)
  qed
  then show thesis using that[OF run] set_status_at_wf[OF assms(1)] assms(1) by simp
qed

lemma requested_by_Cons: "requested_by req (i # is) k \<longleftrightarrow> requested_by req [i] k \<or> requested_by req is k"
  by (auto simp: requested_by_def)

lemma request_loop_map_of:
  assumes "sns_ok req" "sn_valid (sns_base req)" "sn_get (sns_base req) < 2305843009213693696"
    and "\<forall>i \<in> set is. sn_get (sns_base req) \<le> i \<and> i \<le> sn_get (sns_base req) + 255" "sn_map_wf 0 m"
  shows "\<exists>m'. rfold (request_position req) is m = Inr m' \<and> sn_map_wf 0 m' \<and>
    (\<forall>k. map_of m' k = map_option (\<lambda>c. if requested_by req is k then c\<lparr> cfr_status_of := Requested \<rparr> else c)
       (map_of m k))"
  using assms(4,5)
proof (induction "is" arbitrary: m)
  case Nil
  then show ?case by (auto simp: requested_by_def option.map_ident)
next
  case (Cons i "is")
  obtain m1 where m1: "request_position req i m = Inr m1" "sn_map_wf 0 m1"
    "\<And>k. map_of m1 k = map_option (\<lambda>c. if requested_by req [i] k then c\<lparr> cfr_status_of := Requested \<rparr> else c)
       (map_of m k)"
    using request_position_map_of[OF Cons.prems(2) assms(1-3), of i] Cons.prems(1) by auto
  obtain m2 where m2: "rfold (request_position req) is m1 = Inr m2" "sn_map_wf 0 m2"
    "\<And>k. map_of m2 k = map_option (\<lambda>c. if requested_by req is k then c\<lparr> cfr_status_of := Requested \<rparr> else c)
       (map_of m1 k)"
    using Cons.IH[of m1] Cons.prems(1) m1(2) by auto
  have "map_of m2 k = map_option
      (\<lambda>c. if requested_by req (i # is) k then c\<lparr> cfr_status_of := Requested \<rparr> else c) (map_of m k)" for k
    by (cases "map_of m k") (auto simp: m2(3) m1(3) requested_by_Cons[of req i "is"])
  then show ?case using m1(1) m2(1,2) by auto
qed

lemma requested_changes_set_absent:
  assumes "sn_map_wf 0 (rp_changes p)" "sns_base req \<in> sn_window 0"
    "sns_base req \<notin> fst ` set (rp_changes p)"
  shows "requested_changes_set req p = Inl AssertFailed"
proof -
  have key: "sn_of_value (sn_get (sns_base req)) = sns_base req"
    using assms(2) sn_of_value_get sn_window_valid by blast
  have "\<not> om_member sn_less (sns_base req) (rp_changes p)"
    using sn_key.om_member_iff[OF _ assms(2), of "rp_changes p"] assms(1,3) by (simp add: sn_map_wf_def)
  then show ?thesis by (simp add: requested_changes_set_def key Let_def asserting_def)
qed

definition requests :: "sequence_number_set \<Rightarrow> sequence_number \<Rightarrow> bool" where
  "requests req k \<longleftrightarrow> k = sns_base req \<or>
     (\<exists>q. sns_bit req q \<and> sn_get k = 2 * sn_get (sns_base req) + 1 + q)"

lemma requested_changes_set_present:
  assumes wf: "sn_map_wf 0 (rp_changes p)" and ok: "sns_ok req"
    and here: "sns_base req \<in> fst ` set (rp_changes p)"
    and small: "sn_get (sns_base req) < 2305843009213693696"
  shows "\<exists>m. requested_changes_set req p = Inr (p\<lparr> rp_changes := m \<rparr>) \<and> sn_map_wf 0 m \<and>
    (\<forall>k. map_of m k = map_option (\<lambda>c. if requests req k then c\<lparr> cfr_status_of := Requested \<rparr> else c)
       (map_of (rp_changes p) k))"
proof -
  let ?base = "sns_base req" let ?b = "sn_get ?base"
  let ?is = "[?b .. ?b + sns_num_bits req]"
  have win: "?base \<in> sn_window 0" using sn_map_keys[OF wf] here by auto
  then have valid: "sn_valid ?base" by (rule sn_window_valid)
  have key: "sn_of_value ?b = ?base" by (rule sn_of_value_get[OF valid])
  have known: "?base \<noteq> sn_unknown"
    using valid by (auto simp: sn_unknown_def mk_sn_def sn_valid_def)
  have member: "om_member sn_less ?base (rp_changes p)"
    using sn_key.om_member_iff[OF _ win, of "rp_changes p"] wf here by (simp add: sn_map_wf_def)
  have range: "\<forall>i \<in> set ?is. ?b \<le> i \<and> i \<le> ?b + 255" using ok by (auto simp: sns_ok_def)
  have requests_iff: "requests req k \<longleftrightarrow> k = ?base \<or> requested_by req ?is k" for k
  proof -
    have "(\<exists>q. sns_bit req q \<and> sn_get k = 2 * ?b + 1 + q) \<longleftrightarrow> requested_by req ?is k" (is "?L \<longleftrightarrow> ?R")
    proof
      assume ?L
      then obtain q where q: "sns_bit req q" "sn_get k = 2 * ?b + 1 + q" by blast
      then have "0 \<le> q" "q \<le> sns_num_bits req" using ok by (auto simp: sns_ok_def sns_bit_def)
      then have "?b + q \<in> set ?is" by simp
      then show ?R using q unfolding requested_by_def by (intro bexI[of _ "?b + q"]) auto
    next
      assume ?R
      then obtain i where "sns_bit req (i - ?b)" "sn_get k = ?b + 1 + i" by (auto simp: requested_by_def)
      then show ?L by (intro exI[of _ "i - ?b"]) auto
    qed
    then show ?thesis by (simp add: requests_def)
  qed
  let ?m0 = "set_status_at ?base Requested (rp_changes p)"
  obtain m where m: "rfold (request_position req) ?is ?m0 = Inr m" "sn_map_wf 0 m"
    "\<And>k. map_of m k = map_option (\<lambda>c. if requested_by req ?is k then c\<lparr> cfr_status_of := Requested \<rparr> else c)
       (map_of ?m0 k)"
    using request_loop_map_of[OF ok valid small range set_status_at_wf[OF wf]] by blast
  have "map_of m k = map_option (\<lambda>c. if requests req k then c\<lparr> cfr_status_of := Requested \<rparr> else c)
       (map_of (rp_changes p) k)" for k
    unfolding m(3) set_status_at_map_of[OF wf win] requests_iff
    by (cases "map_of (rp_changes p) k") auto
  moreover have "requested_changes_set req p = Inr (p\<lparr> rp_changes := m \<rparr>)"
    using known member m(1) by (simp add: requested_changes_set_def key Let_def)
  ultimately show ?thesis using m(2) by blast
qed

section \<open>Adding a change, and reading the changes of one status\<close>

lemma add_change_for_reader_ok:
  assumes "sn_map_wf h (rp_changes p)" "s \<in> sn_window h"
  shows "\<exists>m. add_change_for_reader s c p = Inr (True, p\<lparr> rp_changes := m \<rparr>) \<and> sn_map_wf h m
    \<and> map_of m = (map_of (rp_changes p))(s \<mapsto> c)"
proof -
  have wf: "sn_key.om_wf h (rp_changes p)" using assms(1) by (simp add: sn_map_wf_def)
  show ?thesis
  proof (cases "om_member sn_less s (rp_changes p)")
    case True
    then show ?thesis
      using sn_key.map_of_assign[OF wf assms(2), of c] sn_key.om_wf_assign[OF wf assms(2), of c]
      by (auto simp: add_change_for_reader_def sn_map_wf_def)
  next
    case False
    then have "s \<notin> fst ` set (rp_changes p)" using sn_key.om_member_iff[OF wf assms(2)] by simp
    then show ?thesis
      using False sn_key.map_of_insert[OF wf assms(2), of c] sn_key.om_wf_insert[OF wf assms(2), of c]
      by (auto simp: add_change_for_reader_def sn_map_wf_def)
  qed
qed

lemma find_changes_loop_ok:
  assumes "sn_map_wf h (acc @ m)"
  shows "find_changes_loop st m acc found =
     (found \<or> has_change_state st m, acc @ filter (\<lambda>(k, c). cfr_status_of c = st) m)"
  using assms
proof (induction m arbitrary: acc found)
  case (Cons e m)
  obtain k c where e: "e = (k, c)" by force
  have append: "om_insert sn_less k c acc = acc @ [(k, c)]"
    using Cons.prems unfolding e
    by (induction acc) (auto simp: sn_map_wf_Cons sn_map_wf_append dest: sn_less_asym)
  have "sn_map_wf h ((acc @ [(k, c)]) @ m)" "sn_map_wf h (acc @ m)"
    using Cons.prems by (auto simp: e sn_map_wf_append sn_map_wf_Cons)
  then show ?case using Cons.IH by (simp add: e append)
qed simp

lemma find_changes_ok:
  "sn_map_wf h m \<Longrightarrow>
   find_changes st m [] = (has_change_state st m, filter (\<lambda>(k, c). cfr_status_of c = st) m)"
  by (simp add: find_changes_def find_changes_loop_ok[where h = h])

section \<open>Properties\<close>

text \<open>\<open>RequestedChangesSet\<close> aborts when the base of the set is not a known change. Otherwise it
  marks exactly these known changes as requested: the base, and for every position \<open>q\<close> set in the
  bitmap the change numbered \<open>2 * base + 1 + q\<close> (\<open>requests\<close>), since the base is added twice.\<close>

theorem requested_changes_set_effect:
  assumes "sn_map_wf 0 (rp_changes p)" "sns_ok req" "sns_base req \<in> sn_window 0"
    "sn_get (sns_base req) < 2305843009213693696"
  shows "if sns_base req \<in> fst ` set (rp_changes p)
    then \<exists>m. requested_changes_set req p = Inr (p\<lparr> rp_changes := m \<rparr>)
      \<and> (\<forall>k. map_of m k = map_option
            (\<lambda>c. if requests req k then c\<lparr> cfr_status_of := Requested \<rparr> else c) (map_of (rp_changes p) k))
    else requested_changes_set req p = Inl AssertFailed"
  using requested_changes_set_present[OF assms(1,2) _ assms(4)]
    requested_changes_set_absent[OF assms(1,3)]
  by auto

theorem requested_changes_set_effect_witness:
  "requested_changes_set sns_new (rp_new False guid_unknown False) = Inl AssertFailed"
proof -
  have "sns_base sns_new \<in> sn_window 0" "sn_get (sns_base sns_new) < 2305843009213693696"
    using sn_of_value_low_window[of 1] sn_get_of_value[of 1] by (simp_all add: sns_new_def)
  moreover have "rp_changes (rp_new False guid_unknown False) = []"
    by (simp add: rp_new_def reader_proxy_base.defs rpb_new_def)
  ultimately show ?thesis
    using requested_changes_set_effect[of "rp_new False guid_unknown False" sns_new] sns_ok_new
    by (simp add: sn_map_wf_def)
qed

text \<open>\<open>AckedChangesSet\<close> acknowledges every known change up to the committed number and leaves the
  others as they were, so that afterwards \<open>IsAckedChange\<close> holds for exactly the relevant changes
  committed now or acknowledged before.\<close>

theorem acked_changes_set_effect:
  assumes "sn_map_wf h (rp_changes p)" "committed \<in> sn_window h"
  shows "\<exists>m. acked_changes_set committed p = Inr (p\<lparr> rp_changes := m \<rparr>)
    \<and> (\<forall>k. map_of m k = map_option (\<lambda>c. if sn_get k \<le> sn_get committed
           then c\<lparr> cfr_status_of := Acknowledged \<rparr> else c) (map_of (rp_changes p) k))
    \<and> (\<forall>k \<in> sn_window h. is_acked_change k (p\<lparr> rp_changes := m \<rparr>) \<longleftrightarrow>
           (case map_of (rp_changes p) k of None \<Rightarrow> False
            | Some c \<Rightarrow> cfr_relevant c
                \<and> (sn_get k \<le> sn_get committed \<or> cfr_status_of c = Acknowledged)))"
proof -
  let ?m = "ack_changes committed (rp_changes p)"
  have known: "committed \<noteq> sn_unknown"
    using sn_window_valid[OF assms(2)] by (auto simp: sn_unknown_def mk_sn_def sn_valid_def)
  have wf: "sn_key.om_wf h ?m" using ack_changes_wf[OF assms(1)] by (simp add: sn_map_wf_def)
  have "is_acked_change k (p\<lparr> rp_changes := ?m \<rparr>) \<longleftrightarrow>
      (case map_of (rp_changes p) k of None \<Rightarrow> False
       | Some c \<Rightarrow> cfr_relevant c \<and> (sn_get k \<le> sn_get committed \<or> cfr_status_of c = Acknowledged))"
    if "k \<in> sn_window h" for k
    using sn_key.om_find_map_of[OF wf that] ack_changes_map_of[OF assms, of k]
    by (auto simp: is_acked_change_def split: option.split)
  then show ?thesis using known ack_changes_map_of[OF assms] by (auto simp: acked_changes_set_def)
qed

theorem acked_changes_set_effect_witness:
  "\<exists>m. acked_changes_set (sn_of_value 2)
     (rp_new False guid_unknown False\<lparr> rp_changes := [(sn_of_value 1, cfr_new True Underway)] \<rparr>)
     = Inr (rp_new False guid_unknown False\<lparr> rp_changes := m \<rparr>)
   \<and> is_acked_change (sn_of_value 1) (rp_new False guid_unknown False\<lparr> rp_changes := m \<rparr>)"
proof -
  let ?p = "rp_new False guid_unknown False\<lparr> rp_changes := [(sn_of_value 1, cfr_new True Underway)] \<rparr>"
  have w: "sn_of_value 1 \<in> sn_window 0" "sn_of_value 2 \<in> sn_window 0"
    by (simp_all add: sn_of_value_low_window)
  then have "sn_map_wf 0 (rp_changes ?p)" by (simp add: sn_map_wf_Cons)
  moreover have "sn_get (sn_of_value 1) \<le> sn_get (sn_of_value 2)" by (simp add: sn_get_of_value)
  ultimately show ?thesis
    using acked_changes_set_effect[of 0 ?p "sn_of_value 2"] w by (auto simp: cfr_new_def)
qed

text \<open>\<open>NextRequestedChange\<close> returns the requested change with the least sequence number, and
  nothing exactly when \<open>HasRequestedChanges\<close> is false; \<open>RequestedChanges\<close> collects exactly the
  requested changes, in order.\<close>

theorem next_requested_is_least:
  assumes "sn_map_wf h (rp_changes p)"
  shows "(next_requested_change p = None \<longleftrightarrow> \<not> has_requested_changes p)
    \<and> (\<forall>k c. next_requested_change p = Some (k, c) \<longrightarrow> map_of (rp_changes p) k = Some c
        \<and> cfr_status_of c = Requested
        \<and> (\<forall>(k', c') \<in> set (rp_changes p). cfr_status_of c' = Requested \<longrightarrow> sn_get k \<le> sn_get k'))
    \<and> requested_changes p [] = (has_requested_changes p,
        filter (\<lambda>(k, c). cfr_status_of c = Requested) (rp_changes p))"
proof -
  have "map_of (rp_changes p) k = Some c \<and> cfr_status_of c = Requested"
    if found: "find_change Requested (rp_changes p) = Some (k, c)" for k c
  proof -
    obtain pre post where "rp_changes p = pre @ (k, c) # post" "cfr_status_of c = Requested"
      using find_change_split[OF found] by blast
    then have "(k, c) \<in> set (rp_changes p)" "cfr_status_of c = Requested" by auto
    then show ?thesis using assms unfolding sn_map_wf_def by (simp add: sn_key.om_wf_distinct)
  qed
  then show ?thesis
    using find_change_least[OF assms]
    by (auto simp: next_requested_change_def has_requested_changes_def find_change_None
        requested_changes_def find_changes_ok[OF assms])
qed

theorem next_requested_is_least_witness:
  "next_requested_change (rp_new False guid_unknown False) = None"
proof -
  have "rp_changes (rp_new False guid_unknown False) = []"
    by (simp add: rp_new_def reader_proxy_base.defs rpb_new_def)
  then show ?thesis
    using next_requested_is_least[of 0 "rp_new False guid_unknown False"]
    by (simp add: sn_map_wf_def has_requested_changes_def)
qed

end
