(* ===== verification/Info_Submessages.thy ===== *)
theory Info_Submessages
  imports Submessages
begin

text \<open>
  The interpreter submessages of \<open>RTPS/Submessages\<close>, which change the state of the receiver
  (\<open>RtpsInfoDestination\<close>, \<open>RtpsInfoSource\<close>, \<open>RtpsInfoReply\<close>, \<open>RtpsInfoTimestamp\<close>, \<open>RtpsPad\<close>), and
  the two fragment acknowledgements \<open>RtpsHeartbeatFrag\<close> and \<open>RtpsNackFrag\<close>.
\<close>

section \<open>RtpsInfoDestination\<close>

record rtps_info_destination = submessage_base +
  id_prefix :: guid_prefix

definition id_of_base :: "submessage_base \<Rightarrow> rtps_info_destination" where
  "id_of_base b = submessage_base.extend b \<lparr> id_prefix = gp_unknown \<rparr>"

definition id_of_header :: "submessage_header \<Rightarrow> rtps_info_destination res" where
  "id_of_header h = asserting (sh_kind h = InfoDst) (Inr (id_of_base (sb_of_header h)))"

definition id_new :: rtps_info_destination where
  "id_new = id_of_base (sb_of_kind InfoDst)"

definition write_id :: "rtps_info_destination \<Rightarrow> writer" where
  "write_id m = write_gp (id_prefix m)"

definition read_id :: "rtps_info_destination \<Rightarrow> rtps_info_destination reader" where
  "read_id old = rthen (read_gp (id_prefix old)) (\<lambda>g. rret (old\<lparr> id_prefix := g \<rparr>))"

definition id_SIZE :: int where
  "id_SIZE = 12"

definition id_ok :: "submessage_base \<Rightarrow> rtps_info_destination \<Rightarrow> bool" where
  "id_ok base m \<longleftrightarrow> submessage_base.truncate m = base \<and> gp_ok (id_prefix m)"

interpretation id_codec:
  wire_codec "id_ok base" "\<lambda>m. gp_octets (id_prefix m)" write_id "read_id (id_of_base base)" for base
proof
  fix m assume m: "id_ok base m"
  then show "emits (write_id m) (gp_octets (id_prefix m))"
    unfolding write_id_def id_ok_def by (intro gp_codec.wr_emits) simp
  show "consumes (read_id (id_of_base base)) (gp_octets (id_prefix m)) m"
    using m unfolding read_id_def id_ok_def
    by (auto simp: id_of_base_def submessage_base.defs intro!: consumes_rthen_ret[OF gp_codec.rd_consumes])
  show "gp_octets (id_prefix m) \<noteq> []" using m by (auto simp: id_ok_def gp_ok_def)
qed

section \<open>RtpsInfoSource\<close>

text \<open>
  The class inherits \<open>sourceGuidPrefix_\<close> from its base and has a \<open>guidPrefix_\<close> of its own; only the
  latter travels.
\<close>

record rtps_info_source = submessage_base +
  is_unused :: int
  is_version :: protocol_version
  is_vendor :: vendor_id
  is_prefix :: guid_prefix

definition is_of_base :: "submessage_base \<Rightarrow> rtps_info_source" where
  "is_of_base b = submessage_base.extend b
     \<lparr> is_unused = 0, is_version = pv_default, is_vendor = vi_unknown, is_prefix = gp_unknown \<rparr>"

definition is_of_header :: "submessage_header \<Rightarrow> rtps_info_source res" where
  "is_of_header h = asserting (sh_kind h = InfoSrc) (Inr (is_of_base (sb_of_header h)))"

definition is_new :: rtps_info_source where
  "is_new = is_of_base (sb_of_kind InfoSrc)"

definition write_is :: "rtps_info_source \<Rightarrow> writer" where
  "write_is m =
     wseq (put_int32 (is_unused m)) (wseq (write_pv (is_version m))
       (wseq (write_vi (is_vendor m)) (write_gp (is_prefix m))))"

definition read_is :: "rtps_info_source \<Rightarrow> rtps_info_source reader" where
  "read_is old =
     rthen get_int32 (\<lambda>u. rthen read_pv (\<lambda>ver. rthen (read_vi (is_vendor old)) (\<lambda>v.
       rthen (read_gp (is_prefix old)) (\<lambda>g.
         rret (old\<lparr> is_unused := u, is_version := ver, is_vendor := v, is_prefix := g \<rparr>)))))"

definition is_SIZE :: int where
  "is_SIZE = 4 + 2 + 2 + 12"

definition is_ok :: "submessage_base \<Rightarrow> rtps_info_source \<Rightarrow> bool" where
  "is_ok base m \<longleftrightarrow> submessage_base.truncate m = base \<and> in_int32 (is_unused m)
     \<and> vi_ok (is_vendor m) \<and> gp_ok (is_prefix m)"

definition is_enc :: "rtps_info_source \<Rightarrow> u8 list" where
  "is_enc m = le_bytes 4 (is_unused m) @ ([pv_major (is_version m)] @ [pv_minor (is_version m)])
     @ vi_octets (is_vendor m) @ gp_octets (is_prefix m)"

interpretation is_codec: wire_codec "is_ok base" is_enc write_is "read_is (is_of_base base)" for base
proof
  fix m assume m: "is_ok base m"
  then show "emits (write_is m) (is_enc m)"
    unfolding write_is_def is_enc_def is_ok_def
    by (intro emits_wseq emits_put_ints pv_codec.wr_emits vi_codec.wr_emits gp_codec.wr_emits) auto
  show "consumes (read_is (is_of_base base)) (is_enc m) m"
    using m unfolding read_is_def is_enc_def is_ok_def
    by (auto simp: is_of_base_def submessage_base.defs simp del: append_Cons append_Nil append_assoc
        intro!: consumes_rthen[OF consumes_ints(3)] consumes_rthen[OF pv_codec.rd_consumes]
          consumes_rthen[OF vi_codec.rd_consumes] consumes_rthen_ret[OF gp_codec.rd_consumes])
qed (simp add: is_enc_def)

section \<open>RtpsInfoReply\<close>

record rtps_info_reply = submessage_base +
  ir_unicast :: "locator list"
  ir_multicast :: "locator list"

definition ir_of_base :: "submessage_base \<Rightarrow> rtps_info_reply" where
  "ir_of_base b = submessage_base.extend b \<lparr> ir_unicast = [], ir_multicast = [] \<rparr>"

definition ir_of_header :: "submessage_header \<Rightarrow> rtps_info_reply res" where
  "ir_of_header h = asserting (sh_kind h = InfoReply) (Inr (ir_of_base (sb_of_header h)))"

definition ir_new :: rtps_info_reply where
  "ir_new = ir_of_base (sb_of_kind InfoReply)"

definition ir_of_locator :: "locator \<Rightarrow> rtps_info_reply" where
  "ir_of_locator l = ir_new\<lparr> ir_unicast := [l] \<rparr>"

definition write_ir :: "rtps_info_reply \<Rightarrow> writer" where
  "write_ir m = wseq (write_locator_list (ir_unicast m)) (write_locator_list (ir_multicast m))"

definition read_ir :: "rtps_info_reply \<Rightarrow> rtps_info_reply reader" where
  "read_ir old =
     rthen (read_locator_list (ir_unicast old)) (\<lambda>u. rthen (read_locator_list (ir_multicast old)) (\<lambda>m.
       rret (old\<lparr> ir_unicast := u, ir_multicast := m \<rparr>)))"

definition ir_size :: "rtps_info_reply \<Rightarrow> int" where
  "ir_size m = to_uint32 (locator_list_size (ir_unicast m) + locator_list_size (ir_multicast m))"

definition ir_has_multicast_flag :: "rtps_info_reply \<Rightarrow> bool" where
  "ir_has_multicast_flag m = has_flag 0x02 m"

definition ir_set_multicast_flag :: "bool \<Rightarrow> rtps_info_reply \<Rightarrow> rtps_info_reply res" where
  "ir_set_multicast_flag b m = set_flag 0x02 b m"

definition ir_ok :: "submessage_base \<Rightarrow> rtps_info_reply \<Rightarrow> bool" where
  "ir_ok base m \<longleftrightarrow> submessage_base.truncate m = base \<and> loc_list_ok (ir_unicast m) \<and> loc_list_ok (ir_multicast m)"

interpretation ir_codec: wire_codec "ir_ok base"
  "\<lambda>m. loc_list_enc (ir_unicast m) @ loc_list_enc (ir_multicast m)" write_ir "read_ir (ir_of_base base)" for base
proof
  fix m assume m: "ir_ok base m"
  then show "emits (write_ir m) (loc_list_enc (ir_unicast m) @ loc_list_enc (ir_multicast m))"
    unfolding write_ir_def ir_ok_def by (intro emits_wseq loc_list_codec.wr_emits) auto
  show "consumes (read_ir (ir_of_base base)) (loc_list_enc (ir_unicast m) @ loc_list_enc (ir_multicast m)) m"
    using m unfolding read_ir_def ir_ok_def
    by (auto simp: ir_of_base_def submessage_base.defs
        intro!: consumes_rthen[OF loc_list_codec.rd_consumes] consumes_rthen_ret[OF loc_list_codec.rd_consumes])
qed (simp add: loc_list_enc_def)

section \<open>RtpsInfoTimestamp\<close>

record rtps_info_timestamp = submessage_base +
  it_timestamp :: timestamp

definition it_of_base :: "submessage_base \<Rightarrow> rtps_info_timestamp" where
  "it_of_base b = submessage_base.extend b \<lparr> it_timestamp = ts_invalid \<rparr>"

definition it_of_header :: "submessage_header \<Rightarrow> rtps_info_timestamp res" where
  "it_of_header h = asserting (sh_kind h = InfoTs) (Inr (it_of_base (sb_of_header h)))"

definition it_new :: rtps_info_timestamp where
  "it_new = it_of_base (sb_of_kind InfoTs)"

definition write_it :: "rtps_info_timestamp \<Rightarrow> writer" where
  "write_it m = write_ts (it_timestamp m)"

definition read_it :: "rtps_info_timestamp \<Rightarrow> rtps_info_timestamp reader" where
  "read_it old = rthen read_ts (\<lambda>t. rret (old\<lparr> it_timestamp := t \<rparr>))"

definition it_SIZE :: int where
  "it_SIZE = 8"

definition it_has_invalidate_flag :: "rtps_info_timestamp \<Rightarrow> bool" where
  "it_has_invalidate_flag m = has_flag 0x02 m"

definition it_set_invalidate_flag :: "bool \<Rightarrow> rtps_info_timestamp \<Rightarrow> rtps_info_timestamp res" where
  "it_set_invalidate_flag b m = set_flag 0x02 b m"

definition it_ok :: "submessage_base \<Rightarrow> rtps_info_timestamp \<Rightarrow> bool" where
  "it_ok base m \<longleftrightarrow> submessage_base.truncate m = base \<and> ts_ok (it_timestamp m)"

interpretation it_codec: wire_codec "it_ok base"
  "\<lambda>m. le_bytes 8 (ts_seconds (it_timestamp m)) @ le_bytes 8 (ts_fraction (it_timestamp m))"
  write_it "read_it (it_of_base base)" for base
proof
  fix m assume m: "it_ok base m"
  then show "emits (write_it m)
      (le_bytes 8 (ts_seconds (it_timestamp m)) @ le_bytes 8 (ts_fraction (it_timestamp m)))"
    unfolding write_it_def it_ok_def by (intro ts_codec.wr_emits) auto
  show "consumes (read_it (it_of_base base))
      (le_bytes 8 (ts_seconds (it_timestamp m)) @ le_bytes 8 (ts_fraction (it_timestamp m))) m"
    using m unfolding read_it_def it_ok_def
    by (auto simp: it_of_base_def submessage_base.defs intro!: consumes_rthen_ret[OF ts_codec.rd_consumes])
qed simp

section \<open>RtpsPad\<close>

record rtps_pad = submessage_base +
  pad_size :: int

definition pad_of_header :: "submessage_header \<Rightarrow> rtps_pad res" where
  "pad_of_header h = asserting (sh_kind h = Pad)
     (Inr (submessage_base.extend (sb_of_header h) \<lparr> pad_size = sh_length h \<rparr>))"

definition pad_new :: "int \<Rightarrow> rtps_pad" where
  "pad_new n = submessage_base.extend (sb_of_kind Pad) \<lparr> pad_size = n \<rparr>"

definition write_pad :: "rtps_pad \<Rightarrow> writer" where
  "write_pad m = wskip"

definition read_pad :: "rtps_pad \<Rightarrow> rtps_pad reader" where
  "read_pad old = rret old"

definition pad_get_size :: "rtps_pad \<Rightarrow> int res" where
  "pad_get_size m = asserting (pad_size m \<noteq> 0) (Inr (pad_size m))"

section \<open>RtpsHeartbeatFrag and RtpsNackFrag\<close>

record rtps_heartbeat_frag = submessage_base +
  hf_reader :: entity_id
  hf_writer :: entity_id
  hf_sn :: sequence_number
  hf_last :: int
  hf_count :: int

definition hf_of_base :: "submessage_base \<Rightarrow> rtps_heartbeat_frag" where
  "hf_of_base b = submessage_base.extend b
     \<lparr> hf_reader = ei_unknown, hf_writer = ei_unknown, hf_sn = sn_of_value 1, hf_last = - 1,
       hf_count = count_default \<rparr>"

definition hf_of_header :: "submessage_header \<Rightarrow> rtps_heartbeat_frag res" where
  "hf_of_header h = asserting (sh_kind h = HeartbeatFrag) (Inr (hf_of_base (sb_of_header h)))"

definition hf_new :: rtps_heartbeat_frag where
  "hf_new = hf_of_base (sb_of_kind HeartbeatFrag)"

definition write_hf :: "rtps_heartbeat_frag \<Rightarrow> writer" where
  "write_hf m =
     wseq (write_ei (hf_reader m)) (wseq (write_ei (hf_writer m)) (wseq (write_sn (hf_sn m))
       (wseq (write_fragment_number (hf_last m)) (write_count (hf_count m)))))"

definition read_hf :: "rtps_heartbeat_frag \<Rightarrow> rtps_heartbeat_frag reader" where
  "read_hf old =
     rthen (read_ei (hf_reader old)) (\<lambda>r. rthen (read_ei (hf_writer old)) (\<lambda>w.
       rthen read_sn (\<lambda>s. rthen read_fragment_number (\<lambda>l. rthen read_count (\<lambda>c.
         rret (old\<lparr> hf_reader := r, hf_writer := w, hf_sn := s, hf_last := l, hf_count := c \<rparr>))))))"

definition hf_SIZE :: int where
  "hf_SIZE = 4 + 4 + sn_SIZE + 4 + 4"

definition hf_ok :: "submessage_base \<Rightarrow> rtps_heartbeat_frag \<Rightarrow> bool" where
  "hf_ok base m \<longleftrightarrow> submessage_base.truncate m = base \<and> ei_ok (hf_reader m) \<and> ei_ok (hf_writer m)
     \<and> sn_representable (hf_sn m) \<and> in_int64 (hf_last m) \<and> in_int32 (hf_count m)"

definition hf_enc :: "rtps_heartbeat_frag \<Rightarrow> u8 list" where
  "hf_enc m = ei_enc (hf_reader m) @ ei_enc (hf_writer m) @ sn_enc (hf_sn m) @ le_bytes 8 (hf_last m)
     @ le_bytes 4 (hf_count m)"

interpretation hf_codec: wire_codec "hf_ok base" hf_enc write_hf "read_hf (hf_of_base base)" for base
proof
  fix m assume m: "hf_ok base m"
  then show "emits (write_hf m) (hf_enc m)"
    unfolding write_hf_def hf_enc_def hf_ok_def write_fragment_number_def
    by (intro emits_wseq emits_put_ints ei_codec.wr_emits sn_codec.wr_emits count_codec.wr_emits) auto
  show "consumes (read_hf (hf_of_base base)) (hf_enc m) m"
    using m unfolding read_hf_def hf_enc_def hf_ok_def read_fragment_number_def
    by (auto simp: hf_of_base_def submessage_base.defs
        intro!: consumes_rthen[OF ei_codec.rd_consumes] consumes_rthen[OF sn_codec.rd_consumes]
          consumes_rthen[OF consumes_ints(4)] consumes_rthen_ret[OF count_codec.rd_consumes])
qed (simp add: hf_enc_def ei_enc_def)

record rtps_nack_frag = submessage_base +
  nf_reader :: entity_id
  nf_writer :: entity_id
  nf_sn :: sequence_number
  nf_state :: fragment_number_set
  nf_count :: int

definition nf_of_base :: "submessage_base \<Rightarrow> rtps_nack_frag" where
  "nf_of_base b = submessage_base.extend b
     \<lparr> nf_reader = ei_unknown, nf_writer = ei_unknown, nf_sn = sn_of_value 1, nf_state = fns_new,
       nf_count = count_default \<rparr>"

definition nf_of_header :: "submessage_header \<Rightarrow> rtps_nack_frag res" where
  "nf_of_header h = asserting (sh_kind h = NackFrag) (Inr (nf_of_base (sb_of_header h)))"

definition nf_new :: rtps_nack_frag where
  "nf_new = nf_of_base (sb_of_kind NackFrag)"

definition write_nf :: "rtps_nack_frag \<Rightarrow> writer" where
  "write_nf m =
     wseq (write_ei (nf_reader m)) (wseq (write_ei (nf_writer m)) (wseq (write_sn (nf_sn m))
       (wseq (write_fns (nf_state m)) (write_count (nf_count m)))))"

definition read_nf :: "rtps_nack_frag \<Rightarrow> rtps_nack_frag reader" where
  "read_nf old =
     rthen (read_ei (nf_reader old)) (\<lambda>r. rthen (read_ei (nf_writer old)) (\<lambda>w.
       rthen read_sn (\<lambda>s. rthen read_fns (\<lambda>f. rthen read_count (\<lambda>c.
         rret (old\<lparr> nf_reader := r, nf_writer := w, nf_sn := s, nf_state := f, nf_count := c \<rparr>))))))"

definition nf_SIZE :: int where
  "nf_SIZE = 4 + 4 + sn_SIZE + (4 + 4) + 4"

definition nf_ok :: "submessage_base \<Rightarrow> rtps_nack_frag \<Rightarrow> bool" where
  "nf_ok base m \<longleftrightarrow> submessage_base.truncate m = base \<and> ei_ok (nf_reader m) \<and> ei_ok (nf_writer m)
     \<and> sn_representable (nf_sn m) \<and> fns_ok (nf_state m) \<and> in_int32 (nf_count m)"

definition nf_enc :: "rtps_nack_frag \<Rightarrow> u8 list" where
  "nf_enc m = ei_enc (nf_reader m) @ ei_enc (nf_writer m) @ sn_enc (nf_sn m)
     @ (le_bytes 8 (fns_base (nf_state m)) @ le_bytes 8 (fns_num_bits (nf_state m)))
     @ le_bytes 4 (nf_count m)"

interpretation nf_codec: wire_codec "nf_ok base" nf_enc write_nf "read_nf (nf_of_base base)" for base
proof
  fix m assume m: "nf_ok base m"
  then show "emits (write_nf m) (nf_enc m)"
    unfolding write_nf_def nf_enc_def nf_ok_def
    by (intro emits_wseq ei_codec.wr_emits sn_codec.wr_emits fns_codec.wr_emits count_codec.wr_emits) auto
  show "consumes (read_nf (nf_of_base base)) (nf_enc m) m"
    using m unfolding read_nf_def nf_enc_def nf_ok_def
    by (auto simp: nf_of_base_def submessage_base.defs simp del: append_assoc
        intro!: consumes_rthen[OF ei_codec.rd_consumes] consumes_rthen[OF sn_codec.rd_consumes]
          consumes_rthen[OF fns_codec.rd_consumes] consumes_rthen_ret[OF count_codec.rd_consumes])
qed (simp add: nf_enc_def ei_enc_def)

end
