(* ===== verification/Message_Sender.thy ===== *)
theory Message_Sender
  imports Reader_Proxy Info_Submessages
begin

text \<open>
  \<open>RTPS/Machine/RtpsMessageSender\<close>: how an endpoint's submessages become datagrams. The socket is a
  parameter, the function from the bytes, the address and the port handed to it to the count it
  reports; the datagrams handed over so far are the state of the monad \<open>io\<close>, which keeps them when a
  step fails. The object \<open>WriteWithHeader\<close> is called on also stores the size in its own header; the
  next call overwrites it before any use, so the model drops it.
\<close>

datatype return_code =
    RcOk | RcError | RcUnsupported | RcBadParameter | RcPreconditionNotMet | RcOutOfResources
  | RcNotEnabled | RcImmutablePolicy | RcInconsistentPolicy | RcAlreadyDeleted | RcTimeout | RcNoData
  | RcIllegalOperation

type_synonym datagram = "u8 option list \<times> u8 list \<times> int"
type_synonym device = "u8 option list \<Rightarrow> u8 list \<Rightarrow> int \<Rightarrow> int"
type_synonym 'a io = "datagram list \<Rightarrow> 'a res \<times> datagram list"

definition io_of :: "'a res \<Rightarrow> 'a io" where
  "io_of r ds = (r, ds)"

definition io_bind :: "'a io \<Rightarrow> ('a \<Rightarrow> 'b io) \<Rightarrow> 'b io" where
  "io_bind m f ds = (case m ds of (Inl e, ds') \<Rightarrow> (Inl e, ds') | (Inr x, ds') \<Rightarrow> f x ds')"

text \<open>\<open>catch(BaseLib::Exception)\<close> around a body that produces a return code.\<close>

definition io_catch :: "return_code io \<Rightarrow> return_code io" where
  "io_catch m ds = (case m ds of (Inl ExceptionThrown, ds') \<Rightarrow> (Inr RcError, ds') | out \<Rightarrow> out)"

record message_sender =
  ms_prefix :: guid_prefix
  ms_datagram_size :: int

definition ms_new :: "guid_prefix \<Rightarrow> int \<Rightarrow> message_sender" where
  "ms_new g n = \<lparr> ms_prefix = g, ms_datagram_size = n \<rparr>"

text \<open>The submessages the endpoints hand to the sender, with their virtual functions.\<close>

datatype outgoing =
    OutAckNack rtps_ack_nack | OutGap rtps_gap | OutHeartbeat rtps_heartbeat | OutData rtps_data
  | OutInfoReply rtps_info_reply

fun out_size :: "outgoing \<Rightarrow> int" where
  "out_size (OutAckNack m) = an_SIZE"
| "out_size (OutGap m) = gap_SIZE"
| "out_size (OutHeartbeat m) = hb_SIZE"
| "out_size (OutData m) = d_size m"
| "out_size (OutInfoReply m) = ir_size m"

definition written_of :: "(bool \<times> 'a \<times> byte_array) res \<Rightarrow> (bool \<times> byte_array) res" where
  "written_of r = rbind r (\<lambda>(ok, m, b). Inr (ok, b))"

fun out_write :: "outgoing \<Rightarrow> byte_array \<Rightarrow> (bool \<times> byte_array) res" where
  "out_write (OutAckNack m) b = written_of (write_with_header (\<lambda>m. Inr an_SIZE) write_an m b)"
| "out_write (OutGap m) b = written_of (write_with_header (\<lambda>m. Inr gap_SIZE) write_gap m b)"
| "out_write (OutHeartbeat m) b = written_of (write_with_header (\<lambda>m. Inr hb_SIZE) write_hb m b)"
| "out_write (OutData m) b = written_of (write_with_header (\<lambda>m. Inr (d_size m)) write_d m b)"
| "out_write (OutInfoReply m) b = written_of (write_with_header (\<lambda>m. Inr (ir_size m)) write_ir m b)"

section \<open>Datagrams\<close>

text \<open>The padding of \<open>writeOutDatagram\<close>, computed in unsigned arithmetic and stored in an \<open>int\<close>.\<close>

definition pad_out :: "int \<Rightarrow> byte_array \<Rightarrow> byte_array res" where
  "pad_out datagram_size b =
     (let padding = wrap32 (to_uint32 (datagram_size - (ba_position b + sh_SIZE))) in
      if 4 < padding
      then rbind (write_with_header pad_get_size write_pad (pad_new (to_uint32 padding)) b)
             (\<lambda>(ok, m, b'). Inr b')
      else Inr b)"

definition flush_to :: "device \<Rightarrow> locator \<Rightarrow> byte_array \<Rightarrow> (bool \<times> byte_array) io" where
  "flush_to dev l b ds =
     (ba_flush_datagram dev (loc_address l) (loc_port l) b,
      if ba_position b \<le> 0 \<or> ba_cells b = [] then ds
      else ds @ [(take (nat (ba_position b)) (ba_cells b), loc_address l, loc_port l)])"

definition write_out_datagram ::
  "message_sender \<Rightarrow> device \<Rightarrow> locator \<Rightarrow> byte_array \<Rightarrow> (return_code \<times> byte_array) io" where
  "write_out_datagram ms dev l b =
     io_bind (io_of (pad_out (ms_datagram_size ms) b)) (\<lambda>b1.
       io_bind (flush_to dev l b1) (\<lambda>(success, b2).
         io_of (asserting success (Inr (RcOk, b2)))))"

text \<open>One round of the loop of \<open>writeMessage\<close>.\<close>

definition write_one ::
  "message_sender \<Rightarrow> device \<Rightarrow> locator \<Rightarrow> message_header \<Rightarrow> outgoing \<Rightarrow> byte_array \<Rightarrow> byte_array io" where
  "write_one ms dev l header m b =
     io_bind
       (if ms_datagram_size ms < ba_position b + out_size m
        then io_bind (write_out_datagram ms dev l b)
               (\<lambda>(ret, b1). io_of (asserting (ret = RcOk) (Inr (snd (ba_set_position 0 b1)))))
        else io_of (Inr b)) (\<lambda>b2.
       io_of (rbind (if ba_position b2 = 0
                     then rbind (write_de (de_new 0) b2) (write_mh header)
                     else Inr b2) (\<lambda>b3.
              rbind (out_write m b3) (\<lambda>(success, b4). asserting success (Inr b4)))))"

fun write_all ::
  "message_sender \<Rightarrow> device \<Rightarrow> locator \<Rightarrow> message_header \<Rightarrow> outgoing list \<Rightarrow> byte_array \<Rightarrow> byte_array io" where
  "write_all ms dev l header [] b = io_of (Inr b)"
| "write_all ms dev l header (m # ms') b =
     io_bind (write_one ms dev l header m b) (write_all ms dev l header ms')"

definition write_message ::
  "message_sender \<Rightarrow> device \<Rightarrow> outgoing list \<Rightarrow> locator \<Rightarrow> return_code io" where
  "write_message ms dev ss l = io_catch
     (if ss = [] then io_of (Inr RcNoData)
      else
        let header = mh_default\<lparr> mh_prefix := ms_prefix ms \<rparr> in
        io_bind (io_of (ba_new (wrap32 (ms_datagram_size ms)))) (\<lambda>b.
        io_bind (write_all ms dev l header ss b) (\<lambda>b'.
          if 0 < ba_position b'
          then io_bind (io_of (asserting (ba_position b' < ms_datagram_size ms) (Inr ())))
                 (\<lambda>_. io_bind (write_out_datagram ms dev l b') (\<lambda>(ret, b''). io_of (Inr RcOk)))
          else io_of (Inr RcOk))))"

section \<open>GAP and DATA\<close>

text \<open>
  The inner loop of \<open>addGapMessages\<close> over the missing numbers: the state is the start of the GAP,
  the bitmap and the previous number; the result also gives the elements from the iterator on, which
  \<open>erase(begin, it)\<close> keeps.
\<close>

fun gap_scan ::
  "sequence_number list \<Rightarrow> sequence_number \<Rightarrow> sequence_number_set \<Rightarrow> sequence_number
     \<Rightarrow> (sequence_number \<times> sequence_number list) res" where
  "gap_scan [] start seq_list prev = Inr (start, [])"
| "gap_scan (s # missing) start seq_list prev =
     (if prev = sn_unknown then gap_scan missing s seq_list s
      else if sn_get prev \<noteq> wrap64 (sn_get s - 1)
      then
        let seq_list1 = (if sns_is_empty seq_list then sns_set_base prev seq_list else seq_list) in
        rbind (add_seq_number s True seq_list1) (\<lambda>(ret, seq_list2).
          if \<not> ret then Inr (start, s # missing) else gap_scan missing start seq_list2 s)
      else if \<not> sns_is_empty seq_list
      then
        rbind (add_seq_number s True seq_list) (\<lambda>(ret, seq_list1).
          if \<not> ret then Inr (start, s # missing) else gap_scan missing start seq_list1 s)
      else gap_scan missing start seq_list s)"

definition gap_message :: "entity_id \<Rightarrow> sequence_number \<Rightarrow> rtps_gap" where
  "gap_message writer start =
     gap_new\<lparr> gap_reader := ei_unknown, gap_writer := writer, gap_start := start \<rparr>"

text \<open>
  The first number is never tested against the bitmap, so every round of the outer loop consumes at
  least one.
\<close>

lemma gap_scan_shorter:
  "gap_scan missing start seq_list prev = Inr (start', rest) \<Longrightarrow> length rest \<le> length missing"
proof (induction missing arbitrary: start seq_list prev)
  case (Cons s missing)
  have keep: "rbind (add_seq_number s True sl) (\<lambda>(ret, sl2).
      if \<not> ret then Inr (start, s # missing) else gap_scan missing start sl2 s) = Inr (start', rest) \<Longrightarrow>
      length rest \<le> length (s # missing)" for sl
    by (cases "add_seq_number s True sl") (auto split: if_splits dest: Cons.IH[THEN le_SucI])
  show ?case using Cons.prems
    unfolding gap_scan.simps Let_def
    by (auto split: if_splits dest: Cons.IH[THEN le_SucI] keep)
qed simp

lemma gap_scan_first:
  "gap_scan (s # missing) start seq_list sn_unknown = gap_scan missing s seq_list s"
  by simp

lemma gap_scan_consumes:
  "gap_scan (s # missing) start seq_list sn_unknown = Inr (start', rest) \<Longrightarrow> length rest < length (s # missing)"
  by (auto dest: gap_scan_shorter)

function gap_rounds :: "entity_id \<Rightarrow> sequence_number list \<Rightarrow> outgoing list \<Rightarrow> outgoing list res" where
  "gap_rounds writer [] out = Inr out"
| "gap_rounds writer (s # missing) out =
     (case gap_scan (s # missing) (gap_start gap_new) sns_unknown sn_unknown of
        Inl e \<Rightarrow> Inl e
      | Inr (start, rest) \<Rightarrow> gap_rounds writer rest (out @ [OutGap (gap_message writer start)]))"
  by pat_completeness auto

termination
  by (relation "measure (length \<circ> fst \<circ> snd)")
    (simp, use gap_scan_consumes in \<open>force simp del: gap_scan.simps\<close>)

definition add_gap_messages ::
  "outgoing list \<Rightarrow> sequence_number list \<Rightarrow> entity_id \<Rightarrow> outgoing list res" where
  "add_gap_messages out missing writer = gap_rounds writer missing out"

definition add_data_messages ::
  "rtps_data option \<Rightarrow> outgoing list \<Rightarrow> entity_id \<Rightarrow> locator \<Rightarrow> bool \<Rightarrow> (rtps_data \<times> outgoing list) res" where
  "add_data_messages data out writer l is_stateless =
     (let out1 = (if is_stateless then out @ [OutInfoReply (ir_of_locator l)] else out) in
      case data of
        None \<Rightarrow> Inl AssertFailed
      | Some d \<Rightarrow> asserting (d_writer d = writer)
          (let d' = d\<lparr> d_reader := ei_unknown \<rparr> in Inr (d', out1 @ [OutData d'])))"

section \<open>SendTo for a stateful writer\<close>

text \<open>
  What the loops over the changes update: the writer's cache (a data submessage about to be sent gets
  the unknown reader id), the submessages and the missing numbers, a \<open>std::set\<close>.
\<close>

record send_state =
  st_cache :: data_cache
  st_submessages :: "outgoing list"
  st_missing :: "(sequence_number, unit) omap"

definition send_state_new :: "data_cache \<Rightarrow> send_state" where
  "send_state_new cache = \<lparr> st_cache = cache, st_submessages = [], st_missing = [] \<rparr>"

definition queue_data ::
  "entity_id \<Rightarrow> locator \<Rightarrow> bool \<Rightarrow> sequence_number \<Rightarrow> cache_change \<Rightarrow> send_state \<Rightarrow> send_state res" where
  "queue_data writer l is_stateless s c st =
     rbind (add_data_messages (cc_data c) (st_submessages st) writer l is_stateless) (\<lambda>(d, out).
       Inr (st\<lparr> st_cache := om_assign sn_less s (c\<lparr> cc_data := Some d \<rparr>) (st_cache st),
               st_submessages := out \<rparr>))"

definition queue_missing :: "sequence_number \<Rightarrow> send_state \<Rightarrow> send_state" where
  "queue_missing s st = st\<lparr> st_missing := om_insert sn_less s () (st_missing st) \<rparr>"

definition queue_change ::
  "entity_id \<Rightarrow> locator \<Rightarrow> (sequence_number \<times> change_for_reader) \<Rightarrow> send_state \<Rightarrow> send_state res" where
  "queue_change writer l = (\<lambda>(s, cfr) st.
     case get_change s (st_cache st) of
       None \<Rightarrow> Inr (queue_missing s st)
     | Some c \<Rightarrow> if \<not> cfr_relevant cfr then Inr (queue_missing s st) else queue_data writer l False s c st)"

text \<open>The tail the three variants share: the GAPs, and the message when there is anything to send.\<close>

definition send_queued ::
  "message_sender \<Rightarrow> device \<Rightarrow> entity_id \<Rightarrow> locator \<Rightarrow> send_state \<Rightarrow> return_code io" where
  "send_queued ms dev writer l st =
     io_bind (io_of (if st_missing st = [] then Inr (st_submessages st)
                     else add_gap_messages (st_submessages st) (map fst (st_missing st)) writer)) (\<lambda>out.
       if out = [] then io_of (Inr RcOk) else write_message ms dev out l)"

definition single_locator :: "locator list \<Rightarrow> locator res" where
  "single_locator ls = asserting (ls \<noteq> []) (asserting (length ls = 1) (Inr (hd ls)))"

text \<open>
  The entries of the map argument are the status objects of the proxy itself, so marking them marks
  the proxy. No step outside \<open>writeMessage\<close>, which has a handler of its own, throws.
\<close>

definition mark_underway :: "change_map \<Rightarrow> reader_proxy \<Rightarrow> reader_proxy" where
  "mark_underway changes p =
     p\<lparr> rp_changes := fold (\<lambda>(s, c). set_status_at s Underway) changes (rp_changes p) \<rparr>"

definition send_changes ::
  "message_sender \<Rightarrow> device \<Rightarrow> entity_id \<Rightarrow> data_cache \<Rightarrow> reader_proxy \<Rightarrow> change_map
     \<Rightarrow> (return_code \<times> data_cache \<times> reader_proxy) io" where
  "send_changes ms dev writer cache p changes =
     io_bind (io_of (single_locator (rp_unicast p))) (\<lambda>l.
     io_bind (io_of (rfold (queue_change writer l) changes (send_state_new cache))) (\<lambda>st.
     io_bind (send_queued ms dev writer l st) (\<lambda>rc.
       io_of (Inr (rc, st_cache st, mark_underway changes p)))))"

definition send_heartbeat_to_proxy ::
  "message_sender \<Rightarrow> device \<Rightarrow> reader_proxy \<Rightarrow> rtps_heartbeat \<Rightarrow> return_code io" where
  "send_heartbeat_to_proxy ms dev p hb =
     io_bind (io_of (single_locator (rp_unicast p))) (\<lambda>l. write_message ms dev [OutHeartbeat hb] l)"

section \<open>SendTo for a stateful reader\<close>

definition send_to_writer ::
  "message_sender \<Rightarrow> device \<Rightarrow> locator list \<Rightarrow> outgoing list \<Rightarrow> return_code io" where
  "send_to_writer ms dev unicast ss =
     io_bind (io_of (single_locator unicast)) (\<lambda>l. write_message ms dev ss l)"

section \<open>SendTo for a stateless writer\<close>

definition queue_sequence_number ::
  "entity_id \<Rightarrow> locator \<Rightarrow> sequence_number \<Rightarrow> send_state \<Rightarrow> send_state res" where
  "queue_sequence_number writer l s st =
     (case get_change s (st_cache st) of
        None \<Rightarrow> asserting (\<not> om_member sn_less s (st_missing st)) (Inr (queue_missing s st))
      | Some c \<Rightarrow> queue_data writer l True s c st)"

definition send_sequence_set ::
  "message_sender \<Rightarrow> device \<Rightarrow> entity_id \<Rightarrow> data_cache \<Rightarrow> locator \<Rightarrow> sequence_number list
     \<Rightarrow> (return_code \<times> data_cache) io" where
  "send_sequence_set ms dev writer cache l ss =
     io_bind (io_of (rfold (queue_sequence_number writer l) ss (send_state_new cache))) (\<lambda>st.
     io_bind (send_queued ms dev writer l st) (\<lambda>rc. io_of (Inr (rc, st_cache st))))"

partial_function (option) queue_range ::
  "entity_id \<Rightarrow> locator \<Rightarrow> sequence_number \<Rightarrow> sequence_number \<Rightarrow> send_state \<Rightarrow> send_state res option" where
  "queue_range writer l s end_seq st =
     (if \<not> sn_le s end_seq then Some (Inr st)
      else case queue_sequence_number writer l s st of
          Inl e \<Rightarrow> Some (Inl e)
        | Inr st1 \<Rightarrow> queue_range writer l (sn_inc s) end_seq st1)"

definition send_sequence_range ::
  "message_sender \<Rightarrow> device \<Rightarrow> entity_id \<Rightarrow> data_cache \<Rightarrow> locator \<Rightarrow> sequence_number \<times> sequence_number
     \<Rightarrow> datagram list \<Rightarrow> ((return_code \<times> data_cache) res \<times> datagram list) option" where
  "send_sequence_range ms dev writer cache l rng ds =
     map_option (\<lambda>r. io_bind (io_of r) (\<lambda>st.
         io_bind (send_queued ms dev writer l st) (\<lambda>rc. io_of (Inr (rc, st_cache st)))) ds)
       (queue_range writer l (fst rng) (snd rng) (send_state_new cache))"

definition send_heartbeat_to_locator ::
  "message_sender \<Rightarrow> device \<Rightarrow> locator \<Rightarrow> rtps_heartbeat \<Rightarrow> return_code io" where
  "send_heartbeat_to_locator ms dev l hb = write_message ms dev [OutHeartbeat hb] l"

section \<open>Facts\<close>

text \<open>
  The bitmap starts at base 1 and is therefore never empty in the sense of \<open>IsEmpty\<close>: every number
  after the first is added relative to base 1, whatever precedes it, and the scan stops at the first
  one above 256. The numbers added are not copied into the GAP.
\<close>

function gap_starts :: "sequence_number list \<Rightarrow> sequence_number list" where
  "gap_starts [] = []"
| "gap_starts (s # ss) = s # gap_starts (dropWhile (\<lambda>t. sn_get t \<le> 256) ss)"
  by pat_completeness auto

termination
  by (relation "measure length") (simp_all add: le_imp_less_Suc length_dropWhile_le)

definition gap_key :: "sequence_number \<Rightarrow> bool" where
  "gap_key s \<longleftrightarrow> sn_valid s \<and> sn_get s \<le> 2147483648"

lemma add_seq_number_base_one:
  assumes "gap_key s" "sns_base sl = sn_of_value 1"
  shows "sn_get s \<le> 256 \<Longrightarrow> \<exists>sl'. add_seq_number s True sl = Inr (True, sl') \<and> sns_base sl' = sn_of_value 1"
    and "256 < sn_get s \<Longrightarrow> add_seq_number s True sl = Inr (False, sl)"
proof -
  have one: "sn_get (sn_of_value 1) = 1" by (rule sn_get_of_value) simp_all
  have r: "1 \<le> sn_get s" "sn_get s \<le> 2147483648"
    using assms(1) sn_valid_get_range(1) by (auto simp: gap_key_def)
  then have "wrap64 (sn_get s - 1) = sn_get s - 1" by (intro wrap64_id) (simp add: in_int64_def)
  moreover have "wrap32 (sn_get s - 1) = sn_get s - 1" using r by (intro wrap32_id) (simp add: in_int32_def)
  ultimately show "256 < sn_get s \<Longrightarrow> add_seq_number s True sl = Inr (False, sl)"
    and "sn_get s \<le> 256 \<Longrightarrow> \<exists>sl'. add_seq_number s True sl = Inr (True, sl') \<and> sns_base sl' = sn_of_value 1"
    using assms(2) r by (simp_all add: add_seq_number_def one set_bit_at_position_def Let_def)
qed

lemma sn_valid_known: "sn_valid s \<Longrightarrow> s \<noteq> sn_unknown"
  by (auto simp: sn_unknown_def mk_sn_def sn_valid_def)

lemma gap_scan_drops:
  assumes "list_all gap_key missing" "sns_base sl = sn_of_value 1" "prev \<noteq> sn_unknown"
  shows "gap_scan missing start sl prev = Inr (start, dropWhile (\<lambda>t. sn_get t \<le> 256) missing)"
  using assms
proof (induction missing arbitrary: sl prev)
  case (Cons s missing)
  have key: "gap_key s" "list_all gap_key missing" using Cons.prems(1) by auto
  have nonempty: "\<not> sns_is_empty sl"
    using Cons.prems(2) sn_valid_known[OF sn_of_value_valid[of 1]]
    by (auto simp: sns_is_empty_def in_int64_def)
  have s: "s \<noteq> sn_unknown" using key(1) sn_valid_known by (simp add: gap_key_def)
  show ?case
  proof (cases "sn_get s \<le> 256")
    case True
    then obtain sl' where "add_seq_number s True sl = Inr (True, sl')" "sns_base sl' = sn_of_value 1"
      using add_seq_number_base_one(1)[OF key(1) Cons.prems(2)] by blast
    then show ?thesis using True nonempty Cons.prems(3) Cons.IH[OF key(2) _ s] by simp
  next
    case False
    then show ?thesis using nonempty Cons.prems(3) add_seq_number_base_one(2)[OF key(1) Cons.prems(2)]
      by simp
  qed
qed simp

lemma gap_rounds_starts:
  assumes "list_all gap_key missing"
  shows "gap_rounds writer missing out =
    Inr (out @ map (\<lambda>s. OutGap (gap_message writer s)) (gap_starts missing))"
  using assms
proof (induction missing arbitrary: out rule: gap_starts.induct)
  case (2 s ss)
  have s: "s \<noteq> sn_unknown" using 2(2) sn_valid_known by (simp add: gap_key_def)
  have "sns_base sns_unknown = sn_of_value 1" by (simp add: sns_unknown_def sns_new_def)
  then have scan: "gap_scan ss s sns_unknown s = Inr (s, dropWhile (\<lambda>t. sn_get t \<le> 256) ss)"
    using 2(2) s by (intro gap_scan_drops) simp_all
  have "list_all gap_key (dropWhile (\<lambda>t. sn_get t \<le> 256) ss)"
    using 2(2) set_dropWhileD by (fastforce simp: list_all_iff)
  then show ?case using 2(1) by (simp add: scan)
qed simp

lemma gap_starts_cover:
  "set (gap_starts missing) \<subseteq> set missing
   \<and> (\<forall>s \<in> set missing. s \<in> set (gap_starts missing) \<or> sn_get s \<le> 256)
   \<and> (\<forall>s \<in> set (tl (gap_starts missing)). 256 < sn_get s)"
proof (induction missing rule: gap_starts.induct)
  case (2 s ss)
  let ?P = "\<lambda>t. sn_get t \<le> 256"
  let ?rest = "gap_starts (dropWhile ?P ss)"
  have part: "t \<in> set (dropWhile ?P ss) \<or> ?P t" if "t \<in> set ss" for t
    using that takeWhile_dropWhile_id[of ?P ss] set_takeWhileD[of t ?P ss] by (metis Un_iff set_append)
  have first: "\<forall>t \<in> set ?rest. 256 < sn_get t"
  proof (cases "dropWhile ?P ss")
    case Nil
    show ?thesis unfolding Nil by simp
  next
    case (Cons u us)
    then have "\<not> ?P u" using hd_dropWhile[of ?P ss] by simp
    then show ?thesis using 2 Cons by auto
  qed
  show ?case using 2 part first by (auto dest: set_dropWhileD)
qed simp

section \<open>The datagram of a message\<close>

definition out_emits :: "outgoing \<Rightarrow> u8 list \<Rightarrow> bool" where
  "out_emits m bs \<longleftrightarrow> (\<forall>b. ba_ok b \<longrightarrow>
     (\<exists>b'. out_write m b = Inr (True, b') \<and> ba_ok b' \<and> ba_written b' = ba_written b @ map Some bs))"

lemma emits_write_sh: "emits (write_sh h) (sh_enc h)"
  unfolding write_sh_def sh_enc_def by (intro emits_wseq emits_put_ints)

text \<open>The header of a submessage, with the size \<open>WriteWithHeader\<close> stores in it.\<close>

definition sized_header :: "int \<Rightarrow> submessage_header \<Rightarrow> submessage_header" where
  "sized_header n h = h\<lparr> sh_length := uint16 n \<rparr>"

lemma write_with_header_emits:
  assumes "get_size m = Inr n" "emits (wr (m\<lparr> sb_header := sized_header n (sb_header m) \<rparr>)) bs" "ba_ok b"
  shows "\<exists>b'. write_with_header get_size wr m b = Inr (True, m\<lparr> sb_header := sized_header n (sb_header m) \<rparr>, b')
    \<and> ba_ok b' \<and> ba_written b' = ba_written b @ map Some (sh_enc (sized_header n (sb_header m)) @ bs)"
proof -
  let ?h = "sized_header n (sb_header m)"
  obtain b1 where b1: "write_sh ?h b = Inr b1" "ba_ok b1" "ba_written b1 = ba_written b @ map Some (sh_enc ?h)"
    using emitsE[OF emits_write_sh assms(3)] .
  obtain b2 where "wr (m\<lparr> sb_header := ?h \<rparr>) b1 = Inr b2" "ba_ok b2"
    "ba_written b2 = ba_written b1 @ map Some bs"
    using emitsE[OF assms(2) b1(2)] .
  then show ?thesis using assms(1) b1
    by (simp add: write_with_header_def sh_is_valid_def sized_header_def Let_def)
qed

lemma written_of_emits:
  assumes "\<exists>b' m'. r = Inr (True, m', b') \<and> P b'" shows "\<exists>b'. written_of r = Inr (True, b') \<and> P b'"
  using assms by (auto simp: written_of_def)

lemma out_emits_heartbeat:
  assumes "hb_ok (submessage_base.truncate m) m"
  shows "out_emits (OutHeartbeat m) (sh_enc (sized_header hb_SIZE (sb_header m)) @ hb_enc m)"
  unfolding out_emits_def out_write.simps
proof (intro allI impI written_of_emits)
  fix b assume b: "ba_ok b"
  have "hb_ok (submessage_base.truncate (m\<lparr> sb_header := h \<rparr>)) (m\<lparr> sb_header := h \<rparr>)"
    "hb_enc (m\<lparr> sb_header := h \<rparr>) = hb_enc m" for h
    using assms by (simp_all add: hb_ok_def hb_enc_def)
  then have "emits (write_hb (m\<lparr> sb_header := h \<rparr>)) (hb_enc m)" for h
    using hb_codec.wr_emits by metis
  then show "\<exists>b' m'. write_with_header (\<lambda>m. Inr hb_SIZE) write_hb m b = Inr (True, m', b') \<and> ba_ok b' \<and>
      ba_written b' = ba_written b @ map Some (sh_enc (sized_header hb_SIZE (sb_header m)) @ hb_enc m)"
    using write_with_header_emits[OF _ _ b, of "\<lambda>m. Inr hb_SIZE" m hb_SIZE write_hb "hb_enc m"] by blast
qed

lemma out_emits_gap:
  assumes "gap_ok (submessage_base.truncate m) m"
  shows "out_emits (OutGap m) (sh_enc (sized_header gap_SIZE (sb_header m)) @ gap_enc m)"
  unfolding out_emits_def out_write.simps
proof (intro allI impI written_of_emits)
  fix b assume b: "ba_ok b"
  have "gap_ok (submessage_base.truncate (m\<lparr> sb_header := h \<rparr>)) (m\<lparr> sb_header := h \<rparr>)"
    "gap_enc (m\<lparr> sb_header := h \<rparr>) = gap_enc m" for h
    using assms by (simp_all add: gap_ok_def gap_enc_def)
  then have "emits (write_gap (m\<lparr> sb_header := h \<rparr>)) (gap_enc m)" for h
    using gap_codec.wr_emits by metis
  then show "\<exists>b' m'. write_with_header (\<lambda>m. Inr gap_SIZE) write_gap m b = Inr (True, m', b') \<and> ba_ok b' \<and>
      ba_written b' = ba_written b @ map Some (sh_enc (sized_header gap_SIZE (sb_header m)) @ gap_enc m)"
    using write_with_header_emits[OF _ _ b, of "\<lambda>m. Inr gap_SIZE" m gap_SIZE write_gap "gap_enc m"] by blast
qed

text \<open>The RtpsPad that fills a datagram of size \<open>n\<close> after \<open>len\<close> bytes: a header without a body.\<close>

definition pad_bytes :: "int \<Rightarrow> int \<Rightarrow> u8 list" where
  "pad_bytes n len =
     (let room = n - (len + sh_SIZE) in
      if 4 < room then sh_enc (sh_new Pad (uint16 room) 0x00) else [])"

lemma pad_out_ok:
  assumes "ba_ok b" "ba_position b \<le> n" "n < 2147483648"
  shows "\<exists>b'. pad_out n b = Inr b' \<and> ba_ok b' \<and>
    ba_written b' = ba_written b @ map Some (pad_bytes n (ba_position b))"
proof -
  let ?room = "n - (ba_position b + sh_SIZE)"
  have pos: "0 \<le> ba_position b" using assms(1) by (simp add: ba_ok_def)
  have room: "in_int32 ?room" using assms pos by (simp add: in_int32_def sh_SIZE_def)
  have "wrap32 (to_uint32 ?room) = wrap32 ?room" by (simp add: to_uint32_def)
  then have padding: "wrap32 (to_uint32 ?room) = ?room" "wrap32 ?room = ?room" using room by simp_all
  show ?thesis
  proof (cases "4 < ?room")
    case True
    let ?m = "pad_new ?room"
    have size: "pad_get_size ?m = Inr ?room" and unsigned: "to_uint32 ?room = ?room"
      using True room by (simp_all add: pad_get_size_def pad_new_def submessage_base.defs in_int32_def)
    have header: "sized_header ?room (sb_header ?m) = sh_new Pad (uint16 ?room) 0x00"
      by (simp add: sized_header_def pad_new_def submessage_base.defs sb_of_kind_def sb_of_header_def
          sh_of_flags_def sh_new_def)
    have body: "emits (write_pad m) []" for m by (simp add: write_pad_def emits_wskip)
    show ?thesis
      using write_with_header_emits[of pad_get_size ?m ?room write_pad "[]" b, OF size body assms(1)] True unsigned
      by (auto simp: pad_out_def Let_def padding pad_bytes_def header)
  next
    case False
    then show ?thesis using assms(1) by (simp add: pad_out_def Let_def padding pad_bytes_def)
  qed
qed

lemma write_one_fits:
  assumes b: "ba_ok b" "0 < ba_position b" and m: "out_emits m bs"
    and fits: "ba_position b + out_size m \<le> ms_datagram_size ms"
  shows "\<exists>b'. write_one ms dev l header m b ds = (Inr b', ds) \<and> ba_ok b' \<and>
    ba_written b' = ba_written b @ map Some bs"
proof -
  obtain b' where "out_write m b = Inr (True, b')" "ba_ok b'" "ba_written b' = ba_written b @ map Some bs"
    using m b(1) unfolding out_emits_def by blast
  then show ?thesis using b(2) fits by (simp add: write_one_def io_bind_def io_of_def)
qed

lemma ba_position_written: "ba_ok b \<Longrightarrow> ba_position b = int (length (ba_written b))"
  by (simp add: length_ba_written)

text \<open>
  A message fits when the size announced by each submessage does not exceed what it emits and the
  whole stays below the datagram size.
\<close>

definition emits_all :: "outgoing list \<Rightarrow> u8 list list \<Rightarrow> bool" where
  "emits_all ss es \<longleftrightarrow> list_all2 (\<lambda>m bs. out_emits m bs \<and> out_size m \<le> int (length bs)) ss es"

lemma write_all_fits:
  assumes "emits_all ss es" "ba_ok b" "0 < ba_position b"
    and "ba_position b + int (length (concat es)) \<le> ms_datagram_size ms"
  shows "\<exists>b'. write_all ms dev l header ss b ds = (Inr b', ds) \<and> ba_ok b' \<and>
    ba_written b' = ba_written b @ map Some (concat es)"
  using assms unfolding emits_all_def
proof (induction ss es arbitrary: b rule: list_all2_induct)
  case (Cons m ss bs es)
  have m: "out_emits m bs" "ba_position b + out_size m \<le> ms_datagram_size ms"
    using Cons.hyps(1) Cons.prems(3) by auto
  obtain b1 where b1: "write_one ms dev l header m b ds = (Inr b1, ds)" "ba_ok b1"
    "ba_written b1 = ba_written b @ map Some bs"
    using write_one_fits[OF Cons.prems(1,2) m] by blast
  have "ba_position b1 = ba_position b + int (length bs)"
    using ba_position_written[OF b1(2)] ba_position_written[OF Cons.prems(1)] b1(3) by simp
  then show ?case using Cons.IH[OF b1(2)] Cons.prems b1 by (simp add: io_bind_def)
qed (simp add: io_of_def)

lemma out_emits_ack_nack:
  assumes "an_ok (submessage_base.truncate m) m"
  shows "out_emits (OutAckNack m) (sh_enc (sized_header an_SIZE (sb_header m)) @ an_enc m)"
  unfolding out_emits_def out_write.simps
proof (intro allI impI written_of_emits)
  fix b assume b: "ba_ok b"
  have "an_ok (submessage_base.truncate (m\<lparr> sb_header := h \<rparr>)) (m\<lparr> sb_header := h \<rparr>)"
    "an_enc (m\<lparr> sb_header := h \<rparr>) = an_enc m" for h
    using assms by (simp_all add: an_ok_def an_enc_def)
  then have "emits (write_an (m\<lparr> sb_header := h \<rparr>)) (an_enc m)" for h
    using an_codec.wr_emits by metis
  then show "\<exists>b' m'. write_with_header (\<lambda>m. Inr an_SIZE) write_an m b = Inr (True, m', b') \<and> ba_ok b' \<and>
      ba_written b' = ba_written b @ map Some (sh_enc (sized_header an_SIZE (sb_header m)) @ an_enc m)"
    using write_with_header_emits[OF _ _ b, of "\<lambda>m. Inr an_SIZE" m an_SIZE write_an "an_enc m"] by blast
qed

text \<open>The control submessages, for which the codecs give the bytes.\<close>

fun control_ok :: "outgoing \<Rightarrow> bool" where
  "control_ok (OutAckNack m) = an_ok (submessage_base.truncate m) m"
| "control_ok (OutGap m) = gap_ok (submessage_base.truncate m) m"
| "control_ok (OutHeartbeat m) = hb_ok (submessage_base.truncate m) m"
| "control_ok _ = False"

fun control_bytes :: "outgoing \<Rightarrow> u8 list" where
  "control_bytes (OutAckNack m) = sh_enc (sized_header an_SIZE (sb_header m)) @ an_enc m"
| "control_bytes (OutGap m) = sh_enc (sized_header gap_SIZE (sb_header m)) @ gap_enc m"
| "control_bytes (OutHeartbeat m) = sh_enc (sized_header hb_SIZE (sb_header m)) @ hb_enc m"
| "control_bytes _ = []"

lemma control_emits:
  assumes "control_ok m"
  shows "out_emits m (control_bytes m)" "out_size m \<le> int (length (control_bytes m))"
proof -
  show "out_emits m (control_bytes m)"
    using assms out_emits_ack_nack out_emits_gap out_emits_heartbeat by (cases m) auto
  show "out_size m \<le> int (length (control_bytes m))"
    using assms
    by (cases m) (auto simp: an_ok_def gap_ok_def hb_ok_def an_enc_def gap_enc_def hb_enc_def an_SIZE_def
        gap_SIZE_def hb_SIZE_def sn_SIZE_def ei_enc_def ei_ok_def sns_enc_def sn_enc_length sh_enc_def)
qed

lemma emits_all_control: "\<forall>m \<in> set ss. control_ok m \<Longrightarrow> emits_all ss (map control_bytes ss)"
  by (auto simp: emits_all_def list_all2_map2 list_all2_same control_emits)

definition datagram_prefix :: "guid_prefix \<Rightarrow> u8 list" where
  "datagram_prefix g = 0 # mh_enc (mh_default\<lparr> mh_prefix := g \<rparr>)"

lemma write_datagram_prefix:
  assumes "gp_ok g" "ba_ok b"
  shows "\<exists>b'. rbind (write_de (de_new 0) b) (write_mh (mh_default\<lparr> mh_prefix := g \<rparr>)) = Inr b' \<and> ba_ok b' \<and>
    ba_written b' = ba_written b @ map Some (datagram_prefix g)"
proof -
  have "mh_ok (mh_default\<lparr> mh_prefix := g \<rparr>)" using mh_ok_default assms(1) by (simp add: mh_ok_def)
  then have "emits (wseq (write_de (de_new 0)) (write_mh (mh_default\<lparr> mh_prefix := g \<rparr>)))
      ([de_endian (de_new 0)] @ mh_enc (mh_default\<lparr> mh_prefix := g \<rparr>))"
    by (intro emits_wseq de_codec.wr_emits mh_codec.wr_emits) auto
  from emitsE[OF this assms(2)] show ?thesis
    by (metis wseq_def datagram_prefix_def append_Cons append_Nil de_new_def data_encapsulation.select_convs(1))
qed

lemma datagram_prefix_length: "gp_ok g \<Longrightarrow> length (datagram_prefix g) = 19"
  by (simp add: datagram_prefix_def mh_enc_def mh_default_def mh_new_def gp_ok_def vi_unknown_def)

lemma write_out_datagram_ok:
  assumes "ba_ok b" "0 < ba_position b" "ba_position b \<le> ms_datagram_size ms" "ms_datagram_size ms < 2147483648"
    and "ba_written b = map Some bs"
    and dev: "\<And>cs a q. dev cs a q = int (length cs)"
  defines "out \<equiv> map Some (bs @ pad_bytes (ms_datagram_size ms) (ba_position b))"
  shows "\<exists>b'. write_out_datagram ms dev l b ds = (Inr (RcOk, b'), ds @ [(out, loc_address l, loc_port l)])"
proof -
  obtain b1 where b1: "pad_out (ms_datagram_size ms) b = Inr b1" "ba_ok b1" "ba_written b1 = out"
    using pad_out_ok[OF assms(1,3,4)] assms(5) by (auto simp: out_def)
  have "0 < length bs" using ba_position_written[OF assms(1)] assms(2,5) by simp
  then have "out \<noteq> []" by (auto simp: out_def)
  then have "0 < ba_position b1" "ba_cells b1 \<noteq> []"
    using ba_position_written[OF b1(2)] b1(3) by (auto simp: ba_written_def)
  then show ?thesis using b1 length_ba_written[OF b1(2)]
    by (simp add: write_out_datagram_def io_bind_def io_of_def flush_to_def ba_flush_datagram_def
        ba_written_def dev)
qed

definition message_bytes :: "guid_prefix \<Rightarrow> u8 list list \<Rightarrow> u8 list" where
  "message_bytes g es = datagram_prefix g @ concat es"

lemma ba_new_sized:
  "0 < n \<Longrightarrow> \<exists>b. ba_new n = Inr b \<and> ba_ok b \<and> ba_written b = [] \<and> ba_position b = 0"
  by (auto simp: ba_new_def expand_array_def ba_null_def ba_ok_def ba_written_def ba_size_def)

lemma write_one_first:
  assumes b: "ba_ok b" "ba_position b = 0" "ba_written b = []" and m: "out_emits m bs"
    and fits: "out_size m \<le> ms_datagram_size ms" and g: "gp_ok g"
  shows "\<exists>b'. write_one ms dev l (mh_default\<lparr> mh_prefix := g \<rparr>) m b ds = (Inr b', ds) \<and> ba_ok b' \<and>
    ba_written b' = map Some (datagram_prefix g @ bs)"
proof -
  obtain b1 where b1: "rbind (write_de (de_new 0) b) (write_mh (mh_default\<lparr> mh_prefix := g \<rparr>)) = Inr b1"
    "ba_ok b1" "ba_written b1 = map Some (datagram_prefix g)"
    using write_datagram_prefix[OF g b(1)] b(3) by auto
  obtain b2 where "out_write m b1 = Inr (True, b2)" "ba_ok b2" "ba_written b2 = ba_written b1 @ map Some bs"
    using m b1(2) unfolding out_emits_def by blast
  then show ?thesis using b1 b(2) fits by (simp add: write_one_def io_bind_def io_of_def)
qed

lemma write_message_single:
  assumes ss: "emits_all ss es" "ss \<noteq> []" and g: "gp_ok (ms_prefix ms)"
    and size: "int (length (message_bytes (ms_prefix ms) es)) < ms_datagram_size ms"
      "ms_datagram_size ms < 2147483648"
    and dev: "\<And>cs a q. dev cs a q = int (length cs)"
  shows "write_message ms dev ss l ds = (Inr RcOk, ds @
    [(map Some (message_bytes (ms_prefix ms) es
        @ pad_bytes (ms_datagram_size ms) (int (length (message_bytes (ms_prefix ms) es)))),
      loc_address l, loc_port l)])"
proof -
  let ?n = "ms_datagram_size ms" let ?g = "ms_prefix ms" let ?hdr = "mh_default\<lparr> mh_prefix := ?g \<rparr>"
  obtain m rest where s: "ss = m # rest" using ss(2) by (cases ss) auto
  then obtain bs es' where e: "es = bs # es'" "out_emits m bs" "out_size m \<le> int (length bs)" "emits_all rest es'"
    using ss(1) unfolding emits_all_def s by (cases es) auto
  have len: "length (datagram_prefix ?g) = 19" by (rule datagram_prefix_length[OF g])
  have n: "0 < ?n" "wrap32 ?n = ?n" using size len
    by (auto simp: message_bytes_def intro!: wrap32_id) (simp add: in_int32_def)
  obtain b0 where b0: "ba_new ?n = Inr b0" "ba_ok b0" "ba_written b0 = []" "ba_position b0 = 0"
    using ba_new_sized[OF n(1)] by blast
  have fits: "out_size m \<le> ?n" using e(1,3) size(1) by (simp add: message_bytes_def)
  obtain b1 where b1: "write_one ms dev l ?hdr m b0 ds = (Inr b1, ds)" "ba_ok b1"
    "ba_written b1 = map Some (datagram_prefix ?g @ bs)"
    using write_one_first[OF b0(2,4,3) e(2) fits g] by blast
  have p1: "ba_position b1 = int (19 + length bs)" using ba_position_written[OF b1(2)] b1(3) len by simp
  obtain b2 where b2: "write_all ms dev l ?hdr rest b1 ds = (Inr b2, ds)" "ba_ok b2"
    "ba_written b2 = ba_written b1 @ map Some (concat es')"
    using write_all_fits[OF e(4) b1(2), of ms dev l ?hdr ds] p1 size(1) len
    by (auto simp: message_bytes_def e(1))
  have w2: "ba_written b2 = map Some (message_bytes ?g es)"
    using b1(3) b2(3) by (simp add: message_bytes_def e(1))
  then have p2: "ba_position b2 = int (length (message_bytes ?g es))"
    using ba_position_written[OF b2(2)] by simp
  have pos: "0 < ba_position b2" using len by (simp add: p2 message_bytes_def)
  obtain b3 where "write_out_datagram ms dev l b2 ds = (Inr (RcOk, b3), ds @
      [(map Some (message_bytes ?g es @ pad_bytes ?n (ba_position b2)), loc_address l, loc_port l)])"
    using write_out_datagram_ok[where ms = ms and dev = dev and l = l and ds = ds,
        OF b2(2) pos _ size(2) w2 dev] size(1) p2 by auto
  then show ?thesis using b0 b1 b2 p2 pos size(1)
    by (simp add: write_message_def io_catch_def Let_def s n(2)) (simp add: io_bind_def io_of_def)
qed

section \<open>Properties\<close>

text \<open>C7: A message of acknowledgement, GAP and heartbeat submessages that stays below the datagram size
  leaves as exactly one datagram: the encapsulation octet, the RTPS header, each submessage with its
  own header in order, and the padding up to the datagram size.\<close>

theorem message_is_one_datagram:
  assumes "ss \<noteq> []" "\<forall>m \<in> set ss. control_ok m" "gp_ok (ms_prefix ms)"
    and "int (length (message_bytes (ms_prefix ms) (map control_bytes ss))) < ms_datagram_size ms"
    and "ms_datagram_size ms < 2147483648" "\<forall>cs a q. dev cs a q = int (length cs)"
  shows "write_message ms dev ss l ds = (Inr RcOk, ds @
    [(map Some (message_bytes (ms_prefix ms) (map control_bytes ss)
        @ pad_bytes (ms_datagram_size ms) (int (length (message_bytes (ms_prefix ms) (map control_bytes ss))))),
      loc_address l, loc_port l)])"
  using assms(6) by (intro write_message_single emits_all_control assms) simp

theorem message_is_one_datagram_witness:
  "fst (write_message (ms_new gp_unknown 1500) (\<lambda>cs a q. int (length cs))
     [OutHeartbeat (hb_new\<lparr> hb_last := sn_of_value 9 \<rparr>)] loc_default []) = Inr RcOk"
proof -
  let ?m = "OutHeartbeat (hb_new\<lparr> hb_last := sn_of_value 9 \<rparr>)"
  have ok: "control_ok ?m"
    using sn_valid_representable[OF sn_of_value_valid[of 1]] sn_valid_representable[OF sn_of_value_valid[of 9]]
    by (simp add: hb_ok_def hb_new_def hb_of_base_def submessage_base.defs sb_of_kind_def sb_of_header_def
        in_int64_def in_int32_def count_default_def)
  have g: "gp_ok gp_unknown" by simp
  have "length (control_bytes ?m) = 48"
    using ok by (auto simp: sh_enc_def hb_enc_def hb_ok_def ei_ok_def ei_enc_def sn_enc_length)
  then have len: "int (length (message_bytes gp_unknown (map control_bytes [?m]))) = 67"
    using datagram_prefix_length[OF g] by (simp add: message_bytes_def)
  show ?thesis
    using message_is_one_datagram[of "[?m]" "ms_new gp_unknown 1500" "\<lambda>cs a q. int (length cs)" loc_default "[]"]
      ok g len by (simp add: ms_new_def)
qed

text \<open>For the missing numbers \<open>addGapMessages\<close> appends GAP submessages only, all with the default
  list: one for the first missing number, and one for every further number whose predecessors do not
  include it in the bitmap. The bitmap is kept relative to base 1 and is never copied into a GAP, so a
  number up to 256 behind the first is left out of all of them (\<open>gap_starts\<close>).\<close>

theorem gap_messages_drop_numbers:
  assumes "list_all gap_key missing"
  shows "\<exists>starts. add_gap_messages out missing writer = Inr (out @ map (\<lambda>s. OutGap (gap_message writer s)) starts)
    \<and> set starts \<subseteq> set missing
    \<and> (\<forall>s \<in> set missing. s \<in> set starts \<or> sn_get s \<le> 256)
    \<and> (missing \<noteq> [] \<longrightarrow> starts \<noteq> [] \<and> hd starts = hd missing)
    \<and> (\<forall>s \<in> set (tl starts). 256 < sn_get s)
    \<and> (\<forall>s. gap_list (gap_message writer s) = sns_new)"
proof -
  have "set (gap_starts missing) \<subseteq> set missing
      \<and> (\<forall>s \<in> set missing. s \<in> set (gap_starts missing) \<or> sn_get s \<le> 256)
      \<and> (\<forall>s \<in> set (tl (gap_starts missing)). 256 < sn_get s)"
    by (rule gap_starts_cover)
  moreover have "missing \<noteq> [] \<longrightarrow> gap_starts missing \<noteq> [] \<and> hd (gap_starts missing) = hd missing"
    by (cases missing) auto
  moreover have "gap_list (gap_message writer s) = sns_new" for s
    by (simp add: gap_message_def gap_new_def gap_of_base_def submessage_base.defs)
  ultimately show ?thesis
    using gap_rounds_starts[OF assms, of writer out] by (auto simp: add_gap_messages_def)
qed

theorem gap_messages_drop_numbers_witness:
  "\<exists>starts. add_gap_messages [] [sn_of_value 2, sn_of_value 5] ei_unknown
     = Inr (map (\<lambda>s. OutGap (gap_message ei_unknown s)) starts)
   \<and> sn_of_value 5 \<notin> set (tl starts) \<and> hd starts = sn_of_value 2"
proof -
  have "list_all gap_key [sn_of_value 2, sn_of_value 5]"
    by (simp add: gap_key_def sn_of_value_valid in_int64_def sn_get_of_value)
  from gap_messages_drop_numbers[OF this, of "[]" ei_unknown] show ?thesis
    using sn_get_of_value[of 5] by force
qed

end
