(* ===== verification/Timing.thy ===== *)
theory Timing
  imports Prelude
begin

text \<open>
  \<open>BaseLib/Duration\<close> and \<open>BaseLib/ElapsedTimer\<close>: a duration is a signed 64-bit count of
  nanoseconds; a timer holds its start, its interval and the lap total. The clock is an argument:
  \<open>now\<close> is the time \<open>Timestamp::Now()\<close> returns in the call. Signed overflow of a sum or difference
  of durations is undefined behaviour.
\<close>

definition int64_max :: int where "int64_max = 9223372036854775807"

definition dur_infinite :: int where "dur_infinite = int64_max"
definition dur_zero :: int where "dur_zero = 0"

text \<open>The factory functions multiply in 64 bits after a saturation test on the largest value.\<close>

definition dur_scaled :: "int \<Rightarrow> int \<Rightarrow> int res" where
  "dur_scaled unit n =
     (if int64_max \<le> n then Inr int64_max
      else if in_int64 (n * unit) then Inr (n * unit) else Inl UndefinedBehaviour)"

definition dur_of_microseconds :: "int \<Rightarrow> int res" where "dur_of_microseconds n = dur_scaled 1000 n"
definition dur_of_milliseconds :: "int \<Rightarrow> int res" where "dur_of_milliseconds n = dur_scaled 1000000 n"
definition dur_of_seconds :: "int \<Rightarrow> int res" where "dur_of_seconds n = dur_scaled 1000000000 n"
definition dur_of_minutes :: "int \<Rightarrow> int res" where "dur_of_minutes n = dur_scaled 60000000000 n"
definition dur_of_hours :: "int \<Rightarrow> int res" where "dur_of_hours n = dur_scaled 3600000000000 n"

text \<open>\<open>duration_cast\<close> truncates towards zero.\<close>

definition trunc_div :: "int \<Rightarrow> int \<Rightarrow> int" where
  "trunc_div x k = (if 0 \<le> x then x div k else - ((- x) div k))"

definition dur_in_millis :: "int \<Rightarrow> int" where "dur_in_millis d = trunc_div d 1000000"
definition dur_in_microsecs :: "int \<Rightarrow> int" where "dur_in_microsecs d = trunc_div d 1000"
definition dur_in_nanosecs :: "int \<Rightarrow> int" where "dur_in_nanosecs d = d"
definition dur_in_secs :: "int \<Rightarrow> int" where "dur_in_secs d = trunc_div d 1000000000"
definition dur_in_minutes :: "int \<Rightarrow> int" where "dur_in_minutes d = trunc_div d 60000000000"
definition dur_in_hours :: "int \<Rightarrow> int" where "dur_in_hours d = trunc_div d 3600000000000"

definition dur_is_infinite :: "int \<Rightarrow> bool" where
  "dur_is_infinite d = (int64_max \<le> dur_in_millis d)"

definition dur_add :: "int \<Rightarrow> int \<Rightarrow> int res" where
  "dur_add a b = (if in_int64 (a + b) then Inr (a + b) else Inl UndefinedBehaviour)"

definition dur_sub :: "int \<Rightarrow> int \<Rightarrow> int res" where
  "dur_sub a b = (if in_int64 (a - b) then Inr (a - b) else Inl UndefinedBehaviour)"

section \<open>ElapsedTimer\<close>

record elapsed_timer =
  et_start :: int
  et_interval :: int
  et_total :: int

definition et_new :: "int \<Rightarrow> int \<Rightarrow> elapsed_timer" where
  "et_new now interval = \<lparr> et_start = now, et_interval = interval, et_total = dur_zero \<rparr>"

definition et_new_millis :: "int \<Rightarrow> int \<Rightarrow> elapsed_timer res" where
  "et_new_millis now msecs = rbind (dur_of_milliseconds msecs) (\<lambda>d. Inr (et_new now d))"

definition et_start_with :: "int \<Rightarrow> int \<Rightarrow> elapsed_timer \<Rightarrow> elapsed_timer" where
  "et_start_with now interval t = t\<lparr> et_start := now, et_total := dur_zero, et_interval := interval \<rparr>"

definition et_restart :: "int \<Rightarrow> elapsed_timer \<Rightarrow> elapsed_timer" where
  "et_restart now t = et_start_with now (et_interval t) t"

definition et_elapsed :: "int \<Rightarrow> elapsed_timer \<Rightarrow> int res" where
  "et_elapsed now t = dur_sub now (et_start t)"

definition et_has_expired :: "int \<Rightarrow> elapsed_timer \<Rightarrow> bool res" where
  "et_has_expired now t =
     rbind (et_elapsed now t) (\<lambda>e. rbind (dur_add (et_interval t) (et_total t)) (\<lambda>lim. Inr (lim \<le> e)))"

definition et_check_and_update :: "int \<Rightarrow> elapsed_timer \<Rightarrow> (bool \<times> elapsed_timer) res" where
  "et_check_and_update now t =
     rbind (et_elapsed now t) (\<lambda>e. rbind (dur_add (et_interval t) (et_total t)) (\<lambda>lim.
       if lim \<le> e then Inr (True, t\<lparr> et_total := e \<rparr>) else Inr (False, t)))"

definition et_update :: "int \<Rightarrow> elapsed_timer \<Rightarrow> elapsed_timer res" where
  "et_update now t = rbind (et_check_and_update now t) (\<lambda>(expired, t'). Inr t')"

definition et_remaining :: "int \<Rightarrow> elapsed_timer \<Rightarrow> int res" where
  "et_remaining now t = rbind (et_elapsed now t) (\<lambda>e. dur_sub (et_interval t) e)"

section \<open>Facts\<close>

text \<open>The clock readings of one run: non-negative, and far from the end of the 64-bit range.\<close>

definition clock_ok :: "int \<Rightarrow> elapsed_timer \<Rightarrow> bool" where
  "clock_ok now t \<longleftrightarrow> 0 \<le> et_start t \<and> et_start t \<le> now \<and> now < int64_max
     \<and> 0 \<le> et_interval t \<and> 0 \<le> et_total t \<and> et_interval t + et_total t \<le> int64_max"

lemma et_elapsed_ok: "clock_ok now t \<Longrightarrow> et_elapsed now t = Inr (now - et_start t)"
  by (auto simp: clock_ok_def et_elapsed_def dur_sub_def in_int64_def int64_max_def)

lemma et_has_expired_ok:
  "clock_ok now t \<Longrightarrow> et_has_expired now t = Inr (et_interval t + et_total t \<le> now - et_start t)"
  using et_elapsed_ok[of now t]
  by (auto simp: et_has_expired_def dur_add_def clock_ok_def in_int64_def int64_max_def)

lemma et_remaining_ok:
  assumes "clock_ok now t" shows "et_remaining now t = Inr (et_interval t - (now - et_start t))"
proof -
  have "in_int64 (et_interval t - (now - et_start t))"
    using assms by (auto simp: clock_ok_def in_int64_def int64_max_def)
  then show ?thesis using et_elapsed_ok[OF assms] by (simp add: et_remaining_def dur_sub_def)
qed

lemma et_check_and_update_ok:
  assumes "clock_ok now t"
  shows "et_check_and_update now t =
    (if et_interval t + et_total t \<le> now - et_start t
     then Inr (True, t\<lparr> et_total := now - et_start t \<rparr>) else Inr (False, t))"
  using et_elapsed_ok[OF assms] assms
  by (auto simp: et_check_and_update_def dur_add_def clock_ok_def in_int64_def int64_max_def)

lemma infinite_timer_never_expires:
  assumes "et_interval t = dur_infinite" "clock_ok now t"
  shows "et_has_expired now t = Inr False"
  using assms et_has_expired_ok[OF assms(2)]
  by (auto simp: clock_ok_def dur_infinite_def int64_max_def)

text \<open>
  The millisecond count of the largest duration is below the largest 64-bit value, so no duration
  is infinite in the sense of \<open>IsInfinite\<close>.
\<close>

lemma dur_is_infinite_never:
  assumes "in_int64 d" shows "\<not> dur_is_infinite d"
proof -
  have "(- d) div 1000000 \<ge> - 9223372036855" "d div 1000000 \<le> 9223372036855"
    using assms by (auto simp: in_int64_def)
  then show ?thesis by (auto simp: dur_is_infinite_def dur_in_millis_def trunc_div_def int64_max_def)
qed

text \<open>A timer that was started at or before \<open>now\<close>.\<close>

definition timer_ready :: "int \<Rightarrow> elapsed_timer \<Rightarrow> bool" where
  "timer_ready now t \<longleftrightarrow> 0 \<le> et_start t \<and> et_start t \<le> now \<and> 0 \<le> et_interval t \<and> 0 \<le> et_total t
     \<and> et_interval t + et_total t \<le> int64_max"

lemma timer_ready_mono: "timer_ready now t \<Longrightarrow> now \<le> now' \<Longrightarrow> timer_ready now' t"
  by (simp add: timer_ready_def)

lemma timer_ready_clock: "timer_ready now t \<Longrightarrow> now \<le> n \<Longrightarrow> n < int64_max \<Longrightarrow> clock_ok n t"
  by (auto simp: timer_ready_def clock_ok_def)

text \<open>Restarting a timer that has more time left than \<open>d\<close>: then it runs out within \<open>d\<close>.\<close>

lemma timer_sooner:
  assumes "timer_ready now t" "now \<le> n1" "n1 \<le> n2" "n2 < int64_max" "0 \<le> d" "d \<le> int64_max"
  defines "t' \<equiv> if d < et_interval t - (n1 - et_start t) then et_start_with n2 d t else t"
  shows "et_remaining n1 t = Inr (et_interval t - (n1 - et_start t))"
    and "timer_ready n2 t'" and "et_start t' + et_interval t' \<le> n2 + d"
  using assms et_remaining_ok[OF timer_ready_clock[OF assms(1,2)]]
  by (auto simp: timer_ready_def et_start_with_def dur_zero_def)

section \<open>Properties\<close>

text \<open>A timer with the default interval never expires, and no duration is infinite in the sense of
  \<open>IsInfinite\<close>, which compares a count of milliseconds with the largest count of nanoseconds.\<close>

theorem infinite_duration:
  assumes "clock_ok now t" "in_int64 d"
  shows "et_has_expired now (t\<lparr> et_interval := dur_infinite, et_total := 0 \<rparr>) = Inr False
    \<and> \<not> dur_is_infinite d \<and> \<not> dur_is_infinite dur_infinite"
proof -
  let ?t = "t\<lparr> et_interval := dur_infinite, et_total := 0 \<rparr>"
  have "clock_ok now ?t" using assms(1) by (simp add: clock_ok_def dur_infinite_def int64_max_def)
  then show ?thesis
    using infinite_timer_never_expires[of ?t now] dur_is_infinite_never[OF assms(2)]
      dur_is_infinite_never[of dur_infinite]
    by (simp add: in_int64_def dur_infinite_def int64_max_def)
qed

theorem infinite_duration_witness: "\<not> dur_is_infinite 1000000000"
  using infinite_duration[of 0 "et_new 0 0" 1000000000]
  by (simp add: clock_ok_def et_new_def dur_zero_def int64_max_def in_int64_def)

text \<open>\<open>CheckHasExpiredAndUpdate\<close> starts a new lap when it reports expiry: a later call reports expiry
  exactly when a whole interval has passed since the call that did.\<close>

theorem lap_after_expiry:
  assumes "clock_ok now t" "et_check_and_update now t = Inr (True, t')"
    and "now \<le> now'" "now' < int64_max" "et_interval t + now \<le> int64_max"
  shows "\<exists>t''. et_check_and_update now' t' = Inr (et_interval t \<le> now' - now, t'')
    \<and> et_has_expired now' t' = Inr (et_interval t \<le> now' - now)"
proof -
  have t': "t' = t\<lparr> et_total := now - et_start t \<rparr>"
    using assms(2) et_check_and_update_ok[OF assms(1)] by (auto split: if_splits)
  have ok: "clock_ok now' t'" using assms(1,3,4,5) by (auto simp: t' clock_ok_def)
  show ?thesis
    using et_check_and_update_ok[OF ok] et_has_expired_ok[OF ok] by (auto simp: t' algebra_simps)
qed

theorem lap_after_expiry_witness:
  "\<exists>t''. et_check_and_update 15 (\<lparr> et_start = 0, et_interval = 10, et_total = 12 \<rparr>) = Inr (False, t'')"
proof -
  have ok: "clock_ok 12 (et_new 0 10)"
    by (simp add: clock_ok_def et_new_def dur_zero_def int64_max_def)
  have "et_check_and_update 12 (et_new 0 10) = Inr (True, \<lparr> et_start = 0, et_interval = 10, et_total = 12 \<rparr>)"
    using et_check_and_update_ok[OF ok] by (simp add: et_new_def dur_zero_def)
  from lap_after_expiry[OF ok this, of 15] show ?thesis by (simp add: et_new_def int64_max_def)
qed

end
