(* ===== verification/Rtps_Writer.thy ===== *)
theory Rtps_Writer
  imports Message_Sender Timing
begin

text \<open>
  \<open>RTPS/Structure/RtpsWriter\<close> with the endpoint attributes it inherits: the history cache, the last
  sequence number handed out, the guard condition that announces a new change, the timing values in
  nanoseconds, and the message sender the virtual machine sets.
\<close>

record rtps_writer =
  w_guid :: guid
  w_reliability :: reliability_kind
  w_unicast :: "locator list"
  w_multicast :: "locator list"
  w_new_change_trigger :: bool
  w_heartbeat_period :: int
  w_nack_response_delay :: int
  w_nack_suppression :: int
  w_last_sn :: sequence_number
  w_push_mode :: bool
  w_cache :: data_cache
  w_sender :: "message_sender option"

definition w_new :: "guid \<Rightarrow> reliability_kind \<Rightarrow> rtps_writer" where
  "w_new g rel =
     \<lparr> w_guid = g, w_reliability = rel, w_unicast = [], w_multicast = [], w_new_change_trigger = False,
       w_heartbeat_period = 5000000000, w_nack_response_delay = 200000000, w_nack_suppression = 0,
       w_last_sn = sn_of_value 0, w_push_mode = True, w_cache = cache_new, w_sender = None \<rparr>"

definition w_entity :: "'a rtps_writer_scheme \<Rightarrow> entity_id" where
  "w_entity w = guid_entity (w_guid w)"

definition set_message_sender :: "message_sender option \<Rightarrow> 'a rtps_writer_scheme \<Rightarrow> 'a rtps_writer_scheme" where
  "set_message_sender ms w = w\<lparr> w_sender := ms \<rparr>"

text \<open>The part of \<open>NewChange\<close> the base class and the stateful writer share: number, change, cache.\<close>

definition store_change ::
  "change_kind \<Rightarrow> rtps_data option \<Rightarrow> int \<Rightarrow> 'a rtps_writer_scheme
     \<Rightarrow> (cache_change \<times> 'a rtps_writer_scheme) res" where
  "store_change kind data handle w =
     (let s = w_last_sn w; c = cc_new kind (w_guid w) s data handle in
      asserting (cc_is_valid c)
        (rbind (add_change c (w_cache w)) (\<lambda>cache. Inr (c, w\<lparr> w_cache := cache \<rparr>))))"

definition rtps_new_change ::
  "change_kind \<Rightarrow> rtps_data option \<Rightarrow> int \<Rightarrow> 'a rtps_writer_scheme
     \<Rightarrow> (cache_change \<times> 'a rtps_writer_scheme) res" where
  "rtps_new_change kind data handle w =
     (let s = sn_inc (w_last_sn w);
          data' = map_option (\<lambda>d. d\<lparr> d_sn := s, d_writer := w_entity w,
                     sb_source_prefix := guid_prefix_of (w_guid w) \<rparr>) data
      in rbind (store_change kind data' handle (w\<lparr> w_last_sn := s \<rparr>))
           (\<lambda>(c, w'). Inr (c, w'\<lparr> w_new_change_trigger := True \<rparr>)))"

section \<open>The cache and the numbers handed out\<close>

text \<open>The numbers in use stay in one window of the order, and none in the cache exceeds the last one.\<close>

definition numbers_ok :: "sequence_number \<Rightarrow> data_cache \<Rightarrow> bool" where
  "numbers_ok s cache \<longleftrightarrow> s \<in> sn_window 0 \<and> cache_ok 0 cache \<and>
     (\<forall>k \<in> fst ` set cache. sn_get k \<le> sn_get s)"

definition can_count :: "sequence_number \<Rightarrow> bool" where
  "can_count s \<longleftrightarrow> sn_inc s \<in> sn_window 0"

lemma numbers_ok_fresh:
  assumes "numbers_ok s cache" shows "sn_inc s \<notin> fst ` set cache"
proof
  assume "sn_inc s \<in> fst ` set cache"
  then have "sn_get (sn_inc s) \<le> sn_get s" using assms by (auto simp: numbers_ok_def)
  moreover have "sn_get (sn_inc s) = sn_get s + 1"
    using assms sn_get_inc sn_window_valid sn_window_not_max by (auto simp: numbers_ok_def)
  ultimately show False by simp
qed

lemma store_change_ok:
  fixes w :: "'a rtps_writer_scheme" and kind :: change_kind and data :: "rtps_data option" and handle :: int
  assumes ok: "numbers_ok s (w_cache w)" and can: "can_count s" and here: "w_last_sn w = sn_inc s"
    and guid: "w_guid w \<noteq> guid_unknown"
  defines "c \<equiv> cc_new kind (w_guid w) (sn_inc s) data handle"
  defines "cache \<equiv> om_insert sn_less (sn_inc s) c (w_cache w)"
  shows "store_change kind data handle w = Inr (c, w\<lparr> w_cache := cache \<rparr>)"
    and "numbers_ok (sn_inc s) cache" and "map_of cache = (map_of (w_cache w))(sn_inc s \<mapsto> c)"
proof -
  have win: "sn_inc s \<in> sn_window 0" using can by (simp add: can_count_def)
  have cok: "cache_ok 0 (w_cache w)" and c: "cc_sn c = sn_inc s"
    using ok by (simp_all add: numbers_ok_def c_def cc_new_def)
  note add = add_change_fresh[OF cok, of c, unfolded c, OF win numbers_ok_fresh[OF ok], folded cache_def]
  have valid: "cc_is_valid c"
    using guid sn_valid_known[OF sn_window_valid[OF win]]
    by (auto simp: cc_is_valid_def c_def cc_new_def d_is_valid_def split: option.splits)
  then show "store_change kind data handle w = Inr (c, w\<lparr> w_cache := cache \<rparr>)"
    using add(1) here by (simp add: store_change_def c_def Let_def)
  show map: "map_of cache = (map_of (w_cache w))(sn_inc s \<mapsto> c)" by (rule add(3))
  have inc: "sn_get (sn_inc s) = sn_get s + 1"
    using ok sn_get_inc sn_window_valid sn_window_not_max by (auto simp: numbers_ok_def)
  have "fst ` set cache = insert (sn_inc s) (fst ` set (w_cache w))"
    using arg_cong[OF map, of dom] by (simp add: dom_map_of_conv_image_fst)
  then show "numbers_ok (sn_inc s) cache"
    using ok win add(2) inc by (auto simp: numbers_ok_def)
qed

lemma numbers_ok_new: "numbers_ok (w_last_sn (w_new g rel)) (w_cache (w_new g rel))"
proof -
  have "sn_of_value 0 = sn_of_value 1" by (simp add: sn_of_value_def)
  then show ?thesis using sn_of_value_low_window[of 1] cache_ok_new
    by (simp add: numbers_ok_def w_new_def cache_new_def)
qed

end
