(* ===== verification/Message_Receiver.thy ===== *)
theory Message_Receiver
  imports Data_Submessages Info_Submessages
begin

text \<open>
  \<open>RTPS/Machine/RtpsMessageReceiver\<close>: the parser of a datagram. The receiver keeps the source and
  destination context, the offset of the next submessage header and the submessages parsed so far,
  across datagrams. An exception is caught by \<open>ParseDatagram\<close>, which keeps the state reached, so
  the loop returns the state together with how it ended; every other fault stops the program. The
  loop carries fuel; each round consumes at least the four octets of a header, so as many rounds as
  unread octets plus one are enough.
\<close>

datatype submessage =
    SubAckNack rtps_ack_nack | SubData rtps_data | SubDataFrag rtps_data_frag | SubGap rtps_gap
  | SubHeartbeat rtps_heartbeat | SubHeartbeatFrag rtps_heartbeat_frag | SubNackFrag rtps_nack_frag

record receiver =
  rc_source_version :: protocol_version
  rc_source_vendor :: vendor_id
  rc_source_prefix :: guid_prefix
  rc_dest_prefix :: guid_prefix
  rc_unicast :: "locator list"
  rc_multicast :: "locator list"
  rc_have_timestamp :: bool
  rc_timestamp :: timestamp
  rc_verify :: bool
  rc_next :: int
  rc_list :: "submessage list"

definition rc_new :: "guid_prefix \<Rightarrow> bool \<Rightarrow> receiver" where
  "rc_new dest verify =
     \<lparr> rc_source_version = pv_default, rc_source_vendor = vi_unknown, rc_source_prefix = gp_unknown,
       rc_dest_prefix = dest, rc_unicast = [], rc_multicast = [], rc_have_timestamp = False,
       rc_timestamp = ts_invalid, rc_verify = verify, rc_next = 0, rc_list = [] \<rparr>"

definition reset_state :: "guid_prefix \<Rightarrow> receiver \<Rightarrow> receiver" where
  "reset_state dest rc =
     rc\<lparr> rc_source_version := pv_default, rc_source_vendor := vi_unknown, rc_source_prefix := gp_unknown,
         rc_dest_prefix := dest, rc_have_timestamp := False, rc_timestamp := ts_invalid, rc_list := [] \<rparr>"

definition initialize_receiver :: "message_header \<Rightarrow> receiver \<Rightarrow> receiver" where
  "initialize_receiver h rc =
     rc\<lparr> rc_source_version := mh_version h, rc_source_vendor := mh_vendor h,
         rc_source_prefix := mh_prefix h, rc_have_timestamp := False \<rparr>"

definition get_message_header :: "message_header reader" where
  "get_message_header = read_mh mh_default"

definition get_submessage_header :: "receiver \<Rightarrow> (submessage_header \<times> int) reader" where
  "get_submessage_header rc r =
     (let start = ib_position r in
      rthen read_sh (\<lambda>h r'.
        let stop = start + sh_SIZE; nxt = stop + sh_length h in
        if rc_verify rc then
          if sh_length h mod 4 \<noteq> 0 then Inl ExceptionThrown
          else if sh_length h \<le> 0 then Inl ExceptionThrown
          else if ib_size r' < nxt then Inl ExceptionThrown
          else Inr ((h, nxt), r')
        else Inr ((h, nxt), r')) r)"

text \<open>\<open>SetSrcGuidPrefix\<close> and \<open>SetTimestamp\<close> on a submessage just read.\<close>

definition stamp :: "receiver \<Rightarrow> 'a submessage_base_scheme \<Rightarrow> 'a submessage_base_scheme" where
  "stamp rc m =
     (let m' = m\<lparr> sb_source_prefix := rc_source_prefix rc \<rparr>
      in if rc_timestamp rc \<noteq> ts_invalid then m'\<lparr> sb_timestamp := rc_timestamp rc \<rparr> else m')"

text \<open>The members of a data submessage left uninitialised here are overwritten by \<open>Read\<close>.\<close>

definition get_entity_submessage ::
  "receiver \<Rightarrow> submessage_header \<Rightarrow> submessage option reader" where
  "get_entity_submessage rc h r =
     (case sh_kind h of
        AckNack \<Rightarrow> rbind (an_of_header h) (\<lambda>m. rthen (read_an m) (\<lambda>m'. rret (Some (SubAckNack (stamp rc m')))) r)
      | Data \<Rightarrow> rbind (d_of_header 0 h) (\<lambda>m. rthen (read_d m) (\<lambda>m'. rret (Some (SubData (stamp rc m')))) r)
      | DataFrag \<Rightarrow> rbind (df_of_header 0 0 0 0 h)
          (\<lambda>m. rthen (read_df m) (\<lambda>m'. rret (Some (SubDataFrag (stamp rc m')))) r)
      | Gap \<Rightarrow> rbind (gap_of_header h) (\<lambda>m. rthen (read_gap m) (\<lambda>m'. rret (Some (SubGap (stamp rc m')))) r)
      | Heartbeat \<Rightarrow> rbind (hb_of_header h)
          (\<lambda>m. rthen (read_hb m) (\<lambda>m'. rret (Some (SubHeartbeat (stamp rc m')))) r)
      | HeartbeatFrag \<Rightarrow> rbind (hf_of_header h)
          (\<lambda>m. rthen (read_hf m) (\<lambda>m'. rret (Some (SubHeartbeatFrag (stamp rc m')))) r)
      | NackFrag \<Rightarrow> rbind (nf_of_header h)
          (\<lambda>m. rthen (read_nf m) (\<lambda>m'. rret (Some (SubNackFrag (stamp rc m')))) r)
      | _ \<Rightarrow> Inr (None, r))"

definition get_interpreter_submessage :: "receiver \<Rightarrow> submessage_header \<Rightarrow> receiver reader" where
  "get_interpreter_submessage rc h r =
     (case sh_kind h of
        InfoDst \<Rightarrow> rbind (id_of_header h) (\<lambda>m. rthen (read_id m) (\<lambda>m'.
          rret (if id_prefix m' \<noteq> gp_unknown then rc\<lparr> rc_dest_prefix := id_prefix m' \<rparr> else rc)) r)
      | InfoSrc \<Rightarrow> rbind (is_of_header h) (\<lambda>m. rthen (read_is m) (\<lambda>m'.
          rret (rc\<lparr> rc_source_prefix := sb_source_prefix m', rc_source_version := is_version m',
                    rc_source_vendor := is_vendor m', rc_unicast := [], rc_multicast := [],
                    rc_have_timestamp := False \<rparr>)) r)
      | InfoReply \<Rightarrow> rbind (ir_of_header h) (\<lambda>m. rthen (read_ir m) (\<lambda>m'.
          rret (let rc' = rc\<lparr> rc_unicast := ir_unicast m' \<rparr>
                in if ir_has_multicast_flag m' then rc'\<lparr> rc_multicast := ir_multicast m' \<rparr> else rc')) r)
      | InfoReplyIp4 \<Rightarrow> Inr (rc, r)
      | InfoTs \<Rightarrow> rbind (it_of_header h) (\<lambda>m. rthen (read_it m) (\<lambda>m' r'.
          if \<not> it_has_invalidate_flag m'
          then asserting (it_timestamp m' \<noteq> ts_invalid)
                 (Inr (rc\<lparr> rc_have_timestamp := True, rc_timestamp := it_timestamp m' \<rparr>, r'))
          else Inr (rc\<lparr> rc_have_timestamp := False \<rparr>, r')) r)
      | Pad \<Rightarrow> rbind (pad_of_header h) (\<lambda>m. rthen (read_pad m) (\<lambda>m'. rret rc) r)
      | _ \<Rightarrow> Inr (rc, r))"

definition get_submessage :: "receiver \<Rightarrow> submessage_header \<Rightarrow> (receiver \<times> submessage option) reader" where
  "get_submessage rc h =
     (if sh_kind h \<in> {AckNack, Data, DataFrag, Gap, Heartbeat, HeartbeatFrag, NackFrag}
      then rthen (get_entity_submessage rc h) (\<lambda>s. rret (rc, s))
      else if sh_kind h \<in> {InfoDst, InfoReply, InfoReplyIp4, InfoSrc, InfoTs, Pad}
      then rthen (get_interpreter_submessage rc h) (\<lambda>rc'. rret (rc', None))
      else rret (rc, None))"

text \<open>How the loop ends: normally, by the fail-safe \<open>break\<close> (also normal), or by a fault.\<close>

datatype parse_end = ParseDone | ParseFault fault

fun parse_loop :: "nat \<Rightarrow> int \<Rightarrow> receiver \<Rightarrow> in_byte_array \<Rightarrow> (receiver \<times> parse_end) option" where
  "parse_loop 0 prev rc r = None"
| "parse_loop (Suc fuel) prev rc r =
     (if \<not> rc_next rc < ib_size r then Some (rc, ParseDone)
      else case get_submessage_header rc r of
          Inl e \<Rightarrow> Some (rc, ParseFault e)
        | Inr ((h, nxt), r1) \<Rightarrow>
            let rc1 = rc\<lparr> rc_next := nxt \<rparr> in
            if prev = nxt then Some (rc1, ParseDone)
            else case get_submessage rc1 h r1 of
                Inl e \<Rightarrow> Some (rc1, ParseFault e)
              | Inr ((rc2, s), r2) \<Rightarrow>
                  let rc3 = (case s of None \<Rightarrow> rc2 | Some m \<Rightarrow> rc2\<lparr> rc_list := rc_list rc2 @ [m] \<rparr>)
                  in parse_loop fuel nxt rc3 r2)"

definition parse_fuel :: "in_byte_array \<Rightarrow> nat" where
  "parse_fuel r = Suc (nat (ib_size r - ib_position r))"

text \<open>\<open>ParseDatagram\<close>: an exception makes the result false, any other fault is not caught.\<close>

definition finish_parse :: "(receiver \<times> parse_end) option \<Rightarrow> (bool \<times> receiver) res option" where
  "finish_parse out =
     (case out of
        None \<Rightarrow> None
      | Some (rc, ParseDone) \<Rightarrow> Some (Inr (True, rc))
      | Some (rc, ParseFault e) \<Rightarrow> Some (if e = ExceptionThrown then Inr (False, rc) else Inl e))"

definition parse_datagram ::
  "guid_prefix \<Rightarrow> receiver \<Rightarrow> in_byte_array \<Rightarrow> (bool \<times> receiver) res option" where
  "parse_datagram dest rc r =
     (if \<not> 0 < ib_size r then Some (Inl AssertFailed)
      else
        let rc0 = reset_state dest rc in
        case get_message_header r of
          Inl e \<Rightarrow> finish_parse (Some (rc0, ParseFault e))
        | Inr (h, r1) \<Rightarrow>
            let rc1 = initialize_receiver h rc0
            in finish_parse (parse_loop (parse_fuel r1) (rc_next rc1) rc1 r1))"

section \<open>Progress\<close>

definition advances :: "'a reader \<Rightarrow> bool" where
  "advances f \<longleftrightarrow> (\<forall>r x r'. f r = Inr (x, r') \<longrightarrow> ib_data r' = ib_data r \<and> ib_position r \<le> ib_position r')"

lemma advancesD:
  "advances f \<Longrightarrow> f r = Inr (x, r') \<Longrightarrow> ib_data r' = ib_data r \<and> ib_position r \<le> ib_position r'"
  by (simp add: advances_def)

named_theorems advances_intros "readers that only move forward"

lemma advances_rret [advances_intros]: "advances (rret x)"
  by (auto simp: advances_def rret_def)

lemma advances_fail [advances_intros]: "advances (\<lambda>r. Inl e)"
  by (simp add: advances_def)

lemma advances_Inr [advances_intros]: "advances (\<lambda>r. Inr (x, r))"
  by (simp add: advances_def)

lemma advances_rthen [advances_intros]: "advances f \<Longrightarrow> (\<And>x. advances (g x)) \<Longrightarrow> advances (rthen f g)"
  unfolding advances_def rthen_def by (fastforce simp: res_simps)

lemma advances_if [advances_intros]:
  "advances f \<Longrightarrow> advances g \<Longrightarrow> advances (if c then f else g)"
  "advances f \<Longrightarrow> advances g \<Longrightarrow> advances (\<lambda>r. if c then f r else g r)"
  by (auto simp: advances_def)

lemma advances_asserting [advances_intros]: "advances f \<Longrightarrow> advances (\<lambda>r. asserting c (f r))"
  by (auto simp: advances_def res_simps)

lemma advances_rbind [advances_intros]: "(\<And>x. advances (f x)) \<Longrightarrow> advances (\<lambda>r. rbind m (\<lambda>x. f x r))"
  by (cases m) (auto simp: advances_def)

lemma advances_repeat_read [advances_intros]: "advances f \<Longrightarrow> advances (repeat_read n f)"
  by (induction n) (auto intro!: advances_intros)

lemma advances_read_data: "advances (read_data n)"
  by (auto simp: advances_def read_data_def res_simps split: if_splits)

lemma advances_ints [advances_intros]:
  "advances get_int8" "advances get_int16" "advances get_int32" "advances get_int64"
  "advances (get_bytes n)"
  using advances_read_data
  by (fastforce simp: advances_def get_int8_def get_int16_def get_int32_def get_int64_def
      ib_read_int8_def ib_read_int16_def ib_read_int32_def ib_read_int64_def get_bytes_def res_simps)+

lemma advances_read_octets [advances_intros]: "advances (read_octets n old)"
  unfolding read_octets_def by (intro advances_intros)

lemma advances_read_string [advances_intros]: "advances ib_read_string"
proof -
  have eq: "ib_read_string = rthen get_int32 (\<lambda>n. if n \<le> 0 then rret []
      else rthen (get_bytes n) (\<lambda>bs. rret (takeWhile (\<lambda>c. c \<noteq> 0) bs)))"
    by (auto simp: fun_eq_iff ib_read_string_def rthen_def get_int32_def get_bytes_def rret_def
        intro!: rbind_cong split: prod.splits)
  show ?thesis unfolding eq by (intro advances_intros)
qed

lemma advances_read_par_value [advances_intros]: "advances (read_par_value n i v)"
proof (induction n i v rule: read_par_value.induct)
  case (2 n i v)
  then show ?case by (cases "i < length v") (auto intro!: advances_intros)
qed (simp add: advances_rret)

lemma advances_read_par_loop: "advances (read_par_loop n acc)"
proof (induction n arbitrary: acc)
  case (Suc n)
  then show ?case unfolding read_par_loop.simps read_par_def by (intro advances_intros Suc.IH)
qed (simp add: advances_rret)

lemma advances_elements [advances_intros]:
  "advances (read_gp g)" "advances (read_ei e)" "advances (read_vi v)" "advances read_pv"
  "advances read_sn" "advances (read_sns s)" "advances read_count" "advances read_ts"
  "advances (read_locator_list ls)" "advances read_fns" "advances read_fragment_number"
  "advances (read_par_list ps)" "advances read_sh"
  unfolding read_gp_def read_ei_def read_vi_def read_pv_def read_sn_def read_sns_def read_count_def
    read_ts_def read_locator_list_def read_locator_def read_fns_def read_fragment_number_def
    read_par_list_def read_sh_def Let_def
  by (intro advances_intros advances_read_par_loop)+

lemma advances_read_sp [advances_intros]: "advances (read_sp p)"
  using read_sp_no_result by (metis advances_def)

lemma advances_submessages [advances_intros]:
  "advances (read_an m1)" "advances (read_gap m2)" "advances (read_hb m3)" "advances (read_hf m4)"
  "advances (read_nf m5)" "advances (read_id m6)" "advances (read_is m7)" "advances (read_ir m8)"
  "advances (read_it m9)" "advances (read_pad m10)" "advances (read_d m11)" "advances (read_df m12)"
  unfolding read_an_def read_gap_def read_hb_def read_hf_def read_nf_def read_id_def read_is_def
    read_ir_def read_it_def read_pad_def read_d_def read_df_def
  by (intro advances_intros)+

lemma advances_get_entity: "advances (get_entity_submessage rc h)"
  unfolding get_entity_submessage_def
  by (cases "sh_kind h") (simp_all add: advances_rbind advances_rthen advances_rret advances_submessages advances_Inr)

lemma advances_get_interpreter: "advances (get_interpreter_submessage rc h)"
  unfolding get_interpreter_submessage_def
  by (cases "sh_kind h")
    (simp_all add: advances_rbind advances_rthen advances_rret advances_submessages advances_Inr
      advances_if advances_asserting)

lemma advances_get_submessage: "advances (get_submessage rc h)"
  unfolding get_submessage_def
  by (intro advances_intros advances_get_entity advances_get_interpreter)

lemma get_submessage_header_progress:
  assumes "get_submessage_header rc r = Inr (x, r1)"
  shows "ib_data r1 = ib_data r" "ib_position r < ib_position r1" "0 < ib_size r - ib_position r"
proof -
  have "\<exists>k ra h. get_int8 r = Inr (k, ra) \<and> rthen get_int8 (\<lambda>f. rthen get_int16 (\<lambda>l.
      rret (sh_new (kind_of_code (sint k)) (uint16 l) f))) ra = Inr (h, r1)"
    using assms by (auto simp: get_submessage_header_def read_sh_def rthen_def res_simps Let_def
        split: if_splits prod.splits)
  then obtain k ra h where k: "get_int8 r = Inr (k, ra)" and
    "rthen get_int8 (\<lambda>f. rthen get_int16 (\<lambda>l. rret (sh_new (kind_of_code (sint k)) (uint16 l) f))) ra
      = Inr (h, r1)" by blast
  moreover have adv: "advances (rthen get_int8 (\<lambda>f. rthen get_int16 (\<lambda>l.
      rret (sh_new (kind_of_code (sint k)) (uint16 l) f))))"
    by (intro advances_intros)
  ultimately have "ib_data r1 = ib_data ra \<and> ib_position ra \<le> ib_position r1" using advancesD[OF adv] by blast
  moreover have "ib_data ra = ib_data r \<and> ib_position ra = ib_position r + 1 \<and> 1 \<le> ib_size r - ib_position r"
    using k by (auto simp: get_int8_def ib_read_int8_def read_data_def res_simps split: if_splits)
  ultimately show "ib_data r1 = ib_data r" "ib_position r < ib_position r1" "0 < ib_size r - ib_position r"
    by auto
qed

lemma parse_loop_enough_fuel:
  "nat (ib_size r - ib_position r) < fuel \<Longrightarrow> parse_loop fuel prev rc r \<noteq> None"
proof (induction fuel arbitrary: prev rc r)
  case (Suc fuel)
  show ?case
  proof (cases "rc_next rc < ib_size r")
    case True
    show ?thesis
    proof (cases "get_submessage_header rc r")
      case (Inr x)
      obtain h nxt r1 where x: "x = ((h, nxt), r1)" by (metis surj_pair)
      note prog = get_submessage_header_progress[OF Inr[unfolded x]]
      show ?thesis
      proof (cases "get_submessage (rc\<lparr> rc_next := nxt \<rparr>) h r1")
        case res: (Inr y)
        obtain rc2 s2 r2 where y: "y = ((rc2, s2), r2)" by (metis surj_pair)
        have "ib_data r2 = ib_data r1 \<and> ib_position r1 \<le> ib_position r2"
          using advancesD[OF advances_get_submessage res[unfolded y]] .
        then have "nat (ib_size r2 - ib_position r2) < fuel"
          using prog Suc.prems by (auto simp: ib_size_def)
        then show ?thesis using True Inr res Suc.IH by (simp add: x y Let_def)
      qed (use True Inr in \<open>simp add: x Let_def\<close>)
    qed (use True in simp)
  qed simp
qed simp

lemma parse_datagram_terminates: "parse_datagram dest rc r \<noteq> None"
proof -
  have fuel: "parse_loop (parse_fuel r1) prev rc1 r1 \<noteq> None" for r1 prev rc1
    by (rule parse_loop_enough_fuel) (simp add: parse_fuel_def)
  have "finish_parse out \<noteq> None" if "out \<noteq> None" for out
    using that by (auto simp: finish_parse_def split: parse_end.splits)
  then show ?thesis using fuel
    by (auto simp: parse_datagram_def Let_def split: sum.splits)
qed

section \<open>Properties\<close>


text \<open>\<open>ResetState\<close> keeps the position of the next submessage, so a receiver that has parsed a
  datagram up to position \<open>n\<close> accepts every later datagram of at most \<open>n\<close> octets with a readable
  header as parsed, without reading a single submessage of it.\<close>

theorem stale_position_drops_datagram:
  assumes "get_message_header r = Inr (h, r1)" "0 < ib_size r" "ib_size r \<le> rc_next rc"
  shows "\<exists>rc'. parse_datagram dest rc r = Some (Inr (True, rc')) \<and> rc_list rc' = []
    \<and> rc_next rc' = rc_next rc"
proof -
  have "advances get_message_header"
    unfolding get_message_header_def read_mh_def by (intro advances_intros)
  from advancesD[OF this assms(1)] have "ib_size r1 = ib_size r" by (simp add: ib_size_def)
  then show ?thesis using assms
    by (simp add: parse_datagram_def finish_parse_def parse_fuel_def Let_def initialize_receiver_def
        reset_state_def)
qed

theorem stale_position_drops_datagram_witness:
  "\<exists>rc'. parse_datagram gp_unknown (rc_new gp_unknown True\<lparr> rc_next := 18 \<rparr>) (ib_new (mh_enc mh_default))
     = Some (Inr (True, rc')) \<and> rc_list rc' = []"
proof -
  let ?r = "ib_new (mh_enc mh_default)"
  have "ib_ok ?r" "ib_unread ?r = mh_enc mh_default @ []"
    by (simp_all add: ib_ok_def ib_new_def ib_size_def ib_unread_def)
  then obtain r1 where "get_message_header ?r = Inr (mh_default, r1)"
    using mh_codec.rd_consumes[OF mh_ok_default] unfolding consumes_def get_message_header_def by metis
  moreover have "ib_size ?r = 18"
    using mh_enc_length[OF mh_ok_default] by (simp add: ib_size_def ib_new_def mh_SIZE_def)
  ultimately show ?thesis
    using stale_position_drops_datagram[of ?r mh_default r1
        "rc_new gp_unknown True\<lparr> rc_next := 18 \<rparr>" gp_unknown] by auto
qed

end
