(* ===== verification/Stateful_Writer.thy ===== *)
theory Stateful_Writer
  imports Rtps_Writer Message_Receiver
begin

text \<open>
  \<open>RTPS/Stateful/StatefulWriter\<close>: the writer that keeps one reader proxy per matched reader. The
  map of matched readers is keyed by GUIDs under their \<open>operator<\<close>. The callbacks of the wait set,
  \<open>operator()()\<close> and \<open>operator()(ReaderProxy)\<close>, are operations of the model; the clock readings an
  operation makes are arguments of it, and so is the dispatching of the wait set.
\<close>

record stateful_writer = rtps_writer +
  sw_readers :: "(guid, reader_proxy) omap"
  sw_heartbeat_timer :: elapsed_timer
  sw_nack_timer :: elapsed_timer

text \<open>Both timers are default-constructed: their interval is the largest duration.\<close>

definition sw_new :: "int \<Rightarrow> int \<Rightarrow> guid \<Rightarrow> reliability_kind \<Rightarrow> stateful_writer" where
  "sw_new now1 now2 g rel = rtps_writer.extend (w_new g rel)
     \<lparr> sw_readers = [], sw_heartbeat_timer = et_new now1 dur_infinite, sw_nack_timer = et_new now2 dur_infinite \<rparr>"

fun each_proxy ::
  "('v \<Rightarrow> 'v res) \<Rightarrow> ('k, 'v) omap \<Rightarrow> ('k, 'v) omap res" where
  "each_proxy f [] = Inr []"
| "each_proxy f ((g, p) # m) = rbind (f p) (\<lambda>p'. rbind (each_proxy f m) (\<lambda>m'. Inr ((g, p') # m')))"

definition sw_add_change_for_reader ::
  "bool \<Rightarrow> cache_change \<Rightarrow> reader_proxy \<Rightarrow> (bool \<times> reader_proxy) res" where
  "sw_add_change_for_reader push c p =
     (let cfr = (cfr_new True Unsent)\<lparr> cfr_relevant := True,
                  cfr_status_of := (if push then Unsent else Unacknowledged) \<rparr>
      in add_change_for_reader (cc_sn c) cfr p)"

definition sw_add_checked :: "bool \<Rightarrow> cache_change \<Rightarrow> reader_proxy \<Rightarrow> reader_proxy res" where
  "sw_add_checked push c p =
     rbind (sw_add_change_for_reader push c p) (\<lambda>(added, p'). asserting added (Inr p'))"

definition sw_new_change ::
  "change_kind \<Rightarrow> rtps_data option \<Rightarrow> int \<Rightarrow> stateful_writer \<Rightarrow> (cache_change \<times> stateful_writer) res" where
  "sw_new_change kind data handle w =
     (let s = sn_inc (w_last_sn w);
          data' = map_option (\<lambda>d. d\<lparr> d_sn := s, d_writer := w_entity w \<rparr>) data
      in rbind (store_change kind data' handle (w\<lparr> w_last_sn := s \<rparr>)) (\<lambda>(c, w1).
           rbind (each_proxy (sw_add_checked (w_push_mode w1) c) (sw_readers w1)) (\<lambda>readers.
             Inr (c, w1\<lparr> sw_readers := readers, w_new_change_trigger := True \<rparr>))))"

text \<open>\<open>operator()()\<close>, called when the new-change guard fires.\<close>

definition sw_on_new_change :: "stateful_writer \<Rightarrow> stateful_writer res" where
  "sw_on_new_change w =
     (case w_sender w of
        None \<Rightarrow> Inr w
      | Some ms \<Rightarrow>
          rbind (each_proxy (\<lambda>p. asserting (rp_has_handler p)
                    (Inr (if \<not> has_unsent_changes p then p\<lparr> rp_trigger := False \<rparr>
                          else p\<lparr> rp_trigger := True \<rparr>))) (sw_readers w))
            (\<lambda>readers. Inr (w\<lparr> sw_readers := readers \<rparr>)))"

text \<open>\<open>operator()(ReaderProxy)\<close>, called when the guard of the proxy fires.\<close>

definition sw_send_unsent ::
  "device \<Rightarrow> reader_proxy \<Rightarrow> stateful_writer \<Rightarrow> (reader_proxy \<times> stateful_writer) io" where
  "sw_send_unsent dev p w =
     (case w_sender w of
        None \<Rightarrow> io_of (Inl AssertFailed)
      | Some ms \<Rightarrow>
          io_bind (io_of (asserting (has_unsent_changes p) (Inr (snd (unsent_changes p []))))) (\<lambda>changes.
          io_bind (send_changes ms dev (w_entity w) (w_cache w) p changes) (\<lambda>(rc, cache, p').
            io_of (asserting (\<not> has_unsent_changes p') (Inr (p', w\<lparr> w_cache := cache \<rparr>))))))"

fun heartbeat_loop :: "message_sender \<Rightarrow> device \<Rightarrow> rtps_heartbeat \<Rightarrow> reader_proxy list \<Rightarrow> bool io" where
  "heartbeat_loop ms dev hb [] = io_of (Inr True)"
| "heartbeat_loop ms dev hb (p # ps) =
     io_bind (send_heartbeat_to_proxy ms dev p hb) (\<lambda>rc. heartbeat_loop ms dev hb ps)"

definition sw_send_heartbeat :: "device \<Rightarrow> stateful_writer \<Rightarrow> bool io" where
  "sw_send_heartbeat dev w =
     (case w_sender w of
        None \<Rightarrow> io_of (Inr False)
      | Some ms \<Rightarrow>
          if sw_readers w = [] then io_of (Inr False)
          else
            io_bind (io_of (sequence_number_max (w_cache w))) (\<lambda>lst.
            io_bind (io_of (hb_set_final_flag False
                (hb_new\<lparr> hb_writer := w_entity w, hb_first := sequence_number_min (w_cache w), hb_last := lst \<rparr>)))
              (\<lambda>hb. heartbeat_loop ms dev (hb\<lparr> hb_reader := ei_unknown \<rparr>) (map snd (sw_readers w)))))"

fun requested_loop ::
  "message_sender \<Rightarrow> device \<Rightarrow> entity_id \<Rightarrow> (guid, reader_proxy) omap \<Rightarrow> data_cache
     \<Rightarrow> ((guid, reader_proxy) omap \<times> data_cache) io" where
  "requested_loop ms dev writer [] cache = io_of (Inr ([], cache))"
| "requested_loop ms dev writer ((g, p) # m) cache =
     io_bind
       (if \<not> has_requested_changes p then io_of (Inr (p, cache))
        else io_bind (send_changes ms dev writer cache p (snd (requested_changes p [])))
               (\<lambda>(rc, cache', p'). io_of (Inr (rpb_set_requested_changes_set sns_unknown p', cache'))))
       (\<lambda>(p', cache'). io_bind (requested_loop ms dev writer m cache')
          (\<lambda>(m', cache''). io_of (Inr ((g, p') # m', cache''))))"

definition sw_send_requested :: "device \<Rightarrow> stateful_writer \<Rightarrow> (bool \<times> stateful_writer) io" where
  "sw_send_requested dev w =
     (case w_sender w of
        None \<Rightarrow> io_of (Inr (False, w))
      | Some ms \<Rightarrow>
          if sw_readers w = [] then io_of (Inr (False, w))
          else io_bind (requested_loop ms dev (w_entity w) (sw_readers w) (w_cache w)) (\<lambda>(readers, cache).
                 io_of (Inr (True, w\<lparr> sw_readers := readers, w_cache := cache \<rparr>))))"

section \<open>Receiving\<close>

text \<open>The proxy \<open>mapMatchedReaders_[key]\<close> of a key that is present, updated in place.\<close>

fun update_proxy ::
  "guid \<Rightarrow> (reader_proxy \<Rightarrow> reader_proxy res) \<Rightarrow> (guid, reader_proxy) omap \<Rightarrow> (guid, reader_proxy) omap res" where
  "update_proxy k f [] = Inr []"
| "update_proxy k f ((g, p) # m) =
     (if guid_less g k then rbind (update_proxy k f m) (\<lambda>m'. Inr ((g, p) # m'))
      else if guid_less k g then Inr ((g, p) # m)
      else rbind (f p) (\<lambda>p'. Inr ((g, p') # m)))"

definition acknowledge :: "rtps_ack_nack \<Rightarrow> reader_proxy \<Rightarrow> reader_proxy res" where
  "acknowledge an p =
     (let req = an_sn_state an; ack = sn_of_value (wrap64 (sn_get (sns_base req) - 1)) in
      rbind (acked_changes_set ack p) (\<lambda>p1.
      rbind (requested_changes_set req p1) (\<lambda>p2.
        Inr (rpb_set_requested_changes_set req p2))))"

definition sw_receive_ack_nack ::
  "int \<Rightarrow> int \<Rightarrow> guid_prefix \<Rightarrow> rtps_ack_nack \<Rightarrow> stateful_writer \<Rightarrow> (bool \<times> stateful_writer) res" where
  "sw_receive_ack_nack now1 now2 dest an w =
     (let key = guid_new dest (an_writer an) in
      if \<not> om_member guid_less key (sw_readers w) then Inr (False, w)
      else
        rbind (update_proxy key (acknowledge an) (sw_readers w)) (\<lambda>readers.
          let w1 = w\<lparr> sw_readers := readers \<rparr> in
          case om_find guid_less key readers of
            None \<Rightarrow> Inl UndefinedBehaviour
          | Some p \<Rightarrow>
              if has_unacked_changes p
              then rbind (et_remaining now1 (sw_heartbeat_timer w1)) (\<lambda>left.
                     Inr (True, if w_heartbeat_period w1 < left
                                then w1\<lparr> sw_heartbeat_timer :=
                                       et_start_with now2 (w_heartbeat_period w1) (sw_heartbeat_timer w1) \<rparr>
                                else w1))
              else Inr (True, w1)))"

definition sw_receive_nack_frag :: "stateful_writer \<Rightarrow> (bool \<times> stateful_writer) res" where
  "sw_receive_nack_frag w = Inr (True, w)"

section \<open>Matching\<close>

definition sw_new_reader_proxy :: "bool \<Rightarrow> guid \<Rightarrow> stateful_writer \<Rightarrow> reader_proxy res" where
  "sw_new_reader_proxy junk g w =
     rbind (rfold (\<lambda>(s, c). sw_add_checked (w_push_mode w) c) (w_cache w) (rp_new junk g False)) (\<lambda>p.
       let (set_handler, p1) = rpb_set_handler p;
           attach = \<not> rp_attached p1;
           p2 = p1\<lparr> rp_attached := True \<rparr>
       in asserting (set_handler \<and> attach) (Inr p2))"

fun acked_by_all :: "sequence_number \<Rightarrow> (guid, reader_proxy) omap \<Rightarrow> bool" where
  "acked_by_all s [] = True"
| "acked_by_all s ((g, p) # m) = (if is_acked_change s p then acked_by_all s m else False)"

definition sw_is_acked_by_all :: "cache_change \<Rightarrow> stateful_writer \<Rightarrow> bool" where
  "sw_is_acked_by_all c w = acked_by_all (cc_sn c) (sw_readers w)"

definition sw_matched_reader_add :: "reader_proxy \<Rightarrow> stateful_writer \<Rightarrow> stateful_writer res" where
  "sw_matched_reader_add p w =
     asserting (\<not> om_member guid_less (rp_guid p) (sw_readers w))
       (Inr (w\<lparr> sw_readers := om_insert guid_less (rp_guid p) p (sw_readers w) \<rparr>))"

definition sw_matched_reader_remove_guid :: "guid \<Rightarrow> stateful_writer \<Rightarrow> bool \<times> stateful_writer" where
  "sw_matched_reader_remove_guid g w =
     (om_member guid_less g (sw_readers w), w\<lparr> sw_readers := om_erase guid_less g (sw_readers w) \<rparr>)"

definition sw_matched_reader_remove :: "reader_proxy \<Rightarrow> stateful_writer \<Rightarrow> stateful_writer res" where
  "sw_matched_reader_remove p w =
     (let (found, w') = sw_matched_reader_remove_guid (rp_guid p) w in asserting found (Inr w'))"

definition sw_matched_reader_lookup :: "guid \<Rightarrow> stateful_writer \<Rightarrow> reader_proxy option" where
  "sw_matched_reader_lookup g w = om_find guid_less g (sw_readers w)"

section \<open>WaitDispatch\<close>

text \<open>
  The callbacks the wait set runs within the sleep time are the first argument; the clock is read
  for the two remaining times and then for the two expiry tests.
\<close>

definition sw_wait_dispatch ::
  "(int \<Rightarrow> stateful_writer \<Rightarrow> stateful_writer io) \<Rightarrow> device \<Rightarrow> int \<times> int \<times> int \<times> int \<Rightarrow> int
     \<Rightarrow> stateful_writer \<Rightarrow> (return_code \<times> stateful_writer) io" where
  "sw_wait_dispatch callbacks dev clocks milliseconds w =
     (case w_reliability w of
        BestEffort \<Rightarrow> io_bind (callbacks milliseconds w) (\<lambda>w1. io_of (Inr (RcOk, w1)))
      | Reliable \<Rightarrow>
          (case clocks of (now1, now2, now3, now4) \<Rightarrow>
            io_bind (io_of (et_remaining now1 (sw_heartbeat_timer w))) (\<lambda>r1.
            io_bind (io_of (et_remaining now2 (sw_nack_timer w))) (\<lambda>r2.
            io_bind (callbacks (min (min milliseconds (dur_in_millis r1)) (dur_in_millis r2)) w) (\<lambda>w1.
            io_bind (io_of (et_has_expired now3 (sw_heartbeat_timer w1))) (\<lambda>heartbeat.
            io_bind (if heartbeat then sw_send_heartbeat dev w1 else io_of (Inr False)) (\<lambda>sent.
            io_bind (io_of (et_has_expired now4 (sw_nack_timer w1))) (\<lambda>nack.
            io_bind (if nack then io_bind (sw_send_requested dev w1) (\<lambda>(sent, w2). io_of (Inr w2))
                     else io_of (Inr w1)) (\<lambda>w2.
              io_of (Inr (RcOk, w2))))))))))
      | _ \<Rightarrow> io_of (Inr (RcBadParameter, w)))"

section \<open>What the loops over the changes queue\<close>

definition queued :: "rtps_data \<Rightarrow> rtps_data" where
  "queued d = d\<lparr> d_reader := ei_unknown \<rparr>"

definition payload :: "data_cache \<Rightarrow> sequence_number \<Rightarrow> rtps_data option" where
  "payload cache k = (case map_of cache k of None \<Rightarrow> None | Some c \<Rightarrow> map_option queued (cc_data c))"

text \<open>A change the writer can send: removed from the cache, or there with data of this writer.\<close>

definition sendable :: "entity_id \<Rightarrow> data_cache \<Rightarrow> sequence_number \<Rightarrow> bool" where
  "sendable writer cache k \<longleftrightarrow> (\<forall>c. map_of cache k = Some c \<longrightarrow> (\<exists>d. cc_data c = Some d \<and> d_writer d = writer))"

definition queued_data :: "data_cache \<Rightarrow> sequence_number list \<Rightarrow> outgoing list" where
  "queued_data cache ks = map OutData (List.map_filter (payload cache) ks)"

definition missing_keys :: "data_cache \<Rightarrow> sequence_number list \<Rightarrow> sequence_number list" where
  "missing_keys cache ks = filter (\<lambda>k. map_of cache k = None) ks"

text \<open>Two caches that differ only in the reader ids of the data they hold.\<close>

definition same_payloads :: "entity_id \<Rightarrow> data_cache \<Rightarrow> data_cache \<Rightarrow> bool" where
  "same_payloads writer cache cache' \<longleftrightarrow> map fst cache' = map fst cache \<and>
     (\<forall>k. payload cache' k = payload cache k \<and> (sendable writer cache k \<longrightarrow> sendable writer cache' k))"

lemma same_payloads_refl: "same_payloads writer cache cache"
  by (simp add: same_payloads_def)

lemma same_payloads_trans:
  "same_payloads writer a b \<Longrightarrow> same_payloads writer b c \<Longrightarrow> same_payloads writer a c"
  by (simp add: same_payloads_def)

lemma assign_present_keys:
  "sn_map_wf h m \<Longrightarrow> s \<in> fst ` set m \<Longrightarrow> map fst (om_assign sn_less s v m) = map fst m"
proof (induction m)
  case (Cons e m)
  obtain k c where e: "e = (k, c)" by force
  have k: "k \<in> sn_window h" and wf: "sn_map_wf h m" and below: "\<forall>f \<in> set m. sn_less k (fst f)"
    using Cons.prems(1) by (auto simp: e sn_map_wf_Cons)
  show ?case
  proof (cases "s = k")
    case False
    then have "s \<in> fst ` set m" using Cons.prems(2) by (auto simp: e)
    then show ?thesis using below Cons.IH[OF wf] by (auto simp: e)
  qed (simp add: e)
qed simp

lemma queue_data_ok:
  assumes "cache_ok 0 (st_cache st)" "map_of (st_cache st) k = Some c" "cc_data c = Some d" "d_writer d = writer"
  shows "\<exists>cache. queue_data writer l False k c st =
      Inr (st\<lparr> st_cache := cache, st_submessages := st_submessages st @ [OutData (queued d)] \<rparr>)
    \<and> cache_ok 0 cache \<and> same_payloads writer (st_cache st) cache"
proof -
  let ?c = "c\<lparr> cc_data := Some (queued d) \<rparr>" let ?m = "st_cache st"
  let ?cache = "om_assign sn_less k ?c ?m"
  have wf: "sn_map_wf 0 ?m" "sn_key.om_wf 0 ?m" using assms(1) by (auto simp: cache_ok_def sn_map_wf_def)
  have mem: "(k, c) \<in> set ?m" using assms(2) by (rule map_of_SomeD)
  then have k: "k \<in> sn_window 0" "k \<in> fst ` set ?m" using sn_map_keys[OF wf(1)] by force+
  have keys: "map fst ?cache = map fst ?m" by (rule assign_present_keys[OF wf(1) k(2)])
  have map: "map_of ?cache = (map_of ?m)(k \<mapsto> ?c)" by (rule sn_key.map_of_assign[OF wf(2) k(1)])
  have "distinct (map fst ?cache)" using keys sn_key.om_wf_distinct[OF wf(2)] by simp
  then have in_map: "map_of ?cache k' = Some c'" if "(k', c') \<in> set ?cache" for k' c' using that by simp
  have "cc_sn c' = k'" if "(k', c') \<in> set ?cache" for k' c'
    using in_map[OF that] assms(1) mem unfolding map
    by (auto simp: cache_ok_def split: if_splits dest!: map_of_SomeD)
  then have ok: "cache_ok 0 ?cache"
    using sn_map_wf_keys[OF keys wf(1)] by (auto simp: cache_ok_def)
  have "same_payloads writer ?m ?cache"
    using keys map assms(2-4) by (auto simp: same_payloads_def payload_def sendable_def queued_def)
  then show ?thesis using ok assms(3,4) by (auto simp: queue_data_def add_data_messages_def queued_def Let_def)
qed

lemma sn_insert_last:
  "sn_map_wf h (m @ [(k, v)]) \<Longrightarrow> om_insert sn_less k v m = m @ [(k, v)]"
  by (induction m) (auto simp: sn_map_wf_Cons)

lemma queue_changes_ok:
  assumes "cache_ok 0 (st_cache st)"
    and "sn_map_wf 0 (st_missing st @ map (\<lambda>(k, c). (k, ())) cs)"
    and "\<forall>(k, c) \<in> set cs. cfr_relevant c \<and> sendable writer (st_cache st) k"
  shows "\<exists>st'. rfold (queue_change writer l) cs st = Inr st'
    \<and> st_submessages st' = st_submessages st @ queued_data (st_cache st) (map fst cs)
    \<and> map fst (st_missing st') = map fst (st_missing st) @ missing_keys (st_cache st) (map fst cs)
    \<and> cache_ok 0 (st_cache st') \<and> same_payloads writer (st_cache st) (st_cache st')"
  using assms
proof (induction cs arbitrary: st)
  case Nil
  then show ?case by (simp add: queued_data_def missing_keys_def map_filter_def same_payloads_refl)
next
  case (Cons e cs)
  obtain k c where e: "e = (k, c)" by force
  have k: "k \<in> sn_window 0" and rel: "cfr_relevant c" "sendable writer (st_cache st) k"
    using Cons.prems(2,3) by (auto simp: e sn_map_wf_append sn_map_wf_Cons)
  have get: "get_change k (st_cache st) = map_of (st_cache st) k"
    by (rule get_change_map_of[OF Cons.prems(1) k])
  show ?case
  proof (cases "map_of (st_cache st) k")
    case None
    let ?st = "queue_missing k st"
    have last: "st_missing ?st = st_missing st @ [(k, ())]"
      using Cons.prems(2) unfolding queue_missing_def e
      by (simp add: sn_insert_last[where h = 0] sn_map_wf_append sn_map_wf_Cons)
    have step: "queue_change writer l e st = Inr ?st" by (simp add: queue_change_def e get None)
    have same: "st_cache ?st = st_cache st" "st_submessages ?st = st_submessages st"
      by (simp_all add: queue_missing_def)
    have prems: "sn_map_wf 0 (st_missing ?st @ map (\<lambda>(k, c). (k, ())) cs)"
      "\<forall>(k, c) \<in> set cs. cfr_relevant c \<and> sendable writer (st_cache ?st) k"
      using Cons.prems(2,3) by (simp_all add: last same e)
    obtain st' where "rfold (queue_change writer l) cs ?st = Inr st'"
      "st_submessages st' = st_submessages st @ queued_data (st_cache st) (map fst cs)"
      "map fst (st_missing st') = map fst (st_missing ?st) @ missing_keys (st_cache st) (map fst cs)"
      "cache_ok 0 (st_cache st')" "same_payloads writer (st_cache st) (st_cache st')"
      using Cons.IH[of ?st] Cons.prems(1) prems unfolding same by blast
    then show ?thesis using step None last
      by (simp add: e queued_data_def missing_keys_def map_filter_def payload_def)
  next
    case (Some ch)
    then obtain d where d: "cc_data ch = Some d" "d_writer d = writer" using rel(2) by (auto simp: sendable_def)
    obtain cache where cache: "queue_data writer l False k ch st =
        Inr (st\<lparr> st_cache := cache, st_submessages := st_submessages st @ [OutData (queued d)] \<rparr>)"
      "cache_ok 0 cache" "same_payloads writer (st_cache st) cache"
      using queue_data_ok[OF Cons.prems(1) Some d] by blast
    let ?st = "st\<lparr> st_cache := cache, st_submessages := st_submessages st @ [OutData (queued d)] \<rparr>"
    have step: "queue_change writer l e st = Inr ?st" by (simp add: queue_change_def e get Some rel cache(1))
    have "map fst cache = map fst (st_cache st)" using cache(3) by (simp add: same_payloads_def)
    from arg_cong[OF this, of set] have absent: "map_of cache k' = None \<longleftrightarrow> map_of (st_cache st) k' = None" for k'
      by (simp add: map_of_eq_None_iff)
    have "sn_map_wf 0 (st_missing ?st @ map (\<lambda>(k, c). (k, ())) cs)"
      using Cons.prems(2) by (simp add: e sn_map_wf_append sn_map_wf_Cons)
    moreover have "\<forall>(k, c) \<in> set cs. cfr_relevant c \<and> sendable writer (st_cache ?st) k"
      using Cons.prems(3) cache(3) by (auto simp: e same_payloads_def)
    ultimately obtain st' where "rfold (queue_change writer l) cs ?st = Inr st'"
      "st_submessages st' = st_submessages ?st @ queued_data cache (map fst cs)"
      "map fst (st_missing st') = map fst (st_missing st) @ missing_keys cache (map fst cs)"
      "cache_ok 0 (st_cache st')" "same_payloads writer cache (st_cache st')"
      using Cons.IH[of ?st] cache(2) by auto
    moreover have "payload cache = payload (st_cache st)"
      using cache(3) by (simp add: same_payloads_def fun_eq_iff)
    then have "queued_data cache ks = queued_data (st_cache st) ks"
      "missing_keys cache ks = missing_keys (st_cache st) ks" for ks
      using absent by (simp_all add: queued_data_def missing_keys_def)
    ultimately show ?thesis using step Some d cache(3)
      by (auto simp: e queued_data_def missing_keys_def map_filter_def payload_def intro: same_payloads_trans)
  qed
qed

section \<open>Sending the changes of one status\<close>

lemma set_statuses_ok:
  assumes "sn_map_wf h m" "fst ` set cs \<subseteq> sn_window h"
  shows "sn_map_wf h (fold (\<lambda>(s, c). set_status_at s st) cs m)"
    and "map_of (fold (\<lambda>(s, c). set_status_at s st) cs m) k =
      map_option (\<lambda>c. if k \<in> fst ` set cs then c\<lparr> cfr_status_of := st \<rparr> else c) (map_of m k)"
proof -
  have "sn_map_wf h (fold (\<lambda>(s, c). set_status_at s st) cs m) \<and>
    map_of (fold (\<lambda>(s, c). set_status_at s st) cs m) k =
      map_option (\<lambda>c. if k \<in> fst ` set cs then c\<lparr> cfr_status_of := st \<rparr> else c) (map_of m k)"
    using assms
  proof (induction cs arbitrary: m)
    case Nil
    then show ?case by (simp add: option.map_ident)
  next
    case (Cons e cs)
    obtain s c where e: "e = (s, c)" by force
    have s: "s \<in> sn_window h" "fst ` set cs \<subseteq> sn_window h" using Cons.prems(2) by (auto simp: e)
    show ?case
      using Cons.IH[OF set_status_at_wf[OF Cons.prems(1), of s st] s(2)]
        set_status_at_map_of[OF Cons.prems(1) s(1), of st k]
      by (cases "map_of m k") (auto simp: e)
  qed
  then show "sn_map_wf h (fold (\<lambda>(s, c). set_status_at s st) cs m)"
    "map_of (fold (\<lambda>(s, c). set_status_at s st) cs m) k =
      map_option (\<lambda>c. if k \<in> fst ` set cs then c\<lparr> cfr_status_of := st \<rparr> else c) (map_of m k)"
    by blast+
qed

definition with_status :: "cfr_status \<Rightarrow> change_map \<Rightarrow> change_map" where
  "with_status st m = filter (\<lambda>(k, c). cfr_status_of c = st) m"

lemma with_status_wf: "sn_map_wf h m \<Longrightarrow> sn_map_wf h (with_status st m)"
  by (induction m) (auto simp: with_status_def sn_map_wf_Cons)

lemma with_status_keys:
  assumes "sn_map_wf h m"
  shows "k \<in> fst ` set (with_status st m) \<longleftrightarrow> (\<exists>c. map_of m k = Some c \<and> cfr_status_of c = st)"
  using sn_key.om_wf_distinct[of h m] assms
  by (force simp: with_status_def sn_map_wf_def)

text \<open>The messages for the changes \<open>ks\<close>: data for those in the cache, then GAPs for the others.\<close>

definition messages_for :: "entity_id \<Rightarrow> data_cache \<Rightarrow> sequence_number list \<Rightarrow> outgoing list" where
  "messages_for writer cache ks =
     queued_data cache ks @ map (\<lambda>s. OutGap (gap_message writer s)) (gap_starts (missing_keys cache ks))"

definition moved_to_underway :: "cfr_status \<Rightarrow> change_map \<Rightarrow> change_map \<Rightarrow> bool" where
  "moved_to_underway st m m' \<longleftrightarrow> (\<forall>k. map_of m' k =
     map_option (\<lambda>c. if cfr_status_of c = st then c\<lparr> cfr_status_of := Underway \<rparr> else c) (map_of m k))"

lemma sn_map_wf_unit: "sn_map_wf h m \<Longrightarrow> sn_map_wf h (map (\<lambda>(k, c). (k, ())) m)"
  by (rule sn_map_wf_keys) (auto simp: comp_def case_prod_beta)

lemma missing_keys_gap_key:
  "\<forall>k \<in> set ks. gap_key k \<Longrightarrow> list_all gap_key (missing_keys cache ks)"
  by (auto simp: missing_keys_def list_all_iff)

lemma messages_for_nonempty:
  assumes "\<forall>k \<in> set ks. sendable writer cache k" "ks \<noteq> []"
  shows "messages_for writer cache ks \<noteq> []"
proof -
  obtain k ks' where ks: "ks = k # ks'" using assms(2) by (cases ks) auto
  show ?thesis
  proof (cases "map_of cache k")
    case None
    then show ?thesis by (simp add: messages_for_def missing_keys_def ks)
  next
    case (Some c)
    then have "payload cache k \<noteq> None" using assms(1) by (auto simp: ks sendable_def payload_def)
    then show ?thesis by (auto simp: messages_for_def queued_data_def map_filter_def ks)
  qed
qed

lemma send_changes_ok:
  assumes "sn_map_wf 0 (rp_changes p)" "cache_ok 0 cache" "rp_unicast p = [l]"
    and cs: "changes = with_status st (rp_changes p)" "changes \<noteq> []"
    and rel: "\<forall>(k, c) \<in> set changes. cfr_relevant c \<and> sendable writer cache k \<and> gap_key k"
    and wr: "write_message ms dev (messages_for writer cache (map fst changes)) l ds = (Inr rc, ds')"
  shows "\<exists>cache' p'. send_changes ms dev writer cache p changes ds = (Inr (rc, cache', p'), ds')
    \<and> cache_ok 0 cache' \<and> same_payloads writer cache cache'
    \<and> p' = p\<lparr> rp_changes := rp_changes p' \<rparr> \<and> sn_map_wf 0 (rp_changes p')
    \<and> moved_to_underway st (rp_changes p) (rp_changes p')"
proof -
  let ?ks = "map fst changes"
  have wf: "sn_map_wf 0 changes" by (simp add: cs(1) with_status_wf assms(1))
  have win: "fst ` set changes \<subseteq> sn_window 0" by (rule sn_map_keys[OF wf])
  obtain st' where st': "rfold (queue_change writer l) changes (send_state_new cache) = Inr st'"
    "st_submessages st' = queued_data cache ?ks" "map fst (st_missing st') = missing_keys cache ?ks"
    "cache_ok 0 (st_cache st')" "same_payloads writer cache (st_cache st')"
    using queue_changes_ok[of "send_state_new cache" changes writer l] assms(2) rel sn_map_wf_unit[OF wf]
    by (auto simp: send_state_new_def)
  have keys: "list_all gap_key (missing_keys cache ?ks)" using rel by (intro missing_keys_gap_key) auto
  have none: "st_missing st' = [] \<longleftrightarrow> missing_keys cache ?ks = []"
    using st'(3) by (metis list.map_disc_iff)
  have "messages_for writer cache ?ks \<noteq> []"
    using rel cs(2) by (intro messages_for_nonempty) auto
  then have "send_queued ms dev writer l st' ds = (Inr rc, ds')"
    using wr none gap_rounds_starts[OF keys, of writer "queued_data cache ?ks"]
    by (auto simp: send_queued_def add_gap_messages_def st'(2,3) io_bind_def io_of_def messages_for_def)
  moreover have "single_locator (rp_unicast p) = Inr l" by (simp add: single_locator_def assms(3))
  ultimately have run: "send_changes ms dev writer cache p changes ds =
      (Inr (rc, st_cache st', mark_underway changes p), ds')"
    by (simp add: send_changes_def io_bind_def io_of_def st'(1))
  note marked = set_statuses_ok[OF assms(1) win, of Underway]
  have "moved_to_underway st (rp_changes p) (rp_changes (mark_underway changes p))"
    unfolding moved_to_underway_def
  proof
    fix k
    show "map_of (rp_changes (mark_underway changes p)) k = map_option
        (\<lambda>c. if cfr_status_of c = st then c\<lparr> cfr_status_of := Underway \<rparr> else c) (map_of (rp_changes p) k)"
      using marked(2)[of k] with_status_keys[OF assms(1), of k st]
      by (cases "map_of (rp_changes p) k") (auto simp: mark_underway_def cs(1))
  qed
  then show ?thesis using run st'(4,5) marked(1) by (auto simp: mark_underway_def)
qed

lemma moved_none_left:
  assumes "moved_to_underway st m m'" "sn_map_wf h m'" "st \<noteq> Underway"
  shows "\<not> has_change_state st m'"
proof
  assume "has_change_state st m'"
  then obtain k c where kc: "(k, c) \<in> set m'" "cfr_status_of c = st" by (auto simp: has_change_state_iff)
  then have "map_of m' k = Some c" using sn_key.om_wf_distinct[of h m'] assms(2) by (simp add: sn_map_wf_def)
  then obtain c0 where "c = (if cfr_status_of c0 = st then c0\<lparr> cfr_status_of := Underway \<rparr> else c0)"
    using assms(1) by (auto simp: moved_to_underway_def)
  then show False using assms(3) kc(2) by (cases "cfr_status_of c0 = st") auto
qed

lemma sw_send_unsent_ok:
  assumes "w_sender w = Some ms" "sn_map_wf 0 (rp_changes p)" "cache_ok 0 (w_cache w)" "rp_unicast p = [l]"
    and un: "unsent = with_status Unsent (rp_changes p)" "unsent \<noteq> []"
    and rel: "\<forall>(k, c) \<in> set unsent. cfr_relevant c \<and> sendable (w_entity w) (w_cache w) k \<and> gap_key k"
    and wr: "write_message ms dev (messages_for (w_entity w) (w_cache w) (map fst unsent)) l ds = (Inr rc, ds')"
  shows "\<exists>p' cache. sw_send_unsent dev p w ds = (Inr (p', w\<lparr> w_cache := cache \<rparr>), ds')
    \<and> cache_ok 0 cache \<and> same_payloads (w_entity w) (w_cache w) cache
    \<and> sn_map_wf 0 (rp_changes p') \<and> moved_to_underway Unsent (rp_changes p) (rp_changes p')"
proof -
  obtain cache p' where s: "send_changes ms dev (w_entity w) (w_cache w) p unsent ds = (Inr (rc, cache, p'), ds')"
    "cache_ok 0 cache" "same_payloads (w_entity w) (w_cache w) cache" "sn_map_wf 0 (rp_changes p')"
    "moved_to_underway Unsent (rp_changes p) (rp_changes p')"
    using send_changes_ok[OF assms(2-4) un rel wr] by blast
  have "has_change_state Unsent (rp_changes p)"
    using un by (auto simp: has_change_state_iff with_status_def filter_empty_conv)
  moreover have "\<not> has_unsent_changes p'"
    using moved_none_left[OF s(5,4)] by (simp add: has_unsent_changes_def)
  ultimately have "sw_send_unsent dev p w ds = (Inr (p', w\<lparr> w_cache := cache \<rparr>), ds')"
    using s(1) assms(1) find_changes_ok[OF assms(2), of Unsent]
    by (simp add: sw_send_unsent_def io_bind_def io_of_def has_unsent_changes_def unsent_changes_def
        un(1) with_status_def)
  then show ?thesis using s by blast
qed

section \<open>The heartbeat\<close>

text \<open>
  A matched reader is enough to stop the program: with changes in the cache the greatest sequence
  number is read through \<open>end()\<close>, and without any the final flag cannot be set.
\<close>

lemma sw_send_heartbeat_fails:
  assumes "w_sender w \<noteq> None" "sw_readers w \<noteq> []"
  shows "sw_send_heartbeat dev w ds =
    (Inl (if w_cache w = [] then AssertFailed else UndefinedBehaviour), ds)"
  using assms
  by (cases "w_cache w")
    (auto simp: sw_send_heartbeat_def io_bind_def io_of_def sequence_number_max_def hb_set_final_flag_def
      set_flag_aborts)

end
