(* ===== verification/Writer_Protocol.thy ===== *)
theory Writer_Protocol
  imports Stateful_Writer
begin

text \<open>
  The stateful writer as a transition system: what each operation does to the cache and to the
  matched proxies, the invariant every reachable writer satisfies, and the consequences for the
  delivery of changes.
\<close>

section \<open>The invariant\<close>

text \<open>
  No proxy knows a sequence number the writer has not handed out yet, every change a proxy knows is
  relevant, its guard has a handler, and the data in the cache carry the writer's entity id.
\<close>

definition proxy_ok :: "sequence_number \<Rightarrow> reader_proxy \<Rightarrow> bool" where
  "proxy_ok s p \<longleftrightarrow> sn_map_wf 0 (rp_changes p) \<and> rp_has_handler p \<and>
     (\<forall>(k, c) \<in> set (rp_changes p). sn_get k \<le> sn_get s \<and> cfr_relevant c)"

definition own_data :: "entity_id \<Rightarrow> data_cache \<Rightarrow> bool" where
  "own_data writer cache \<longleftrightarrow> (\<forall>(k, c) \<in> set cache. \<forall>d. cc_data c = Some d \<longrightarrow> d_writer d = writer)"

definition sw_ok :: "stateful_writer \<Rightarrow> bool" where
  "sw_ok w \<longleftrightarrow> w_guid w \<noteq> guid_unknown \<and> numbers_ok (w_last_sn w) (w_cache w)
     \<and> own_data (w_entity w) (w_cache w)
     \<and> (\<forall>(g, p) \<in> set (sw_readers w). proxy_ok (w_last_sn w) p)
     \<and> et_interval (sw_nack_timer w) = dur_infinite \<and> et_total (sw_nack_timer w) = 0"

lemma sn_get_inc_window: "s \<in> sn_window 0 \<Longrightarrow> sn_get (sn_inc s) = sn_get s + 1"
  using sn_get_inc sn_window_valid sn_window_not_max by blast

lemma proxy_ok_mono: "proxy_ok s p \<Longrightarrow> sn_get s \<le> sn_get s' \<Longrightarrow> proxy_ok s' p"
  by (fastforce simp: proxy_ok_def)

section \<open>NewChange\<close>

definition new_status :: "bool \<Rightarrow> cfr_status" where
  "new_status push = (if push then Unsent else Unacknowledged)"

definition proxy_extended :: "sequence_number \<Rightarrow> bool \<Rightarrow> reader_proxy \<Rightarrow> reader_proxy \<Rightarrow> bool" where
  "proxy_extended s push p p' \<longleftrightarrow> p' = p\<lparr> rp_changes := rp_changes p' \<rparr> \<and>
     map_of (rp_changes p') = (map_of (rp_changes p))(s \<mapsto> cfr_new True (new_status push))"

lemma sw_add_checked_ok:
  assumes "proxy_ok s0 p" "cc_sn c \<in> sn_window 0" "sn_get s0 \<le> sn_get (cc_sn c)"
  shows "\<exists>p'. sw_add_checked push c p = Inr p' \<and> proxy_ok (cc_sn c) p' \<and> proxy_extended (cc_sn c) push p p'"
proof -
  obtain m where m: "add_change_for_reader (cc_sn c) (cfr_new True (new_status push)) p =
      Inr (True, p\<lparr> rp_changes := m \<rparr>)" "sn_map_wf 0 m"
    "map_of m = (map_of (rp_changes p))(cc_sn c \<mapsto> cfr_new True (new_status push))"
    using add_change_for_reader_ok[of 0 p "cc_sn c"] assms(1,2) by (auto simp: proxy_ok_def)
  have "sn_get k \<le> sn_get (cc_sn c) \<and> cfr_relevant cf" if "(k, cf) \<in> set m" for k cf
  proof -
    have "map_of m k = Some cf" using that sn_key.om_wf_distinct[of 0 m] m(2) by (simp add: sn_map_wf_def)
    then have "k = cc_sn c \<and> cf = cfr_new True (new_status push) \<or> (k, cf) \<in> set (rp_changes p)"
      unfolding m(3) by (auto split: if_splits dest: map_of_SomeD)
    then show ?thesis using assms(1,3) by (auto simp: proxy_ok_def cfr_new_def)
  qed
  then have "proxy_ok (cc_sn c) (p\<lparr> rp_changes := m \<rparr>)"
    using assms(1) m(2) by (auto simp: proxy_ok_def)
  moreover have "sw_add_checked push c p = Inr (p\<lparr> rp_changes := m \<rparr>)"
    using m(1) by (simp add: sw_add_checked_def sw_add_change_for_reader_def cfr_new_def new_status_def Let_def)
  ultimately show ?thesis using m(3) by (auto simp: proxy_extended_def)
qed

lemma each_proxy_all2:
  assumes "\<And>g p. (g, p) \<in> set m \<Longrightarrow> \<exists>p'. f p = Inr p' \<and> P p p'"
  shows "\<exists>m'. each_proxy f m = Inr m' \<and> list_all2 (\<lambda>(g, p) (g', p'). g' = g \<and> P p p') m m'"
  using assms
proof (induction m)
  case (Cons e m)
  obtain g p where e: "e = (g, p)" by force
  obtain p' where "f p = Inr p'" "P p p'" using Cons.prems[of g p] by (auto simp: e)
  moreover obtain m' where "each_proxy f m = Inr m'"
    "list_all2 (\<lambda>(g, p) (g', p'). g' = g \<and> P p p') m m'"
    using Cons.IH Cons.prems by auto
  ultimately show ?case by (auto simp: e)
qed simp

lemma all2_source:
  "list_all2 (\<lambda>(g, p) (g', p'). g' = g \<and> P p p') m m' \<Longrightarrow> (g, p') \<in> set m' \<Longrightarrow>
   \<exists>p. (g, p) \<in> set m \<and> P p p'"
  by (induction m m' rule: list_all2_induct) auto

lemma sw_new_change_ok:
  fixes kind :: change_kind and data :: "rtps_data option" and handle :: int
  assumes ok: "sw_ok w" and can: "can_count (w_last_sn w)"
  defines "s \<equiv> sn_inc (w_last_sn w)"
  defines "c \<equiv> cc_new kind (w_guid w) s (map_option (\<lambda>d. d\<lparr> d_sn := s, d_writer := w_entity w \<rparr>) data) handle"
  shows "\<exists>w'. sw_new_change kind data handle w = Inr (c, w') \<and> sw_ok w'
    \<and> w_last_sn w' = s \<and> map_of (w_cache w') = (map_of (w_cache w))(s \<mapsto> c)
    \<and> list_all2 (\<lambda>(g, p) (g', p'). g' = g \<and> proxy_extended s (w_push_mode w) p p') (sw_readers w) (sw_readers w')
    \<and> w_new_change_trigger w'"
proof -
  let ?w = "w\<lparr> w_last_sn := s \<rparr>"
  let ?cache = "om_insert sn_less s c (w_cache w)"
  have nums: "numbers_ok (w_last_sn w) (w_cache w)" and guid: "w_guid w \<noteq> guid_unknown"
    using ok by (simp_all add: sw_ok_def)
  have s: "s \<in> sn_window 0" using can by (simp add: can_count_def s_def)
  have csn: "cc_sn c = s" by (simp add: c_def cc_new_def)
  have le: "sn_get (w_last_sn w) \<le> sn_get s"
    using nums by (simp add: s_def sn_get_inc_window numbers_ok_def)
  note store = store_change_ok[where w = ?w and s = "w_last_sn w" and kind = kind and handle = handle and
      data = "map_option (\<lambda>d. d\<lparr> d_sn := s, d_writer := w_entity w \<rparr>) data"]
  have st: "store_change kind (map_option (\<lambda>d. d\<lparr> d_sn := s, d_writer := w_entity w \<rparr>) data) handle ?w =
      Inr (c, ?w\<lparr> w_cache := ?cache \<rparr>)"
    "numbers_ok s ?cache" "map_of ?cache = (map_of (w_cache w))(s \<mapsto> c)"
    using store nums can guid by (simp_all add: s_def c_def)
  have step: "\<exists>p'. sw_add_checked (w_push_mode w) c p = Inr p' \<and>
      (proxy_ok s p' \<and> proxy_extended s (w_push_mode w) p p')" if "(g, p) \<in> set (sw_readers w)" for g p
    using sw_add_checked_ok[of "w_last_sn w" p c "w_push_mode w"] that ok s le
    by (auto simp: csn sw_ok_def)
  obtain m' where m': "each_proxy (sw_add_checked (w_push_mode w) c) (sw_readers w) = Inr m'"
    "list_all2 (\<lambda>(g, p) (g', p'). g' = g \<and> (proxy_ok s p' \<and> proxy_extended s (w_push_mode w) p p'))
       (sw_readers w) m'"
    using each_proxy_all2[of "sw_readers w" "sw_add_checked (w_push_mode w) c"
        "\<lambda>p p'. proxy_ok s p' \<and> proxy_extended s (w_push_mode w) p p'"] step by blast
  let ?w' = "?w\<lparr> w_cache := ?cache, sw_readers := m', w_new_change_trigger := True \<rparr>"
  have "sw_new_change kind data handle w = Inr (c, ?w')"
    using st(1) m'(1) by (simp add: sw_new_change_def s_def[symmetric] Let_def)
  moreover have "\<forall>(g, p) \<in> set m'. proxy_ok s p"
    using all2_source[OF m'(2)] by blast
  moreover have "own_data (w_entity w) ?cache"
  proof -
    have "d_writer d = w_entity w" if "(k, ch) \<in> set ?cache" "cc_data ch = Some d" for k ch d
    proof -
      have "map_of ?cache k = Some ch"
        using that(1) sn_key.om_wf_distinct[of 0 ?cache] st(2)
        by (simp add: numbers_ok_def cache_ok_def sn_map_wf_def)
      then have "ch = c \<or> (k, ch) \<in> set (w_cache w)"
        unfolding st(3) by (auto split: if_splits dest: map_of_SomeD)
      then show ?thesis using ok that(2)
        by (auto simp: sw_ok_def own_data_def c_def cc_new_def)
    qed
    then show ?thesis by (auto simp: own_data_def)
  qed
  then have "sw_ok ?w'" using ok st(2) calculation(2)
    by (simp add: sw_ok_def w_entity_def)
  moreover have "list_all2 (\<lambda>(g, p) (g', p'). g' = g \<and> proxy_extended s (w_push_mode w) p p') (sw_readers w) m'"
    using m'(2) by (rule list.rel_mono_strong) auto
  ultimately show ?thesis using st(3) by (intro exI[of _ ?w']) simp
qed

section \<open>The shape of a proxy\<close>

text \<open>Every update of statuses keeps the keys and the relevance of the changes, which is all the
  invariant speaks about.\<close>

definition shape :: "change_map \<Rightarrow> (sequence_number \<times> bool) list" where
  "shape m = map (\<lambda>(k, c). (k, cfr_relevant c)) m"

lemma shape_keys: "shape m' = shape m \<Longrightarrow> map fst m' = map fst m"
proof -
  have "map fst m = map fst (shape m)" for m by (simp add: shape_def comp_def case_prod_beta)
  then show "shape m' = shape m \<Longrightarrow> map fst m' = map fst m" by metis
qed

lemma proxy_ok_shape:
  assumes "proxy_ok s p" "shape (rp_changes p') = shape (rp_changes p)" "rp_has_handler p' = rp_has_handler p"
  shows "proxy_ok s p'"
proof -
  have iff: "(\<forall>(k, c) \<in> set m. sn_get k \<le> sn_get s \<and> cfr_relevant c) \<longleftrightarrow>
      (\<forall>(k, r) \<in> set (shape m). sn_get k \<le> sn_get s \<and> r)" for m
    by (fastforce simp: shape_def)
  show ?thesis
    using assms sn_map_wf_keys[OF shape_keys[OF assms(2)]] unfolding proxy_ok_def iff by simp
qed

lemma shape_set_status_at [simp]: "shape (set_status_at s st m) = shape m"
  by (induction s st m rule: set_status_at.induct) (auto simp: shape_def)

lemma shape_ack_changes [simp]: "shape (ack_changes s m) = shape m"
  by (induction s m rule: ack_changes.induct) (auto simp: shape_def)

lemma shape_fold_status [simp]: "shape (fold (\<lambda>(s, c). set_status_at s st) cs m) = shape m"
  by (induction cs arbitrary: m) auto

lemma shape_requested_changes_set:
  assumes "requested_changes_set req p = Inr p'"
  shows "shape (rp_changes p') = shape (rp_changes p)" "rp_has_handler p' = rp_has_handler p"
proof -
  obtain m where m: "rfold (request_position req)
      [sn_get (sns_base req) .. sn_get (sns_base req) + sns_num_bits req]
      (set_status_at (sn_of_value (sn_get (sns_base req))) Requested (rp_changes p)) = Inr m"
    and p': "p' = p\<lparr> rp_changes := m \<rparr>"
    using assms by (auto simp: requested_changes_set_def Let_def res_simps)
  have "shape m = shape (rp_changes p)"
    by (rule rfold_invariant[OF m, of "\<lambda>t. shape t = shape (rp_changes p)"])
      (auto simp: request_position_def Let_def res_simps split: if_splits)
  then show "shape (rp_changes p') = shape (rp_changes p)" "rp_has_handler p' = rp_has_handler p"
    by (simp_all add: p')
qed

lemma acknowledge_keeps:
  assumes "acknowledge an p = Inr p'" "proxy_ok s p" shows "proxy_ok s p'"
proof -
  obtain p1 p2 where p1: "acked_changes_set (sn_of_value (wrap64 (sn_get (sns_base (an_sn_state an)) - 1))) p = Inr p1"
    and p2: "requested_changes_set (an_sn_state an) p1 = Inr p2"
    and p': "p' = rpb_set_requested_changes_set (an_sn_state an) p2"
    using assms(1) by (auto simp: acknowledge_def Let_def res_simps)
  have "proxy_ok s p1" using p1 assms(2) by (auto simp: acked_changes_set_def res_simps intro: proxy_ok_shape)
  then have "proxy_ok s p2" using shape_requested_changes_set[OF p2] by (rule proxy_ok_shape)
  then show ?thesis by (rule proxy_ok_shape) (simp_all add: p' rpb_set_requested_changes_set_def)
qed

lemma update_proxy_keeps:
  assumes "update_proxy k f m = Inr m'" "\<forall>(g, p) \<in> set m. P p" "\<And>p p'. f p = Inr p' \<Longrightarrow> P p \<Longrightarrow> P p'"
  shows "\<forall>(g, p) \<in> set m'. P p"
  using assms(1,2)
proof (induction m arbitrary: m')
  case (Cons e m)
  obtain g p where e: "e = (g, p)" by force
  show ?case using Cons.prems Cons.IH assms(3) by (auto simp: e res_simps split: if_splits)
qed simp

section \<open>Sending keeps the invariant\<close>

lemma queue_change_keeps:
  assumes "queue_change writer l (k, cf) st = Inr st'" "k \<in> sn_window 0" "cache_ok 0 (st_cache st)"
  shows "cache_ok 0 (st_cache st') \<and> same_payloads writer (st_cache st) (st_cache st')"
proof (cases "map_of (st_cache st) k")
  case None
  then show ?thesis using assms get_change_map_of[OF assms(3,2)]
    by (auto simp: queue_change_def queue_missing_def same_payloads_refl)
next
  case (Some c)
  note get = get_change_map_of[OF assms(3,2)]
  show ?thesis
  proof (cases "cfr_relevant cf")
    case True
    then have run: "queue_data writer l False k c st = Inr st'" using assms(1) by (simp add: queue_change_def get Some)
    then obtain d where "cc_data c = Some d" "d_writer d = writer"
      by (auto simp: queue_data_def add_data_messages_def Let_def res_simps split: option.splits)
    from queue_data_ok[OF assms(3) Some this, of l] show ?thesis using run by auto
  next
    case False
    then show ?thesis using assms by (auto simp: queue_change_def get Some queue_missing_def same_payloads_refl)
  qed
qed

lemma send_changes_keeps:
  assumes run: "send_changes ms dev writer cache p changes ds = (Inr (rc, cache', p'), ds')"
    and "fst ` set changes \<subseteq> sn_window 0" "cache_ok 0 cache"
  shows "cache_ok 0 cache'" "same_payloads writer cache cache'" "p' = mark_underway changes p"
proof -
  obtain l st where st: "rfold (queue_change writer l) changes (send_state_new cache) = Inr st"
    and res: "cache' = st_cache st" "p' = mark_underway changes p"
    using run by (auto simp: send_changes_def io_bind_def io_of_def split: prod.splits sum.splits)
  have "cache_ok 0 (st_cache st) \<and> same_payloads writer cache (st_cache st)"
  proof (rule rfold_invariant[OF st, of "\<lambda>t. cache_ok 0 (st_cache t) \<and> same_payloads writer cache (st_cache t)"])
    fix e t t' assume e: "e \<in> set changes" "queue_change writer l e t = Inr t'"
      and t: "cache_ok 0 (st_cache t) \<and> same_payloads writer cache (st_cache t)"
    obtain k cf where kc: "e = (k, cf)" by force
    then have "k \<in> sn_window 0" using e(1) assms(2) by force
    from queue_change_keeps[OF e(2)[unfolded kc] this] t
    show "cache_ok 0 (st_cache t') \<and> same_payloads writer cache (st_cache t')"
      using same_payloads_trans by blast
  qed (simp add: send_state_new_def assms(3) same_payloads_refl)
  then show "cache_ok 0 cache'" "same_payloads writer cache cache'" "p' = mark_underway changes p"
    using res by simp_all
qed

lemma own_data_payload:
  assumes "cache_ok 0 cache"
  shows "own_data writer cache \<longleftrightarrow> (\<forall>k d. payload cache k = Some d \<longrightarrow> d_writer d = writer)"
proof -
  have dist: "distinct (map fst cache)"
    using assms sn_key.om_wf_distinct by (auto simp: cache_ok_def sn_map_wf_def)
  have "payload cache k = Some d \<longleftrightarrow> (\<exists>c. map_of cache k = Some c \<and> map_option queued (cc_data c) = Some d)" for k d
    by (simp add: payload_def split: option.split)
  then have "payload cache k = Some d \<longleftrightarrow> (\<exists>c d0. (k, c) \<in> set cache \<and> cc_data c = Some d0 \<and> queued d0 = d)" for k d
    using dist by simp
  then show ?thesis by (fastforce simp: own_data_def queued_def)
qed

lemma own_data_same:
  "same_payloads writer cache cache' \<Longrightarrow> cache_ok 0 cache \<Longrightarrow> cache_ok 0 cache' \<Longrightarrow> own_data w cache \<Longrightarrow> own_data w cache'"
  by (simp add: own_data_payload same_payloads_def)

lemma numbers_ok_same:
  assumes "same_payloads writer cache cache'" "cache_ok 0 cache'" "numbers_ok s cache"
  shows "numbers_ok s cache'"
proof -
  have "map fst cache' = map fst cache" using assms(1) by (simp add: same_payloads_def)
  from arg_cong[OF this, of set] have "fst ` set cache' = fst ` set cache" by simp
  then show ?thesis using assms(2,3) unfolding numbers_ok_def by metis
qed

section \<open>The steps of a writer\<close>

text \<open>The proxy object stored under \<open>g\<close>, replaced after a callback changed it.\<close>

definition put_proxy :: "guid \<Rightarrow> reader_proxy \<Rightarrow> stateful_writer \<Rightarrow> stateful_writer" where
  "put_proxy g p w =
     w\<lparr> sw_readers := map (\<lambda>(g', q). if g' = g then (g', p) else (g', q)) (sw_readers w) \<rparr>"

inductive writer_step :: "stateful_writer \<Rightarrow> stateful_writer \<Rightarrow> bool" where
  step_new_change:
    "can_count (w_last_sn w) \<Longrightarrow> sw_new_change kind data handle w = Inr (c, w') \<Longrightarrow> writer_step w w'"
| step_notify: "sw_on_new_change w = Inr w' \<Longrightarrow> writer_step w w'"
| step_send:
    "(g, p) \<in> set (sw_readers w) \<Longrightarrow> sw_send_unsent dev p w ds = (Inr (p', w'), ds') \<Longrightarrow>
     writer_step w (put_proxy g p' w')"
| step_requested: "sw_send_requested dev w ds = (Inr (b, w'), ds') \<Longrightarrow> writer_step w w'"
| step_ack_nack: "sw_receive_ack_nack now1 now2 dest an w = Inr (b, w') \<Longrightarrow> writer_step w w'"
| step_match:
    "sw_new_reader_proxy junk g w = Inr p \<Longrightarrow>
     sw_matched_reader_add (p\<lparr> rp_unicast := us, rp_multicast := ms, rp_expects_inline_qos := q, rp_active := a \<rparr>) w = Inr w' \<Longrightarrow>
     writer_step w w'"
| step_unmatch: "writer_step w (snd (sw_matched_reader_remove_guid g w))"
| step_remove: "writer_step w (w\<lparr> w_cache := snd (remove_change_sn s (w_cache w)) \<rparr>)"
| step_configure:
    "writer_step w (w\<lparr> w_sender := sender, w_push_mode := push, w_heartbeat_period := period,
                      w_nack_response_delay := delay, w_nack_suppression := supp, w_reliability := rel \<rparr>)"

inductive_cases writer_stepE: "writer_step w w'"

lemma each_proxy_keeps:
  assumes "each_proxy f m = Inr m'" "\<forall>(g, p) \<in> set m. P p" "\<And>p p'. f p = Inr p' \<Longrightarrow> P p \<Longrightarrow> P p'"
  shows "\<forall>(g, p) \<in> set m'. P p"
  using assms(1,2)
proof (induction m arbitrary: m')
  case (Cons e m)
  obtain g p where e: "e = (g, p)" by force
  obtain p' m1 where run: "f p = Inr p'" "each_proxy f m = Inr m1" "m' = (g, p') # m1"
    using Cons.prems(1) by (auto simp: e res_simps)
  then show ?case using Cons.IH[OF run(2)] Cons.prems(2) assms(3)[OF run(1)] by (auto simp: e)
qed simp

lemma sw_on_new_change_keeps: "sw_on_new_change w = Inr w' \<Longrightarrow> sw_ok w \<Longrightarrow> sw_ok w'"
proof -
  assume run: "sw_on_new_change w = Inr w'" and ok: "sw_ok w"
  show "sw_ok w'"
  proof (cases "w_sender w")
    case None
    then show ?thesis using run ok by (simp add: sw_on_new_change_def)
  next
    case (Some ms)
    then obtain m where m: "each_proxy (\<lambda>p. asserting (rp_has_handler p)
        (Inr (if \<not> has_unsent_changes p then p\<lparr> rp_trigger := False \<rparr>
              else p\<lparr> rp_trigger := True \<rparr>))) (sw_readers w) = Inr m" "w' = w\<lparr> sw_readers := m \<rparr>"
      using run by (auto simp: sw_on_new_change_def res_simps)
    have "\<forall>(g, p) \<in> set m. proxy_ok (w_last_sn w) p"
      by (rule each_proxy_keeps[OF m(1)])
        (use ok in \<open>auto simp: sw_ok_def res_simps proxy_ok_def split: if_splits\<close>)
    then show ?thesis using ok by (simp add: m(2) sw_ok_def w_entity_def)
  qed
qed

lemma with_status_subset: "fst ` set (with_status st m) \<subseteq> fst ` set m"
  by (auto simp: with_status_def)

lemma proxy_ok_window: "proxy_ok s p \<Longrightarrow> fst ` set (with_status st (rp_changes p)) \<subseteq> sn_window 0"
  using with_status_subset sn_map_keys unfolding proxy_ok_def by blast

lemma send_keeps_proxy:
  assumes "send_changes ms dev writer cache p (snd (find_changes st (rp_changes p) [])) ds = (Inr (rc, cache', p'), ds')"
    and "proxy_ok s p" "cache_ok 0 cache"
  shows "cache_ok 0 cache'" "same_payloads writer cache cache'" "proxy_ok s p'"
proof -
  have changes: "snd (find_changes st (rp_changes p) []) = with_status st (rp_changes p)"
    using find_changes_ok[of 0] assms(2) by (simp add: proxy_ok_def with_status_def)
  note keeps = send_changes_keeps[OF assms(1)[unfolded changes] proxy_ok_window[OF assms(2)] assms(3)]
  show "cache_ok 0 cache'" "same_payloads writer cache cache'" by (rule keeps)+
  show "proxy_ok s p'" using assms(2) by (rule proxy_ok_shape) (simp_all add: keeps(3) mark_underway_def)
qed

lemma sw_ok_update:
  assumes "sw_ok w" "same_payloads (w_entity w) (w_cache w) cache" "cache_ok 0 cache"
    and "\<forall>(g, p) \<in> set m. proxy_ok (w_last_sn w) p"
  shows "sw_ok (w\<lparr> w_cache := cache, sw_readers := m \<rparr>)"
  using assms numbers_ok_same[OF assms(2,3)] own_data_same[OF assms(2) _ assms(3)]
  by (simp add: sw_ok_def w_entity_def numbers_ok_def)

lemma sw_send_unsent_keeps:
  assumes run: "sw_send_unsent dev p w ds = (Inr (p', w'), ds')" and ok: "sw_ok w"
    and mem: "(g, p) \<in> set (sw_readers w)"
  shows "sw_ok (put_proxy g p' w')"
proof -
  obtain ms rc cache where s: "send_changes ms dev (w_entity w) (w_cache w) p (snd (find_changes Unsent (rp_changes p) [])) ds
      = (Inr (rc, cache, p'), ds')" and w': "w' = w\<lparr> w_cache := cache \<rparr>"
    using run by (auto simp: sw_send_unsent_def io_bind_def io_of_def unsent_changes_def asserting_def
        split: option.splits prod.splits sum.splits if_splits)
  have p: "proxy_ok (w_last_sn w) p" and c: "cache_ok 0 (w_cache w)"
    using ok mem by (auto simp: sw_ok_def numbers_ok_def)
  note keeps = send_keeps_proxy[OF s p c]
  have "\<forall>(g', q) \<in> set (sw_readers (put_proxy g p' w')). proxy_ok (w_last_sn w) q"
    using ok keeps(3) by (auto simp: put_proxy_def w' sw_ok_def split: if_splits)
  from sw_ok_update[OF ok keeps(2,1) this] show ?thesis by (simp add: put_proxy_def w')
qed

lemma requested_loop_keeps:
  assumes "requested_loop ms dev writer m cache ds = (Inr (m', cache'), ds')"
    and "\<forall>(g, p) \<in> set m. proxy_ok s p" "cache_ok 0 cache"
  shows "cache_ok 0 cache' \<and> same_payloads writer cache cache' \<and> (\<forall>(g, p) \<in> set m'. proxy_ok s p)"
  using assms
proof (induction m arbitrary: cache m' ds)
  case Nil
  then show ?case by (simp add: io_of_def same_payloads_refl)
next
  case (Cons e m)
  obtain g p where e: "e = (g, p)" by force
  have p: "proxy_ok s p" using Cons.prems(2) by (simp add: e)
  show ?case
  proof (cases "has_requested_changes p")
    case False
    then obtain m1 where "requested_loop ms dev writer m cache ds = (Inr (m1, cache'), ds')" "m' = (g, p) # m1"
      using Cons.prems(1) by (auto simp: e io_bind_def io_of_def split: prod.splits sum.splits)
    then show ?thesis using Cons.IH Cons.prems(2,3) p by (auto simp: e)
  next
    case True
    then obtain rc cache1 p1 ds1 m1 where
      s: "send_changes ms dev writer cache p (snd (find_changes Requested (rp_changes p) [])) ds
        = (Inr (rc, cache1, p1), ds1)"
      and r: "requested_loop ms dev writer m cache1 ds1 = (Inr (m1, cache'), ds')"
      and m': "m' = (g, rpb_set_requested_changes_set sns_unknown p1) # m1"
      using Cons.prems(1) by (auto simp: e io_bind_def io_of_def requested_changes_def split: prod.splits sum.splits)
    note keeps = send_keeps_proxy[OF s p Cons.prems(3)]
    have "proxy_ok s (rpb_set_requested_changes_set sns_unknown p1)"
      using keeps(3) by (rule proxy_ok_shape) (simp_all add: rpb_set_requested_changes_set_def)
    moreover have "cache_ok 0 cache' \<and> same_payloads writer cache1 cache' \<and> (\<forall>(g, p) \<in> set m1. proxy_ok s p)"
      using Cons.prems(2) by (intro Cons.IH[OF r _ keeps(1)]) (simp add: e)
    moreover note same_payloads_trans[OF keeps(2)]
    ultimately show ?thesis by (simp add: m')
  qed
qed

lemma sw_update_commute:
  "(w :: stateful_writer)\<lparr> sw_readers := m, w_cache := cache \<rparr> = w\<lparr> w_cache := cache, sw_readers := m \<rparr>"
  by (rule stateful_writer.equality) simp_all

lemma sw_send_requested_keeps:
  assumes "sw_send_requested dev w ds = (Inr (b, w'), ds')" and ok: "sw_ok w"
  shows "sw_ok w'"
proof (cases "w_sender w = None \<or> sw_readers w = []")
  case True
  then show ?thesis using assms by (auto simp: sw_send_requested_def io_of_def split: option.splits)
next
  case False
  then obtain ms where ms: "w_sender w = Some ms" "sw_readers w \<noteq> []" by auto
  obtain out ds1 where out: "requested_loop ms dev (w_entity w) (sw_readers w) (w_cache w) ds = (out, ds1)"
    by (cases "requested_loop ms dev (w_entity w) (sw_readers w) (w_cache w) ds")
  then obtain m cache where r: "requested_loop ms dev (w_entity w) (sw_readers w) (w_cache w) ds = (Inr (m, cache), ds1)"
    and w': "w' = w\<lparr> sw_readers := m, w_cache := cache \<rparr>"
    using assms(1) ms by (cases out) (auto simp: sw_send_requested_def io_bind_def io_of_def)
  have proxies: "\<forall>(g, p) \<in> set (sw_readers w). proxy_ok (w_last_sn w) p" and c: "cache_ok 0 (w_cache w)"
    using ok by (simp_all add: sw_ok_def numbers_ok_def)
  note keeps = requested_loop_keeps[OF r proxies c]
  show ?thesis
    using sw_ok_update[OF ok conjunct1[OF conjunct2[OF keeps]] conjunct1[OF keeps] conjunct2[OF conjunct2[OF keeps]]]
    by (simp add: w' sw_update_commute)
qed

lemma sw_receive_ack_nack_keeps:
  assumes run: "sw_receive_ack_nack now1 now2 dest an w = Inr (b, w')" and ok: "sw_ok w"
  shows "sw_ok w'" "sw_nack_timer w' = sw_nack_timer w"
proof -
  have "sw_ok w' \<and> sw_nack_timer w' = sw_nack_timer w"
  proof (cases "om_member guid_less (guid_new dest (an_writer an)) (sw_readers w)")
    case False
    then show ?thesis using run ok by (simp add: sw_receive_ack_nack_def Let_def)
  next
    case True
    then obtain m where m: "update_proxy (guid_new dest (an_writer an)) (acknowledge an) (sw_readers w) = Inr m"
      using run by (auto simp: sw_receive_ack_nack_def Let_def res_simps)
    have "\<forall>(g, p) \<in> set m. proxy_ok (w_last_sn w) p"
      using ok acknowledge_keeps by (intro update_proxy_keeps[OF m]) (auto simp: sw_ok_def)
    then have ok1: "sw_ok (w\<lparr> sw_readers := m \<rparr>)" using ok by (simp add: sw_ok_def w_entity_def)
    have timer: "sw_ok (v\<lparr> sw_heartbeat_timer := t \<rparr>) \<longleftrightarrow> sw_ok v" for v t
      by (simp add: sw_ok_def w_entity_def)
    obtain p where p: "om_find guid_less (guid_new dest (an_writer an)) m = Some p"
      using run True m by (auto simp: sw_receive_ack_nack_def Let_def split: option.splits)
    show ?thesis
    proof (cases "has_unacked_changes p")
      case True
      then obtain left where "et_remaining now1 (sw_heartbeat_timer w) = Inr left"
        using run \<open>om_member _ _ _\<close> m p
        by (cases "et_remaining now1 (sw_heartbeat_timer w)") (auto simp: sw_receive_ack_nack_def Let_def)
      then show ?thesis using run \<open>om_member _ _ _\<close> m p True ok1 timer
        by (auto simp: sw_receive_ack_nack_def Let_def)
    next
      case False
      then show ?thesis using run \<open>om_member _ _ _\<close> m p ok1 by (auto simp: sw_receive_ack_nack_def Let_def)
    qed
  qed
  then show "sw_ok w'" "sw_nack_timer w' = sw_nack_timer w" by blast+
qed

lemma sw_new_reader_proxy_ok:
  assumes run: "sw_new_reader_proxy junk g w = Inr p" and ok: "sw_ok w"
  shows "proxy_ok (w_last_sn w) p"
proof -
  define P where "P q \<longleftrightarrow> sn_map_wf 0 (rp_changes q) \<and>
     (\<forall>(k, c) \<in> set (rp_changes q). sn_get k \<le> sn_get (w_last_sn w) \<and> cfr_relevant c)" for q :: reader_proxy
  have nums: "numbers_ok (w_last_sn w) (w_cache w)" using ok by (simp add: sw_ok_def)
  obtain q where q: "rfold (\<lambda>(s, c). sw_add_checked (w_push_mode w) c) (w_cache w) (rp_new junk g False) = Inr q"
    and p: "p = (snd (rpb_set_handler q))\<lparr> rp_attached := True \<rparr>" "fst (rpb_set_handler q)"
    using run by (auto simp: sw_new_reader_proxy_def Let_def res_simps case_prod_beta)
  have "P q"
  proof (rule rfold_invariant[OF q])
    show "P (rp_new junk g False)" by (simp add: P_def rp_new_def reader_proxy_base.defs)
    fix e t t' assume e: "e \<in> set (w_cache w)" and t: "P t"
      and step: "(\<lambda>(s, c). sw_add_checked (w_push_mode w) c) e t = Inr t'"
    obtain s c where sc: "e = (s, c)" by force
    have c: "cc_sn c = s" "s \<in> sn_window 0" "sn_get s \<le> sn_get (w_last_sn w)"
      using nums e sn_map_keys[of 0 "w_cache w"] by (auto simp: sc numbers_ok_def cache_ok_def)
    obtain m where m: "add_change_for_reader s (cfr_new True (new_status (w_push_mode w))) t =
        Inr (True, t\<lparr> rp_changes := m \<rparr>)" "sn_map_wf 0 m"
      "map_of m = (map_of (rp_changes t))(s \<mapsto> cfr_new True (new_status (w_push_mode w)))"
      using add_change_for_reader_ok[of 0 t s] t c(2) by (auto simp: P_def)
    have t': "t' = t\<lparr> rp_changes := m \<rparr>"
      using step m(1) by (simp add: sc sw_add_checked_def sw_add_change_for_reader_def c(1) cfr_new_def new_status_def Let_def)
    have "sn_get k \<le> sn_get (w_last_sn w) \<and> cfr_relevant cf" if "(k, cf) \<in> set m" for k cf
    proof -
      have "map_of m k = Some cf" using that sn_key.om_wf_distinct[of 0 m] m(2) by (simp add: sn_map_wf_def)
      then have "k = s \<and> cf = cfr_new True (new_status (w_push_mode w)) \<or> (k, cf) \<in> set (rp_changes t)"
        unfolding m(3) by (auto split: if_splits dest: map_of_SomeD)
      then show ?thesis using t c(3) by (auto simp: P_def cfr_new_def)
    qed
    then show "P t'" using m(2) by (auto simp: P_def t')
  qed
  moreover have "rp_has_handler (snd (rpb_set_handler q))" "rp_changes (snd (rpb_set_handler q)) = rp_changes q"
    by (simp_all add: rpb_set_handler_def)
  ultimately show ?thesis by (simp add: proxy_ok_def P_def p(1))
qed

lemma om_erase_members: "set (om_erase lt k m) \<subseteq> set m"
  by (induction m) (auto split: if_splits)

lemma om_insert_subset: "set (om_insert lt k v m) \<subseteq> insert (k, v) (set m)"
  by (induction m) (auto split: if_splits)

lemma remove_keeps:
  assumes "sw_ok w" shows "sw_ok (w\<lparr> w_cache := snd (remove_change_sn s (w_cache w)) \<rparr>)"
proof -
  have mem: "e \<in> set (snd (remove_change_sn s m)) \<Longrightarrow> e \<in> set m" for e m
    using om_erase_members[of sn_less s m] by (auto simp: remove_change_sn_def split: if_splits)
  have wf: "sn_map_wf 0 (snd (remove_change_sn s m))" if "sn_map_wf 0 m" for m :: data_cache
    using that sn_key.om_wf_erase[of 0 m s] by (simp add: remove_change_sn_def sn_map_wf_def)
  have own: "own_data e m \<Longrightarrow> own_data e (snd (remove_change_sn s m))" for e m
    unfolding own_data_def using mem by blast
  have nums: "numbers_ok k m \<Longrightarrow> numbers_ok k (snd (remove_change_sn s m))" for k m
    using wf mem unfolding numbers_ok_def cache_ok_def by blast
  show ?thesis using assms own nums by (simp add: sw_ok_def w_entity_def)
qed

theorem writer_step_ok: "writer_step w w' \<Longrightarrow> sw_ok w \<Longrightarrow> sw_ok w'"
proof (induction rule: writer_step.induct)
  case (step_new_change w kind data handle c w')
  then show ?case using sw_new_change_ok[of w kind data handle] by auto
next
  case (step_notify w w')
  then show ?case by (rule sw_on_new_change_keeps)
next
  case (step_send g p w dev ds p' w' ds')
  then show ?case using sw_send_unsent_keeps by blast
next
  case (step_requested dev w ds b w' ds')
  then show ?case using sw_send_requested_keeps by blast
next
  case (step_ack_nack now1 now2 dest an w b w')
  then show ?case using sw_receive_ack_nack_keeps by blast
next
  case (step_match junk g w p a q ms us w')
  let ?p = "p\<lparr> rp_unicast := us, rp_multicast := ms, rp_expects_inline_qos := q, rp_active := a \<rparr>"
  have "proxy_ok (w_last_sn w) ?p"
    using sw_new_reader_proxy_ok[OF step_match(1) step_match(3)] by (rule proxy_ok_shape) simp_all
  then have "\<forall>(g, q) \<in> set (om_insert guid_less (rp_guid ?p) ?p (sw_readers w)). proxy_ok (w_last_sn w) q"
    using step_match(3) om_insert_subset[of guid_less "rp_guid ?p" ?p "sw_readers w"]
    unfolding sw_ok_def by blast
  moreover have "w' = w\<lparr> sw_readers := om_insert guid_less (rp_guid ?p) ?p (sw_readers w) \<rparr>"
    using step_match(2) by (simp add: sw_matched_reader_add_def res_simps)
  ultimately show ?case using step_match(3) by (simp add: sw_ok_def w_entity_def)
next
  case (step_unmatch w g)
  then show ?case using om_erase_members[of guid_less g "sw_readers w"]
    by (auto simp: sw_matched_reader_remove_guid_def sw_ok_def w_entity_def)
next
  case (step_remove w s)
  then show ?case by (rule remove_keeps)
qed (auto simp: sw_ok_def w_entity_def)

definition writer_reach :: "stateful_writer \<Rightarrow> stateful_writer \<Rightarrow> bool" where
  "writer_reach = writer_step\<^sup>*\<^sup>*"

lemma sw_ok_new:
  "g \<noteq> guid_unknown \<Longrightarrow> sw_ok (sw_new now1 now2 g rel)"
  using numbers_ok_new[of g rel]
  by (simp add: sw_ok_def sw_new_def rtps_writer.defs w_new_def et_new_def dur_zero_def own_data_def cache_new_def)

lemma writer_reach_ok: "writer_reach w w' \<Longrightarrow> sw_ok w \<Longrightarrow> sw_ok w'"
  unfolding writer_reach_def by (induction rule: rtranclp_induct) (auto intro: writer_step_ok)

section \<open>Acknowledgements\<close>

lemma ack_changes_key_set [simp]: "fst ` set (ack_changes c m) = fst ` set m"
  by (metis ack_changes_keys list.set_map)

lemma acknowledge_ok:
  assumes p: "proxy_ok s p" and ok: "sns_ok (an_sn_state an)"
    and here: "sns_base (an_sn_state an) \<in> fst ` set (rp_changes p)"
    and small: "sn_get (sns_base (an_sn_state an)) < 2305843009213693696"
  shows "\<exists>p'. acknowledge an p = Inr p' \<and> proxy_ok s p' \<and>
    (\<forall>k. map_of (rp_changes p') k = map_option
      (\<lambda>c. if requests (an_sn_state an) k then c\<lparr> cfr_status_of := Requested \<rparr>
           else if sn_get k < sn_get (sns_base (an_sn_state an)) then c\<lparr> cfr_status_of := Acknowledged \<rparr>
           else c) (map_of (rp_changes p) k))"
proof -
  let ?req = "an_sn_state an" let ?b = "sn_get (sns_base ?req)" let ?ack = "sn_of_value (wrap64 (?b - 1))"
  have wf: "sn_map_wf 0 (rp_changes p)" using p by (simp add: proxy_ok_def)
  have base: "sns_base ?req \<in> sn_window 0" using sn_map_keys[OF wf] here by auto
  have b: "1 \<le> ?b" using sn_valid_get_range[OF sn_window_valid[OF base]] by simp
  have w64: "wrap64 (?b - 1) = ?b - 1" using b small by (intro wrap64_id) (simp add: in_int64_def)
  have ack: "?ack \<in> sn_window 0" "sn_get ?ack = (if ?b = 1 then 1 else ?b - 1)"
  proof -
    have "?ack = sn_of_value (if ?b = 1 then 1 else ?b - 1)" using b by (simp add: w64 sn_of_value_def)
    moreover have "1 \<le> (if ?b = 1 then 1 else ?b - 1)" "(if ?b = 1 then 1 else ?b - 1) < 4611686018427387904"
      using b small by auto
    ultimately show "?ack \<in> sn_window 0" "sn_get ?ack = (if ?b = 1 then 1 else ?b - 1)"
      using sn_of_value_low_window sn_get_of_value by simp_all
  qed
  let ?p1 = "p\<lparr> rp_changes := ack_changes ?ack (rp_changes p) \<rparr>"
  have p1: "acked_changes_set ?ack p = Inr ?p1"
    using sn_valid_known[OF sn_window_valid[OF ack(1)]] by (simp add: acked_changes_set_def)
  have here1: "sns_base ?req \<in> fst ` set (rp_changes ?p1)"
    using here by simp
  obtain m where m: "requested_changes_set ?req ?p1 = Inr (?p1\<lparr> rp_changes := m \<rparr>)" "sn_map_wf 0 m"
    "\<forall>k. map_of m k = map_option (\<lambda>c. if requests ?req k then c\<lparr> cfr_status_of := Requested \<rparr> else c)
       (map_of (rp_changes ?p1) k)"
    using requested_changes_set_present[of ?p1 ?req] ack_changes_wf[OF wf] ok here1 small by auto
  let ?p' = "rpb_set_requested_changes_set ?req (?p1\<lparr> rp_changes := m \<rparr>)"
  have run: "acknowledge an p = Inr ?p'" by (simp add: acknowledge_def Let_def p1 m(1))
  have keys: "k \<in> sn_window 0" if "map_of (rp_changes p) k = Some c" for k c
    using sn_map_keys[OF wf] map_of_SomeD[OF that] by force
  have "map_of m k = map_option
      (\<lambda>c. if requests ?req k then c\<lparr> cfr_status_of := Requested \<rparr>
           else if sn_get k < ?b then c\<lparr> cfr_status_of := Acknowledged \<rparr> else c) (map_of (rp_changes p) k)" for k
  proof (cases "map_of (rp_changes p) k")
    case None
    then show ?thesis using m(3) ack_changes_map_of[OF wf ack(1)] by simp
  next
    case (Some c)
    have "1 \<le> sn_get k" using sn_valid_get_range[OF sn_window_valid[OF keys[OF Some]]] by simp
    moreover have "sn_get k = 1 \<Longrightarrow> ?b = 1 \<Longrightarrow> requests ?req k"
      using sn_get_inj[OF sn_window_valid[OF keys[OF Some]] sn_window_valid[OF base]]
      by (simp add: requests_def)
    ultimately show ?thesis using m(3) ack_changes_map_of[OF wf ack(1), of k] Some ack(2) b by auto
  qed
  moreover have "proxy_ok s ?p'" by (rule acknowledge_keeps[OF run p])
  ultimately show ?thesis using run by (auto simp: rpb_set_requested_changes_set_def)
qed

lemma update_proxy_fails:
  "om_find guid_less k m = Some p \<Longrightarrow> f p = Inl e \<Longrightarrow> update_proxy k f m = Inl e"
  by (induction k f m rule: update_proxy.induct) (auto split: if_splits)

lemma acknowledge_unknown_base:
  assumes "proxy_ok s p" "sns_base (an_sn_state an) \<in> sn_window 0" "sn_get s < sn_get (sns_base (an_sn_state an))"
  shows "acknowledge an p = Inl AssertFailed"
proof -
  let ?req = "an_sn_state an" let ?ack = "sn_of_value (wrap64 (sn_get (sns_base ?req) - 1))"
  have wf: "sn_map_wf 0 (rp_changes p)" using assms(1) by (simp add: proxy_ok_def)
  have "?ack \<noteq> sn_unknown" by (intro sn_valid_known sn_of_value_valid wrap64_range)
  then have p1: "acked_changes_set ?ack p = Inr (p\<lparr> rp_changes := ack_changes ?ack (rp_changes p) \<rparr>)"
    by (simp add: acked_changes_set_def)
  have "sns_base ?req \<notin> fst ` set (rp_changes p)" using assms(1,3) by (fastforce simp: proxy_ok_def)
  then have "sns_base ?req \<notin> fst ` set (ack_changes ?ack (rp_changes p))"
    by simp
  then have "requested_changes_set ?req (p\<lparr> rp_changes := ack_changes ?ack (rp_changes p) \<rparr>) = Inl AssertFailed"
    using requested_changes_set_absent[of "p\<lparr> rp_changes := ack_changes ?ack (rp_changes p) \<rparr>" ?req]
      ack_changes_wf[OF wf] assms(2) by simp
  then show ?thesis by (simp add: acknowledge_def Let_def p1)
qed

lemma acked_by_all_iff: "acked_by_all s m \<longleftrightarrow> (\<forall>(g, p) \<in> set m. is_acked_change s p)"
  by (induction s m rule: acked_by_all.induct) auto

lemma is_acked_change_iff:
  assumes "sn_map_wf h (rp_changes p)" "s \<in> sn_window h"
  shows "is_acked_change s p \<longleftrightarrow>
    (\<exists>c. map_of (rp_changes p) s = Some c \<and> cfr_relevant c \<and> cfr_status_of c = Acknowledged)"
  using sn_key.om_find_map_of[OF _ assms(2), of "rp_changes p"] assms(1)
  by (simp add: is_acked_change_def sn_map_wf_def split: option.split)

section \<open>What an ACKNACK does to the matched readers\<close>

lemma update_proxy_found:
  assumes "om_find guid_less k m = Some p" "f p = Inr p'"
  shows "\<exists>m'. update_proxy k f m = Inr m' \<and> om_find guid_less k m' = Some p'
    \<and> map fst m' = map fst m \<and> (\<forall>(g, q) \<in> set m'. (g, q) \<in> set m \<or> q = p')"
  using assms
proof (induction k f m rule: update_proxy.induct)
  case (2 k f g q m)
  show ?case
  proof (cases "guid_less g k")
    case True
    then obtain m' where "update_proxy k f m = Inr m'" "om_find guid_less k m' = Some p'"
      "map fst m' = map fst m" "\<forall>(g, q) \<in> set m'. (g, q) \<in> set m \<or> q = p'"
      using 2 by auto
    then show ?thesis using True by auto
  next
    case False
    then show ?thesis using 2(2,3) by (auto split: if_splits)
  qed
qed simp

lemma om_find_in: "om_find lt k m = Some v \<Longrightarrow> \<exists>k'. (k', v) \<in> set m"
  by (induction m) (auto split: if_splits)

lemma matched_proxy_ok:
  "sw_ok w \<Longrightarrow> om_find guid_less k (sw_readers w) = Some p \<Longrightarrow> proxy_ok (w_last_sn w) p"
  using om_find_in by (fastforce simp: sw_ok_def)

text \<open>A writer that has handed out number 2 to its one matched reader, for the concrete instances.\<close>

definition sample_guid :: guid where
  "sample_guid = guid_new \<lparr> gp_octets = replicate 12 1 \<rparr> ei_unknown"

definition sample_proxy :: "cfr_status \<Rightarrow> reader_proxy" where
  "sample_proxy st = (rp_new True sample_guid False)
     \<lparr> rp_unicast := [loc_default], rp_has_handler := True, rp_changes := [(sn_of_value 2, cfr_new True st)] \<rparr>"

definition sample_writer :: "cfr_status \<Rightarrow> stateful_writer" where
  "sample_writer st = (sw_new 0 0 sample_guid Reliable)
     \<lparr> w_last_sn := sn_of_value 2, sw_readers := [(sample_guid, sample_proxy st)],
       w_sender := Some (ms_new gp_unknown 1500) \<rparr>"

lemma sample_sn:
  "sn_of_value 2 \<in> sn_window 0" "sn_get (sn_of_value 2) = 2" "sn_of_value 3 \<in> sn_window 0"
  "sn_get (sn_of_value 3) = 3"
  by (simp_all add: sn_of_value_low_window sn_get_of_value)

lemma sample_proxy_ok: "proxy_ok (sn_of_value 2) (sample_proxy st)"
  using sample_sn by (simp add: proxy_ok_def sample_proxy_def sn_map_wf_Cons cfr_new_def)

lemma sample_writer_ok: "sw_ok (sample_writer st)"
  using sample_sn sample_proxy_ok
  by (simp add: sw_ok_def sample_writer_def sw_new_def rtps_writer.defs w_new_def et_new_def dur_zero_def
      own_data_def cache_new_def numbers_ok_def cache_ok_def sn_map_wf_def sample_guid_def guid_new_def
      guid_unknown_def gp_unknown_def)

section \<open>Properties\<close>

text \<open>C1: Every writer reachable from a new one by handing out changes, sending, acknowledgements,
  matching, unmatching, removing changes and configuring satisfies the invariant of the protocol: its
  cache is well-formed, no number in the cache or known to a matched reader exceeds the last one handed
  out, every proxy has its handler and only relevant changes, and cached data carry the writer's id.\<close>

theorem writer_invariant:
  assumes "g \<noteq> guid_unknown" "writer_reach (sw_new now1 now2 g rel) w"
  shows "sw_ok w"
  using writer_reach_ok[OF assms(2) sw_ok_new[OF assms(1)]] .

theorem writer_invariant_witness:
  "sw_ok (snd (sw_matched_reader_remove_guid sample_guid (sw_new 0 0 sample_guid Reliable)))"
proof -
  have g: "sample_guid \<noteq> guid_unknown" by (simp add: sample_guid_def guid_new_def guid_unknown_def gp_unknown_def)
  have "writer_reach (sw_new 0 0 sample_guid Reliable)
      (snd (sw_matched_reader_remove_guid sample_guid (sw_new 0 0 sample_guid Reliable)))"
    unfolding writer_reach_def by (rule r_into_rtranclp) (rule step_unmatch)
  from writer_invariant[OF g this] show ?thesis .
qed

text \<open>C5: \<open>NewChange\<close> of a writer that satisfies the invariant returns the change with the next number
  and the writer's GUID, stores it in the cache under that number, tells every matched proxy about it,
  unsent in push mode and unacknowledged otherwise, raises the guard and keeps the invariant.\<close>

theorem new_change_announced:
  assumes "sw_ok w" "can_count (w_last_sn w)"
  shows "\<exists>c w'. sw_new_change kind data handle w = Inr (c, w') \<and> sw_ok w'
    \<and> cc_sn c = sn_inc (w_last_sn w) \<and> cc_guid c = w_guid w \<and> w_last_sn w' = sn_inc (w_last_sn w)
    \<and> map_of (w_cache w') = (map_of (w_cache w))(sn_inc (w_last_sn w) \<mapsto> c)
    \<and> list_all2 (\<lambda>(g, p) (g', p'). g' = g \<and> p' = p\<lparr> rp_changes := rp_changes p' \<rparr>
          \<and> map_of (rp_changes p') = (map_of (rp_changes p))(sn_inc (w_last_sn w) \<mapsto>
               cfr_new True (if w_push_mode w then Unsent else Unacknowledged)))
        (sw_readers w) (sw_readers w')
    \<and> w_new_change_trigger w'"
  using sw_new_change_ok[OF assms, of kind data handle]
  by (auto simp: proxy_extended_def new_status_def cc_new_def)

theorem new_change_announced_witness:
  "\<exists>c w'. sw_new_change Alive None 0 (sample_writer Underway) = Inr (c, w') \<and> cc_sn c = sn_of_value 3"
proof -
  have inc: "sn_inc (sn_of_value 2) = sn_of_value 3" by (simp add: sn_defs sn_max_def)
  have "can_count (w_last_sn (sample_writer Underway))"
    using sample_sn by (simp add: can_count_def sample_writer_def inc)
  from new_change_announced[OF sample_writer_ok this, of Alive None 0] show ?thesis
    by (auto simp: sample_writer_def inc)
qed

text \<open>C4: When the guard of a matched reader with one unicast locator fires, the writer sends one message
  to that locator, the cached data of the unsent changes in order and then the GAPs for those no longer
  in the cache, and afterwards every unsent change of the proxy is underway and nothing else changed.\<close>

theorem unsent_changes_are_sent:
  assumes "sw_ok w" "(g, p) \<in> set (sw_readers w)" "w_sender w = Some ms" "rp_unicast p = [l]"
    and "has_unsent_changes p"
    and "\<forall>(k, c) \<in> set (rp_changes p). sendable (w_entity w) (w_cache w) k \<and> gap_key k"
    and "write_message ms dev (messages_for (w_entity w) (w_cache w)
           (map fst (filter (\<lambda>(k, c). cfr_status_of c = Unsent) (rp_changes p)))) l ds = (Inr rc, ds')"
  shows "\<exists>p' cache. sw_send_unsent dev p w ds = (Inr (p', w\<lparr> w_cache := cache \<rparr>), ds')
    \<and> map fst cache = map fst (w_cache w) \<and> (\<forall>k. payload cache k = payload (w_cache w) k)
    \<and> (\<forall>k. map_of (rp_changes p') k = map_option
         (\<lambda>c. if cfr_status_of c = Unsent then c\<lparr> cfr_status_of := Underway \<rparr> else c) (map_of (rp_changes p) k))"
proof -
  have p: "proxy_ok (w_last_sn w) p" using assms(1,2) by (auto simp: sw_ok_def)
  then have wf: "sn_map_wf 0 (rp_changes p)" by (simp add: proxy_ok_def)
  have cache: "cache_ok 0 (w_cache w)" using assms(1) by (simp add: sw_ok_def numbers_ok_def)
  have some: "with_status Unsent (rp_changes p) \<noteq> []"
    using assms(5) by (auto simp: has_unsent_changes_def has_change_state_iff with_status_def filter_empty_conv)
  have rel: "\<forall>(k, c) \<in> set (with_status Unsent (rp_changes p)).
      cfr_relevant c \<and> sendable (w_entity w) (w_cache w) k \<and> gap_key k"
    using p assms(6) by (auto simp: proxy_ok_def with_status_def)
  show ?thesis
    using sw_send_unsent_ok[OF assms(3) wf cache assms(4) refl some rel assms(7)[folded with_status_def]]
    by (auto simp: same_payloads_def moved_to_underway_def)
qed

theorem unsent_changes_are_sent_witness:
  "\<exists>p' w' ds. sw_send_unsent (\<lambda>cs a q. int (length cs)) (sample_proxy Unsent) (sample_writer Unsent) []
     = (Inr (p', w'), ds) \<and> length ds = 1
   \<and> map_of (rp_changes p') (sn_of_value 2) = Some (cfr_new True Underway)"
proof -
  let ?p = "sample_proxy Unsent" let ?w = "sample_writer Unsent" let ?dev = "\<lambda>cs (a :: u8 list) (q :: int). int (length cs)"
  have fields: "w_cache ?w = []" "w_sender ?w = Some (ms_new gp_unknown 1500)" "rp_unicast ?p = [loc_default]"
    "rp_changes ?p = [(sn_of_value 2, cfr_new True Unsent)]" "(sample_guid, ?p) \<in> set (sw_readers ?w)"
    "w_entity ?w = ei_unknown"
    by (simp_all add: sample_writer_def sample_proxy_def sw_new_def rtps_writer.defs w_new_def cache_new_def
        w_entity_def sample_guid_def guid_new_def)
  have key: "gap_key (sn_of_value 2)"
    using sample_sn by (simp add: gap_key_def sn_window_valid)
  have msgs: "messages_for ei_unknown [] [sn_of_value 2] = [OutGap (gap_message ei_unknown (sn_of_value 2))]"
    by (simp add: messages_for_def queued_data_def missing_keys_def map_filter_def payload_def)
  have ok: "gap_ok (submessage_base.truncate (gap_message ei_unknown (sn_of_value 2))) (gap_message ei_unknown (sn_of_value 2))"
    using sns_ok_new sn_valid_representable[OF sn_of_value_valid[of 2]]
    by (simp add: gap_ok_def gap_message_def gap_new_def gap_of_base_def submessage_base.defs in_int64_def
        sns_exact_def sns_received_def sns_new_def sns_vector_size_def)
  have g: "gp_ok gp_unknown" by simp
  have "length (control_bytes (OutGap (gap_message ei_unknown (sn_of_value 2)))) \<le> 60"
    by (simp add: sh_enc_def gap_enc_def gap_message_def gap_new_def gap_of_base_def submessage_base.defs
        sn_enc_length sns_enc_def sns_new_def sns_vector_size_def ei_enc_def ei_unknown_def)
  then have "int (length (message_bytes gp_unknown [control_bytes (OutGap (gap_message ei_unknown (sn_of_value 2)))])) < 1500"
    using datagram_prefix_length[OF g] by (simp add: message_bytes_def)
  then have size: "int (length (message_bytes (ms_prefix (ms_new gp_unknown 1500))
      (map control_bytes [OutGap (gap_message ei_unknown (sn_of_value 2))]))) < ms_datagram_size (ms_new gp_unknown 1500)"
    by (simp add: ms_new_def)
  have "emits_all [OutGap (gap_message ei_unknown (sn_of_value 2))]
      (map control_bytes [OutGap (gap_message ei_unknown (sn_of_value 2))])"
    using ok by (intro emits_all_control) simp
  from write_message_single[where dev = ?dev and l = loc_default and ds = "[]", OF this _ _ size]
  obtain d where wr: "write_message (ms_new gp_unknown 1500) ?dev
      [OutGap (gap_message ei_unknown (sn_of_value 2))] loc_default [] = (Inr RcOk, [d])"
    using g by (simp add: ms_new_def)
  define ds where "ds = [d]"
  have ds: "length ds = 1" and wr: "write_message (ms_new gp_unknown 1500) ?dev
      [OutGap (gap_message ei_unknown (sn_of_value 2))] loc_default [] = (Inr RcOk, ds)"
    using wr by (simp_all add: ds_def)
  have un: "has_unsent_changes ?p" by (simp add: has_unsent_changes_def fields cfr_new_def)
  have send: "\<forall>(k, c) \<in> set (rp_changes ?p). sendable (w_entity ?w) (w_cache ?w) k \<and> gap_key k"
    using key by (simp add: fields sendable_def)
  have out: "write_message (ms_new gp_unknown 1500) ?dev (messages_for (w_entity ?w) (w_cache ?w)
      (map fst (filter (\<lambda>(k, c). cfr_status_of c = Unsent) (rp_changes ?p)))) loc_default [] = (Inr RcOk, ds)"
    using wr msgs by (simp add: fields cfr_new_def)
  from unsent_changes_are_sent[OF sample_writer_ok fields(5) fields(2) fields(3) un send out]
  show ?thesis using ds fields(4) by (fastforce simp: cfr_new_def)
qed



text \<open>An ACKNACK that acknowledges everything, with a base above the last number the writer has
  handed out, stops the program when it comes from a matched reader: the base is not a known change.\<close>

theorem full_acknowledgement_aborts:
  assumes "sw_ok w" "om_find guid_less (guid_new dest (an_writer an)) (sw_readers w) = Some p"
    and "sns_base (an_sn_state an) \<in> sn_window 0"
    and "sn_get (w_last_sn w) < sn_get (sns_base (an_sn_state an))"
  shows "sw_receive_ack_nack now1 now2 dest an w = Inl AssertFailed"
proof -
  have "acknowledge an p = Inl AssertFailed"
    by (rule acknowledge_unknown_base[OF matched_proxy_ok[OF assms(1,2)] assms(3,4)])
  then show ?thesis
    using update_proxy_fails[where f = "acknowledge an", OF assms(2)]
    by (simp add: sw_receive_ack_nack_def om_member_def assms(2))
qed

theorem full_acknowledgement_aborts_witness:
  "sw_receive_ack_nack 0 0 (guid_prefix_of sample_guid)
     (an_new\<lparr> an_sn_state := sns_set_base (sn_of_value 3) sns_new \<rparr>) (sample_writer Underway) = Inl AssertFailed"
proof (rule full_acknowledgement_aborts[OF sample_writer_ok])
  let ?an = "an_new\<lparr> an_sn_state := sns_set_base (sn_of_value 3) sns_new \<rparr>"
  have "guid_new (guid_prefix_of sample_guid) (an_writer ?an) = sample_guid"
    by (simp add: sample_guid_def guid_new_def an_new_def an_of_base_def submessage_base.defs)
  then show "om_find guid_less (guid_new (guid_prefix_of sample_guid) (an_writer ?an)) (sw_readers (sample_writer Underway))
      = Some (sample_proxy Underway)"
    by (simp add: sample_writer_def guid_less_same_prefix)
qed (use sample_sn in \<open>simp_all add: sns_set_base_def sample_writer_def\<close>)

text \<open>In a writer that satisfies the invariant \<open>IsAckedByAll\<close> holds for a change exactly when every
  matched reader's proxy knows it and has it acknowledged; a proxy that does not know the change makes
  it false.\<close>

theorem acked_by_all_exact:
  assumes "sw_ok w" "cc_sn c \<in> sn_window 0"
  shows "sw_is_acked_by_all c w \<longleftrightarrow> (\<forall>(g, p) \<in> set (sw_readers w).
    \<exists>cf. map_of (rp_changes p) (cc_sn c) = Some cf \<and> cfr_status_of cf = Acknowledged)"
proof -
  have "is_acked_change (cc_sn c) p \<longleftrightarrow>
      (\<exists>cf. map_of (rp_changes p) (cc_sn c) = Some cf \<and> cfr_status_of cf = Acknowledged)"
    if "(g, p) \<in> set (sw_readers w)" for g p
  proof -
    have p: "proxy_ok (w_last_sn w) p" using assms(1) that by (auto simp: sw_ok_def)
    then have "cfr_relevant cf" if "map_of (rp_changes p) (cc_sn c) = Some cf" for cf
      using map_of_SomeD[OF that] by (auto simp: proxy_ok_def)
    then show ?thesis using is_acked_change_iff[OF _ assms(2), of p] p by (auto simp: proxy_ok_def)
  qed
  then show ?thesis by (auto simp: sw_is_acked_by_all_def acked_by_all_iff)
qed

theorem acked_by_all_exact_witness:
  "\<not> sw_is_acked_by_all (cc_new Alive guid_unknown (sn_of_value 2) None 0) (sample_writer Underway)"
  using acked_by_all_exact[OF sample_writer_ok, of "cc_new Alive guid_unknown (sn_of_value 2) None 0" Underway] sample_sn
  by (simp add: cc_new_def sample_writer_def sample_proxy_def cfr_new_def)

text \<open>Sending a heartbeat never succeeds once the writer has a message sender and a matched reader:
  with changes in the cache \<open>GetSequenceNumberMax\<close> reads through \<open>end()\<close>, and with an empty cache
  setting the final flag fails its assertion.\<close>

theorem heartbeat_never_sent:
  assumes "w_sender w \<noteq> None" "sw_readers w \<noteq> []"
  shows "sw_send_heartbeat dev w ds =
    (Inl (if w_cache w = [] then AssertFailed else UndefinedBehaviour), ds)"
  by (rule sw_send_heartbeat_fails[OF assms])

theorem heartbeat_never_sent_witness:
  "sw_send_heartbeat (\<lambda>cs a q. int (length cs)) (sample_writer Underway) [] = (Inl AssertFailed, [])"
  using heartbeat_never_sent[of "sample_writer Underway" "\<lambda>cs a q. int (length cs)" "[]"]
  by (simp add: sample_writer_def sw_new_def rtps_writer.defs w_new_def cache_new_def)

text \<open>The NACK response timer is never started: in no reachable writer does it expire, so a pass of
  \<open>WaitDispatch\<close> of a reliable writer whose heartbeat is not due ends after the callbacks, and changes
  readers have requested are never sent again.\<close>

theorem requested_changes_never_resent:
  assumes "w_reliability w = Reliable" "clock_ok now1 (sw_heartbeat_timer w)" "clock_ok now2 (sw_nack_timer w)"
    and "\<forall>ms. callbacks ms w ds = (Inr w1, ds1)" "sw_ok w1"
    and "clock_ok now3 (sw_heartbeat_timer w1)" "et_has_expired now3 (sw_heartbeat_timer w1) = Inr False"
    and "clock_ok now4 (sw_nack_timer w1)"
  shows "sw_wait_dispatch callbacks dev (now1, now2, now3, now4) milliseconds w ds = (Inr (RcOk, w1), ds1)"
proof -
  have "et_has_expired now4 (sw_nack_timer w1) = Inr False"
    using assms(5,8) by (intro infinite_timer_never_expires) (simp_all add: sw_ok_def)
  then show ?thesis
    using assms(1,4,7) et_remaining_ok[OF assms(2)] et_remaining_ok[OF assms(3)]
    by (simp add: sw_wait_dispatch_def io_bind_def io_of_def)
qed

theorem requested_changes_never_resent_witness:
  "sw_wait_dispatch (\<lambda>ms. io_of \<circ> Inr) (\<lambda>cs a q. int (length cs)) (0, 0, 0, 0) 10 (sample_writer Requested) []
     = (Inr (RcOk, sample_writer Requested), [])"
proof -
  have timers: "sw_heartbeat_timer (sample_writer Requested) = et_new 0 dur_infinite"
    "sw_nack_timer (sample_writer Requested) = et_new 0 dur_infinite"
    "w_reliability (sample_writer Requested) = Reliable"
    by (simp_all add: sample_writer_def sw_new_def rtps_writer.defs w_new_def)
  have clock: "clock_ok 0 (et_new 0 dur_infinite)"
    by (simp add: clock_ok_def et_new_def dur_infinite_def int64_max_def dur_zero_def)
  have idle: "et_has_expired 0 (et_new 0 dur_infinite) = Inr False"
    by (rule infinite_timer_never_expires[OF _ clock]) (simp add: et_new_def)
  show ?thesis
    using requested_changes_never_resent[where w = "sample_writer Requested" and ds = "[]"
        and callbacks = "\<lambda>ms. io_of \<circ> Inr" and ?w1.0 = "sample_writer Requested" and ?ds1.0 = "[]"]
      timers clock idle sample_writer_ok
    by (simp add: io_of_def)
qed

end
