(* ===== verification/Stateless_Writer.thy ===== *)
theory Stateless_Writer
  imports Stateful_Writer
begin

text \<open>
  \<open>RTPS/Stateless/StatelessWriter\<close> and \<open>ReaderLocator\<close>: the writer that keeps one entry per
  locator instead of one proxy per reader. The class declares a member \<open>messageSender_\<close> of its own
  that hides the one \<open>SetMessageSender\<close> of the base class sets: the member is \<open>sl_sender\<close>, the
  hidden one is \<open>w_sender\<close>. The clock readings an operation makes are arguments of it.
\<close>

record reader_locator = reader_proxy_base +
  rl_locator :: locator
  rl_expects_inline_qos :: bool
  rl_locator_list :: "locator list"
  rl_requested_changes :: data_cache
  rl_unsent_changes :: data_cache

definition rl_new :: "locator \<Rightarrow> bool \<Rightarrow> reader_locator" where
  "rl_new l qos = reader_proxy_base.extend rpb_new
     \<lparr> rl_locator = l, rl_expects_inline_qos = qos, rl_locator_list = [], rl_requested_changes = [],
       rl_unsent_changes = [] \<rparr>"

record stateless_writer = rtps_writer +
  sl_resend_period :: int
  sl_locators :: "(locator, reader_locator) omap"
  sl_sender :: "message_sender option"
  sl_heartbeat_timer :: elapsed_timer
  sl_nack_timer :: elapsed_timer

definition sl_new :: "int \<Rightarrow> int \<Rightarrow> guid \<Rightarrow> reliability_kind \<Rightarrow> int \<Rightarrow> stateless_writer" where
  "sl_new now1 now2 g rel resend = rtps_writer.extend (w_new g rel)
     \<lparr> sl_resend_period = resend, sl_locators = [], sl_sender = None,
       sl_heartbeat_timer = et_new now1 dur_infinite, sl_nack_timer = et_new now2 dur_infinite \<rparr>"

section \<open>Sending\<close>

text \<open>One round of the loop of \<open>operator()()\<close>.\<close>

definition sl_notify_locator :: "sequence_number \<Rightarrow> reader_locator \<Rightarrow> reader_locator res" where
  "sl_notify_locator highest p =
     asserting (highest \<noteq> sn_unknown)
      (asserting (rp_highest_sent p \<noteq> sn_unknown)
        (asserting (rp_has_handler p)
          (Inr (if sn_greater highest (rp_highest_sent p) then p\<lparr> rp_trigger := True \<rparr>
                else p\<lparr> rp_trigger := False \<rparr>))))"

definition sl_on_new_change :: "int \<Rightarrow> int \<Rightarrow> stateless_writer \<Rightarrow> stateless_writer res" where
  "sl_on_new_change now1 now2 w =
     (case sl_sender w of
        None \<Rightarrow> Inr w
      | Some ms \<Rightarrow>
          rbind (sequence_number_max (w_cache w)) (\<lambda>highest.
          rbind (each_proxy (sl_notify_locator highest) (sl_locators w)) (\<lambda>locators.
            let w1 = w\<lparr> sl_locators := locators \<rparr> in
            rbind (et_remaining now1 (sl_heartbeat_timer w1)) (\<lambda>left.
              Inr (if w_heartbeat_period w1 < left
                   then w1\<lparr> sl_heartbeat_timer :=
                          et_start_with now2 (w_heartbeat_period w1) (sl_heartbeat_timer w1) \<rparr>
                   else w1)))))"

text \<open>
  \<open>operator()(ReaderLocator)\<close>, the callback of the guard of a locator. The range sent starts with
  the number sent last; the loop over the range may not end, then the result is \<open>None\<close>.
\<close>

definition sl_on_locator ::
  "device \<Rightarrow> reader_locator \<Rightarrow> stateless_writer \<Rightarrow> datagram list
     \<Rightarrow> ((reader_locator \<times> stateless_writer) res \<times> datagram list) option" where
  "sl_on_locator dev p w ds =
     (case sl_sender w of
        None \<Rightarrow> Some (Inl AssertFailed, ds)
      | Some ms \<Rightarrow>
          (case sequence_number_max (w_cache w) of
             Inl e \<Rightarrow> Some (Inl e, ds)
           | Inr highest \<Rightarrow>
               if sn_greater highest (rp_highest_sent p)
               then map_option (\<lambda>(r, ds'). io_bind (io_of r) (\<lambda>(rc, cache).
                      let p1 = p\<lparr> rp_highest_sent := highest \<rparr> in
                      io_of (asserting (highest = rp_highest_sent p1) (Inr (p1, w\<lparr> w_cache := cache \<rparr>)))) ds')
                    (send_sequence_range ms dev (w_entity w) (w_cache w) (rl_locator p)
                       (rp_highest_sent p, highest) ds)
               else Some (asserting (highest = rp_highest_sent p) (Inr (p, w)), ds)))"

fun locator_heartbeat_loop ::
  "message_sender \<Rightarrow> device \<Rightarrow> rtps_heartbeat \<Rightarrow> reader_locator list \<Rightarrow> bool io" where
  "locator_heartbeat_loop ms dev hb [] = io_of (Inr True)"
| "locator_heartbeat_loop ms dev hb (p # ps) =
     io_bind (send_heartbeat_to_locator ms dev (rl_locator p) hb) (\<lambda>rc. locator_heartbeat_loop ms dev hb ps)"

definition sl_send_heartbeat :: "device \<Rightarrow> stateless_writer \<Rightarrow> bool io" where
  "sl_send_heartbeat dev w =
     (case sl_sender w of
        None \<Rightarrow> io_of (Inr False)
      | Some ms \<Rightarrow>
          if sl_locators w = [] then io_of (Inr False)
          else
            io_bind (io_of (sequence_number_max (w_cache w))) (\<lambda>lst.
            io_bind (io_of (hb_set_final_flag True
                (hb_new\<lparr> hb_writer := w_entity w, hb_first := sequence_number_min (w_cache w), hb_last := lst \<rparr>)))
              (\<lambda>hb. locator_heartbeat_loop ms dev (hb\<lparr> hb_reader := ei_unknown \<rparr>) (map snd (sl_locators w)))))"

text \<open>
  The sequence set built from a requested set: the base, then for every position the number is
  incremented before its bit is tested.
\<close>

definition request_bit ::
  "sequence_number_set \<Rightarrow> int \<Rightarrow> sequence_number \<times> (sequence_number, unit) omap
     \<Rightarrow> (sequence_number \<times> (sequence_number, unit) omap) res" where
  "request_bit req pos = (\<lambda>(s, acc).
     let s' = sn_inc s in
     rbind (test_bit_at_position pos req) (\<lambda>b. Inr (s', if b then om_insert sn_less s' () acc else acc)))"

definition requested_sequence :: "sequence_number_set \<Rightarrow> sequence_number list res" where
  "requested_sequence req =
     rbind (rfold (request_bit req) [0 .. sns_num_bits req - 1]
              (sns_base req, om_insert sn_less (sns_base req) () []))
       (\<lambda>(s, acc). Inr (map fst acc))"

fun sl_requested_loop ::
  "message_sender \<Rightarrow> device \<Rightarrow> entity_id \<Rightarrow> (locator, reader_locator) omap \<Rightarrow> data_cache
     \<Rightarrow> ((locator, reader_locator) omap \<times> data_cache) io" where
  "sl_requested_loop ms dev writer [] cache = io_of (Inr ([], cache))"
| "sl_requested_loop ms dev writer ((l, p) # m) cache =
     io_bind
       (if sns_is_empty (rp_requested_set p) then io_of (Inr (p, cache))
        else io_bind (io_of (requested_sequence (rp_requested_set p))) (\<lambda>ss.
             io_bind (send_sequence_set ms dev writer cache (rl_locator p) ss) (\<lambda>(rc, cache').
               io_of (Inr (rpb_set_requested_changes_set sns_unknown p, cache')))))
       (\<lambda>(p', cache'). io_bind (sl_requested_loop ms dev writer m cache')
          (\<lambda>(m', cache''). io_of (Inr ((l, p') # m', cache''))))"

definition sl_send_requested :: "device \<Rightarrow> stateless_writer \<Rightarrow> (bool \<times> stateless_writer) io" where
  "sl_send_requested dev w =
     (case sl_sender w of
        None \<Rightarrow> io_of (Inr (False, w))
      | Some ms \<Rightarrow>
          if sl_locators w = [] then io_of (Inr (False, w))
          else io_bind (sl_requested_loop ms dev (w_entity w) (sl_locators w) (w_cache w)) (\<lambda>(ls, cache).
                 io_of (Inr (True, w\<lparr> sl_locators := ls, w_cache := cache \<rparr>))))"

section \<open>Reader locators\<close>

definition sl_add_reader_locator :: "locator \<Rightarrow> stateless_writer \<Rightarrow> (reader_locator \<times> stateless_writer) res" where
  "sl_add_reader_locator l w =
     (let (set_handler, p1) = rpb_set_handler (rl_new l False);
          attach = \<not> rp_attached p1;
          p2 = p1\<lparr> rp_attached := True \<rparr>;
          inserted = \<not> om_member loc_less l (sl_locators w)
      in asserting attach
           (asserting inserted (Inr (p2, w\<lparr> sl_locators := om_insert loc_less l p2 (sl_locators w) \<rparr>))))"

definition sl_get_or_create :: "locator \<Rightarrow> stateless_writer \<Rightarrow> (reader_locator \<times> stateless_writer) res" where
  "sl_get_or_create l w =
     (case om_find loc_less l (sl_locators w) of
        None \<Rightarrow> sl_add_reader_locator l w
      | Some p \<Rightarrow> Inr (p, w))"

definition sl_reader_locator_add :: "locator \<Rightarrow> stateless_writer \<Rightarrow> stateless_writer res" where
  "sl_reader_locator_add l w =
     (if om_member loc_less l (sl_locators w) then Inr w
      else rbind (sl_add_reader_locator l w) (\<lambda>(p, w'). Inr w'))"

definition sl_reader_locator_remove :: "locator \<Rightarrow> stateless_writer \<Rightarrow> stateless_writer res" where
  "sl_reader_locator_remove l w =
     (if \<not> om_member loc_less l (sl_locators w) then Inr w
      else asserting (om_member loc_less l (sl_locators w))
             (Inr (w\<lparr> sl_locators := om_erase loc_less l (sl_locators w) \<rparr>)))"

definition sl_unsent_changes_reset :: "stateless_writer \<Rightarrow> stateless_writer" where
  "sl_unsent_changes_reset w =
     w\<lparr> sl_locators := map (\<lambda>(l, p). (l, p\<lparr> rp_highest_sent := sequence_number_min (w_cache w) \<rparr>))
          (sl_locators w) \<rparr>"

section \<open>Receiving\<close>

text \<open>
  One round of the loops over the reply locators: the object found is updated through its pointer.
  The two clock readings are those of \<open>Remaining\<close> and \<open>Start\<close>.
\<close>

definition sl_request_from ::
  "sequence_number_set \<Rightarrow> locator \<times> int \<times> int \<Rightarrow> stateless_writer \<Rightarrow> stateless_writer res" where
  "sl_request_from req = (\<lambda>(l, now1, now2) w.
     rbind (sl_get_or_create l w) (\<lambda>(p, w1).
       let w2 = w1\<lparr> sl_locators :=
                  om_assign loc_less l (rpb_set_requested_changes_set req p) (sl_locators w1) \<rparr>
       in if sns_is_empty req then Inr w2
          else rbind (et_remaining now1 (sl_nack_timer w2)) (\<lambda>left.
                 Inr (if w_nack_response_delay w2 < left
                      then w2\<lparr> sl_nack_timer :=
                             et_start_with now2 (w_nack_response_delay w2) (sl_nack_timer w2) \<rparr>
                      else w2))))"

definition sl_receive_ack_nack ::
  "(locator \<Rightarrow> int \<times> int) \<Rightarrow> receiver \<Rightarrow> rtps_ack_nack \<Rightarrow> stateless_writer \<Rightarrow> (bool \<times> stateless_writer) res" where
  "sl_receive_ack_nack clocks rc an w =
     rbind (rfold (sl_request_from (an_sn_state an)) (map (\<lambda>l. (l, clocks l)) (rc_unicast rc)) w) (\<lambda>w1.
     rbind (rfold (sl_request_from (an_sn_state an)) (map (\<lambda>l. (l, clocks l)) (rc_multicast rc)) w1) (\<lambda>w2.
       Inr (True, w2)))"

definition sl_receive_nack_frag :: "stateless_writer \<Rightarrow> (bool \<times> stateless_writer) res" where
  "sl_receive_nack_frag w = Inr (True, w)"

section \<open>WaitDispatch\<close>

definition sl_wait_dispatch ::
  "(int \<Rightarrow> stateless_writer \<Rightarrow> stateless_writer io) \<Rightarrow> device \<Rightarrow> int \<times> int \<times> int \<times> int \<Rightarrow> int
     \<Rightarrow> stateless_writer \<Rightarrow> (return_code \<times> stateless_writer) io" where
  "sl_wait_dispatch callbacks dev clocks milliseconds w =
     (case w_reliability w of
        BestEffort \<Rightarrow> io_bind (callbacks milliseconds w) (\<lambda>w1. io_of (Inr (RcOk, w1)))
      | Reliable \<Rightarrow>
          (case clocks of (now1, now2, now3, now4) \<Rightarrow>
            io_bind (io_of (et_remaining now1 (sl_heartbeat_timer w))) (\<lambda>r1.
            io_bind (io_of (et_remaining now2 (sl_nack_timer w))) (\<lambda>r2.
            io_bind (callbacks (min (min milliseconds (dur_in_millis r1)) (dur_in_millis r2)) w) (\<lambda>w1.
            io_bind (io_of (et_has_expired now3 (sl_heartbeat_timer w1))) (\<lambda>heartbeat.
            io_bind (if heartbeat then sl_send_heartbeat dev w1 else io_of (Inr False)) (\<lambda>sent.
            io_bind (io_of (et_has_expired now4 (sl_nack_timer w1))) (\<lambda>nack.
            io_bind (if nack then io_bind (sl_send_requested dev w1) (\<lambda>(sent, w2). io_of (Inr w2))
                     else io_of (Inr w1)) (\<lambda>w2.
              io_of (Inr (RcOk, w2))))))))))
      | _ \<Rightarrow> io_of (Inr (RcBadParameter, w)))"

section \<open>The requested numbers\<close>

lemma sn_inc_of_value:
  assumes "1 \<le> v" "v < 4611686018427387904"
  shows "sn_inc (sn_of_value v) = sn_of_value (v + 1)"
proof -
  have win: "sn_of_value v \<in> sn_window 0" using assms by (rule sn_of_value_low_window)
  have "sn_get (sn_inc (sn_of_value v)) = sn_get (sn_of_value v) + 1"
    using sn_get_inc[OF sn_window_valid[OF win] sn_window_not_max[OF win]] .
  then show ?thesis
    using assms sn_eq_of_value_iff[OF sn_valid_inc[OF sn_window_valid[OF win]], of "v + 1"]
      sn_get_of_value[of v] by simp
qed

lemma request_bits:
  assumes "sns_ok req" "sns_base req = sn_of_value b" "1 \<le> b" "b < 4611686018427387000" "n \<le> 255"
  shows "\<exists>acc. rfold (request_bit req) [0 .. int n - 1] (sns_base req, om_insert sn_less (sns_base req) () [])
      = Inr (sn_of_value (b + int n), acc) \<and> sn_map_wf 0 acc
    \<and> fst ` set acc = insert (sn_of_value b) {sn_of_value (b + 1 + i) | i. 0 \<le> i \<and> i < int n \<and> sns_bit req i}"
  using assms(5)
proof (induction n)
  case 0
  then show ?case using assms sn_of_value_low_window[of b] by (auto simp: sn_map_wf_def sn_key.om_wf_def)
next
  case (Suc n)
  let ?S = "\<lambda>n. {sn_of_value (b + 1 + i) | i. 0 \<le> i \<and> i < int n \<and> sns_bit req i}"
  let ?init = "(sns_base req, om_insert sn_less (sns_base req) () [])"
  obtain acc where acc: "rfold (request_bit req) [0 .. int n - 1] ?init = Inr (sn_of_value (b + int n), acc)"
    "sn_map_wf 0 acc" "fst ` set acc = insert (sn_of_value b) (?S n)"
    using Suc by auto
  let ?s = "sn_of_value (b + 1 + int n)"
  have inc: "sn_inc (sn_of_value (b + int n)) = ?s"
    using sn_inc_of_value[of "b + int n"] assms(3,4) Suc.prems by (simp add: algebra_simps)
  have win: "?s \<in> sn_window 0" using assms(3,4) Suc.prems by (intro sn_of_value_low_window) auto
  define acc' where "acc' = (if sns_bit req (int n) then om_insert sn_less ?s () acc else acc)"
  have step: "request_bit req (int n) (sn_of_value (b + int n), acc) = Inr (?s, acc')"
    using test_bit_at_position_ok[OF assms(1), of "int n"] by (simp add: request_bit_def inc acc'_def Let_def)
  have split: "[0 .. int (Suc n) - 1] = [0 .. int n - 1] @ [int n]"
    using upto_rec2[of 0 "int n"] by simp
  have wf: "sn_map_wf 0 acc'"
    using acc(2) win sn_key.om_wf_insert by (auto simp: acc'_def sn_map_wf_def)
  have img: "?S m = (\<lambda>i. sn_of_value (b + 1 + i)) ` {i. 0 \<le> i \<and> i < int m \<and> sns_bit req i}" for m
    by blast
  have below: "0 \<le> i \<and> i < int (Suc n) \<longleftrightarrow> i = int n \<or> (0 \<le> i \<and> i < int n)" for i by auto
  have "{i. 0 \<le> i \<and> i < int (Suc n) \<and> sns_bit req i} =
      (if sns_bit req (int n) then insert (int n) {i. 0 \<le> i \<and> i < int n \<and> sns_bit req i}
       else {i. 0 \<le> i \<and> i < int n \<and> sns_bit req i})"
    unfolding conj_assoc[symmetric] below by (simp add: set_eq_iff) blast
  then have "?S (Suc n) = (if sns_bit req (int n) then insert ?s (?S n) else ?S n)"
    unfolding img by simp
  moreover have "fst ` set (om_insert sn_less ?s () acc) = insert ?s (fst ` set acc)"
    using arg_cong[OF sn_key.map_of_insert[of 0 acc ?s "()"], of dom] acc(2) win
    by (auto simp: sn_map_wf_def dom_map_of_conv_image_fst split: if_splits)
  ultimately have keys: "fst ` set acc' = insert (sn_of_value b) (?S (Suc n))"
    using acc(3) by (auto simp: acc'_def)
  have "rfold (request_bit req) [0 .. int (Suc n) - 1] ?init = Inr (?s, acc')"
    unfolding split rfold_append acc(1) by (simp add: step)
  moreover have "b + int (Suc n) = b + 1 + int n" by simp
  ultimately show ?case using wf keys by metis
qed

lemma requested_sequence_ok:
  assumes "sns_ok req" "sns_base req = sn_of_value b" "1 \<le> b" "b < 4611686018427387000"
  shows "\<exists>ss. requested_sequence req = Inr ss
    \<and> set ss = insert (sn_of_value b) {sn_of_value (b + 1 + i) | i. 0 \<le> i \<and> i < sns_num_bits req \<and> sns_bit req i}"
proof -
  have n: "int (nat (sns_num_bits req)) = sns_num_bits req" "nat (sns_num_bits req) \<le> 255"
    using assms(1) by (auto simp: sns_ok_def)
  show ?thesis using request_bits[OF assms n(2)] unfolding n(1)
    by (auto simp: requested_sequence_def)
qed

section \<open>Locators of one address\<close>

text \<open>
  The comparator of locators is a strict order on locators that differ in nothing but the port; the
  reader locators of such locators form a map.
\<close>

definition loc_class :: "int \<Rightarrow> u8 list \<Rightarrow> locator set" where
  "loc_class k a = {l. loc_kind l = k \<and> loc_address l = a}"

interpretation loc_key: key_order loc_less "loc_class k a" for k a
  by unfold_locales (auto simp: loc_class_def loc_less_def intro: locator.equality)

definition loc_map_wf :: "int \<Rightarrow> u8 list \<Rightarrow> (locator, 'v) omap \<Rightarrow> bool" where
  "loc_map_wf k a m \<longleftrightarrow> loc_key.om_wf k a m"

lemma loc_map_wf_Nil [simp]: "loc_map_wf k a []"
  by (simp add: loc_map_wf_def loc_key.om_wf_def)

section \<open>Acknowledgements\<close>

text \<open>The clock readings of the rounds do not decrease.\<close>

fun readings_ok :: "int \<Rightarrow> (int \<times> int) list \<Rightarrow> bool" where
  "readings_ok now [] = True"
| "readings_ok now ((a, b) # rs) = (now \<le> a \<and> a \<le> b \<and> b < int64_max \<and> readings_ok b rs)"

fun last_reading :: "int \<Rightarrow> (int \<times> int) list \<Rightarrow> int" where
  "last_reading now [] = now"
| "last_reading now ((a, b) # rs) = last_reading b rs"

definition requests :: "sequence_number_set \<Rightarrow> reader_locator \<Rightarrow> bool" where
  "requests req p \<longleftrightarrow> rp_requested_set p = req \<and> rp_lowest_requested p = sns_base req"

lemma sl_get_or_create_ok:
  assumes "loc_map_wf k a (sl_locators w)" "l \<in> loc_class k a"
  shows "\<exists>p w'. sl_get_or_create l w = Inr (p, w') \<and> w' = w\<lparr> sl_locators := sl_locators w' \<rparr>
    \<and> loc_map_wf k a (sl_locators w') \<and> map_of (sl_locators w') = (map_of (sl_locators w))(l \<mapsto> p)"
proof -
  note wf = assms(1)[unfolded loc_map_wf_def]
  have find: "om_find loc_less l (sl_locators w) = map_of (sl_locators w) l"
    by (rule loc_key.om_find_map_of[OF wf assms(2)])
  show ?thesis
  proof (cases "map_of (sl_locators w) l")
    case None
    then have "l \<notin> fst ` set (sl_locators w)" by (simp add: map_of_eq_None_iff)
    then show ?thesis
      using None find loc_key.om_wf_insert[OF wf assms(2)] loc_key.map_of_insert[OF wf assms(2)]
      by (simp add: sl_get_or_create_def sl_add_reader_locator_def rpb_set_handler_def rl_new_def
          reader_proxy_base.defs rpb_new_def om_member_def loc_map_wf_def Let_def)
  next
    case (Some p)
    then show ?thesis using find assms(1) by (auto simp: sl_get_or_create_def fun_upd_idem)
  qed
qed

lemma sl_request_from_ok:
  assumes "loc_map_wf k a (sl_locators w)" "l \<in> loc_class k a" "timer_ready now (sl_nack_timer w)"
    and "now \<le> n1" "n1 \<le> n2" "n2 < int64_max" "0 \<le> w_nack_response_delay w" "w_nack_response_delay w \<le> int64_max"
  shows "\<exists>w' p. sl_request_from req (l, n1, n2) w = Inr w' \<and> loc_map_wf k a (sl_locators w')
    \<and> map_of (sl_locators w') = (map_of (sl_locators w))(l \<mapsto> p) \<and> requests req p
    \<and> timer_ready n2 (sl_nack_timer w') \<and> w_nack_response_delay w' = w_nack_response_delay w
    \<and> (if sns_is_empty req then sl_nack_timer w' = sl_nack_timer w
       else et_start (sl_nack_timer w') + et_interval (sl_nack_timer w') \<le> n2 + w_nack_response_delay w)"
proof -
  obtain p w1 where get: "sl_get_or_create l w = Inr (p, w1)" "w1 = w\<lparr> sl_locators := sl_locators w1 \<rparr>"
    "loc_map_wf k a (sl_locators w1)" "map_of (sl_locators w1) = (map_of (sl_locators w))(l \<mapsto> p)"
    using sl_get_or_create_ok[OF assms(1,2)] by blast
  let ?p = "rpb_set_requested_changes_set req p"
  define m where "m = om_assign loc_less l ?p (sl_locators w1)"
  have m: "loc_map_wf k a m" "map_of m = (map_of (sl_locators w))(l \<mapsto> ?p)"
    using loc_key.om_wf_assign[OF get(3)[unfolded loc_map_wf_def] assms(2), of ?p]
      loc_key.map_of_assign[OF get(3)[unfolded loc_map_wf_def] assms(2), of ?p] get(4)
    by (simp_all add: m_def loc_map_wf_def)
  have p: "requests req ?p" by (simp add: requests_def rpb_set_requested_changes_set_def)
  have same: "sl_nack_timer w1 = sl_nack_timer w" "w_nack_response_delay w1 = w_nack_response_delay w"
    by (subst get(2), simp)+
  define t where "t = (if w_nack_response_delay w < et_interval (sl_nack_timer w) - (n1 - et_start (sl_nack_timer w))
    then et_start_with n2 (w_nack_response_delay w) (sl_nack_timer w) else sl_nack_timer w)"
  note t = timer_sooner[OF assms(3-8), folded t_def]
  show ?thesis
  proof (cases "sns_is_empty req")
    case True
    then show ?thesis using get(1) m p same timer_ready_mono[OF assms(3), of n2] assms(4,5)
      by (intro exI[of _ "w1\<lparr> sl_locators := m \<rparr>"] exI[of _ ?p]) (simp add: sl_request_from_def m_def)
  next
    case False
    let ?w2 = "w1\<lparr> sl_locators := m, sl_nack_timer := t \<rparr>"
    have "sl_request_from req (l, n1, n2) w = Inr ?w2"
      using get(1) False t(1) same by (simp add: sl_request_from_def m_def t_def)
    then show ?thesis using m p False same t(2,3)
      by (intro exI[of _ ?w2] exI[of _ ?p]) simp
  qed
qed

lemma sl_requests_ok:
  assumes "loc_map_wf k a (sl_locators w)" "fst ` set ls \<subseteq> loc_class k a" "timer_ready now (sl_nack_timer w)"
    and "readings_ok now (map snd ls)" "0 \<le> w_nack_response_delay w" "w_nack_response_delay w \<le> int64_max"
  shows "\<exists>w'. rfold (sl_request_from req) ls w = Inr w' \<and> loc_map_wf k a (sl_locators w')
    \<and> (\<forall>l \<in> fst ` set ls. \<exists>p. map_of (sl_locators w') l = Some p \<and> requests req p)
    \<and> (\<forall>l. l \<notin> fst ` set ls \<longrightarrow> map_of (sl_locators w') l = map_of (sl_locators w) l)
    \<and> timer_ready (last_reading now (map snd ls)) (sl_nack_timer w')
    \<and> w_nack_response_delay w' = w_nack_response_delay w
    \<and> (ls \<noteq> [] \<and> \<not> sns_is_empty req \<longrightarrow>
         et_start (sl_nack_timer w') + et_interval (sl_nack_timer w')
           \<le> last_reading now (map snd ls) + w_nack_response_delay w)"
  using assms
proof (induction ls arbitrary: w now)
  case (Cons x ls)
  obtain l n1 n2 where x: "x = (l, n1, n2)" by (cases x) auto
  obtain w1 p where w1: "sl_request_from req (l, n1, n2) w = Inr w1" "loc_map_wf k a (sl_locators w1)"
    "map_of (sl_locators w1) = (map_of (sl_locators w))(l \<mapsto> p)" "requests req p"
    "timer_ready n2 (sl_nack_timer w1)" "w_nack_response_delay w1 = w_nack_response_delay w"
    "\<not> sns_is_empty req \<Longrightarrow> et_start (sl_nack_timer w1) + et_interval (sl_nack_timer w1)
       \<le> n2 + w_nack_response_delay w"
    using sl_request_from_ok[of k a w l now n1 n2 req] Cons.prems unfolding x by (auto split: if_splits)
  obtain w2 where w2: "rfold (sl_request_from req) ls w1 = Inr w2" "loc_map_wf k a (sl_locators w2)"
    "\<forall>l \<in> fst ` set ls. \<exists>p. map_of (sl_locators w2) l = Some p \<and> requests req p"
    "\<forall>l. l \<notin> fst ` set ls \<longrightarrow> map_of (sl_locators w2) l = map_of (sl_locators w1) l"
    "timer_ready (last_reading n2 (map snd ls)) (sl_nack_timer w2)"
    "w_nack_response_delay w2 = w_nack_response_delay w1"
    "ls \<noteq> [] \<and> \<not> sns_is_empty req \<longrightarrow> et_start (sl_nack_timer w2) + et_interval (sl_nack_timer w2)
       \<le> last_reading n2 (map snd ls) + w_nack_response_delay w1"
    using Cons.IH[OF w1(2) _ w1(5)] Cons.prems w1(6) unfolding x by auto
  have "et_start (sl_nack_timer w2) + et_interval (sl_nack_timer w2)
       \<le> last_reading n2 (map snd ls) + w_nack_response_delay w" if "\<not> sns_is_empty req"
  proof (cases "ls = []")
    case True
    then show ?thesis using w1(7)[OF that] w2(1) by simp
  qed (use w2(7) w1(6) that in simp)
  moreover have "\<exists>p. map_of (sl_locators w2) l = Some p \<and> requests req p"
  proof (cases "l \<in> fst ` set ls")
    case False
    then show ?thesis using w2(4) w1(3,4) by simp
  qed (use w2(3) in blast)
  ultimately show ?case using w1 w2 by (intro exI[of _ w2]) (auto simp: x)
qed simp

section \<open>The writer as a transition system\<close>

definition put_locator :: "locator \<Rightarrow> reader_locator \<Rightarrow> stateless_writer \<Rightarrow> stateless_writer" where
  "put_locator l p w =
     w\<lparr> sl_locators := map (\<lambda>(l', q). if l' = l then (l', p) else (l', q)) (sl_locators w) \<rparr>"

inductive sl_step :: "stateless_writer \<Rightarrow> stateless_writer \<Rightarrow> bool" where
  sl_new_change:
    "can_count (w_last_sn w) \<Longrightarrow> rtps_new_change kind data handle w = Inr (c, w') \<Longrightarrow> sl_step w w'"
| sl_notify: "sl_on_new_change now1 now2 w = Inr w' \<Longrightarrow> sl_step w w'"
| sl_locator:
    "(l, p) \<in> set (sl_locators w) \<Longrightarrow> sl_on_locator dev p w ds = Some (Inr (p', w'), ds') \<Longrightarrow>
     sl_step w (put_locator l p' w')"
| sl_requested: "sl_send_requested dev w ds = (Inr (b, w'), ds') \<Longrightarrow> sl_step w w'"
| sl_ack_nack: "sl_receive_ack_nack clocks rc an w = Inr (b, w') \<Longrightarrow> sl_step w w'"
| sl_add: "sl_reader_locator_add l w = Inr w' \<Longrightarrow> sl_step w w'"
| sl_remove: "sl_reader_locator_remove l w = Inr w' \<Longrightarrow> sl_step w w'"
| sl_reset: "sl_step w (sl_unsent_changes_reset w)"
| sl_remove_change: "sl_step w (w\<lparr> w_cache := snd (remove_change_sn s (w_cache w)) \<rparr>)"
| sl_configure:
    "sl_step w ((set_message_sender sender w)\<lparr> w_push_mode := push, w_heartbeat_period := period,
        w_nack_response_delay := delay, w_nack_suppression := supp, w_reliability := rel,
        sl_resend_period := resend \<rparr>)"

definition sl_reach :: "stateless_writer \<Rightarrow> stateless_writer \<Rightarrow> bool" where
  "sl_reach = sl_step\<^sup>*\<^sup>*"

definition sl_ok :: "stateless_writer \<Rightarrow> bool" where
  "sl_ok w \<longleftrightarrow> w_guid w \<noteq> guid_unknown \<and> numbers_ok (w_last_sn w) (w_cache w) \<and> sl_sender w = None
     \<and> (\<forall>(l, p) \<in> set (sl_locators w). rp_has_handler p \<and> rp_attached p \<and> \<not> rp_trigger p)"

definition locators_idle :: "(locator, reader_locator) omap \<Rightarrow> bool" where
  "locators_idle m \<longleftrightarrow> (\<forall>(l, p) \<in> set m. rp_has_handler p \<and> rp_attached p \<and> \<not> rp_trigger p)"

lemma sl_ok_idle: "sl_ok w \<longleftrightarrow> w_guid w \<noteq> guid_unknown \<and> numbers_ok (w_last_sn w) (w_cache w)
    \<and> sl_sender w = None \<and> locators_idle (sl_locators w)"
  by (simp add: sl_ok_def locators_idle_def)

lemma sl_ok_locators:
  "sl_ok w \<Longrightarrow> locators_idle m \<Longrightarrow> sl_ok (w\<lparr> sl_locators := m \<rparr>)"
  by (simp add: sl_ok_idle)

lemma locators_idle_insert:
  "locators_idle m \<Longrightarrow> rp_has_handler p \<and> rp_attached p \<and> \<not> rp_trigger p \<Longrightarrow> locators_idle (om_insert lt l p m)"
  by (induction lt l p m rule: om_insert.induct) (auto simp: locators_idle_def)

lemma locators_idle_assign:
  "locators_idle m \<Longrightarrow> rp_has_handler p \<and> rp_attached p \<and> \<not> rp_trigger p \<Longrightarrow> locators_idle (om_assign lt l p m)"
  by (induction lt l p m rule: om_assign.induct) (auto simp: locators_idle_def)

lemma locators_idle_erase: "locators_idle m \<Longrightarrow> locators_idle (om_erase lt l m)"
  by (induction m) (auto simp: locators_idle_def split: if_splits)

lemma locators_idle_find:
  "locators_idle m \<Longrightarrow> om_find lt l m = Some p \<Longrightarrow> rp_has_handler p \<and> rp_attached p \<and> \<not> rp_trigger p"
  by (induction lt l m rule: om_find.induct) (auto simp: locators_idle_def split: if_splits)

lemma sl_add_keeps:
  assumes "sl_add_reader_locator l w = Inr (p, w')" "sl_ok w"
  shows "sl_ok w'" "rp_has_handler p \<and> rp_attached p \<and> \<not> rp_trigger p"
  using assms sl_ok_locators[OF assms(2), of "om_insert loc_less l p (sl_locators w)"]
    locators_idle_insert[of "sl_locators w" p loc_less l]
  by (auto simp: sl_add_reader_locator_def rpb_set_handler_def rl_new_def reader_proxy_base.defs
      rpb_new_def Let_def res_simps sl_ok_idle)

lemma sl_request_from_keeps:
  assumes "sl_request_from req x w = Inr w'" "sl_ok w" shows "sl_ok w'"
proof -
  obtain l n1 n2 where x: "x = (l, n1, n2)" by (cases x) auto
  obtain p w1 where get: "sl_get_or_create l w = Inr (p, w1)"
    using assms(1) by (auto simp: sl_request_from_def x res_simps)
  have keep: "sl_ok w1 \<and> rp_has_handler p \<and> rp_attached p \<and> \<not> rp_trigger p"
  proof (cases "om_find loc_less l (sl_locators w)")
    case None
    then have "sl_add_reader_locator l w = Inr (p, w1)" using get by (simp add: sl_get_or_create_def)
    then show ?thesis using sl_add_keeps[OF _ assms(2)] by blast
  next
    case (Some q)
    then have "w1 = w" "p = q" using get by (simp_all add: sl_get_or_create_def)
    then show ?thesis using locators_idle_find[OF _ Some] assms(2) by (simp add: sl_ok_idle)
  qed
  let ?p = "rpb_set_requested_changes_set req p"
  let ?w = "w1\<lparr> sl_locators := om_assign loc_less l ?p (sl_locators w1) \<rparr>"
  have idle: "rp_has_handler ?p \<and> rp_attached ?p \<and> \<not> rp_trigger ?p"
    using keep by (simp add: rpb_set_requested_changes_set_def)
  have "locators_idle (sl_locators w1)" using keep by (simp add: sl_ok_idle)
  then have ok: "sl_ok ?w" using sl_ok_locators keep locators_idle_assign[OF _ idle] by blast
  have "sl_ok (?w\<lparr> sl_nack_timer := t \<rparr>)" for t using ok by (simp add: sl_ok_idle)
  then show ?thesis using assms(1) get ok
    by (simp add: sl_request_from_def x Let_def) (auto simp: res_simps split: if_splits)
qed

lemma sl_requests_keep:
  "rfold (sl_request_from req) ls w = Inr w' \<Longrightarrow> sl_ok w \<Longrightarrow> sl_ok w'"
  by (induction ls arbitrary: w) (auto simp: res_simps dest: sl_request_from_keeps)

lemma sl_ack_nack_keeps:
  "sl_receive_ack_nack clocks rc an w = Inr (b, w') \<Longrightarrow> sl_ok w \<Longrightarrow> sl_ok w'"
  by (auto simp: sl_receive_ack_nack_def res_simps dest: sl_requests_keep)

lemma sl_new_change_keeps:
  assumes "can_count (w_last_sn w)" "rtps_new_change kind data handle w = Inr (c, w')" "sl_ok w"
  shows "sl_ok w'"
proof -
  let ?s = "sn_inc (w_last_sn w)"
  let ?w = "w\<lparr> w_last_sn := ?s \<rparr>"
  let ?d = "map_option (\<lambda>d. d\<lparr> d_sn := ?s, d_writer := w_entity w, sb_source_prefix := guid_prefix_of (w_guid w) \<rparr>) data"
  have ok: "numbers_ok (w_last_sn w) (w_cache ?w)" using assms(3) by (simp add: sl_ok_def)
  note st = store_change_ok[OF ok assms(1), where data = ?d and kind = kind and handle = handle, simplified]
  show ?thesis using assms st by (auto simp: rtps_new_change_def sl_ok_def Let_def)
qed

lemma sl_remove_change_keeps:
  assumes "sl_ok w" shows "sl_ok (w\<lparr> w_cache := snd (remove_change_sn s (w_cache w)) \<rparr>)"
proof -
  have "set (snd (remove_change_sn s (w_cache w))) \<subseteq> set (w_cache w)"
    using sn_key.om_erase_subset by (auto simp: remove_change_sn_def)
  moreover have "sn_map_wf 0 (snd (remove_change_sn s (w_cache w)))"
    using assms sn_key.om_wf_erase by (auto simp: remove_change_sn_def sl_ok_def numbers_ok_def cache_ok_def sn_map_wf_def)
  ultimately show ?thesis using assms by (fastforce simp: sl_ok_def numbers_ok_def cache_ok_def)
qed

lemma sl_step_ok: "sl_step w w' \<Longrightarrow> sl_ok w \<Longrightarrow> sl_ok w'"
proof (induction rule: sl_step.induct)
  case (sl_new_change w kind data handle c w')
  then show ?case by (rule sl_new_change_keeps)
next
  case (sl_ack_nack clocks rc an w b w')
  then show ?case by (rule sl_ack_nack_keeps)
next
  case (sl_add l w w')
  then show ?case using sl_add_keeps(1) by (auto simp: sl_reader_locator_add_def res_simps split: if_splits)
next
  case (sl_remove l w w')
  then show ?case using locators_idle_erase
    by (auto simp: sl_reader_locator_remove_def res_simps sl_ok_idle split: if_splits)
next
  case (sl_reset w)
  then show ?case by (fastforce simp: sl_unsent_changes_reset_def sl_ok_def)
next
  case (sl_remove_change w s)
  then show ?case by (rule sl_remove_change_keeps)
qed (auto simp: sl_ok_def sl_on_new_change_def sl_on_locator_def sl_send_requested_def io_of_def
    set_message_sender_def)

lemma sl_reach_ok: "sl_reach w w' \<Longrightarrow> sl_ok w \<Longrightarrow> sl_ok w'"
  unfolding sl_reach_def by (induction rule: rtranclp_induct) (auto intro: sl_step_ok)

lemma sl_ok_new: "g \<noteq> guid_unknown \<Longrightarrow> sl_ok (sl_new now1 now2 g rel resend)"
  using numbers_ok_new[of g rel] by (simp add: sl_ok_def sl_new_def rtps_writer.defs w_new_def)

section \<open>What the wait set dispatches\<close>

text \<open>
  The guards a wait set can dispatch: the one of new changes, with the two clock readings of its
  handler, and those of the locators, whose handlers run only when the trigger is set.
\<close>

datatype sl_guard = NewChangeGuard int int | LocatorGuard locator

fun sl_run_guards ::
  "device \<Rightarrow> sl_guard list \<Rightarrow> stateless_writer \<Rightarrow> datagram list
     \<Rightarrow> (stateless_writer res \<times> datagram list) option" where
  "sl_run_guards dev [] w ds = Some (Inr w, ds)"
| "sl_run_guards dev (NewChangeGuard now1 now2 # gs) w ds =
     (case sl_on_new_change now1 now2 w of
        Inl e \<Rightarrow> Some (Inl e, ds)
      | Inr w' \<Rightarrow> sl_run_guards dev gs w' ds)"
| "sl_run_guards dev (LocatorGuard l # gs) w ds =
     (case om_find loc_less l (sl_locators w) of
        None \<Rightarrow> sl_run_guards dev gs w ds
      | Some p \<Rightarrow>
          if \<not> rp_trigger p then sl_run_guards dev gs w ds
          else (case sl_on_locator dev p w ds of
                  None \<Rightarrow> None
                | Some (Inl e, ds') \<Rightarrow> Some (Inl e, ds')
                | Some (Inr (p', w'), ds') \<Rightarrow>
                    sl_run_guards dev gs (put_locator l (p'\<lparr> rp_trigger := False \<rparr>) w') ds'))"

lemma sl_run_guards_quiet:
  assumes "sl_ok w" shows "sl_run_guards dev gs w ds = Some (Inr w, ds)"
proof (induction gs)
  case (Cons g gs)
  show ?case
  proof (cases g)
    case (LocatorGuard l)
    then show ?thesis using Cons assms locators_idle_find[of "sl_locators w" loc_less l]
      by (auto simp: sl_ok_idle split: option.split)
  qed (use Cons assms in \<open>simp add: sl_on_new_change_def sl_ok_def\<close>)
qed simp

section \<open>Properties\<close>

text \<open>C36: Whatever happens to a stateless writer, and whatever message sender it is given, it hands no
  datagram to the socket: the sender is stored in a member the writer does not read, so the handlers
  the wait set dispatches change nothing, a round of \<open>WaitDispatch\<close> sends nothing, no guard of a
  locator is ever raised, and the handler that sends to a locator would abort.\<close>

theorem stateless_never_sends:
  assumes "sl_reach (sl_new now1 now2 g rel resend) w" "g \<noteq> guid_unknown"
  shows "sl_run_guards dev gs w ds = Some (Inr w, ds)
    \<and> snd (sl_wait_dispatch (\<lambda>ms w ds. the (sl_run_guards dev gs w ds)) dev clocks milliseconds w ds) = ds
    \<and> sl_on_locator dev p w ds = Some (Inl AssertFailed, ds)
    \<and> (\<forall>(l, q) \<in> set (sl_locators w). rp_has_handler q \<and> \<not> rp_trigger q)"
proof -
  have ok: "sl_ok w" by (rule sl_reach_ok[OF assms(1) sl_ok_new[OF assms(2)]])
  then have none: "sl_sender w = None" by (simp add: sl_ok_def)
  have send: "sl_send_heartbeat dev w ds = (Inr False, ds)" "sl_send_requested dev w ds = (Inr (False, w), ds)"
    using none by (simp_all add: sl_send_heartbeat_def sl_send_requested_def io_of_def)
  have "snd (sl_wait_dispatch (\<lambda>ms w ds. the (sl_run_guards dev gs w ds)) dev clocks milliseconds w ds) = ds"
    using sl_run_guards_quiet[OF ok, of dev gs] send
    by (cases clocks; cases "w_reliability w")
      (auto simp: sl_wait_dispatch_def io_bind_def io_of_def split: sum.split)
  then show ?thesis using ok none sl_run_guards_quiet[OF ok] by (auto simp: sl_on_locator_def sl_ok_def)
qed

definition sample_writer_guid :: guid where
  "sample_writer_guid = guid_new gp_unknown ei_spdp_builtin_participant_writer"

definition sample_stateless :: stateless_writer where
  "sample_stateless = sl_new 0 0 sample_writer_guid Reliable 1"

lemma sample_writer_guid_known: "sample_writer_guid \<noteq> guid_unknown"
  by (simp add: sample_writer_guid_def guid_new_def guid_unknown_def
      ei_spdp_builtin_participant_writer_def ei_unknown_def)

theorem stateless_never_sends_witness:
  "sl_on_locator (\<lambda>bytes address port. 0) (rl_new loc_default False)
     (set_message_sender (Some (ms_new gp_unknown 1400)) sample_stateless) [] = Some (Inl AssertFailed, [])"
proof -
  have "set_message_sender (Some (ms_new gp_unknown 1400)) sample_stateless
      = (set_message_sender (Some (ms_new gp_unknown 1400)) sample_stateless)\<lparr> w_push_mode := True,
          w_heartbeat_period := 5000000000, w_nack_response_delay := 200000000, w_nack_suppression := 0,
          w_reliability := Reliable, sl_resend_period := 1 \<rparr>"
    by (simp add: set_message_sender_def sample_stateless_def sl_new_def rtps_writer.defs w_new_def)
  then have "sl_reach sample_stateless (set_message_sender (Some (ms_new gp_unknown 1400)) sample_stateless)"
    unfolding sl_reach_def by (metis sl_configure r_into_rtranclp)
  from stateless_never_sends[OF this[unfolded sample_stateless_def] sample_writer_guid_known]
  show ?thesis unfolding sample_stateless_def by blast
qed

text \<open>An ACKNACK with reply locators that form a map makes every one of them, new or known, a reader
  locator that requests the set of the ACKNACK, leaves every other locator as it was, and makes the
  nack response timer run out at most one response delay after the last reply locator is handled.\<close>

theorem stateless_ack_nack:
  assumes "loc_map_wf k a (sl_locators w)" "set (rc_unicast rc @ rc_multicast rc) \<subseteq> loc_class k a"
    and "timer_ready now (sl_nack_timer w)" "readings_ok now (map clocks (rc_unicast rc @ rc_multicast rc))"
    and "0 \<le> w_nack_response_delay w" "w_nack_response_delay w \<le> int64_max"
  shows "\<exists>w'. sl_receive_ack_nack clocks rc an w = Inr (True, w') \<and> loc_map_wf k a (sl_locators w')
    \<and> (\<forall>l \<in> set (rc_unicast rc @ rc_multicast rc).
         \<exists>p. map_of (sl_locators w') l = Some p \<and> requests (an_sn_state an) p)
    \<and> (\<forall>l. l \<notin> set (rc_unicast rc @ rc_multicast rc) \<longrightarrow>
         map_of (sl_locators w') l = map_of (sl_locators w) l)
    \<and> (rc_unicast rc @ rc_multicast rc \<noteq> [] \<and> \<not> sns_is_empty (an_sn_state an) \<longrightarrow>
         et_start (sl_nack_timer w') + et_interval (sl_nack_timer w')
           \<le> last_reading now (map clocks (rc_unicast rc @ rc_multicast rc)) + w_nack_response_delay w)"
proof -
  let ?ls = "rc_unicast rc @ rc_multicast rc"
  let ?xs = "map (\<lambda>l. (l, clocks l)) ?ls"
  have keys: "fst ` set ?xs = set ?ls" by force
  have times: "map snd ?xs = map clocks ?ls" by simp
  have "sl_receive_ack_nack clocks rc an w =
      rbind (rfold (sl_request_from (an_sn_state an)) ?xs w) (\<lambda>w2. Inr (True, w2))"
    by (simp add: sl_receive_ack_nack_def rfold_append rbind_assoc)
  moreover obtain w' where w': "rfold (sl_request_from (an_sn_state an)) ?xs w = Inr w'"
    "loc_map_wf k a (sl_locators w')"
    "\<forall>l \<in> fst ` set ?xs. \<exists>p. map_of (sl_locators w') l = Some p \<and> requests (an_sn_state an) p"
    "\<forall>l. l \<notin> fst ` set ?xs \<longrightarrow> map_of (sl_locators w') l = map_of (sl_locators w) l"
    "?xs \<noteq> [] \<and> \<not> sns_is_empty (an_sn_state an) \<longrightarrow>
       et_start (sl_nack_timer w') + et_interval (sl_nack_timer w')
         \<le> last_reading now (map snd ?xs) + w_nack_response_delay w"
    using sl_requests_ok[OF assms(1) _ assms(3) _ assms(5,6), of ?xs "an_sn_state an"] assms(2,4)
    unfolding keys times by blast
  ultimately show ?thesis using w' unfolding keys times by auto
qed

theorem stateless_ack_nack_witness:
  "\<exists>w' p. sl_receive_ack_nack (\<lambda>l. (5, 6)) ((rc_new gp_unknown True)\<lparr> rc_unicast := [loc_default] \<rparr>) an_new
      sample_stateless = Inr (True, w') \<and> map_of (sl_locators w') loc_default = Some p
    \<and> requests sns_unknown p"
proof -
  let ?rc = "(rc_new gp_unknown True)\<lparr> rc_unicast := [loc_default] \<rparr>"
  have "loc_map_wf (loc_kind loc_default) (loc_address loc_default) (sl_locators sample_stateless)"
    "set (rc_unicast ?rc @ rc_multicast ?rc) \<subseteq> loc_class (loc_kind loc_default) (loc_address loc_default)"
    "timer_ready 0 (sl_nack_timer sample_stateless)"
    "readings_ok 0 (map (\<lambda>l. (5, 6)) (rc_unicast ?rc @ rc_multicast ?rc))"
    "0 \<le> w_nack_response_delay sample_stateless" "w_nack_response_delay sample_stateless \<le> int64_max"
    by (simp_all add: sample_stateless_def sl_new_def rtps_writer.defs
        w_new_def rc_new_def loc_class_def timer_ready_def et_new_def dur_zero_def dur_infinite_def int64_max_def)
  from stateless_ack_nack[OF this, of an_new]
  show ?thesis by (auto simp: rc_new_def an_new_def an_of_base_def submessage_base.defs sns_unknown_def)
qed

text \<open>The numbers a stateless writer reads from a requested set are the base and, for every bit
  below the highest position ever set, the number one above the one the bit stands for; the highest
  position itself is never read.\<close>

theorem requested_numbers_shifted:
  assumes "sns_ok req" "sns_base req = sn_of_value b" "1 \<le> b" "b < 4611686018427387000"
  shows "\<exists>ss. requested_sequence req = Inr ss
    \<and> set ss = insert (sn_of_value b) {sn_of_value (b + 1 + i) | i. 0 \<le> i \<and> i < sns_num_bits req \<and> sns_bit req i}"
  by (rule requested_sequence_ok[OF assms])

theorem requested_numbers_shifted_witness:
  "\<exists>ss. requested_sequence \<lparr> sns_base = sn_of_value 5, sns_num_bits = 2, sns_words = 5 # replicate 7 0 \<rparr> = Inr ss
    \<and> set ss = {sn_of_value 5, sn_of_value 6}"
proof -
  let ?req = "\<lparr> sns_base = sn_of_value 5, sns_num_bits = 2, sns_words = (5 :: 32 word) # replicate 7 0 \<rparr>"
  have nth: "sns_words ?req ! i = (if i = 0 then 5 else 0)" if "i < 8" for i
    using that by (auto simp: nth_Cons')
  have bit5: "bit (5 :: 32 word) n \<longleftrightarrow> n = 0 \<or> n = 2" for n
    by (cases n; simp add: bit_numeral_rec(1) bit_numeral_rec(2) bit_Suc; cases "n - 1"; auto simp: bit_Suc bit_1_iff)
  have bits: "sns_bit ?req q \<longleftrightarrow> q = 0 \<or> q = 2" for q
  proof (cases "0 \<le> q \<and> q \<le> 255")
    case True
    then have "nat (q div 32) < 8" by auto
    then show ?thesis using True nth[of "nat (q div 32)"] bit5[of "nat (q mod 32)"]
      by (auto simp: sns_bit_def)
  qed (auto simp: sns_bit_def)
  have "sns_ok ?req" using sn_valid_representable[OF sn_of_value_valid[of 5]]
    by (auto simp: sns_ok_def bits in_int64_def)
  then obtain ss where ss: "requested_sequence ?req = Inr ss"
    "set ss = insert (sn_of_value 5) {sn_of_value (5 + 1 + i) | i. 0 \<le> i \<and> i < 2 \<and> (i = 0 \<or> i = 2)}"
    using requested_numbers_shifted[of ?req 5] unfolding bits by auto
  moreover have "{sn_of_value (5 + 1 + i) | i. 0 \<le> i \<and> i < 2 \<and> (i = 0 \<or> i = 2)} = {sn_of_value 6}"
    by (auto intro: exI[of _ 0])
  ultimately show ?thesis by simp
qed

end
