(* ===== verification/Rtps_Reader.thy ===== *)
theory Rtps_Reader
  imports Message_Receiver Message_Sender Timing
begin

text \<open>
  \<open>RTPS/Structure/RtpsReader\<close> with the endpoint attributes it inherits, and
  \<open>RTPS/Stateless/StatelessReader\<close>. A reader puts the data submessage it is handed into a second
  shared pointer; the model keeps the submessage by value.
\<close>

record rtps_reader =
  rr_guid :: guid
  rr_reliability :: reliability_kind
  rr_unicast :: "locator list"
  rr_multicast :: "locator list"
  rr_expects_inline_qos :: bool
  rr_response_delay :: int
  rr_suppression :: int
  rr_cache :: data_cache
  rr_sender :: "message_sender option"

definition rr_new :: "guid \<Rightarrow> reliability_kind \<Rightarrow> rtps_reader" where
  "rr_new g rel =
     \<lparr> rr_guid = g, rr_reliability = rel, rr_unicast = [], rr_multicast = [], rr_expects_inline_qos = True,
       rr_response_delay = 500000000, rr_suppression = 0, rr_cache = cache_new, rr_sender = None \<rparr>"

definition rr_entity :: "'a rtps_reader_scheme \<Rightarrow> entity_id" where
  "rr_entity r = guid_entity (rr_guid r)"

definition rr_set_message_sender ::
  "message_sender option \<Rightarrow> 'a rtps_reader_scheme \<Rightarrow> 'a rtps_reader_scheme" where
  "rr_set_message_sender ms r = r\<lparr> rr_sender := ms \<rparr>"

text \<open>\<open>InstanceHandle::NIL()\<close>\<close>

definition nil_handle :: int where
  "nil_handle = 0"

text \<open>The change a reader makes of a data submessage.\<close>

definition received_change :: "guid \<Rightarrow> rtps_data \<Rightarrow> cache_change" where
  "received_change writer d = cc_new Alive writer (d_sn d) (Some d) nil_handle"

section \<open>StatelessReader\<close>

definition sr0_receive_data ::
  "guid_prefix \<Rightarrow> rtps_data \<Rightarrow> 'a rtps_reader_scheme \<Rightarrow> (bool \<times> 'a rtps_reader_scheme) res" where
  "sr0_receive_data source d r =
     (let writer = guid_new source (d_writer d) in
      rbind (add_change (received_change writer d) (rr_cache r)) (\<lambda>cache.
        Inr (True, r\<lparr> rr_cache := cache \<rparr>)))"

definition sr0_receive_gap :: "rtps_gap \<Rightarrow> 'a rtps_reader_scheme \<Rightarrow> (bool \<times> 'a rtps_reader_scheme) res" where
  "sr0_receive_gap g r = Inr (False, r)"

definition sr0_receive_heartbeat ::
  "rtps_heartbeat \<Rightarrow> 'a rtps_reader_scheme \<Rightarrow> (bool \<times> 'a rtps_reader_scheme) res" where
  "sr0_receive_heartbeat hb r = Inr (False, r)"

section \<open>Facts\<close>

lemma received_change_sn [simp]: "cc_sn (received_change writer d) = d_sn d"
  by (simp add: received_change_def cc_new_def)

text \<open>On a cache of one window, a data submessage either extends the map or stops the program.\<close>

lemma add_received:
  assumes "cache_ok h cache" "d_sn d \<in> sn_window h"
  shows "map_of cache (d_sn d) = None \<Longrightarrow>
      \<exists>cache'. add_change (received_change writer d) cache = Inr cache' \<and> cache_ok h cache'
        \<and> map_of cache' = (map_of cache)(d_sn d \<mapsto> received_change writer d)"
    and "map_of cache (d_sn d) \<noteq> None \<Longrightarrow> add_change (received_change writer d) cache = Inl AssertFailed"
  using add_change_fresh[OF assms(1), of "received_change writer d"]
    add_change_present[OF assms(1), of "received_change writer d"] assms(2)
  by (auto simp: map_of_eq_None_iff)

text \<open>Several data submessages of one source, in the order a datagram carries them.\<close>

definition sr0_receive_all ::
  "guid_prefix \<Rightarrow> rtps_data list \<Rightarrow> 'a rtps_reader_scheme \<Rightarrow> 'a rtps_reader_scheme res" where
  "sr0_receive_all source = rfold (\<lambda>d r. rbind (sr0_receive_data source d r) (\<lambda>(ok, r'). Inr r'))"

lemma sr0_receive_all_ok:
  assumes "cache_ok h (rr_cache r)" "\<forall>d \<in> set ds. d_sn d \<in> sn_window h"
    and "distinct (map d_sn ds)" "\<forall>d \<in> set ds. map_of (rr_cache r) (d_sn d) = None"
  shows "\<exists>cache. sr0_receive_all source ds r = Inr (r\<lparr> rr_cache := cache \<rparr>) \<and> cache_ok h cache
    \<and> map_of cache = map_of (rr_cache r) ++
        map_of (map (\<lambda>d. (d_sn d, received_change (guid_new source (d_writer d)) d)) ds)"
  using assms
proof (induction ds arbitrary: r)
  case Nil
  then show ?case by (intro exI[of _ "rr_cache r"]) (simp add: sr0_receive_all_def)
next
  case (Cons d ds)
  obtain c1 where c1: "add_change (received_change (guid_new source (d_writer d)) d) (rr_cache r) = Inr c1"
    "cache_ok h c1" "map_of c1 = (map_of (rr_cache r))(d_sn d \<mapsto> received_change (guid_new source (d_writer d)) d)"
    using add_received(1)[OF Cons.prems(1)] Cons.prems(2,4) by fastforce
  let ?r = "r\<lparr> rr_cache := c1 \<rparr>"
  have step: "sr0_receive_all source (d # ds) r = sr0_receive_all source ds ?r"
    by (simp add: sr0_receive_all_def sr0_receive_data_def c1(1))
  have fresh: "\<forall>e \<in> set ds. map_of (rr_cache ?r) (d_sn e) = None"
    using Cons.prems(3,4) c1(3) by (auto simp: image_iff)
  obtain c2 where "sr0_receive_all source ds ?r = Inr (?r\<lparr> rr_cache := c2 \<rparr>)" "cache_ok h c2"
    "map_of c2 = map_of c1 ++ map_of (map (\<lambda>d. (d_sn d, received_change (guid_new source (d_writer d)) d)) ds)"
    using Cons.IH[of ?r] c1(2) fresh Cons.prems(2,3) by auto
  moreover have "map_of (map (\<lambda>d. (d_sn d, received_change (guid_new source (d_writer d)) d)) ds) (d_sn d) = None"
    using Cons.prems(3) by (auto simp: map_of_eq_None_iff)
  ultimately show ?case unfolding step
    by (intro exI[of _ c2]) (auto simp: c1(3) map_add_upd_left fun_eq_iff map_add_def split: option.split)
qed

section \<open>Properties\<close>



end
