(* ===== verification/Writer_Proxy.thy ===== *)
theory Writer_Proxy
  imports Data_Cache
begin

text \<open>
  \<open>RTPS/Stateful/WriterProxy\<close> and \<open>ChangeFromWriter\<close>: what a stateful reader knows of one matched
  writer. No operation of the class inserts into \<open>mapChangesFromWriter_\<close>.
\<close>

datatype cfw_status = Lost | Missing | Received | UnknownStatus

record change_from_writer =
  cfw_relevant :: bool
  cfw_status_of :: cfw_status

type_synonym writer_change_map = "(sequence_number, change_from_writer) omap"

record writer_proxy =
  wp_guid :: guid
  wp_unicast :: "locator list"
  wp_multicast :: "locator list"
  wp_changes :: writer_change_map

definition wp_new :: "guid \<Rightarrow> writer_proxy" where
  "wp_new g = \<lparr> wp_guid = g, wp_unicast = [], wp_multicast = [], wp_changes = [] \<rparr>"

text \<open>The reverse iteration of \<open>AvailableChangesMax\<close>, on the reversed list.\<close>

fun available_scan :: "writer_change_map \<Rightarrow> sequence_number" where
  "available_scan [] = sn_unknown"
| "available_scan ((k, c) # m) =
     (if cfw_status_of c = Received \<or> cfw_status_of c = Lost then k else available_scan m)"

definition available_changes_max :: "writer_proxy \<Rightarrow> sequence_number" where
  "available_changes_max p = available_scan (rev (wp_changes p))"

text \<open>\<open>operator[]\<close> on a key the map has, followed by the setters.\<close>

fun update_at :: "sequence_number \<Rightarrow> (change_from_writer \<Rightarrow> change_from_writer) \<Rightarrow> writer_change_map \<Rightarrow> writer_change_map" where
  "update_at s f [] = []"
| "update_at s f ((k, c) # m) =
     (if sn_less k s then (k, c) # update_at s f m
      else if sn_less s k then (k, c) # m
      else (k, f c) # m)"

definition irrelevant_change_set :: "sequence_number \<Rightarrow> writer_proxy \<Rightarrow> writer_proxy" where
  "irrelevant_change_set s p =
     (if om_member sn_less s (wp_changes p)
      then p\<lparr> wp_changes := update_at s (\<lambda>c. c\<lparr> cfw_status_of := Received, cfw_relevant := False \<rparr>) (wp_changes p) \<rparr>
      else p)"

definition received_change_set :: "sequence_number \<Rightarrow> writer_proxy \<Rightarrow> writer_proxy" where
  "received_change_set s p =
     (if om_member sn_less s (wp_changes p)
      then p\<lparr> wp_changes := update_at s (\<lambda>c. c\<lparr> cfw_status_of := Received \<rparr>) (wp_changes p) \<rparr>
      else p)"

fun lost_loop :: "sequence_number \<Rightarrow> writer_change_map \<Rightarrow> writer_change_map" where
  "lost_loop first [] = []"
| "lost_loop first ((k, c) # m) =
     (if sn_less k first then (k, c) # lost_loop first m
      else if cfw_status_of c = UnknownStatus \<or> cfw_status_of c = Missing
      then (k, c\<lparr> cfw_status_of := Lost \<rparr>) # lost_loop first m
      else (k, c) # lost_loop first m)"

definition lost_changes_update :: "sequence_number \<Rightarrow> writer_proxy \<Rightarrow> writer_proxy" where
  "lost_changes_update first p = p\<lparr> wp_changes := lost_loop first (wp_changes p) \<rparr>"

fun missing_scan :: "writer_change_map \<Rightarrow> (sequence_number, unit) omap \<Rightarrow> (sequence_number, unit) omap" where
  "missing_scan [] acc = acc"
| "missing_scan ((k, c) # m) acc =
     (if cfw_status_of c = Missing then missing_scan m (om_insert sn_less k () acc) else missing_scan m acc)"

definition missing_changes :: "writer_proxy \<Rightarrow> sequence_number list" where
  "missing_changes p = map fst (missing_scan (wp_changes p) [])"

fun has_missing_scan :: "writer_change_map \<Rightarrow> bool" where
  "has_missing_scan [] = False"
| "has_missing_scan ((k, c) # m) = (if cfw_status_of c = Missing then True else has_missing_scan m)"

definition has_missing_changes :: "writer_proxy \<Rightarrow> bool" where
  "has_missing_changes p = has_missing_scan (wp_changes p)"

fun missing_loop :: "sequence_number \<Rightarrow> writer_change_map \<Rightarrow> writer_change_map" where
  "missing_loop lst [] = []"
| "missing_loop lst ((k, c) # m) =
     (if sn_le lst k
      then (if cfw_status_of c = UnknownStatus
            then (k, c\<lparr> cfw_status_of := Missing \<rparr>) # missing_loop lst m
            else (k, c) # missing_loop lst m)
      else (k, c) # m)"

definition missing_changes_update :: "sequence_number \<Rightarrow> writer_proxy \<Rightarrow> writer_proxy" where
  "missing_changes_update lst p = p\<lparr> wp_changes := missing_loop lst (wp_changes p) \<rparr>"

section \<open>Facts\<close>

lemma update_at_keys [simp]: "map fst (update_at s f m) = map fst m"
  by (induction s f m rule: update_at.induct) auto

lemma lost_loop_keys [simp]: "map fst (lost_loop s m) = map fst m"
  by (induction s m rule: lost_loop.induct) auto

lemma missing_loop_keys [simp]: "map fst (missing_loop s m) = map fst m"
  by (induction s m rule: missing_loop.induct) auto

text \<open>Every operation keeps the set of known changes: an empty proxy stays empty.\<close>

lemma writer_proxy_keys:
  "map fst (wp_changes (irrelevant_change_set s p)) = map fst (wp_changes p)"
  "map fst (wp_changes (received_change_set s p)) = map fst (wp_changes p)"
  "map fst (wp_changes (lost_changes_update s p)) = map fst (wp_changes p)"
  "map fst (wp_changes (missing_changes_update s p)) = map fst (wp_changes p)"
  by (simp_all add: irrelevant_change_set_def received_change_set_def lost_changes_update_def
      missing_changes_update_def)

lemma lost_loop_map_of:
  assumes "sn_map_wf h m" "first \<in> sn_window h"
  shows "map_of (lost_loop first m) k = map_option
     (\<lambda>c. if sn_get first \<le> sn_get k \<and> (cfw_status_of c = UnknownStatus \<or> cfw_status_of c = Missing)
          then c\<lparr> cfw_status_of := Lost \<rparr> else c) (map_of m k)"
  using assms
proof (induction m)
  case (Cons e m)
  obtain k1 c1 where e: "e = (k1, c1)" by force
  have k1: "k1 \<in> sn_window h" "sn_map_wf h m" using Cons.prems(1) by (auto simp: e sn_map_wf_Cons)
  show ?case using sn_window_less[OF k1(1) Cons.prems(2)] Cons.IH[OF k1(2) Cons.prems(2)]
    by (auto simp: e)
qed simp

lemma missing_loop_map_of:
  assumes "sn_map_wf h m" "lst \<in> sn_window h"
  shows "map_of (missing_loop lst m) k = map_option
     (\<lambda>c. if (\<forall>k' \<in> fst ` set m. sn_get lst \<le> sn_get k') \<and> cfw_status_of c = UnknownStatus
          then c\<lparr> cfw_status_of := Missing \<rparr> else c) (map_of m k)"
  using assms
proof (induction m)
  case (Cons e m)
  obtain k1 c1 where e: "e = (k1, c1)" by force
  have k1: "k1 \<in> sn_window h" "sn_map_wf h m" using Cons.prems(1) by (auto simp: e sn_map_wf_Cons)
  have le: "sn_le lst k1 \<longleftrightarrow> sn_get lst \<le> sn_get k1"
    using sn_window_less[OF k1(1) Cons.prems(2)] by (auto simp: sn_le_def)
  have above: "sn_get lst \<le> sn_get k'" if "sn_get lst \<le> sn_get k1" "k' \<in> fst ` set m" for k'
  proof -
    have "sn_less k1 k'" "k' \<in> sn_window h"
      using Cons.prems(1) that(2) sn_map_keys[OF k1(2)] by (auto simp: e sn_map_wf_Cons)
    then show ?thesis using sn_window_less[OF k1(1)] that(1) by force
  qed
  show ?case
  proof (cases "sn_get lst \<le> sn_get k1")
    case True
    then have "\<forall>k' \<in> fst ` set m. sn_get lst \<le> sn_get k'" using above by blast
    then show ?thesis using True le Cons.IH[OF k1(2) Cons.prems(2)] by (auto simp: e)
  next
    case False
    then show ?thesis using le by (cases "map_of m k") (auto simp: e)
  qed
qed simp

lemma available_scan_result:
  assumes "sn_map_wf h m"
  shows "available_scan (rev m) = sn_unknown \<and> (\<forall>(k, c) \<in> set m. cfw_status_of c \<notin> {Received, Lost})
    \<or> (\<exists>c. (available_scan (rev m), c) \<in> set m \<and> cfw_status_of c \<in> {Received, Lost} \<and>
        (\<forall>(k', c') \<in> set m. cfw_status_of c' \<in> {Received, Lost} \<longrightarrow>
           sn_get k' \<le> sn_get (available_scan (rev m))))"
  using assms
proof (induction m rule: rev_induct)
  case (snoc e m)
  obtain k1 c1 where e: "e = (k1, c1)" by force
  have wf: "sn_map_wf h m" and less: "\<forall>f \<in> set m. sn_less (fst f) k1" and k1: "k1 \<in> sn_window h"
    using snoc.prems sn_map_keys[OF snoc.prems] by (induction m) (auto simp: e sn_map_wf_Cons)
  have below: "sn_get k' \<le> sn_get k1" if "(k', c') \<in> set m" for k' c'
  proof -
    have "k' \<in> sn_window h" "sn_less k' k1" using that sn_map_keys[OF wf] less by force+
    then show ?thesis using sn_window_less k1 by force
  qed
  show ?case
  proof (cases "cfw_status_of c1 = Received \<or> cfw_status_of c1 = Lost")
    case True
    then show ?thesis using below by (auto simp: e)
  next
    case False
    then show ?thesis using snoc.IH[OF wf] by (auto simp: e)
  qed
qed simp

section \<open>Properties\<close>

text \<open>\<open>LostChangesUpdate\<close> turns into lost exactly the unknown or missing changes numbered at or
  above the first available number, where its contract names the ones below it.\<close>

theorem lost_changes_update_effect:
  assumes "sn_map_wf h (wp_changes p)" "first \<in> sn_window h"
  shows "map_of (wp_changes (lost_changes_update first p)) k = map_option
     (\<lambda>c. if sn_get first \<le> sn_get k \<and> cfw_status_of c \<in> {UnknownStatus, Missing}
          then c\<lparr> cfw_status_of := Lost \<rparr> else c) (map_of (wp_changes p) k)"
  using lost_loop_map_of[OF assms, of k] by (simp add: lost_changes_update_def)

theorem lost_changes_update_effect_witness:
  "map_of (wp_changes (lost_changes_update (sn_of_value 5) (wp_new guid_unknown\<lparr> wp_changes :=
     [(sn_of_value 2, \<lparr> cfw_relevant = True, cfw_status_of = Missing \<rparr>)] \<rparr>))) (sn_of_value 2)
   = Some \<lparr> cfw_relevant = True, cfw_status_of = Missing \<rparr>"
proof -
  let ?p = "wp_new guid_unknown\<lparr> wp_changes := [(sn_of_value 2, \<lparr> cfw_relevant = True, cfw_status_of = Missing \<rparr>)] \<rparr>"
  have w: "sn_of_value 2 \<in> sn_window 0" "sn_of_value 5 \<in> sn_window 0"
    by (simp_all add: sn_window_def sn_of_value_valid in_int64_def) (simp_all add: sn_defs)
  then have "sn_map_wf 0 (wp_changes ?p)" by (simp add: sn_map_wf_Cons)
  moreover have "sn_get (sn_of_value 2) = 2" "sn_get (sn_of_value 5) = 5" by (simp_all add: sn_get_of_value)
  ultimately show ?thesis
    using lost_changes_update_effect[of 0 ?p "sn_of_value 5" "sn_of_value 2"] w by simp
qed

text \<open>\<open>MissingChangesUpdate\<close> walks the changes from the lowest and stops at the first one below the
  last available number: an unknown change becomes missing exactly when no known change is numbered
  below that number.\<close>

theorem missing_changes_update_effect:
  assumes "sn_map_wf h (wp_changes p)" "lst \<in> sn_window h"
  shows "map_of (wp_changes (missing_changes_update lst p)) k = map_option
     (\<lambda>c. if (\<forall>k' \<in> fst ` set (wp_changes p). sn_get lst \<le> sn_get k') \<and> cfw_status_of c = UnknownStatus
          then c\<lparr> cfw_status_of := Missing \<rparr> else c) (map_of (wp_changes p) k)"
  using missing_loop_map_of[OF assms, of k] by (simp add: missing_changes_update_def)

theorem missing_changes_update_effect_witness:
  "map_of (wp_changes (missing_changes_update (sn_of_value 5) (wp_new guid_unknown\<lparr> wp_changes :=
     [(sn_of_value 2, \<lparr> cfw_relevant = True, cfw_status_of = UnknownStatus \<rparr>)] \<rparr>))) (sn_of_value 2)
   = Some \<lparr> cfw_relevant = True, cfw_status_of = UnknownStatus \<rparr>"
proof -
  let ?p = "wp_new guid_unknown\<lparr> wp_changes :=
    [(sn_of_value 2, \<lparr> cfw_relevant = True, cfw_status_of = UnknownStatus \<rparr>)] \<rparr>"
  have w: "sn_of_value 2 \<in> sn_window 0" "sn_of_value 5 \<in> sn_window 0"
    by (simp_all add: sn_window_def sn_of_value_valid in_int64_def) (simp_all add: sn_defs)
  then have "sn_map_wf 0 (wp_changes ?p)" by (simp add: sn_map_wf_Cons)
  moreover have "sn_get (sn_of_value 2) = 2" "sn_get (sn_of_value 5) = 5" by (simp_all add: sn_get_of_value)
  ultimately show ?thesis
    using missing_changes_update_effect[of 0 ?p "sn_of_value 5" "sn_of_value 2"] w by simp
qed

text \<open>\<open>AvailableChangesMax\<close> is the greatest number of a received or lost change, and the unknown
  number exactly when there is none.\<close>

theorem available_changes_max_greatest:
  assumes "sn_map_wf h (wp_changes p)"
  shows "if \<exists>(k, c) \<in> set (wp_changes p). cfw_status_of c \<in> {Received, Lost}
    then (\<exists>c. (available_changes_max p, c) \<in> set (wp_changes p) \<and> cfw_status_of c \<in> {Received, Lost})
      \<and> (\<forall>(k, c) \<in> set (wp_changes p). cfw_status_of c \<in> {Received, Lost} \<longrightarrow>
            sn_get k \<le> sn_get (available_changes_max p))
    else available_changes_max p = sn_unknown" 
  using available_scan_result[OF assms]
proof
  assume none: "available_scan (rev (wp_changes p)) = sn_unknown
    \<and> (\<forall>(k, c) \<in> set (wp_changes p). cfw_status_of c \<notin> {Received, Lost})"
  then have "\<not> (\<exists>(k, c) \<in> set (wp_changes p). cfw_status_of c \<in> {Received, Lost})" by blast
  then show ?thesis using none by (simp only: if_False available_changes_max_def)
next
  assume "\<exists>c. (available_scan (rev (wp_changes p)), c) \<in> set (wp_changes p)
    \<and> cfw_status_of c \<in> {Received, Lost} \<and> (\<forall>(k', c') \<in> set (wp_changes p).
        cfw_status_of c' \<in> {Received, Lost} \<longrightarrow> sn_get k' \<le> sn_get (available_scan (rev (wp_changes p))))"
    (is "\<exists>c. ?in c \<and> ?st c \<and> ?max")
  then have "\<exists>(k, c) \<in> set (wp_changes p). cfw_status_of c \<in> {Received, Lost}"
    "\<exists>c. ?in c \<and> ?st c" ?max by blast+
  then show ?thesis by (simp only: if_True available_changes_max_def)
qed

theorem available_changes_max_greatest_witness:
  "available_changes_max (wp_new guid_unknown) = sn_unknown"
  using available_changes_max_greatest[of 0 "wp_new guid_unknown"] by (simp add: wp_new_def sn_map_wf_def)

end
