(* ===== verification/Stateful_Reader.thy ===== *)
theory Stateful_Reader
  imports Rtps_Reader Writer_Proxy
begin

text \<open>
  \<open>RTPS/Stateful/StatefulReader\<close>: the reader that keeps one writer proxy per matched writer, in a
  map under the order of GUIDs. The class declares a member \<open>messageSender_\<close> of its own that hides
  the one \<open>SetMessageSender\<close> of the base class sets: the member is \<open>sr_sender\<close>. Clock readings are
  arguments. The loop over the sequential part of a GAP may not end; its result is an option.
\<close>

record stateful_reader = rtps_reader +
  sr_writers :: "(guid, writer_proxy) omap"
  sr_sender :: "message_sender option"
  sr_ack_timer :: elapsed_timer

definition sr_new :: "int \<Rightarrow> guid \<Rightarrow> reliability_kind \<Rightarrow> stateful_reader" where
  "sr_new now g rel = rtps_reader.extend (rr_new g rel)
     \<lparr> sr_writers = [], sr_sender = None, sr_ack_timer = et_new now dur_infinite \<rparr>"

section \<open>Sending acknowledgements\<close>

text \<open>The inner loop: the missing numbers that fit the bitmap, and those that stay.\<close>

fun ack_fill ::
  "sequence_number \<Rightarrow> sequence_number list \<Rightarrow> sequence_number_set
     \<Rightarrow> (sequence_number_set \<times> sequence_number list) res" where
  "ack_fill base [] sl = Inr (sl, [])"
| "ack_fill base (s # ss) sl =
     (let position = wrap64 (sn_get s - sn_get base) in
      asserting (0 \<le> position)
        (let (set_bit, sl') = set_bit_at_position (to_uint32 position) True sl in
         if \<not> set_bit then Inr (sl', s # ss) else ack_fill base ss sl'))"

lemma ack_fill_shorter: "ack_fill base ss sl = Inr (sl', rest) \<Longrightarrow> length rest \<le> length ss"
  by (induction base ss sl rule: ack_fill.induct)
    (auto simp: Let_def res_simps split: prod.splits if_splits intro: le_SucI)

lemma ack_fill_consumes:
  "ack_fill s (s # ss) sl = Inr (sl', rest) \<Longrightarrow> length rest < length (s # ss)"
  using ack_fill_shorter[of s ss]
  by (auto simp: Let_def res_simps set_bit_at_position_def le_imp_less_Suc wrap64_def to_uint32_def
      split: if_splits)

definition ack_message :: "entity_id \<Rightarrow> sequence_number_set \<Rightarrow> rtps_ack_nack" where
  "ack_message reader sl = an_new\<lparr> an_writer := reader, an_reader := reader, an_sn_state := sl \<rparr>"

function ack_rounds :: "entity_id \<Rightarrow> sequence_number list \<Rightarrow> outgoing list \<Rightarrow> outgoing list res" where
  "ack_rounds reader [] out = Inr out"
| "ack_rounds reader (s # missing) out =
     (if s = sn_unknown then Inl AssertFailed
      else case ack_fill s (s # missing) (sns_set_base s sns_new) of
          Inl e \<Rightarrow> Inl e
        | Inr (sl, rest) \<Rightarrow> ack_rounds reader rest (out @ [OutAckNack (ack_message reader sl)]))"
  by pat_completeness auto

termination
  by (relation "measure (length \<circ> fst \<circ> snd)")
    (simp, use ack_fill_consumes in \<open>force simp del: ack_fill.simps\<close>)

fun ack_nack_loop ::
  "message_sender \<Rightarrow> device \<Rightarrow> entity_id \<Rightarrow> writer_proxy list \<Rightarrow> bool \<Rightarrow> bool io" where
  "ack_nack_loop ms dev reader [] sent = io_of (Inr sent)"
| "ack_nack_loop ms dev reader (p # ps) sent =
     (if \<not> has_missing_changes p then ack_nack_loop ms dev reader ps sent
      else io_bind (io_of (asserting (missing_changes p \<noteq> []) (ack_rounds reader (missing_changes p) []))) (\<lambda>out.
           io_bind (io_of (asserting (out \<noteq> []) (Inr ()))) (\<lambda>_.
           io_bind (send_to_writer ms dev (wp_unicast p) out) (\<lambda>rc.
             ack_nack_loop ms dev reader ps True))))"

definition sr_send_ack_nack :: "device \<Rightarrow> stateful_reader \<Rightarrow> bool io" where
  "sr_send_ack_nack dev r =
     (case sr_sender r of
        None \<Rightarrow> io_of (Inl AssertFailed)
      | Some ms \<Rightarrow> ack_nack_loop ms dev (rr_entity r) (map snd (sr_writers r)) False)"

definition sr_wait_dispatch ::
  "(int \<Rightarrow> stateful_reader \<Rightarrow> stateful_reader io) \<Rightarrow> device \<Rightarrow> int \<times> int \<Rightarrow> int
     \<Rightarrow> stateful_reader \<Rightarrow> (return_code \<times> stateful_reader) io" where
  "sr_wait_dispatch callbacks dev clocks milliseconds r =
     (case rr_reliability r of
        BestEffort \<Rightarrow> io_bind (callbacks milliseconds r) (\<lambda>r1. io_of (Inr (RcOk, r1)))
      | Reliable \<Rightarrow>
          io_bind (io_of (et_remaining (fst clocks) (sr_ack_timer r))) (\<lambda>left.
          io_bind (callbacks (min milliseconds (dur_in_millis left)) r) (\<lambda>r1.
          io_bind (io_of (et_has_expired (snd clocks) (sr_ack_timer r1))) (\<lambda>expired.
          io_bind (if expired then sr_send_ack_nack dev r1 else io_of (Inr False)) (\<lambda>sent.
            io_of (Inr (RcOk, r1))))))
      | _ \<Rightarrow> io_of (Inr (RcBadParameter, r)))"

section \<open>Matched writers\<close>

definition sr_matched_writer_lookup :: "guid \<Rightarrow> stateful_reader \<Rightarrow> writer_proxy option" where
  "sr_matched_writer_lookup g r = om_find guid_less g (sr_writers r)"

text \<open>The proxy of a matched writer is changed through its pointer.\<close>

definition sr_put :: "guid \<Rightarrow> writer_proxy \<Rightarrow> stateful_reader \<Rightarrow> stateful_reader" where
  "sr_put g p r = r\<lparr> sr_writers := om_assign guid_less g p (sr_writers r) \<rparr>"

definition sr_matched_writer_add :: "writer_proxy \<Rightarrow> stateful_reader \<Rightarrow> stateful_reader res" where
  "sr_matched_writer_add p r =
     asserting (\<not> om_member guid_less (wp_guid p) (sr_writers r))
       (Inr (r\<lparr> sr_writers := om_insert guid_less (wp_guid p) p (sr_writers r) \<rparr>))"

definition sr_matched_writer_remove :: "writer_proxy \<Rightarrow> stateful_reader \<Rightarrow> stateful_reader res" where
  "sr_matched_writer_remove p r =
     asserting (\<not> om_member guid_less (wp_guid p) (sr_writers r))
       (let erased = om_member guid_less (wp_guid p) (sr_writers r)
        in asserting erased (Inr (r\<lparr> sr_writers := om_erase guid_less (wp_guid p) (sr_writers r) \<rparr>)))"

definition sr_matched_writer_remove_guid :: "guid \<Rightarrow> stateful_reader \<Rightarrow> (bool \<times> stateful_reader) res" where
  "sr_matched_writer_remove_guid g r =
     (case sr_matched_writer_lookup g r of
        None \<Rightarrow> Inr (False, r)
      | Some p \<Rightarrow> rbind (sr_matched_writer_remove p r) (\<lambda>r'. Inr (True, r')))"

section \<open>Receiving\<close>

definition sr_receive_data ::
  "guid_prefix \<Rightarrow> rtps_data \<Rightarrow> stateful_reader \<Rightarrow> (bool \<times> stateful_reader) res" where
  "sr_receive_data source d r =
     (let writer = guid_new source (d_writer d) in
      case sr_matched_writer_lookup writer r of
        None \<Rightarrow> Inr (False, r)
      | Some p \<Rightarrow>
          (case rr_reliability r of
             BestEffort \<Rightarrow>
               rbind (sequence_number_max (rr_cache r)) (\<lambda>highest.
                 let expected = sn_of_value (wrap64 (sn_get highest + 1)) in
                 rbind (if sn_ge (d_sn d) expected
                        then rbind (add_change (received_change writer d) (rr_cache r)) (\<lambda>cache.
                               Inr (if sn_greater (d_sn d) expected then lost_changes_update (d_sn d) p else p,
                                    r\<lparr> rr_cache := cache \<rparr>))
                        else Inr (p, r)) (\<lambda>(p', r').
                   asserting (sn_ge (available_changes_max p') (d_sn d)) (Inr (True, sr_put writer p' r'))))
           | Reliable \<Rightarrow>
               rbind (add_change (received_change writer d) (rr_cache r)) (\<lambda>cache.
                 Inr (True, sr_put writer (received_change_set (d_sn d) p) (r\<lparr> rr_cache := cache \<rparr>)))
           | _ \<Rightarrow> Inr (False, r)))"

partial_function (option) gap_sequential ::
  "sequence_number \<Rightarrow> sequence_number \<Rightarrow> writer_proxy \<Rightarrow> writer_proxy option" where
  "gap_sequential s base p =
     (if \<not> sn_less s base then Some p
      else gap_sequential (sn_inc s) base (irrelevant_change_set s p))"

definition gap_bit ::
  "sequence_number_set \<Rightarrow> int \<Rightarrow> sequence_number \<times> writer_proxy \<Rightarrow> (sequence_number \<times> writer_proxy) res" where
  "gap_bit gl pos = (\<lambda>(s, p).
     let s' = sn_inc s in
     rbind (test_bit_at_position pos gl) (\<lambda>b. Inr (s', if b then irrelevant_change_set s' p else p)))"

definition gap_listed :: "sequence_number_set \<Rightarrow> writer_proxy \<Rightarrow> writer_proxy res" where
  "gap_listed gl p =
     rbind (rfold (gap_bit gl) [0 .. sns_num_bits gl - 1]
              (sns_base gl, irrelevant_change_set (sns_base gl) p)) (\<lambda>(s, p'). Inr p')"

definition sr_receive_gap ::
  "guid_prefix \<Rightarrow> rtps_gap \<Rightarrow> stateful_reader \<Rightarrow> (bool \<times> stateful_reader) res option" where
  "sr_receive_gap source g r =
     (let writer = guid_new source (gap_writer g) in
      case sr_matched_writer_lookup writer r of
        None \<Rightarrow> Some (Inr (False, r))
      | Some p \<Rightarrow>
          map_option (\<lambda>p1. rbind (gap_listed (gap_list g) p1) (\<lambda>p2. Inr (True, sr_put writer p2 r)))
            (gap_sequential (gap_start g) (sns_base (gap_list g)) p))"

definition sr_start_ack_timer :: "int \<Rightarrow> int \<Rightarrow> stateful_reader \<Rightarrow> stateful_reader res" where
  "sr_start_ack_timer now1 now2 r =
     rbind (et_remaining now1 (sr_ack_timer r)) (\<lambda>left.
       Inr (if rr_response_delay r < left
            then r\<lparr> sr_ack_timer := et_start_with now2 (rr_response_delay r) (sr_ack_timer r) \<rparr> else r))"

definition sr_receive_heartbeat ::
  "int \<Rightarrow> int \<Rightarrow> guid_prefix \<Rightarrow> rtps_heartbeat \<Rightarrow> stateful_reader \<Rightarrow> (bool \<times> stateful_reader) res" where
  "sr_receive_heartbeat now1 now2 source hb r =
     (case rr_reliability r of
        BestEffort \<Rightarrow> Inr (False, r)
      | Reliable \<Rightarrow>
          (let writer = guid_new source (hb_writer hb) in
           case sr_matched_writer_lookup writer r of
             None \<Rightarrow> Inr (False, r)
           | Some p \<Rightarrow>
               let p' = lost_changes_update (hb_first hb) (missing_changes_update (hb_last hb) p);
                   r1 = sr_put writer p' r
               in rbind (if \<not> hb_has_final_flag hb then sr_start_ack_timer now1 now2 r1
                         else if \<not> hb_has_liveliness_flag hb
                         then (if has_missing_changes p' then sr_start_ack_timer now1 now2 r1 else Inr r1)
                         else Inr r1) (\<lambda>r2. Inr (True, r2)))
      | _ \<Rightarrow> Inr (False, r))"

section \<open>The reader as a transition system\<close>

inductive sr_step :: "stateful_reader \<Rightarrow> stateful_reader \<Rightarrow> bool" where
  sr_data: "sr_receive_data source d r = Inr (b, r') \<Longrightarrow> sr_step r r'"
| sr_gap: "sr_receive_gap source g r = Some (Inr (b, r')) \<Longrightarrow> sr_step r r'"
| sr_heartbeat: "sr_receive_heartbeat now1 now2 source hb r = Inr (b, r') \<Longrightarrow> sr_step r r'"
| sr_add:
    "sr_matched_writer_add ((wp_new g)\<lparr> wp_unicast := us, wp_multicast := ms \<rparr>) r = Inr r' \<Longrightarrow> sr_step r r'"
| sr_remove: "sr_matched_writer_remove_guid g r = Inr (b, r') \<Longrightarrow> sr_step r r'"
| sr_configure:
    "sr_step r ((rr_set_message_sender ms r)\<lparr> rr_reliability := rel, rr_response_delay := delay,
        rr_suppression := supp, rr_expects_inline_qos := qos, rr_unicast := us, rr_multicast := mu \<rparr>)"

definition sr_reach :: "stateful_reader \<Rightarrow> stateful_reader \<Rightarrow> bool" where
  "sr_reach = sr_step\<^sup>*\<^sup>*"

definition proxies_empty :: "(guid, writer_proxy) omap \<Rightarrow> bool" where
  "proxies_empty m \<longleftrightarrow> (\<forall>(g, p) \<in> set m. wp_changes p = [])"

definition sr_ok :: "stateful_reader \<Rightarrow> bool" where
  "sr_ok r \<longleftrightarrow> sr_sender r = None \<and> proxies_empty (sr_writers r) \<and> et_total (sr_ack_timer r) = 0"

lemma proxies_empty_assign:
  "proxies_empty m \<Longrightarrow> wp_changes p = [] \<Longrightarrow> proxies_empty (om_assign lt g p m)"
  by (induction lt g p m rule: om_assign.induct) (auto simp: proxies_empty_def)

lemma proxies_empty_insert:
  "proxies_empty m \<Longrightarrow> wp_changes p = [] \<Longrightarrow> proxies_empty (om_insert lt g p m)"
  by (induction lt g p m rule: om_insert.induct) (auto simp: proxies_empty_def)

lemma proxies_empty_find: "proxies_empty m \<Longrightarrow> om_find lt g m = Some p \<Longrightarrow> wp_changes p = []"
  by (induction lt g m rule: om_find.induct) (auto simp: proxies_empty_def split: if_splits)

text \<open>No operation of a proxy changes one that knows no change.\<close>

lemma empty_proxy:
  assumes "wp_changes p = []"
  shows "irrelevant_change_set s p = p" "received_change_set s p = p" "lost_changes_update s p = p"
    "missing_changes_update s p = p" "has_missing_changes p = False" "available_changes_max p = sn_unknown"
  using assms
  by (simp_all add: irrelevant_change_set_def received_change_set_def lost_changes_update_def om_member_def
      missing_changes_update_def has_missing_changes_def available_changes_max_def)

lemma gap_sequential_empty:
  assumes "gap_sequential s base p = Some p'" "wp_changes p = []" shows "p' = p"
proof -
  have "wp_changes p = [] \<longrightarrow> p' = p"
    by (rule gap_sequential.raw_induct[OF _ assms(1), of "\<lambda>s base p p'. wp_changes p = [] \<longrightarrow> p' = p"])
      (auto simp: empty_proxy split: if_splits)
  then show ?thesis using assms(2) by blast
qed

lemma gap_sequential_ends:
  assumes "s \<in> sn_window 0" "base \<in> sn_window 0" shows "\<exists>p'. gap_sequential s base p = Some p'"
  using assms
proof (induction "nat (sn_get base - sn_get s)" arbitrary: s p rule: less_induct)
  case less
  note s = sn_window_valid[OF less.prems(1)]
  show ?case
  proof (cases "sn_less s base")
    case True
    then have lt: "sn_get s < sn_get base" using sn_window_less[OF less.prems] by simp
    have inc: "sn_get (sn_inc s) = sn_get s + 1"
      using sn_get_inc[OF s sn_window_not_max[OF less.prems(1)]] .
    have "sn_inc s \<in> sn_window 0"
    proof (cases "sn_inc s = base")
      case False
      have v: "sn_valid base" "sn_valid (sn_inc s)" using less.prems(2) sn_window_valid sn_valid_inc[OF s] by auto
      have le: "sn_get (sn_inc s) \<le> sn_get base" using lt inc by simp
      then have "sn_high (sn_inc s) < 1073741824"
        using less.prems(2) v unfolding sn_valid_get[OF v(1)] sn_valid_get[OF v(2)]
        by (auto simp: sn_window_def sn_valid_def uint32_max_def)
      then show ?thesis using v(2) by (auto simp: sn_window_def sn_valid_def)
    qed (use less.prems(2) in simp)
    then show ?thesis using less.hyps[of "sn_inc s"] less.prems(2) lt inc True
      by (subst gap_sequential.simps) auto
  qed (subst gap_sequential.simps, simp)
qed

lemma gap_listed_empty:
  assumes "gap_listed gl p = Inr p'" "wp_changes p = []" shows "p' = p"
proof -
  have "rfold (gap_bit gl) xs (s, p) = Inr (s', q) \<Longrightarrow> q = p" for xs s s' q
    using assms(2)
    by (induction xs arbitrary: s) (auto simp: gap_bit_def Let_def res_simps empty_proxy split: if_splits)
  then show ?thesis using assms by (auto simp: gap_listed_def res_simps empty_proxy)
qed

lemma sr_put_same:
  assumes "om_find guid_less g (sr_writers r) = Some p" shows "sr_put g p r = r"
  using om_assign_found[OF assms] by (simp add: sr_put_def)

lemma sr_gap_keeps:
  assumes "sr_receive_gap source g r = Some (Inr (b, r'))" "sr_ok r" shows "r' = r"
proof -
  let ?w = "guid_new source (gap_writer g)"
  show ?thesis
  proof (cases "sr_matched_writer_lookup ?w r")
    case (Some p)
    then have found: "om_find guid_less ?w (sr_writers r) = Some p" by (simp add: sr_matched_writer_lookup_def)
    then have empty: "wp_changes p = []" using proxies_empty_find assms(2) by (auto simp: sr_ok_def)
    obtain p1 p2 where run: "gap_sequential (gap_start g) (sns_base (gap_list g)) p = Some p1"
      "gap_listed (gap_list g) p1 = Inr p2" "r' = sr_put ?w p2 r"
      using assms(1) Some by (auto simp: sr_receive_gap_def Let_def res_simps)
    have "p1 = p" by (rule gap_sequential_empty[OF run(1) empty])
    then have "p2 = p" using gap_listed_empty[OF run(2)] empty by simp
    then show ?thesis using run(3) sr_put_same[OF found] by simp
  qed (use assms(1) in \<open>simp add: sr_receive_gap_def\<close>)
qed

lemma sr_remove_aborts: "sr_matched_writer_remove p r = Inl AssertFailed"
  by (simp add: sr_matched_writer_remove_def asserting_def)

lemma sr_ok_put: "sr_ok r \<Longrightarrow> wp_changes p = [] \<Longrightarrow> sr_ok (sr_put g p r)"
  by (simp add: sr_ok_def sr_put_def proxies_empty_assign)

lemma sr_start_keeps: "sr_start_ack_timer now1 now2 r = Inr r' \<Longrightarrow> sr_ok r \<Longrightarrow> sr_ok r'"
  by (auto simp: sr_start_ack_timer_def res_simps sr_ok_def et_start_with_def dur_zero_def)

lemma sr_data_keeps:
  assumes "sr_receive_data source d r = Inr (b, r')" "sr_ok r" shows "sr_ok r'"
proof -
  let ?w = "guid_new source (d_writer d)"
  have cached: "sr_ok (r\<lparr> rr_cache := c \<rparr>)" for c using assms(2) by (simp add: sr_ok_def)
  show ?thesis
  proof (cases "sr_matched_writer_lookup ?w r")
    case (Some p)
    then have empty: "wp_changes p = []"
      using proxies_empty_find assms(2) by (auto simp: sr_ok_def sr_matched_writer_lookup_def)
    then show ?thesis using assms Some sr_ok_put[OF cached empty] sr_ok_put[OF assms(2) empty]
      by (auto simp: sr_receive_data_def Let_def res_simps empty_proxy split: reliability_kind.splits if_splits)
  qed (use assms in \<open>simp add: sr_receive_data_def\<close>)
qed

lemma sr_heartbeat_keeps:
  assumes "sr_receive_heartbeat now1 now2 source hb r = Inr (b, r')" "sr_ok r" shows "sr_ok r'"
proof -
  let ?w = "guid_new source (hb_writer hb)"
  show ?thesis
  proof (cases "sr_matched_writer_lookup ?w r")
    case (Some p)
    then have empty: "wp_changes p = []"
      using proxies_empty_find assms(2) by (auto simp: sr_ok_def sr_matched_writer_lookup_def)
    have put: "sr_ok (sr_put ?w p r)" by (rule sr_ok_put[OF assms(2) empty])
    then show ?thesis using assms Some sr_start_keeps[OF _ put]
      by (auto simp: sr_receive_heartbeat_def Let_def res_simps empty_proxy[OF empty]
          split: reliability_kind.splits if_splits)
  qed (use assms in \<open>auto simp: sr_receive_heartbeat_def split: reliability_kind.splits\<close>)
qed

lemma sr_step_ok: "sr_step r r' \<Longrightarrow> sr_ok r \<Longrightarrow> sr_ok r'"
proof (induction rule: sr_step.induct)
  case (sr_data source d r b r')
  then show ?case by (rule sr_data_keeps)
next
  case (sr_gap source g r b r')
  then show ?case using sr_gap_keeps by blast
next
  case (sr_heartbeat now1 now2 source hb r b r')
  then show ?case by (rule sr_heartbeat_keeps)
next
  case (sr_add g us ms r r')
  then show ?case
    using proxies_empty_insert by (auto simp: sr_matched_writer_add_def res_simps sr_ok_def wp_new_def)
next
  case (sr_remove g r b r')
  then show ?case by (auto simp: sr_matched_writer_remove_guid_def sr_remove_aborts split: option.splits)
qed (simp add: sr_ok_def rr_set_message_sender_def)

lemma sr_ok_new: "sr_ok (sr_new now g rel)"
  by (simp add: sr_ok_def sr_new_def rtps_reader.defs et_new_def dur_zero_def proxies_empty_def)

lemma sr_reach_ok: "sr_reach r r' \<Longrightarrow> sr_ok r \<Longrightarrow> sr_ok r'"
  unfolding sr_reach_def by (induction rule: rtranclp_induct) (auto intro: sr_step_ok)

section \<open>Properties\<close>

definition sample_reader :: "reliability_kind \<Rightarrow> stateful_reader" where
  "sample_reader rel = (sr_new 0 guid_unknown rel)
     \<lparr> sr_writers := [(guid_new gp_unknown ei_unknown, wp_new (guid_new gp_unknown ei_unknown))] \<rparr>"

lemma sample_reader_reached: "sr_reach (sr_new 0 guid_unknown rel) (sample_reader rel)"
proof -
  let ?g = "guid_new gp_unknown ei_unknown"
  have "sr_matched_writer_add ((wp_new ?g)\<lparr> wp_unicast := [], wp_multicast := [] \<rparr>) (sr_new 0 guid_unknown rel)
      = Inr (sample_reader rel)"
    by (simp add: sr_matched_writer_add_def sample_reader_def sr_new_def rtps_reader.defs wp_new_def om_member_def)
  then show ?thesis unfolding sr_reach_def by (blast intro: sr_add)
qed

lemma sample_reader_matched:
  "sr_matched_writer_lookup (guid_new gp_unknown ei_unknown) (sample_reader rel)
     = Some (wp_new (guid_new gp_unknown ei_unknown))"
  by (simp add: sr_matched_writer_lookup_def sample_reader_def guid_less_same_prefix)

lemma sample_reader_fields:
  "rr_reliability (sample_reader rel) = rel" "rr_cache (sample_reader rel) = []"
  "sr_ack_timer (sample_reader rel) = et_new 0 dur_infinite" "rr_response_delay (sample_reader rel) = 500000000"
  by (simp_all add: sample_reader_def sr_new_def rtps_reader.defs rr_new_def cache_new_def)

text \<open>C37: In every reachable reliable reader, a HEARTBEAT of a matched writer is accepted, leaves the cache
  and the proxies as they are and makes the acknowledgement timer run out within the response delay;
  the next round of \<open>WaitDispatch\<close> after that stops the program instead of sending the ACKNACK,
  whatever message sender the reader was given.\<close>

theorem heartbeat_stops_reader:
  assumes "sr_reach (sr_new now g rel) r" "rr_reliability r = Reliable"
    and "sr_matched_writer_lookup (guid_new source (hb_writer hb)) r = Some p"
    and "timer_ready n0 (sr_ack_timer r)" "n0 \<le> n1" "n1 \<le> n2" "n2 < int64_max"
    and "0 \<le> rr_response_delay r" "rr_response_delay r \<le> int64_max"
  shows "\<exists>r'. sr_receive_heartbeat n1 n2 source hb r = Inr (True, r')
    \<and> r' = r\<lparr> sr_ack_timer := sr_ack_timer r' \<rparr>
    \<and> (\<forall>t1 t2 callbacks dev milliseconds ds.
         n2 + rr_response_delay r \<le> t1 \<longrightarrow> t1 \<le> t2 \<longrightarrow> t2 < int64_max \<longrightarrow>
         (\<forall>ms. callbacks ms r' ds = (Inr r', ds)) \<longrightarrow>
         sr_wait_dispatch callbacks dev (t1, t2) milliseconds r' ds = (Inl AssertFailed, ds))"
proof -
  let ?w = "guid_new source (hb_writer hb)" and ?d = "rr_response_delay r"
  have ok: "sr_ok r" by (rule sr_reach_ok[OF assms(1) sr_ok_new])
  have found: "om_find guid_less ?w (sr_writers r) = Some p"
    using assms(3) by (simp add: sr_matched_writer_lookup_def)
  have empty: "wp_changes p = []" using proxies_empty_find[OF _ found] ok by (simp add: sr_ok_def)
  define t where "t = (if ?d < et_interval (sr_ack_timer r) - (n1 - et_start (sr_ack_timer r))
    then et_start_with n2 ?d (sr_ack_timer r) else sr_ack_timer r)"
  note sooner = timer_sooner[OF assms(4-9), folded t_def]
  let ?r = "r\<lparr> sr_ack_timer := t \<rparr>"
  have "\<not> hb_has_final_flag hb" by (simp add: hb_has_final_flag_def has_flag_never)
  then have run: "sr_receive_heartbeat n1 n2 source hb r = Inr (True, ?r)"
    using assms(2,3) sooner(1)
    by (simp add: sr_receive_heartbeat_def empty_proxy[OF empty] sr_put_same[OF found] sr_start_ack_timer_def
        t_def)
  have total: "et_total t = 0" using ok by (simp add: t_def sr_ok_def et_start_with_def dur_zero_def)
  have "sr_wait_dispatch callbacks dev (t1, t2) milliseconds ?r ds = (Inl AssertFailed, ds)"
    if late: "n2 + ?d \<le> t1" "t1 \<le> t2" "t2 < int64_max" and quiet: "\<forall>ms. callbacks ms ?r ds = (Inr ?r, ds)"
    for t1 t2 callbacks dev milliseconds ds
  proof -
    have "et_remaining t1 t = Inr (et_interval t - (t1 - et_start t))"
      using et_remaining_ok timer_ready_clock[OF sooner(2), of t1] late assms(8) by auto
    moreover have "et_has_expired t2 t = Inr True"
      using et_has_expired_ok timer_ready_clock[OF sooner(2), of t2] late assms(8) sooner(3) total by auto
    ultimately show ?thesis using assms(2) ok quiet
      by (simp add: sr_wait_dispatch_def io_bind_def io_of_def sr_send_ack_nack_def sr_ok_def)
  qed
  then show ?thesis using run by (intro exI[of _ ?r]) auto
qed

theorem heartbeat_stops_reader_witness:
  "\<exists>r'. sr_receive_heartbeat 1 2 gp_unknown hb_new (sample_reader Reliable) = Inr (True, r')
    \<and> sr_wait_dispatch (\<lambda>ms r ds. (Inr r, ds)) (\<lambda>bytes address port. 0) (500000002, 500000003) 1000 r' []
        = (Inl AssertFailed, [])"
proof -
  have "timer_ready 0 (sr_ack_timer (sample_reader Reliable))"
    by (simp add: sample_reader_fields timer_ready_def et_new_def dur_infinite_def dur_zero_def int64_max_def)
  moreover have "hb_writer hb_new = ei_unknown"
    by (simp add: hb_new_def hb_of_base_def submessage_base.defs)
  moreover note sample_reader_matched[of Reliable]
  ultimately obtain r' where r': "sr_receive_heartbeat 1 2 gp_unknown hb_new (sample_reader Reliable) = Inr (True, r')"
    "\<forall>t1 t2 callbacks dev milliseconds ds. 2 + 500000000 \<le> t1 \<longrightarrow> t1 \<le> t2 \<longrightarrow> t2 < int64_max \<longrightarrow>
       (\<forall>ms. callbacks ms r' ds = (Inr r', ds)) \<longrightarrow>
       sr_wait_dispatch callbacks dev (t1, t2) milliseconds r' ds = (Inl AssertFailed, ds)"
    using heartbeat_stops_reader[OF sample_reader_reached, of Reliable gp_unknown hb_new
        "wp_new (guid_new gp_unknown ei_unknown)" 0 1 2]
    by (auto simp: sample_reader_fields int64_max_def)
  then show ?thesis
    using r'(2)[rule_format, of 500000002 500000003 "\<lambda>ms r ds. (Inr r, ds)" "[]" "\<lambda>bytes address port. 0" 1000]
    by (auto simp: int64_max_def)
qed

text \<open>A best-effort reader stops the program on the first data submessage of a matched writer: an empty
  cache leads to a failed assertion on the greatest available change, which no operation ever makes
  known, and a cache with changes to a read behind its last element.\<close>

theorem best_effort_data_stops:
  assumes "sr_reach (sr_new now g rel) r" "rr_reliability r = BestEffort"
    and "sr_matched_writer_lookup (guid_new source (d_writer d)) r = Some p"
    and "d_sn d = sn_of_value v" "1 \<le> v" "v < 2305843009213693952"
  shows "sr_receive_data source d r =
    Inl (if rr_cache r = [] then AssertFailed else UndefinedBehaviour)"
proof -
  have ok: "sr_ok r" by (rule sr_reach_ok[OF assms(1) sr_ok_new])
  have found: "om_find guid_less (guid_new source (d_writer d)) (sr_writers r) = Some p"
    using assms(3) by (simp add: sr_matched_writer_lookup_def)
  have empty: "wp_changes p = []" using proxies_empty_find[OF _ found] ok by (simp add: sr_ok_def)
  show ?thesis
  proof (cases "rr_cache r")
    case Nil
    have "v div 4294967296 < 536870912" "0 \<le> v div 4294967296" using assms(5,6) by auto
    then have "sn_less sn_unknown (d_sn d)"
      using assms(4-6) by (simp add: sn_defs Let_def)
    then have "\<not> sn_ge sn_unknown (d_sn d)" by (simp add: sn_ge_def)
    then show ?thesis using Nil assms(2,3)
      by (simp add: sr_receive_data_def sequence_number_max_def Let_def add_change_def om_member_def
          empty_proxy[OF empty])
  next
    case (Cons e m)
    then show ?thesis using assms(2,3) by (simp add: sr_receive_data_def sequence_number_max_def)
  qed
qed

theorem best_effort_data_stops_witness:
  "sr_receive_data gp_unknown ((d_new 0)\<lparr> d_sn := sn_of_value 1 \<rparr>) (sample_reader BestEffort) = Inl AssertFailed"
proof -
  have "d_writer ((d_new 0)\<lparr> d_sn := sn_of_value 1 \<rparr>) = ei_unknown"
    by (simp add: d_new_def d_of_base_def submessage_base.defs)
  then show ?thesis
    using best_effort_data_stops[OF sample_reader_reached, of BestEffort gp_unknown
        "(d_new 0)\<lparr> d_sn := sn_of_value 1 \<rparr>" "wp_new (guid_new gp_unknown ei_unknown)" 1]
      sample_reader_matched[of BestEffort]
    by (simp add: sample_reader_fields)
qed

text \<open>A reliable reader caches the data of a matched writer when its number is new and stops the program
  when it is not; the data of an unmatched writer are refused. A GAP whose numbers lie in one window is
  worked through and changes nothing, and a writer once matched cannot be removed.\<close>

theorem reliable_reader_receives:
  assumes "sr_reach (sr_new now g rel) r" "rr_reliability r = Reliable"
    and "cache_ok 0 (rr_cache r)" "d_sn d \<in> sn_window 0" "w = guid_new source (d_writer d)"
    and "gap_writer gp = d_writer d" "gap_start gp \<in> sn_window 0" "sns_base (gap_list gp) \<in> sn_window 0"
    and "sns_ok (gap_list gp)"
  shows "(case sr_matched_writer_lookup w r of
      None \<Rightarrow> sr_receive_data source d r = Inr (False, r) \<and> sr_receive_gap source gp r = Some (Inr (False, r))
        \<and> sr_matched_writer_remove_guid w r = Inr (False, r)
    | Some p \<Rightarrow>
        (if map_of (rr_cache r) (d_sn d) = None
         then \<exists>cache. sr_receive_data source d r = Inr (True, r\<lparr> rr_cache := cache \<rparr>) \<and> cache_ok 0 cache
           \<and> map_of cache = (map_of (rr_cache r))(d_sn d \<mapsto> received_change w d)
         else sr_receive_data source d r = Inl AssertFailed)
        \<and> sr_receive_gap source gp r = Some (Inr (True, r))
        \<and> sr_matched_writer_remove_guid w r = Inl AssertFailed)"
proof (cases "sr_matched_writer_lookup w r")
  case None
  then show ?thesis using assms(2,5,6)
    by (simp add: sr_receive_data_def sr_receive_gap_def sr_matched_writer_remove_guid_def)
next
  case (Some p)
  have ok: "sr_ok r" by (rule sr_reach_ok[OF assms(1) sr_ok_new])
  have found: "om_find guid_less w (sr_writers r) = Some p"
    using Some by (simp add: sr_matched_writer_lookup_def)
  then have empty: "wp_changes p = []" using proxies_empty_find ok by (auto simp: sr_ok_def)
  have put: "sr_put w p (r\<lparr> rr_cache := c \<rparr>) = r\<lparr> rr_cache := c \<rparr>" for c
    by (rule sr_put_same) (simp add: found)
  have data: "sr_receive_data source d r =
      rbind (add_change (received_change w d) (rr_cache r)) (\<lambda>cache. Inr (True, r\<lparr> rr_cache := cache \<rparr>))"
    using Some assms(2,5) by (simp add: sr_receive_data_def Let_def empty_proxy[OF empty] put[unfolded assms(5)])
  obtain q where q: "gap_sequential (gap_start gp) (sns_base (gap_list gp)) p = Some q"
    using gap_sequential_ends[OF assms(7,8)] by blast
  have "q = p" by (rule gap_sequential_empty[OF q empty])
  have bits: "\<exists>s'. rfold (gap_bit (gap_list gp)) xs (s, p) = Inr (s', p)"
    if "\<forall>x \<in> set xs. 0 \<le> x" for xs s
    using that test_bit_at_position_ok[OF assms(9)]
    by (induction xs arbitrary: s) (auto simp: gap_bit_def Let_def empty_proxy[OF empty] split: if_splits)
  have "gap_listed (gap_list gp) p = Inr p"
    using bits[of "[0 .. sns_num_bits (gap_list gp) - 1]" "sns_base (gap_list gp)"]
    by (auto simp: gap_listed_def empty_proxy[OF empty])
  then have gap: "sr_receive_gap source gp r = Some (Inr (True, r))"
    using Some q \<open>q = p\<close> put[of "rr_cache r"] assms(5,6) by (simp add: sr_receive_gap_def)
  have remove: "sr_matched_writer_remove_guid w r = Inl AssertFailed"
    using Some by (simp add: sr_matched_writer_remove_guid_def sr_remove_aborts)
  have "\<exists>cache. sr_receive_data source d r = Inr (True, r\<lparr> rr_cache := cache \<rparr>) \<and> cache_ok 0 cache
      \<and> map_of cache = (map_of (rr_cache r))(d_sn d \<mapsto> received_change w d)"
    if "map_of (rr_cache r) (d_sn d) = None"
    using add_received(1)[OF assms(3,4) that, of w] by (auto simp: data)
  moreover have "sr_receive_data source d r = Inl AssertFailed"
    if "map_of (rr_cache r) (d_sn d) \<noteq> None"
    using add_received(2)[OF assms(3,4) that, of w] by (simp add: data)
  ultimately show ?thesis using Some gap remove by simp
qed

theorem reliable_reader_receives_witness:
  "\<exists>cache. sr_receive_data gp_unknown ((d_new 0)\<lparr> d_sn := sn_of_value 3 \<rparr>) (sample_reader Reliable)
     = Inr (True, (sample_reader Reliable)\<lparr> rr_cache := cache \<rparr>)"
proof -
  let ?d = "(d_new 0)\<lparr> d_sn := sn_of_value 3 \<rparr>" and ?r = "sample_reader Reliable"
    and ?g = "guid_new gp_unknown ei_unknown"
  have w: "d_writer ?d = ei_unknown" "gap_writer gap_new = ei_unknown" "gap_start gap_new = sn_of_value 1"
    "gap_list gap_new = sns_new"
    by (simp_all add: d_new_def d_of_base_def gap_new_def gap_of_base_def submessage_base.defs)
  have s: "sn_of_value 3 \<in> sn_window 0" "sn_of_value 1 \<in> sn_window 0"
    by (simp_all add: sn_window_def sn_of_value_valid in_int64_def) (simp_all add: sn_of_value_def mk_sn_def)
  have "cache_ok 0 (rr_cache ?r)" "d_sn ?d \<in> sn_window 0" "?g = guid_new gp_unknown (d_writer ?d)"
    "gap_writer gap_new = d_writer ?d" "gap_start gap_new \<in> sn_window 0"
    "sns_base (gap_list gap_new) \<in> sn_window 0" "sns_ok (gap_list gap_new)"
    using s cache_ok_new[of 0] by (simp_all add: w sample_reader_fields cache_new_def sns_ok_new) (simp add: sns_new_def)
  from reliable_reader_receives[OF sample_reader_reached sample_reader_fields(1) this]
  show ?thesis unfolding sample_reader_matched by (auto simp: sample_reader_fields)
qed

end
