(* ===== verification/Exchange.thy ===== *)
theory Exchange
  imports Message_Receiver Message_Sender
begin

text \<open>
  The two ends of the wire together: what the parser of \<open>RtpsMessageReceiver\<close> makes of the
  datagrams \<open>RtpsMessageSender\<close> hands to the socket. The sizes the sender announces are smaller than
  what it writes; the parser reads on from where the last submessage ended, so every submessage
  arrives, and the parse ends with an exception when the reader runs out of octets.
\<close>

section \<open>Submessages on the wire\<close>

definition plain_data :: "rtps_data \<Rightarrow> bool" where
  "plain_data d \<longleftrightarrow> d_ok (submessage_base.truncate d) d \<and> d_inline_qos d = []
     \<and> sp_out (d_payload d) = None \<and> sp_length (d_payload d) = 0"

fun wire_ok :: "outgoing \<Rightarrow> bool" where
  "wire_ok (OutAckNack m) = (an_ok (submessage_base.truncate m) m \<and> sh_kind (sb_header m) = AckNack)"
| "wire_ok (OutGap m) = (gap_ok (submessage_base.truncate m) m \<and> sh_kind (sb_header m) = Gap)"
| "wire_ok (OutHeartbeat m) = (hb_ok (submessage_base.truncate m) m \<and> sh_kind (sb_header m) = Heartbeat)"
| "wire_ok (OutData d) = (plain_data d \<and> sh_kind (sb_header d) = Data)"
| "wire_ok (OutInfoReply m) = False"

fun out_header :: "outgoing \<Rightarrow> submessage_header" where
  "out_header (OutAckNack m) = sized_header an_SIZE (sb_header m)"
| "out_header (OutGap m) = sized_header gap_SIZE (sb_header m)"
| "out_header (OutHeartbeat m) = sized_header hb_SIZE (sb_header m)"
| "out_header (OutData d) = sized_header (d_size d) (sb_header d)"
| "out_header (OutInfoReply m) = sb_header m"

fun out_body :: "outgoing \<Rightarrow> u8 list" where
  "out_body (OutAckNack m) = an_enc m"
| "out_body (OutGap m) = gap_enc m"
| "out_body (OutHeartbeat m) = hb_enc m"
| "out_body (OutData d) = d_head_enc d"
| "out_body (OutInfoReply m) = []"

definition wire_bytes :: "outgoing \<Rightarrow> u8 list" where
  "wire_bytes m = sh_enc (out_header m) @ out_body m"

text \<open>The submessage as the receiver lists it: the size in the header, the sender's prefix, no timestamp.\<close>

definition arrived :: "guid_prefix \<Rightarrow> submessage_header \<Rightarrow> 'a submessage_base_scheme \<Rightarrow> 'a submessage_base_scheme" where
  "arrived g h m = m\<lparr> sb_header := h, sb_timestamp := ts_invalid, sb_source_prefix := g \<rparr>"

fun received :: "guid_prefix \<Rightarrow> outgoing \<Rightarrow> submessage list" where
  "received g (OutAckNack m) = [SubAckNack (arrived g (out_header (OutAckNack m)) m)]"
| "received g (OutGap m) = [SubGap (arrived g (out_header (OutGap m)) m)]"
| "received g (OutHeartbeat m) = [SubHeartbeat (arrived g (out_header (OutHeartbeat m)) m)]"
| "received g (OutData d) =
     [SubData ((arrived g (out_header (OutData d)) d)\<lparr> d_inline_qos := [], d_payload := sp_default 0 \<rparr>)]"
| "received g (OutInfoReply m) = []"

lemma emits_plain_data:
  assumes "plain_data d" shows "emits (write_d d) (d_head_enc d)"
proof -
  have ids: "emits (write_ei (d_reader d)) (ei_enc (d_reader d))"
    "emits (write_ei (d_writer d)) (ei_enc (d_writer d))" "emits (write_sn (d_sn d)) (sn_enc (d_sn d))"
    using assms ei_codec.wr_emits sn_codec.wr_emits by (auto simp: plain_data_def d_ok_def)
  have rest: "emits (wseq (if d_inline_qos d \<noteq> [] then write_par_list (d_inline_qos d) else wskip)
      (write_sp (d_payload d))) ([] @ [])"
    using assms emits_wskip unfolding plain_data_def write_sp_def by (intro emits_wseq) auto
  have "32 * 3 = (96::int)" by simp
  then show ?thesis
    using emits_wseq[OF emits_put_ints(2) emits_wseq[OF emits_put_ints(2) emits_wseq[OF ids(1)
        emits_wseq[OF ids(2) emits_wseq[OF ids(3) rest]]]], of "d_extra_flags d" "32 * 3"]
    unfolding write_d_def d_head_enc_def by simp
qed

lemma out_emits_plain_data:
  assumes "plain_data m"
  shows "out_emits (OutData m) (sh_enc (sized_header (d_size m) (sb_header m)) @ d_head_enc m)"
  unfolding out_emits_def out_write.simps
proof (intro allI impI written_of_emits)
  fix b assume b: "ba_ok b"
  have "plain_data (m\<lparr> sb_header := h \<rparr>)" "d_head_enc (m\<lparr> sb_header := h \<rparr>) = d_head_enc m" for h
    using assms by (auto simp: plain_data_def d_ok_def d_head_enc_def)
  then have "emits (write_d (m\<lparr> sb_header := h \<rparr>)) (d_head_enc m)" for h
    using emits_plain_data by metis
  then show "\<exists>b' m'. write_with_header (\<lambda>m. Inr (d_size m)) write_d m b = Inr (True, m', b') \<and> ba_ok b' \<and>
      ba_written b' = ba_written b @ map Some (sh_enc (sized_header (d_size m) (sb_header m)) @ d_head_enc m)"
    using write_with_header_emits[OF _ _ b, of "\<lambda>m. Inr (d_size m)" m "d_size m" write_d "d_head_enc m"] by blast
qed

lemma wire_emits:
  assumes "wire_ok m" shows "out_emits m (wire_bytes m)"
  using assms out_emits_ack_nack out_emits_gap out_emits_heartbeat out_emits_plain_data
  by (cases m) (auto simp: wire_bytes_def)

text \<open>The announced size: a multiple of four, and less than what the body takes.\<close>

lemma d_size_plain: "plain_data d \<Longrightarrow> d_size d = 24"
  by (simp add: plain_data_def d_size_def par_list_size_def sn_SIZE_def par_size_def uint16_def
      par_sentinel_def par_default_def)

lemma wire_size:
  assumes "wire_ok m"
  shows "out_size m mod 4 = 0" "0 < out_size m" "out_size m < int (length (out_body m))"
    "out_size m < 65536" "sh_length (out_header m) = out_size m"
  using assms d_size_plain
  by (cases m; auto simp: an_ok_def gap_ok_def hb_ok_def an_enc_def gap_enc_def hb_enc_def an_SIZE_def
      gap_SIZE_def hb_SIZE_def sn_SIZE_def ei_enc_def ei_ok_def sns_enc_def sn_enc_length d_head_enc_def
      plain_data_def d_ok_def sized_header_def uint16_def)+

lemma wire_bytes_length: "int (length (wire_bytes m)) = 4 + int (length (out_body m))"
  using sh_enc_length[of "out_header m"] by (simp add: wire_bytes_def sh_SIZE_def)

lemma emits_all_wire: "\<forall>m \<in> set ss. wire_ok m \<Longrightarrow> emits_all ss (map wire_bytes ss)"
  using wire_emits wire_size(3) wire_bytes_length
  by (fastforce simp: emits_all_def list_all2_map2 list_all2_same)

section \<open>Parsing what was written\<close>

lemma length_ib_unread: "ib_ok r \<Longrightarrow> int (length (ib_unread r)) = ib_size r - ib_position r"
  by (simp add: ib_ok_def ib_unread_def ib_size_def of_nat_diff nat_le_iff)

lemma wire_header_ok: "wire_ok m \<Longrightarrow> sh_ok (out_header m)"
  using wire_size(2,4,5)[of m] by (cases m) (auto simp: sh_ok_def sized_header_def named_kinds_def)

lemma stamp_arrived:
  "rc_timestamp rc = ts_invalid \<Longrightarrow> sb_header m = h \<Longrightarrow> sb_timestamp m = ts_invalid \<Longrightarrow>
   stamp rc m = m\<lparr> sb_header := h, sb_timestamp := ts_invalid, sb_source_prefix := rc_source_prefix rc \<rparr>"
  by (cases m) (auto simp: stamp_def)

text \<open>Reading the body of a submessage, for the class of each kind.\<close>

lemma consumes_entity:
  assumes "wire_ok m" "rc_timestamp rc = ts_invalid"
  shows "consumes (get_entity_submessage rc (out_header m)) (out_body m)
    (Some (hd (received (rc_source_prefix rc) m)))" "received (rc_source_prefix rc) m \<noteq> []"
proof -
  have entity: "consumes (get_entity_submessage rc (out_header m)) (out_body m) (Some x)"
    if "get_entity_submessage rc (out_header m) = rthen rd (\<lambda>m'. rret (Some (C (stamp rc m'))))"
      and "consumes rd (out_body m) m'" and "x = C (stamp rc m')" for rd C m' x
    unfolding that(1,3) by (rule consumes_rthen_ret[OF that(2)]) simp
  define h where "h = out_header m"
  show "consumes (get_entity_submessage rc (out_header m)) (out_body m)
      (Some (hd (received (rc_source_prefix rc) m)))"
  proof (cases m)
    case (OutAckNack a)
    let ?a = "a\<lparr> sb_header := h, sb_timestamp := ts_invalid, sb_source_prefix := gp_unknown \<rparr>"
    have k: "sh_kind h = AckNack" using assms(1) OutAckNack by (simp add: h_def sized_header_def)
    have "an_ok (sb_of_header h) ?a" "an_enc ?a = an_enc a"
      using assms(1) OutAckNack by (simp_all add: an_ok_def an_enc_def sb_of_header_def submessage_base.truncate_def)
    then have "consumes (read_an (an_of_base (sb_of_header h))) (out_body m) ?a"
      using an_codec.rd_consumes OutAckNack by fastforce
    moreover have "get_entity_submessage rc h =
        rthen (read_an (an_of_base (sb_of_header h))) (\<lambda>m'. rret (Some (SubAckNack (stamp rc m'))))"
      by (rule ext) (simp add: get_entity_submessage_def an_of_header_def k)
    ultimately have "consumes (get_entity_submessage rc h) (out_body m) (Some (SubAckNack (stamp rc ?a)))"
      using entity[of _ SubAckNack] unfolding h_def by blast
    then show ?thesis by (simp add: stamp_arrived[OF assms(2)] OutAckNack arrived_def h_def)
  next
    case (OutGap a)
    let ?a = "a\<lparr> sb_header := h, sb_timestamp := ts_invalid, sb_source_prefix := gp_unknown \<rparr>"
    have k: "sh_kind h = Gap" using assms(1) OutGap by (simp add: h_def sized_header_def)
    have "gap_ok (sb_of_header h) ?a" "gap_enc ?a = gap_enc a"
      using assms(1) OutGap by (simp_all add: gap_ok_def gap_enc_def sb_of_header_def submessage_base.truncate_def)
    then have "consumes (read_gap (gap_of_base (sb_of_header h))) (out_body m) ?a"
      using gap_codec.rd_consumes OutGap by fastforce
    moreover have "get_entity_submessage rc h =
        rthen (read_gap (gap_of_base (sb_of_header h))) (\<lambda>m'. rret (Some (SubGap (stamp rc m'))))"
      by (rule ext) (simp add: get_entity_submessage_def gap_of_header_def k)
    ultimately have "consumes (get_entity_submessage rc h) (out_body m) (Some (SubGap (stamp rc ?a)))"
      using entity[of _ SubGap] unfolding h_def by blast
    then show ?thesis by (simp add: stamp_arrived[OF assms(2)] OutGap arrived_def h_def)
  next
    case (OutHeartbeat a)
    let ?a = "a\<lparr> sb_header := h, sb_timestamp := ts_invalid, sb_source_prefix := gp_unknown \<rparr>"
    have k: "sh_kind h = Heartbeat" using assms(1) OutHeartbeat by (simp add: h_def sized_header_def)
    have "hb_ok (sb_of_header h) ?a" "hb_enc ?a = hb_enc a"
      using assms(1) OutHeartbeat by (simp_all add: hb_ok_def hb_enc_def sb_of_header_def submessage_base.truncate_def)
    then have "consumes (read_hb (hb_of_base (sb_of_header h))) (out_body m) ?a"
      using hb_codec.rd_consumes OutHeartbeat by fastforce
    moreover have "get_entity_submessage rc h =
        rthen (read_hb (hb_of_base (sb_of_header h))) (\<lambda>m'. rret (Some (SubHeartbeat (stamp rc m'))))"
      by (rule ext) (simp add: get_entity_submessage_def hb_of_header_def k)
    ultimately have "consumes (get_entity_submessage rc h) (out_body m) (Some (SubHeartbeat (stamp rc ?a)))"
      using entity[of _ SubHeartbeat] unfolding h_def by blast
    then show ?thesis by (simp add: stamp_arrived[OF assms(2)] OutHeartbeat arrived_def h_def)
  next
    case (OutData a)
    let ?a = "a\<lparr> sb_header := h, sb_timestamp := ts_invalid, sb_source_prefix := gp_unknown \<rparr>"
    let ?b = "?a\<lparr> d_inline_qos := [], d_payload := sp_default 0 \<rparr>"
    have k: "sh_kind h = Data" using assms(1) OutData by (simp add: h_def sized_header_def)
    have "d_ok (sb_of_header h) ?a" "d_head_enc ?a = d_head_enc a"
      using assms(1) OutData
      by (auto simp: plain_data_def d_ok_def d_head_enc_def sb_of_header_def submessage_base.truncate_def)
    then have "consumes (read_d (d_of_base 0 (sb_of_header h))) (out_body m)
        ?b"
      using consumes_read_d[of "sb_of_header h" ?a 0] OutData by simp
    moreover have "get_entity_submessage rc h =
        rthen (read_d (d_of_base 0 (sb_of_header h))) (\<lambda>m'. rret (Some (SubData (stamp rc m'))))"
      by (rule ext) (simp add: get_entity_submessage_def d_of_header_def k)
    ultimately have "consumes (get_entity_submessage rc h) (out_body m) (Some (SubData (stamp rc ?b)))"
      using entity[of _ SubData] unfolding h_def by blast
    then show ?thesis by (cases a) (simp add: stamp_arrived[OF assms(2)] OutData arrived_def h_def)
  qed (use assms(1) in simp)
  show "received (rc_source_prefix rc) m \<noteq> []" using assms(1) by (cases m) auto
qed

lemma wire_kind:
  "wire_ok m \<Longrightarrow> sh_kind (out_header m) \<in> {AckNack, Data, DataFrag, Gap, Heartbeat, HeartbeatFrag, NackFrag}"
  by (cases m) (auto simp: sized_header_def)

text \<open>One round of the parser over one submessage.\<close>

lemma parse_one:
  assumes "wire_ok m" "rc_timestamp rc = ts_invalid" "ib_ok r" "ib_unread r = wire_bytes m @ rest"
  shows "\<exists>r1 r2. get_submessage_header rc r = Inr ((out_header m, ib_position r + 4 + out_size m), r1)
    \<and> get_submessage (rc\<lparr> rc_next := n \<rparr>) (out_header m) r1 =
        Inr ((rc\<lparr> rc_next := n \<rparr>, Some (hd (received (rc_source_prefix rc) m))), r2)
    \<and> ib_ok r2 \<and> ib_unread r2 = rest \<and> ib_size r2 = ib_size r
    \<and> ib_position r2 = ib_position r + 4 + int (length (out_body m))
    \<and> ib_position r + 4 + out_size m < ib_position r2"
proof -
  let ?rc = "rc\<lparr> rc_next := n \<rparr>"
  note size = wire_size[OF assms(1)]
  obtain r1 where r1: "read_sh r = Inr (out_header m, r1)" "ib_ok r1" "ib_unread r1 = out_body m @ rest"
    using consumesE[OF sh_codec.rd_consumes[OF wire_header_ok[OF assms(1)]] assms(3)] assms(4)
    by (metis append.assoc wire_bytes_def)
  have "advances read_sh" unfolding read_sh_def by (intro advances_intros)
  from advancesD[OF this r1(1)] have s1: "ib_size r1 = ib_size r" by (simp add: ib_size_def)
  have len: "ib_size r - ib_position r = 4 + int (length (out_body m)) + int (length rest)"
    using length_ib_unread[OF assms(3)] assms(4) wire_bytes_length[of m] by simp
  have header: "get_submessage_header rc r = Inr ((out_header m, ib_position r + 4 + out_size m), r1)"
    using r1(1) size len s1 by (simp add: get_submessage_header_def rthen_def Let_def sh_SIZE_def)
  obtain r2 where r2: "get_entity_submessage ?rc (out_header m) r1 =
      Inr (Some (hd (received (rc_source_prefix rc) m)), r2)" "ib_ok r2" "ib_unread r2 = rest"
    using consumesE[OF consumes_entity(1)[of m ?rc] r1(2,3)] assms(1,2) by auto
  have sub: "get_submessage ?rc (out_header m) r1 =
      Inr ((?rc, Some (hd (received (rc_source_prefix rc) m))), r2)"
    using r2(1) wire_kind[OF assms(1)] by (simp add: get_submessage_def rthen_def rret_def)
  have s2: "ib_size r2 = ib_size r1"
    using advancesD[OF advances_get_submessage sub] by (simp add: ib_size_def)
  have "ib_position r2 = ib_position r + 4 + int (length (out_body m))"
    using length_ib_unread[OF r2(2)] r2(3) s1 s2 len by simp
  then show ?thesis using header sub r2(2,3) s1 s2 size(3) by auto
qed

text \<open>What may follow the last submessage: nothing, or octets no header can be read from.\<close>

definition stops :: "bool \<Rightarrow> u8 list \<Rightarrow> bool" where
  "stops verify tail \<longleftrightarrow> (\<forall>rc r. rc_verify rc = verify \<longrightarrow> ib_ok r \<longrightarrow> ib_unread r = tail \<longrightarrow>
     get_submessage_header rc r = Inl ExceptionThrown)"

lemma stops_Nil: "stops verify []"
  unfolding stops_def
proof (intro allI impI)
  fix rc :: receiver and r assume r: "ib_ok r" "ib_unread r = []"
  then have "ib_size r - ib_position r = 0" using length_ib_unread[OF r(1)] by simp
  then have "get_int8 r = Inl ExceptionThrown"
    by (simp add: get_int8_def ib_read_int8_def read_data_def)
  then show "get_submessage_header rc r = Inl ExceptionThrown"
    by (simp add: get_submessage_header_def read_sh_def rthen_def Let_def)
qed

lemma stops_pad: "stops True (pad_bytes n len)"
proof (cases "4 < n - (len + sh_SIZE)")
  case True
  let ?h = "sh_new Pad (uint16 (n - (len + sh_SIZE))) 0x00"
  have ok: "sh_ok ?h" by (simp add: sh_ok_def sh_new_def named_kinds_def uint16_def)
  have pad: "pad_bytes n len = sh_enc ?h" using True by (simp add: pad_bytes_def)
  show ?thesis
    unfolding stops_def pad
  proof (intro allI impI)
    fix rc :: receiver and r assume r: "rc_verify rc = True" "ib_ok r" "ib_unread r = sh_enc ?h"
    obtain r1 where r1: "read_sh r = Inr (?h, r1)"
      using consumesE[OF sh_codec.rd_consumes[OF ok] r(2), of "[]"] r(3) by auto
    have "advances read_sh" unfolding read_sh_def by (intro advances_intros)
    from advancesD[OF this r1] have "ib_size r1 = ib_size r" by (simp add: ib_size_def)
    moreover have "ib_size r = ib_position r + 4"
      using length_ib_unread[OF r(2)] r(3) sh_enc_length[of ?h] by (simp add: sh_SIZE_def)
    ultimately show "get_submessage_header rc r = Inl ExceptionThrown"
      using r(1) r1 by (simp add: get_submessage_header_def rthen_def Let_def sh_SIZE_def)
  qed
next
  case False
  then have "pad_bytes n len = []" by (simp add: pad_bytes_def)
  then show ?thesis using stops_Nil by simp
qed

lemma parse_written:
  assumes "\<forall>m \<in> set ss. wire_ok m" "rc_timestamp rc = ts_invalid" "ib_ok r"
    and "ib_unread r = concat (map wire_bytes ss) @ tail" "stops (rc_verify rc) tail"
    and "rc_next rc < ib_size r" "ss \<noteq> [] \<longrightarrow> rc_next rc \<noteq> ib_position r + 4 + out_size (hd ss)"
    and "length ss < fuel"
  shows "\<exists>n. parse_loop fuel (rc_next rc) rc r = Some (rc\<lparr> rc_next := n,
      rc_list := rc_list rc @ concat (map (received (rc_source_prefix rc)) ss) \<rparr>, ParseFault ExceptionThrown)"
  using assms
proof (induction ss arbitrary: rc r fuel)
  case Nil
  then obtain f where f: "fuel = Suc f" by (cases fuel) auto
  have "get_submessage_header rc r = Inl ExceptionThrown" using Nil.prems by (simp add: stops_def)
  then show ?case using Nil.prems(6) by (intro exI[of _ "rc_next rc"]) (simp add: f)
next
  case (Cons m ss)
  obtain f where f: "fuel = Suc f" "length ss < f" using Cons.prems(8) by (cases fuel) auto
  have m: "wire_ok m" "\<forall>m \<in> set ss. wire_ok m" using Cons.prems(1) by auto
  let ?n = "ib_position r + 4 + out_size m"
  have unread: "ib_unread r = wire_bytes m @ (concat (map wire_bytes ss) @ tail)"
    using Cons.prems(4) by simp
  obtain r1 r2 where r: "get_submessage_header rc r = Inr ((out_header m, ?n), r1)"
    "get_submessage (rc\<lparr> rc_next := ?n \<rparr>) (out_header m) r1 =
        Inr ((rc\<lparr> rc_next := ?n \<rparr>, Some (hd (received (rc_source_prefix rc) m))), r2)"
    "ib_ok r2" "ib_unread r2 = concat (map wire_bytes ss) @ tail" "ib_size r2 = ib_size r" "?n < ib_position r2"
    using parse_one[OF m(1) Cons.prems(2,3) unread, of ?n] by auto
  let ?x = "hd (received (rc_source_prefix rc) m)"
  let ?rc = "rc\<lparr> rc_next := ?n, rc_list := rc_list rc @ [?x] \<rparr>"
  have one: "received (rc_source_prefix rc) m = [?x]" using m(1) by (cases m) auto
  have step: "parse_loop fuel (rc_next rc) rc r = parse_loop f (rc_next ?rc) ?rc r2"
    using r(1,2) Cons.prems(6,7) by (simp add: f Let_def)
  have "rc_next ?rc < ib_size r2" using r(3,6) by (simp add: ib_ok_def)
  moreover have "ss \<noteq> [] \<longrightarrow> rc_next ?rc \<noteq> ib_position r2 + 4 + out_size (hd ss)"
    using r(6) wire_size(2) m(2) by (cases ss) fastforce+
  moreover have "rc_timestamp ?rc = ts_invalid" "stops (rc_verify ?rc) tail" using Cons.prems by simp_all
  ultimately obtain n where "parse_loop f (rc_next ?rc) ?rc r2 = Some (?rc\<lparr> rc_next := n,
      rc_list := rc_list ?rc @ concat (map (received (rc_source_prefix ?rc)) ss) \<rparr>, ParseFault ExceptionThrown)"
    using Cons.IH[OF m(2) _ r(3,4)] f(2) by blast
  then show ?case unfolding step using one by auto
qed

section \<open>A datagram and its parse\<close>

lemma read_prefix:
  assumes "gp_ok g" "ib_ok r" "ib_unread r = mh_enc (mh_default\<lparr> mh_prefix := g \<rparr>) @ rest"
  shows "\<exists>r1. get_message_header r = Inr (mh_default\<lparr> mh_prefix := g \<rparr>, r1) \<and> ib_ok r1 \<and> ib_unread r1 = rest
    \<and> ib_size r1 = ib_size r \<and> ib_position r1 = ib_position r + 18"
proof -
  have ok: "mh_ok (mh_default\<lparr> mh_prefix := g \<rparr>)" using mh_ok_default assms(1) by (simp add: mh_ok_def)
  obtain r1 where r1: "read_mh mh_default r = Inr (mh_default\<lparr> mh_prefix := g \<rparr>, r1)" "ib_ok r1" "ib_unread r1 = rest"
    using consumesE[OF mh_codec.rd_consumes[OF ok] assms(2,3)] .
  have "advances (read_mh mh_default)" unfolding read_mh_def by (intro advances_intros)
  from advancesD[OF this r1(1)] have "ib_size r1 = ib_size r" by (simp add: ib_size_def)
  then show ?thesis using r1 length_ib_unread[OF r1(2)] length_ib_unread[OF assms(2)] assms(3) mh_enc_length[OF ok]
    by (auto simp: get_message_header_def mh_SIZE_def)
qed

text \<open>The octets of the one datagram that carries a message.\<close>

definition datagram_of :: "message_sender \<Rightarrow> outgoing list \<Rightarrow> u8 list" where
  "datagram_of ms ss =
     (let bs = message_bytes (ms_prefix ms) (map wire_bytes ss)
      in bs @ pad_bytes (ms_datagram_size ms) (int (length bs)))"

definition fits :: "message_sender \<Rightarrow> outgoing list \<Rightarrow> bool" where
  "fits ms ss \<longleftrightarrow> gp_ok (ms_prefix ms) \<and> (\<forall>m \<in> set ss. wire_ok m) \<and> ms_datagram_size ms < 2147483648
     \<and> int (length (message_bytes (ms_prefix ms) (map wire_bytes ss))) < ms_datagram_size ms"

lemma write_wire:
  assumes "fits ms ss" "ss \<noteq> []" "\<And>cs a q. dev cs a q = int (length cs)"
  shows "write_message ms dev ss l ds =
    (Inr RcOk, ds @ [(map Some (datagram_of ms ss), loc_address l, loc_port l)])"
  using write_message_single[OF emits_all_wire assms(2), of ms dev l ds] assms
  by (simp add: fits_def datagram_of_def Let_def)

lemma wire_octets: "\<forall>m \<in> set ss. wire_ok m \<Longrightarrow> length ss \<le> length (concat (map wire_bytes ss))"
proof (induction ss)
  case (Cons m ss)
  then have "1 \<le> length (wire_bytes m)" using wire_bytes_length[of m] by simp
  then show ?case using Cons by simp
qed simp

lemma parse_wire:
  assumes "fits ms ss" "rc_verify rc" "rc_next rc = 0"
  shows "\<exists>r1 n h. read_de (ib_new (datagram_of ms ss)) = Inr (de_new 0, r1)
    \<and> parse_datagram dest rc r1 = Some (Inr (False, (initialize_receiver h (reset_state dest rc))
        \<lparr> rc_next := n, rc_list := concat (map (received (ms_prefix ms)) ss) \<rparr>))
    \<and> mh_prefix h = ms_prefix ms"
proof -
  let ?g = "ms_prefix ms" and ?D = "datagram_of ms ss"
  let ?h = "mh_default\<lparr> mh_prefix := ?g \<rparr>"
  define tail where "tail = pad_bytes (ms_datagram_size ms)
    (int (length (message_bytes ?g (map wire_bytes ss))))"
  have D: "?D = 0 # mh_enc ?h @ concat (map wire_bytes ss) @ tail"
    by (simp add: datagram_of_def Let_def message_bytes_def datagram_prefix_def tail_def)
  have ok: "ib_ok (ib_new ?D)" "ib_unread (ib_new ?D) = [de_endian (de_new 0)] @ (mh_enc ?h @ concat (map wire_bytes ss) @ tail)"
    by (simp_all add: ib_ok_def ib_new_def ib_size_def ib_unread_def D de_new_def)
  obtain r0 where r0: "read_de (ib_new ?D) = Inr (de_new 0, r0)" "ib_ok r0"
    "ib_unread r0 = mh_enc ?h @ concat (map wire_bytes ss) @ tail"
    using consumesE[OF de_codec.rd_consumes ok] by auto
  have "advances read_de" unfolding read_de_def by (intro advances_intros)
  from advancesD[OF this r0(1)] have s0: "ib_size r0 = ib_size (ib_new ?D)" by (simp add: ib_size_def)
  have g: "gp_ok ?g" using assms(1) by (simp add: fits_def)
  obtain r1 where r1: "get_message_header r0 = Inr (?h, r1)" "ib_ok r1"
    "ib_unread r1 = concat (map wire_bytes ss) @ tail" "ib_size r1 = ib_size r0" "ib_position r1 = ib_position r0 + 18"
    using read_prefix[OF g r0(2,3)] by blast
  have size: "0 < ib_size r0" using s0 by (simp add: ib_size_def ib_new_def D)
  let ?rc = "initialize_receiver ?h (reset_state dest rc)"
  have fields: "rc_next ?rc = 0" "rc_verify ?rc = True" "rc_timestamp ?rc = ts_invalid" "rc_list ?rc = []"
    "rc_source_prefix ?rc = ?g"
    using assms(2,3) by (simp_all add: initialize_receiver_def reset_state_def)
  have pos: "0 \<le> ib_position r0" using r0(2) by (simp add: ib_ok_def)
  have all: "\<forall>m \<in> set ss. wire_ok m" using assms(1) by (simp add: fits_def)
  have "ss \<noteq> [] \<longrightarrow> rc_next ?rc \<noteq> ib_position r1 + 4 + out_size (hd ss)"
    using wire_size(2)[of "hd ss"] all pos r1(5) fields(1) by (cases ss) auto
  moreover have "length ss < parse_fuel r1"
    using wire_octets[OF all] length_ib_unread[OF r1(2)] r1(3) by (simp add: parse_fuel_def)
  ultimately obtain n where "parse_loop (parse_fuel r1) (rc_next ?rc) ?rc r1 = Some (?rc\<lparr> rc_next := n,
      rc_list := concat (map (received ?g) ss) \<rparr>, ParseFault ExceptionThrown)"
    using parse_written[OF all fields(3) r1(2,3), of "parse_fuel r1"] stops_pad size r1(4) fields
    by (auto simp: tail_def)
  then have "parse_datagram dest rc r0 = Some (Inr (False, ?rc\<lparr> rc_next := n,
      rc_list := concat (map (received ?g) ss) \<rparr>))"
    using size r1(1) by (simp add: parse_datagram_def finish_parse_def Let_def)
  then show ?thesis using r0(1) by (intro exI[of _ r0] exI[of _ n] exI[of _ ?h]) simp
qed

section \<open>Properties\<close>

text \<open>C6: What the sender writes the parser reads back: a message of acknowledgements, GAPs, heartbeats and
  data without payload that stays below the datagram size leaves as one datagram, and a fresh receiver
  lists exactly its submessages, in order, with the sender's prefix and the sizes the sender announced.
  The parse nevertheless ends with an exception, which makes \<open>ParseDatagram\<close> return false: every
  announced size is short of what was written, so the loop looks for one more header.\<close>

theorem sent_message_is_parsed:
  assumes "fits ms ss" "ss \<noteq> []" "\<forall>cs a q. dev cs a q = int (length cs)" "rc_verify rc" "rc_next rc = 0"
  shows "\<exists>D r1 rc'. write_message ms dev ss l ds = (Inr RcOk, ds @ [(map Some D, loc_address l, loc_port l)])
    \<and> read_de (ib_new D) = Inr (de_new 0, r1) \<and> parse_datagram dest rc r1 = Some (Inr (False, rc'))
    \<and> rc_list rc' = concat (map (received (ms_prefix ms)) ss) \<and> length (rc_list rc') = length ss
    \<and> rc_source_prefix rc' = ms_prefix ms \<and> rc_dest_prefix rc' = dest"
proof -
  have wr: "write_message ms dev ss l ds =
      (Inr RcOk, ds @ [(map Some (datagram_of ms ss), loc_address l, loc_port l)])"
    using write_wire[OF assms(1,2)] assms(3) by simp
  obtain r1 n h where p: "read_de (ib_new (datagram_of ms ss)) = Inr (de_new 0, r1)"
    "parse_datagram dest rc r1 = Some (Inr (False, (initialize_receiver h (reset_state dest rc))
        \<lparr> rc_next := n, rc_list := concat (map (received (ms_prefix ms)) ss) \<rparr>))" "mh_prefix h = ms_prefix ms"
    using parse_wire[OF assms(1,4,5)] by blast
  have "length (received g m) = 1" if "wire_ok m" for g m using that by (cases m) auto
  moreover have "\<forall>m \<in> set ss. wire_ok m" using assms(1) by (simp add: fits_def)
  then have "length (concat (map (received (ms_prefix ms)) ss)) = length ss"
    using calculation by (induction ss) auto
  ultimately show ?thesis using wr p
    by (intro exI[of _ "datagram_of ms ss"] exI[of _ r1] exI) (auto simp: initialize_receiver_def reset_state_def)
qed

theorem sent_message_is_parsed_witness:
  "\<exists>D r1 rc'. write_message (ms_new gp_unknown 1500) (\<lambda>cs a q. int (length cs)) [OutHeartbeat hb_new, OutGap gap_new]
      loc_default [] = (Inr RcOk, [(map Some D, loc_address loc_default, loc_port loc_default)])
    \<and> read_de (ib_new D) = Inr (de_new 0, r1)
    \<and> parse_datagram gp_unknown (rc_new gp_unknown True) r1 = Some (Inr (False, rc')) \<and> length (rc_list rc') = 2"
proof -
  let ?ms = "ms_new gp_unknown 1500" and ?ss = "[OutHeartbeat hb_new, OutGap gap_new]"
  have rep: "sn_representable (sn_of_value 1)"
    using sn_valid_representable[OF sn_of_value_valid[of 1]] by (simp add: in_int64_def)
  have hb: "wire_ok (OutHeartbeat hb_new)"
    using rep by (simp add: hb_ok_def hb_new_def hb_of_base_def submessage_base.defs sb_of_kind_def sb_of_header_def
        sh_of_flags_def sh_new_def in_int32_def count_default_def)
  have gap: "wire_ok (OutGap gap_new)"
    using rep sns_ok_new by (simp add: gap_ok_def gap_new_def gap_of_base_def submessage_base.defs sb_of_kind_def
        sb_of_header_def sh_of_flags_def sh_new_def sns_exact_def sns_received_def sns_new_def sns_vector_size_def)
  have g: "gp_ok gp_unknown" by simp
  have "length (hb_enc hb_new) = 44" "length (gap_enc gap_new) = 48"
    by (simp_all add: hb_enc_def hb_new_def hb_of_base_def gap_enc_def gap_new_def gap_of_base_def
        submessage_base.defs sn_enc_length sns_enc_def sns_new_def sns_vector_size_def ei_enc_def ei_unknown_def)
  then have "length (concat (map wire_bytes ?ss)) = 100"
    using sh_enc_length[of "out_header (OutHeartbeat hb_new)"] sh_enc_length[of "out_header (OutGap gap_new)"]
    by (simp add: wire_bytes_def sh_SIZE_def)
  then have "fits ?ms ?ss"
    using hb gap g datagram_prefix_length[OF g] by (simp add: fits_def ms_new_def message_bytes_def)
  from sent_message_is_parsed[OF this, of "\<lambda>cs a q. int (length cs)" "rc_new gp_unknown True" loc_default "[]" gp_unknown]
  show ?thesis by (auto simp: rc_new_def)
qed

section \<open>A payload is parsed as submessages\<close>

text \<open>A data submessage with a payload of endianness 0 and \<open>ps\<close> octets.\<close>

definition loaded_data :: "rtps_data \<Rightarrow> u8 list \<Rightarrow> bool" where
  "loaded_data d ps \<longleftrightarrow> d_ok (submessage_base.truncate d) d \<and> sh_kind (sb_header d) = Data \<and> d_inline_qos d = []
     \<and> ps \<noteq> [] \<and> length ps \<le> 256 \<and> length ps mod 4 = 0
     \<and> sp_endian (d_payload d) = 0 \<and> sp_length (d_payload d) = int (length ps)
     \<and> (\<exists>w. sp_out (d_payload d) = Some w \<and> take (nat (ba_position w)) (ba_cells w) = map Some ps)"

definition loaded_bytes :: "rtps_data \<Rightarrow> u8 list \<Rightarrow> u8 list" where
  "loaded_bytes d ps = sh_enc (sized_header (d_size d) (sb_header d)) @ d_head_enc d
     @ sh_enc (sh_new KindUnknown (int (length ps)) 0) @ ps"

lemma out_emits_loaded:
  assumes "loaded_data m ps"
  shows "out_emits (OutData m) (loaded_bytes m ps)" "d_size m = 24 + int (length ps)"
proof -
  show size: "d_size m = 24 + int (length ps)"
    using assms by (simp add: loaded_data_def d_size_def par_list_size_def sn_SIZE_def par_size_def uint16_def
        par_sentinel_def par_default_def)
  obtain w where w: "sp_out (d_payload m) = Some w" "take (nat (ba_position w)) (ba_cells w) = map Some ps"
    using assms by (auto simp: loaded_data_def)
  have len: "ps \<noteq> []" "length ps \<le> 256" using assms by (auto simp: loaded_data_def)
  have "emits (write_sp (d_payload m)) (le_bytes 2 0 @ le_bytes 2 (int (length ps)) @ ps)"
    unfolding write_sp_def w option.case
    using assms by (intro emits_wseq emits_copy_data len) (simp_all add: loaded_data_def emits_put_ints)
  moreover have "le_bytes 2 0 @ le_bytes 2 (int (length ps)) = sh_enc (sh_new KindUnknown (int (length ps)) 0)"
    using len by (simp add: sh_enc_def sh_new_def in_int16_def numeral_2_eq_2)
  ultimately have sp: "emits (write_sp (d_payload m)) (sh_enc (sh_new KindUnknown (int (length ps)) 0) @ ps)"
    by (metis append.assoc)
  have ids: "emits (write_ei (d_reader m)) (ei_enc (d_reader m))"
    "emits (write_ei (d_writer m)) (ei_enc (d_writer m))" "emits (write_sn (d_sn m)) (sn_enc (d_sn m))"
    using assms ei_codec.wr_emits sn_codec.wr_emits by (auto simp: loaded_data_def d_ok_def)
  have "emits (if d_inline_qos m \<noteq> [] then write_par_list (d_inline_qos m) else wskip) []"
    using assms emits_wskip by (simp add: loaded_data_def)
  note rest = emits_wseq[OF this sp]
  have n: "32 * 3 = (96::int)" by simp
  have body: "emits (write_d m) (d_head_enc m @ sh_enc (sh_new KindUnknown (int (length ps)) 0) @ ps)"
    using emits_wseq[OF emits_put_ints(2) emits_wseq[OF emits_put_ints(2) emits_wseq[OF ids(1)
        emits_wseq[OF ids(2) emits_wseq[OF ids(3) rest]]]], of "d_extra_flags m" "32 * 3"]
    unfolding write_d_def d_head_enc_def append_assoc append_Nil n by (metis (no_types))
  show "out_emits (OutData m) (loaded_bytes m ps)"
    unfolding out_emits_def out_write.simps
  proof (intro allI impI written_of_emits)
    fix b assume b: "ba_ok b"
    have same: "write_d (m\<lparr> sb_header := h \<rparr>) = write_d m" for h by (simp add: write_d_def)
    have "emits (write_d (m\<lparr> sb_header := sized_header (d_size m) (sb_header m) \<rparr>))
        (d_head_enc m @ sh_enc (sh_new KindUnknown (int (length ps)) 0) @ ps)"
      unfolding same by (rule body)
    from write_with_header_emits[of "\<lambda>m. Inr (d_size m)" m "d_size m" write_d, OF refl this b]
    show "\<exists>b' m'. write_with_header (\<lambda>m. Inr (d_size m)) write_d m b = Inr (True, m', b') \<and> ba_ok b' \<and>
        ba_written b' = ba_written b @ map Some (loaded_bytes m ps)"
      unfolding loaded_bytes_def by blast
  qed
qed

lemma read_loaded_head:
  assumes "loaded_data d ps" "rc_timestamp rc = ts_invalid" "ib_ok r" "ib_unread r = d_head_enc d @ rest"
  defines "h \<equiv> sized_header (d_size d) (sb_header d)"
  shows "\<exists>r2. get_submessage rc h r = Inr ((rc, Some (SubData
      ((arrived (rc_source_prefix rc) h d)\<lparr> d_inline_qos := [], d_payload := sp_default 0 \<rparr>))), r2)
    \<and> ib_ok r2 \<and> ib_unread r2 = rest \<and> ib_size r2 = ib_size r"
proof -
  let ?a = "d\<lparr> sb_header := h, sb_timestamp := ts_invalid, sb_source_prefix := gp_unknown \<rparr>"
  let ?b = "?a\<lparr> d_inline_qos := [], d_payload := sp_default 0 \<rparr>"
  have k: "sh_kind h = Data" using assms(1) by (simp add: h_def sized_header_def loaded_data_def)
  have "d_ok (sb_of_header h) ?a" "d_head_enc ?a = d_head_enc d"
    using assms(1)
    by (auto simp: loaded_data_def d_ok_def d_head_enc_def sb_of_header_def submessage_base.truncate_def)
  then have "consumes (read_d (d_of_base 0 (sb_of_header h))) (d_head_enc d) ?b"
    using consumes_read_d[of "sb_of_header h" ?a 0] by simp
  from consumesE[OF this assms(3,4)] obtain r2 where r2: "read_d (d_of_base 0 (sb_of_header h)) r = Inr (?b, r2)"
    "ib_ok r2" "ib_unread r2 = rest" .
  have "get_submessage rc h r = Inr ((rc, Some (SubData (stamp rc ?b))), r2)"
    using r2(1) k by (simp add: get_submessage_def get_entity_submessage_def d_of_header_def rthen_def rret_def)
  moreover have "stamp rc ?b = (arrived (rc_source_prefix rc) h d)\<lparr> d_inline_qos := [], d_payload := sp_default 0 \<rparr>"
    by (cases d) (simp add: stamp_arrived[OF assms(2)] arrived_def)
  ultimately have run: "get_submessage rc h r = Inr ((rc, Some (SubData
      ((arrived (rc_source_prefix rc) h d)\<lparr> d_inline_qos := [], d_payload := sp_default 0 \<rparr>))), r2)"
    by simp
  then show ?thesis using r2 advancesD[OF advances_get_submessage run] by (simp add: ib_size_def)
qed

lemma parse_loop_step:
  assumes "rc_next rc < ib_size r" "get_submessage_header rc r = Inr ((h, n), r1)" "prev \<noteq> n"
    and "get_submessage (rc\<lparr> rc_next := n \<rparr>) h r1 = Inr ((rc2, s), r2)"
  shows "parse_loop (Suc fuel) prev rc r =
    parse_loop fuel n (case s of None \<Rightarrow> rc2 | Some m \<Rightarrow> rc2\<lparr> rc_list := rc_list rc2 @ [m] \<rparr>) r2"
  using assms by (simp add: Let_def)

text \<open>The two rounds of the parser before it reaches the payload.\<close>

lemma parse_loaded:
  assumes "loaded_data d ps" "rc_timestamp rc = ts_invalid" "rc_verify rc" "ib_ok r"
    and "ib_unread r = loaded_bytes d ps @ tail" "rc_next rc = 0" "0 < ib_position r"
  defines "h \<equiv> sized_header (d_size d) (sb_header d)"
  shows "\<exists>r3. parse_loop (Suc (Suc fuel)) 0 rc r = parse_loop fuel (ib_position r3 + int (length ps))
        (rc\<lparr> rc_next := ib_position r3 + int (length ps), rc_list := rc_list rc @ [SubData
          ((arrived (rc_source_prefix rc) h d)\<lparr> d_inline_qos := [], d_payload := sp_default 0 \<rparr>)] \<rparr>) r3
    \<and> ib_ok r3 \<and> ib_unread r3 = ps @ tail \<and> ib_size r3 = ib_size r"
proof -
  let ?k = "sh_new KindUnknown (int (length ps)) 0"
  have ps: "0 < length ps" "length ps mod 4 = 0" "length ps \<le> 256" using assms(1) by (auto simp: loaded_data_def)
  have size: "d_size d = 24 + int (length ps)" by (rule out_emits_loaded(2)[OF assms(1)])
  have hlen: "sh_length h = 24 + int (length ps)"
    using ps(3) by (simp add: h_def sized_header_def size uint16_def)
  have hok: "sh_ok h" using assms(1) hlen ps(3)
    by (simp add: sh_ok_def) (simp add: h_def sized_header_def loaded_data_def named_kinds_def)
  have kok: "sh_ok ?k" using ps(3) by (simp add: sh_ok_def sh_new_def named_kinds_def)
  have head: "length (d_head_enc d) = 28"
    using assms(1) by (simp add: d_head_enc_def loaded_data_def d_ok_def ei_enc_def ei_ok_def sn_enc_length)
  have adv: "advances read_sh" unfolding read_sh_def by (intro advances_intros)
  have unread: "ib_unread r = sh_enc h @ (d_head_enc d @ sh_enc ?k @ ps @ tail)"
    using assms(5) by (simp add: loaded_bytes_def h_def)
  obtain r1 where r1: "read_sh r = Inr (h, r1)" "ib_ok r1" "ib_unread r1 = d_head_enc d @ sh_enc ?k @ ps @ tail"
    using consumesE[OF sh_codec.rd_consumes[OF hok] assms(4) unread] .
  have s1: "ib_size r1 = ib_size r" using advancesD[OF adv r1(1)] by (simp add: ib_size_def)
  have shl: "length (sh_enc x) = 4" for x using sh_enc_length[of x] by (simp add: sh_SIZE_def)
  have len: "ib_size r - ib_position r = 36 + int (length ps) + int (length tail)"
    using length_ib_unread[OF assms(4)] unread head shl by simp
  define n1 where "n1 = ib_position r + 28 + int (length ps)"
  have mod4: "int (length ps) mod 4 = 0" using ps(2) by presburger
  then have "(24 + int (length ps)) mod 4 = 0" by presburger
  then have header1: "get_submessage_header rc r = Inr ((h, n1), r1)"
    using r1(1) s1 len hlen assms(3)
    by (simp add: get_submessage_header_def rthen_def Let_def sh_SIZE_def n1_def)
  let ?rc1 = "rc\<lparr> rc_next := n1 \<rparr>"
  let ?d = "SubData ((arrived (rc_source_prefix rc) h d)\<lparr> d_inline_qos := [], d_payload := sp_default 0 \<rparr>)"
  let ?rc2 = "?rc1\<lparr> rc_list := rc_list rc @ [?d] \<rparr>"
  obtain r2 where r2: "get_submessage ?rc1 h r1 = Inr ((?rc1, Some ?d), r2)" "ib_ok r2"
    "ib_unread r2 = sh_enc ?k @ (ps @ tail)" "ib_size r2 = ib_size r1"
    using read_loaded_head[OF assms(1) _ r1(2,3), of ?rc1] assms(2) unfolding h_def by auto
  obtain r3 where r3: "read_sh r2 = Inr (?k, r3)" "ib_ok r3" "ib_unread r3 = ps @ tail"
    using consumesE[OF sh_codec.rd_consumes[OF kok] r2(2,3)] .
  have s3: "ib_size r3 = ib_size r2" using advancesD[OF adv r3(1)] by (simp add: ib_size_def)
  have p3: "ib_position r3 = ib_position r2 + 4" "ib_position r2 = ib_position r + 32"
    using length_ib_unread[OF r2(2)] length_ib_unread[OF r3(2)] length_ib_unread[OF r1(2)] len r1(3) r2(3,4) r3(3) s1 s3
      shl head by simp_all
  let ?n2 = "ib_position r3 + int (length ps)"
  have header2: "get_submessage_header ?rc2 r2 = Inr ((?k, ?n2), r3)"
    using r3(1) s1 s3 r2(4) len p3 ps mod4 assms(3)
    by (simp add: get_submessage_header_def rthen_def Let_def sh_SIZE_def sh_new_def)
  have none: "get_submessage (?rc2\<lparr> rc_next := ?n2 \<rparr>) ?k r3 = Inr ((?rc2\<lparr> rc_next := ?n2 \<rparr>, None), r3)"
    by (simp add: get_submessage_def sh_new_def rret_def)
  have "parse_loop (Suc (Suc fuel)) 0 rc r = parse_loop (Suc fuel) n1 ?rc2 r2"
    using parse_loop_step[OF _ header1 _ r2(1), of 0 "Suc fuel"] assms(6,7) len
    by (simp add: n1_def del: parse_loop.simps)
  also have "\<dots> = parse_loop fuel ?n2 (?rc2\<lparr> rc_next := ?n2 \<rparr>) r3"
    using parse_loop_step[OF _ header2 _ none, of n1 fuel] r2(4) s1 len p3
    by (simp add: n1_def del: parse_loop.simps)
  finally show ?thesis using r3 s3 r2(4) s1
    by (intro exI[of _ r3]) (cases rc, simp del: parse_loop.simps)
qed

lemma loaded_message_parsed:
  assumes "loaded_data d (concat (map wire_bytes ss))" "\<forall>m \<in> set ss. wire_ok m" "gp_ok (ms_prefix ms)"
    and "bs = message_bytes (ms_prefix ms) [loaded_bytes d (concat (map wire_bytes ss))]"
    and "int (length bs) + 8 < ms_datagram_size ms" "ms_datagram_size ms < 2147483648"
    and "\<forall>cs a q. dev cs a q = int (length cs)" "rc_verify rc" "rc_next rc = 0"
  shows "\<exists>D r1 rc' d'. write_message ms dev [OutData d] l ds =
      (Inr RcOk, ds @ [(map Some D, loc_address l, loc_port l)])
    \<and> read_de (ib_new D) = Inr (de_new 0, r1) \<and> parse_datagram dest rc r1 = Some (Inr (False, rc'))
    \<and> rc_list rc' = SubData d' # concat (map (received (ms_prefix ms)) ss)
    \<and> d_writer d' = d_writer d \<and> d_sn d' = d_sn d \<and> d_payload d' = sp_default 0"
proof -
  let ?g = "ms_prefix ms" and ?ps = "concat (map wire_bytes ss)"
  let ?h = "mh_default\<lparr> mh_prefix := ?g \<rparr>" and ?lb = "loaded_bytes d (concat (map wire_bytes ss))"
  define tail where "tail = pad_bytes (ms_datagram_size ms) (int (length bs))"
  define D where "D = bs @ tail"
  note emit = out_emits_loaded[OF assms(1)]
  have head: "length (d_head_enc d) = 28"
    using assms(1) by (simp add: d_head_enc_def loaded_data_def d_ok_def ei_enc_def ei_ok_def sn_enc_length)
  have shl: "length (sh_enc x) = 4" for x using sh_enc_length[of x] by (simp add: sh_SIZE_def)
  have "emits_all [OutData d] [?lb]" using emit head shl by (simp add: emits_all_def loaded_bytes_def)
  then have wr: "write_message ms dev [OutData d] l ds =
      (Inr RcOk, ds @ [(map Some D, loc_address l, loc_port l)])"
    using write_message_single[of "[OutData d]" "[?lb]" ms dev l ds] assms(3-7)
    by (simp add: D_def tail_def)
  have D: "D = 0 # mh_enc ?h @ ?lb @ tail"
    by (simp add: D_def assms(4) message_bytes_def datagram_prefix_def)
  have ok: "ib_ok (ib_new D)" "ib_unread (ib_new D) = [de_endian (de_new 0)] @ (mh_enc ?h @ ?lb @ tail)"
    by (simp_all add: ib_ok_def ib_new_def ib_size_def ib_unread_def D de_new_def)
  obtain r0 where r0: "read_de (ib_new D) = Inr (de_new 0, r0)" "ib_ok r0" "ib_unread r0 = mh_enc ?h @ ?lb @ tail"
    using consumesE[OF de_codec.rd_consumes ok] by auto
  have "advances read_de" unfolding read_de_def by (intro advances_intros)
  from advancesD[OF this r0(1)] have s0: "ib_size r0 = ib_size (ib_new D)" by (simp add: ib_size_def)
  obtain r1 where r1: "get_message_header r0 = Inr (?h, r1)" "ib_ok r1" "ib_unread r1 = ?lb @ tail"
    "ib_size r1 = ib_size r0" "ib_position r1 = ib_position r0 + 18"
    using read_prefix[OF assms(3) r0(2,3)] by blast
  let ?rc = "initialize_receiver ?h (reset_state dest rc)"
  have fields: "rc_next ?rc = 0" "rc_verify ?rc = True" "rc_timestamp ?rc = ts_invalid" "rc_list ?rc = []"
    "rc_source_prefix ?rc = ?g"
    using assms(8,9) by (simp_all add: initialize_receiver_def reset_state_def)
  have pos: "0 < ib_position r1" using r0(2) r1(5) by (simp add: ib_ok_def)
  have some: "ss \<noteq> []" using assms(1) by (auto simp: loaded_data_def)
  have long: "length ss + 36 < parse_fuel r1"
    using wire_octets[OF assms(2)] length_ib_unread[OF r1(2)] r1(3) head shl
    by (simp add: parse_fuel_def loaded_bytes_def)
  define f where "f = parse_fuel r1 - 2"
  have f: "parse_fuel r1 = Suc (Suc f)" "length ss < f" using long by (simp_all add: f_def)
  obtain r3 where r3: "parse_loop (Suc (Suc f)) 0 ?rc r1 = parse_loop f (ib_position r3 + int (length ?ps))
      (?rc\<lparr> rc_next := ib_position r3 + int (length ?ps), rc_list := [SubData
        ((arrived ?g (sized_header (d_size d) (sb_header d)) d)\<lparr> d_inline_qos := [], d_payload := sp_default 0 \<rparr>)] \<rparr>) r3"
    "ib_ok r3" "ib_unread r3 = ?ps @ tail" "ib_size r3 = ib_size r1"
    using parse_loaded[OF assms(1) fields(3) _ r1(2,3) fields(1) pos, of f] fields by auto
  let ?d = "(arrived ?g (sized_header (d_size d) (sb_header d)) d)\<lparr> d_inline_qos := [], d_payload := sp_default 0 \<rparr>"
  let ?rc3 = "?rc\<lparr> rc_next := ib_position r3 + int (length ?ps), rc_list := [SubData ?d] \<rparr>"
  have "tail \<noteq> []" using assms(5) by (simp add: tail_def pad_bytes_def Let_def sh_SIZE_def sh_enc_def)
  then have next_ok: "rc_next ?rc3 < ib_size r3"
    using length_ib_unread[OF r3(2)] r3(3) by (cases tail) auto
  obtain m ms' where ss: "ss = m # ms'" using some by (cases ss) auto
  have "rc_next ?rc3 \<noteq> ib_position r3 + 4 + out_size (hd ss)"
    using wire_size(3)[of m] wire_bytes_length[of m] assms(2) by (simp add: ss)
  then obtain n where "parse_loop f (rc_next ?rc3) ?rc3 r3 = Some (?rc3\<lparr> rc_next := n,
      rc_list := SubData ?d # concat (map (received ?g) ss) \<rparr>, ParseFault ExceptionThrown)"
    using parse_written[OF assms(2) _ r3(2,3) _ next_ok _ f(2)] fields stops_pad by (auto simp: tail_def)
  then have "parse_datagram dest rc r0 = Some (Inr (False, ?rc3\<lparr> rc_next := n,
      rc_list := SubData ?d # concat (map (received ?g) ss) \<rparr>))"
    using r1(1) r3(1) f(1) s0 fields(1) r1(4)
    by (simp add: parse_datagram_def finish_parse_def Let_def ib_size_def ib_new_def D del: parse_loop.simps)
  then show ?thesis using wr r0(1)
    by (intro exI[of _ D] exI[of _ r0] exI[of _ "?rc3\<lparr> rc_next := n,
      rc_list := SubData ?d # concat (map (received ?g) ss) \<rparr>"] exI[of _ ?d]) (simp add: arrived_def)
qed

definition sample_loaded_data :: rtps_data where
  "sample_loaded_data = (d_new 0)\<lparr> d_payload := \<lparr> sp_endian = 0, sp_length = 48,
     sp_out = Some \<lparr> ba_cells = map Some (wire_bytes (OutHeartbeat hb_new)), ba_position = 48 \<rparr>, sp_in = None \<rparr> \<rparr>"

lemma sample_heartbeat: "wire_ok (OutHeartbeat hb_new)" "length (out_body (OutHeartbeat hb_new)) = 44"
proof -
  have "sn_representable (sn_of_value 1)"
    using sn_valid_representable[OF sn_of_value_valid[of 1]] by (simp add: in_int64_def)
  then show "wire_ok (OutHeartbeat hb_new)"
    by (simp add: hb_ok_def hb_new_def hb_of_base_def submessage_base.defs sb_of_kind_def sb_of_header_def
        sh_of_flags_def sh_new_def in_int32_def count_default_def)
  show "length (out_body (OutHeartbeat hb_new)) = 44"
    by (simp add: hb_enc_def hb_new_def hb_of_base_def submessage_base.defs sn_enc_length ei_enc_def ei_unknown_def)
qed

lemma sample_loaded:
  shows "loaded_data sample_loaded_data (concat (map wire_bytes [OutHeartbeat hb_new]))"
    and "\<forall>m \<in> set [OutHeartbeat hb_new]. wire_ok m" "gp_ok (ms_prefix (ms_new gp_unknown 1500))"
    and "int (length (message_bytes (ms_prefix (ms_new gp_unknown 1500))
         [loaded_bytes sample_loaded_data (concat (map wire_bytes [OutHeartbeat hb_new]))])) + 8
       < ms_datagram_size (ms_new gp_unknown 1500)" "ms_datagram_size (ms_new gp_unknown 1500) < 2147483648"
proof -
  let ?ps = "wire_bytes (OutHeartbeat hb_new)"
  have rep: "sn_representable (sn_of_value 1)"
    using sn_valid_representable[OF sn_of_value_valid[of 1]] by (simp add: in_int64_def)
  have len: "length ?ps = 48"
    using wire_bytes_length[of "OutHeartbeat hb_new"] sample_heartbeat(2) by simp
  have "par_list_ok []" by (simp add: par_list_ok_def)
  then show "loaded_data sample_loaded_data (concat (map wire_bytes [OutHeartbeat hb_new]))"
    using rep len by (auto simp: sample_loaded_data_def loaded_data_def d_ok_def d_new_def d_of_base_def
        submessage_base.defs sb_of_kind_def sb_of_header_def sh_of_flags_def sh_new_def in_int16_def
        sp_writable_def ba_size_def ba_contents_def defined_bytes_map_Some)
  have head: "length (d_head_enc sample_loaded_data) = 28"
    by (simp add: sample_loaded_data_def d_head_enc_def d_new_def d_of_base_def submessage_base.defs ei_enc_def
        ei_unknown_def sn_enc_length)
  have g: "gp_ok gp_unknown" by simp
  have shl: "length (sh_enc x) = 4" for x using sh_enc_length[of x] by (simp add: sh_SIZE_def)
  show "int (length (message_bytes (ms_prefix (ms_new gp_unknown 1500))
         [loaded_bytes sample_loaded_data (concat (map wire_bytes [OutHeartbeat hb_new]))])) + 8
       < ms_datagram_size (ms_new gp_unknown 1500)"
    using datagram_prefix_length[OF g] head len shl by (simp add: message_bytes_def loaded_bytes_def ms_new_def)
  show "\<forall>m \<in> set [OutHeartbeat hb_new]. wire_ok m" "gp_ok (ms_prefix (ms_new gp_unknown 1500))"
    "ms_datagram_size (ms_new gp_unknown 1500) < 2147483648"
    using g sample_heartbeat(1) by (simp_all add: ms_new_def)
qed

text \<open>The octets of an application payload are parsed as submessages: the encapsulation that precedes
  the payload reads as the header of an unknown submessage, which consumes nothing. A payload made of
  the octets of submessages \<open>ss\<close> arrives as the data submessage without payload followed by \<open>ss\<close>, as if
  the writer had sent them, whenever padding follows.\<close>

theorem payload_becomes_submessages:
  assumes "loaded_data d (concat (map wire_bytes ss))" "\<forall>m \<in> set ss. wire_ok m" "gp_ok (ms_prefix ms)"
    and "bs = message_bytes (ms_prefix ms) [loaded_bytes d (concat (map wire_bytes ss))]"
    and "int (length bs) + 8 < ms_datagram_size ms" "ms_datagram_size ms < 2147483648"
    and "\<forall>cs a q. dev cs a q = int (length cs)" "rc_verify rc" "rc_next rc = 0"
  shows "\<exists>D r1 rc' d'. write_message ms dev [OutData d] l ds =
      (Inr RcOk, ds @ [(map Some D, loc_address l, loc_port l)])
    \<and> read_de (ib_new D) = Inr (de_new 0, r1) \<and> parse_datagram dest rc r1 = Some (Inr (False, rc'))
    \<and> rc_list rc' = SubData d' # concat (map (received (ms_prefix ms)) ss)
    \<and> d_writer d' = d_writer d \<and> d_sn d' = d_sn d \<and> d_payload d' = sp_default 0"
  by (rule loaded_message_parsed[OF assms])

theorem payload_becomes_submessages_witness:
  "\<exists>D r1 rc' d'. write_message (ms_new gp_unknown 1500) (\<lambda>cs a q. int (length cs)) [OutData sample_loaded_data]
      loc_default [] = (Inr RcOk, [(map Some D, loc_address loc_default, loc_port loc_default)])
    \<and> read_de (ib_new D) = Inr (de_new 0, r1)
    \<and> parse_datagram gp_unknown (rc_new gp_unknown True) r1 = Some (Inr (False, rc'))
    \<and> rc_list rc' = SubData d' # received gp_unknown (OutHeartbeat hb_new)"
  using payload_becomes_submessages[OF sample_loaded(1-3) refl sample_loaded(4,5),
      of "\<lambda>cs a q. int (length cs)" "rc_new gp_unknown True" loc_default "[]" gp_unknown]
  by (fastforce simp: rc_new_def ms_new_def)

end
