(* ===== verification/Virtual_Machine.thy ===== *)
theory Virtual_Machine
  imports Writer_Protocol Stateless_Writer Stateful_Reader Exchange
begin

text \<open>
  \<open>RTPS/Machine/VirtualMachine\<close>, \<open>VirtualMachineReader\<close>, \<open>VirtualMachineWriter\<close> and the factory of
  \<open>RTPS/Factory/RtpsFactory\<close>: a virtual machine has a reader and a writer of one GUID, parses the
  datagrams of its socket and hands every submessage to one of the two. The threads that call
  \<open>WaitDispatch\<close> of the endpoints are not modelled. Clock readings are arguments: \<open>clocks i\<close> are those
  made while the submessage with index \<open>i\<close> is processed.
\<close>

section \<open>The endpoints\<close>

datatype endpoint_kind = KindUndefined | KindStateless | KindStateful

datatype vm_reader = ReaderStateless rtps_reader | ReaderStateful stateful_reader

datatype vm_writer = WriterStateless stateless_writer | WriterStateful stateful_writer

type_synonym vm_clock = "int \<times> int \<times> (locator \<Rightarrow> int \<times> int)"

text \<open>\<open>GetSubmessageKind\<close>: every class asserts the kind of its header.\<close>

fun sub_kind :: "submessage \<Rightarrow> submessage_kind res" where
  "sub_kind (SubAckNack m) = get_kind AckNack m"
| "sub_kind (SubData m) = get_kind Data m"
| "sub_kind (SubDataFrag m) = get_kind DataFrag m"
| "sub_kind (SubGap m) = get_kind Gap m"
| "sub_kind (SubHeartbeat m) = get_kind Heartbeat m"
| "sub_kind (SubHeartbeatFrag m) = get_kind HeartbeatFrag m"
| "sub_kind (SubNackFrag m) = get_kind NackFrag m"

text \<open>The virtual functions of the reader and of the writer.\<close>

fun reader_data :: "guid_prefix \<Rightarrow> rtps_data \<Rightarrow> vm_reader \<Rightarrow> (bool \<times> vm_reader) res" where
  "reader_data source d (ReaderStateless r) =
     rbind (sr0_receive_data source d r) (\<lambda>(b, r'). Inr (b, ReaderStateless r'))"
| "reader_data source d (ReaderStateful r) =
     rbind (sr_receive_data source d r) (\<lambda>(b, r'). Inr (b, ReaderStateful r'))"

fun reader_heartbeat ::
  "int \<Rightarrow> int \<Rightarrow> guid_prefix \<Rightarrow> rtps_heartbeat \<Rightarrow> vm_reader \<Rightarrow> (bool \<times> vm_reader) res" where
  "reader_heartbeat now1 now2 source hb (ReaderStateless r) =
     rbind (sr0_receive_heartbeat hb r) (\<lambda>(b, r'). Inr (b, ReaderStateless r'))"
| "reader_heartbeat now1 now2 source hb (ReaderStateful r) =
     rbind (sr_receive_heartbeat now1 now2 source hb r) (\<lambda>(b, r'). Inr (b, ReaderStateful r'))"

fun reader_gap :: "guid_prefix \<Rightarrow> rtps_gap \<Rightarrow> vm_reader \<Rightarrow> (bool \<times> vm_reader) res option" where
  "reader_gap source g (ReaderStateless r) =
     Some (rbind (sr0_receive_gap g r) (\<lambda>(b, r'). Inr (b, ReaderStateless r')))"
| "reader_gap source g (ReaderStateful r) =
     map_option (\<lambda>out. rbind out (\<lambda>(b, r'). Inr (b, ReaderStateful r'))) (sr_receive_gap source g r)"

fun writer_ack_nack :: "vm_clock \<Rightarrow> receiver \<Rightarrow> rtps_ack_nack \<Rightarrow> vm_writer \<Rightarrow> (bool \<times> vm_writer) res" where
  "writer_ack_nack (now1, now2, clocks) rc an (WriterStateless w) =
     rbind (sl_receive_ack_nack clocks rc an w) (\<lambda>(b, w'). Inr (b, WriterStateless w'))"
| "writer_ack_nack (now1, now2, clocks) rc an (WriterStateful w) =
     rbind (sw_receive_ack_nack now1 now2 (rc_dest_prefix rc) an w) (\<lambda>(b, w'). Inr (b, WriterStateful w'))"

fun writer_nack_frag :: "vm_writer \<Rightarrow> (bool \<times> vm_writer) res" where
  "writer_nack_frag (WriterStateless w) = rbind (sl_receive_nack_frag w) (\<lambda>(b, w'). Inr (b, WriterStateless w'))"
| "writer_nack_frag (WriterStateful w) = rbind (sw_receive_nack_frag w) (\<lambda>(b, w'). Inr (b, WriterStateful w'))"

section \<open>Dispatch\<close>

text \<open>
  The two \<open>ReceiveSubmessage\<close>: once \<open>GetSubmessageKind\<close> has passed its assertion, the kind names the
  class of the object, so the dynamic casts succeed and the default branches are not taken.
\<close>

definition vmr_receive ::
  "vm_clock \<Rightarrow> receiver \<Rightarrow> submessage \<Rightarrow> vm_reader \<Rightarrow> (bool \<times> vm_reader) res option" where
  "vmr_receive clock rc s r =
     (case sub_kind s of
        Inl e \<Rightarrow> Some (Inl e)
      | Inr k \<Rightarrow>
          (case s of
             SubData d \<Rightarrow> Some (reader_data (rc_source_prefix rc) d r)
           | SubDataFrag d \<Rightarrow> Some (Inr (True, r))
           | SubHeartbeat hb \<Rightarrow> Some (reader_heartbeat (fst clock) (fst (snd clock)) (rc_source_prefix rc) hb r)
           | SubHeartbeatFrag hb \<Rightarrow> Some (Inr (True, r))
           | SubGap g \<Rightarrow> reader_gap (rc_source_prefix rc) g r
           | SubAckNack an \<Rightarrow> Some (Inr (False, r))
           | SubNackFrag nf \<Rightarrow> Some (Inr (False, r))))"

definition vmw_receive ::
  "vm_clock \<Rightarrow> receiver \<Rightarrow> submessage \<Rightarrow> vm_writer \<Rightarrow> (bool \<times> vm_writer) res" where
  "vmw_receive clock rc s w =
     rbind (sub_kind s) (\<lambda>k.
       case s of
         SubAckNack an \<Rightarrow> writer_ack_nack clock rc an w
       | SubNackFrag nf \<Rightarrow> writer_nack_frag w
       | _ \<Rightarrow> Inr (False, w))"

text \<open>One round of the loop over the submessages: the reader first, then the writer.\<close>

definition vm_process ::
  "vm_clock \<Rightarrow> receiver \<Rightarrow> submessage \<Rightarrow> vm_reader \<times> vm_writer \<Rightarrow> (vm_reader \<times> vm_writer) res option" where
  "vm_process clock rc s = (\<lambda>(r, w).
     case vmr_receive clock rc s r of
       None \<Rightarrow> None
     | Some (Inl e) \<Rightarrow> Some (Inl e)
     | Some (Inr (processed, r')) \<Rightarrow>
         if processed then Some (Inr (r', w))
         else Some (rbind (vmw_receive clock rc s w) (\<lambda>(processed, w'). asserting processed (Inr (r', w')))))"

fun vm_dispatch ::
  "(nat \<Rightarrow> vm_clock) \<Rightarrow> receiver \<Rightarrow> nat \<Rightarrow> submessage list \<Rightarrow> vm_reader \<times> vm_writer
     \<Rightarrow> (vm_reader \<times> vm_writer) res option" where
  "vm_dispatch clocks rc i [] ends = Some (Inr ends)"
| "vm_dispatch clocks rc i (s # ss) ends =
     (case vm_process (clocks i) rc s ends of
        None \<Rightarrow> None
      | Some (Inl e) \<Rightarrow> Some (Inl e)
      | Some (Inr ends') \<Rightarrow> vm_dispatch clocks rc (Suc i) ss ends')"

record virtual_machine =
  vm_guid :: guid
  vm_writer :: vm_writer
  vm_reader :: vm_reader
  vm_receiver :: receiver
  vm_sender :: message_sender

text \<open>\<open>ReceiveDatagram\<close> ignores what \<open>ParseDatagram\<close> returns.\<close>

definition vm_receive_datagram ::
  "(nat \<Rightarrow> vm_clock) \<Rightarrow> in_byte_array \<Rightarrow> virtual_machine \<Rightarrow> (bool \<times> virtual_machine) res option" where
  "vm_receive_datagram clocks reader vm =
     (case read_de reader of
        Inl e \<Rightarrow> Some (Inl e)
      | Inr (de, reader1) \<Rightarrow>
          (case parse_datagram (guid_prefix_of (vm_guid vm)) (vm_receiver vm) reader1 of
             None \<Rightarrow> None
           | Some (Inl e) \<Rightarrow> Some (Inl e)
           | Some (Inr (parsed, rc)) \<Rightarrow>
               map_option (\<lambda>out. rbind out (\<lambda>(r, w).
                   Inr (True, vm\<lparr> vm_receiver := rc, vm_reader := r, vm_writer := w \<rparr>)))
                 (vm_dispatch clocks rc 0 (rc_list rc) (vm_reader vm, vm_writer vm))))"

section \<open>The factory\<close>

definition new_default_writer ::
  "int \<Rightarrow> int \<Rightarrow> endpoint_kind \<Rightarrow> guid \<Rightarrow> reliability_kind \<Rightarrow> vm_writer res" where
  "new_default_writer now1 now2 k g rel =
     (case k of
        KindStateless \<Rightarrow> Inr (WriterStateless (sl_new now1 now2 g rel 1))
      | KindStateful \<Rightarrow> Inr (WriterStateful (sw_new now1 now2 g rel))
      | KindUndefined \<Rightarrow> Inl ExceptionThrown)"

definition new_default_reader :: "int \<Rightarrow> endpoint_kind \<Rightarrow> guid \<Rightarrow> reliability_kind \<Rightarrow> vm_reader res" where
  "new_default_reader now k g rel =
     (case k of
        KindStateless \<Rightarrow> Inr (ReaderStateless (rr_new g rel))
      | KindStateful \<Rightarrow> Inr (ReaderStateful (sr_new now g rel))
      | KindUndefined \<Rightarrow> Inl ExceptionThrown)"

text \<open>\<open>InitializeWriter\<close> and \<open>InitializeReader\<close>, without the start of the threads.\<close>

fun writer_set_sender :: "message_sender \<Rightarrow> vm_writer \<Rightarrow> vm_writer" where
  "writer_set_sender ms (WriterStateless w) = WriterStateless (set_message_sender (Some ms) w)"
| "writer_set_sender ms (WriterStateful w) = WriterStateful (set_message_sender (Some ms) w)"

fun reader_set_sender :: "message_sender \<Rightarrow> vm_reader \<Rightarrow> vm_reader" where
  "reader_set_sender ms (ReaderStateless r) = ReaderStateless (rr_set_message_sender (Some ms) r)"
| "reader_set_sender ms (ReaderStateful r) = ReaderStateful (rr_set_message_sender (Some ms) r)"

definition initialize_writer ::
  "int \<Rightarrow> int \<Rightarrow> endpoint_kind \<Rightarrow> guid \<Rightarrow> reliability_kind \<Rightarrow> message_sender \<Rightarrow> vm_writer res" where
  "initialize_writer now1 now2 k g rel ms =
     rbind (new_default_writer now1 now2 k g rel) (\<lambda>w. Inr (writer_set_sender ms w))"

definition initialize_reader ::
  "int \<Rightarrow> endpoint_kind \<Rightarrow> guid \<Rightarrow> reliability_kind \<Rightarrow> message_sender \<Rightarrow> vm_reader res" where
  "initialize_reader now k g rel ms =
     rbind (new_default_reader now k g rel) (\<lambda>r. Inr (reader_set_sender ms r))"

definition new_virtual_machine ::
  "int \<times> int \<times> int \<Rightarrow> guid \<Rightarrow> int \<Rightarrow> reliability_kind \<Rightarrow> endpoint_kind \<Rightarrow> endpoint_kind \<Rightarrow> virtual_machine res" where
  "new_virtual_machine clocks g datagram rel writer_kind reader_kind =
     (case clocks of (now1, now2, now3) \<Rightarrow>
        let ms = ms_new (guid_prefix_of g) datagram in
        rbind (initialize_reader now1 reader_kind g rel ms) (\<lambda>r.
        rbind (initialize_writer now2 now3 writer_kind g rel ms) (\<lambda>w.
          Inr \<lparr> vm_guid = g, vm_writer = w, vm_reader = r,
                vm_receiver = rc_new (guid_prefix_of g) True, vm_sender = ms \<rparr>)))"

section \<open>Facts\<close>

text \<open>A stateless reader answers every submessage at once and stays stateless.\<close>

lemma vm_process_stateless:
  "\<exists>out. vm_process clock rc s (ReaderStateless r, w) = Some out
     \<and> (\<forall>r' w'. out = Inr (r', w') \<longrightarrow> (\<exists>q. r' = ReaderStateless q))"
  by (cases s)
    (auto simp: vm_process_def vmr_receive_def res_simps sr0_receive_heartbeat_def sr0_receive_gap_def
      split: sum.splits)

definition unsupported :: "submessage \<Rightarrow> bool" where
  "unsupported s \<longleftrightarrow> (case s of SubHeartbeat m \<Rightarrow> True | SubGap m \<Rightarrow> True | _ \<Rightarrow> False)"

lemma vm_process_unsupported:
  "unsupported s \<Longrightarrow> \<exists>e. vm_process clock rc s (ReaderStateless r, w) = Some (Inl e)"
  by (cases s)
    (auto simp: unsupported_def vm_process_def vmr_receive_def vmw_receive_def res_simps
      sr0_receive_heartbeat_def sr0_receive_gap_def split: sum.splits)

lemma vm_dispatch_unsupported:
  assumes "s \<in> set ss" "unsupported s"
  shows "\<exists>e. vm_dispatch clocks rc i ss (ReaderStateless r, w) = Some (Inl e)"
  using assms(1)
proof (induction ss arbitrary: i r w)
  case (Cons a ss)
  obtain out where out: "vm_process (clocks i) rc a (ReaderStateless r, w) = Some out"
    "\<forall>r' w'. out = Inr (r', w') \<longrightarrow> (\<exists>q. r' = ReaderStateless q)"
    using vm_process_stateless by blast
  show ?case
  proof (cases "unsupported a")
    case True
    then show ?thesis using vm_process_unsupported[OF True, of "clocks i" rc r w] by auto
  next
    case False
    then have later: "s \<in> set ss" using Cons.prems assms(2) by auto
    show ?thesis
    proof (cases out)
      case (Inr e)
      then obtain q w' where "e = (ReaderStateless q, w')" using out(2) by (cases e) auto
      then show ?thesis using Cons.IH[OF later, of "Suc i" q w'] out(1) Inr by simp
    qed (use out(1) in simp)
  qed
qed simp

text \<open>Data submessages are the work of \<open>sr0_receive_all\<close>.\<close>

lemma vm_dispatch_data:
  assumes "\<forall>d \<in> set ds. sh_kind (sb_header d) = Data"
  shows "vm_dispatch clocks rc i (map SubData ds) (ReaderStateless r, w)
    = Some (rbind (sr0_receive_all (rc_source_prefix rc) ds r) (\<lambda>r'. Inr (ReaderStateless r', w)))"
  using assms
proof (induction ds arbitrary: i r)
  case (Cons d ds)
  have "get_kind Data d = Inr Data" using Cons.prems by (simp add: get_kind_def)
  then have step: "vm_process (clocks i) rc (SubData d) (ReaderStateless r, w) =
      Some (rbind (sr0_receive_data (rc_source_prefix rc) d r) (\<lambda>(b, r'). Inr (ReaderStateless r', w)))"
    by (cases "add_change (received_change (guid_new (rc_source_prefix rc) (d_writer d)) d) (rr_cache r)")
      (simp_all add: vm_process_def vmr_receive_def sr0_receive_data_def)
  show ?case using Cons.IH[of "Suc i"] Cons.prems
    by (cases "sr0_receive_data (rc_source_prefix rc) d r") (auto simp: step sr0_receive_all_def)
qed (simp add: sr0_receive_all_def)

text \<open>A datagram of the sender, received by a machine whose receiver has not parsed one before.\<close>

lemma vm_receive_wire:
  assumes "fits ms ss" "rc_verify (vm_receiver vm)" "rc_next (vm_receiver vm) = 0"
  shows "\<exists>rc. vm_receive_datagram clocks (ib_new (datagram_of ms ss)) vm =
      map_option (\<lambda>out. rbind out (\<lambda>(r, w).
          Inr (True, vm\<lparr> vm_receiver := rc, vm_reader := r, vm_writer := w \<rparr>)))
        (vm_dispatch clocks rc 0 (concat (map (received (ms_prefix ms)) ss)) (vm_reader vm, vm_writer vm))
    \<and> rc_source_prefix rc = ms_prefix ms \<and> rc_dest_prefix rc = guid_prefix_of (vm_guid vm)"
proof -
  obtain r1 n h where p: "read_de (ib_new (datagram_of ms ss)) = Inr (de_new 0, r1)"
    "parse_datagram (guid_prefix_of (vm_guid vm)) (vm_receiver vm) r1 = Some (Inr (False,
        (initialize_receiver h (reset_state (guid_prefix_of (vm_guid vm)) (vm_receiver vm)))
        \<lparr> rc_next := n, rc_list := concat (map (received (ms_prefix ms)) ss) \<rparr>))" "mh_prefix h = ms_prefix ms"
    using parse_wire[OF assms, of "guid_prefix_of (vm_guid vm)"] by blast
  show ?thesis
    by (rule exI[of _ "(initialize_receiver h (reset_state (guid_prefix_of (vm_guid vm)) (vm_receiver vm)))
        \<lparr> rc_next := n, rc_list := concat (map (received (ms_prefix ms)) ss) \<rparr>"])
      (simp add: vm_receive_datagram_def p initialize_receiver_def reset_state_def)
qed

lemma vm_receive_stops:
  assumes "fits ms ss" "rc_verify (vm_receiver vm)" "rc_next (vm_receiver vm) = 0"
    and "\<And>rc. \<exists>e. vm_dispatch clocks rc 0 (concat (map (received (ms_prefix ms)) ss))
      (vm_reader vm, vm_writer vm) = Some (Inl e)"
  shows "\<exists>e. vm_receive_datagram clocks (ib_new (datagram_of ms ss)) vm = Some (Inl e)"
  using vm_receive_wire[OF assms(1-3), of clocks] assms(4) by (metis option.map(2) rbind.simps(1))

lemma messages_for_present:
  assumes "\<forall>k \<in> set ks. payload cache k \<noteq> None"
  shows "messages_for writer cache ks = map OutData (map (\<lambda>k. the (payload cache k)) ks)"
proof -
  have "missing_keys cache ks = []"
    using assms by (force simp: missing_keys_def payload_def filter_empty_conv split: option.splits)
  moreover have "List.map_filter (payload cache) ks = map (\<lambda>k. the (payload cache k)) ks"
    using assms by (induction ks) (auto simp: List.map_filter_simps)
  ultimately show ?thesis by (simp add: messages_for_def queued_data_def)
qed

lemma map_of_tagged:
  "distinct (map f ds) \<Longrightarrow> d \<in> set ds \<Longrightarrow> map_of (map (\<lambda>d. (f d, g d)) ds) (f d) = Some (g d)"
  by (induction ds) (auto intro: rev_image_eqI)

text \<open>What is left of a data submessage at the receiver.\<close>

definition arrived_data :: "guid_prefix \<Rightarrow> rtps_data \<Rightarrow> rtps_data" where
  "arrived_data g d =
     (arrived g (out_header (OutData d)) d)\<lparr> d_inline_qos := [], d_payload := sp_default 0 \<rparr>"

lemma arrived_data_simps [simp]:
  "d_sn (arrived_data g d) = d_sn d" "d_writer (arrived_data g d) = d_writer d"
  "d_payload (arrived_data g d) = sp_default 0"
  "sh_kind (sb_header (arrived_data g d)) = sh_kind (sb_header d)"
  by (simp_all add: arrived_data_def arrived_def sized_header_def)

lemma received_data: "concat (map (received g) (map OutData ds)) = map SubData (map (arrived_data g) ds)"
  by (induction ds) (simp_all add: arrived_data_def)

section \<open>Properties\<close>


definition sample_data :: rtps_data where
  "sample_data = (d_new 0)\<lparr> d_sn := sn_of_value 2 \<rparr>"

definition sample_machine :: virtual_machine where
  "sample_machine = (let ms = ms_new (guid_prefix_of sample_guid) 1500 in
     \<lparr> vm_guid = sample_guid,
       vm_writer = WriterStateless (set_message_sender (Some ms) (sl_new 0 0 sample_guid Reliable 1)),
       vm_reader = ReaderStateless (rr_set_message_sender (Some ms) (rr_new sample_guid Reliable)),
       vm_receiver = rc_new (guid_prefix_of sample_guid) True, vm_sender = ms \<rparr>)"

lemma sample_machine_made:
  "new_virtual_machine (0, 0, 0) sample_guid 1500 Reliable KindStateless KindStateless = Inr sample_machine"
  by (simp add: new_virtual_machine_def initialize_reader_def initialize_writer_def new_default_reader_def
      new_default_writer_def sample_machine_def Let_def)

lemma sample_data_wire: "wire_ok (OutData sample_data)" "length (out_body (OutData sample_data)) = 28"
proof -
  have rep: "sn_representable (sn_of_value 2)"
    using sn_valid_representable[OF sn_of_value_valid[of 2]] by (simp add: in_int64_def)
  have "par_list_ok []" by (simp add: par_list_ok_def)
  then show "wire_ok (OutData sample_data)"
    using rep by (auto simp: sample_data_def plain_data_def d_ok_def d_new_def d_of_base_def submessage_base.defs
        sb_of_kind_def sb_of_header_def sh_of_flags_def sh_new_def in_int16_def sp_default_def sp_writable_def)
  show "length (out_body (OutData sample_data)) = 28"
    by (simp add: sample_data_def d_head_enc_def d_new_def d_of_base_def submessage_base.defs ei_enc_def
        ei_unknown_def sn_enc_length)
qed

lemma sample_fits:
  assumes "wire_ok m" "length (out_body m) \<le> 1000"
  shows "fits (ms_new gp_unknown 1500) [m]"
proof -
  have g: "gp_ok gp_unknown" by simp
  show ?thesis
    using assms wire_bytes_length[of m] datagram_prefix_length[OF g]
    by (simp add: fits_def ms_new_def message_bytes_def)
qed

definition sample_loaded_writer :: stateful_writer where
  "sample_loaded_writer = (sample_writer Unsent)
     \<lparr> w_cache := [(sn_of_value 2, cc_new Alive sample_guid (sn_of_value 2) (Some sample_data) 0)] \<rparr>"


text \<open>A heartbeat or a GAP in a datagram stops the program of every machine with a stateless reader:
  the reader refuses it, the writer does not support it, and the assertion on the result fails.\<close>

theorem unsupported_submessage_stops:
  assumes "fits ms ss" "OutHeartbeat hb \<in> set ss \<or> OutGap gp \<in> set ss" "vm_reader vm = ReaderStateless r"
    and "\<forall>cs a q. dev cs a q = int (length cs)" "rc_verify (vm_receiver vm)" "rc_next (vm_receiver vm) = 0"
  shows "\<exists>D e. write_message ms dev ss l ds = (Inr RcOk, ds @ [(map Some D, loc_address l, loc_port l)])
    \<and> vm_receive_datagram clocks (ib_new D) vm = Some (Inl e)"
proof -
  obtain s where "s \<in> set (concat (map (received (ms_prefix ms)) ss))" "unsupported s"
    using assms(2) by (fastforce simp: unsupported_def)
  then have "\<exists>e. vm_dispatch clocks rc 0 (concat (map (received (ms_prefix ms)) ss))
      (vm_reader vm, vm_writer vm) = Some (Inl e)" for rc
    unfolding assms(3) by (rule vm_dispatch_unsupported)
  moreover have "ss \<noteq> []" using assms(2) by auto
  ultimately show ?thesis
    using vm_receive_stops[OF assms(1,5,6), of clocks] write_wire[OF assms(1), of dev l ds] assms(4)
    by (intro exI[of _ "datagram_of ms ss"]) auto
qed

theorem unsupported_submessage_stops_witness:
  "\<exists>D e. write_message (ms_new gp_unknown 1500) (\<lambda>cs a q. int (length cs)) [OutHeartbeat hb_new] loc_default []
     = (Inr RcOk, [(map Some D, loc_address loc_default, loc_port loc_default)])
   \<and> vm_receive_datagram (\<lambda>i. (0, 0, \<lambda>l. (0, 0))) (ib_new D) sample_machine = Some (Inl e)"
proof -
  have "fits (ms_new gp_unknown 1500) [OutHeartbeat hb_new]"
    by (rule sample_fits) (simp_all add: sample_heartbeat del: wire_ok.simps out_body.simps)
  moreover have "rc_verify (vm_receiver sample_machine)" "rc_next (vm_receiver sample_machine) = 0"
    by (simp_all add: sample_machine_def rc_new_def Let_def)
  moreover have "vm_reader sample_machine = ReaderStateless
      (rr_set_message_sender (Some (vm_sender sample_machine)) (rr_new sample_guid Reliable))"
    by (simp add: sample_machine_def Let_def)
  ultimately show ?thesis
    using unsupported_submessage_stops[of "ms_new gp_unknown 1500" "[OutHeartbeat hb_new]" hb_new undefined
        sample_machine _ "\<lambda>cs a q. int (length cs)" loc_default "[]" "\<lambda>i. (0, 0, \<lambda>l. (0, 0))"]
    by simp
qed

text \<open>A submessage the endpoint it is meant for does not know the sender of.\<close>

lemma vm_process_unmatched:
  shows "vm_reader vm = ReaderStateful r \<Longrightarrow> sr_matched_writer_lookup (guid_new (rc_source_prefix rc) (d_writer d)) r = None \<Longrightarrow>
      \<exists>e. vm_process clock rc (SubData d) (vm_reader vm, w) = Some (Inl e)"
    and "vm_writer vm = WriterStateful q \<Longrightarrow> \<not> om_member guid_less (guid_new (rc_dest_prefix rc) (an_writer an)) (sw_readers q) \<Longrightarrow>
      \<exists>e. vm_process clock rc (SubAckNack an) (r', vm_writer vm) = Some (Inl e)"
proof -
  show "\<exists>e. vm_process clock rc (SubData d) (vm_reader vm, w) = Some (Inl e)"
    if "vm_reader vm = ReaderStateful r" "sr_matched_writer_lookup (guid_new (rc_source_prefix rc) (d_writer d)) r = None"
    using that by (auto simp: vm_process_def vmr_receive_def vmw_receive_def sr_receive_data_def res_simps split: sum.splits)
  show "\<exists>e. vm_process clock rc (SubAckNack an) (r', vm_writer vm) = Some (Inl e)"
    if "vm_writer vm = WriterStateful q" "\<not> om_member guid_less (guid_new (rc_dest_prefix rc) (an_writer an)) (sw_readers q)"
  proof -
    have "writer_ack_nack clock rc an (WriterStateful q) = Inr (False, WriterStateful q)"
      using that(2) by (cases clock) (simp add: sw_receive_ack_nack_def Let_def)
    then show ?thesis
      using that(1) by (auto simp: vm_process_def vmr_receive_def vmw_receive_def res_simps split: sum.splits)
  qed
qed

text \<open>C35: An application payload can stop the program of a machine with a stateless reader: when the
  octets of the payload are those of submessages with a heartbeat or a GAP among them, the receiver
  parses them as submessages of the datagram and the dispatch fails.\<close>

theorem payload_stops_machine:
  assumes "loaded_data d (concat (map wire_bytes ss))" "\<forall>m \<in> set ss. wire_ok m" "gp_ok (ms_prefix ms)"
    and "bs = message_bytes (ms_prefix ms) [loaded_bytes d (concat (map wire_bytes ss))]"
    and "int (length bs) + 8 < ms_datagram_size ms" "ms_datagram_size ms < 2147483648"
    and "\<forall>cs a q. dev cs a q = int (length cs)" "rc_verify (vm_receiver vm)" "rc_next (vm_receiver vm) = 0"
    and "OutHeartbeat hb \<in> set ss \<or> OutGap gp \<in> set ss" "vm_reader vm = ReaderStateless r"
  shows "\<exists>D e. write_message ms dev [OutData d] l ds = (Inr RcOk, ds @ [(map Some D, loc_address l, loc_port l)])
    \<and> vm_receive_datagram clocks (ib_new D) vm = Some (Inl e)"
proof -
  obtain D r1 rc' d' where D: "write_message ms dev [OutData d] l ds =
      (Inr RcOk, ds @ [(map Some D, loc_address l, loc_port l)])" "read_de (ib_new D) = Inr (de_new 0, r1)"
    "parse_datagram (guid_prefix_of (vm_guid vm)) (vm_receiver vm) r1 = Some (Inr (False, rc'))"
    "rc_list rc' = SubData d' # concat (map (received (ms_prefix ms)) ss)"
    using loaded_message_parsed[OF assms(1-9), of l ds "guid_prefix_of (vm_guid vm)"] by blast
  obtain s where "s \<in> set (rc_list rc')" "unsupported s"
    using assms(10) unfolding D(4) by (fastforce simp: unsupported_def)
  then obtain e where "vm_dispatch clocks rc' 0 (rc_list rc') (vm_reader vm, vm_writer vm) = Some (Inl e)"
    using vm_dispatch_unsupported unfolding assms(11) by blast
  then show ?thesis using D(1-3) by (auto simp: vm_receive_datagram_def)
qed

theorem payload_stops_machine_witness:
  "\<exists>D e. write_message (ms_new gp_unknown 1500) (\<lambda>cs a q. int (length cs)) [OutData sample_loaded_data] loc_default []
     = (Inr RcOk, [(map Some D, loc_address loc_default, loc_port loc_default)])
   \<and> vm_receive_datagram (\<lambda>i. (0, 0, \<lambda>l. (0, 0))) (ib_new D) sample_machine = Some (Inl e)"
  using payload_stops_machine[OF sample_loaded(1-3) refl sample_loaded(4,5), where vm = sample_machine
      and dev = "\<lambda>cs a q. int (length cs)" and hb = hb_new and l = loc_default and ds = "[]"
      and clocks = "\<lambda>i. (0, 0, \<lambda>l. (0, 0))"]
  by (fastforce simp: sample_machine_def rc_new_def Let_def)

text \<open>A submessage whose sender the endpoint does not know stops the program too: data from a writer
  a stateful reader is not matched with, and an acknowledgement whenever no matched reader of a stateful
  writer has the writer id of the ACKNACK together with the prefix of the machine itself, whatever reader
  sent it.\<close>

theorem unmatched_submessage_stops:
  assumes "fits ms [m]" "\<forall>cs a q. dev cs a q = int (length cs)" "rc_verify (vm_receiver vm)" "rc_next (vm_receiver vm) = 0"
    and "(\<exists>d r. m = OutData d \<and> vm_reader vm = ReaderStateful r
            \<and> sr_matched_writer_lookup (guid_new (ms_prefix ms) (d_writer d)) r = None)
       \<or> (\<exists>an w. m = OutAckNack an \<and> vm_writer vm = WriterStateful w
            \<and> \<not> om_member guid_less (guid_new (guid_prefix_of (vm_guid vm)) (an_writer an)) (sw_readers w))"
  shows "\<exists>D e. write_message ms dev [m] l ds = (Inr RcOk, ds @ [(map Some D, loc_address l, loc_port l)])
    \<and> vm_receive_datagram clocks (ib_new D) vm = Some (Inl e)"
proof -
  obtain rc where rc: "vm_receive_datagram clocks (ib_new (datagram_of ms [m])) vm =
      map_option (\<lambda>out. rbind out (\<lambda>(r, w).
          Inr (True, vm\<lparr> vm_receiver := rc, vm_reader := r, vm_writer := w \<rparr>)))
        (vm_dispatch clocks rc 0 (received (ms_prefix ms) m) (vm_reader vm, vm_writer vm))"
    "rc_source_prefix rc = ms_prefix ms" "rc_dest_prefix rc = guid_prefix_of (vm_guid vm)"
    using vm_receive_wire[OF assms(1,3,4), of clocks] by auto
  have same: "d_writer (arrived g h d \<lparr> d_inline_qos := [], d_payload := p \<rparr>) = d_writer d"
    "an_writer (arrived g h an) = an_writer an" for g h d p and an :: rtps_ack_nack
    by (simp_all add: arrived_def)
  have "\<exists>e. vm_dispatch clocks rc 0 (received (ms_prefix ms) m) (vm_reader vm, vm_writer vm) = Some (Inl e)"
    using assms(5)
  proof
    assume "\<exists>d r. m = OutData d \<and> vm_reader vm = ReaderStateful r
      \<and> sr_matched_writer_lookup (guid_new (ms_prefix ms) (d_writer d)) r = None"
    then obtain d r where m: "m = OutData d" "vm_reader vm = ReaderStateful r"
      "sr_matched_writer_lookup (guid_new (ms_prefix ms) (d_writer d)) r = None" by blast
    let ?d = "arrived_data (ms_prefix ms) d"
    obtain e where "vm_process (clocks 0) rc (SubData ?d) (vm_reader vm, vm_writer vm) = Some (Inl e)"
      using vm_process_unmatched(1)[OF m(2), of rc ?d "clocks 0" "vm_writer vm"] m(3) rc(2) by auto
    then show ?thesis by (simp add: m(1) arrived_data_def)
  next
    assume "\<exists>an w. m = OutAckNack an \<and> vm_writer vm = WriterStateful w
      \<and> \<not> om_member guid_less (guid_new (guid_prefix_of (vm_guid vm)) (an_writer an)) (sw_readers w)"
    then obtain an w where m: "m = OutAckNack an" "vm_writer vm = WriterStateful w"
      "\<not> om_member guid_less (guid_new (guid_prefix_of (vm_guid vm)) (an_writer an)) (sw_readers w)" by blast
    let ?a = "arrived (ms_prefix ms) (out_header (OutAckNack an)) an"
    obtain e where "vm_process (clocks 0) rc (SubAckNack ?a) (vm_reader vm, vm_writer vm) = Some (Inl e)"
      using vm_process_unmatched(2)[OF m(2), of rc ?a "clocks 0" "vm_reader vm"] m(3) unfolding rc(3) same(2) by blast
    then show ?thesis by (simp add: m(1))
  qed
  then show ?thesis
    using rc(1) write_wire[OF assms(1), of dev l ds] assms(2) by (intro exI[of _ "datagram_of ms [m]"]) auto
qed

theorem unmatched_submessage_stops_witness:
  "\<exists>D e. write_message (ms_new gp_unknown 1500) (\<lambda>cs a q. int (length cs)) [OutData sample_data] loc_default []
     = (Inr RcOk, [(map Some D, loc_address loc_default, loc_port loc_default)])
   \<and> vm_receive_datagram (\<lambda>i. (0, 0, \<lambda>l. (0, 0))) (ib_new D)
       (sample_machine\<lparr> vm_reader := ReaderStateful (sr_new 0 sample_guid Reliable) \<rparr>) = Some (Inl e)"
proof -
  let ?vm = "sample_machine\<lparr> vm_reader := ReaderStateful (sr_new 0 sample_guid Reliable) \<rparr>"
  have "fits (ms_new gp_unknown 1500) [OutData sample_data]"
    by (rule sample_fits) (simp_all add: sample_data_wire del: wire_ok.simps out_body.simps)
  moreover have "rc_verify (vm_receiver ?vm)" "rc_next (vm_receiver ?vm) = 0"
    by (simp_all add: sample_machine_def rc_new_def Let_def)
  moreover have "sr_matched_writer_lookup g (sr_new 0 sample_guid Reliable) = None" for g
    by (simp add: sr_matched_writer_lookup_def sr_new_def rtps_reader.defs)
  ultimately show ?thesis
    using unmatched_submessage_stops[of "ms_new gp_unknown 1500" "OutData sample_data" "\<lambda>cs a q. int (length cs)"
        ?vm loc_default "[]" "\<lambda>i. (0, 0, \<lambda>l. (0, 0))"] by simp
qed

end
