(* ===== verification/Ring_Buffer.thy ===== *)
theory Ring_Buffer
  imports Prelude
begin

text \<open>
  \<open>BaseLib/Collection/RingBufferQueue\<close>: the buffer of \<open>RingBufferQueueState\<close> and the queue around it
  with its policy. The element type is a parameter; \<open>dflt\<close> is the value \<open>T()\<close> has. The calls a queue
  makes to its \<open>FlowStatus\<close> are kept in order. An operation that waits gives up the lock: \<open>env\<close> is
  what the other threads do to the queue meanwhile.
\<close>

section \<open>RingBufferQueueState\<close>

record 'a ring =
  rb_cells :: "'a list"
  rb_front :: int
  rb_rear :: int
  rb_length :: int

definition rb_new :: "'a \<Rightarrow> int \<Rightarrow> 'a ring" where
  "rb_new dflt capacity =
     \<lparr> rb_cells = replicate (nat (max capacity 1)) dflt, rb_front = 0, rb_rear = 0, rb_length = 0 \<rparr>"

definition clear_and_initialize :: "'a \<Rightarrow> int \<Rightarrow> 'a ring \<Rightarrow> 'a ring" where
  "clear_and_initialize dflt capacity r =
     r\<lparr> rb_cells := replicate (nat (max capacity 1)) dflt, rb_front := 0, rb_rear := 0, rb_length := 0 \<rparr>"

text \<open>The remainder of C++, and access to a cell by an index that is converted to \<open>size_t\<close>.\<close>

definition c_rem :: "int \<Rightarrow> int \<Rightarrow> int res" where
  "c_rem a b = (if b = 0 then Inl UndefinedBehaviour else Inr (sgn a * (\<bar>a\<bar> mod \<bar>b\<bar>)))"

definition rb_cell :: "int \<Rightarrow> 'a ring \<Rightarrow> 'a res" where
  "rb_cell i r = (if 0 \<le> i \<and> i < int (length (rb_cells r)) then Inr (rb_cells r ! nat i)
                  else Inl UndefinedBehaviour)"

definition rb_store :: "int \<Rightarrow> 'a \<Rightarrow> 'a ring \<Rightarrow> 'a ring res" where
  "rb_store i x r = (if 0 \<le> i \<and> i < int (length (rb_cells r))
     then Inr (r\<lparr> rb_cells := (rb_cells r)[nat i := x] \<rparr>) else Inl UndefinedBehaviour)"

definition rb_remaining :: "int \<Rightarrow> 'a ring \<Rightarrow> int" where
  "rb_remaining capacity r = wrap32 (capacity - rb_length r)"

definition rb_queue_size :: "int \<Rightarrow> 'a ring \<Rightarrow> int" where
  "rb_queue_size capacity r = wrap32 (capacity - rb_remaining capacity r)"

definition rb_is_empty :: "int \<Rightarrow> 'a ring \<Rightarrow> bool" where
  "rb_is_empty capacity r \<longleftrightarrow> rb_remaining capacity r = 0"

definition rb_is_capacity :: "bool \<Rightarrow> int \<Rightarrow> 'a ring \<Rightarrow> bool" where
  "rb_is_capacity overwrite capacity r = (if \<not> overwrite then 0 < rb_remaining capacity r else True)"

definition rb_is_capacity_for :: "int \<Rightarrow> bool \<Rightarrow> int \<Rightarrow> 'a ring \<Rightarrow> bool" where
  "rb_is_capacity_for n overwrite capacity r =
     (if \<not> overwrite then n \<le> rb_remaining capacity r \<and> n \<le> capacity else True)"

definition rb_buffer_position :: "int \<Rightarrow> int \<Rightarrow> 'a ring \<Rightarrow> int res" where
  "rb_buffer_position position capacity r = c_rem (wrap32 (rb_rear r + position)) capacity"

definition rb_is_data_at :: "int \<Rightarrow> int \<Rightarrow> 'a ring \<Rightarrow> bool res" where
  "rb_is_data_at position capacity r =
     rbind (rb_buffer_position position capacity r) (\<lambda>real. Inr (rb_queue_size capacity r \<le> real))"

definition rb_is_num_in_queue :: "int \<Rightarrow> int \<Rightarrow> 'a ring \<Rightarrow> bool" where
  "rb_is_num_in_queue n capacity r \<longleftrightarrow> 0 \<le> n \<and> n \<le> rb_queue_size capacity r"

definition move_front :: "int \<Rightarrow> int \<Rightarrow> 'a ring \<Rightarrow> 'a ring res" where
  "move_front n capacity r =
     rbind (c_rem (wrap32 (rb_front r + n)) capacity) (\<lambda>front.
       let r' = r\<lparr> rb_front := front, rb_length := wrap32 (rb_length r - n) \<rparr>
       in asserting (0 \<le> rb_length r') (Inr r'))"

definition move_rear :: "int \<Rightarrow> int \<Rightarrow> bool \<Rightarrow> 'a ring \<Rightarrow> 'a ring res" where
  "move_rear n capacity overwrite r =
     rbind (c_rem (wrap32 (rb_rear r + n)) capacity) (\<lambda>rear.
       let r' = r\<lparr> rb_rear := rear, rb_length := wrap32 (rb_length r + n) \<rparr>
       in if overwrite \<and> rb_rear r' = rb_front r' then move_front 1 capacity r' else Inr r')"

definition rb_enqueue :: "'a \<Rightarrow> bool \<Rightarrow> int \<Rightarrow> 'a ring \<Rightarrow> (bool \<times> 'a ring) res" where
  "rb_enqueue x overwrite capacity r =
     (if \<not> rb_is_capacity overwrite capacity r then Inr (False, r)
      else rbind (rb_store (rb_rear r) x r) (\<lambda>r1.
           rbind (move_rear 1 capacity overwrite r1) (\<lambda>r2. Inr (True, r2))))"

text \<open>The element goes into a reference that is left alone when there is none: the result is \<open>None\<close> then.\<close>

definition rb_dequeue :: "int \<Rightarrow> 'a ring \<Rightarrow> ('a option \<times> 'a ring) res" where
  "rb_dequeue capacity r =
     (if rb_is_empty capacity r then Inr (None, r)
      else rbind (rb_cell (rb_front r) r) (\<lambda>x.
           rbind (move_front 1 capacity r) (\<lambda>r'. Inr (Some x, r'))))"

definition rb_pop :: "int \<Rightarrow> int \<Rightarrow> 'a ring \<Rightarrow> (bool \<times> 'a ring) res" where
  "rb_pop n capacity r =
     (if rb_queue_size capacity r < n then Inr (False, r)
      else rbind (move_front n capacity r) (\<lambda>r'. Inr (True, r')))"

definition rb_peek :: "int \<Rightarrow> int \<Rightarrow> 'a ring \<Rightarrow> 'a option res" where
  "rb_peek position capacity r =
     rbind (rb_is_data_at position capacity r) (\<lambda>data.
       if \<not> data then Inr None
       else rbind (rb_buffer_position position capacity r) (\<lambda>real.
            asserting (real \<le> capacity) (rbind (rb_cell real r) (\<lambda>x. Inr (Some x)))))"

section \<open>RingBufferQueue\<close>

record ring_policy =
  rp_capacity :: int
  rp_overwrite :: bool

definition policy_default :: ring_policy where
  "policy_default = \<lparr> rp_capacity = 1, rp_overwrite = False \<rparr>"

definition policy_overwrite :: "int \<Rightarrow> ring_policy" where
  "policy_overwrite capacity = \<lparr> rp_capacity = capacity, rp_overwrite = True \<rparr>"

definition policy_limited_to :: "int \<Rightarrow> ring_policy" where
  "policy_limited_to capacity = \<lparr> rp_capacity = capacity, rp_overwrite = False \<rparr>"

datatype flow_call = CallEnqueue int | CallDequeue int | CallReject int | CallFilter int

record 'a ring_queue =
  rq_policy :: ring_policy
  rq_ring :: "'a ring"
  rq_calls :: "flow_call list"

definition rq_limit :: "'a ring_queue \<Rightarrow> int" where
  "rq_limit q = rp_capacity (rq_policy q)"

definition rq_is_overwrite :: "'a ring_queue \<Rightarrow> bool" where
  "rq_is_overwrite q = rp_overwrite (rq_policy q)"

definition rq_new :: "'a \<Rightarrow> ring_policy \<Rightarrow> 'a ring_queue" where
  "rq_new dflt policy = \<lparr> rq_policy = policy, rq_ring = rb_new dflt (rp_capacity policy), rq_calls = [] \<rparr>"

definition flow_call :: "flow_call \<Rightarrow> 'a ring_queue \<Rightarrow> 'a ring_queue" where
  "flow_call c q = q\<lparr> rq_calls := rq_calls q @ [c] \<rparr>"

definition rq_size :: "'a ring_queue \<Rightarrow> int" where
  "rq_size q = rb_queue_size (rq_limit q) (rq_ring q)"

definition rq_has_capacity :: "int \<Rightarrow> 'a ring_queue \<Rightarrow> bool" where
  "rq_has_capacity n q = rb_is_capacity_for n (rq_is_overwrite q) (rq_limit q) (rq_ring q)"

definition rq_data_at :: "int \<Rightarrow> 'a ring_queue \<Rightarrow> bool res" where
  "rq_data_at position q = rb_is_data_at position (rq_limit q) (rq_ring q)"

definition rq_enqueue :: "'a \<Rightarrow> 'a ring_queue \<Rightarrow> (bool \<times> 'a ring_queue) res" where
  "rq_enqueue x q =
     rbind (rb_enqueue x (rq_is_overwrite q) (rq_limit q) (rq_ring q)) (\<lambda>(enqueued, r).
       let q1 = q\<lparr> rq_ring := r \<rparr> in
       Inr (enqueued, flow_call (if enqueued then CallEnqueue 1 else CallReject 1) q1))"

definition rq_enqueue_loop :: "'a list \<Rightarrow> 'a ring_queue \<Rightarrow> 'a ring_queue res" where
  "rq_enqueue_loop = rfold (\<lambda>x q. rbind (rq_enqueue x q) (\<lambda>(enqueued, q'). asserting enqueued (Inr q')))"

definition rq_enqueue_all :: "'a list \<Rightarrow> 'a ring_queue \<Rightarrow> (bool \<times> 'a ring_queue) res" where
  "rq_enqueue_all xs q =
     (if \<not> rq_has_capacity (wrap32 (int (length xs))) q then Inr (False, q)
      else rbind (rq_enqueue_loop xs q) (\<lambda>q'. Inr (True, q')))"

definition rq_dequeue :: "'a \<Rightarrow> 'a ring_queue \<Rightarrow> ('a \<times> 'a ring_queue) res" where
  "rq_dequeue dflt q =
     rbind (rb_dequeue (rq_limit q) (rq_ring q)) (\<lambda>(out, r).
       let q1 = q\<lparr> rq_ring := r \<rparr> in
       Inr (case out of None \<Rightarrow> (dflt, flow_call (CallReject 1) q1)
                      | Some x \<Rightarrow> (x, flow_call (CallDequeue 1) q1)))"

text \<open>The loop that takes elements while there are some.\<close>

fun take_loop :: "('s \<Rightarrow> int) \<Rightarrow> ('s \<Rightarrow> ('a \<times> 's) res) \<Rightarrow> nat \<Rightarrow> 's \<Rightarrow> ('a list \<times> 's) res" where
  "take_loop occupied one 0 s = Inr ([], s)"
| "take_loop occupied one (Suc n) s =
     (if \<not> 0 < occupied s then Inr ([], s)
      else rbind (one s) (\<lambda>(x, s1). rbind (take_loop occupied one n s1) (\<lambda>(xs, s2). Inr (x # xs, s2))))"

definition rq_dequeue_loop :: "'a \<Rightarrow> nat \<Rightarrow> 'a ring_queue \<Rightarrow> ('a list \<times> 'a ring_queue) res" where
  "rq_dequeue_loop dflt = take_loop rq_size (rq_dequeue dflt)"

definition rq_dequeue_some :: "'a \<Rightarrow> int \<Rightarrow> 'a ring_queue \<Rightarrow> (bool \<times> 'a list \<times> 'a ring_queue) res" where
  "rq_dequeue_some dflt n q =
     (if n \<le> 0 \<or> rq_size q < n then Inr (False, [], q)
      else rbind (rq_dequeue_loop dflt (nat n) q) (\<lambda>(xs, q'). Inr (True, xs, q')))"

text \<open>The waits: no wait is made when the condition holds, and the result tells whether it holds after it.\<close>

definition rq_wait_for_capacity ::
  "('a ring_queue \<Rightarrow> 'a ring_queue) \<Rightarrow> int \<Rightarrow> 'a ring_queue \<Rightarrow> bool \<times> 'a ring_queue" where
  "rq_wait_for_capacity env n q =
     (if n < 0 then (False, q)
      else let q' = (if rq_has_capacity n q then q else env q) in (rq_has_capacity n q', q'))"

definition rq_wait_for_data ::
  "('a ring_queue \<Rightarrow> 'a ring_queue) \<Rightarrow> int \<Rightarrow> 'a ring_queue \<Rightarrow> bool \<times> 'a ring_queue" where
  "rq_wait_for_data env n q =
     (if n < 0 then (False, q)
      else let q' = (if n \<le> rq_size q then q else env q) in (n \<le> rq_size q', q'))"

definition rq_wait_for_data_at ::
  "('a ring_queue \<Rightarrow> 'a ring_queue) \<Rightarrow> int \<Rightarrow> 'a ring_queue \<Rightarrow> (bool \<times> 'a ring_queue) res" where
  "rq_wait_for_data_at env position q =
     (if position < 0 then Inr (False, q)
      else rbind (rq_data_at position q) (\<lambda>data.
             let q' = (if data then q else env q) in
             rbind (rq_data_at position q') (\<lambda>data'. Inr (data', q'))))"

text \<open>The public operations.\<close>

definition rq_try_enqueue :: "'a \<Rightarrow> 'a ring_queue \<Rightarrow> (bool \<times> 'a ring_queue) res" where
  "rq_try_enqueue x q = rq_enqueue x q"

definition rq_enqueue_wait ::
  "('a ring_queue \<Rightarrow> 'a ring_queue) \<Rightarrow> 'a \<Rightarrow> 'a ring_queue \<Rightarrow> (bool \<times> 'a ring_queue) res" where
  "rq_enqueue_wait env x q = rq_enqueue x (snd (rq_wait_for_capacity env 1 q))"

definition rq_enqueue_all_wait ::
  "('a ring_queue \<Rightarrow> 'a ring_queue) \<Rightarrow> 'a list \<Rightarrow> 'a ring_queue \<Rightarrow> (bool \<times> 'a ring_queue) res" where
  "rq_enqueue_all_wait env xs q =
     rq_enqueue_all xs (snd (rq_wait_for_capacity env (wrap32 (int (length xs))) q))"

definition rq_dequeue_wait ::
  "'a \<Rightarrow> ('a ring_queue \<Rightarrow> 'a ring_queue) \<Rightarrow> 'a ring_queue \<Rightarrow> ('a \<times> 'a ring_queue) res" where
  "rq_dequeue_wait dflt env q = rq_dequeue dflt (snd (rq_wait_for_data env 1 q))"

definition rq_dequeue_n ::
  "'a \<Rightarrow> ('a ring_queue \<Rightarrow> 'a ring_queue) \<Rightarrow> int \<Rightarrow> 'a ring_queue \<Rightarrow> ('a list \<times> 'a ring_queue) res" where
  "rq_dequeue_n dflt env n q =
     (if n \<le> 0 then Inr ([], q)
      else rbind (rq_dequeue_some dflt n (snd (rq_wait_for_data env n q))) (\<lambda>(dequeued, xs, q').
             asserting dequeued (Inr (xs, q'))))"

definition rq_dequeue_all ::
  "'a \<Rightarrow> ('a ring_queue \<Rightarrow> 'a ring_queue) \<Rightarrow> 'a ring_queue \<Rightarrow> ('a list \<times> 'a ring_queue) res" where
  "rq_dequeue_all dflt env q = rq_dequeue_n dflt env (rq_size q) q"

definition rq_dequeue_upto ::
  "'a \<Rightarrow> ('a ring_queue \<Rightarrow> 'a ring_queue) \<Rightarrow> int \<Rightarrow> 'a ring_queue \<Rightarrow> ('a list \<times> 'a ring_queue) res" where
  "rq_dequeue_upto dflt env n q = rq_dequeue_n dflt env (min (rq_size q) n) q"

definition rq_peek_at :: "'a \<Rightarrow> int \<Rightarrow> 'a ring_queue \<Rightarrow> 'a res" where
  "rq_peek_at dflt position q =
     rbind (rb_peek position (rq_limit q) (rq_ring q)) (\<lambda>out.
       Inr (case out of None \<Rightarrow> dflt | Some x \<Rightarrow> x))"

definition rq_peek ::
  "'a \<Rightarrow> ('a ring_queue \<Rightarrow> 'a ring_queue) \<Rightarrow> 'a ring_queue \<Rightarrow> ('a \<times> 'a ring_queue) res" where
  "rq_peek dflt env q =
     rbind (rq_wait_for_data_at env 1 q) (\<lambda>(data, q').
       if \<not> data then Inr (dflt, q') else rbind (rq_peek_at dflt 1 q') (\<lambda>x. Inr (x, q')))"

fun rq_peek_loop :: "'a \<Rightarrow> nat \<Rightarrow> int \<Rightarrow> 'a ring_queue \<Rightarrow> 'a list res" where
  "rq_peek_loop dflt 0 position q = Inr []"
| "rq_peek_loop dflt (Suc n) position q =
     rbind (rq_data_at position q) (\<lambda>data. asserting data
       (rbind (rq_peek_at dflt position q) (\<lambda>x.
        rbind (c_rem (wrap32 (position + 1)) (rq_limit q)) (\<lambda>position'.
        rbind (rq_peek_loop dflt n position' q) (\<lambda>xs. Inr (x # xs))))))"

definition rq_peek_some :: "'a \<Rightarrow> int \<Rightarrow> 'a ring_queue \<Rightarrow> (bool \<times> 'a list) res" where
  "rq_peek_some dflt n q =
     (if \<not> rb_is_num_in_queue n (rq_limit q) (rq_ring q) then Inr (False, [])
      else rbind (rq_peek_loop dflt (nat n) 0 q) (\<lambda>xs. Inr (True, xs)))"

definition rq_peek_n ::
  "'a \<Rightarrow> ('a ring_queue \<Rightarrow> 'a ring_queue) \<Rightarrow> int \<Rightarrow> 'a ring_queue \<Rightarrow> ('a list \<times> 'a ring_queue) res" where
  "rq_peek_n dflt env n q =
     (if n \<le> 0 then Inr ([], q)
      else let q' = snd (rq_wait_for_data env n q) in
           rbind (rq_peek_some dflt n q') (\<lambda>(peeked, xs). asserting peeked (Inr (xs, q'))))"

definition rq_peek_all ::
  "'a \<Rightarrow> ('a ring_queue \<Rightarrow> 'a ring_queue) \<Rightarrow> 'a ring_queue \<Rightarrow> ('a list \<times> 'a ring_queue) res" where
  "rq_peek_all dflt env q = rq_peek_n dflt env (rq_size q) q"

definition rq_pop :: "int \<Rightarrow> 'a ring_queue \<Rightarrow> (bool \<times> 'a ring_queue) res" where
  "rq_pop n q = rbind (rb_pop n (rq_limit q) (rq_ring q)) (\<lambda>(popped, r). Inr (popped, q\<lparr> rq_ring := r \<rparr>))"

definition rq_is_empty :: "'a ring_queue \<Rightarrow> bool" where
  "rq_is_empty q = rb_is_empty (rq_limit q) (rq_ring q)"

definition rq_is_full :: "'a ring_queue \<Rightarrow> bool" where
  "rq_is_full q = (\<not> rb_is_capacity (rq_is_overwrite q) (rq_limit q) (rq_ring q))"

definition rq_clear :: "'a \<Rightarrow> 'a ring_queue \<Rightarrow> 'a ring_queue" where
  "rq_clear dflt q = q\<lparr> rq_ring := clear_and_initialize dflt (rq_limit q) (rq_ring q) \<rparr>"

section \<open>The buffer and its contents\<close>

definition rb_ok :: "int \<Rightarrow> 'a ring \<Rightarrow> bool" where
  "rb_ok capacity r \<longleftrightarrow> 0 < capacity \<and> capacity < 1073741824 \<and> int (length (rb_cells r)) = capacity
     \<and> 0 \<le> rb_front r \<and> rb_front r < capacity \<and> 0 \<le> rb_length r \<and> rb_length r \<le> capacity
     \<and> rb_rear r = (rb_front r + rb_length r) mod capacity"

definition rb_slot :: "int \<Rightarrow> 'a ring \<Rightarrow> int \<Rightarrow> 'a" where
  "rb_slot capacity r i = rb_cells r ! nat ((rb_front r + i) mod capacity)"

definition rb_contents :: "int \<Rightarrow> 'a ring \<Rightarrow> 'a list" where
  "rb_contents capacity r = map (rb_slot capacity r) [0 .. rb_length r - 1]"

lemma rb_ok_new: "0 < capacity \<Longrightarrow> capacity < 1073741824 \<Longrightarrow> rb_ok capacity (rb_new dflt capacity)"
  by (simp add: rb_ok_def rb_new_def)

lemma rb_contents_length: "0 \<le> rb_length r \<Longrightarrow> int (length (rb_contents capacity r)) = rb_length r"
  by (simp add: rb_contents_def)

lemma rb_contents_new [simp]: "rb_contents capacity (rb_new dflt capacity') = []"
  by (simp add: rb_contents_def rb_new_def)

lemma c_rem_mod: "0 \<le> a \<Longrightarrow> 0 < b \<Longrightarrow> c_rem a b = Inr (a mod b)"
  by (cases "a = 0") (simp_all add: c_rem_def)

lemma rb_ok_sizes:
  assumes "rb_ok capacity r"
  shows "rb_remaining capacity r = capacity - rb_length r" "rb_queue_size capacity r = rb_length r"
    "rb_is_empty capacity r \<longleftrightarrow> rb_length r = capacity" "0 \<le> rb_rear r" "rb_rear r < capacity"
  using assms by (auto simp: rb_ok_def rb_remaining_def rb_queue_size_def rb_is_empty_def in_int32_def)

lemma rb_ok_wraps:
  assumes "rb_ok capacity r"
  shows "wrap32 (rb_rear r + 1) = rb_rear r + 1" "wrap32 (rb_length r + 1) = rb_length r + 1"
proof -
  have "0 \<le> rb_rear r" "rb_rear r < capacity" "capacity < 1073741824" "0 \<le> rb_length r" "rb_length r \<le> capacity"
    using assms rb_ok_sizes(4,5)[OF assms] by (simp_all add: rb_ok_def)
  then have "in_int32 (rb_rear r + 1)" "in_int32 (rb_length r + 1)" by (simp_all add: in_int32_def)
  then show "wrap32 (rb_rear r + 1) = rb_rear r + 1" "wrap32 (rb_length r + 1) = rb_length r + 1" by simp_all
qed

text \<open>Two positions of the buffer differ when their distance is below the capacity.\<close>

lemma slot_distinct:
  fixes capacity :: int
  assumes "0 \<le> i" "i < j" "j - i < capacity"
  shows "(f + i) mod capacity \<noteq> (f + j) mod capacity"
proof
  assume "(f + i) mod capacity = (f + j) mod capacity"
  then have "capacity dvd (f + j) - (f + i)" by (metis mod_eq_dvd_iff)
  then show False using assms zdvd_not_zless[of "j - i" capacity] by auto
qed

lemma move_front_ok:
  assumes "rb_ok capacity r" "0 \<le> n" "n \<le> rb_length r"
  shows "\<exists>r'. move_front n capacity r = Inr r' \<and> rb_ok capacity r' \<and> rb_length r' = rb_length r - n
    \<and> rb_contents capacity r' = drop (nat n) (rb_contents capacity r)"
proof -
  let ?r = "r\<lparr> rb_front := (rb_front r + n) mod capacity, rb_length := rb_length r - n \<rparr>"
  have w: "wrap32 (rb_front r + n) = rb_front r + n" "wrap32 (rb_length r - n) = rb_length r - n"
    using assms by (auto simp: rb_ok_def in_int32_def)
  have run: "move_front n capacity r = Inr ?r"
    using assms w by (simp add: move_front_def c_rem_mod rb_ok_def Let_def)
  have "((rb_front r + n) mod capacity + (rb_length r - n)) mod capacity = (rb_front r + rb_length r) mod capacity"
    by (simp add: mod_add_left_eq)
  then have ok: "rb_ok capacity ?r" using assms by (simp add: rb_ok_def)
  have slot: "rb_slot capacity ?r i = rb_slot capacity r (n + i)" for i
    by (simp add: rb_slot_def mod_simps algebra_simps)
  have "[0 .. rb_length r - 1] = [0 .. n - 1] @ [n .. rb_length r - 1]"
    using assms upto_split2[of 0 "n - 1" "rb_length r - 1"] by (cases "n = 0") auto
  then have "drop (nat n) [0 .. rb_length r - 1] = [n .. rb_length r - 1]" using assms by simp
  then have "drop (nat n) (rb_contents capacity r) = map (rb_slot capacity r) [n .. rb_length r - 1]"
    by (simp add: rb_contents_def drop_map)
  also have "[n .. rb_length r - 1] = map ((+) n) [0 .. rb_length r - n - 1]"
    by (intro nth_equalityI) auto
  finally have "rb_contents capacity ?r = drop (nat n) (rb_contents capacity r)"
    by (simp add: rb_contents_def slot comp_def)
  then show ?thesis using run ok by auto
qed

text \<open>Storing behind the last element and moving the rear without reaching the front.\<close>

definition rb_pushed :: "'a \<Rightarrow> int \<Rightarrow> 'a ring \<Rightarrow> 'a ring" where
  "rb_pushed x capacity r = r\<lparr> rb_cells := (rb_cells r)[nat (rb_rear r) := x],
     rb_rear := (rb_rear r + 1) mod capacity, rb_length := rb_length r + 1 \<rparr>"

lemma rb_pushed_ok:
  assumes "rb_ok capacity r" "rb_length r < capacity"
  shows "rb_ok capacity (rb_pushed x capacity r)"
    and "rb_contents capacity (rb_pushed x capacity r) = rb_contents capacity r @ [x]"
proof -
  let ?r = "rb_pushed x capacity r"
  have rear: "rb_rear r = (rb_front r + rb_length r) mod capacity" and pos: "0 < capacity" "0 \<le> rb_length r"
    using assms(1) by (auto simp: rb_ok_def)
  have "(rb_rear r + 1) mod capacity = (rb_front r + (rb_length r + 1)) mod capacity"
    unfolding rear by (simp add: mod_add_left_eq add.assoc)
  then show "rb_ok capacity ?r" using assms by (simp add: rb_ok_def rb_pushed_def)
  have old: "rb_slot capacity ?r i = rb_slot capacity r i" if "i \<in> set [0 .. rb_length r - 1]" for i
  proof -
    have "(rb_front r + i) mod capacity \<noteq> rb_rear r"
      unfolding rear using that assms by (intro slot_distinct) (auto simp: rb_ok_def)
    moreover have "0 \<le> (rb_front r + i) mod capacity" "0 \<le> rb_rear r"
      using pos rb_ok_sizes(4)[OF assms(1)] by simp_all
    ultimately have "nat ((rb_front r + i) mod capacity) \<noteq> nat (rb_rear r)" by linarith
    then show ?thesis by (simp add: rb_slot_def rb_pushed_def)
  qed
  have new: "rb_slot capacity ?r (rb_length r) = x"
    using assms(1) rb_ok_sizes(5)[OF assms(1)] rb_ok_sizes(4)[OF assms(1)]
    by (simp add: rb_slot_def rb_pushed_def flip: rear) (simp add: rb_ok_def nat_less_iff)
  have "[0 .. rb_length r] = [0 .. rb_length r - 1] @ [rb_length r]"
    using pos upto_rec2[of 0 "rb_length r"] by simp
  then show "rb_contents capacity ?r = rb_contents capacity r @ [x]"
    using old new by (simp add: rb_contents_def) (simp add: rb_pushed_def)
qed

lemma store_ok:
  assumes "rb_ok capacity r"
  shows "rb_store (rb_rear r) x r = Inr (r\<lparr> rb_cells := (rb_cells r)[nat (rb_rear r) := x] \<rparr>)"
  using assms rb_ok_sizes(4,5)[OF assms] by (simp add: rb_store_def rb_ok_def)

lemma rear_is_front:
  assumes "rb_ok capacity r" "rb_length r < capacity"
  shows "(rb_rear r + 1) mod capacity = rb_front r \<longleftrightarrow> rb_length r = capacity - 1"
proof -
  have front: "rb_front r mod capacity = rb_front r" and len: "0 \<le> rb_length r" and pos: "0 < capacity"
    using assms(1) by (auto simp: rb_ok_def)
  have sum: "(rb_rear r + 1) mod capacity = (rb_front r + (rb_length r + 1)) mod capacity"
    using assms(1) by (simp add: rb_ok_def mod_add_left_eq add.assoc)
  show ?thesis
  proof
    assume "rb_length r = capacity - 1"
    then show "(rb_rear r + 1) mod capacity = rb_front r" unfolding sum using front by simp
  next
    assume eq: "(rb_rear r + 1) mod capacity = rb_front r"
    show "rb_length r = capacity - 1"
    proof (rule ccontr)
      assume "rb_length r \<noteq> capacity - 1"
      then have "(rb_front r + 0) mod capacity \<noteq> (rb_front r + (rb_length r + 1)) mod capacity"
        using assms(2) len by (intro slot_distinct) auto
      then show False using eq sum front by simp
    qed
  qed
qed

text \<open>Without overwriting: the element is appended unless the buffer is full.\<close>

lemma rb_enqueue_keep:
  assumes "rb_ok capacity r"
  shows "rb_length r < capacity \<Longrightarrow> \<exists>r'. rb_enqueue x False capacity r = Inr (True, r') \<and> rb_ok capacity r'
      \<and> rb_contents capacity r' = rb_contents capacity r @ [x] \<and> rb_length r' = rb_length r + 1"
    and "rb_length r = capacity \<Longrightarrow> rb_enqueue x False capacity r = Inr (False, r)"
proof -
  show "rb_enqueue x False capacity r = Inr (False, r)" if "rb_length r = capacity"
    using that rb_ok_sizes(1)[OF assms] by (simp add: rb_enqueue_def rb_is_capacity_def)
  assume len: "rb_length r < capacity"
  let ?s = "r\<lparr> rb_cells := (rb_cells r)[nat (rb_rear r) := x] \<rparr>"
  have "0 \<le> rb_rear r + 1" "0 < capacity" using assms rb_ok_sizes(4)[OF assms] by (simp_all add: rb_ok_def)
  then have "move_rear 1 capacity False ?s = Inr (rb_pushed x capacity r)"
    by (simp add: move_rear_def c_rem_mod rb_ok_wraps[OF assms] rb_pushed_def Let_def)
  then have "rb_enqueue x False capacity r = Inr (True, rb_pushed x capacity r)"
    using len rb_ok_sizes(1)[OF assms] store_ok[OF assms] by (simp add: rb_enqueue_def rb_is_capacity_def)
  then show "\<exists>r'. rb_enqueue x False capacity r = Inr (True, r') \<and> rb_ok capacity r'
      \<and> rb_contents capacity r' = rb_contents capacity r @ [x] \<and> rb_length r' = rb_length r + 1"
    using rb_pushed_ok[OF assms len] by (auto simp: rb_pushed_def)
qed

text \<open>With overwriting: as soon as all cells are taken the oldest element goes.\<close>

lemma rb_enqueue_overwrite:
  assumes "rb_ok capacity r" "rb_length r < capacity"
  shows "\<exists>r'. rb_enqueue x True capacity r = Inr (True, r') \<and> rb_ok capacity r' \<and> rb_length r' < capacity
    \<and> rb_contents capacity r' = (if rb_length r = capacity - 1 then tl (rb_contents capacity r @ [x])
                                  else rb_contents capacity r @ [x])"
proof -
  let ?s = "r\<lparr> rb_cells := (rb_cells r)[nat (rb_rear r) := x] \<rparr>" and ?p = "rb_pushed x capacity r"
  have "0 \<le> rb_rear r + 1" "0 < capacity" using assms(1) rb_ok_sizes(4)[OF assms(1)] by (simp_all add: rb_ok_def)
  then have step: "move_rear 1 capacity True ?s =
      (if rb_rear ?p = rb_front ?p then move_front 1 capacity ?p else Inr ?p)"
    by (simp add: move_rear_def c_rem_mod rb_ok_wraps[OF assms(1)] rb_pushed_def Let_def)
  have hit: "rb_rear ?p = rb_front ?p \<longleftrightarrow> rb_length r = capacity - 1"
    using rear_is_front[OF assms] by (simp add: rb_pushed_def)
  have run: "rb_enqueue x True capacity r = rbind (move_rear 1 capacity True ?s) (\<lambda>r2. Inr (True, r2))"
    using store_ok[OF assms(1)] by (simp add: rb_enqueue_def rb_is_capacity_def)
  show ?thesis
  proof (cases "rb_length r = capacity - 1")
    case True
    have "1 \<le> rb_length ?p" using assms(1) by (simp add: rb_pushed_def rb_ok_def)
    then obtain r' where "move_front 1 capacity ?p = Inr r'" "rb_ok capacity r'" "rb_length r' = rb_length ?p - 1"
      "rb_contents capacity r' = drop (nat 1) (rb_contents capacity ?p)"
      using move_front_ok[OF rb_pushed_ok(1)[OF assms], of 1 x] by auto
    then show ?thesis
      using True hit step run rb_pushed_ok(2)[OF assms, of x] assms(2) by (simp add: drop_Suc rb_pushed_def)
  next
    case False
    then show ?thesis
      using hit step run rb_pushed_ok[OF assms, of x] assms(2) by (simp add: rb_pushed_def)
  qed
qed

text \<open>Taking: the first element of a buffer that is neither empty nor full.\<close>

lemma rb_contents_hd: "rb_ok capacity r \<Longrightarrow> 0 < rb_length r \<Longrightarrow> hd (rb_contents capacity r) = rb_cells r ! nat (rb_front r)"
  by (simp add: rb_contents_def rb_slot_def upto_rec1 rb_ok_def)

lemma rb_front_cell: "rb_ok capacity r \<Longrightarrow> rb_cell (rb_front r) r = Inr (rb_cells r ! nat (rb_front r))"
  by (simp add: rb_cell_def rb_ok_def)

lemma rb_dequeue_cases:
  assumes "rb_ok capacity r"
  shows "0 < rb_length r \<Longrightarrow> rb_length r < capacity \<Longrightarrow> \<exists>r'. rb_dequeue capacity r = Inr (Some (hd (rb_contents capacity r)), r')
      \<and> rb_ok capacity r' \<and> rb_contents capacity r' = tl (rb_contents capacity r)"
    and "rb_length r = capacity \<Longrightarrow> rb_dequeue capacity r = Inr (None, r)"
    and "rb_length r = 0 \<Longrightarrow> rb_dequeue capacity r = Inl AssertFailed"
proof -
  note empty = rb_ok_sizes(3)[OF assms]
  show "rb_dequeue capacity r = Inr (None, r)" if "rb_length r = capacity"
    using that empty by (simp add: rb_dequeue_def)
  show "rb_dequeue capacity r = Inl AssertFailed" if "rb_length r = 0"
  proof -
    have r: "0 < capacity" "0 \<le> rb_front r" "rb_front r < 1073741824" using assms by (auto simp: rb_ok_def)
    then have "wrap32 (rb_front r + 1) = rb_front r + 1" by (simp add: in_int32_def)
    moreover have "wrap32 (rb_length r - 1) = - 1" using that by (simp add: in_int32_def)
    ultimately have "move_front 1 capacity r = Inl AssertFailed"
      using r by (simp add: move_front_def c_rem_mod Let_def)
    then show ?thesis using that empty r(1) rb_front_cell[OF assms] by (simp add: rb_dequeue_def)
  qed
  assume len: "0 < rb_length r" "rb_length r < capacity"
  obtain r' where r': "move_front 1 capacity r = Inr r'" "rb_ok capacity r'"
    "rb_contents capacity r' = drop (nat 1) (rb_contents capacity r)"
    using move_front_ok[OF assms, of 1] len by auto
  then show "\<exists>r'. rb_dequeue capacity r = Inr (Some (hd (rb_contents capacity r)), r')
      \<and> rb_ok capacity r' \<and> rb_contents capacity r' = tl (rb_contents capacity r)"
    using len empty rb_front_cell[OF assms] rb_contents_hd[OF assms len(1)]
    by (simp add: rb_dequeue_def drop_Suc)
qed

section \<open>Bounded first-in first-out queues\<close>

text \<open>
  What the operations on several elements need of those on one: elements are put behind the last one
  while there is room and taken from the front while the queue is not full.
\<close>

locale bounded_fifo =
  fixes inv :: "'s \<Rightarrow> bool"
    and contents :: "'s \<Rightarrow> 'a list"
    and capacity :: int
    and occupied :: "'s \<Rightarrow> int"
    and put :: "'a \<Rightarrow> 's \<Rightarrow> (bool \<times> 's) res"
    and take_one :: "'s \<Rightarrow> ('a \<times> 's) res"
  assumes size_ok: "inv s \<Longrightarrow> occupied s = int (length (contents s))"
    and put_ok: "inv s \<Longrightarrow> int (length (contents s)) < capacity \<Longrightarrow>
      \<exists>s'. put x s = Inr (True, s') \<and> inv s' \<and> contents s' = contents s @ [x]"
    and take_ok: "inv s \<Longrightarrow> contents s \<noteq> [] \<Longrightarrow> int (length (contents s)) < capacity \<Longrightarrow>
      \<exists>s'. take_one s = Inr (hd (contents s), s') \<and> inv s' \<and> contents s' = tl (contents s)"
begin

lemma put_all:
  assumes "inv s" "int (length (contents s)) + int (length xs) \<le> capacity"
  shows "\<exists>s'. rfold (\<lambda>x s. rbind (put x s) (\<lambda>(b, s'). asserting b (Inr s'))) xs s = Inr s'
    \<and> inv s' \<and> contents s' = contents s @ xs"
  using assms
proof (induction xs arbitrary: s)
  case (Cons x xs)
  obtain s1 where s1: "put x s = Inr (True, s1)" "inv s1" "contents s1 = contents s @ [x]"
    using put_ok[OF Cons.prems(1), of x] Cons.prems(2) by auto
  then show ?case using Cons.IH[OF s1(2)] Cons.prems(2) by simp
qed simp

lemma take_many:
  assumes "inv s" "n \<le> length (contents s)" "int (length (contents s)) < capacity"
  shows "\<exists>s'. take_loop occupied take_one n s = Inr (take n (contents s), s') \<and> inv s'
    \<and> contents s' = drop n (contents s)"
  using assms
proof (induction n arbitrary: s)
  case (Suc n)
  then have some: "contents s \<noteq> []" by auto
  obtain s1 where s1: "take_one s = Inr (hd (contents s), s1)" "inv s1" "contents s1 = tl (contents s)"
    using take_ok[OF Suc.prems(1) some Suc.prems(3)] by blast
  have rest: "n \<le> length (contents s1)" "int (length (contents s1)) < capacity"
    unfolding s1(3) using Suc.prems(2,3) by simp_all
  obtain s2 where "take_loop occupied take_one n s1 = Inr (take n (contents s1), s2)" "inv s2"
    "contents s2 = drop n (contents s1)"
    using Suc.IH[OF s1(2)] rest by blast
  then show ?case
    using s1 some size_ok[OF Suc.prems(1)] by (auto simp: neq_Nil_conv)
qed simp

end

section \<open>The queue\<close>

definition rq_contents :: "'a ring_queue \<Rightarrow> 'a list" where
  "rq_contents q = rb_contents (rq_limit q) (rq_ring q)"

definition rq_ok :: "int \<Rightarrow> 'a ring_queue \<Rightarrow> bool" where
  "rq_ok capacity q \<longleftrightarrow> rq_limit q = capacity \<and> \<not> rq_is_overwrite q \<and> rb_ok capacity (rq_ring q)"

lemma rq_simps [simp]:
  "rq_limit (flow_call c q) = rq_limit q" "rq_limit (q\<lparr> rq_ring := r \<rparr>) = rq_limit q"
  "rq_is_overwrite (flow_call c q) = rq_is_overwrite q" "rq_is_overwrite (q\<lparr> rq_ring := r \<rparr>) = rq_is_overwrite q"
  "rq_ring (flow_call c q) = rq_ring q"
  by (simp_all add: rq_limit_def rq_is_overwrite_def flow_call_def)

lemma rq_ok_size:
  assumes "rq_ok capacity q"
  shows "rq_size q = int (length (rq_contents q))" "rb_length (rq_ring q) = int (length (rq_contents q))"
    "int (length (rq_contents q)) \<le> capacity" "0 < capacity" "capacity < 1073741824"
  using assms rb_ok_sizes(2)[of capacity "rq_ring q"] rb_contents_length[of "rq_ring q" capacity]
  by (auto simp: rq_ok_def rq_size_def rq_contents_def rb_ok_def)

interpretation rq: bounded_fifo "rq_ok capacity" rq_contents capacity rq_size rq_enqueue "rq_dequeue dflt"
  for capacity :: int and dflt :: 'a
proof
  fix q :: "'a ring_queue" and x :: 'a
  assume q: "rq_ok capacity q"
  note size = rq_ok_size[OF q]
  have r: "rb_ok capacity (rq_ring q)" "rq_limit q = capacity" "\<not> rq_is_overwrite q"
    "rb_contents capacity (rq_ring q) = rq_contents q"
    using q by (auto simp: rq_ok_def rq_contents_def)
  show "rq_size q = int (length (rq_contents q))" by (rule size(1))
  show "\<exists>s'. rq_enqueue x q = Inr (True, s') \<and> rq_ok capacity s' \<and> rq_contents s' = rq_contents q @ [x]"
    if room: "int (length (rq_contents q)) < capacity"
  proof -
    obtain r' where "rb_enqueue x False capacity (rq_ring q) = Inr (True, r')" "rb_ok capacity r'"
      "rb_contents capacity r' = rq_contents q @ [x]"
      using rb_enqueue_keep(1)[OF r(1), of x] room size(2) r(4) by auto
    then show ?thesis using r(1-3) by (simp add: rq_enqueue_def rq_ok_def rq_contents_def)
  qed
  show "\<exists>s'. rq_dequeue dflt q = Inr (hd (rq_contents q), s') \<and> rq_ok capacity s' \<and> rq_contents s' = tl (rq_contents q)"
    if some: "rq_contents q \<noteq> []" "int (length (rq_contents q)) < capacity"
  proof -
    obtain r' where "rb_dequeue capacity (rq_ring q) = Inr (Some (hd (rq_contents q)), r')" "rb_ok capacity r'"
      "rb_contents capacity r' = tl (rq_contents q)"
      using rb_dequeue_cases(1)[OF r(1)] some size(2) r(4) by auto
    then show ?thesis using r(1-3) by (simp add: rq_dequeue_def rq_ok_def rq_contents_def)
  qed
qed

lemma rq_ok_new:
  assumes "0 < capacity" "capacity < 1073741824"
  shows "rq_ok capacity (rq_new dflt (policy_limited_to capacity))"
  using assms rb_ok_new by (simp add: rq_ok_def rq_new_def policy_limited_to_def rq_limit_def rq_is_overwrite_def)

lemma rq_contents_new [simp]: "rq_contents (rq_new dflt policy) = []"
  by (simp add: rq_new_def rq_contents_def)

text \<open>A full queue counts as empty: nothing can be put in and nothing comes out.\<close>

lemma rq_full:
  assumes "rq_ok capacity q" "int (length (rq_contents q)) = capacity"
  shows "rq_enqueue x q = Inr (False, flow_call (CallReject 1) q)"
    and "rq_dequeue dflt q = Inr (dflt, flow_call (CallReject 1) q)"
    and "rq_is_empty q" "rq_is_full q"
proof -
  have r: "rb_ok capacity (rq_ring q)" "rq_limit q = capacity" "\<not> rq_is_overwrite q" "rb_length (rq_ring q) = capacity"
    using assms rq_ok_size(2)[OF assms(1)] by (auto simp: rq_ok_def)
  show "rq_enqueue x q = Inr (False, flow_call (CallReject 1) q)"
    using rb_enqueue_keep(2)[OF r(1,4)] r by (simp add: rq_enqueue_def)
  show "rq_dequeue dflt q = Inr (dflt, flow_call (CallReject 1) q)"
    using rb_dequeue_cases(2)[OF r(1,4)] r by (simp add: rq_dequeue_def)
  show "rq_is_empty q" "rq_is_full q"
    using rb_ok_sizes(1,3)[OF r(1)] r by (simp_all add: rq_is_empty_def rq_is_full_def rb_is_capacity_def)
qed

lemma rq_ok_call: "rq_ok capacity (flow_call c q) = rq_ok capacity q" "rq_contents (flow_call c q) = rq_contents q"
  "rq_size (flow_call c q) = rq_size q"
  by (simp_all add: rq_ok_def rq_contents_def rq_size_def)

lemma take_full:
  assumes "rq_ok capacity q" "int (length (rq_contents q)) = capacity"
  shows "\<exists>q'. rq_dequeue_loop dflt n q = Inr (replicate n dflt, q') \<and> rq_ok capacity q' \<and> rq_contents q' = rq_contents q"
  unfolding rq_dequeue_loop_def
  using assms
proof (induction n arbitrary: q)
  case (Suc n)
  let ?q = "flow_call (CallReject 1) q"
  have "0 < rq_size q" using rq_ok_size[OF Suc.prems(1)] Suc.prems(2) by simp
  moreover obtain q' where "take_loop rq_size (rq_dequeue dflt) n ?q = Inr (replicate n dflt, q')"
    "rq_ok capacity q'" "rq_contents q' = rq_contents q"
    using Suc.IH[of ?q] Suc.prems by (auto simp: rq_ok_call)
  ultimately show ?case using rq_full(2)[OF Suc.prems] by simp
qed simp

text \<open>An empty queue does not count as empty: taking from it fails the assertion on the length.\<close>

lemma rq_empty:
  assumes "rq_ok capacity q" "rq_contents q = []"
  shows "rq_dequeue dflt q = Inl AssertFailed" "\<not> rq_is_empty q"
proof -
  have r: "rb_ok capacity (rq_ring q)" "rq_limit q = capacity" "rb_length (rq_ring q) = 0" "0 < capacity"
    using assms rq_ok_size(2,4)[OF assms(1)] by (auto simp: rq_ok_def)
  show "rq_dequeue dflt q = Inl AssertFailed"
    using rb_dequeue_cases(3)[OF r(1,3)] r by (simp add: rq_dequeue_def)
  show "\<not> rq_is_empty q" using rb_ok_sizes(3)[OF r(1)] r by (simp add: rq_is_empty_def)
qed

section \<open>Properties\<close>

text \<open>C30: As long as the queue never becomes full it is a first-in first-out list: a batch that leaves room
  is put in behind what is there, and taking any number of elements out, up to all of them, gives the
  oldest ones in order and leaves the others.\<close>

theorem ring_queue_fifo:
  assumes "rq_ok capacity q" "int (length (rq_contents q)) + int (length xs) < capacity"
  shows "\<exists>q1. rq_enqueue_all_wait env xs q = Inr (True, q1) \<and> rq_ok capacity q1
    \<and> rq_contents q1 = rq_contents q @ xs
    \<and> (\<forall>n. 0 < n \<and> n \<le> int (length (rq_contents q @ xs)) \<longrightarrow>
        (\<exists>q2. rq_dequeue_n dflt env n q1 = Inr (take (nat n) (rq_contents q @ xs), q2) \<and> rq_ok capacity q2
          \<and> rq_contents q2 = drop (nat n) (rq_contents q @ xs)))"
proof -
  have r: "rb_ok capacity (rq_ring q)" "rq_limit q = capacity" "\<not> rq_is_overwrite q"
    using assms(1) by (auto simp: rq_ok_def)
  note size = rq_ok_size[OF assms(1)]
  have w: "wrap32 (int (length xs)) = int (length xs)"
    using assms(2) size(5) by (intro wrap32_id) (simp add: in_int32_def)
  have room: "rq_has_capacity (int (length xs)) q"
    using assms(2) size r rb_ok_sizes(1)[OF r(1)] by (simp add: rq_has_capacity_def rb_is_capacity_for_def)
  obtain q1 where q1: "rq_enqueue_loop xs q = Inr q1" "rq_ok capacity q1" "rq_contents q1 = rq_contents q @ xs"
    using rq.put_all[OF assms(1), of xs] assms(2) by (auto simp: rq_enqueue_loop_def)
  have put: "rq_enqueue_all_wait env xs q = Inr (True, q1)"
    using room q1(1) by (simp add: rq_enqueue_all_wait_def rq_enqueue_all_def rq_wait_for_capacity_def w)
  have "\<exists>q2. rq_dequeue_n dflt env n q1 = Inr (take (nat n) (rq_contents q @ xs), q2) \<and> rq_ok capacity q2
      \<and> rq_contents q2 = drop (nat n) (rq_contents q @ xs)"
    if n: "0 < n" "n \<le> int (length (rq_contents q @ xs))" for n
  proof -
    have n': "nat n \<le> length (rq_contents q1)" "int (length (rq_contents q1)) < capacity" "n \<le> rq_size q1"
      using n assms(2) rq_ok_size(1)[OF q1(2)] by (simp_all add: q1(3))
    obtain q2 where "rq_dequeue_loop dflt (nat n) q1 = Inr (take (nat n) (rq_contents q1), q2)" "rq_ok capacity q2"
      "rq_contents q2 = drop (nat n) (rq_contents q1)"
      using rq.take_many[OF q1(2) n'(1,2), of dflt] by (auto simp: rq_dequeue_loop_def)
    then show ?thesis using n(1) n'(3)
      by (simp add: rq_dequeue_n_def rq_dequeue_some_def rq_wait_for_data_def q1(3))
  qed
  then show ?thesis using put q1 by blast
qed

theorem ring_queue_fifo_witness:
  "\<exists>q1 q2. rq_enqueue_all_wait id [7, 8, 9] (rq_new 0 (policy_limited_to 4)) = Inr (True, q1)
     \<and> rq_dequeue_n 0 id 2 q1 = Inr ([7, 8], q2) \<and> rq_contents q2 = [9 :: nat]"
proof -
  let ?q = "rq_new (0 :: nat) (policy_limited_to 4)" and ?xs = "[7, 8, 9 :: nat]"
  have "rq_ok 4 ?q" "int (length (rq_contents ?q)) + int (length ?xs) < 4" by (simp_all add: rq_ok_new)
  from ring_queue_fifo[OF this, of id 0] obtain q1 where q1: "rq_enqueue_all_wait id ?xs ?q = Inr (True, q1)"
    "\<forall>n. 0 < n \<and> n \<le> int (length (rq_contents ?q @ ?xs)) \<longrightarrow>
        (\<exists>q2. rq_dequeue_n 0 id n q1 = Inr (take (nat n) (rq_contents ?q @ ?xs), q2) \<and> rq_ok 4 q2
          \<and> rq_contents q2 = drop (nat n) (rq_contents ?q @ ?xs))"
    by blast
  from q1(2)[rule_format, of 2] obtain q2 where "rq_dequeue_n 0 id 2 q1 = Inr ([7, 8], q2)" "rq_contents q2 = [9]"
    by auto
  then show ?thesis using q1(1) by blast
qed

text \<open>A full queue never drains: it rejects every element, counts as empty, and taking elements from it
  gives as many default values as there are elements and leaves it full. An empty queue does not count as
  empty, and taking an element from it without one arriving stops the program.\<close>

theorem full_ring_queue_stuck:
  assumes "rq_ok capacity q"
  shows "(int (length (rq_contents q)) = capacity \<longrightarrow> rq_is_empty q \<and> rq_is_full q
      \<and> (\<exists>q'. rq_try_enqueue x q = Inr (False, q') \<and> rq_contents q' = rq_contents q)
      \<and> (\<exists>q'. rq_dequeue_upto dflt env int32_max q = Inr (replicate (nat capacity) dflt, q')
           \<and> rq_ok capacity q' \<and> rq_contents q' = rq_contents q))
    \<and> (rq_contents q = [] \<longrightarrow> \<not> rq_is_empty q \<and> rq_dequeue_wait dflt id q = Inl AssertFailed)"
proof (intro conjI impI)
  note size = rq_ok_size[OF assms]
  show "\<not> rq_is_empty q" "rq_dequeue_wait dflt id q = Inl AssertFailed" if "rq_contents q = []"
    using rq_empty[OF assms that] by (simp_all add: rq_dequeue_wait_def rq_wait_for_data_def Let_def)
  assume full: "int (length (rq_contents q)) = capacity"
  show "rq_is_empty q" "rq_is_full q" by (rule rq_full(3,4)[OF assms full])+
  show "\<exists>q'. rq_try_enqueue x q = Inr (False, q') \<and> rq_contents q' = rq_contents q"
    using rq_full(1)[OF assms full] by (simp add: rq_try_enqueue_def rq_ok_call)
  obtain q' where "rq_dequeue_loop dflt (nat capacity) q = Inr (replicate (nat capacity) dflt, q')"
    "rq_ok capacity q'" "rq_contents q' = rq_contents q"
    using take_full[OF assms full] by blast
  moreover have "min (rq_size q) int32_max = capacity" using size full by (simp add: int32_max_def)
  ultimately show "\<exists>q'. rq_dequeue_upto dflt env int32_max q = Inr (replicate (nat capacity) dflt, q')
      \<and> rq_ok capacity q' \<and> rq_contents q' = rq_contents q"
    using size full by (simp add: rq_dequeue_upto_def rq_dequeue_n_def rq_dequeue_some_def rq_wait_for_data_def)
qed

theorem full_ring_queue_stuck_witness:
  "rq_dequeue_wait (0 :: nat) id (rq_new 0 (policy_limited_to 4)) = Inl AssertFailed"
  using full_ring_queue_stuck[OF rq_ok_new, of 4 "0 :: nat"] by simp

text \<open>The queue that overwrites.\<close>

definition rq_cyclic :: "int \<Rightarrow> 'a ring_queue \<Rightarrow> bool" where
  "rq_cyclic capacity q \<longleftrightarrow> rq_limit q = capacity \<and> rq_is_overwrite q \<and> rb_ok capacity (rq_ring q)
     \<and> rb_length (rq_ring q) < capacity"

lemma rq_cyclic_enqueue:
  assumes "rq_cyclic capacity q"
  shows "\<exists>q'. rq_enqueue x q = Inr (True, q') \<and> rq_cyclic capacity q' \<and> rq_contents q' =
    (if int (length (rq_contents q)) = capacity - 1 then tl (rq_contents q @ [x]) else rq_contents q @ [x])"
    and "int (length (rq_contents q)) < capacity"
proof -
  have r: "rq_limit q = capacity" "rq_is_overwrite q" "rb_ok capacity (rq_ring q)" "rb_length (rq_ring q) < capacity"
    using assms by (auto simp: rq_cyclic_def)
  have len: "int (length (rq_contents q)) = rb_length (rq_ring q)"
    using r rb_contents_length[of "rq_ring q" capacity] by (simp add: rq_contents_def rb_ok_def)
  show "int (length (rq_contents q)) < capacity" using len r(4) by simp
  obtain r' where "rb_enqueue x True capacity (rq_ring q) = Inr (True, r')" "rb_ok capacity r'" "rb_length r' < capacity"
    "rb_contents capacity r' = (if rb_length (rq_ring q) = capacity - 1 then tl (rb_contents capacity (rq_ring q) @ [x])
                                  else rb_contents capacity (rq_ring q) @ [x])"
    using rb_enqueue_overwrite[OF r(3,4), of x] by blast
  then show "\<exists>q'. rq_enqueue x q = Inr (True, q') \<and> rq_cyclic capacity q' \<and> rq_contents q' =
      (if int (length (rq_contents q)) = capacity - 1 then tl (rq_contents q @ [x]) else rq_contents q @ [x])"
    unfolding len using r(1,2) by (simp add: rq_enqueue_def rq_cyclic_def rq_contents_def)
qed

lemma rq_cyclic_loop:
  assumes "rq_cyclic capacity q"
  shows "\<exists>q'. rq_enqueue_loop xs q = Inr q' \<and> rq_cyclic capacity q'
    \<and> rq_contents q' = drop (length (rq_contents q @ xs) - nat (capacity - 1)) (rq_contents q @ xs)"
  using assms
proof (induction xs arbitrary: q)
  case Nil
  then have "length (rq_contents q) \<le> nat (capacity - 1)" using rq_cyclic_enqueue(2)[OF Nil] by linarith
  then show ?case using Nil by (simp add: rq_enqueue_loop_def)
next
  case (Cons x xs)
  let ?C = "rq_contents q"
  obtain q1 where q1: "rq_enqueue x q = Inr (True, q1)" "rq_cyclic capacity q1" "rq_contents q1 =
      (if int (length ?C) = capacity - 1 then tl (?C @ [x]) else ?C @ [x])"
    using rq_cyclic_enqueue(1)[OF Cons.prems] by blast
  have lt: "int (length ?C) < capacity" by (rule rq_cyclic_enqueue(2)[OF Cons.prems])
  have "drop (length (rq_contents q1 @ xs) - nat (capacity - 1)) (rq_contents q1 @ xs)
      = drop (length (?C @ x # xs) - nat (capacity - 1)) (?C @ x # xs)"
  proof (cases "int (length ?C) = capacity - 1")
    case True
    then have n: "nat (capacity - 1) = length ?C" by linarith
    have tl: "tl (?C @ [x]) @ xs = tl (?C @ x # xs)" by (cases ?C) simp_all
    have "drop (length (?C @ x # xs) - length ?C) (?C @ x # xs) = drop (length xs) (tl (?C @ x # xs))"
      by (simp add: drop_Suc del: drop_append)
    moreover have "length (tl (?C @ x # xs)) - length ?C = length xs" by simp
    ultimately show ?thesis using True unfolding q1(3) n if_P[OF True] tl by simp
  qed (simp add: q1(3))
  then show ?case using Cons.IH[OF q1(2)] q1(1) by (simp add: rq_enqueue_loop_def)
qed

text \<open>A queue that overwrites accepts every element and keeps exactly the last ones, but one fewer than
  its capacity: with capacity 1 it is always empty.\<close>

theorem overwriting_queue_keeps_last:
  assumes "0 < capacity" "capacity < 1073741824"
  shows "\<exists>q. rq_enqueue_loop xs (rq_new dflt (policy_overwrite capacity)) = Inr q
    \<and> rq_contents q = drop (length xs - nat (capacity - 1)) xs
    \<and> rq_size q = min (int (length xs)) (capacity - 1)"
proof -
  let ?n = "rq_new dflt (policy_overwrite capacity)"
  have "rq_cyclic capacity ?n"
    using assms rb_ok_new by (simp add: rq_cyclic_def rq_new_def policy_overwrite_def rq_limit_def rq_is_overwrite_def
        rb_new_def)
  from rq_cyclic_loop[OF this, of xs] obtain q where q: "rq_enqueue_loop xs ?n = Inr q" "rq_cyclic capacity q"
    "rq_contents q = drop (length xs - nat (capacity - 1)) xs"
    by auto
  have ok: "rb_ok capacity (rq_ring q)" "rq_limit q = capacity" using q(2) by (auto simp: rq_cyclic_def)
  then have "rq_size q = int (length (rq_contents q))"
    using rb_ok_sizes(2)[OF ok(1)] rb_contents_length[of "rq_ring q" capacity]
    by (simp add: rq_size_def rq_contents_def rb_ok_def)
  also have "\<dots> = min (int (length xs)) (capacity - 1)" unfolding q(3) using assms by simp
  finally show ?thesis using q by blast
qed

theorem overwriting_queue_keeps_last_witness:
  "\<exists>q. rq_enqueue_loop [1, 2, 3, 4] (rq_new 0 (policy_overwrite 3)) = Inr q \<and> rq_contents q = [3, 4 :: nat]"
proof -
  obtain q where "rq_enqueue_loop [1, 2, 3, 4 :: nat] (rq_new 0 (policy_overwrite 3)) = Inr q"
    "rq_contents q = drop (length [1, 2, 3, 4 :: nat] - nat (3 - 1)) [1, 2, 3, 4]"
    using overwriting_queue_keeps_last[of 3 "[1, 2, 3, 4]" "0 :: nat"] by (auto simp del: One_nat_def)
  then show ?thesis by (intro exI[of _ q]) simp
qed

text \<open>A queue that was filled from empty and has not been full: the elements lie at the start.\<close>

lemma filled_ring:
  assumes "int (length xs) < rp_capacity policy" "rp_capacity policy < 1073741824"
  shows "\<exists>calls. rq_enqueue_loop xs (rq_new dflt policy) = Inr \<lparr> rq_policy = policy, rq_ring =
      \<lparr> rb_cells = xs @ replicate (nat (rp_capacity policy) - length xs) dflt, rb_front = 0,
        rb_rear = int (length xs), rb_length = int (length xs) \<rparr>, rq_calls = calls \<rparr>"
  using assms
proof (induction xs rule: rev_induct)
  case Nil
  then show ?case by (simp add: rq_enqueue_loop_def rq_new_def rb_new_def)
next
  case (snoc x xs)
  let ?c = "rp_capacity policy" and ?k = "length xs"
  have k: "int ?k + 1 < ?c" "?c < 1073741824" using snoc.prems by auto
  let ?r = "\<lparr> rb_cells = xs @ replicate (nat ?c - ?k) dflt, rb_front = 0, rb_rear = int ?k, rb_length = int ?k \<rparr>"
  obtain calls where ih: "rq_enqueue_loop xs (rq_new dflt policy) =
      Inr \<lparr> rq_policy = policy, rq_ring = ?r, rq_calls = calls \<rparr>"
    using snoc.IH k by auto
  let ?r' = "\<lparr> rb_cells = (xs @ [x]) @ replicate (nat ?c - Suc ?k) dflt, rb_front = 0, rb_rear = int ?k + 1,
      rb_length = int ?k + 1 \<rparr>"
  have "nat ?c - ?k = Suc (nat ?c - Suc ?k)" using k(1) by linarith
  then have store: "rb_store (int ?k) x ?r = Inr (?r\<lparr> rb_cells := (xs @ [x]) @ replicate (nat ?c - Suc ?k) dflt \<rparr>)"
    using k by (simp add: rb_store_def list_update_append)
  have w: "wrap32 (int ?k + 1) = int ?k + 1" "wrap32 (?c - int ?k) = ?c - int ?k"
    using k by (auto simp: in_int32_def)
  have room: "rb_is_capacity ow ?c ?r" for ow using k w by (simp add: rb_is_capacity_def rb_remaining_def)
  have "c_rem (int ?k + 1) ?c = Inr (int ?k + 1)" using k by (simp add: c_rem_mod)
  then have "rb_enqueue x ow ?c ?r = Inr (True, ?r')" for ow
    using room store by (simp add: rb_enqueue_def move_rear_def Let_def w(1))
  then have "rq_enqueue x \<lparr> rq_policy = policy, rq_ring = ?r, rq_calls = calls \<rparr> =
      Inr (True, \<lparr> rq_policy = policy, rq_ring = ?r', rq_calls = calls @ [CallEnqueue 1] \<rparr>)"
    by (simp add: rq_enqueue_def rq_limit_def flow_call_def)
  then show ?case using ih by (simp add: rq_enqueue_loop_def rfold_append add.commute)
qed

lemma peek_filled:
  fixes dflt :: 'a and calls :: "flow_call list"
  assumes "int (length xs) < c" "c < 1073741824" "rp_capacity policy = c" "n \<le> length xs"
  defines "q \<equiv> \<lparr> rq_policy = policy, rq_ring = \<lparr> rb_cells = xs @ replicate (nat c - length xs) dflt, rb_front = 0,
        rb_rear = int (length xs), rb_length = int (length xs) \<rparr>, rq_calls = calls \<rparr>"
  shows "rq_peek_loop dflt n (int (length xs - n)) q =
    (if 2 * int (length xs) \<le> c \<or> n = 0 then Inr (replicate n dflt) else Inl AssertFailed)"
  using assms(4)
proof (induction n)
  case (Suc n)
  let ?k = "int (length xs)" and ?p = "int (length xs - Suc n)"
  have k: "0 < c" "?k < c" "c < 1073741824" "0 \<le> ?p" "?p < ?k" using assms(1,2) Suc.prems by auto
  have size: "rb_queue_size c (rq_ring q) = ?k" using k by (simp add: rb_queue_size_def rb_remaining_def q_def in_int32_def)
  have pos: "rb_buffer_position ?p c (rq_ring q) = Inr ((?k + ?p) mod c)"
    using k by (simp add: rb_buffer_position_def q_def c_rem_mod in_int32_def)
  have limit: "rq_limit q = c" using assms(3) by (simp add: rq_limit_def q_def)
  show ?case
  proof (cases "?k + ?p < c")
    case True
    have "rb_cell (?k + ?p) (rq_ring q) = Inr dflt"
      using True k by (simp add: rb_cell_def q_def nth_append nat_less_iff)
    then have step: "rq_peek_loop dflt (Suc n) ?p q = rbind (rq_peek_loop dflt n (?p + 1) q) (\<lambda>xs. Inr (dflt # xs))"
      using True k size pos limit
      by (simp add: rq_data_at_def rb_is_data_at_def rq_peek_at_def rb_peek_def c_rem_mod in_int32_def)
    have p1: "?p + 1 = int (length xs - n)" using Suc.prems by linarith
    have ih: "rq_peek_loop dflt n (?p + 1) q = (if 2 * ?k \<le> c \<or> n = 0 then Inr (replicate n dflt) else Inl AssertFailed)"
      unfolding p1 using Suc.IH Suc.prems by simp
    have "n = 0 \<Longrightarrow> 2 * ?k \<le> c" using True by linarith
    then show ?thesis unfolding step ih by (cases "2 * ?k \<le> c") auto
  next
    case False
    have "(?k + ?p) mod c = (?k + ?p - c) mod c" by simp
    also have "\<dots> = ?k + ?p - c" using False k by (intro mod_pos_pos_trivial) auto
    finally have "rq_data_at ?p q = Inr False" using k size pos limit by (simp add: rq_data_at_def rb_is_data_at_def)
    then show ?thesis using False k by simp
  qed
qed simp

text \<open>Looking at the elements never shows one: the positions are counted from the rear, not from the front.
  On a queue filled from empty that is at most half full the values shown are defaults, and above that the
  assertion on the position stops the program.\<close>

theorem peek_never_shows_elements:
  assumes "int (length xs) < rp_capacity policy" "rp_capacity policy < 1073741824" "xs \<noteq> []"
  shows "\<exists>q. rq_enqueue_loop xs (rq_new dflt policy) = Inr q \<and> rq_contents q = xs \<and> rq_peek_all dflt env q =
    (if 2 * int (length xs) \<le> rp_capacity policy then Inr (replicate (length xs) dflt, q) else Inl AssertFailed)"
proof -
  let ?c = "rp_capacity policy"
  obtain calls where run: "rq_enqueue_loop xs (rq_new dflt policy) = Inr \<lparr> rq_policy = policy, rq_ring =
      \<lparr> rb_cells = xs @ replicate (nat ?c - length xs) dflt, rb_front = 0, rb_rear = int (length xs),
        rb_length = int (length xs) \<rparr>, rq_calls = calls \<rparr>"
    using filled_ring[OF assms(1,2)] by blast
  define q where "q = \<lparr> rq_policy = policy, rq_ring = \<lparr> rb_cells = xs @ replicate (nat ?c - length xs) dflt,
      rb_front = 0, rb_rear = int (length xs), rb_length = int (length xs) \<rparr>, rq_calls = calls \<rparr>"
  have size: "rb_queue_size (rq_limit q) (rq_ring q) = int (length xs)"
    using assms(1,2) by (simp add: rb_queue_size_def rb_remaining_def rq_limit_def q_def in_int32_def)
  have "rq_contents q = map (\<lambda>i. xs ! nat i) [0 .. int (length xs) - 1]"
    using assms(1) by (auto simp: rq_contents_def rb_contents_def rb_slot_def q_def rq_limit_def nth_append)
  also have "\<dots> = xs" by (rule nth_equalityI) simp_all
  finally have contents: "rq_contents q = xs" .
  have "rq_peek_loop dflt (length xs) 0 q = (if 2 * int (length xs) \<le> ?c then Inr (replicate (length xs) dflt) else Inl AssertFailed)"
    using peek_filled[OF assms(1,2) refl, of "length xs" dflt calls] assms(3) unfolding q_def by simp
  then have "rq_peek_all dflt env q =
      (if 2 * int (length xs) \<le> ?c then Inr (replicate (length xs) dflt, q) else Inl AssertFailed)"
    using size assms(3)
    by (simp add: rq_peek_all_def rq_peek_n_def rq_size_def rq_wait_for_data_def rq_peek_some_def
        rb_is_num_in_queue_def Let_def)
  then show ?thesis using run contents unfolding q_def by blast
qed

theorem peek_never_shows_elements_witness:
  "\<exists>q. rq_enqueue_loop [7, 8] (rq_new 0 (policy_limited_to 5)) = Inr q \<and> rq_peek_all 0 id q = Inr ([0, 0 :: nat], q)"
proof -
  obtain q where "rq_enqueue_loop [7, 8 :: nat] (rq_new 0 (policy_limited_to 5)) = Inr q"
    "rq_peek_all 0 id q = (if 2 * int (length [7, 8 :: nat]) \<le> rp_capacity (policy_limited_to 5)
       then Inr (replicate (length [7, 8 :: nat]) 0, q) else Inl AssertFailed)"
    using peek_never_shows_elements[of "[7, 8]" "policy_limited_to 5" "0 :: nat" id]
    by (auto simp: policy_limited_to_def)
  then show ?thesis by (intro exI[of _ q]) (simp add: policy_limited_to_def numeral_2_eq_2)
qed

end
