(* ===== verification/Status_Tracker.thy ===== *)
theory Status_Tracker
  imports Ring_Buffer Ordered_Map Timing
begin

text \<open>
  \<open>BaseLib/Status\<close>: \<open>StatusTracker\<close> and \<open>StatusTrackerTimestamped\<close> (\<open>StatusTracker.h\<close>), which count
  what happens and keep the counts of a window of time, \<open>FlowStatus\<close>, which a queue reports to, and
  \<open>EventStatusTracker\<close> (\<open>Metric.h\<close>), which counts per state and keeps the most recent states. Time is in
  nanoseconds; the clock readings an operation makes are arguments, those of a loop a function of the
  round. The counts are of type \<open>int\<close>.
\<close>

section \<open>StatusTracker\<close>

record tracker =
  tr_first :: bool
  tr_instances :: int
  tr_sum :: int
  tr_first_access :: int
  tr_recent :: int

definition tr_new :: "int \<Rightarrow> int \<Rightarrow> tracker" where
  "tr_new now1 now2 =
     \<lparr> tr_first = True, tr_instances = 0, tr_sum = 0, tr_first_access = now1, tr_recent = now2 \<rparr>"

definition tr_do_first :: "int \<Rightarrow> int \<Rightarrow> 'a tracker_scheme \<Rightarrow> 'a tracker_scheme" where
  "tr_do_first now n t = t\<lparr> tr_instances := wrap32 (tr_instances t + 1), tr_sum := wrap32 (tr_sum t + n),
     tr_first_access := now, tr_first := False \<rparr>"

definition tr_do_next :: "int \<Rightarrow> int \<Rightarrow> 'a tracker_scheme \<Rightarrow> 'a tracker_scheme" where
  "tr_do_next now n t = t\<lparr> tr_instances := wrap32 (tr_instances t + 1), tr_sum := wrap32 (tr_sum t + n),
     tr_recent := now \<rparr>"

definition tr_next :: "int \<Rightarrow> int \<Rightarrow> 'a tracker_scheme \<Rightarrow> 'a tracker_scheme" where
  "tr_next now n t = (if tr_first t then tr_do_first now n t else tr_do_next now n t)"

definition tr_reset :: "int \<Rightarrow> int \<Rightarrow> 'a tracker_scheme \<Rightarrow> 'a tracker_scheme" where
  "tr_reset now1 now2 t =
     t\<lparr> tr_instances := 0, tr_sum := 0, tr_first_access := now1, tr_recent := now2, tr_first := True \<rparr>"

definition tr_reset_to :: "int \<Rightarrow> int \<Rightarrow> int \<Rightarrow> int \<Rightarrow> 'a tracker_scheme \<Rightarrow> 'a tracker_scheme" where
  "tr_reset_to now1 now2 now3 n t = tr_do_first now3 n (tr_reset now1 now2 t)"

definition tr_is_instances :: "'a tracker_scheme \<Rightarrow> bool" where
  "tr_is_instances t \<longleftrightarrow> tr_instances t \<noteq> 0"

definition tr_is_status :: "'a tracker_scheme \<Rightarrow> bool" where
  "tr_is_status t \<longleftrightarrow> \<not> tr_first t"

definition tr_since_first_access :: "int \<Rightarrow> 'a tracker_scheme \<Rightarrow> int res" where
  "tr_since_first_access now t = dur_sub now (tr_first_access t)"

definition tr_since_recent_access :: "int \<Rightarrow> 'a tracker_scheme \<Rightarrow> int res" where
  "tr_since_recent_access now t = dur_sub now (tr_recent t)"

section \<open>StatusTrackerTimestamped\<close>

record window_tracker = tracker +
  tw_counts :: "(int, int) omap"
  tw_window :: int

definition tw_new :: "int \<Rightarrow> int \<Rightarrow> int \<Rightarrow> window_tracker" where
  "tw_new now1 now2 window = tracker.extend (tr_new now1 now2) \<lparr> tw_counts = [], tw_window = window \<rparr>"

text \<open>The loop drops the oldest counts until one is in the window; each round reads the clock.\<close>

fun prune_window :: "(nat \<Rightarrow> int) \<Rightarrow> nat \<Rightarrow> int \<Rightarrow> (int, int) omap \<Rightarrow> (int, int) omap" where
  "prune_window clock i window [] = []"
| "prune_window clock i window ((stamp, n) # m) =
     (if window \<le> clock i - stamp then prune_window clock (Suc i) window m else (stamp, n) # m)"

definition update_window :: "int \<Rightarrow> (nat \<Rightarrow> int) \<Rightarrow> int \<Rightarrow> 'a window_tracker_scheme \<Rightarrow> 'a window_tracker_scheme" where
  "update_window now clock n t =
     t\<lparr> tw_counts := prune_window clock 0 (tw_window t) (om_insert (<) now n (tw_counts t)) \<rparr>"

text \<open>The readings of one update: in the base class, for the stamp, and while pruning.\<close>

type_synonym tick = "int \<times> int \<times> (nat \<Rightarrow> int)"

definition tw_next :: "tick \<Rightarrow> int \<Rightarrow> 'a window_tracker_scheme \<Rightarrow> 'a window_tracker_scheme" where
  "tw_next = (\<lambda>(now1, now2, clock) n t. update_window now2 clock n (tr_next now1 n t))"

definition tw_reset :: "int \<Rightarrow> int \<Rightarrow> 'a window_tracker_scheme \<Rightarrow> 'a window_tracker_scheme" where
  "tw_reset now1 now2 t = (tr_reset now1 now2 t)\<lparr> tw_counts := [] \<rparr>"

definition tw_reset_to :: "int \<Rightarrow> int \<Rightarrow> tick \<Rightarrow> int \<Rightarrow> 'a window_tracker_scheme \<Rightarrow> 'a window_tracker_scheme" where
  "tw_reset_to now1 now2 = (\<lambda>(now3, now4, clock) n t.
     update_window now4 clock n ((tr_reset_to now1 now2 now3 n t)\<lparr> tw_counts := [] \<rparr>))"

text \<open>The readers go from the most recent count backwards until one is outside the duration.\<close>

fun counts_within :: "(nat \<Rightarrow> int) \<Rightarrow> nat \<Rightarrow> int \<Rightarrow> (int, int) omap \<Rightarrow> (int, int) omap" where
  "counts_within clock i duration [] = []"
| "counts_within clock i duration ((stamp, n) # m) =
     (if clock i - stamp < duration then (stamp, n) # counts_within clock (Suc i) duration m else [])"

definition sum_in_window :: "(nat \<Rightarrow> int) \<Rightarrow> int \<Rightarrow> 'a window_tracker_scheme \<Rightarrow> int" where
  "sum_in_window clock duration t =
     fold (\<lambda>(stamp, n) s. wrap32 (s + n)) (counts_within clock 0 duration (rev (tw_counts t))) 0"

definition instances_in_window :: "(nat \<Rightarrow> int) \<Rightarrow> int \<Rightarrow> 'a window_tracker_scheme \<Rightarrow> int" where
  "instances_in_window clock duration t =
     fold (\<lambda>e s. wrap32 (s + 1)) (counts_within clock 0 duration (rev (tw_counts t))) 0"

definition instances_in :: "(nat \<Rightarrow> int) \<Rightarrow> int \<Rightarrow> 'a window_tracker_scheme \<Rightarrow> (int, int) omap" where
  "instances_in clock duration t =
     fold (\<lambda>(stamp, n) m. om_insert (<) stamp n m) (counts_within clock 0 duration (rev (tw_counts t))) []"

section \<open>FlowStatus\<close>

record flow_status =
  fs_queue_size :: int
  fs_enqueued :: window_tracker
  fs_dequeued :: window_tracker
  fs_rejected :: window_tracker
  fs_filtered :: window_tracker

definition fs_new :: "(nat \<Rightarrow> int) \<Rightarrow> int \<Rightarrow> flow_status" where
  "fs_new clock window = \<lparr> fs_queue_size = 0, fs_enqueued = tw_new (clock 0) (clock 1) window,
     fs_dequeued = tw_new (clock 2) (clock 3) window, fs_rejected = tw_new (clock 4) (clock 5) window,
     fs_filtered = tw_new (clock 6) (clock 7) window \<rparr>"

definition fs_enqueue :: "tick \<Rightarrow> int \<Rightarrow> flow_status \<Rightarrow> flow_status" where
  "fs_enqueue tick n s = s\<lparr> fs_enqueued := tw_next tick n (fs_enqueued s),
     fs_queue_size := wrap32 (fs_queue_size s + n) \<rparr>"

definition fs_dequeue :: "tick \<Rightarrow> int \<Rightarrow> flow_status \<Rightarrow> flow_status" where
  "fs_dequeue tick n s = s\<lparr> fs_dequeued := tw_next tick n (fs_dequeued s),
     fs_queue_size := max 0 (wrap32 (fs_queue_size s - n)) \<rparr>"

definition fs_reject :: "tick \<Rightarrow> int \<Rightarrow> flow_status \<Rightarrow> flow_status" where
  "fs_reject tick n s = s\<lparr> fs_rejected := tw_next tick n (fs_rejected s) \<rparr>"

definition fs_filter :: "tick \<Rightarrow> int \<Rightarrow> flow_status \<Rightarrow> flow_status" where
  "fs_filter tick n s = s\<lparr> fs_filtered := tw_next tick n (fs_filtered s) \<rparr>"

text \<open>The calls a queue has made to its status.\<close>

fun fs_call :: "flow_call \<Rightarrow> tick \<Rightarrow> flow_status \<Rightarrow> flow_status" where
  "fs_call (CallEnqueue n) tick = fs_enqueue tick n"
| "fs_call (CallDequeue n) tick = fs_dequeue tick n"
| "fs_call (CallReject n) tick = fs_reject tick n"
| "fs_call (CallFilter n) tick = fs_filter tick n"

fun fs_calls :: "flow_call list \<Rightarrow> (nat \<Rightarrow> tick) \<Rightarrow> nat \<Rightarrow> flow_status \<Rightarrow> flow_status" where
  "fs_calls [] ticks i s = s"
| "fs_calls (c # cs) ticks i s = fs_calls cs ticks (Suc i) (fs_call c (ticks i) s)"

section \<open>EventStatusTracker\<close>

text \<open>The map from states holds pointers to trackers that nothing else changes. An event is its state and count.\<close>

record 'k event_tracker = window_tracker +
  ev_states :: "('k, window_tracker) omap"
  ev_recent :: "('k \<times> int) list"
  ev_capacity :: int

definition ev_new :: "int \<Rightarrow> int \<Rightarrow> int \<Rightarrow> int \<Rightarrow> 'k event_tracker" where
  "ev_new now1 now2 window capacity = window_tracker.extend (tw_new now1 now2 window)
     \<lparr> ev_states = [], ev_recent = [], ev_capacity = capacity \<rparr>"

definition ev_get_or_create ::
  "int \<times> int \<Rightarrow> 'k::linorder \<Rightarrow> 'k event_tracker \<Rightarrow> window_tracker \<times> 'k event_tracker" where
  "ev_get_or_create nows k t =
     (case om_find (<) k (ev_states t) of
        None \<Rightarrow> let s = tw_new (fst nows) (snd nows) (tw_window t)
                in (s, t\<lparr> ev_states := om_insert (<) k s (ev_states t) \<rparr>)
      | Some s \<Rightarrow> (s, t))"

definition ev_count_state ::
  "int \<times> int \<Rightarrow> tick \<Rightarrow> 'k::linorder \<Rightarrow> int \<Rightarrow> 'k event_tracker \<Rightarrow> 'k event_tracker" where
  "ev_count_state nows tick k n t =
     (let (s, t1) = ev_get_or_create nows k t
      in t1\<lparr> ev_states := om_assign (<) k (tw_next tick n s) (ev_states t1) \<rparr>)"

definition ev_push_event :: "'k \<Rightarrow> int \<Rightarrow> 'k event_tracker \<Rightarrow> 'k event_tracker" where
  "ev_push_event k n t =
     (let recent = (k, n) # ev_recent t
      in t\<lparr> ev_recent := if ev_capacity t < wrap32 (int (length recent)) then butlast recent else recent \<rparr>)"

definition ev_next_state ::
  "tick \<times> (int \<times> int) \<times> tick \<Rightarrow> 'k::linorder \<Rightarrow> int \<Rightarrow> 'k event_tracker \<Rightarrow> 'k event_tracker" where
  "ev_next_state = (\<lambda>(tick1, nows, tick2) k n t.
     ev_push_event k n (ev_count_state nows tick2 k n (tw_next tick1 n t)))"

definition ev_reset :: "int \<Rightarrow> int \<Rightarrow> 'k event_tracker \<Rightarrow> 'k event_tracker" where
  "ev_reset now1 now2 t = (tw_reset now1 now2 t)\<lparr> ev_states := [], ev_recent := [] \<rparr>"

definition ev_current_event :: "'k event_tracker \<Rightarrow> ('k \<times> int) option" where
  "ev_current_event t = (case ev_recent t of [] \<Rightarrow> None | e # es \<Rightarrow> Some e)"

definition ev_previous_event :: "'k event_tracker \<Rightarrow> ('k \<times> int) option" where
  "ev_previous_event t = (case ev_recent t of e # e' # es \<Rightarrow> Some e' | _ \<Rightarrow> None)"

definition ev_current_state :: "'k \<Rightarrow> 'k event_tracker \<Rightarrow> 'k" where
  "ev_current_state dflt t = (case ev_current_event t of None \<Rightarrow> dflt | Some (k, n) \<Rightarrow> k)"

definition ev_previous_state :: "'k \<Rightarrow> 'k event_tracker \<Rightarrow> 'k" where
  "ev_previous_state dflt t = (case ev_previous_event t of None \<Rightarrow> dflt | Some (k, n) \<Rightarrow> k)"

definition ev_current :: "'k::linorder \<Rightarrow> 'k event_tracker \<Rightarrow> window_tracker option" where
  "ev_current dflt t = om_find (<) (ev_current_state dflt t) (ev_states t)"

definition ev_previous :: "'k::linorder \<Rightarrow> 'k event_tracker \<Rightarrow> window_tracker option" where
  "ev_previous dflt t = om_find (<) (ev_previous_state dflt t) (ev_states t)"

definition ev_is_current :: "'k event_tracker \<Rightarrow> bool" where
  "ev_is_current t \<longleftrightarrow> ev_current_event t \<noteq> None"

definition ev_is_previous :: "'k event_tracker \<Rightarrow> bool" where
  "ev_is_previous t \<longleftrightarrow> ev_previous_event t \<noteq> None"

text \<open>The two functions that measure the time between two states: \<open>nows\<close> are the readings of the two
  \<open>getOrCreate\<close>, \<open>c1\<close> and \<open>c2\<close> those of the two durations.\<close>

definition ev_since_first_from_to ::
  "(int \<times> int) \<times> (int \<times> int) \<Rightarrow> int \<Rightarrow> int \<Rightarrow> 'k::linorder \<Rightarrow> 'k \<Rightarrow> 'k event_tracker \<Rightarrow> (int \<times> 'k event_tracker) res" where
  "ev_since_first_from_to nows c1 c2 k1 k2 t =
     (let (s1, t1) = ev_get_or_create (fst nows) k1 t; (s2, t2) = ev_get_or_create (snd nows) k2 t1
      in rbind (tr_since_first_access c1 s1) (\<lambda>a. rbind (tr_since_first_access c2 s1) (\<lambda>b.
         rbind (dur_of_milliseconds (wrap64 (dur_in_millis a - dur_in_millis b))) (\<lambda>d. Inr (d, t2)))))"

definition ev_since_recent_from_to ::
  "(int \<times> int) \<times> (int \<times> int) \<Rightarrow> int \<Rightarrow> int \<Rightarrow> 'k::linorder \<Rightarrow> 'k \<Rightarrow> 'k event_tracker \<Rightarrow> (int \<times> 'k event_tracker) res" where
  "ev_since_recent_from_to nows c1 c2 k1 k2 t =
     (let (s1, t1) = ev_get_or_create (fst nows) k1 t; (s2, t2) = ev_get_or_create (snd nows) k2 t1
      in rbind (tr_since_recent_access c1 s1) (\<lambda>a. rbind (tr_since_recent_access c2 s1) (\<lambda>b.
         rbind (dur_of_milliseconds (wrap64 (dur_in_millis a - dur_in_millis b))) (\<lambda>d. Inr (d, t2)))))"

section \<open>Facts\<close>

interpretation lin_key: key_order "(<) :: 'k::linorder \<Rightarrow> 'k \<Rightarrow> bool" UNIV
  by unfold_locales auto

text \<open>A stamp later than all others is put last.\<close>

lemma om_insert_last: "\<forall>e \<in> set m. fst e < k \<Longrightarrow> om_insert (<) k v m = m @ [(k :: 'k::linorder, v)]"
  by (induction m) auto

text \<open>On ordered stamps, with one reading of the clock, pruning and reading are filters.\<close>

lemma prune_window_filter:
  assumes "sorted_wrt (\<lambda>e f. fst e < fst f) m"
  shows "prune_window (\<lambda>i. c) i window m = filter (\<lambda>(s, n). c - s < window) m"
  using assms
proof (induction m arbitrary: i)
  case (Cons e m)
  obtain s n where e: "e = (s, n)" by force
  show ?case
  proof (cases "window \<le> c - s")
    case False
    then have "filter (\<lambda>(s, n). c - s < window) m = m"
      using Cons.prems by (intro filter_True) (fastforce simp: e)
    then show ?thesis using False by (simp add: e)
  qed (use Cons in \<open>simp add: e\<close>)
qed simp

lemma counts_within_filter:
  assumes "sorted_wrt (\<lambda>e f. fst f < fst e) m"
  shows "counts_within (\<lambda>i. c) i duration m = filter (\<lambda>(s, n). c - s < duration) m"
  using assms
proof (induction m arbitrary: i)
  case (Cons e m)
  obtain s n where e: "e = (s, n)" by force
  show ?case
  proof (cases "c - s < duration")
    case False
    then have "filter (\<lambda>(s, n). c - s < duration) m = []"
      using Cons.prems by (intro filter_False) (fastforce simp: e)
    then show ?thesis using False by (simp add: e)
  qed (use Cons in \<open>simp add: e\<close>)
qed simp

text \<open>A run of counts, each with its stamp and the reading of the clock while pruning.\<close>

fun tw_run :: "(int \<times> int \<times> int) list \<Rightarrow> window_tracker \<Rightarrow> window_tracker" where
  "tw_run [] t = t"
| "tw_run ((stamp, c, n) # es) t = tw_run es (tw_next (stamp, stamp, \<lambda>i. c) n t)"

fun ordered_run :: "int \<Rightarrow> (int \<times> int \<times> int) list \<Rightarrow> bool" where
  "ordered_run prev [] = True"
| "ordered_run prev ((stamp, c, n) # es) = (prev < stamp \<and> stamp \<le> c \<and> ordered_run c es)"

definition stamped :: "(int \<times> int \<times> int) list \<Rightarrow> (int \<times> int) list" where
  "stamped es = map (\<lambda>(stamp, c, n). (stamp, n)) es"

fun run_end :: "int \<Rightarrow> (int \<times> int \<times> int) list \<Rightarrow> int" where
  "run_end prev [] = prev"
| "run_end prev ((stamp, c, n) # es) = run_end c es"

lemma ordered_run_end: "ordered_run prev es \<Longrightarrow> prev \<le> run_end prev es"
  by (induction prev es rule: ordered_run.induct) auto

lemma tw_next_fields:
  "tw_window (tw_next tick n t) = tw_window t" "tr_sum (tw_next tick n t) = wrap32 (tr_sum t + n)"
  "tr_instances (tw_next tick n t) = wrap32 (tr_instances t + 1)"
  by (cases tick, simp add: tw_next_def update_window_def tr_next_def tr_do_first_def tr_do_next_def)+

lemma tw_next_counts:
  assumes "sorted_wrt (\<lambda>e f. fst e < fst f) (tw_counts t)" "\<forall>e \<in> set (tw_counts t). fst e < stamp"
  shows "tw_counts (tw_next (stamp, stamp, \<lambda>i. c) n t) =
    filter (\<lambda>(s, n). c - s < tw_window t) (tw_counts t @ [(stamp, n)])"
proof -
  have "sorted_wrt (\<lambda>e f. fst e < fst f) (tw_counts t @ [(stamp, n)])"
    using assms by (simp add: sorted_wrt_append)
  then show ?thesis
    using om_insert_last[OF assms(2), of n] prune_window_filter[of "tw_counts t @ [(stamp, n)]" c]
    by (simp add: tw_next_def update_window_def tr_next_def tr_do_first_def tr_do_next_def)
qed

lemma tw_run_window:
  assumes "ordered_run prev es" "sorted_wrt (\<lambda>e f. fst e < fst f) (tw_counts t)"
    and "\<forall>e \<in> set (tw_counts t). fst e \<le> prev" "tw_counts t = filter (\<lambda>(s, n). prev - s < tw_window t) hist"
  shows "tw_counts (tw_run es t) = filter (\<lambda>(s, n). run_end prev es - s < tw_window t) (hist @ stamped es)
    \<and> tw_window (tw_run es t) = tw_window t"
  using assms
proof (induction prev es arbitrary: t hist rule: ordered_run.induct)
  case (2 prev stamp c n es)
  let ?t = "tw_next (stamp, stamp, \<lambda>i. c) n t"
  have below: "\<forall>e \<in> set (tw_counts t). fst e < stamp" using 2(2,4) by fastforce
  note counts = tw_next_counts[OF 2(3) below, of c n]
  have win: "tw_window ?t = tw_window t" by (rule tw_next_fields)
  have step: "ordered_run c es" "stamp \<le> c" "prev < stamp" using 2(2) by auto
  have "sorted_wrt (\<lambda>e f. fst e < fst f) (tw_counts ?t)"
    unfolding counts using 2(3) below by (intro sorted_wrt_filter) (simp add: sorted_wrt_append)
  moreover have "\<forall>e \<in> set (tw_counts ?t). fst e \<le> c"
  proof
    fix e assume "e \<in> set (tw_counts ?t)"
    then have "e \<in> set (tw_counts t) \<or> e = (stamp, n)" unfolding counts by (auto split: if_splits)
    then show "fst e \<le> c" using below step(2) by fastforce
  qed
  moreover have "tw_counts ?t = filter (\<lambda>(s, n). c - s < tw_window ?t) (hist @ [(stamp, n)])"
  proof -
    have "filter (\<lambda>(s, n). c - s < tw_window t) (filter (\<lambda>(s, n). prev - s < tw_window t) hist)
        = filter (\<lambda>(s, n). c - s < tw_window t) hist"
      unfolding filter_filter using step(2,3) by (intro filter_cong) auto
    then show ?thesis unfolding counts win 2(5) by simp
  qed
  ultimately show ?case using 2(1)[OF step(1), of ?t "hist @ [(stamp, n)]"] win by (simp add: stamped_def)
qed (simp add: stamped_def)

text \<open>Sums of counts in 32 bits.\<close>

lemma wrap32_add: "wrap32 (wrap32 a + b) = wrap32 (a + b)"
proof -
  have "(a + 2147483648) mod 4294967296 - 2147483648 + b + 2147483648 = (a + 2147483648) mod 4294967296 + b" by simp
  moreover have "((a + 2147483648) mod 4294967296 + b) mod 4294967296 = (a + b + 2147483648) mod (4294967296 :: int)"
    unfolding mod_add_left_eq by (simp add: algebra_simps)
  ultimately show ?thesis by (simp add: wrap32_def)
qed

lemma fold_sum: "fold (\<lambda>(s, n) z. wrap32 (z + n)) xs (wrap32 z) = wrap32 (z + sum_list (map snd xs))"
  by (induction xs arbitrary: z) (auto simp: wrap32_add add.assoc)

lemma tw_run_sum: "tr_sum (tw_run es t) = (if es = [] then tr_sum t else wrap32 (tr_sum t + sum_list (map snd (stamped es))))"
  by (induction es t rule: tw_run.induct) (auto simp: stamped_def tw_next_fields wrap32_add add.assoc)

lemma wrap32_0 [simp]: "wrap32 0 = 0"
  by (simp add: wrap32_def)

section \<open>Properties\<close>

text \<open>C31: A tracker over a window refines the full history: after any run of counts with increasing stamps it
  keeps exactly the counts of the window before the last reading of the clock, and the sum over a duration
  up to the window is that of the history, while the total is the sum of all counts.\<close>

theorem window_refines_history:
  assumes "ordered_run prev es" "run_end prev es \<le> c" "duration \<le> window"
  shows "let t = tw_run es (tw_new now1 now2 window) in
    tw_counts t = filter (\<lambda>(s, n). run_end prev es - s < window) (stamped es)
    \<and> sum_in_window (\<lambda>i. c) duration t = wrap32 (sum_list (map snd (filter (\<lambda>(s, n). c - s < duration) (stamped es))))
    \<and> tr_sum t = wrap32 (sum_list (map snd (stamped es)))"
proof -
  let ?n = "tw_new now1 now2 window"
  let ?t = "tw_run es ?n"
  have new: "tw_counts ?n = []" "tw_window ?n = window" "tr_sum ?n = 0"
    by (simp_all add: tw_new_def tracker.defs tr_new_def)
  have counts: "tw_counts ?t = filter (\<lambda>(s, n). run_end prev es - s < window) (stamped es)"
    using tw_run_window[OF assms(1), of ?n "[]"] new by simp
  have sorted: "sorted_wrt (\<lambda>e f. fst e < fst f) (stamped es)"
  proof -
    have "ordered_run prev es \<Longrightarrow> sorted_wrt (\<lambda>e f. fst e < fst f) (stamped es) \<and> (\<forall>e \<in> set (stamped es). prev < fst e)"
      for prev
      by (induction prev es rule: ordered_run.induct) (fastforce simp: stamped_def)+
    then show ?thesis using assms(1) by blast
  qed
  have "sorted_wrt (\<lambda>e f. fst f < fst e) (rev (tw_counts ?t))"
    unfolding counts sorted_wrt_rev by (intro sorted_wrt_filter sorted)
  from counts_within_filter[OF this, of c 0 duration]
  have within: "counts_within (\<lambda>i. c) 0 duration (rev (tw_counts ?t)) = rev (filter (\<lambda>(s, n). c - s < duration) (stamped es))"
    unfolding counts rev_filter[symmetric] filter_filter using assms(2,3)
    by (auto intro!: arg_cong[of _ _ rev] filter_cong)
  have "sum_in_window (\<lambda>i. c) duration ?t = fold (\<lambda>(s, n) z. wrap32 (z + n))
      (rev (filter (\<lambda>(s, n). c - s < duration) (stamped es))) (wrap32 0)"
    unfolding sum_in_window_def within by simp
  also have "\<dots> = wrap32 (sum_list (map snd (filter (\<lambda>(s, n). c - s < duration) (stamped es))))"
    unfolding fold_sum by (simp add: rev_map[symmetric] sum_list_rev)
  finally show ?thesis using counts tw_run_sum[of es ?n] new by (auto simp: Let_def stamped_def)
qed

theorem window_refines_history_witness:
  "let t = tw_run [(1, 1, 5), (6, 7, 2), (9, 9, 4)] (tw_new 0 0 8) in
     tw_counts t = [(6, 2), (9, 4)] \<and> sum_in_window (\<lambda>i. 11) 4 t = 4 \<and> tr_sum t = 11"
  using window_refines_history[of 0 "[(1, 1, 5), (6, 7, 2), (9, 9, 4)]" 11 4 8 0 0]
  by (simp add: stamped_def Let_def in_int32_def)

text \<open>A run of states.\<close>

fun ev_run :: "((tick \<times> (int \<times> int) \<times> tick) \<times> 'k::linorder \<times> int) list \<Rightarrow> 'k event_tracker \<Rightarrow> 'k event_tracker" where
  "ev_run [] t = t"
| "ev_run ((ticks, k, n) # es) t = ev_run es (ev_next_state ticks k n t)"

lemma ev_next_recent:
  assumes "0 \<le> ev_capacity t" "ev_capacity t < 2147483647" "int (length (ev_recent t)) \<le> ev_capacity t"
  shows "ev_recent (ev_next_state ticks k n t) = take (nat (ev_capacity t)) ((k, n) # ev_recent t)"
    "ev_capacity (ev_next_state ticks k n t) = ev_capacity t"
proof -
  obtain tick1 nows tick2 where ticks: "ticks = (tick1, nows, tick2)" by (cases ticks) auto
  let ?t = "ev_count_state nows tick2 k n (tw_next tick1 n t)"
  have same: "ev_recent ?t = ev_recent t" "ev_capacity ?t = ev_capacity t"
    by (cases tick1, auto simp: ev_count_state_def ev_get_or_create_def tw_next_def update_window_def tr_next_def
        tr_do_first_def tr_do_next_def Let_def split: option.splits)+
  have "wrap32 (int (length ((k, n) # ev_recent t))) = int (length (ev_recent t)) + 1"
    using assms by (simp add: in_int32_def)
  then show "ev_recent (ev_next_state ticks k n t) = take (nat (ev_capacity t)) ((k, n) # ev_recent t)"
    using assms(1,3) by (auto simp: ticks ev_next_state_def ev_push_event_def same Let_def butlast_conv_take)
  show "ev_capacity (ev_next_state ticks k n t) = ev_capacity t"
    by (simp add: ticks ev_next_state_def ev_push_event_def same Let_def)
qed

lemma ev_run_recent:
  assumes "0 \<le> ev_capacity t" "ev_capacity t < 2147483647" "int (length (ev_recent t)) \<le> ev_capacity t"
  shows "ev_recent (ev_run es t) = take (nat (ev_capacity t)) (rev (map snd es) @ ev_recent t)"
  using assms
proof (induction es t rule: ev_run.induct)
  case (2 ticks k n es t)
  note step = ev_next_recent[OF 2(2-4), of ticks k n]
  have "int (length (ev_recent (ev_next_state ticks k n t))) \<le> ev_capacity t" unfolding step(1) using 2(2) by simp
  then have "ev_recent (ev_run es (ev_next_state ticks k n t)) =
      take (nat (ev_capacity t)) (rev (map snd es) @ take (nat (ev_capacity t)) ((k, n) # ev_recent t))"
    using 2(1) 2(2,3) unfolding step by simp
  also have "\<dots> = take (nat (ev_capacity t)) (rev (map snd es) @ (k, n) # ev_recent t)"
    by (simp add: take_append min_def)
  finally show ?case by simp
qed simp

lemma ev_next_states:
  assumes "lin_key.om_wf (ev_states t)"
  shows "lin_key.om_wf (ev_states (ev_next_state ticks k n t))"
    "map_of (ev_states (ev_next_state ticks k n t)) = (map_of (ev_states t))(k \<mapsto>
       (case map_of (ev_states t) k of
          None \<Rightarrow> tw_next (snd (snd ticks)) n (tw_new (fst (fst (snd ticks))) (snd (fst (snd ticks))) (tw_window t))
        | Some s \<Rightarrow> tw_next (snd (snd ticks)) n s))"
    "tw_window (ev_next_state ticks k n t) = tw_window t"
proof -
  obtain tick1 nows tick2 where ticks: "ticks = (tick1, nows, tick2)" by (cases ticks) auto
  have same: "ev_states (tw_next tick1 n t) = ev_states t" "tw_window (tw_next tick1 n t) = tw_window t"
    by (cases tick1, simp add: tw_next_def update_window_def tr_next_def tr_do_first_def tr_do_next_def)+
  note find = lin_key.om_find_map_of[OF assms, of k]
  note ins = lin_key.om_wf_insert[OF assms, of k] lin_key.map_of_insert[OF assms, of k]
  have member: "k \<in> fst ` set (ev_states t) \<longleftrightarrow> map_of (ev_states t) k \<noteq> None"
    by (simp add: map_of_eq_None_iff)
  show "lin_key.om_wf (ev_states (ev_next_state ticks k n t))" "tw_window (ev_next_state ticks k n t) = tw_window t"
    using assms ins same find
    by (auto simp: ticks ev_next_state_def ev_push_event_def ev_count_state_def ev_get_or_create_def Let_def
        lin_key.om_wf_assign split: option.splits)
  show "map_of (ev_states (ev_next_state ticks k n t)) = (map_of (ev_states t))(k \<mapsto>
       (case map_of (ev_states t) k of
          None \<Rightarrow> tw_next (snd (snd ticks)) n (tw_new (fst (fst (snd ticks))) (snd (fst (snd ticks))) (tw_window t))
        | Some s \<Rightarrow> tw_next (snd (snd ticks)) n s))"
    using assms ins same find member
    by (auto simp: ticks ev_next_state_def ev_push_event_def ev_count_state_def ev_get_or_create_def Let_def
        lin_key.map_of_assign split: option.splits)
qed

definition sum_of :: "('k \<times> int) list \<Rightarrow> 'k \<Rightarrow> int" where
  "sum_of es k = sum_list (map snd (filter (\<lambda>e. fst e = k) es))"

definition state_sum :: "'k \<Rightarrow> 'k event_tracker \<Rightarrow> int" where
  "state_sum k t = (case map_of (ev_states t) k of None \<Rightarrow> 0 | Some s \<Rightarrow> tr_sum s)"

lemma state_sum_next:
  assumes "lin_key.om_wf (ev_states t)"
  shows "state_sum k (ev_next_state ticks j n t) = (if j = k then wrap32 (state_sum k t + n) else state_sum k t)"
  by (auto simp: state_sum_def ev_next_states(2)[OF assms] tw_next_fields tw_new_def tracker.defs tr_new_def
      split: option.splits)

lemma ev_run_wf:
  assumes "lin_key.om_wf (ev_states t)"
  shows "lin_key.om_wf (ev_states (ev_run es t))"
    "dom (map_of (ev_states (ev_run es t))) = dom (map_of (ev_states t)) \<union> set (map (\<lambda>e. fst (snd e)) es)"
  using assms
  by (induction es t rule: ev_run.induct) (auto simp: ev_next_states)

lemma ev_run_sum:
  assumes "lin_key.om_wf (ev_states t)"
  shows "state_sum k (ev_run es t) =
    (if k \<in> set (map (\<lambda>e. fst (snd e)) es) then wrap32 (state_sum k t + sum_of (map snd es) k) else state_sum k t)"
  using assms
proof (induction es t rule: ev_run.induct)
  case (2 ticks j n es t)
  have none: "k \<notin> set (map (\<lambda>e. fst (snd e)) es) \<Longrightarrow> sum_of (map snd es) k = 0"
    unfolding sum_of_def by (subst filter_False) auto
  show ?case
    using 2(1)[OF ev_next_states(1)[OF 2(2)]] state_sum_next[OF 2(2), of k ticks j n] none
    by (auto simp: sum_of_def wrap32_add add.assoc)
qed simp

text \<open>C32: A tracker of states refines the log of its counts: the most recent ones are the end of the log up to the
  capacity, newest first, so that the current and the previous state are its last two; a state has a tracker
  when it occurs in the log, and the total of a state is the sum of its counts.\<close>

theorem state_tracker_refines_log:
  assumes "2 \<le> capacity" "capacity < 2147483647"
  shows "let t = ev_run es (ev_new now1 now2 window capacity); log = rev (map snd es) in
    ev_recent t = take (nat capacity) log
    \<and> ev_current_event t = (case log of [] \<Rightarrow> None | e # _ \<Rightarrow> Some e)
    \<and> ev_previous_event t = (case log of e # e' # _ \<Rightarrow> Some e' | _ \<Rightarrow> None)
    \<and> dom (map_of (ev_states t)) = fst ` set log
    \<and> (\<forall>k s. map_of (ev_states t) k = Some s \<longrightarrow> tr_sum s = wrap32 (sum_of (map snd es) k))"
proof -
  let ?n = "ev_new now1 now2 window capacity :: 'a event_tracker" and ?log = "rev (map snd es)"
  let ?t = "ev_run es ?n"
  have new: "ev_recent ?n = []" "ev_capacity ?n = capacity" "ev_states ?n = []" "state_sum k ?n = 0" for k
    by (simp_all add: ev_new_def window_tracker.defs tw_new_def tracker.defs tr_new_def state_sum_def)
  have wf: "lin_key.om_wf (ev_states ?n)" unfolding new by (simp add: lin_key.om_wf_def)
  have recent: "ev_recent ?t = take (nat capacity) ?log"
    using ev_run_recent[of ?n es] new assms by simp
  have m: "nat capacity = Suc (Suc (nat (capacity - 2)))" using assms(1) by linarith
  have current: "ev_current_event ?t = (case ?log of [] \<Rightarrow> None | e # _ \<Rightarrow> Some e)"
    and previous: "ev_previous_event ?t = (case ?log of e # e' # _ \<Rightarrow> Some e' | _ \<Rightarrow> None)"
    unfolding ev_current_event_def ev_previous_event_def recent m by (auto split: list.splits)
  have dom: "dom (map_of (ev_states ?t)) = fst ` set ?log"
    unfolding ev_run_wf(2)[OF wf] new by (auto simp: image_image)
  have sums: "tr_sum s = wrap32 (sum_of (map snd es) k)" if s: "map_of (ev_states ?t) k = Some s" for k s
  proof -
    have "k \<in> fst ` set ?log" unfolding dom[symmetric] using s by blast
    then have "k \<in> set (map (\<lambda>e. fst (snd e)) es)" by (auto simp: image_image)
    then have "state_sum k ?t = wrap32 (sum_of (map snd es) k)" using ev_run_sum[OF wf, of k es] new by simp
    then show ?thesis by (simp add: state_sum_def s)
  qed
  show ?thesis using recent current previous dom sums by (simp add: Let_def)
qed

theorem state_tracker_refines_log_witness:
  "ev_current_event (ev_run [(((1, 1, \<lambda>i. 1), (1, 1), (1, 1, \<lambda>i. 1)), True, 5),
      (((2, 2, \<lambda>i. 2), (2, 2), (2, 2, \<lambda>i. 2)), False, 3)] (ev_new 0 0 60 2)) = Some (False, 3)"
  using state_tracker_refines_log[of 2 "[(((1, 1, \<lambda>i. 1), (1, 1), (1, 1, \<lambda>i. 1)), True, 5),
      (((2, 2, \<lambda>i. 2), (2, 2), (2, 2, \<lambda>i. 2)), False, 3)]" 0 0 60]
  by (simp add: Let_def)

text \<open>The time between two states.\<close>

lemma trunc_div_mono: "a \<le> b \<Longrightarrow> 0 < k \<Longrightarrow> trunc_div a k \<le> trunc_div b k"
proof -
  assume le: "a \<le> b" and k: "0 < k"
  consider "0 \<le> a" | "a < 0" "0 \<le> b" | "b < 0" by linarith
  then show ?thesis
  proof cases
    case 1 then show ?thesis using le k zdiv_mono1[OF le k] by (simp add: trunc_div_def)
  next
    case 2
    have "0 \<le> (- a) div k" "0 \<le> b div k" using 2 k by (simp_all add: pos_imp_zdiv_nonneg_iff)
    then show ?thesis using 2 by (simp add: trunc_div_def)
  next
    case 3 then show ?thesis using le k zdiv_mono1[of "- b" "- a" k] by (simp add: trunc_div_def)
  qed
qed

lemma trunc_div_bounds: "0 < k \<Longrightarrow> - \<bar>a\<bar> \<le> trunc_div a k \<and> trunc_div a k \<le> \<bar>a\<bar>"
  using zdiv_mono2[of a 1 k] zdiv_mono2[of "- a" 1 k] pos_imp_zdiv_nonneg_iff[of k a] pos_imp_zdiv_nonneg_iff[of k "- a"]
  by (auto simp: trunc_div_def)

lemma millis_difference:
  assumes "in_int64 a" "in_int64 b" "a \<le> b" "dur_of_milliseconds (wrap64 (dur_in_millis a - dur_in_millis b)) = Inr d"
  shows "d \<le> 0 \<and> (a = b \<longrightarrow> d = 0)"
proof -
  let ?x = "dur_in_millis a - dur_in_millis b"
  have neg: "?x \<le> 0" using trunc_div_mono[OF assms(3)] by (simp add: dur_in_millis_def)
  have small: "- 9223372036855 \<le> dur_in_millis a" "dur_in_millis b \<le> 9223372036855"
    using trunc_div_mono[of "- 9223372036854775808" a 1000000] trunc_div_mono[of b 9223372036854775807 1000000] assms(1,2)
    by (simp_all add: dur_in_millis_def in_int64_def trunc_div_def)
  then have "wrap64 ?x = ?x" using neg by (simp add: in_int64_def)
  moreover have "\<not> int64_max \<le> ?x" using neg by (simp add: int64_max_def)
  ultimately have "d = ?x * 1000000"
    using assms(4) by (simp add: dur_of_milliseconds_def dur_scaled_def split: if_splits)
  then show ?thesis using neg by auto
qed

text \<open>The time from one state to another does not depend on the other: it is the difference of two readings
  for the first state, never positive, and zero when the clock has not moved between them.\<close>

theorem time_between_states_ignores_second:
  assumes "ev_since_first_from_to nows c1 c2 k1 k2 t = Inr (d, t')" "c1 \<le> c2"
  shows "d \<le> 0 \<and> (c1 = c2 \<longrightarrow> d = 0) \<and> (\<exists>t''. ev_since_first_from_to nows c1 c2 k1 k3 t = Inr (d, t''))"
proof -
  obtain s1 t1 where g: "ev_get_or_create (fst nows) k1 t = (s1, t1)" by force
  let ?a = "c1 - tr_first_access s1" and ?b = "c2 - tr_first_access s1"
  have run: "in_int64 ?a" "in_int64 ?b" "dur_of_milliseconds (wrap64 (dur_in_millis ?a - dur_in_millis ?b)) = Inr d"
    using assms(1) g by (auto simp: ev_since_first_from_to_def tr_since_first_access_def dur_sub_def Let_def
        res_simps split: if_splits prod.splits)
  have "\<exists>t''. ev_since_first_from_to nows c1 c2 k1 k3 t = Inr (d, t'')"
    using run g by (simp add: ev_since_first_from_to_def tr_since_first_access_def dur_sub_def Let_def split: prod.splits)
  then show ?thesis using millis_difference[OF run(1,2) _ run(3)] assms(2) by auto
qed

theorem time_between_states_ignores_second_witness:
  "\<exists>t. ev_since_first_from_to ((0, 0), (0, 0)) 5000000 9000000 True False
     (ev_new 1000000 1000000 60 2) = Inr (- 4000000, t)"
proof -
  have "\<exists>t. ev_since_first_from_to ((0, 0), (0, 0)) 5000000 9000000 True True (ev_new 1000000 1000000 60 2) = Inr (- 4000000, t)"
    by (simp add: ev_since_first_from_to_def ev_get_or_create_def ev_new_def window_tracker.defs tw_new_def
        tracker.defs tr_new_def tr_since_first_access_def dur_sub_def in_int64_def dur_in_millis_def trunc_div_def
        dur_of_milliseconds_def dur_scaled_def int64_max_def Let_def)
  then show ?thesis using time_between_states_ignores_second by fastforce
qed

text \<open>What a status shows as the size of its queue.\<close>

fun size_after :: "flow_call \<Rightarrow> int \<Rightarrow> int" where
  "size_after (CallEnqueue n) z = wrap32 (z + n)"
| "size_after (CallDequeue n) z = max 0 (wrap32 (z - n))"
| "size_after (CallReject n) z = z"
| "size_after (CallFilter n) z = z"

lemma flow_status_size: "fs_queue_size (fs_calls cs ticks i s) = fold size_after cs (fs_queue_size s)"
proof (induction cs arbitrary: i s)
  case (Cons c cs)
  have "fs_queue_size (fs_call c (ticks i) s) = size_after c (fs_queue_size s)"
    by (cases c) (simp_all add: fs_enqueue_def fs_dequeue_def fs_reject_def fs_filter_def)
  then show ?case using Cons by simp
qed simp

definition shown_size :: "'a ring_queue \<Rightarrow> int" where
  "shown_size q = fold size_after (rq_calls q) 0"

text \<open>One operation on a queue: an element put in, or one taken out.\<close>

fun rq_step :: "'a \<Rightarrow> 'a option \<Rightarrow> 'a ring_queue \<Rightarrow> 'a ring_queue res" where
  "rq_step dflt (Some x) q = rbind (rq_try_enqueue x q) (\<lambda>(b, q'). Inr q')"
| "rq_step dflt None q = rbind (rq_dequeue dflt q) (\<lambda>(x, q'). Inr q')"

lemma shown_size_call: "shown_size (flow_call c q) = size_after c (shown_size q)"
  "shown_size (q\<lparr> rq_ring := r \<rparr>) = shown_size q"
  by (simp_all add: shown_size_def flow_call_def)


lemma limited_enqueue_shown:
  assumes "rq_ok capacity q" "shown_size q = rq_size q" "rq_try_enqueue x q = Inr (b, q')"
  shows "rq_ok capacity q' \<and> shown_size q' = rq_size q'"
proof (cases "int (length (rq_contents q)) = capacity")
  case True
  then have "q' = flow_call (CallReject 1) q"
    using rq_full(1)[OF assms(1) True, of x] assms(3) by (simp add: rq_try_enqueue_def)
  then show ?thesis using assms(1,2) by (simp add: rq_ok_call shown_size_call)
next
  case False
  note size = rq_ok_size[OF assms(1)]
  have r: "rb_ok capacity (rq_ring q)" "rq_limit q = capacity" "\<not> rq_is_overwrite q" "rb_length (rq_ring q) < capacity"
    using assms(1) size False by (auto simp: rq_ok_def)
  obtain r' where r': "rb_enqueue x False capacity (rq_ring q) = Inr (True, r')" "rb_ok capacity r'"
    "rb_length r' = rb_length (rq_ring q) + 1"
    using rb_enqueue_keep(1)[OF r(1,4)] by blast
  have q': "q' = flow_call (CallEnqueue 1) (q\<lparr> rq_ring := r' \<rparr>)"
    using assms(3) r r' by (simp add: rq_try_enqueue_def rq_enqueue_def Let_def)
  have "rq_size q' = rq_size q + 1"
    using r r' rb_ok_sizes(2)[OF r(1)] rb_ok_sizes(2)[OF r'(2)] by (simp add: q' rq_size_def)
  moreover have "in_int32 (rq_size q + 1)" using size by (simp add: in_int32_def)
  ultimately show ?thesis using r r' assms(2) by (simp add: q' shown_size_call rq_ok_def)
qed

lemma limited_dequeue_shown:
  assumes "rq_ok capacity q" "shown_size q = rq_size q" "rq_dequeue dflt q = Inr (x, q')"
  shows "rq_ok capacity q' \<and> shown_size q' = rq_size q'"
proof -
  note size = rq_ok_size[OF assms(1)]
  have r: "rb_ok capacity (rq_ring q)" "rq_limit q = capacity" "\<not> rq_is_overwrite q"
    using assms(1) by (auto simp: rq_ok_def)
  consider "rq_contents q = []" | "int (length (rq_contents q)) = capacity"
    | "0 < rb_length (rq_ring q)" "rb_length (rq_ring q) < capacity"
    using size by fastforce
  then show ?thesis
  proof cases
    case 1 then show ?thesis using rq_empty(1)[OF assms(1)] assms(3) by simp
  next
    case 2
    then have "q' = flow_call (CallReject 1) q" using rq_full(2)[OF assms(1) 2] assms(3) by simp
    then show ?thesis using assms(1,2) by (simp add: rq_ok_call shown_size_call)
  next
    case 3
    obtain r' where r': "rb_dequeue capacity (rq_ring q) = Inr (Some (hd (rq_contents q)), r')" "rb_ok capacity r'"
      "rb_contents capacity r' = tl (rq_contents q)"
      using rb_dequeue_cases(1)[OF r(1) 3] r(2) by (auto simp: rq_contents_def)
    have q': "q' = flow_call (CallDequeue 1) (q\<lparr> rq_ring := r' \<rparr>)"
      using assms(3) r r' by (simp add: rq_dequeue_def Let_def)
    then have ok: "rq_ok capacity q'" using r r' by (simp add: rq_ok_def)
    have "rq_contents q' = tl (rq_contents q)" using r' r(2) by (simp add: q' rq_contents_def)
    then have "rq_size q' = rq_size q - 1" using rq_ok_size(1)[OF ok] size 3 by simp
    moreover have "in_int32 (rq_size q - 1)" "0 \<le> rq_size q - 1" using size 3 by (simp_all add: in_int32_def)
    ultimately show ?thesis using ok assms(2) by (simp add: q' shown_size_call)
  qed
qed

lemma limited_run_shown:
  assumes "rq_ok capacity q" "shown_size q = rq_size q" "rfold (rq_step dflt) ops q = Inr q'"
  shows "rq_ok capacity q' \<and> shown_size q' = rq_size q'"
  using assms
proof (induction ops arbitrary: q)
  case (Cons op ops)
  obtain q1 where q1: "rq_step dflt op q = Inr q1" "rfold (rq_step dflt) ops q1 = Inr q'"
    using Cons.prems(3) by (auto simp: res_simps)
  have "rq_ok capacity q1 \<and> shown_size q1 = rq_size q1"
    using q1(1) limited_enqueue_shown[OF Cons.prems(1,2)] limited_dequeue_shown[OF Cons.prems(1,2)]
    by (cases op) (auto simp: res_simps)
  then show ?case using Cons.IH q1(2) by blast
qed simp


lemma enqueue_loop_calls:
  "rq_enqueue_loop xs q = Inr q' \<Longrightarrow> rq_calls q' = rq_calls q @ replicate (length xs) (CallEnqueue 1)"
proof (induction xs arbitrary: q)
  case (Cons x xs)
  obtain b q1 where q1: "rq_enqueue x q = Inr (b, q1)" "b" "rq_enqueue_loop xs q1 = Inr q'"
    using Cons.prems by (auto simp: rq_enqueue_loop_def res_simps asserting_def split: if_splits)
  have "rq_calls q1 = rq_calls q @ [CallEnqueue 1]"
    using q1(1,2) by (auto simp: rq_enqueue_def Let_def flow_call_def res_simps)
  then show ?case using Cons.IH[OF q1(3)] by simp
qed (simp add: rq_enqueue_loop_def)

lemma size_after_enqueues:
  "0 \<le> z \<Longrightarrow> z + int n < 2147483648 \<Longrightarrow> fold size_after (replicate n (CallEnqueue 1)) z = z + int n"
  by (induction n arbitrary: z) (auto simp: in_int32_def)



end
