(* ===== verification/Execution_Status.thy ===== *)
theory Execution_Status
  imports Timing
begin

text \<open>
  \<open>BaseLib/Status\<close>: \<open>ExecutionCount\<close>, \<open>ExecutionTime\<close> and \<open>ExecutionStatus\<close>, what is known of the
  runs of a task. A time point is its nanoseconds since the epoch of the clock; the readings an operation
  makes are arguments, those of a constructor a function of their order. The difference of two time
  points is computed in 64 bits.
\<close>

section \<open>ExecutionCount\<close>

record exec_count =
  ec_successes :: int
  ec_total :: int
  ec_consecutive_successes :: int
  ec_consecutive_failures :: int
  ec_false_starts :: int
  ec_suspended :: int
  ec_interrupted :: int

definition ec_new :: exec_count where
  "ec_new = \<lparr> ec_successes = 0, ec_total = 0, ec_consecutive_successes = 0, ec_consecutive_failures = 0,
     ec_false_starts = 0, ec_suspended = 0, ec_interrupted = 0 \<rparr>"

definition num_failures :: "exec_count \<Rightarrow> int res" where
  "num_failures c =
     (let completed = wrap32 (ec_total c - ec_false_starts c)
      in asserting (0 \<le> completed)
           (asserting (0 \<le> wrap32 (completed - ec_successes c)) (Inr (wrap32 (completed - ec_successes c)))))"

definition num_successes :: "exec_count \<Rightarrow> int" where
  "num_successes c = ec_successes c"

definition total_num_attempts :: "exec_count \<Rightarrow> int res" where
  "total_num_attempts c =
     asserting (0 \<le> wrap32 (ec_total c - ec_false_starts c)) (Inr (wrap32 (ec_total c - ec_false_starts c)))"

definition ec_start :: "exec_count \<Rightarrow> exec_count" where
  "ec_start c = c\<lparr> ec_total := wrap32 (ec_total c + 1) \<rparr>"

definition ec_suspend :: "exec_count \<Rightarrow> exec_count" where
  "ec_suspend c = c\<lparr> ec_suspended := wrap32 (ec_suspended c + 1) \<rparr>"

definition ec_success :: "exec_count \<Rightarrow> exec_count res" where
  "ec_success c =
     (let c' = c\<lparr> ec_consecutive_failures := 0,
                  ec_consecutive_successes := wrap32 (ec_consecutive_successes c + 1),
                  ec_successes := wrap32 (ec_successes c + 1) \<rparr>
      in asserting (ec_successes c' \<le> ec_total c') (Inr c'))"

definition ec_failure :: "exec_count \<Rightarrow> exec_count" where
  "ec_failure c = c\<lparr> ec_consecutive_failures := wrap32 (ec_consecutive_failures c + 1),
     ec_consecutive_successes := 0 \<rparr>"

definition ec_false_start :: "exec_count \<Rightarrow> exec_count" where
  "ec_false_start c = c\<lparr> ec_total := wrap32 (ec_total c + 1), ec_false_starts := wrap32 (ec_false_starts c + 1) \<rparr>"

definition ec_interrupt :: "exec_count \<Rightarrow> exec_count" where
  "ec_interrupt c = c\<lparr> ec_interrupted := wrap32 (ec_interrupted c + 1) \<rparr>"

section \<open>ExecutionTime\<close>

definition time_min :: int where "time_min = - 9223372036854775808"

definition since :: "int \<Rightarrow> int \<Rightarrow> int" where
  "since now t = wrap64 (now - t)"

record exec_time =
  xt_last :: int
  xt_failed :: int
  xt_current :: int
  xt_false_start :: int
  xt_suspended :: int
  xt_interrupted :: int

text \<open>The members without an initialiser take a reading of the clock each.\<close>

definition xt_new :: "(nat \<Rightarrow> int) \<Rightarrow> exec_time" where
  "xt_new clock = \<lparr> xt_last = time_min, xt_failed = time_min, xt_current = clock 0, xt_false_start = clock 1,
     xt_suspended = clock 2, xt_interrupted = clock 3 \<rparr>"

definition since_last_execution :: "int \<Rightarrow> exec_time \<Rightarrow> int" where
  "since_last_execution now t = since now (xt_current t)"

definition since_last_false_start :: "int \<Rightarrow> exec_time \<Rightarrow> int" where
  "since_last_false_start now t = since now (xt_failed t)"

definition did_last_execution_fail :: "exec_time \<Rightarrow> bool" where
  "did_last_execution_fail t \<longleftrightarrow> xt_last t < xt_failed t"

definition xt_start :: "int \<Rightarrow> exec_time \<Rightarrow> exec_time" where
  "xt_start now t = t\<lparr> xt_current := now \<rparr>"

definition xt_suspend :: "int \<Rightarrow> exec_time \<Rightarrow> exec_time" where
  "xt_suspend now t = t\<lparr> xt_suspended := now \<rparr>"

definition xt_success :: "exec_time \<Rightarrow> exec_time" where
  "xt_success t = t\<lparr> xt_last := xt_current t \<rparr>"

definition xt_failure :: "exec_time \<Rightarrow> exec_time" where
  "xt_failure t = t\<lparr> xt_failed := xt_current t \<rparr>"

definition xt_begin_false :: "int \<Rightarrow> exec_time \<Rightarrow> exec_time" where
  "xt_begin_false now t = t\<lparr> xt_current := xt_last t, xt_false_start := now \<rparr>"

definition xt_interrupt :: "int \<Rightarrow> exec_time \<Rightarrow> exec_time" where
  "xt_interrupt now t = t\<lparr> xt_interrupted := now \<rparr>"

section \<open>ExecutionStatus\<close>

datatype exec_state = Untouched | Starting | Started | Suspended | Resumed | Interrupted | Cancelled | Failed | Stopped

record exec_status =
  xs_count :: exec_count
  xs_time :: exec_time
  xs_state :: exec_state

definition xs_new :: "(nat \<Rightarrow> int) \<Rightarrow> exec_status" where
  "xs_new clock = \<lparr> xs_count = ec_new, xs_time = xt_new clock, xs_state = Untouched \<rparr>"

definition xs_reset :: "(nat \<Rightarrow> int) \<Rightarrow> exec_status \<Rightarrow> exec_status" where
  "xs_reset clock s = s\<lparr> xs_count := ec_new, xs_time := xt_new clock, xs_state := Untouched \<rparr>"

definition is_executing :: "exec_status \<Rightarrow> bool" where
  "is_executing s \<longleftrightarrow> xs_state s = Started \<or> xs_state s = Starting \<or> xs_state s = Interrupted"

definition is_starting :: "exec_status \<Rightarrow> bool" where "is_starting s \<longleftrightarrow> xs_state s = Starting"
definition is_started :: "exec_status \<Rightarrow> bool" where "is_started s \<longleftrightarrow> xs_state s = Started"
definition is_success :: "exec_status \<Rightarrow> bool" where "is_success s \<longleftrightarrow> xs_state s = Stopped"
definition is_cancelled :: "exec_status \<Rightarrow> bool" where "is_cancelled s \<longleftrightarrow> xs_state s = Cancelled"
definition is_interrupted :: "exec_status \<Rightarrow> bool" where "is_interrupted s \<longleftrightarrow> xs_state s = Interrupted"
definition is_suspended :: "exec_status \<Rightarrow> bool" where "is_suspended s \<longleftrightarrow> xs_state s = Suspended"
definition is_resumed :: "exec_status \<Rightarrow> bool" where "is_resumed s \<longleftrightarrow> xs_state s = Resumed"
definition is_failed :: "exec_status \<Rightarrow> bool" where "is_failed s \<longleftrightarrow> xs_state s = Failed"

definition is_done :: "exec_status \<Rightarrow> bool" where
  "is_done s \<longleftrightarrow> is_success s \<or> is_failed s \<or> is_cancelled s"

definition is_ever_started :: "exec_status \<Rightarrow> bool res" where
  "is_ever_started s = rbind (total_num_attempts (xs_count s)) (\<lambda>n. Inr (0 < n))"

definition is_never_executed :: "exec_status \<Rightarrow> bool res" where
  "is_never_executed s = rbind (total_num_attempts (xs_count s)) (\<lambda>n. Inr (n \<le> 0))"

definition is_last_execution_failure :: "exec_status \<Rightarrow> bool" where
  "is_last_execution_failure s \<longleftrightarrow> xt_last (xs_time s) < xt_failed (xs_time s)"

definition is_last_execution_success :: "exec_status \<Rightarrow> bool" where
  "is_last_execution_success s \<longleftrightarrow> xt_failed (xs_time s) < xt_last (xs_time s)"

definition is_false_start :: "int \<Rightarrow> exec_status \<Rightarrow> bool" where
  "is_false_start now s \<longleftrightarrow> xs_state s = Untouched \<and> dur_in_millis (since_last_false_start now (xs_time s)) < 20"

definition set_iff_not_executing :: "exec_state \<Rightarrow> exec_status \<Rightarrow> bool \<times> exec_status" where
  "set_iff_not_executing k s = (if \<not> is_executing s then (True, s\<lparr> xs_state := k \<rparr>) else (False, s))"

definition xs_starting :: "exec_status \<Rightarrow> exec_status" where
  "xs_starting s = s\<lparr> xs_state := Starting \<rparr>"

definition xs_start :: "int \<Rightarrow> exec_status \<Rightarrow> exec_status" where
  "xs_start now s = s\<lparr> xs_state := Started, xs_count := ec_start (xs_count s), xs_time := xt_start now (xs_time s) \<rparr>"

definition xs_suspend :: "int \<Rightarrow> exec_status \<Rightarrow> exec_status" where
  "xs_suspend now s = s\<lparr> xs_state := Suspended, xs_count := ec_suspend (xs_count s), xs_time := xt_suspend now (xs_time s) \<rparr>"

definition xs_resume :: "exec_status \<Rightarrow> exec_status" where
  "xs_resume s = s\<lparr> xs_state := Resumed \<rparr>"

definition xs_success :: "exec_status \<Rightarrow> exec_status res" where
  "xs_success s = rbind (ec_success (xs_count s)) (\<lambda>c.
     Inr (s\<lparr> xs_state := Stopped, xs_count := c, xs_time := xt_success (xs_time s) \<rparr>))"

definition xs_failure :: "exec_status \<Rightarrow> exec_status" where
  "xs_failure s = s\<lparr> xs_state := Failed, xs_count := ec_failure (xs_count s), xs_time := xt_failure (xs_time s) \<rparr>"

definition xs_cancel :: "exec_status \<Rightarrow> exec_status" where
  "xs_cancel s = s\<lparr> xs_state := Cancelled, xs_count := ec_failure (xs_count s), xs_time := xt_failure (xs_time s) \<rparr>"

definition xs_interrupt :: "int \<Rightarrow> exec_status \<Rightarrow> exec_status" where
  "xs_interrupt now s = s\<lparr> xs_state := Interrupted, xs_count := ec_interrupt (xs_count s),
     xs_time := xt_interrupt now (xs_time s) \<rparr>"

definition xs_false_start :: "int \<Rightarrow> exec_status \<Rightarrow> exec_status" where
  "xs_false_start now s = s\<lparr> xs_state := Untouched, xs_count := ec_false_start (xs_count s),
     xs_time := xt_begin_false now (xs_time s) \<rparr>"

section \<open>The log of a status\<close>

text \<open>The calls made to a status, and the run of a list of them.\<close>

datatype exec_event = EvStart int | EvSuccess | EvFailure | EvCancel | EvSuspend int | EvResume
  | EvInterrupt int | EvFalseStart int | EvSetUnlessExecuting exec_state

fun xs_apply :: "exec_event \<Rightarrow> exec_status \<Rightarrow> exec_status res" where
  "xs_apply (EvStart now) s = Inr (xs_start now s)"
| "xs_apply EvSuccess s = xs_success s"
| "xs_apply EvFailure s = Inr (xs_failure s)"
| "xs_apply EvCancel s = Inr (xs_cancel s)"
| "xs_apply (EvSuspend now) s = Inr (xs_suspend now s)"
| "xs_apply EvResume s = Inr (xs_resume s)"
| "xs_apply (EvInterrupt now) s = Inr (xs_interrupt now s)"
| "xs_apply (EvFalseStart now) s = Inr (xs_false_start now s)"
| "xs_apply (EvSetUnlessExecuting k) s = Inr (snd (set_iff_not_executing k s))"

fun is_start_event :: "exec_event \<Rightarrow> bool" where
  "is_start_event (EvStart now) = True"
| "is_start_event _ = False"

definition starts_in :: "exec_event list \<Rightarrow> int" where
  "starts_in es = int (length (filter is_start_event es))"

definition successes_in :: "exec_event list \<Rightarrow> int" where
  "successes_in es = int (length (filter ((=) EvSuccess) es))"

text \<open>The failures since the last success, and whether every success has a start of its own before it.\<close>

fun failures_since :: "int \<Rightarrow> exec_event list \<Rightarrow> int" where
  "failures_since n [] = n"
| "failures_since n (e # es) = failures_since
     (if e = EvSuccess then 0 else if e = EvFailure \<or> e = EvCancel then n + 1 else n) es"

fun balanced :: "int \<Rightarrow> exec_event list \<Rightarrow> bool" where
  "balanced open [] = True"
| "balanced open (e # es) =
     (if e = EvSuccess then 0 < open \<and> balanced (open - 1) es
      else balanced (if is_start_event e then open + 1 else open) es)"

text \<open>The counts in range, with \<open>open\<close> starts that have not succeeded.\<close>

definition counts_ok :: "int \<Rightarrow> int \<Rightarrow> exec_count \<Rightarrow> bool" where
  "counts_ok bound open c \<longleftrightarrow> 0 \<le> ec_false_starts c \<and> 0 \<le> ec_successes c \<and> 0 \<le> open
     \<and> ec_total c = ec_false_starts c + ec_successes c + open \<and> ec_total c \<le> bound
     \<and> 0 \<le> ec_consecutive_failures c \<and> ec_consecutive_failures c \<le> bound \<and> bound < 2147483648"

lemma counts_ok_new: "counts_ok 0 0 ec_new"
  by (simp add: counts_ok_def ec_new_def)

lemma counts_ok_mono: "counts_ok b open c \<Longrightarrow> b \<le> b' \<Longrightarrow> b' < 2147483648 \<Longrightarrow> counts_ok b' open c"
  by (auto simp: counts_ok_def)

lemma counts_ok_total:
  assumes "counts_ok bound open c"
  shows "total_num_attempts c = Inr (ec_successes c + open)" "num_failures c = Inr open"
proof -
  have "ec_total c - ec_false_starts c = ec_successes c + open" "in_int32 (ec_successes c + open)" "in_int32 open"
    using assms by (auto simp: counts_ok_def in_int32_def)
  then show "total_num_attempts c = Inr (ec_successes c + open)" "num_failures c = Inr open"
    using assms by (auto simp: total_num_attempts_def num_failures_def counts_ok_def)
qed

lemma xs_apply_counts:
  assumes "counts_ok bound open (xs_count s)" "bound + 1 < 2147483648" "e = EvSuccess \<Longrightarrow> 0 < open"
  defines "open' \<equiv> if e = EvSuccess then open - 1 else if is_start_event e then open + 1 else open"
  shows "\<exists>s'. xs_apply e s = Inr s' \<and> counts_ok (bound + 1) open' (xs_count s')
    \<and> ec_successes (xs_count s') = ec_successes (xs_count s) + (if e = EvSuccess then 1 else 0)
    \<and> ec_consecutive_failures (xs_count s') = (if e = EvSuccess then 0
        else if e = EvFailure \<or> e = EvCancel then ec_consecutive_failures (xs_count s) + 1
        else ec_consecutive_failures (xs_count s))"
proof -
  have w: "wrap32 (ec_total (xs_count s) + 1) = ec_total (xs_count s) + 1"
    "wrap32 (ec_false_starts (xs_count s) + 1) = ec_false_starts (xs_count s) + 1"
    "wrap32 (ec_successes (xs_count s) + 1) = ec_successes (xs_count s) + 1"
    "wrap32 (ec_consecutive_failures (xs_count s) + 1) = ec_consecutive_failures (xs_count s) + 1"
    using assms(1,2) by (auto simp: counts_ok_def in_int32_def)
  show ?thesis
    using assms(1-3) w
    by (cases e) (auto simp: open'_def counts_ok_def xs_start_def xs_success_def xs_failure_def xs_cancel_def xs_suspend_def
        xs_resume_def xs_interrupt_def xs_false_start_def set_iff_not_executing_def ec_start_def ec_success_def
        ec_failure_def ec_suspend_def ec_interrupt_def ec_false_start_def Let_def)
qed

lemma xs_run_counts:
  assumes "counts_ok bound open (xs_count s)" "balanced open es" "bound + int (length es) < 2147483648"
  shows "\<exists>s'. rfold xs_apply es s = Inr s' \<and> counts_ok (bound + int (length es)) (open + starts_in es - successes_in es) (xs_count s')
    \<and> ec_successes (xs_count s') = ec_successes (xs_count s) + successes_in es
    \<and> ec_consecutive_failures (xs_count s') = failures_since (ec_consecutive_failures (xs_count s)) es"
  using assms
proof (induction es arbitrary: s bound "open")
  case Nil
  then show ?case by (simp add: starts_in_def successes_in_def)
next
  case (Cons e es)
  let ?open = "if e = EvSuccess then open - 1 else if is_start_event e then open + 1 else open"
  have e: "e = EvSuccess \<Longrightarrow> 0 < open" "balanced ?open es" using Cons.prems(2) by (auto split: if_splits)
  have b: "bound + 1 < 2147483648" "(bound + 1) + int (length es) < 2147483648" using Cons.prems(3) by auto
  obtain s1 where s1: "xs_apply e s = Inr s1" "counts_ok (bound + 1) ?open (xs_count s1)"
    "ec_successes (xs_count s1) = ec_successes (xs_count s) + (if e = EvSuccess then 1 else 0)"
    "ec_consecutive_failures (xs_count s1) = (if e = EvSuccess then 0
        else if e = EvFailure \<or> e = EvCancel then ec_consecutive_failures (xs_count s) + 1
        else ec_consecutive_failures (xs_count s))"
    using xs_apply_counts[OF Cons.prems(1) b(1) e(1)] by blast
  obtain s2 where s2: "rfold xs_apply es s1 = Inr s2"
    "counts_ok ((bound + 1) + int (length es)) (?open + starts_in es - successes_in es) (xs_count s2)"
    "ec_successes (xs_count s2) = ec_successes (xs_count s1) + successes_in es"
    "ec_consecutive_failures (xs_count s2) = failures_since (ec_consecutive_failures (xs_count s1)) es"
    using Cons.IH[OF s1(2) e(2) b(2)] by blast
  have open_eq: "?open + starts_in es - successes_in es = open + starts_in (e # es) - successes_in (e # es)"
    by (auto simp: starts_in_def successes_in_def)
  have bound_eq: "(bound + 1) + int (length es) = bound + int (length (e # es))" by simp
  have "ec_successes (xs_count s2) = ec_successes (xs_count s) + successes_in (e # es)"
    using s1(3) s2(3) by (auto simp: successes_in_def)
  moreover have "ec_consecutive_failures (xs_count s2) = failures_since (ec_consecutive_failures (xs_count s)) (e # es)"
    using s1(4) s2(4) by simp
  ultimately show ?case using s1(1) s2(1) s2(2)[unfolded open_eq bound_eq] by simp
qed

text \<open>C29: A status counts what is reported to it: after any run of calls in which each success has a start of its
  own, no assertion fails, the attempts are the starts, the successes the successes, the consecutive failures
  those since the last success, and every start without a success counts as a failure, even while it runs.\<close>

theorem execution_counts_refine_log:
  assumes "balanced 0 es" "int (length es) < 2147483648"
  shows "\<exists>s. rfold xs_apply es (xs_new clock) = Inr s \<and> num_successes (xs_count s) = successes_in es
    \<and> total_num_attempts (xs_count s) = Inr (starts_in es)
    \<and> num_failures (xs_count s) = Inr (starts_in es - successes_in es)
    \<and> ec_consecutive_failures (xs_count s) = failures_since 0 es"
proof -
  have new: "counts_ok 0 0 (xs_count (xs_new clock))" "ec_successes (xs_count (xs_new clock)) = 0"
    "ec_consecutive_failures (xs_count (xs_new clock)) = 0"
    using counts_ok_new by (simp_all add: xs_new_def ec_new_def)
  obtain s where "rfold xs_apply es (xs_new clock) = Inr s"
    "counts_ok (int (length es)) (starts_in es - successes_in es) (xs_count s)"
    "ec_successes (xs_count s) = successes_in es" "ec_consecutive_failures (xs_count s) = failures_since 0 es"
    using xs_run_counts[OF new(1) assms(1)] assms(2) new(2,3) by auto
  then show ?thesis using counts_ok_total by (auto simp: num_successes_def)
qed

theorem execution_counts_refine_log_witness:
  "\<exists>s. rfold xs_apply [EvStart 5, EvFailure, EvStart 9, EvSuccess, EvStart 12] (xs_new (\<lambda>i. 0)) = Inr s
    \<and> total_num_attempts (xs_count s) = Inr 3 \<and> num_failures (xs_count s) = Inr 2"
  using execution_counts_refine_log[of "[EvStart 5, EvFailure, EvStart 9, EvSuccess, EvStart 12]" "\<lambda>i. 0"]
  by (auto simp: starts_in_def successes_in_def)

end
