(* ===== verification/Execution_Checker.thy ===== *)
theory Execution_Checker
  imports Execution_Status
begin

text \<open>
  The policies of \<open>BaseLib/Policy\<close> that say when a task runs, and \<open>BaseLib/Strategy/ExecutionChecker\<close>,
  which compares them with the status of the task. A function that looks at the clock has its readings
  as a function \<open>clock\<close> of their order; a reading that a branch does not make has a number all the same.
\<close>

section \<open>Policies\<close>

datatype attempt_kind = UntilSuccess | NumSuccessfulTimes | Forever

record attempt =
  at_kind :: attempt_kind
  at_successes :: int
  at_max :: int

definition until_success :: "int \<Rightarrow> attempt" where
  "until_success n = \<lparr> at_kind = UntilSuccess, at_successes = 1, at_max = n \<rparr>"

definition num_successful_times :: "int \<Rightarrow> int \<Rightarrow> attempt" where
  "num_successful_times k n = \<lparr> at_kind = NumSuccessfulTimes, at_successes = k, at_max = n \<rparr>"

definition attempt_forever :: attempt where
  "attempt_forever = \<lparr> at_kind = Forever, at_successes = int32_max, at_max = int32_max \<rparr>"

definition attempt_default :: attempt where
  "attempt_default = until_success 5"

text \<open>\<open>Duration::FromMilliseconds\<close> on an \<open>int\<close>, for which it does not overflow.\<close>

definition from_millis :: "int \<Rightarrow> int" where
  "from_millis n = n * 1000000"

lemma from_millis_ok: "in_int32 n \<Longrightarrow> dur_of_milliseconds n = Inr (from_millis n)"
  by (auto simp: dur_of_milliseconds_def dur_scaled_def from_millis_def in_int32_def in_int64_def int64_max_def)

datatype interval_kind = FromStart | FromStop

record interval =
  iv_initial :: int
  iv_period :: int
  iv_kind :: interval_kind

definition iv_default :: interval where
  "iv_default = \<lparr> iv_initial = dur_zero, iv_period = from_millis 1000, iv_kind = FromStop \<rparr>"

definition iv_immediately_then_every :: "int \<Rightarrow> interval" where
  "iv_immediately_then_every ms = \<lparr> iv_initial = dur_zero, iv_period = from_millis ms, iv_kind = FromStop \<rparr>"

definition iv_immediately :: interval where
  "iv_immediately = \<lparr> iv_initial = dur_zero, iv_period = dur_zero, iv_kind = FromStop \<rparr>"

definition iv_delayed_then_every :: "int \<Rightarrow> int \<Rightarrow> interval" where
  "iv_delayed_then_every d p = \<lparr> iv_initial = d, iv_period = p, iv_kind = FromStop \<rparr>"

definition iv_every_ms :: "int \<Rightarrow> interval" where
  "iv_every_ms ms = \<lparr> iv_initial = from_millis ms, iv_period = from_millis ms, iv_kind = FromStop \<rparr>"

definition iv_infinite :: interval where
  "iv_infinite = \<lparr> iv_initial = dur_zero, iv_period = dur_infinite, iv_kind = FromStart \<rparr>"

datatype criterion_kind = CritAll | CritMinimum | CritUnconditional

record criterion =
  cr_limit :: int
  cr_kind :: criterion_kind

definition cr_all :: criterion where "cr_all = \<lparr> cr_limit = int32_max, cr_kind = CritAll \<rparr>"
definition cr_minimum :: "int \<Rightarrow> criterion" where "cr_minimum n = \<lparr> cr_limit = n, cr_kind = CritMinimum \<rparr>"
definition cr_unconditional :: criterion where "cr_unconditional = \<lparr> cr_limit = 0, cr_kind = CritUnconditional \<rparr>"

section \<open>The checks\<close>

definition elapsed :: "int \<Rightarrow> exec_status \<Rightarrow> int" where
  "elapsed now s = since_last_execution now (xs_time s)"

definition is_in_lifespan :: "int \<Rightarrow> exec_status \<Rightarrow> int \<Rightarrow> bool" where
  "is_in_lifespan now s lifespan \<longleftrightarrow> lifespan < elapsed now s"

definition is_in_interval :: "(nat \<Rightarrow> int) \<Rightarrow> exec_status \<Rightarrow> interval \<Rightarrow> bool res" where
  "is_in_interval clock s iv =
     (if is_suspended s then Inr False
      else rbind (is_never_executed s) (\<lambda>never.
             if never \<and> iv_initial iv \<le> elapsed (clock 0) s then Inr True
             else if iv_period iv \<le> elapsed (clock 1) s then Inr True
             else Inr False))"

definition is_in_retry_interval :: "(nat \<Rightarrow> int) \<Rightarrow> exec_status \<Rightarrow> interval \<Rightarrow> bool res" where
  "is_in_retry_interval clock s iv =
     (if is_last_execution_failure s then is_in_interval clock s iv else Inr False)"

definition is_in_attempt :: "exec_status \<Rightarrow> attempt \<Rightarrow> bool res" where
  "is_in_attempt s a =
     (if is_cancelled s then Inr False
      else case at_kind a of
        Forever \<Rightarrow> Inr True
      | NumSuccessfulTimes \<Rightarrow> rbind (total_num_attempts (xs_count s)) (\<lambda>n.
          Inr (if at_max a \<le> n then False else num_successes (xs_count s) < at_successes a))
      | UntilSuccess \<Rightarrow> rbind (total_num_attempts (xs_count s)) (\<lambda>n.
          Inr (if at_max a \<le> n then False else num_successes (xs_count s) = 0)))"

definition is_timeout :: "int \<Rightarrow> exec_status \<Rightarrow> int \<Rightarrow> bool" where
  "is_timeout now s timeout \<longleftrightarrow> is_executing s \<and> timeout \<le> elapsed now s"

definition is_idle :: "int \<Rightarrow> exec_status \<Rightarrow> int \<Rightarrow> bool" where
  "is_idle now s timeout \<longleftrightarrow> \<not> is_executing s \<and> timeout \<le> elapsed now s"

abbreviation later :: "nat \<Rightarrow> (nat \<Rightarrow> int) \<Rightarrow> nat \<Rightarrow> int" where
  "later k clock \<equiv> (\<lambda>i. clock (k + i))"

definition is_ready_to_execute ::
  "(nat \<Rightarrow> int) \<Rightarrow> exec_status \<Rightarrow> attempt \<Rightarrow> interval \<Rightarrow> interval \<Rightarrow> bool res" where
  "is_ready_to_execute clock s a iv retry =
     rbind (is_in_attempt s a) (\<lambda>lifetime.
     rbind (is_in_interval clock s iv) (\<lambda>inside.
     rbind (is_in_retry_interval (later 2 clock) s retry) (\<lambda>again.
       Inr ((lifetime \<and> inside) \<or> (lifetime \<and> again)))))"

definition time_until_next_execution :: "int \<Rightarrow> exec_status \<Rightarrow> interval \<Rightarrow> int res" where
  "time_until_next_execution now s iv =
     (if is_suspended s then Inr dur_infinite
      else rbind (is_never_executed s) (\<lambda>never.
             if never then Inr (max dur_zero (wrap64 (iv_initial iv - elapsed now s)))
             else Inr (max dur_zero (wrap64 (iv_period iv - elapsed now s)))))"

definition time_until_next_retry :: "(nat \<Rightarrow> int) \<Rightarrow> exec_status \<Rightarrow> interval \<Rightarrow> int res" where
  "time_until_next_retry clock s iv =
     rbind (is_in_retry_interval clock s iv) (\<lambda>again.
       if again then time_until_next_execution (clock 2) s iv else Inr dur_infinite)"

definition time_until_timeout :: "int \<Rightarrow> exec_status \<Rightarrow> int \<Rightarrow> int" where
  "time_until_timeout now s timeout =
     (if \<not> is_executing s \<or> is_suspended s then dur_infinite
      else max dur_zero (wrap64 (timeout - elapsed now s)))"

text \<open>A number of milliseconds goes into the constructor that takes nanoseconds.\<close>

definition exponential_backoff :: "exec_status \<Rightarrow> interval \<Rightarrow> int" where
  "exponential_backoff s retry =
     max (wrap32 (ec_consecutive_failures (xs_count s) * wrap32 (dur_in_millis (iv_period retry))))
         (wrap32 (ec_false_starts (xs_count s) * 1000))"

definition earliest_ready_in ::
  "(nat \<Rightarrow> int) \<Rightarrow> exec_status \<Rightarrow> attempt \<Rightarrow> interval \<Rightarrow> interval \<Rightarrow> int \<Rightarrow> int res" where
  "earliest_ready_in clock s a iv retry timeout =
     rbind (is_in_attempt s a) (\<lambda>attempt.
     rbind (if attempt \<and> \<not> is_executing s then time_until_next_execution (clock 0) s iv
            else if is_executing s then Inr (iv_period iv) else Inr dur_infinite) (\<lambda>next_execution.
     rbind (time_until_next_retry (later 1 clock) s retry) (\<lambda>next_retry.
     let next_timeout = (if \<not> is_interrupted s then time_until_timeout (clock 4) s timeout else dur_infinite);
         earliest = min (min (min dur_infinite next_execution) next_retry) next_timeout;
         result = (if is_false_start (clock 5) s \<and> earliest \<le> dur_zero then exponential_backoff s retry else earliest)
     in if result \<le> dur_zero
        then asserting (\<not> is_suspended s)
               (if next_timeout \<le> dur_zero then asserting (is_executing s) (Inr result)
                else asserting (\<not> is_executing s)
                       (rbind (is_ready_to_execute (later 6 clock) s a iv retry) (\<lambda>ready.
                          asserting ready (Inr result))))
        else Inr result)))"

definition is_lifetime_policy_violated :: "exec_status \<Rightarrow> attempt \<Rightarrow> bool res" where
  "is_lifetime_policy_violated s a =
     rbind (total_num_attempts (xs_count s)) (\<lambda>n.
       Inr (if at_max a < n then True else at_successes a < num_successes (xs_count s)))"

definition is_interval_policy_violated :: "int \<Rightarrow> exec_status \<Rightarrow> interval \<Rightarrow> bool res" where
  "is_interval_policy_violated now s iv =
     (if is_suspended s then Inr False
      else rbind (is_never_executed s) (\<lambda>never.
             if never then Inr (iv_initial iv < elapsed now s) else Inr (iv_period iv < elapsed now s)))"

definition is_timeout_policy_violated :: "int \<Rightarrow> exec_status \<Rightarrow> int \<Rightarrow> bool" where
  "is_timeout_policy_violated now s timeout \<longleftrightarrow> is_executing s \<and> timeout < elapsed now s"

definition is_policy_violated :: "(nat \<Rightarrow> int) \<Rightarrow> exec_status \<Rightarrow> interval \<Rightarrow> int \<Rightarrow> attempt \<Rightarrow> bool res" where
  "is_policy_violated clock s iv timeout a =
     rbind (is_interval_policy_violated (clock 0) s iv) (\<lambda>violated.
       if violated then Inr True
       else if is_timeout_policy_violated (clock 1) s timeout then Inr True
       else is_lifetime_policy_violated s a)"

definition is_criterion_met :: "exec_status \<Rightarrow> criterion \<Rightarrow> bool res" where
  "is_criterion_met s c =
     (case cr_kind c of
        CritAll \<Rightarrow> rbind (num_failures (xs_count s)) (\<lambda>n. Inr (n \<le> 0))
      | CritMinimum \<Rightarrow> rbind (num_failures (xs_count s)) (\<lambda>n. Inr (n \<le> cr_limit c))
      | CritUnconditional \<Rightarrow> Inr True)"

section \<open>Facts\<close>

text \<open>Readings in order, after the start of the last execution; durations that are not negative.\<close>

definition times_ok :: "(nat \<Rightarrow> int) \<Rightarrow> exec_status \<Rightarrow> bool" where
  "times_ok clock s \<longleftrightarrow> mono clock \<and> (\<forall>i. xt_current (xs_time s) \<le> clock i
     \<and> clock i - xt_current (xs_time s) < 9223372036854775808)"

definition interval_ok :: "interval \<Rightarrow> bool" where
  "interval_ok iv \<longleftrightarrow> 0 \<le> iv_initial iv \<and> iv_initial iv < 9223372036854775808
     \<and> 0 \<le> iv_period iv \<and> iv_period iv < 9223372036854775808"

text \<open>A status that may have failed only after a start; \<open>open\<close> starts have not succeeded.\<close>

definition status_ok :: "int \<Rightarrow> int \<Rightarrow> exec_status \<Rightarrow> bool" where
  "status_ok bound open s \<longleftrightarrow> counts_ok bound open (xs_count s)
     \<and> (is_last_execution_failure s \<longrightarrow> 0 < ec_successes (xs_count s) + open)"

definition attempts_of :: "int \<Rightarrow> exec_status \<Rightarrow> int" where
  "attempts_of open s = ec_successes (xs_count s) + open"

lemma times_ok_later: "times_ok clock s \<Longrightarrow> times_ok (later k clock) s"
  by (auto simp: times_ok_def mono_def)

lemma elapsed_ok:
  assumes "times_ok clock s"
  shows "elapsed (clock i) s = clock i - xt_current (xs_time s)" "0 \<le> elapsed (clock i) s"
    "elapsed (clock i) s < 9223372036854775808"
proof -
  have "0 \<le> clock i - xt_current (xs_time s)" "clock i - xt_current (xs_time s) < 9223372036854775808"
    using assms by (simp_all add: times_ok_def)
  then show "elapsed (clock i) s = clock i - xt_current (xs_time s)" "0 \<le> elapsed (clock i) s"
    "elapsed (clock i) s < 9223372036854775808"
    by (auto simp: elapsed_def since_last_execution_def since_def in_int64_def)
qed

lemma elapsed_mono: "times_ok clock s \<Longrightarrow> i \<le> j \<Longrightarrow> elapsed (clock i) s \<le> elapsed (clock j) s"
  by (simp add: elapsed_ok(1)) (simp add: times_ok_def mono_def)

lemma remaining_ok:
  assumes "times_ok clock s" "0 \<le> d" "d < 9223372036854775808"
  shows "wrap64 (d - elapsed (clock i) s) = d - elapsed (clock i) s"
  using assms elapsed_ok(2,3)[OF assms(1), of i] by (auto simp: in_int64_def)

lemma attempts_ok:
  assumes "status_ok bound open s"
  shows "total_num_attempts (xs_count s) = Inr (attempts_of open s)"
    "is_never_executed s = Inr (attempts_of open s \<le> 0)" "0 \<le> attempts_of open s"
    "is_last_execution_failure s \<Longrightarrow> 0 < attempts_of open s"
  using assms counts_ok_total(1)[of bound "open" "xs_count s"]
  by (auto simp: status_ok_def is_never_executed_def attempts_of_def counts_ok_def)

lemma in_attempt_returns:
  assumes "status_ok bound open s"
  shows "is_in_attempt s a = Inr (\<not> is_cancelled s \<and> (case at_kind a of Forever \<Rightarrow> True
    | NumSuccessfulTimes \<Rightarrow> attempts_of open s < at_max a \<and> ec_successes (xs_count s) < at_successes a
    | UntilSuccess \<Rightarrow> attempts_of open s < at_max a \<and> ec_successes (xs_count s) = 0))"
  using attempts_ok(1)[OF assms] by (auto simp: is_in_attempt_def num_successes_def split: attempt_kind.splits)

lemma in_interval_returns:
  assumes "status_ok bound open s"
  shows "is_in_interval clock s iv = Inr (\<not> is_suspended s \<and>
    (attempts_of open s \<le> 0 \<and> iv_initial iv \<le> elapsed (clock 0) s \<or> iv_period iv \<le> elapsed (clock 1) s))"
  using attempts_ok(2)[OF assms] by (auto simp: is_in_interval_def)

text \<open>Once inside the interval a task stays inside, as long as its status does not change.\<close>

lemma in_interval_stays:
  assumes "status_ok bound open s" "times_ok clock s" "i \<le> j"
    and "is_in_interval (later i clock) s iv = Inr True"
  shows "is_in_interval (later j clock) s iv = Inr True"
  using assms(4) elapsed_mono[OF assms(2), of i j] elapsed_mono[OF assms(2), of "i + 1" "j + 1"] assms(3)
  unfolding in_interval_returns[OF assms(1)] by auto

lemma until_next_returns:
  assumes "status_ok bound open s" "times_ok clock s" "interval_ok iv"
  shows "time_until_next_execution (clock i) s iv = Inr (if is_suspended s then dur_infinite
    else max 0 ((if attempts_of open s \<le> 0 then iv_initial iv else iv_period iv) - elapsed (clock i) s))"
  using assms(3) attempts_ok(2)[OF assms(1)] remaining_ok[OF assms(2)]
  by (auto simp: time_until_next_execution_def interval_ok_def dur_zero_def)

text \<open>A retry is due at once or not at all.\<close>

lemma until_retry_returns:
  assumes "status_ok bound open s" "times_ok clock s" "interval_ok iv"
  shows "time_until_next_retry (later k clock) s iv = Inr
    (if is_last_execution_failure s \<and> \<not> is_suspended s \<and> iv_period iv \<le> elapsed (clock (k + 1)) s then 0 else dur_infinite)"
proof (cases "is_last_execution_failure s")
  case True
  have "0 < attempts_of open s" by (rule attempts_ok(4)[OF assms(1) True])
  moreover have "elapsed (clock (k + 1)) s \<le> elapsed (clock (k + 2)) s" by (rule elapsed_mono[OF assms(2)]) simp
  ultimately show ?thesis
    using True in_interval_returns[OF assms(1)] until_next_returns[OF assms, of "k + 2"]
    by (auto simp: time_until_next_retry_def is_in_retry_interval_def)
qed (simp add: time_until_next_retry_def is_in_retry_interval_def)

lemma until_timeout_returns:
  assumes "times_ok clock s" "0 \<le> timeout" "timeout < 9223372036854775808"
  shows "time_until_timeout (clock i) s timeout =
    (if is_executing s then max 0 (timeout - elapsed (clock i) s) else dur_infinite)"
  using remaining_ok[OF assms] by (auto simp: time_until_timeout_def dur_zero_def is_executing_def is_suspended_def)

lemma ready_returns:
  assumes "status_ok bound open s" "times_ok clock s" "is_in_attempt s a = Inr True"
    and "is_in_interval (later i clock) s iv = Inr True \<or> is_last_execution_failure s \<and> is_in_interval (later j clock) s retry = Inr True"
    and "i \<le> k" "j \<le> k + 2"
  shows "is_ready_to_execute (later k clock) s a iv retry = Inr True"
proof -
  have "is_in_interval (later i clock) s iv = Inr True \<Longrightarrow> is_in_interval (later k clock) s iv = Inr True"
    using in_interval_stays[OF assms(1,2)] assms(5) by blast
  moreover have "is_in_interval (later j clock) s retry = Inr True \<Longrightarrow> is_in_interval (later (k + 2) clock) s retry = Inr True"
    using in_interval_stays[OF assms(1,2)] assms(6) by blast
  ultimately show ?thesis
    using assms(3,4) in_interval_returns[OF assms(1)]
    by (auto simp: is_ready_to_execute_def is_in_retry_interval_def add.assoc)
qed

section \<open>When a task is due\<close>

text \<open>What the parts of \<open>earliest_ready_in\<close> are.\<close>

definition policy_ok :: "interval \<Rightarrow> interval \<Rightarrow> int \<Rightarrow> bool" where
  "policy_ok iv retry timeout \<longleftrightarrow> interval_ok iv \<and> interval_ok retry \<and> 0 \<le> timeout \<and> timeout < 9223372036854775808"

definition retry_due :: "(nat \<Rightarrow> int) \<Rightarrow> exec_status \<Rightarrow> interval \<Rightarrow> bool" where
  "retry_due clock s retry \<longleftrightarrow> is_last_execution_failure s \<and> \<not> is_suspended s \<and> iv_period retry \<le> elapsed (clock 2) s"

lemma executing_not_suspended: "is_executing s \<Longrightarrow> \<not> is_suspended s"
  by (auto simp: is_executing_def is_suspended_def)

lemma executing_not_false_start: "is_executing s \<Longrightarrow> \<not> is_false_start now s"
  by (auto simp: is_executing_def is_false_start_def)

lemma executing_ready:
  assumes "is_executing s" "status_ok bound open s" "times_ok clock s" "policy_ok iv retry timeout"
  shows "earliest_ready_in clock s a iv retry timeout =
    (let rest = (if is_interrupted s then dur_infinite else timeout - elapsed (clock 4) s) in
     if rest \<le> 0 then Inr 0
     else if iv_period iv = 0 \<or> retry_due clock s retry then Inl AssertFailed
     else Inr (min (iv_period iv) rest))"
proof -
  have pol: "interval_ok iv" "interval_ok retry" "0 \<le> timeout" "timeout < 9223372036854775808"
    using assms(4) by (auto simp: policy_ok_def)
  obtain b where b: "is_in_attempt s a = Inr b" using in_attempt_returns[OF assms(2)] by blast
  let ?retry = "if retry_due clock s retry then 0 else dur_infinite"
  have retry: "time_until_next_retry (later 1 clock) s retry = Inr ?retry"
    using until_retry_returns[OF assms(2,3) pol(2), of 1]
    by (simp add: retry_due_def numeral_2_eq_2)
  let ?rest = "if is_interrupted s then dur_infinite else timeout - elapsed (clock 4) s"
  have timeout: "(if \<not> is_interrupted s then time_until_timeout (clock 4) s timeout else dur_infinite) = max 0 ?rest"
    using until_timeout_returns[OF assms(3) pol(3,4), of 4] assms(1) by (simp add: dur_infinite_def int64_max_def)
  have inf: "0 < dur_infinite" "iv_period iv \<le> dur_infinite" "0 \<le> iv_period iv" "max 0 ?rest \<le> dur_infinite"
    using pol elapsed_ok(2)[OF assms(3), of 4] by (auto simp: dur_infinite_def int64_max_def interval_ok_def)
  let ?e = "min (min (min dur_infinite (iv_period iv)) ?retry) (max 0 ?rest)"
  have ready: "earliest_ready_in clock s a iv retry timeout =
      (if ?e \<le> 0 then if max 0 ?rest \<le> 0 then Inr ?e else Inl AssertFailed else Inr ?e)"
    unfolding earliest_ready_in_def b retry timeout
    using assms(1) executing_not_false_start[OF assms(1)] executing_not_suspended[OF assms(1)]
    by (simp add: Let_def dur_zero_def)
  show ?thesis
  proof (cases "?rest \<le> 0")
    case True
    then have "?e = 0" using inf by simp
    then show ?thesis unfolding ready using True by (simp add: Let_def)
  next
    case False
    then have "?e \<le> 0 \<longleftrightarrow> iv_period iv = 0 \<or> retry_due clock s retry"
      "\<not> retry_due clock s retry \<Longrightarrow> ?e = min (iv_period iv) ?rest"
      using inf by auto
    then show ?thesis unfolding ready using False by (auto simp: Let_def)
  qed
qed

text \<open>An executing task is due in its period or in the rest of its timeout, whichever is shorter; once the
  timeout is over it is due at once. But the assertion that a task that is due does not execute stops the program
  before the timeout when the period is zero, or when the task failed last time and has been running for the retry
  period.\<close>

theorem executing_task_ready_in:
  assumes "is_executing s" "status_ok bound open s" "times_ok clock s" "policy_ok iv retry timeout"
  shows "earliest_ready_in clock s a iv retry timeout =
    (let rest = (if is_interrupted s then dur_infinite else timeout - elapsed (clock 4) s) in
     if rest \<le> 0 then Inr 0
     else if iv_period iv = 0 \<or> retry_due clock s retry then Inl AssertFailed
     else Inr (min (iv_period iv) rest))"
  using assms by (rule executing_ready)

theorem executing_task_ready_in_witness:
  "earliest_ready_in (\<lambda>i. 7) (xs_start 5 (xs_new (\<lambda>i. 0))) (until_success 1) iv_immediately iv_default 100 = Inl AssertFailed"
proof -
  let ?s = "xs_start 5 (xs_new (\<lambda>i. 0))"
  have "is_executing ?s" "status_ok 1 1 ?s" "times_ok (\<lambda>i. 7) ?s" "policy_ok iv_immediately iv_default 100"
    by (auto simp: is_executing_def xs_start_def xs_new_def status_ok_def counts_ok_def ec_start_def ec_new_def in_int32_def
        times_ok_def xt_start_def xt_new_def policy_ok_def interval_ok_def iv_immediately_def iv_default_def dur_zero_def
        from_millis_def mono_def)
  from executing_task_ready_in[OF this, of "until_success 1"] show ?thesis
    by (simp add: is_interrupted_def elapsed_def since_last_execution_def since_def in_int64_def xs_start_def xs_new_def
        xt_start_def xt_new_def iv_immediately_def dur_zero_def)
qed

lemma idle_ready:
  assumes "\<not> is_executing s" "is_false_start (clock 5) s \<longrightarrow> exponential_backoff s retry = 0"
    and "status_ok bound open s" "times_ok clock s" "policy_ok iv retry timeout" "is_in_attempt s a = Inr b"
  shows "earliest_ready_in clock s a iv retry timeout =
    (let delay = (if attempts_of open s \<le> 0 then iv_initial iv else iv_period iv) - elapsed (clock 0) s in
     if b then if is_suspended s then Inr dur_infinite
               else if retry_due clock s retry then Inr 0 else Inr (max 0 delay)
     else if retry_due clock s retry then Inl AssertFailed else Inr dur_infinite)"
proof -
  have pol: "interval_ok iv" "interval_ok retry" using assms(5) by (auto simp: policy_ok_def)
  let ?retry = "if retry_due clock s retry then 0 else dur_infinite"
  have retry: "time_until_next_retry (later 1 clock) s retry = Inr ?retry"
    using until_retry_returns[OF assms(3,4) pol(2), of 1] by (simp add: retry_due_def numeral_2_eq_2)
  have timeout: "(if \<not> is_interrupted s then time_until_timeout (clock 4) s timeout else dur_infinite) = dur_infinite"
    using assms(1) by (simp add: time_until_timeout_def)
  define delay where "delay = (if attempts_of open s \<le> 0 then iv_initial iv else iv_period iv) - elapsed (clock 0) s"
  define due where "due = (if b \<and> \<not> is_suspended s then max 0 delay else dur_infinite)"
  have "next": "(if b \<and> \<not> is_executing s then time_until_next_execution (clock 0) s iv
      else if is_executing s then Inr (iv_period iv) else Inr dur_infinite) = Inr due"
    using assms(1) until_next_returns[OF assms(3,4) pol(1), of 0] by (simp add: due_def delay_def)
  have inf: "0 < dur_infinite" by (simp add: dur_infinite_def int64_max_def)
  have "delay < 9223372036854775808"
    using pol(1) elapsed_ok(2)[OF assms(4), of 0] by (auto simp: delay_def interval_ok_def)
  then have "n": "0 \<le> due" "due \<le> dur_infinite" "due = 0 \<Longrightarrow> b \<and> \<not> is_suspended s \<and> delay \<le> 0"
    unfolding due_def by (auto simp: dur_infinite_def int64_max_def split: if_splits)
  let ?r = "retry_due clock s retry"
  have e: "min (min (min dur_infinite due) ?retry) dur_infinite = (if ?r then 0 else due)"
    using inf n(1,2) by simp
  have ready: "is_ready_to_execute (later 6 clock) s a iv retry = Inr b" if zero: "?r \<or> due = 0"
  proof (cases b)
    case True
    have inside: "is_in_interval (later 0 clock) s iv = Inr True" if "due = 0"
      using n(3)[OF that] elapsed_mono[OF assms(4), of 0 1] in_interval_returns[OF assms(3), of "later 0 clock" iv]
      by (auto simp: delay_def split: if_splits)
    have again: "is_last_execution_failure s \<and> is_in_interval (later 1 clock) s retry = Inr True" if "?r"
      using that in_interval_returns[OF assms(3), of "later 1 clock" retry] by (auto simp: retry_due_def numeral_2_eq_2)
    have att: "is_in_attempt s a = Inr True" using assms(6) True by simp
    have "is_in_interval (later 0 clock) s iv = Inr True
        \<or> is_last_execution_failure s \<and> is_in_interval (later 1 clock) s retry = Inr True"
      using zero inside again by blast
    then show ?thesis using ready_returns[OF assms(3,4) att, of 0 iv 1 retry 6] True by simp
  next
    case False
    then show ?thesis
      using assms(6) in_interval_returns[OF assms(3)] by (simp add: is_ready_to_execute_def is_in_retry_interval_def)
  qed
  have main: "earliest_ready_in clock s a iv retry timeout = (if (if ?r then 0 else due) \<le> 0
      then asserting (\<not> is_suspended s) (rbind (is_ready_to_execute (later 6 clock) s a iv retry)
             (\<lambda>r. asserting r (Inr (if ?r then 0 else due))))
      else Inr (if ?r then 0 else due))"
  proof -
    have zero: "due \<le> 0 \<longleftrightarrow> due = 0" using n(1) by linarith
    show ?thesis
      unfolding earliest_ready_in_def assms(6) retry timeout rbind.simps "next" Let_def e dur_zero_def
      using assms(1,2) inf zero by (cases "?r"; cases "due = 0"; cases "is_false_start (clock 5) s") simp_all
  qed
  consider "?r" | "\<not> ?r" "due = 0" | "\<not> ?r" "0 < due" using n(1) by linarith
  then show ?thesis
  proof cases
    case 1
    then have "\<not> is_suspended s" by (simp add: retry_due_def)
    then show ?thesis unfolding main using 1 ready by simp
  next
    case 2
    then show ?thesis unfolding main using n(3) ready by (simp add: Let_def delay_def)
  next
    case 3
    then have "\<not> due \<le> 0" by simp
    then have "earliest_ready_in clock s a iv retry timeout = Inr due" unfolding main using 3(1) by simp
    then show ?thesis using 3 unfolding due_def delay_def by (auto simp: Let_def)
  qed
qed

text \<open>A task that does not execute is due after its initial delay, or its period once it was executed, and at once
  when a retry is due; a suspended task is never due. While attempts are left no assertion fails and a task that is
  due is ready to execute; but when none are left a failure that is a retry period old makes the task due, and the
  assertion that it is ready stops the program.\<close>

theorem idle_task_ready_in:
  assumes "\<not> is_executing s" "is_false_start (clock 5) s \<longrightarrow> exponential_backoff s retry = 0"
    and "status_ok bound open s" "times_ok clock s" "policy_ok iv retry timeout" "is_in_attempt s a = Inr b"
  shows "earliest_ready_in clock s a iv retry timeout =
    (let delay = (if attempts_of open s \<le> 0 then iv_initial iv else iv_period iv) - elapsed (clock 0) s in
     if b then if is_suspended s then Inr dur_infinite
               else if retry_due clock s retry then Inr 0 else Inr (max 0 delay)
     else if retry_due clock s retry then Inl AssertFailed else Inr dur_infinite)"
  using assms by (rule idle_ready)

theorem idle_task_ready_in_witness:
  "earliest_ready_in (\<lambda>i. 2000000000) (xs_failure (xs_start 5 (xs_new (\<lambda>i. 0)))) (until_success 1) iv_default iv_default 100
    = Inl AssertFailed"
proof -
  let ?s = "xs_failure (xs_start 5 (xs_new (\<lambda>i. 0)))" and ?c = "\<lambda>i. 2000000000"
  have s: "\<not> is_executing ?s" "\<not> is_false_start (?c 5) ?s" "status_ok 1 1 ?s" "times_ok ?c ?s"
    "policy_ok iv_default iv_default 100" "is_in_attempt ?s (until_success 1) = Inr False"
    by (auto simp: is_executing_def is_false_start_def xs_failure_def xs_start_def xs_new_def status_ok_def counts_ok_def
        ec_start_def ec_failure_def ec_new_def in_int32_def times_ok_def xt_start_def xt_failure_def xt_new_def policy_ok_def
        interval_ok_def iv_default_def dur_zero_def from_millis_def is_in_attempt_def until_success_def
        total_num_attempts_def mono_def)
  have "retry_due ?c ?s iv_default"
    by (simp add: retry_due_def is_last_execution_failure_def is_suspended_def elapsed_def since_last_execution_def since_def
        in_int64_def xs_failure_def xs_start_def xs_new_def xt_start_def xt_failure_def xt_new_def time_min_def
        iv_default_def from_millis_def)
  then show ?thesis using idle_task_ready_in[OF s(1) _ s(3-6)] s(2) by simp
qed

text \<open>A new status: never executed, no failure, and with a false start that asks for no delay.\<close>

lemma new_status:
  "status_ok 0 0 (xs_new readings)" "\<not> is_executing (xs_new readings)" "attempts_of 0 (xs_new readings) = 0"
    "exponential_backoff (xs_new readings) retry = 0" "\<not> retry_due clock (xs_new readings) retry"
    "\<not> is_suspended (xs_new readings)"
  using counts_ok_new
  by (simp_all add: status_ok_def xs_new_def is_last_execution_failure_def xt_new_def is_executing_def attempts_of_def
      ec_new_def exponential_backoff_def in_int32_def retry_due_def is_suspended_def)

text \<open>A task with an initial delay that is longer than its period counts as ready to execute once it is a period
  old, although it is not due before the delay is over.\<close>

theorem delayed_task_ready_early:
  assumes "times_ok clock (xs_new readings)" "policy_ok iv retry timeout" "is_in_attempt (xs_new readings) a = Inr True"
    and "iv_period iv \<le> elapsed (clock 0) (xs_new readings)" "elapsed (clock 0) (xs_new readings) < iv_initial iv"
  shows "is_ready_to_execute clock (xs_new readings) a iv retry = Inr True
    \<and> earliest_ready_in clock (xs_new readings) a iv retry timeout =
        Inr (iv_initial iv - elapsed (clock 0) (xs_new readings))"
proof -
  let ?s = "xs_new readings"
  note new = new_status
  have "is_in_interval (later 0 clock) ?s iv = Inr True"
    using in_interval_returns[OF new(1)] assms(4) elapsed_mono[OF assms(1), of 0 1] new(6) by simp
  then have "is_ready_to_execute (later 0 clock) ?s a iv retry = Inr True"
    using ready_returns[OF new(1) assms(1,3), of 0 iv 0 retry 0] by blast
  then show ?thesis
    using idle_ready[OF new(2) _ new(1) assms(1,2,3)] new(3-6) assms(5) by (simp add: Let_def)
qed

theorem delayed_task_ready_early_witness:
  "is_ready_to_execute (\<lambda>i. 3000) (xs_new (\<lambda>i. 0)) attempt_forever (iv_delayed_then_every 5000 1000) iv_default = Inr True"
proof -
  have "times_ok (\<lambda>i. 3000) (xs_new (\<lambda>i. 0))" "policy_ok (iv_delayed_then_every 5000 1000) iv_default 100"
    "is_in_attempt (xs_new (\<lambda>i. 0)) attempt_forever = Inr True"
    by (auto simp: times_ok_def xs_new_def xt_new_def policy_ok_def interval_ok_def iv_delayed_then_every_def iv_default_def
        dur_zero_def from_millis_def is_in_attempt_def is_cancelled_def attempt_forever_def mono_def)
  from delayed_task_ready_early[OF this] show ?thesis
    by (simp add: iv_delayed_then_every_def elapsed_def since_last_execution_def since_def in_int64_def xs_new_def xt_new_def)
qed

end
