(* ===== verification/Futures.thy ===== *)
theory Futures
  imports Execution_Status
begin

text \<open>
  \<open>RxConcurrent/FutureBase.h\<close>: the future of a task, which keeps its status and result, and the strategies
  that run it (\<open>BaseLib/Strategy/ExecutionStrategy\<close>). What the task itself does is its outcome; what other
  threads do to the future while the task runs is the argument \<open>meanwhile\<close>. The callbacks a client may
  register return and do not touch the future.
\<close>

datatype 'r outcome = Returns 'r | ThrowsGeneral string | ThrowsOther

record 'r future =
  fu_exception :: string
  fu_result :: 'r
  fu_status :: exec_status
  fu_running :: bool

definition fu_new :: "'r \<Rightarrow> (nat \<Rightarrow> int) \<Rightarrow> 'r future" where
  "fu_new dflt clock = \<lparr> fu_exception = [], fu_result = dflt, fu_status = xs_new clock, fu_running = False \<rparr>"

definition fu_is_done :: "'r future \<Rightarrow> bool" where
  "fu_is_done f \<longleftrightarrow> \<not> is_executing (fu_status f)
     \<and> (is_last_execution_success (fu_status f) \<or> is_last_execution_failure (fu_status f))"

definition fu_is_success :: "'r future \<Rightarrow> bool" where
  "fu_is_success f \<longleftrightarrow> is_last_execution_success (fu_status f)"

definition fu_is_cancelled :: "'r future \<Rightarrow> bool" where
  "fu_is_cancelled f \<longleftrightarrow> is_cancelled (fu_status f)"

definition fu_interrupt :: "int \<Rightarrow> 'r future \<Rightarrow> bool \<times> 'r future" where
  "fu_interrupt now f = (if \<not> fu_running f then (False, f)
     else (True, f\<lparr> fu_status := xs_interrupt now (fu_status f) \<rparr>))"

definition fu_cancel :: "'r future \<Rightarrow> bool \<times> 'r future" where
  "fu_cancel f = (if is_cancelled (fu_status f) then (True, f)
     else (True, f\<lparr> fu_status := xs_cancel (fu_status f) \<rparr>))"

definition fu_entry :: "int \<Rightarrow> 'r future \<Rightarrow> 'r future" where
  "fu_entry now f = f\<lparr> fu_running := True, fu_status := xs_start now (fu_status f) \<rparr>"

definition fu_exit :: "'r future \<Rightarrow> 'r future" where
  "fu_exit f = f\<lparr> fu_running := False \<rparr>"

definition fu_next :: "'r \<Rightarrow> 'r future \<Rightarrow> 'r future" where
  "fu_next r f = f\<lparr> fu_result := r \<rparr>"

definition fu_complete :: "'r future \<Rightarrow> 'r future res" where
  "fu_complete f = rbind (xs_success (fu_status f)) (\<lambda>s. Inr (f\<lparr> fu_status := s \<rparr>))"

definition fu_error :: "string \<Rightarrow> 'r future \<Rightarrow> 'r future" where
  "fu_error e f = f\<lparr> fu_status := xs_failure (fu_status f), fu_exception := e \<rparr>"

text \<open>\<open>RunnableFutureExecution\<close>: the result is \<open>None\<close> when the exception is thrown on; \<open>dflt\<close> is what the
  local variable holds that no call has set.\<close>

definition future_execution ::
  "'r \<Rightarrow> int \<Rightarrow> ('r future \<Rightarrow> 'r future) \<Rightarrow> 'r outcome \<Rightarrow> 'r future \<Rightarrow> ('r option \<times> 'r future) res" where
  "future_execution dflt now meanwhile out f =
     (let f1 = fu_exit (meanwhile (fu_entry now f)) in
      case out of
        Returns r \<Rightarrow> rbind (fu_complete (fu_next r f1)) (\<lambda>f2. Inr (Some r, f2))
      | ThrowsGeneral e \<Rightarrow> Inr (None, fu_error e f1)
      | ThrowsOther \<Rightarrow> Inr (Some dflt, fu_error ''Unhandled exception caught'' f1))"

text \<open>\<open>run\<close>: whether the exception leaves it, and the future.\<close>

definition fu_run ::
  "'r \<Rightarrow> int \<Rightarrow> ('r future \<Rightarrow> 'r future) \<Rightarrow> 'r outcome \<Rightarrow> 'r future \<Rightarrow> (bool \<times> 'r future) res" where
  "fu_run dflt now meanwhile out f =
     rbind (future_execution dflt now meanwhile out f) (\<lambda>(r, f').
       Inr (case r of None \<Rightarrow> (True, f') | Some v \<Rightarrow> (False, f'\<lparr> fu_result := v \<rparr>)))"

text \<open>\<open>DefaultRunnableExecution\<close>: the runnable, with whether an exception leaves it, reports to a status of the
  caller.\<close>

definition runnable_execution :: "int \<Rightarrow> (bool \<times> 's) res \<Rightarrow> exec_status \<Rightarrow> (bool \<times> exec_status \<times> 's) res" where
  "runnable_execution now runnable status =
     (let s1 = xs_start now status in
      rbind runnable (\<lambda>(thrown, x).
        if thrown then Inr (False, xs_failure s1, x)
        else rbind (xs_success s1) (\<lambda>s2. Inr (True, s2, x))))"

text \<open>\<open>WaitFor\<close> and \<open>Result\<close> once their wait is over: \<open>waitForSuccess\<close> returns \<open>IsSuccess\<close>.\<close>

definition fu_wait_for :: "'r future \<Rightarrow> bool" where
  "fu_wait_for f = fu_is_success f"

datatype 'r result_holder = ResultReady 'r | ResultDeferred | ResultFailed string | ResultTimeout

definition fu_get_result :: "'r future \<Rightarrow> 'r result_holder res" where
  "fu_get_result f =
     (let woken = fu_wait_for f in
      if is_success (fu_status f) then Inr (ResultReady (fu_result f))
      else rbind (is_ever_started (fu_status f)) (\<lambda>started.
        if \<not> started then Inr ResultDeferred
        else if woken \<and> \<not> is_success (fu_status f) then Inr (ResultFailed (fu_exception f))
        else Inr ResultTimeout))"

section \<open>Runs\<close>

text \<open>Calls of others that leave the record of runs alone, such as an interrupt.\<close>

definition same_record :: "exec_status \<Rightarrow> exec_status \<Rightarrow> bool" where
  "same_record s t \<longleftrightarrow> ec_successes (xs_count s) = ec_successes (xs_count t) \<and> ec_total (xs_count s) = ec_total (xs_count t)
     \<and> ec_false_starts (xs_count s) = ec_false_starts (xs_count t)
     \<and> ec_consecutive_failures (xs_count s) = ec_consecutive_failures (xs_count t)
     \<and> xt_last (xs_time s) = xt_last (xs_time t) \<and> xt_failed (xs_time s) = xt_failed (xs_time t)
     \<and> xt_current (xs_time s) = xt_current (xs_time t)"

lemma same_record_interrupt: "same_record (fu_status (snd (fu_interrupt now f))) (fu_status f)"
  by (simp add: same_record_def fu_interrupt_def xs_interrupt_def ec_interrupt_def xt_interrupt_def)

lemma same_record_counts: "same_record s t \<Longrightarrow> counts_ok bound open (xs_count s) = counts_ok bound open (xs_count t)"
  by (simp add: same_record_def counts_ok_def)

definition runs_before :: "int \<Rightarrow> exec_status \<Rightarrow> bool" where
  "runs_before now s \<longleftrightarrow> xt_last (xs_time s) < now \<and> xt_failed (xs_time s) < now"

lemma started_record:
  fixes now :: int
  assumes "counts_ok bound open (xs_count (fu_status f))" "bound + 1 < 2147483648"
    and "\<And>g. same_record (fu_status (meanwhile g)) (fu_status g)"
  defines "s \<equiv> fu_status (fu_exit (meanwhile (fu_entry now f)))"
  shows "counts_ok (bound + 1) (open + 1) (xs_count s)" "xt_current (xs_time s) = now"
    "xt_last (xs_time s) = xt_last (xs_time (fu_status f))" "xt_failed (xs_time s) = xt_failed (xs_time (fu_status f))"
    "ec_successes (xs_count s) = ec_successes (xs_count (fu_status f))"
    "ec_consecutive_failures (xs_count s) = ec_consecutive_failures (xs_count (fu_status f))"
proof -
  let ?e = "fu_status (fu_entry now f)"
  have e: "?e = xs_start now (fu_status f)" by (simp add: fu_entry_def)
  have same: "same_record s ?e" using assms(3) by (simp add: s_def fu_exit_def)
  have "counts_ok (bound + 1) (open + 1) (xs_count ?e)"
    using xs_apply_counts[OF assms(1,2), of "EvStart now"] by (simp add: e)
  then show "counts_ok (bound + 1) (open + 1) (xs_count s)" using same_record_counts[OF same] by simp
  show "xt_current (xs_time s) = now" "xt_last (xs_time s) = xt_last (xs_time (fu_status f))"
    "xt_failed (xs_time s) = xt_failed (xs_time (fu_status f))"
    "ec_successes (xs_count s) = ec_successes (xs_count (fu_status f))"
    "ec_consecutive_failures (xs_count s) = ec_consecutive_failures (xs_count (fu_status f))"
    using same by (simp_all add: same_record_def e xs_start_def xt_start_def ec_start_def)
qed

text \<open>The future after a run, by the outcome of the task.\<close>

lemma run_returns:
  assumes "counts_ok bound open (xs_count (fu_status f))" "bound + 1 < 2147483648" "runs_before now (fu_status f)"
    and "\<And>g. same_record (fu_status (meanwhile g)) (fu_status g)"
  shows "\<exists>f'. fu_run dflt now meanwhile (Returns r) f = Inr (False, f') \<and> fu_is_done f' \<and> fu_is_success f'
    \<and> fu_get_result f' = Inr (ResultReady r) \<and> counts_ok (bound + 1) open (xs_count (fu_status f'))
    \<and> ec_successes (xs_count (fu_status f')) = ec_successes (xs_count (fu_status f)) + 1
    \<and> xs_state (fu_status f') = Stopped \<and> xt_current (xs_time (fu_status f')) = now \<and> xt_last (xs_time (fu_status f')) = now
    \<and> xt_failed (xs_time (fu_status f')) = xt_failed (xs_time (fu_status f)) \<and> \<not> fu_running f'"
proof -
  define f1 where "f1 = fu_exit (meanwhile (fu_entry now f))"
  note started = started_record[OF assms(1,2,4), where now = now, folded f1_def]
  have running: "\<not> fu_running f1" by (simp add: f1_def fu_exit_def)
  have open1: "0 < open + 1" using assms(1) by (simp add: counts_ok_def)
  have "counts_ok (bound + 1) (open + 1) (xs_count (fu_status f1)) \<Longrightarrow> \<exists>c. ec_success (xs_count (fu_status f1)) = Inr c
      \<and> counts_ok (bound + 1) open c \<and> ec_successes c = ec_successes (xs_count (fu_status f1)) + 1"
    using open1 assms(2) by (auto simp: ec_success_def counts_ok_def in_int32_def Let_def)
  then obtain c where c: "ec_success (xs_count (fu_status f1)) = Inr c" "counts_ok (bound + 1) open c"
    "ec_successes c = ec_successes (xs_count (fu_status f1)) + 1"
    using started(1) by blast
  define f2 where "f2 = f1\<lparr> fu_result := r, fu_status := (fu_status f1)\<lparr> xs_state := Stopped, xs_count := c,
    xs_time := xt_success (xs_time (fu_status f1)) \<rparr> \<rparr>"
  have "fu_run dflt now meanwhile (Returns r) f = Inr (False, f2)"
    by (simp add: fu_run_def future_execution_def f1_def[symmetric] fu_complete_def fu_next_def xs_success_def c(1) f2_def Let_def)
  moreover have "xt_last (xs_time (fu_status f2)) = now" "xt_failed (xs_time (fu_status f2)) < now"
    "xt_failed (xs_time (fu_status f2)) = xt_failed (xs_time (fu_status f))" "xt_current (xs_time (fu_status f2)) = now"
    using started(2,4) assms(3) by (simp_all add: f2_def xt_success_def runs_before_def)
  ultimately show ?thesis
    using c(2,3) started(5) running
    by (intro exI[of _ f2]) (simp add: f2_def fu_is_done_def fu_is_success_def is_executing_def is_last_execution_success_def
        fu_get_result_def is_success_def)
qed

lemma run_throws:
  assumes "counts_ok bound open (xs_count (fu_status f))" "bound + 1 < 2147483648" "runs_before now (fu_status f)"
    and "\<And>g. same_record (fu_status (meanwhile g)) (fu_status g)" "out = ThrowsGeneral e \<or> out = ThrowsOther"
  shows "\<exists>f'. fu_run dflt now meanwhile out f = Inr (out \<noteq> ThrowsOther, f') \<and> fu_is_done f' \<and> \<not> fu_is_success f'
    \<and> fu_get_result f' = Inr ResultTimeout \<and> (out = ThrowsGeneral e \<longrightarrow> fu_exception f' = e)
    \<and> counts_ok (bound + 1) (open + 1) (xs_count (fu_status f'))
    \<and> ec_successes (xs_count (fu_status f')) = ec_successes (xs_count (fu_status f))
    \<and> xs_state (fu_status f') = Failed \<and> xt_current (xs_time (fu_status f')) = now \<and> xt_failed (xs_time (fu_status f')) = now
    \<and> xt_last (xs_time (fu_status f')) = xt_last (xs_time (fu_status f)) \<and> \<not> fu_running f'"
proof -
  define f1 where "f1 = fu_exit (meanwhile (fu_entry now f))"
  note started = started_record[OF assms(1,2,4), where now = now, folded f1_def]
  have running: "\<not> fu_running f1" by (simp add: f1_def fu_exit_def)
  define s where "s = xs_failure (fu_status f1)"
  have counts: "counts_ok (bound + 1) (open + 1) (xs_count s)"
    using started(1,6) assms(1,2) by (simp add: s_def xs_failure_def ec_failure_def counts_ok_def in_int32_def)
  have "0 < ec_successes (xs_count s) + (open + 1)"
    using counts assms(1) by (auto simp: counts_ok_def)
  then have ever: "is_ever_started s = Inr True"
    using counts_ok_total(1)[OF counts] by (simp add: is_ever_started_def)
  have time: "xt_failed (xs_time s) = now" "xt_last (xs_time s) < now" "xt_current (xs_time s) = now"
    "xt_last (xs_time s) = xt_last (xs_time (fu_status f))"
    using started(2,3) assms(3) by (simp_all add: s_def xs_failure_def xt_failure_def runs_before_def)
  have state: "xs_state s = Failed" "ec_successes (xs_count s) = ec_successes (xs_count (fu_status f))"
    using started(5) by (simp_all add: s_def xs_failure_def ec_failure_def)
  define f2 where "f2 = (if out = ThrowsOther then f1\<lparr> fu_status := s, fu_exception := ''Unhandled exception caught'', fu_result := dflt \<rparr>
    else f1\<lparr> fu_status := s, fu_exception := e \<rparr>)"
  have f2: "fu_status f2 = s" "\<not> fu_running f2" "out = ThrowsGeneral e \<longrightarrow> fu_exception f2 = e"
    using running by (auto simp: f2_def)
  have "fu_run dflt now meanwhile out f = Inr (out \<noteq> ThrowsOther, f2)"
    using assms(5) by (auto simp: fu_run_def future_execution_def f1_def[symmetric] fu_error_def s_def f2_def Let_def)
  then show ?thesis
    using f2 counts ever time state
    by (intro exI[of _ f2]) (simp add: fu_is_done_def fu_is_success_def is_executing_def is_last_execution_success_def
        is_last_execution_failure_def fu_get_result_def fu_wait_for_def is_success_def)
qed

text \<open>C28: A future that has run to an end is done. When the task returned, the result is ready and holds what it
  returned. When it threw, the future keeps the exception, and passes it on to the worker when it is a
  \<open>GeneralException\<close>, but \<open>Result\<close> says that the wait timed out instead of that the task failed.\<close>

theorem future_result_after_run:
  assumes "counts_ok bound open (xs_count (fu_status f))" "bound + 1 < 2147483648" "runs_before now (fu_status f)"
    and "\<And>g. same_record (fu_status (meanwhile g)) (fu_status g)"
  shows "\<exists>thrown f'. fu_run dflt now meanwhile out f = Inr (thrown, f') \<and> fu_is_done f'
    \<and> (case out of
         Returns r \<Rightarrow> \<not> thrown \<and> fu_is_success f' \<and> fu_get_result f' = Inr (ResultReady r)
       | ThrowsGeneral e \<Rightarrow> thrown \<and> fu_exception f' = e \<and> \<not> fu_is_success f' \<and> fu_get_result f' = Inr ResultTimeout
       | ThrowsOther \<Rightarrow> \<not> thrown \<and> \<not> fu_is_success f' \<and> fu_get_result f' = Inr ResultTimeout)"
proof (cases out)
  case (Returns r)
  then show ?thesis using run_returns[OF assms, of dflt r] by auto
next
  case (ThrowsGeneral e)
  then show ?thesis using run_throws[OF assms, of out e dflt] by auto
next
  case ThrowsOther
  then show ?thesis using run_throws[OF assms, of out _ dflt] by auto
qed

theorem future_result_after_run_witness:
  "\<exists>f'. fu_run (0::nat) 5 (\<lambda>g. snd (fu_interrupt 6 g)) (ThrowsGeneral ''no'') (fu_new 0 (\<lambda>i. 0)) = Inr (True, f')
    \<and> fu_exception f' = ''no'' \<and> fu_get_result f' = Inr ResultTimeout"
proof -
  have "counts_ok 0 0 (xs_count (fu_status (fu_new (0::nat) (\<lambda>i. 0))))"
    using counts_ok_new by (simp add: fu_new_def xs_new_def)
  moreover have "runs_before 5 (fu_status (fu_new (0::nat) (\<lambda>i. 0)))"
    by (simp add: fu_new_def xs_new_def runs_before_def xt_new_def time_min_def)
  ultimately show ?thesis
    using future_result_after_run[of 0 0 "fu_new (0::nat) (\<lambda>i. 0)" 5 "\<lambda>g. snd (fu_interrupt 6 g)" 0 "ThrowsGeneral ''no''"]
      same_record_interrupt[of 6] by fastforce
qed

text \<open>Once a task has succeeded, its next run makes \<open>Result\<close> report a failure for as long as it executes,
  with the exception left by whatever run failed before, if any did.\<close>

theorem result_while_running_again:
  assumes "counts_ok bound open (xs_count (fu_status f))" "bound + 1 < 2147483648" "fu_is_success f"
  shows "fu_get_result (fu_entry now f) = Inr (ResultFailed (fu_exception f))"
proof -
  have "counts_ok (bound + 1) (open + 1) (xs_count (xs_start now (fu_status f)))"
    using xs_apply_counts[OF assms(1,2), of "EvStart now"] by simp
  from counts_ok_total(1)[OF this] show ?thesis
    using assms(1,3)
    by (simp add: fu_get_result_def fu_entry_def fu_wait_for_def fu_is_success_def is_success_def is_ever_started_def
        is_last_execution_success_def xs_start_def xt_start_def ec_start_def counts_ok_def)
qed

theorem result_while_running_again_witness:
  "\<exists>f. fu_run (0::nat) 5 id (Returns 7) (fu_new 0 (\<lambda>i. 0)) = Inr (False, f)
    \<and> fu_get_result f = Inr (ResultReady 7) \<and> fu_get_result (fu_entry 9 f) = Inr (ResultFailed [])"
proof -
  let ?n = "fu_new (0::nat) (\<lambda>i. 0)"
  have ok: "counts_ok 0 0 (xs_count (fu_status ?n))" "runs_before 5 (fu_status ?n)"
    using counts_ok_new by (simp_all add: fu_new_def xs_new_def runs_before_def xt_new_def time_min_def)
  obtain f where f: "fu_run (0::nat) 5 id (Returns 7) ?n = Inr (False, f)" "fu_is_success f"
    "fu_get_result f = Inr (ResultReady 7)" "counts_ok 1 0 (xs_count (fu_status f))"
    using run_returns[OF ok(1) _ ok(2), of id 0 7] by (auto simp: same_record_def)
  have "fu_exception f = []"
    using f(1) by (auto simp: fu_run_def future_execution_def fu_complete_def fu_next_def fu_exit_def fu_entry_def fu_new_def
        Let_def res_simps)
  then show ?thesis using f result_while_running_again[OF f(4) _ f(2), of 9] by auto
qed

end
