(* ===== verification/Wait_Set.thy ===== *)
theory Wait_Set
  imports Prelude
begin

text \<open>
  \<open>RxConcurrent\<close>: guard conditions and wait sets, the callback mechanism of the writers. Objects are
  numbered; a system is the guard conditions, the wait sets and whatever state the callbacks work
  on. A \<open>std::set\<close> of pointers is a list without duplicates. The operations are the sequential
  bodies of the mutex-protected functions; the blocking wait is not part of the model.
\<close>

record 'h guard_condition =
  gc_trigger :: bool
  gc_handler :: "'h option"
  gc_wait_sets :: "nat list"

definition gc_new :: "'h guard_condition" where
  "gc_new = \<lparr> gc_trigger = False, gc_handler = None, gc_wait_sets = [] \<rparr>"

record wait_set =
  ws_valid :: bool
  ws_conditions :: "nat list"
  ws_queue :: "nat list"
  ws_triggered :: "nat list"

definition ws_new :: wait_set where
  "ws_new = \<lparr> ws_valid = True, ws_conditions = [], ws_queue = [], ws_triggered = [] \<rparr>"

record ('h, 's) wait_system =
  sys_guards :: "nat \<Rightarrow> 'h guard_condition"
  sys_sets :: "nat \<Rightarrow> wait_set"
  sys_env :: 's

definition update_guard ::
  "nat \<Rightarrow> ('h guard_condition \<Rightarrow> 'h guard_condition) \<Rightarrow> ('h, 's) wait_system \<Rightarrow> ('h, 's) wait_system" where
  "update_guard c f sys = sys\<lparr> sys_guards := (sys_guards sys)(c := f (sys_guards sys c)) \<rparr>"

definition update_set ::
  "nat \<Rightarrow> wait_set \<Rightarrow> ('h, 's) wait_system \<Rightarrow> ('h, 's) wait_system" where
  "update_set w ws sys = sys\<lparr> sys_sets := (sys_sets sys)(w := ws) \<rparr>"

section \<open>The private functions of WaitSet\<close>

definition enqueue_triggered :: "nat \<Rightarrow> wait_set \<Rightarrow> (bool \<times> wait_set) res" where
  "enqueue_triggered c ws =
     (let present = c \<in> set (ws_triggered ws);
          ws' = (if present then ws
                 else ws\<lparr> ws_queue := ws_queue ws @ [c], ws_triggered := List.insert c (ws_triggered ws) \<rparr>)
      in asserting (length (ws_queue ws') \<le> length (ws_conditions ws'))
           (asserting (length (ws_queue ws') = length (ws_triggered ws')) (Inr (\<not> present, ws'))))"

definition dequeue_triggered :: "wait_set \<Rightarrow> (nat option \<times> wait_set) res" where
  "dequeue_triggered ws =
     (let (cond, ws') =
        (case ws_queue ws of
           [] \<Rightarrow> (None, ws)
         | c # q \<Rightarrow> (Some c, ws\<lparr> ws_queue := q, ws_triggered := removeAll c (ws_triggered ws) \<rparr>))
      in asserting (length (ws_queue ws') = length (ws_triggered ws')) (Inr (cond, ws')))"

definition clear_triggered_queue :: "wait_set \<Rightarrow> wait_set" where
  "clear_triggered_queue ws = ws\<lparr> ws_queue := [], ws_triggered := [] \<rparr>"

section \<open>AbstractCondition\<close>

definition condition_attach :: "nat \<Rightarrow> 'h guard_condition \<Rightarrow> (bool \<times> 'h guard_condition) res" where
  "condition_attach w g =
     (let inserted = w \<notin> set (gc_wait_sets g)
      in asserting inserted (Inr (inserted, g\<lparr> gc_wait_sets := List.insert w (gc_wait_sets g) \<rparr>)))"

definition condition_detach :: "nat \<Rightarrow> 'h guard_condition \<Rightarrow> (bool \<times> 'h guard_condition) res" where
  "condition_detach w g =
     (let erased = w \<in> set (gc_wait_sets g)
      in asserting erased (Inr (erased, g\<lparr> gc_wait_sets := removeAll w (gc_wait_sets g) \<rparr>)))"

definition signal :: "nat \<Rightarrow> nat \<Rightarrow> ('h, 's) wait_system \<Rightarrow> ('h, 's) wait_system res" where
  "signal c w sys =
     (let ws = sys_sets sys w in
      if \<not> ws_valid ws then Inr sys
      else if c \<in> set (ws_conditions ws)
      then rbind (enqueue_triggered c ws) (\<lambda>(enqueued, ws'). Inr (update_set w ws' sys))
      else Inl AssertFailed)"

definition signal_all :: "nat \<Rightarrow> ('h, 's) wait_system \<Rightarrow> ('h, 's) wait_system res" where
  "signal_all c sys = rfold (signal c) (gc_wait_sets (sys_guards sys c)) sys"

section \<open>GuardCondition\<close>

definition set_trigger_value :: "nat \<Rightarrow> bool \<Rightarrow> ('h, 's) wait_system \<Rightarrow> ('h, 's) wait_system res" where
  "set_trigger_value c v sys =
     (let sys' = update_guard c (\<lambda>g. g\<lparr> gc_trigger := v \<rparr>) sys
      in if v then signal_all c sys' else Inr sys')"

definition set_handler :: "nat \<Rightarrow> 'h \<Rightarrow> ('h, 's) wait_system \<Rightarrow> ('h, 's) wait_system" where
  "set_handler c h sys = update_guard c (\<lambda>g. g\<lparr> gc_handler := Some h \<rparr>) sys"

definition reset_handler :: "nat \<Rightarrow> ('h, 's) wait_system \<Rightarrow> ('h, 's) wait_system" where
  "reset_handler c sys = update_guard c (\<lambda>g. g\<lparr> gc_handler := None \<rparr>) sys"

definition has_handler :: "'h guard_condition \<Rightarrow> bool" where
  "has_handler g = (gc_handler g \<noteq> None)"

text \<open>\<open>Dispatch\<close>; what the functor does is the argument \<open>invoke\<close>.\<close>

definition dispatch ::
  "('h \<Rightarrow> ('h, 's) wait_system \<Rightarrow> ('h, 's) wait_system res) \<Rightarrow> nat
     \<Rightarrow> ('h, 's) wait_system \<Rightarrow> ('h, 's) wait_system res" where
  "dispatch invoke c sys =
     rbind (case gc_handler (sys_guards sys c) of
              Some h \<Rightarrow> if gc_trigger (sys_guards sys c) then invoke h sys else Inr sys
            | None \<Rightarrow> Inr sys)
       (\<lambda>sys'. Inr (update_guard c (\<lambda>g. g\<lparr> gc_trigger := False \<rparr>) sys'))"

section \<open>WaitSet\<close>

definition ws_stop :: "wait_set \<Rightarrow> wait_set" where "ws_stop ws = ws\<lparr> ws_valid := False \<rparr>"
definition ws_start :: "wait_set \<Rightarrow> wait_set" where "ws_start ws = ws\<lparr> ws_valid := True \<rparr>"

definition ws_attach :: "nat \<Rightarrow> nat \<Rightarrow> ('h, 's) wait_system \<Rightarrow> (bool \<times> ('h, 's) wait_system) res" where
  "ws_attach w c sys =
     rbind (condition_attach w (sys_guards sys c)) (\<lambda>(attached, g).
       if \<not> attached then Inr (False, sys)
       else
         let sys1 = update_guard c (\<lambda>_. g) sys;
             triggered = gc_trigger (sys_guards sys1 c);
             ws = sys_sets sys1 w;
             inserted = c \<notin> set (ws_conditions ws);
             ws1 = ws\<lparr> ws_conditions := List.insert c (ws_conditions ws) \<rparr>
         in asserting inserted
              (if triggered
               then rbind (enqueue_triggered c ws1) (\<lambda>(enqueued, ws2). Inr (True, update_set w ws2 sys1))
               else Inr (True, update_set w ws1 sys1)))"

definition ws_detach :: "nat \<Rightarrow> nat \<Rightarrow> ('h, 's) wait_system \<Rightarrow> (bool \<times> ('h, 's) wait_system) res" where
  "ws_detach w c sys =
     (let ws = sys_sets sys w;
          ws1 = ws\<lparr> ws_conditions := removeAll c (ws_conditions ws),
                    ws_triggered := removeAll c (ws_triggered ws),
                    ws_queue := removeAll c (ws_queue ws) \<rparr>
      in rbind (set_trigger_value c False (update_set w ws1 sys)) (\<lambda>sys1.
           rbind (condition_detach w (sys_guards sys1 c)) (\<lambda>(detached, g).
             Inr (detached, update_guard c (\<lambda>_. g) sys1))))"

definition get_triggered_conditions :: "nat \<Rightarrow> ('h, 's) wait_system \<Rightarrow> nat list" where
  "get_triggered_conditions w sys =
     filter (\<lambda>c. gc_trigger (sys_guards sys c)) (ws_conditions (sys_sets sys w))"

definition dispatch_triggered_condition ::
  "('h \<Rightarrow> ('h, 's) wait_system \<Rightarrow> ('h, 's) wait_system res) \<Rightarrow> nat option
     \<Rightarrow> ('h, 's) wait_system \<Rightarrow> (bool \<times> ('h, 's) wait_system) res" where
  "dispatch_triggered_condition invoke cond sys =
     (case cond of
        None \<Rightarrow> Inr (False, sys)
      | Some c \<Rightarrow> if gc_trigger (sys_guards sys c)
                  then rbind (dispatch invoke c sys) (\<lambda>sys'. Inr (True, sys'))
                  else Inr (False, sys))"

text \<open>The loop runs until the queue is empty; callbacks may trigger conditions again.\<close>

partial_function (option) dispatch_loop ::
  "('h \<Rightarrow> ('h, 's) wait_system \<Rightarrow> ('h, 's) wait_system res) \<Rightarrow> nat \<Rightarrow> bool
     \<Rightarrow> ('h, 's) wait_system \<Rightarrow> (bool \<times> ('h, 's) wait_system) res option" where
  "dispatch_loop invoke w dispatched sys =
     (case dequeue_triggered (sys_sets sys w) of
        Inl e \<Rightarrow> Some (Inl e)
      | Inr (cond, ws) \<Rightarrow>
          (let sys1 = update_set w ws sys in
           if cond = None then Some (Inr (dispatched, sys1))
           else case dispatch_triggered_condition invoke cond sys1 of
               Inl e \<Rightarrow> Some (Inl e)
             | Inr (dispatched', sys2) \<Rightarrow> dispatch_loop invoke w dispatched' sys2))"

definition dispatch_triggered_conditions ::
  "('h \<Rightarrow> ('h, 's) wait_system \<Rightarrow> ('h, 's) wait_system res) \<Rightarrow> nat
     \<Rightarrow> ('h, 's) wait_system \<Rightarrow> (bool \<times> ('h, 's) wait_system) res option" where
  "dispatch_triggered_conditions invoke w sys = dispatch_loop invoke w False sys"

text \<open>\<open>WaitDispatch\<close> after the wait has ended.\<close>

definition wait_dispatch ::
  "('h \<Rightarrow> ('h, 's) wait_system \<Rightarrow> ('h, 's) wait_system res) \<Rightarrow> nat
     \<Rightarrow> ('h, 's) wait_system \<Rightarrow> (bool \<times> ('h, 's) wait_system) res option" where
  "wait_dispatch invoke w sys =
     (if \<not> ws_valid (sys_sets sys w) then Some (Inr (False, sys))
      else dispatch_triggered_conditions invoke w sys)"

definition wait_dispatch_next ::
  "('h \<Rightarrow> ('h, 's) wait_system \<Rightarrow> ('h, 's) wait_system res) \<Rightarrow> nat
     \<Rightarrow> ('h, 's) wait_system \<Rightarrow> (bool \<times> ('h, 's) wait_system) res" where
  "wait_dispatch_next invoke w sys =
     (if \<not> ws_valid (sys_sets sys w) then Inr (False, sys)
      else rbind (dequeue_triggered (sys_sets sys w)) (\<lambda>(cond, ws).
             dispatch_triggered_condition invoke cond (update_set w ws sys)))"

section \<open>The invariant of a system\<close>

text \<open>
  The queue holds each triggered condition once, the triggered set is the set of its elements, and
  only attached conditions are in it; a condition is attached to a wait set exactly when it knows it.
\<close>

definition ws_ok :: "wait_set \<Rightarrow> bool" where
  "ws_ok ws \<longleftrightarrow> distinct (ws_conditions ws) \<and> distinct (ws_queue ws) \<and> distinct (ws_triggered ws)
     \<and> set (ws_triggered ws) = set (ws_queue ws) \<and> set (ws_queue ws) \<subseteq> set (ws_conditions ws)"

definition sys_ok :: "('h, 's) wait_system \<Rightarrow> bool" where
  "sys_ok sys \<longleftrightarrow> (\<forall>w. ws_ok (sys_sets sys w))
     \<and> (\<forall>w c. c \<in> set (ws_conditions (sys_sets sys w)) \<longleftrightarrow> w \<in> set (gc_wait_sets (sys_guards sys c)))"

definition sys_initial :: "'s \<Rightarrow> ('h, 's) wait_system" where
  "sys_initial s = \<lparr> sys_guards = (\<lambda>c. gc_new), sys_sets = (\<lambda>w. ws_new), sys_env = s \<rparr>"

lemma sys_ok_initial: "sys_ok (sys_initial s)"
  by (simp add: sys_ok_def sys_initial_def ws_ok_def ws_new_def gc_new_def)

lemma ws_ok_sizes:
  assumes "ws_ok ws"
  shows "length (ws_queue ws) = length (ws_triggered ws)" "length (ws_queue ws) \<le> length (ws_conditions ws)"
  using assms by (auto simp: ws_ok_def distinct_card[symmetric] intro: card_mono)

lemma enqueue_triggered_ok:
  assumes "ws_ok ws" "c \<in> set (ws_conditions ws)"
  defines "ws' \<equiv> if c \<in> set (ws_queue ws) then ws
     else ws\<lparr> ws_queue := ws_queue ws @ [c], ws_triggered := List.insert c (ws_triggered ws) \<rparr>"
  shows "enqueue_triggered c ws = Inr (c \<notin> set (ws_queue ws), ws')" "ws_ok ws'"
    "ws_conditions ws' = ws_conditions ws"
proof -
  show ok: "ws_ok ws'" using assms by (auto simp: ws_ok_def)
  then show "enqueue_triggered c ws = Inr (c \<notin> set (ws_queue ws), ws')"
    using ws_ok_sizes[OF ok] assms(1) by (auto simp: enqueue_triggered_def ws'_def ws_ok_def Let_def)
qed (simp add: ws'_def)

lemma dequeue_triggered_ok:
  assumes "ws_ok ws"
  shows "ws_queue ws = [] \<Longrightarrow> dequeue_triggered ws = Inr (None, ws)"
    and "ws_queue ws = c # q \<Longrightarrow>
      dequeue_triggered ws = Inr (Some c, ws\<lparr> ws_queue := q, ws_triggered := removeAll c (ws_triggered ws) \<rparr>)"
    and "ws_queue ws = c # q \<Longrightarrow> ws_ok (ws\<lparr> ws_queue := q, ws_triggered := removeAll c (ws_triggered ws) \<rparr>)"
proof -
  show ok: "ws_ok (ws\<lparr> ws_queue := q, ws_triggered := removeAll c (ws_triggered ws) \<rparr>)"
    if "ws_queue ws = c # q"
    using assms that by (auto simp: ws_ok_def distinct_removeAll)
  show "dequeue_triggered ws = Inr (Some c, ws\<lparr> ws_queue := q, ws_triggered := removeAll c (ws_triggered ws) \<rparr>)"
    if "ws_queue ws = c # q"
    using ws_ok_sizes[OF ok[OF that]] that by (simp add: dequeue_triggered_def)
  show "dequeue_triggered ws = Inr (None, ws)" if "ws_queue ws = []"
    using ws_ok_sizes[OF assms] that by (simp add: dequeue_triggered_def)
qed

lemma sys_ok_update_set:
  assumes "sys_ok sys" "ws_ok ws" "set (ws_conditions ws) = set (ws_conditions (sys_sets sys w))"
  shows "sys_ok (update_set w ws sys)"
  using assms by (auto simp: sys_ok_def update_set_def)

lemma sys_ok_update_guard:
  assumes "sys_ok sys" "\<And>g. gc_wait_sets (f g) = gc_wait_sets g"
  shows "sys_ok (update_guard c f sys)"
  using assms by (auto simp: sys_ok_def update_guard_def)

lemma signal_ok:
  assumes "sys_ok sys" "w \<in> set (gc_wait_sets (sys_guards sys c))"
  shows "\<exists>ws. signal c w sys = Inr (update_set w ws sys) \<and> sys_ok (update_set w ws sys)"
proof -
  let ?ws = "sys_sets sys w"
  have c: "c \<in> set (ws_conditions ?ws)" and ok: "ws_ok ?ws" using assms by (auto simp: sys_ok_def)
  have same: "update_set w ?ws sys = sys" by (simp add: update_set_def)
  show ?thesis
  proof (cases "ws_valid ?ws")
    case True
    then show ?thesis
      using enqueue_triggered_ok[OF ok c] c sys_ok_update_set[OF assms(1), of _ w]
      by (auto simp: signal_def Let_def)
  next
    case False
    then show ?thesis using same assms(1) by (intro exI[of _ ?ws]) (simp add: signal_def)
  qed
qed

lemma signal_all_ok:
  assumes "sys_ok sys" "set ws \<subseteq> set (gc_wait_sets (sys_guards sys c))"
  shows "\<exists>sys'. rfold (signal c) ws sys = Inr sys' \<and> sys_ok sys' \<and> sys_guards sys' = sys_guards sys
     \<and> sys_env sys' = sys_env sys"
  using assms
proof (induction ws arbitrary: sys)
  case (Cons w ws)
  obtain v where v: "signal c w sys = Inr (update_set w v sys)" "sys_ok (update_set w v sys)"
    using signal_ok[OF Cons.prems(1), of w] Cons.prems(2) by auto
  then show ?case using Cons.IH[OF v(2)] Cons.prems(2) by (simp add: update_set_def)
qed simp

lemma set_trigger_value_ok:
  assumes "sys_ok sys"
  shows "\<exists>sys'. set_trigger_value c v sys = Inr sys' \<and> sys_ok sys' \<and> sys_env sys' = sys_env sys
     \<and> sys_guards sys' = (sys_guards sys)(c := (sys_guards sys c)\<lparr> gc_trigger := v \<rparr>)"
proof -
  let ?sys = "update_guard c (\<lambda>g. g\<lparr> gc_trigger := v \<rparr>) sys"
  have ok: "sys_ok ?sys" by (rule sys_ok_update_guard[OF assms]) simp
  have "sys_guards ?sys = (sys_guards sys)(c := (sys_guards sys c)\<lparr> gc_trigger := v \<rparr>)"
    "sys_env ?sys = sys_env sys" by (simp_all add: update_guard_def)
  then show ?thesis
    using signal_all_ok[OF ok subset_refl, of c] ok
    by (auto simp: set_trigger_value_def signal_all_def Let_def)
qed

lemma ws_attach_ok:
  assumes "sys_ok sys" "w \<notin> set (gc_wait_sets (sys_guards sys c))"
  shows "\<exists>sys'. ws_attach w c sys = Inr (True, sys') \<and> sys_ok sys'"
proof -
  let ?ws = "sys_sets sys w" let ?g = "sys_guards sys c"
  let ?sys1 = "update_guard c (\<lambda>_. ?g\<lparr> gc_wait_sets := List.insert w (gc_wait_sets ?g) \<rparr>) sys"
  let ?ws1 = "?ws\<lparr> ws_conditions := List.insert c (ws_conditions ?ws) \<rparr>"
  have c: "c \<notin> set (ws_conditions ?ws)" using assms by (simp add: sys_ok_def)
  have ok1: "ws_ok ?ws1" using assms(1) c by (auto simp: sys_ok_def ws_ok_def)
  have linked: "sys_ok (update_set w ws ?sys1)" if "ws_ok ws" "ws_conditions ws = ws_conditions ?ws1" for ws
    using that assms(1) by (auto simp: sys_ok_def update_set_def update_guard_def)
  have "c \<in> set (ws_conditions ?ws1)" by simp
  note enq = enqueue_triggered_ok[OF ok1 this]
  show ?thesis
    using assms(2) c linked ok1 enq
    by (auto simp: ws_attach_def condition_attach_def Let_def update_guard_def)
qed

lemma ws_attach_twice:
  "w \<in> set (gc_wait_sets (sys_guards sys c)) \<Longrightarrow> ws_attach w c sys = Inl AssertFailed"
  by (simp add: ws_attach_def condition_attach_def)

lemma ws_detach_ok:
  assumes "sys_ok sys" "w \<in> set (gc_wait_sets (sys_guards sys c))"
  shows "\<exists>sys'. ws_detach w c sys = Inr (True, sys') \<and> sys_ok sys'"
proof -
  have "ws_ok ((sys_sets sys w)\<lparr> ws_conditions := removeAll c (ws_conditions (sys_sets sys w)),
      ws_triggered := removeAll c (ws_triggered (sys_sets sys w)),
      ws_queue := removeAll c (ws_queue (sys_sets sys w)) \<rparr>)"
    using assms(1) by (auto simp: sys_ok_def ws_ok_def distinct_removeAll)
  then show ?thesis
    using assms
    by (auto simp: ws_detach_def set_trigger_value_def Let_def condition_detach_def sys_ok_def
        update_set_def update_guard_def)
qed

section \<open>Runs\<close>

text \<open>
  The steps of a run in which callers attach a condition only where it is not attached yet and detach
  it only where it is; a dispatch runs a callback that is itself such a run.
\<close>

inductive ws_run :: "('h, 's) wait_system \<Rightarrow> ('h, 's) wait_system \<Rightarrow> bool" where
  run_refl: "ws_run sys sys"
| run_trigger: "ws_run sys sys1 \<Longrightarrow> set_trigger_value c v sys1 = Inr sys2 \<Longrightarrow> ws_run sys sys2"
| run_handler: "ws_run sys sys1 \<Longrightarrow> ws_run sys (set_handler c h sys1)"
| run_reset: "ws_run sys sys1 \<Longrightarrow> ws_run sys (reset_handler c sys1)"
| run_attach: "ws_run sys sys1 \<Longrightarrow> ws_attach w c sys1 = Inr (b, sys2) \<Longrightarrow> ws_run sys sys2"
| run_detach: "ws_run sys sys1 \<Longrightarrow> ws_detach w c sys1 = Inr (b, sys2) \<Longrightarrow> ws_run sys sys2"
| run_stop: "ws_run sys sys1 \<Longrightarrow> ws_run sys (update_set w (ws_stop (sys_sets sys1 w)) sys1)"
| run_start: "ws_run sys sys1 \<Longrightarrow> ws_run sys (update_set w (ws_start (sys_sets sys1 w)) sys1)"
| run_clear: "ws_run sys sys1 \<Longrightarrow> ws_run sys (update_set w (clear_triggered_queue (sys_sets sys1 w)) sys1)"
| run_dequeue: "ws_run sys sys1 \<Longrightarrow> dequeue_triggered (sys_sets sys1 w) = Inr (cond, ws) \<Longrightarrow>
    ws_run sys (update_set w ws sys1)"
| run_callback: "ws_run sys sys1 \<Longrightarrow> ws_run sys (sys1\<lparr> sys_env := s \<rparr>)"
| run_untrigger: "ws_run sys sys1 \<Longrightarrow> ws_run sys (update_guard c (\<lambda>g. g\<lparr> gc_trigger := False \<rparr>) sys1)"

lemma sys_ok_dequeue:
  assumes "sys_ok sys" "dequeue_triggered (sys_sets sys w) = Inr (cond, ws)"
  shows "sys_ok (update_set w ws sys)"
proof -
  have ok: "ws_ok (sys_sets sys w)" using assms(1) by (simp add: sys_ok_def)
  show ?thesis
  proof (cases "ws_queue (sys_sets sys w)")
    case Nil
    then show ?thesis using dequeue_triggered_ok(1)[OF ok] assms by (simp add: update_set_def)
  next
    case (Cons c q)
    then show ?thesis
      using dequeue_triggered_ok(2,3)[OF ok Cons] assms sys_ok_update_set[OF assms(1)] by auto
  qed
qed

lemma ws_run_ok: "ws_run sys sys' \<Longrightarrow> sys_ok sys \<Longrightarrow> sys_ok sys'"
proof (induction rule: ws_run.induct)
  case (run_trigger sys sys1 c v sys2)
  then show ?case using set_trigger_value_ok[of sys1 c v] by auto
next
  case (run_attach sys sys1 w c b sys2)
  then show ?case
    using ws_attach_ok[of sys1 w c] ws_attach_twice[of w sys1 c] by fastforce
next
  case (run_detach sys sys1 w c b sys2)
  have "w \<in> set (gc_wait_sets (sys_guards sys1 c))"
    using run_detach(2) by (auto simp: ws_detach_def set_trigger_value_def condition_detach_def Let_def
        update_guard_def update_set_def res_simps)
  then show ?case using run_detach ws_detach_ok[of sys1 w c] by auto
next
  case (run_dequeue sys sys1 w cond ws)
  then show ?case using sys_ok_dequeue by blast
next
  case (run_callback sys sys1 s)
  then show ?case by (simp add: sys_ok_def)
qed (auto simp: set_handler_def reset_handler_def ws_stop_def ws_start_def clear_triggered_queue_def
    sys_ok_def ws_ok_def update_set_def update_guard_def)

section \<open>Dispatching\<close>

text \<open>
  With callbacks that only change their own state, the loop ends and calls the handler of each queued
  condition once, in the order in which the conditions were first triggered.
\<close>

definition callback :: "('h \<Rightarrow> 's \<Rightarrow> 's) \<Rightarrow> 'h \<Rightarrow> ('h, 's) wait_system \<Rightarrow> ('h, 's) wait_system res" where
  "callback f h sys = Inr (sys\<lparr> sys_env := f h (sys_env sys) \<rparr>)"

definition call_guard :: "('h \<Rightarrow> 's \<Rightarrow> 's) \<Rightarrow> (nat \<Rightarrow> 'h guard_condition) \<Rightarrow> nat \<Rightarrow> 's \<Rightarrow> 's" where
  "call_guard f guards c s =
     (case gc_handler (guards c) of
        Some h \<Rightarrow> if gc_trigger (guards c) then f h s else s
      | None \<Rightarrow> s)"

lemma dispatch_callback:
  "dispatch (callback f) c sys = Inr (update_guard c (\<lambda>g. g\<lparr> gc_trigger := False \<rparr>)
     (sys\<lparr> sys_env := call_guard f (sys_guards sys) c (sys_env sys) \<rparr>))"
  by (cases "gc_handler (sys_guards sys c)") (simp_all add: dispatch_def callback_def call_guard_def)

lemma fold_call_guard_cong:
  "(\<And>c. c \<in> set q \<Longrightarrow> guards c = guards' c) \<Longrightarrow> fold (call_guard f guards) q s = fold (call_guard f guards') q s"
  by (intro fold_cong refl) (auto simp: call_guard_def fun_eq_iff split: option.splits)

lemma dispatch_loop_fifo:
  assumes "sys_ok sys"
  shows "\<exists>b sys'. dispatch_loop (callback f) w d sys = Some (Inr (b, sys')) \<and> sys_ok sys'
    \<and> ws_queue (sys_sets sys' w) = []
    \<and> sys_env sys' = fold (call_guard f (sys_guards sys)) (ws_queue (sys_sets sys w)) (sys_env sys)"
  using assms
proof (induction "ws_queue (sys_sets sys w)" arbitrary: sys d)
  case Nil
  have ok: "ws_ok (sys_sets sys w)" using Nil.prems by (simp add: sys_ok_def)
  show ?case
    using dequeue_triggered_ok(1)[OF ok Nil.hyps[symmetric]] Nil sys_ok_dequeue[OF Nil.prems, of w]
    by (subst dispatch_loop.simps) (auto simp: Let_def update_set_def)
next
  case (Cons c q)
  let ?ws = "sys_sets sys w"
  let ?ws1 = "?ws\<lparr> ws_queue := q, ws_triggered := removeAll c (ws_triggered ?ws) \<rparr>"
  let ?sys1 = "update_set w ?ws1 sys"
  have ok: "ws_ok ?ws" using Cons.prems by (simp add: sys_ok_def)
  have deq: "dequeue_triggered ?ws = Inr (Some c, ?ws1)"
    by (rule dequeue_triggered_ok(2)[OF ok Cons.hyps(2)[symmetric]])
  have ok1: "sys_ok ?sys1" by (rule sys_ok_dequeue[OF Cons.prems deq])
  have notin: "c \<notin> set q" using ok Cons.hyps(2)[symmetric] by (simp add: ws_ok_def)
  define sys2 where "sys2 = (if gc_trigger (sys_guards sys c)
     then update_guard c (\<lambda>g. g\<lparr> gc_trigger := False \<rparr>)
            (?sys1\<lparr> sys_env := call_guard f (sys_guards sys) c (sys_env sys) \<rparr>) else ?sys1)"
  have disp: "dispatch_triggered_condition (callback f) (Some c) ?sys1 =
      Inr (gc_trigger (sys_guards sys c), sys2)"
    by (simp add: dispatch_triggered_condition_def dispatch_callback sys2_def update_set_def)
  have ok2: "sys_ok sys2"
    using ok1 by (auto simp: sys2_def sys_ok_def update_guard_def)
  have q2: "q = ws_queue (sys_sets sys2 w)"
    by (simp add: sys2_def update_guard_def update_set_def)
  have env2: "sys_env sys2 = call_guard f (sys_guards sys) c (sys_env sys)"
    by (auto simp: sys2_def update_guard_def update_set_def call_guard_def split: option.splits)
  have guards2: "fold (call_guard f (sys_guards sys2)) q s = fold (call_guard f (sys_guards sys)) q s" for s
    using notin by (intro fold_call_guard_cong) (auto simp: sys2_def update_guard_def update_set_def)
  obtain b sys' where rec: "dispatch_loop (callback f) w (gc_trigger (sys_guards sys c)) sys2 = Some (Inr (b, sys'))"
    "sys_ok sys'" "ws_queue (sys_sets sys' w) = []"
    "sys_env sys' = fold (call_guard f (sys_guards sys2)) (ws_queue (sys_sets sys2 w)) (sys_env sys2)"
    using Cons.hyps(1)[OF q2 ok2] by blast
  have "dispatch_loop (callback f) w d sys = Some (Inr (b, sys'))"
    by (subst dispatch_loop.simps) (simp add: deq disp rec(1) Let_def)
  moreover have "sys_env sys' = fold (call_guard f (sys_guards sys)) (c # q) (sys_env sys)"
    using rec(4) by (simp add: q2[symmetric] env2 guards2)
  ultimately show ?case using rec(2,3) Cons.hyps(2) by metis
qed

text \<open>
  \<open>Dispatch\<close> resets the trigger after the callback: a callback that triggers its own condition has
  it queued again, but the dispatch of that entry finds the trigger false and does nothing.
\<close>

lemma dispatch_clears_trigger:
  assumes "dispatch invoke c sys = Inr sys'"
  shows "\<not> gc_trigger (sys_guards sys' c)"
    and "dispatch_triggered_condition invoke (Some c) sys' = Inr (False, sys')"
proof -
  show "\<not> gc_trigger (sys_guards sys' c)"
    using assms by (auto simp: dispatch_def update_guard_def res_simps)
  then show "dispatch_triggered_condition invoke (Some c) sys' = Inr (False, sys')"
    by (simp add: dispatch_triggered_condition_def)
qed

section \<open>Properties\<close>

text \<open>C40: However conditions and wait sets have been attached, detached, triggered, dispatched, stopped and
  started, none of the assertions inside \<open>SetTriggerValue\<close> can fail, whatever the condition and the
  value, and the queue of each wait set holds each condition at most once.\<close>

theorem trigger_never_fails:
  assumes "ws_run (sys_initial s) sys"
  shows "(\<exists>sys'. set_trigger_value c v sys = Inr sys' \<and> sys_ok sys')
    \<and> (\<forall>w. distinct (ws_queue (sys_sets sys w))
         \<and> set (ws_queue (sys_sets sys w)) \<subseteq> set (ws_conditions (sys_sets sys w)))"
proof -
  have ok: "sys_ok sys" by (rule ws_run_ok[OF assms sys_ok_initial])
  then show ?thesis using set_trigger_value_ok[OF ok, of c v] by (auto simp: sys_ok_def ws_ok_def)
qed

theorem trigger_never_fails_witness:
  "\<exists>sys'. set_trigger_value 3 True (sys_initial () :: (unit, unit) wait_system) = Inr sys'"
  using trigger_never_fails[OF run_refl[of "sys_initial ()"], of 3 True] by blast

text \<open>A condition can be attached to a wait set it is not attached to, and detached from one it is
  attached to; attaching it a second time fails an assertion instead of returning false.\<close>

theorem attach_and_detach:
  assumes "sys_ok sys"
  shows "(if w \<in> set (gc_wait_sets (sys_guards sys c)) then ws_attach w c sys = Inl AssertFailed
      else \<exists>sys'. ws_attach w c sys = Inr (True, sys') \<and> sys_ok sys')
    \<and> (w \<in> set (gc_wait_sets (sys_guards sys c)) \<longrightarrow>
        (\<exists>sys'. ws_detach w c sys = Inr (True, sys') \<and> sys_ok sys'))"
  using ws_attach_ok[OF assms] ws_attach_twice[of w sys c] ws_detach_ok[OF assms] by auto

theorem attach_and_detach_witness:
  "\<exists>sys'. ws_attach 0 1 (sys_initial () :: (unit, unit) wait_system) = Inr (True, sys')"
  using attach_and_detach[OF sys_ok_initial[where s = "()"], of 0 1] by (auto simp: sys_initial_def gc_new_def)



text \<open>\<open>Dispatch\<close> clears the trigger after the handler has run, so a condition the handler triggers
  again is queued, and its entry is then dropped without a call.\<close>

theorem retrigger_is_lost:
  assumes "dispatch invoke c sys = Inr sys'"
  shows "\<not> gc_trigger (sys_guards sys' c)
    \<and> dispatch_triggered_condition invoke (Some c) sys' = Inr (False, sys')"
  using dispatch_clears_trigger[OF assms] by blast

theorem retrigger_is_lost_witness:
  "\<exists>sys'. dispatch (\<lambda>h. set_trigger_value 1 True)  1
      (update_guard 1 (\<lambda>g. g\<lparr> gc_handler := Some (), gc_trigger := True \<rparr>) (sys_initial ())) = Inr sys'
    \<and> \<not> gc_trigger (sys_guards sys' 1)"
proof -
  let ?sys = "update_guard 1 (\<lambda>g. g\<lparr> gc_handler := Some (), gc_trigger := True \<rparr>) (sys_initial ())"
  obtain sys' where "dispatch (\<lambda>h. set_trigger_value 1 True) 1 ?sys = Inr sys'"
    by (simp add: dispatch_def set_trigger_value_def signal_all_def update_guard_def sys_initial_def gc_new_def)
  with retrigger_is_lost[OF this] show ?thesis by blast
qed

end
