(* ===== verification/Task_Scheduler.thy ===== *)
theory Task_Scheduler
  imports Execution_Checker Futures Wait_Set
begin

text \<open>
  \<open>RxConcurrent/ThreadPool\<close>: the policies of a task (\<open>TaskPolicy\<close>), a scheduled task (\<open>ScheduledRunnableTask\<close>), the
  collection of them (\<open>ScheduledTasks\<close>), the strategies that find and trigger the tasks that are due
  (\<open>RxConcurrent/Strategy/ExecutionStrategy\<close>), and the thread pool with its workers.

  The environment of the wait sets of \<open>Wait_Set\<close> holds the futures and the scheduled tasks, each at its number, and
  the two lists of the pool; the handler of a condition is the number of the task that the pool runs when it is
  dispatched. The readings of the clock that an operation makes on behalf of the task \<open>t\<close> are \<open>clock t 0\<close>,
  \<open>clock t 1\<close>, ...; a list of the pool holds a task once.
\<close>

section \<open>TaskPolicy\<close>

text \<open>Only the parts that the scheduler reads; a \<open>Timeout\<close> is its duration.\<close>

record task_policy =
  tp_attempt :: attempt
  tp_interval :: interval
  tp_retry :: interval
  tp_timeout :: int

definition tp_new :: task_policy where
  "tp_new = \<lparr> tp_attempt = attempt_default, tp_interval = iv_default, tp_retry = iv_default,
     tp_timeout = from_millis 10000 \<rparr>"

definition run_once_immediately :: task_policy where
  "run_once_immediately = \<lparr> tp_attempt = until_success 1, tp_interval = iv_immediately, tp_retry = iv_default,
     tp_timeout = from_millis 60000 \<rparr>"

definition run_once_in :: "int \<Rightarrow> task_policy" where
  "run_once_in d = \<lparr> tp_attempt = until_success 1, tp_interval = iv_delayed_then_every d d, tp_retry = iv_default,
     tp_timeout = from_millis 60000 \<rparr>"

definition run_forever :: task_policy where
  "run_forever = \<lparr> tp_attempt = attempt_forever, tp_interval = iv_immediately_then_every 1000, tp_retry = iv_default,
     tp_timeout = from_millis 60000 \<rparr>"

definition run_forever_every :: "int \<Rightarrow> task_policy" where
  "run_forever_every d = \<lparr> tp_attempt = attempt_forever, tp_interval = iv_delayed_then_every dur_zero d,
     tp_retry = iv_default, tp_timeout = from_millis 60000 \<rparr>"

definition tp_default :: task_policy where
  "tp_default = \<lparr> tp_attempt = attempt_default, tp_interval = iv_default, tp_retry = iv_default,
     tp_timeout = from_millis 60000 \<rparr>"

type_synonym schedule_function = "(nat \<Rightarrow> int) \<Rightarrow> exec_status \<Rightarrow> task_policy \<Rightarrow> int res"

definition default_schedule :: schedule_function where
  "default_schedule clock s p = earliest_ready_in clock s (tp_attempt p) (tp_interval p) (tp_retry p) (tp_timeout p)"

section \<open>ScheduledRunnableTask\<close>

record scheduled_task =
  st_task :: nat
  st_policy :: task_policy
  st_cond :: nat
  st_scheduler_cond :: nat
  st_schedule :: schedule_function

record 'r task_env =
  te_futures :: "nat \<Rightarrow> 'r future"
  te_tasks :: "nat \<Rightarrow> scheduled_task"
  te_list :: "nat list"
  te_base :: "nat list"

type_synonym 'r pool_system = "(nat, 'r task_env) wait_system"

definition task_of :: "nat \<Rightarrow> 'r pool_system \<Rightarrow> scheduled_task" where
  "task_of t sys = te_tasks (sys_env sys) t"

definition future_of :: "nat \<Rightarrow> 'r pool_system \<Rightarrow> 'r future" where
  "future_of t sys = te_futures (sys_env sys) (st_task (task_of t sys))"

definition status_of :: "nat \<Rightarrow> 'r pool_system \<Rightarrow> exec_status" where
  "status_of t sys = fu_status (future_of t sys)"

definition put_future :: "nat \<Rightarrow> 'r future \<Rightarrow> 'r pool_system \<Rightarrow> 'r pool_system" where
  "put_future t f sys = sys\<lparr> sys_env := (sys_env sys)\<lparr> te_futures := (te_futures (sys_env sys))(st_task (task_of t sys) := f) \<rparr> \<rparr>"

definition put_status :: "nat \<Rightarrow> exec_status \<Rightarrow> 'r pool_system \<Rightarrow> 'r pool_system" where
  "put_status t s sys = put_future t ((future_of t sys)\<lparr> fu_status := s \<rparr>) sys"

definition task_trigger :: "nat \<Rightarrow> 'r pool_system \<Rightarrow> 'r pool_system res" where
  "task_trigger t sys =
     (let (starting, s) = set_iff_not_executing Starting (status_of t sys);
          sys1 = put_status t s sys
      in if starting then set_trigger_value (st_cond (task_of t sys)) True sys1 else Inr sys1)"

definition task_resume :: "nat \<Rightarrow> 'r pool_system \<Rightarrow> 'r pool_system res" where
  "task_resume t sys =
     (let (resumed, s) = set_iff_not_executing Resumed (status_of t sys);
          sys1 = put_status t s sys
      in if resumed then set_trigger_value (st_scheduler_cond (task_of t sys)) True sys1 else Inr sys1)"

definition task_suspend :: "int \<Rightarrow> nat \<Rightarrow> 'r pool_system \<Rightarrow> 'r pool_system" where
  "task_suspend now t sys = put_status t (xs_suspend now (status_of t sys)) sys"

definition task_cancel :: "nat \<Rightarrow> 'r pool_system \<Rightarrow> bool \<times> 'r pool_system" where
  "task_cancel t sys = (let (b, f) = fu_cancel (future_of t sys) in (b, put_future t f sys))"

definition task_interrupt :: "int \<Rightarrow> nat \<Rightarrow> 'r pool_system \<Rightarrow> bool \<times> 'r pool_system" where
  "task_interrupt now t sys = (let (b, f) = fu_interrupt now (future_of t sys) in (b, put_future t f sys))"

definition task_finalize :: "nat \<Rightarrow> 'r pool_system \<Rightarrow> 'r pool_system" where
  "task_finalize t sys = reset_handler (st_cond (task_of t sys)) sys"

definition task_is_attached :: "nat \<Rightarrow> 'r pool_system \<Rightarrow> bool" where
  "task_is_attached t sys = has_handler (sys_guards sys (st_cond (task_of t sys)))"

definition ready_in :: "(nat \<Rightarrow> int) \<Rightarrow> nat \<Rightarrow> 'r pool_system \<Rightarrow> int res" where
  "ready_in clock t sys = st_schedule (task_of t sys) clock (status_of t sys) (st_policy (task_of t sys))"

definition timeout_in :: "int \<Rightarrow> nat \<Rightarrow> 'r pool_system \<Rightarrow> int" where
  "timeout_in now t sys = time_until_timeout now (status_of t sys) (tp_timeout (st_policy (task_of t sys)))"

text \<open>The schedule function has the first ten readings.\<close>

definition task_is_ready :: "(nat \<Rightarrow> int) \<Rightarrow> nat \<Rightarrow> 'r pool_system \<Rightarrow> bool res" where
  "task_is_ready clock t sys =
     (let p = st_policy (task_of t sys) in
      rbind (ready_in clock t sys) (\<lambda>until.
        if until \<le> 0 then Inr True
        else if is_executing (status_of t sys) then Inr False
        else is_ready_to_execute (later 10 clock) (status_of t sys) (tp_attempt p) (tp_interval p) (tp_retry p)))"

definition task_is_done :: "nat \<Rightarrow> 'r pool_system \<Rightarrow> bool res" where
  "task_is_done t sys =
     (if is_executing (status_of t sys) then Inr False
      else rbind (is_in_attempt (status_of t sys) (tp_attempt (st_policy (task_of t sys)))) (\<lambda>b. Inr (\<not> b)))"

definition task_is_timeout :: "int \<Rightarrow> nat \<Rightarrow> 'r pool_system \<Rightarrow> bool" where
  "task_is_timeout now t sys = is_timeout now (status_of t sys) (tp_timeout (st_policy (task_of t sys)))"

definition task_is_policy_violated :: "(nat \<Rightarrow> int) \<Rightarrow> nat \<Rightarrow> 'r pool_system \<Rightarrow> bool res" where
  "task_is_policy_violated clock t sys =
     (let p = st_policy (task_of t sys) in
      is_policy_violated clock (status_of t sys) (tp_interval p) (tp_timeout p) (tp_attempt p))"

section \<open>ScheduledTasks\<close>

definition tasks_state_add :: "nat \<Rightarrow> 'r pool_system \<Rightarrow> 'r pool_system" where
  "tasks_state_add t sys = sys\<lparr> sys_env := (sys_env sys)\<lparr> te_list := te_list (sys_env sys) @ [t],
     te_base := te_base (sys_env sys) @ [t] \<rparr> \<rparr>"

definition tasks_state_remove :: "nat \<Rightarrow> 'r pool_system \<Rightarrow> 'r pool_system res" where
  "tasks_state_remove t sys =
     (let base = removeAll t (te_base (sys_env sys)) in
      asserting (int (length base) = int (length (te_base (sys_env sys))) - 1)
        (Inr (sys\<lparr> sys_env := (sys_env sys)\<lparr> te_list := removeAll t (te_list (sys_env sys)), te_base := base \<rparr> \<rparr>)))"

text \<open>\<open>Add\<close> makes the task \<open>t\<close> with two new conditions \<open>c\<close> and \<open>d\<close>.\<close>

definition tasks_add ::
  "nat \<Rightarrow> nat \<Rightarrow> nat \<Rightarrow> nat \<Rightarrow> task_policy \<Rightarrow> schedule_function \<Rightarrow> 'r pool_system \<Rightarrow> 'r pool_system" where
  "tasks_add t c d fut p schedule sys =
     (let task = \<lparr> st_task = fut, st_policy = p, st_cond = c, st_scheduler_cond = d, st_schedule = schedule \<rparr>;
          sys1 = update_guard d (\<lambda>_. gc_new) (update_guard c (\<lambda>_. gc_new) sys)
      in tasks_state_add t (sys1\<lparr> sys_env := (sys_env sys1)\<lparr> te_tasks := (te_tasks (sys_env sys1))(t := task) \<rparr> \<rparr>))"

definition tasks_find :: "nat \<Rightarrow> 'r pool_system \<Rightarrow> nat option" where
  "tasks_find fut sys = List.find (\<lambda>t. st_task (task_of t sys) = fut) (te_list (sys_env sys))"

definition tasks_remove :: "nat \<Rightarrow> 'r pool_system \<Rightarrow> (nat option \<times> 'r pool_system) res" where
  "tasks_remove fut sys =
     (case tasks_find fut sys of
        None \<Rightarrow> Inr (None, sys)
      | Some t \<Rightarrow> rbind (tasks_state_remove t sys) (\<lambda>sys'. Inr (Some t, sys')))"

fun rfilter :: "('a \<Rightarrow> bool res) \<Rightarrow> 'a list \<Rightarrow> 'a list res" where
  "rfilter p [] = Inr []"
| "rfilter p (x # xs) = rbind (p x) (\<lambda>b. rbind (rfilter p xs) (\<lambda>ys. Inr (if b then x # ys else ys)))"

definition remove_done :: "'r pool_system \<Rightarrow> (nat list \<times> 'r pool_system) res" where
  "remove_done sys =
     rbind (rfilter (\<lambda>t. task_is_done t sys) (te_list (sys_env sys))) (\<lambda>ended.
     rbind (rfold tasks_state_remove ended sys) (\<lambda>sys'. Inr (ended, sys')))"

fun interrupt_timeouts :: "(nat \<Rightarrow> nat \<Rightarrow> int) \<Rightarrow> nat list \<Rightarrow> 'r pool_system \<Rightarrow> nat list \<times> 'r pool_system" where
  "interrupt_timeouts clock [] sys = ([], sys)"
| "interrupt_timeouts clock (t # ts) sys =
     (if task_is_timeout (clock t 0) t sys
      then let (rest, sys') = interrupt_timeouts clock ts (snd (task_interrupt (clock t 1) t sys)) in (t # rest, sys')
      else interrupt_timeouts clock ts sys)"

definition interrupt_timeout_tasks :: "(nat \<Rightarrow> nat \<Rightarrow> int) \<Rightarrow> 'r pool_system \<Rightarrow> nat list \<times> 'r pool_system" where
  "interrupt_timeout_tasks clock sys = interrupt_timeouts clock (te_list (sys_env sys)) sys"

definition tasks_clear :: "nat \<Rightarrow> 'r pool_system \<Rightarrow> 'r pool_system res" where
  "tasks_clear w sys =
     rbind (rfold (\<lambda>t sys1. rbind (ws_detach w (st_cond (task_of t sys1)) sys1) (\<lambda>(detached, sys2).
              asserting detached (Inr (task_finalize t sys2)))) (te_list (sys_env sys)) sys)
       (\<lambda>sys'. Inr (sys'\<lparr> sys_env := (sys_env sys')\<lparr> te_list := [] \<rparr> \<rparr>))"

fun rall :: "('a \<Rightarrow> bool res) \<Rightarrow> 'a list \<Rightarrow> bool res" where
  "rall p [] = Inr True"
| "rall p (x # xs) = rbind (p x) (\<lambda>b. if \<not> b then Inr False else rall p xs)"

definition tasks_is_done :: "'r pool_system \<Rightarrow> bool res" where
  "tasks_is_done sys = rall (\<lambda>t. task_is_done t sys) (te_list (sys_env sys))"

definition tasks_is_suspended :: "'r pool_system \<Rightarrow> bool" where
  "tasks_is_suspended sys = list_all (\<lambda>t. is_suspended (status_of t sys)) (te_list (sys_env sys))"

definition tasks_is_success :: "'r pool_system \<Rightarrow> bool" where
  "tasks_is_success sys = list_all (\<lambda>t. fu_is_success (future_of t sys)) (te_list (sys_env sys))"

definition tasks_cancel :: "'r pool_system \<Rightarrow> bool \<times> 'r pool_system" where
  "tasks_cancel sys = (True, fold (\<lambda>t sys1. snd (task_cancel t sys1)) (te_list (sys_env sys)) sys)"

definition tasks_trigger :: "'r pool_system \<Rightarrow> 'r pool_system res" where
  "tasks_trigger sys = rfold task_trigger (te_list (sys_env sys)) sys"

definition tasks_resume :: "'r pool_system \<Rightarrow> 'r pool_system res" where
  "tasks_resume sys = rfold task_resume (te_list (sys_env sys)) sys"

definition tasks_suspend :: "(nat \<Rightarrow> int) \<Rightarrow> 'r pool_system \<Rightarrow> 'r pool_system" where
  "tasks_suspend clock sys = fold (\<lambda>t. task_suspend (clock t) t) (te_list (sys_env sys)) sys"

definition num_tasks_executing :: "'r pool_system \<Rightarrow> int" where
  "num_tasks_executing sys = wrap32 (int (length (filter (\<lambda>t. is_executing (status_of t sys)) (te_list (sys_env sys)))))"

definition num_tasks_policy_violated :: "(nat \<Rightarrow> nat \<Rightarrow> int) \<Rightarrow> 'r pool_system \<Rightarrow> int res" where
  "num_tasks_policy_violated clock sys =
     rbind (rfilter (\<lambda>t. task_is_policy_violated (clock t) t sys) (te_list (sys_env sys)))
       (\<lambda>ts. Inr (wrap32 (int (length ts))))"

definition num_tasks_never_started :: "'r pool_system \<Rightarrow> int res" where
  "num_tasks_never_started sys =
     rbind (rfilter (\<lambda>t. is_never_executed (status_of t sys)) (te_list (sys_env sys)))
       (\<lambda>ts. Inr (wrap32 (int (length ts))))"

definition tasks_earliest_ready_in :: "(nat \<Rightarrow> nat \<Rightarrow> int) \<Rightarrow> 'r pool_system \<Rightarrow> int res" where
  "tasks_earliest_ready_in clock sys =
     rfold (\<lambda>t wait. rbind (ready_in (clock t) t sys) (\<lambda>d. Inr (min wait d))) (te_list (sys_env sys)) dur_infinite"

section \<open>Finding and triggering\<close>

text \<open>\<open>DefaultFindReady\<close>: the shortest time until a task that is not due, and the tasks that are. The readings after
  the first ten are those of \<open>IsReady\<close>.\<close>

fun default_find_ready ::
  "(nat \<Rightarrow> nat \<Rightarrow> int) \<Rightarrow> 'r pool_system \<Rightarrow> nat list \<Rightarrow> int \<times> nat list \<Rightarrow> (int \<times> nat list) res" where
  "default_find_ready clock sys [] (next_time, due) = Inr (next_time, due)"
| "default_find_ready clock sys (t # ts) (next_time, due) =
     rbind (ready_in (clock t) t sys) (\<lambda>d.
       asserting (0 \<le> d)
         (if d \<le> 0
          then asserting (\<not> is_suspended (status_of t sys)) (asserting (\<not> is_interrupted (status_of t sys))
                 (asserting (\<not> is_executing (status_of t sys))
                   (rbind (task_is_ready (later 10 (clock t)) t sys) (\<lambda>ready.
                      asserting ready (default_find_ready clock sys ts (next_time, due @ [t]))))))
          else if d < next_time then default_find_ready clock sys ts (d, due)
          else default_find_ready clock sys ts (next_time, due)))"

definition find_ready :: "(nat \<Rightarrow> nat \<Rightarrow> int) \<Rightarrow> 'r pool_system \<Rightarrow> (int \<times> nat list) res" where
  "find_ready clock sys = default_find_ready clock sys (te_base (sys_env sys)) (dur_infinite, [])"

definition trigger_task :: "(nat \<Rightarrow> int) \<Rightarrow> nat \<Rightarrow> 'r pool_system \<Rightarrow> (bool \<times> 'r pool_system) res" where
  "trigger_task clock t sys =
     (if is_executing (status_of t sys) then Inr (False, sys)
      else rbind (task_is_ready clock t sys) (\<lambda>ready.
        if \<not> ready then Inr (False, sys)
        else if is_starting (status_of t sys) then Inr (False, sys)
        else if is_suspended (status_of t sys) then Inr (False, sys)
        else rbind (task_trigger t sys) (\<lambda>sys'. Inr (True, sys'))))"

fun trigger_tasks :: "(nat \<Rightarrow> nat \<Rightarrow> int) \<Rightarrow> nat list \<Rightarrow> 'r pool_system \<Rightarrow> (int \<times> 'r pool_system) res" where
  "trigger_tasks clock [] sys = Inr (0, sys)"
| "trigger_tasks clock (t # ts) sys =
     rbind (trigger_task (clock t) t sys) (\<lambda>(triggered, sys1).
     rbind (trigger_tasks clock ts sys1) (\<lambda>(n, sys2). Inr (if triggered then n + 1 else n, sys2)))"

fun trigger_by_instance ::
  "(nat \<Rightarrow> nat \<Rightarrow> int) \<Rightarrow> nat list \<Rightarrow> 'r pool_system \<Rightarrow> (nat list \<times> 'r pool_system) res" where
  "trigger_by_instance clock [] sys = Inr ([], sys)"
| "trigger_by_instance clock (fut # futs) sys =
     (case tasks_find fut sys of
        None \<Rightarrow> trigger_by_instance clock futs sys
      | Some t \<Rightarrow> rbind (trigger_task (clock t) t sys) (\<lambda>(triggered, sys1).
          rbind (trigger_by_instance clock futs sys1) (\<lambda>(ts, sys2). Inr (if triggered then t # ts else ts, sys2))))"

text \<open>\<open>DefaultTaskTrigger\<close>; finding takes twenty-four readings for a task, triggering fourteen.\<close>

definition trigger_ready :: "(nat \<Rightarrow> nat \<Rightarrow> int) \<Rightarrow> 'r pool_system \<Rightarrow> (int \<times> 'r pool_system) res" where
  "trigger_ready clock sys =
     rbind (find_ready clock sys) (\<lambda>(next_time, due). trigger_tasks (\<lambda>t. later 24 (clock t)) due sys)"

section \<open>ThreadPool\<close>

text \<open>The wait set of the workers is \<open>0\<close>, the one that wakes the scheduler \<open>1\<close>.\<close>

definition executor_set :: nat where "executor_set = 0"
definition scheduler_set :: nat where "scheduler_set = 1"

definition pool_add ::
  "nat \<Rightarrow> nat \<Rightarrow> nat \<Rightarrow> nat \<Rightarrow> task_policy \<Rightarrow> schedule_function \<Rightarrow> int option \<Rightarrow> 'r pool_system \<Rightarrow> 'r pool_system res" where
  "pool_add t c d fut p schedule suspended sys =
     (let sys1 = set_handler c t (tasks_add t c d fut p schedule sys) in
      rbind (ws_attach executor_set c sys1) (\<lambda>(_, sys2).
        let sys3 = (case suspended of Some now \<Rightarrow> task_suspend now t sys2 | None \<Rightarrow> sys2) in
        rbind (ws_attach scheduler_set d sys3) (\<lambda>(_, sys4). Inr sys4)))"

definition pool_remove :: "nat \<Rightarrow> 'r pool_system \<Rightarrow> (nat option \<times> 'r pool_system) res" where
  "pool_remove obj sys =
     rbind (tasks_remove obj sys) (\<lambda>(found, sys1).
       case found of
         None \<Rightarrow> Inr (None, sys1)
       | Some t \<Rightarrow> rbind (ws_detach executor_set (st_cond (task_of t sys1)) sys1) (\<lambda>(_, sys2). Inr (Some t, sys2)))"

definition manage_tasks :: "(nat \<Rightarrow> nat \<Rightarrow> int) \<Rightarrow> 'r pool_system \<Rightarrow> 'r pool_system res" where
  "manage_tasks clock sys = rbind (remove_done sys) (\<lambda>(_, sys'). Inr (snd (interrupt_timeout_tasks clock sys')))"

text \<open>\<open>schedule\<close> with the default scheduler, up to its wait: how long it waits, in milliseconds.\<close>

definition pool_schedule :: "(nat \<Rightarrow> nat \<Rightarrow> int) \<Rightarrow> 'r pool_system \<Rightarrow> (int \<times> 'r pool_system) res" where
  "pool_schedule clock sys =
     rbind (trigger_ready clock sys) (\<lambda>(n, sys1).
     rbind (tasks_earliest_ready_in (\<lambda>t. later 38 (clock t)) sys1) (\<lambda>d.
       let wait = (if d = dur_zero \<and> n = 0 then from_millis 1000 else d)
       in Inr (dur_in_millis wait, sys1)))"

text \<open>What the code of a task does when the pool runs it: the reading of the clock at its start, what others do
  meanwhile, and its outcome; \<open>dflt\<close> is a result never set.\<close>

record 'r behaviour =
  bh_now :: int
  bh_meanwhile :: "'r future \<Rightarrow> 'r future"
  bh_outcome :: "'r outcome"

definition pool_call :: "'r \<Rightarrow> (nat \<Rightarrow> 'r behaviour) \<Rightarrow> int \<Rightarrow> (nat \<Rightarrow> int) \<Rightarrow> nat \<Rightarrow> 'r pool_system \<Rightarrow> 'r pool_system res" where
  "pool_call dflt behave now clock t sys =
     asserting (\<not> is_started (status_of t sys))
       (rbind (runnable_execution now
                 (fu_run dflt (bh_now (behave t)) (bh_meanwhile (behave t)) (bh_outcome (behave t)) (future_of t sys))
                 (xs_new clock))
          (\<lambda>(_, _, f). Inr (put_future t f sys)))"

text \<open>\<open>WaitSetExecutionStrategy\<close>: one round of a worker, with the status of the worker. A wait set that is no longer
  valid still hands out what is queued; an empty queue ends the wait without a condition.\<close>

definition worker_perform ::
  "(nat \<Rightarrow> 'r pool_system \<Rightarrow> 'r pool_system res) \<Rightarrow> int \<Rightarrow> int \<Rightarrow> exec_status \<times> 'r pool_system
     \<Rightarrow> (bool \<times> exec_status \<times> 'r pool_system) res" where
  "worker_perform call now now' = (\<lambda>(status, sys).
     rbind (dequeue_triggered (sys_sets sys executor_set)) (\<lambda>(cond, ws).
       let sys1 = update_set executor_set ws sys in
       if cond = None then Inr (False, status, sys1)
       else
         let s1 = xs_start now status in
         rbind (dispatch_triggered_condition call cond sys1) (\<lambda>(dispatched, sys2).
           if dispatched then rbind (xs_success s1) (\<lambda>s2. Inr (True, s2, sys2))
           else Inr (False, xs_false_start now' s1, sys2))))"

text \<open>The loop of a worker, for as long as the readings last: a round that has run something triggers the guard of the
  worker, which wakes the scheduler.\<close>

definition worker_round ::
  "(nat \<Rightarrow> 'r pool_system \<Rightarrow> 'r pool_system res) \<Rightarrow> nat \<Rightarrow> int \<times> int \<Rightarrow> exec_status \<times> 'r pool_system
     \<Rightarrow> (exec_status \<times> 'r pool_system) res" where
  "worker_round call guard = (\<lambda>(now, now') x.
     rbind (worker_perform call now now' x) (\<lambda>(dispatched, status, sys).
       if dispatched then rbind (set_trigger_value guard True sys) (\<lambda>sys'. Inr (status, sys'))
       else Inr (status, sys)))"

definition worker_run ::
  "(nat \<Rightarrow> 'r pool_system \<Rightarrow> 'r pool_system res) \<Rightarrow> nat \<Rightarrow> (int \<times> int) list \<Rightarrow> exec_status \<times> 'r pool_system
     \<Rightarrow> (exec_status \<times> 'r pool_system) res" where
  "worker_run call guard = rfold (worker_round call guard)"

section \<open>A pool in order\<close>

text \<open>
  The two lists agree, every task has a future and a condition of its own, and its condition is attached to the valid
  wait set of the workers, and to no other, with the task as its handler.
\<close>

abbreviation cond_of :: "'r pool_system \<Rightarrow> nat \<Rightarrow> nat" where
  "cond_of sys t \<equiv> st_cond (task_of t sys)"

definition pool_ok :: "'r pool_system \<Rightarrow> bool" where
  "pool_ok sys \<longleftrightarrow> sys_ok sys \<and> ws_valid (sys_sets sys executor_set) \<and> te_list (sys_env sys) = te_base (sys_env sys)
     \<and> distinct (te_list (sys_env sys))
     \<and> inj_on (cond_of sys) (set (te_list (sys_env sys)))
     \<and> inj_on (\<lambda>t. st_task (task_of t sys)) (set (te_list (sys_env sys)))
     \<and> (\<forall>t \<in> set (te_list (sys_env sys)). gc_wait_sets (sys_guards sys (cond_of sys t)) = [executor_set]
          \<and> gc_handler (sys_guards sys (cond_of sys t)) = Some t)"

lemma own_condition:
  assumes "pool_ok sys" "t \<in> set (te_list (sys_env sys))" "u \<in> set (te_list (sys_env sys))"
  shows "cond_of sys u = cond_of sys t \<longleftrightarrow> u = t" "st_task (task_of u sys) = st_task (task_of t sys) \<longleftrightarrow> u = t"
  using assms unfolding pool_ok_def inj_on_def by blast+

lemma put_status_simps [simp]:
  "task_of u (put_status t s sys) = task_of u sys" "sys_guards (put_status t s sys) = sys_guards sys"
  "sys_sets (put_status t s sys) = sys_sets sys" "te_list (sys_env (put_status t s sys)) = te_list (sys_env sys)"
  "te_base (sys_env (put_status t s sys)) = te_base (sys_env sys)"
  by (simp_all add: put_status_def put_future_def task_of_def)

lemma status_of_put_status:
  "status_of u (put_status t s sys) = (if st_task (task_of u sys) = st_task (task_of t sys) then s else status_of u sys)"
  by (simp add: put_status_def put_future_def status_of_def future_of_def task_of_def)

lemma update_env [simp]:
  "sys_env (update_set w ws sys) = sys_env sys" "sys_env (update_guard c f sys) = sys_env sys"
  "task_of t (update_set w ws sys) = task_of t sys" "task_of t (update_guard c f sys) = task_of t sys"
  "status_of t (update_set w ws sys) = status_of t sys" "status_of t (update_guard c f sys) = status_of t sys"
  by (simp_all add: update_set_def update_guard_def task_of_def status_of_def future_of_def)

lemma sys_ok_put_status [simp]: "sys_ok (put_status t s sys) = sys_ok sys"
  by (simp add: sys_ok_def)

text \<open>The system once the task has been triggered.\<close>

definition enqueued :: "nat \<Rightarrow> wait_set \<Rightarrow> wait_set" where
  "enqueued c ws = (if c \<in> set (ws_queue ws) then ws
     else ws\<lparr> ws_queue := ws_queue ws @ [c], ws_triggered := List.insert c (ws_triggered ws) \<rparr>)"

definition triggered :: "nat \<Rightarrow> 'r pool_system \<Rightarrow> 'r pool_system" where
  "triggered t sys = update_set executor_set (enqueued (cond_of sys t) (sys_sets sys executor_set))
     (update_guard (cond_of sys t) (\<lambda>g. g\<lparr> gc_trigger := True \<rparr>)
       (put_status t ((status_of t sys)\<lparr> xs_state := Starting \<rparr>) sys))"

lemma set_trigger_single:
  assumes "sys_ok sys" "gc_wait_sets (sys_guards sys c) = [w]" "ws_valid (sys_sets sys w)"
  shows "set_trigger_value c True sys =
      Inr (update_set w (enqueued c (sys_sets sys w)) (update_guard c (\<lambda>g. g\<lparr> gc_trigger := True \<rparr>) sys))"
    "sys_ok (update_set w (enqueued c (sys_sets sys w)) (update_guard c (\<lambda>g. g\<lparr> gc_trigger := True \<rparr>) sys))"
proof -
  have ok: "ws_ok (sys_sets sys w)" and c: "c \<in> set (ws_conditions (sys_sets sys w))"
    using assms(1,2) by (auto simp: sys_ok_def)
  have sets: "sys_sets (update_guard c f sys) w = sys_sets sys w" for f by (simp add: update_guard_def)
  have waits: "gc_wait_sets (sys_guards (update_guard c (\<lambda>g. g\<lparr> gc_trigger := True \<rparr>) sys) c) = [w]"
    using assms(2) by (simp add: update_guard_def)
  show run: "set_trigger_value c True sys =
      Inr (update_set w (enqueued c (sys_sets sys w)) (update_guard c (\<lambda>g. g\<lparr> gc_trigger := True \<rparr>) sys))"
    using enqueue_triggered_ok(1)[OF ok c] assms(3) c
    by (simp add: set_trigger_value_def signal_all_def waits signal_def sets enqueued_def Let_def)
  show "sys_ok (update_set w (enqueued c (sys_sets sys w)) (update_guard c (\<lambda>g. g\<lparr> gc_trigger := True \<rparr>) sys))"
    using set_trigger_value_ok[OF assms(1), of c True] run by auto
qed

lemma task_trigger_returns:
  assumes "pool_ok sys" "t \<in> set (te_list (sys_env sys))" "\<not> is_executing (status_of t sys)"
  shows "task_trigger t sys = Inr (triggered t sys)"
proof -
  let ?sys1 = "put_status t ((status_of t sys)\<lparr> xs_state := Starting \<rparr>) sys"
  have "sys_ok ?sys1" "gc_wait_sets (sys_guards ?sys1 (cond_of sys t)) = [executor_set]" "ws_valid (sys_sets ?sys1 executor_set)"
    using assms(1,2) by (auto simp: pool_ok_def)
  from set_trigger_single(1)[OF this] show ?thesis
    using assms(3) by (simp add: task_trigger_def set_iff_not_executing_def triggered_def)
qed

lemma triggered_simps [simp]:
  "task_of u (triggered t sys) = task_of u sys" "te_list (sys_env (triggered t sys)) = te_list (sys_env sys)"
  "te_base (sys_env (triggered t sys)) = te_base (sys_env sys)"
  "sys_sets (triggered t sys) executor_set = enqueued (cond_of sys t) (sys_sets sys executor_set)"
  "w \<noteq> executor_set \<Longrightarrow> sys_sets (triggered t sys) w = sys_sets sys w"
  "sys_guards (triggered t sys) = (sys_guards sys)(cond_of sys t := (sys_guards sys (cond_of sys t))\<lparr> gc_trigger := True \<rparr>)"
  by (simp_all add: triggered_def) (simp_all add: update_set_def update_guard_def)

lemma status_of_triggered:
  assumes "pool_ok sys" "t \<in> set (te_list (sys_env sys))" "u \<in> set (te_list (sys_env sys))"
  shows "status_of u (triggered t sys) = (if u = t then (status_of t sys)\<lparr> xs_state := Starting \<rparr> else status_of u sys)"
  using own_condition(2)[OF assms] by (simp add: triggered_def status_of_put_status)

lemma pool_ok_triggered:
  assumes "pool_ok sys" "t \<in> set (te_list (sys_env sys))"
  shows "pool_ok (triggered t sys)"
proof -
  let ?sys1 = "put_status t ((status_of t sys)\<lparr> xs_state := Starting \<rparr>) sys"
  have "sys_ok ?sys1" "gc_wait_sets (sys_guards ?sys1 (cond_of sys t)) = [executor_set]" "ws_valid (sys_sets ?sys1 executor_set)"
    using assms by (auto simp: pool_ok_def)
  from set_trigger_single(2)[OF this] have "sys_ok (triggered t sys)" by (simp add: triggered_def)
  moreover have "cond_of sys u = cond_of sys t \<Longrightarrow> u = t" if "u \<in> set (te_list (sys_env sys))" for u
    using own_condition(1)[OF assms that] by simp
  ultimately show ?thesis using assms unfolding pool_ok_def by (auto simp: enqueued_def)
qed

text \<open>What a task needs to be triggered depends only on itself.\<close>

definition triggerable :: "(nat \<Rightarrow> int) \<Rightarrow> nat \<Rightarrow> 'r pool_system \<Rightarrow> bool" where
  "triggerable clock t sys \<longleftrightarrow> \<not> is_executing (status_of t sys) \<and> \<not> is_suspended (status_of t sys)
     \<and> task_is_ready clock t sys = Inr True"

lemma task_is_ready_cong:
  "task_of t sys = task_of t sys' \<Longrightarrow> status_of t sys = status_of t sys' \<Longrightarrow> task_is_ready clock t sys = task_is_ready clock t sys'"
  by (simp only: task_is_ready_def ready_in_def Let_def)

lemma trigger_tasks_returns:
  assumes "pool_ok sys" "distinct ts" "set ts \<subseteq> set (te_list (sys_env sys))" "\<forall>t \<in> set ts. triggerable (clock t) t sys"
  shows "trigger_tasks clock ts sys = Inr (int (length ts), fold triggered ts sys)"
  using assms
proof (induction ts arbitrary: sys)
  case (Cons t ts)
  have t: "t \<in> set (te_list (sys_env sys))" and tr: "triggerable (clock t) t sys" using Cons.prems by auto
  have "trigger_task (clock t) t sys = Inr (True, triggered t sys)"
    using tr task_trigger_returns[OF Cons.prems(1) t]
    by (simp add: trigger_task_def triggerable_def is_starting_def is_executing_def)
  moreover have "\<forall>u \<in> set ts. triggerable (clock u) u (triggered t sys)"
  proof
    fix u assume "u \<in> set ts"
    then have u: "u \<noteq> t" "u \<in> set (te_list (sys_env sys))" "triggerable (clock u) u sys" using Cons.prems by auto
    have same: "status_of u (triggered t sys) = status_of u sys"
      using status_of_triggered[OF Cons.prems(1) t u(2)] u(1) by simp
    show "triggerable (clock u) u (triggered t sys)"
      using u(3) same task_is_ready_cong[of u "triggered t sys" sys] by (simp add: triggerable_def)
  qed
  ultimately show ?case
    using Cons.IH[OF pool_ok_triggered[OF Cons.prems(1) t]] Cons.prems(2,3) by simp
qed simp

lemma fold_triggered_all:
  assumes "pool_ok sys" "distinct ts" "set ts \<subseteq> set (te_list (sys_env sys))"
  defines "q \<equiv> ws_queue (sys_sets sys executor_set)"
  shows "pool_ok (fold triggered ts sys) \<and> te_list (sys_env (fold triggered ts sys)) = te_list (sys_env sys)
    \<and> task_of v (fold triggered ts sys) = task_of v sys
    \<and> (\<forall>u \<in> set (te_list (sys_env sys)). status_of u (fold triggered ts sys) =
         (if u \<in> set ts then (status_of u sys)\<lparr> xs_state := Starting \<rparr> else status_of u sys))
    \<and> ws_queue (sys_sets (fold triggered ts sys) executor_set) = q @ filter (\<lambda>c. c \<notin> set q) (map (cond_of sys) ts)
    \<and> (\<forall>c. gc_trigger (sys_guards (fold triggered ts sys) c) \<longleftrightarrow> gc_trigger (sys_guards sys c) \<or> c \<in> cond_of sys ` set ts)"
  unfolding q_def using assms(1-3)
proof (induction ts arbitrary: sys)
  case (Cons t ts)
  have t: "t \<in> set (te_list (sys_env sys))" using Cons.prems by auto
  have prems: "pool_ok (triggered t sys)" "distinct ts" "set ts \<subseteq> set (te_list (sys_env (triggered t sys)))"
    using pool_ok_triggered[OF Cons.prems(1) t] Cons.prems by auto
  note IH = Cons.IH[OF prems]
  have status: "status_of u (triggered t sys) = (if u = t then (status_of t sys)\<lparr> xs_state := Starting \<rparr> else status_of u sys)"
    if "u \<in> set (te_list (sys_env sys))" for u
    by (rule status_of_triggered[OF Cons.prems(1) t that])
  have conds: "cond_of sys u \<noteq> cond_of sys t" if "u \<in> set ts" for u
    using own_condition(1)[OF Cons.prems(1) t, of u] Cons.prems(2,3) that by auto
  then have queue: "filter (\<lambda>c. c \<notin> set (ws_queue (enqueued (cond_of sys t) ws))) (map (cond_of sys) ts)
      = filter (\<lambda>c. c \<notin> set (ws_queue ws)) (map (cond_of sys) ts)" for ws
    using conds by (intro filter_cong) (auto simp: enqueued_def)
  have "ws_queue (enqueued (cond_of sys t) ws) @ filter (\<lambda>c. c \<notin> set (ws_queue ws)) (map (cond_of sys) ts)
      = ws_queue ws @ filter (\<lambda>c. c \<notin> set (ws_queue ws)) (map (cond_of sys) (t # ts))" for ws
    by (simp add: enqueued_def)
  with queue have "ws_queue (sys_sets (fold triggered (t # ts) sys) executor_set) = ws_queue (sys_sets sys executor_set)
      @ filter (\<lambda>c. c \<notin> set (ws_queue (sys_sets sys executor_set))) (map (cond_of sys) (t # ts))"
    using IH by simp
  then show ?case using IH status Cons.prems(2) by auto
qed simp

lemma fold_triggered:
  assumes "pool_ok sys" "distinct ts" "set ts \<subseteq> set (te_list (sys_env sys))"
  shows "pool_ok (fold triggered ts sys)"
    "te_list (sys_env (fold triggered ts sys)) = te_list (sys_env sys)" "task_of v (fold triggered ts sys) = task_of v sys"
    "u \<in> set (te_list (sys_env sys)) \<Longrightarrow> status_of u (fold triggered ts sys) =
       (if u \<in> set ts then (status_of u sys)\<lparr> xs_state := Starting \<rparr> else status_of u sys)"
    "ws_queue (sys_sets (fold triggered ts sys) executor_set) = ws_queue (sys_sets sys executor_set)
       @ filter (\<lambda>c. c \<notin> set (ws_queue (sys_sets sys executor_set))) (map (cond_of sys) ts)"
    "gc_trigger (sys_guards (fold triggered ts sys) c) \<longleftrightarrow> gc_trigger (sys_guards sys c) \<or> c \<in> cond_of sys ` set ts"
  using fold_triggered_all[OF assms] by blast+

section \<open>The default schedule\<close>

definition is_untouched :: "exec_status \<Rightarrow> bool" where "is_untouched s \<longleftrightarrow> xs_state s = Untouched"

text \<open>A task that waits for its time: it does not execute, has attempts left, and its times are in order.\<close>

definition waiting :: "(nat \<Rightarrow> int) \<Rightarrow> nat \<Rightarrow> 'r pool_system \<Rightarrow> bool" where
  "waiting clock t sys \<longleftrightarrow> (let s = status_of t sys; p = st_policy (task_of t sys) in
     st_schedule (task_of t sys) = default_schedule \<and> \<not> is_executing s \<and> is_in_attempt s (tp_attempt p) = Inr True
     \<and> (\<exists>bound open. status_ok bound open s) \<and> times_ok clock s
     \<and> policy_ok (tp_interval p) (tp_retry p) (tp_timeout p)
     \<and> (is_untouched s \<longrightarrow> exponential_backoff s (tp_retry p) = 0))"

definition due_in :: "(nat \<Rightarrow> int) \<Rightarrow> nat \<Rightarrow> 'r pool_system \<Rightarrow> int" where
  "due_in clock t sys = (let s = status_of t sys; p = st_policy (task_of t sys) in
     if is_suspended s then dur_infinite
     else if retry_due clock s (tp_retry p) then 0
     else max 0 ((if is_never_executed s = Inr True then iv_initial (tp_interval p) else iv_period (tp_interval p))
                   - elapsed (clock 0) s))"

lemma waiting_later: "waiting clock t sys \<Longrightarrow> waiting (later k clock) t sys"
  by (auto simp: waiting_def Let_def times_ok_later)

lemma waiting_ready_in:
  assumes "waiting clock t sys"
  shows "ready_in clock t sys = Inr (due_in clock t sys)"
proof -
  let ?s = "status_of t sys" let ?p = "st_policy (task_of t sys)"
  obtain bound "open" where w: "st_schedule (task_of t sys) = default_schedule" "\<not> is_executing ?s"
    "is_in_attempt ?s (tp_attempt ?p) = Inr True" "status_ok bound open ?s" "times_ok clock ?s"
    "policy_ok (tp_interval ?p) (tp_retry ?p) (tp_timeout ?p)"
    "is_untouched ?s \<longrightarrow> exponential_backoff ?s (tp_retry ?p) = 0"
    using assms by (auto simp: waiting_def Let_def)
  have "is_false_start (clock 5) ?s \<longrightarrow> exponential_backoff ?s (tp_retry ?p) = 0"
    using w(7) by (simp add: is_false_start_def is_untouched_def)
  from idle_ready[OF w(2) this w(4-6,3)] show ?thesis
    using w(1) attempts_ok(2)[OF w(4)] by (simp add: ready_in_def default_schedule_def due_in_def Let_def)
qed

lemma due_in_nonneg: "0 \<le> due_in clock t sys"
  by (simp add: due_in_def Let_def dur_infinite_def int64_max_def)

lemma due_not_suspended: "due_in clock t sys = 0 \<Longrightarrow> \<not> is_suspended (status_of t sys)"
  by (auto simp: due_in_def Let_def dur_infinite_def int64_max_def)

text \<open>A task that is due stays due.\<close>

lemma due_stays:
  assumes "waiting clock t sys" "due_in clock t sys = 0"
  shows "due_in (later k clock) t sys = 0"
proof -
  let ?s = "status_of t sys"
  have times: "times_ok clock ?s" using assms(1) by (simp add: waiting_def Let_def)
  have "elapsed (clock i) ?s \<le> elapsed (clock (k + i)) ?s" for i by (rule elapsed_mono[OF times]) simp
  from this[of 0] this[of 2] show ?thesis
    using assms(2) due_not_suspended[OF assms(2)]
    by (auto simp: due_in_def Let_def retry_due_def split: if_splits)
qed

lemma due_triggerable:
  assumes "waiting clock t sys" "due_in clock t sys = 0"
  shows "triggerable (later k clock) t sys"
  using waiting_ready_in[OF waiting_later[OF assms(1), of k]] due_stays[OF assms, of k] due_not_suspended[OF assms(2)] assms(1)
  by (simp add: triggerable_def task_is_ready_def waiting_def Let_def)

text \<open>The pass over the tasks: those that are due, in order, and the least time of the others.\<close>

lemma default_find_ready_returns:
  assumes "\<forall>t \<in> set ts. waiting (clock t) t sys"
  shows "default_find_ready clock sys ts (m, acc) =
    Inr (fold min (map (\<lambda>t. due_in (clock t) t sys) (filter (\<lambda>t. 0 < due_in (clock t) t sys) ts)) m,
         acc @ filter (\<lambda>t. due_in (clock t) t sys = 0) ts)"
  using assms
proof (induction ts arbitrary: m acc)
  case (Cons t ts)
  let ?d = "due_in (clock t) t sys"
  have w: "waiting (clock t) t sys" and ws: "\<forall>t \<in> set ts. waiting (clock t) t sys" using Cons.prems by auto
  show ?case
  proof (cases "?d = 0")
    case True
    have "triggerable (later 10 (clock t)) t sys" by (rule due_triggerable[OF w True])
    then have "task_is_ready (later 10 (clock t)) t sys = Inr True" "\<not> is_executing (status_of t sys)"
      "\<not> is_suspended (status_of t sys)" "\<not> is_interrupted (status_of t sys)"
      by (auto simp: triggerable_def is_interrupted_def is_executing_def)
    then show ?thesis using True waiting_ready_in[OF w] Cons.IH[OF ws] by simp
  next
    case False
    then have "0 < ?d" using due_in_nonneg[of "clock t" t sys] by linarith
    moreover have "min ?d m = (if ?d < m then ?d else m)" by simp
    ultimately show ?thesis using waiting_ready_in[OF w] Cons.IH[OF ws] by auto
  qed
qed simp

lemma trigger_ready_returns:
  assumes "pool_ok sys" "\<forall>t \<in> set (te_list (sys_env sys)). waiting (clock t) t sys"
  defines "due \<equiv> filter (\<lambda>t. due_in (clock t) t sys = 0) (te_list (sys_env sys))"
  shows "trigger_ready clock sys = Inr (int (length due), fold triggered due sys)"
proof -
  have base: "te_base (sys_env sys) = te_list (sys_env sys)" "distinct (te_list (sys_env sys))"
    using assms(1) by (auto simp: pool_ok_def)
  have "distinct due" "set due \<subseteq> set (te_list (sys_env sys))" using base(2) by (auto simp: due_def)
  moreover have "\<forall>t \<in> set due. triggerable (later 24 (clock t)) t sys"
    using assms(2) by (simp add: due_def due_triggerable)
  ultimately show ?thesis
    using trigger_tasks_returns[OF assms(1)] default_find_ready_returns[OF assms(2)]
    by (simp add: trigger_ready_def find_ready_def base(1) due_def)
qed

section \<open>Rounds of the scheduler\<close>

text \<open>A pool with one task, for the witnesses.\<close>

definition lone_env :: "task_policy \<Rightarrow> nat task_env" where
  "lone_env p = \<lparr> te_futures = (\<lambda>i. fu_new 0 (\<lambda>i. 0)),
     te_tasks = (\<lambda>i. \<lparr> st_task = 0, st_policy = p, st_cond = 0, st_scheduler_cond = 1, st_schedule = default_schedule \<rparr>),
     te_list = [5], te_base = [5] \<rparr>"

definition lone_pool :: "task_policy \<Rightarrow> nat pool_system" where
  "lone_pool p = \<lparr> sys_guards = (\<lambda>c. gc_new)(0 := \<lparr> gc_trigger = False, gc_handler = Some 5, gc_wait_sets = [0] \<rparr>),
     sys_sets = (\<lambda>w. ws_new)(0 := ws_new\<lparr> ws_conditions := [0] \<rparr>), sys_env = lone_env p \<rparr>"

lemma lone_pool_simps:
  "sys_env (lone_pool p) = lone_env p" "te_list (lone_env p) = [5]" "te_base (lone_env p) = [5]"
  "status_of t (lone_pool p) = xs_new (\<lambda>i. 0)" "st_policy (task_of t (lone_pool p)) = p"
  "st_schedule (task_of t (lone_pool p)) = default_schedule" "cond_of (lone_pool p) t = 0"
  "st_task (task_of t (lone_pool p)) = 0"
  "ws_queue (sys_sets (lone_pool p) executor_set) = []"
  by (simp_all add: lone_pool_def lone_env_def status_of_def future_of_def task_of_def fu_new_def ws_new_def executor_set_def)

lemma lone_pool_ok: "pool_ok (lone_pool p)"
proof -
  have "sys_ok (lone_pool p)" "ws_valid (sys_sets (lone_pool p) executor_set)"
    "gc_wait_sets (sys_guards (lone_pool p) 0) = [executor_set]" "gc_handler (sys_guards (lone_pool p) 0) = Some 5"
    by (auto simp: sys_ok_def lone_pool_def ws_ok_def ws_new_def gc_new_def executor_set_def)
  then show ?thesis by (simp add: pool_ok_def lone_pool_simps)
qed

lemma lone_pool_waiting:
  assumes "policy_ok (tp_interval p) (tp_retry p) (tp_timeout p)" "is_in_attempt (xs_new (\<lambda>i. 0)) (tp_attempt p) = Inr True"
    "0 \<le> now" "now < 9223372036854775808"
  shows "waiting (\<lambda>i. now) t (lone_pool p)"
proof -
  have "times_ok (\<lambda>i. now) (xs_new (\<lambda>i. 0))" using assms(3,4) by (simp add: times_ok_def mono_def xs_new_def xt_new_def)
  moreover have "\<exists>bound open. status_ok bound open (xs_new (\<lambda>i. 0))" using new_status(1) by blast
  ultimately show ?thesis using assms(1,2) new_status(2,4) by (simp add: waiting_def lone_pool_simps Let_def)
qed

lemma run_once_ok:
  "policy_ok (tp_interval run_once_immediately) (tp_retry run_once_immediately) (tp_timeout run_once_immediately)"
  "is_in_attempt (xs_new (\<lambda>i. 0)) (tp_attempt run_once_immediately) = Inr True"
  by (simp_all add: run_once_immediately_def policy_ok_def interval_ok_def iv_immediately_def iv_default_def dur_zero_def
      from_millis_def is_in_attempt_def is_cancelled_def xs_new_def until_success_def total_num_attempts_def ec_new_def
      num_successes_def wrap32_def)

lemma lone_due: "due_in (\<lambda>i. 7) t (lone_pool run_once_immediately) = 0"
proof -
  have "elapsed 7 (xs_new (\<lambda>i. 0)) = 7"
    by (simp add: elapsed_def since_last_execution_def since_def in_int64_def xs_new_def xt_new_def)
  then show ?thesis
    using new_status(5,6)
    by (simp add: due_in_def lone_pool_simps run_once_immediately_def iv_immediately_def dur_zero_def Let_def)
qed

text \<open>C25: One round of the scheduler over tasks that wait triggers exactly those that are due, in the order of the pool,
  without a failed assertion: they become STARTING, every other task keeps its status, their conditions are triggered
  and those not queued yet are queued behind what the workers have to do, each once.\<close>

theorem trigger_ready_due_once:
  assumes "pool_ok sys" "\<forall>t \<in> set (te_list (sys_env sys)). waiting (clock t) t sys"
  defines "due \<equiv> filter (\<lambda>t. due_in (clock t) t sys = 0) (te_list (sys_env sys))"
    and "q \<equiv> ws_queue (sys_sets sys executor_set)"
  shows "\<exists>sys'. trigger_ready clock sys = Inr (int (length due), sys') \<and> pool_ok sys'
    \<and> te_list (sys_env sys') = te_list (sys_env sys)
    \<and> (\<forall>t \<in> set (te_list (sys_env sys)). status_of t sys' =
         (if due_in (clock t) t sys = 0 then (status_of t sys)\<lparr> xs_state := Starting \<rparr> else status_of t sys))
    \<and> ws_queue (sys_sets sys' executor_set) = q @ filter (\<lambda>c. c \<notin> set q) (map (cond_of sys) due)
    \<and> (\<forall>t \<in> set due. gc_trigger (sys_guards sys' (cond_of sys t)))"
proof -
  have "distinct due" "set due \<subseteq> set (te_list (sys_env sys))"
    using assms(1) by (auto simp: due_def pool_ok_def)
  note due = fold_triggered[OF assms(1) this, folded q_def]
  have run: "trigger_ready clock sys = Inr (int (length due), fold triggered due sys)"
    using trigger_ready_returns[OF assms(1,2)] by (simp add: due_def)
  have "status_of t (fold triggered due sys) =
      (if due_in (clock t) t sys = 0 then (status_of t sys)\<lparr> xs_state := Starting \<rparr> else status_of t sys)"
    if "t \<in> set (te_list (sys_env sys))" for t
    using due(4)[OF that] that by (simp add: due_def)
  then show ?thesis using run due(1,2,5,6) by blast
qed

theorem trigger_ready_due_once_witness:
  "\<exists>sys'. trigger_ready (\<lambda>t i. 7) (lone_pool run_once_immediately) = Inr (1, sys')
    \<and> ws_queue (sys_sets sys' executor_set) = [0] \<and> is_starting (status_of 5 sys')"
proof -
  let ?sys = "lone_pool run_once_immediately"
  have "\<forall>t \<in> set (te_list (sys_env ?sys)). waiting (\<lambda>i. 7) t ?sys"
    using lone_pool_waiting[OF run_once_ok] by simp
  from trigger_ready_due_once[OF lone_pool_ok this] show ?thesis
    by (auto simp: lone_pool_simps lone_due is_starting_def)
qed

lemma rfold_fails:
  assumes "t \<in> set ts" "\<And>m. f t m = Inl e" "\<And>u m. u \<in> set ts \<Longrightarrow> f u m = Inl e \<or> (\<exists>m'. f u m = Inr m')"
  shows "rfold f ts m = Inl e"
  using assms(1,3)
proof (induction ts arbitrary: m)
  case (Cons u us)
  consider "f u m = Inl e" | m' where "f u m = Inr m'" "u \<noteq> t" using Cons.prems(2)[of u m] assms(2)[of m] by fastforce
  then show ?case
  proof cases
    case 1
    then show ?thesis by simp
  next
    case 2
    then show ?thesis using Cons by simp
  qed
qed simp

text \<open>What \<open>EarliestReadyIn\<close> makes of a task with the default schedule that has been started.\<close>

lemma started_ready_in:
  assumes "is_executing (status_of t sys)" "status_ok bound open (status_of t sys)" "times_ok clock (status_of t sys)"
    and "st_schedule (task_of t sys) = default_schedule" "p = st_policy (task_of t sys)"
    and "policy_ok (tp_interval p) (tp_retry p) (tp_timeout p)"
  shows "ready_in clock t sys =
    (let rest = (if is_interrupted (status_of t sys) then dur_infinite else tp_timeout p - elapsed (clock 4) (status_of t sys)) in
     if rest \<le> 0 then Inr 0
     else if iv_period (tp_interval p) = 0 \<or> retry_due clock (status_of t sys) (tp_retry p) then Inl AssertFailed
     else Inr (min (iv_period (tp_interval p)) rest))"
  using executing_ready[OF assms(1,2,3,6)] by (simp add: ready_in_def default_schedule_def assms(4,5))

lemma status_ok_starting: "status_ok bound open (s\<lparr> xs_state := Starting \<rparr>) = status_ok bound open s"
  by (simp add: status_ok_def is_last_execution_failure_def)

lemma starting_simps [simp]:
  "times_ok clock (s\<lparr> xs_state := Starting \<rparr>) = times_ok clock s" "elapsed now (s\<lparr> xs_state := Starting \<rparr>) = elapsed now s"
  "is_executing (s\<lparr> xs_state := Starting \<rparr>)" "\<not> is_interrupted (s\<lparr> xs_state := Starting \<rparr>)"
  by (simp_all add: times_ok_def elapsed_def is_executing_def is_interrupted_def)

text \<open>Reading the time until a task is due fails with an assertion or not at all.\<close>

lemma round_ready_in:
  assumes "pool_ok sys" "waiting clock t sys" "t \<in> set (te_list (sys_env sys))"
    and "distinct ts" "set ts \<subseteq> set (te_list (sys_env sys))"
  shows "ready_in (later k clock) t (fold triggered ts sys) = Inl AssertFailed
    \<or> (\<exists>d. ready_in (later k clock) t (fold triggered ts sys) = Inr d)"
    "t \<in> set ts \<Longrightarrow> iv_period (tp_interval (st_policy (task_of t sys))) = 0 \<Longrightarrow>
      elapsed (clock (k + 4)) (status_of t sys) < tp_timeout (st_policy (task_of t sys)) \<Longrightarrow>
      ready_in (later k clock) t (fold triggered ts sys) = Inl AssertFailed"
proof -
  let ?sys = "fold triggered ts sys" let ?s = "status_of t sys" let ?p = "st_policy (task_of t sys)"
  note same = fold_triggered(3)[OF assms(1,4,5)] fold_triggered(4)[OF assms(1,4,5,3)]
  obtain bound "open" where w: "st_schedule (task_of t sys) = default_schedule" "status_ok bound open ?s" "times_ok clock ?s"
    "policy_ok (tp_interval ?p) (tp_retry ?p) (tp_timeout ?p)"
    using assms(2) by (auto simp: waiting_def Let_def)
  have started: "ready_in (later k clock) t ?sys = (let rest = tp_timeout ?p - elapsed (clock (k + 4)) ?s in
      if rest \<le> 0 then Inr 0
      else if iv_period (tp_interval ?p) = 0 \<or> retry_due (later k clock) (status_of t ?sys) (tp_retry ?p) then Inl AssertFailed
      else Inr (min (iv_period (tp_interval ?p)) rest))" if "t \<in> set ts"
    using started_ready_in[of t ?sys bound "open" "later k clock" ?p] w same that times_ok_later[OF w(3), of k]
    by (simp add: status_ok_starting)
  have idle: "ready_in (later k clock) t ?sys = ready_in (later k clock) t sys" if "t \<notin> set ts"
    using same that by (simp add: ready_in_def)
  show "ready_in (later k clock) t ?sys = Inl AssertFailed \<or> (\<exists>d. ready_in (later k clock) t ?sys = Inr d)"
    using started idle waiting_ready_in[OF waiting_later[OF assms(2), of k]] by (cases "t \<in> set ts") (auto simp: Let_def)
  show "t \<in> set ts \<Longrightarrow> iv_period (tp_interval ?p) = 0 \<Longrightarrow> elapsed (clock (k + 4)) ?s < tp_timeout ?p \<Longrightarrow>
      ready_in (later k clock) t ?sys = Inl AssertFailed"
    using started by (simp add: Let_def)
qed

text \<open>C27: When a round of the scheduler triggers a task whose period is zero, such as every task made with
  \<open>RunOnceImmediately\<close>, and no worker has run it yet, the search for the next time to wait that follows fails an
  assertion: the task that has just been started is due again but not ready.\<close>

theorem zero_period_stops_scheduler:
  assumes "pool_ok sys" "\<forall>u \<in> set (te_list (sys_env sys)). waiting (clock u) u sys"
    and "t \<in> set (te_list (sys_env sys))" "due_in (clock t) t sys = 0"
    and "iv_period (tp_interval (st_policy (task_of t sys))) = 0"
    and "elapsed (clock t 42) (status_of t sys) < tp_timeout (st_policy (task_of t sys))"
  shows "pool_schedule clock sys = Inl AssertFailed"
proof -
  define due where "due = filter (\<lambda>t. due_in (clock t) t sys = 0) (te_list (sys_env sys))"
  let ?sys = "fold triggered due sys"
  have sub: "distinct due" "set due \<subseteq> set (te_list (sys_env sys))" "t \<in> set due"
    using assms(1,3,4) by (auto simp: due_def pool_ok_def)
  have run: "trigger_ready clock sys = Inr (int (length due), ?sys)"
    using trigger_ready_returns[OF assms(1,2)] by (simp add: due_def)
  have fails: "ready_in (later 38 (clock t)) t ?sys = Inl AssertFailed"
    using round_ready_in(2)[OF assms(1) _ assms(3) sub(1,2), of "clock t" 38] assms(2,3,5,6) sub(3) by simp
  have "tasks_earliest_ready_in (\<lambda>u. later 38 (clock u)) ?sys = Inl AssertFailed"
    unfolding tasks_earliest_ready_in_def
  proof (rule rfold_fails[where t = t])
    show "t \<in> set (te_list (sys_env ?sys))" using assms(3) fold_triggered(2)[OF assms(1) sub(1,2)] by simp
    show "rbind (ready_in (later 38 (clock t)) t ?sys) (\<lambda>d. Inr (min m d)) = Inl AssertFailed" for m using fails by simp
    fix u m assume "u \<in> set (te_list (sys_env ?sys))"
    then have u: "u \<in> set (te_list (sys_env sys))" using fold_triggered(2)[OF assms(1) sub(1,2)] by simp
    show "rbind (ready_in (later 38 (clock u)) u ?sys) (\<lambda>d. Inr (min m d)) = Inl AssertFailed
        \<or> (\<exists>m'. rbind (ready_in (later 38 (clock u)) u ?sys) (\<lambda>d. Inr (min m d)) = Inr m')"
      using round_ready_in(1)[OF assms(1) _ u sub(1,2), of "clock u" 38] assms(2) u by auto
  qed
  then show ?thesis by (simp add: pool_schedule_def run)
qed

theorem zero_period_stops_scheduler_witness:
  "pool_schedule (\<lambda>t i. 7) (lone_pool run_once_immediately) = Inl AssertFailed"
proof -
  let ?sys = "lone_pool run_once_immediately"
  have "\<forall>t \<in> set (te_list (sys_env ?sys)). waiting (\<lambda>i. 7) t ?sys"
    using lone_pool_waiting[OF run_once_ok] by simp
  moreover have "elapsed 7 (xs_new (\<lambda>i. 0)) = 7"
    by (simp add: elapsed_def since_last_execution_def since_def in_int64_def xs_new_def xt_new_def)
  ultimately show ?thesis
    using zero_period_stops_scheduler[OF lone_pool_ok, of run_once_immediately "\<lambda>t i. 7" 5] lone_due
    by (simp add: lone_pool_simps) (simp add: run_once_immediately_def iv_immediately_def dur_zero_def from_millis_def)
qed

lemma find_ready_fails:
  assumes "t \<in> set ts" "\<forall>u \<in> set ts. u \<noteq> t \<longrightarrow> waiting (clock u) u sys"
    and "ready_in (clock t) t sys = Inr 0" "is_executing (status_of t sys)"
  shows "default_find_ready clock sys ts acc = Inl AssertFailed"
  using assms(1,2)
proof (induction ts arbitrary: acc)
  case (Cons u us)
  obtain m due where acc: "acc = (m, due)" by fastforce
  show ?case
  proof (cases "u = t")
    case True
    then show ?thesis using assms(3,4) by (simp add: acc asserting_def)
  next
    case False
    then have w: "waiting (clock u) u sys" and rest: "default_find_ready clock sys us acc' = Inl AssertFailed" for acc'
      using Cons by auto
    show ?thesis
    proof (cases "due_in (clock u) u sys = 0")
      case True
      have "triggerable (later 10 (clock u)) u sys" by (rule due_triggerable[OF w True])
      then show ?thesis
        using True waiting_ready_in[OF w] rest
        by (auto simp: acc triggerable_def is_interrupted_def is_executing_def)
    next
      case False
      then show ?thesis
        using waiting_ready_in[OF w] rest due_in_nonneg[of "clock u" u sys] by (simp add: acc)
    qed
  qed
qed simp

text \<open>A task that was triggered and has not been taken by a worker within its timeout stops the scheduler: the
  interrupt that \<open>InterruptTimeoutTasks\<close> asks for has no thread to reach and changes nothing, and the next round finds
  the task due, which fails the assertion that it does not execute.\<close>

theorem late_worker_stops_scheduler:
  assumes "pool_ok sys" "t \<in> set (te_list (sys_env sys))" "is_starting (status_of t sys)" "\<not> fu_running (future_of t sys)"
    and "\<forall>u \<in> set (te_list (sys_env sys)). u \<noteq> t \<longrightarrow> waiting (clock u) u sys"
    and "st_schedule (task_of t sys) = default_schedule" "p = st_policy (task_of t sys)"
    and "policy_ok (tp_interval p) (tp_retry p) (tp_timeout p)" "status_ok bound open (status_of t sys)"
    and "times_ok (clock t) (status_of t sys)" "tp_timeout p \<le> elapsed (clock t 4) (status_of t sys)"
  shows "task_interrupt now t sys = (False, sys) \<and> trigger_ready clock sys = Inl AssertFailed"
proof -
  have base: "te_base (sys_env sys) = te_list (sys_env sys)" using assms(1) by (simp add: pool_ok_def)
  have state: "is_executing (status_of t sys)" "\<not> is_interrupted (status_of t sys)"
    using assms(3) by (auto simp: is_executing_def is_starting_def is_interrupted_def)
  have "ready_in (clock t) t sys = Inr 0"
    using started_ready_in[OF state(1) assms(9,10,6,7,8)] state(2) assms(11) by simp
  from find_ready_fails[OF assms(2,5) this state(1)] have "trigger_ready clock sys = Inl AssertFailed"
    by (simp add: trigger_ready_def find_ready_def base)
  moreover have "task_interrupt now t sys = (False, sys)"
    using assms(4) by (simp add: task_interrupt_def fu_interrupt_def put_future_def future_of_def)
  ultimately show ?thesis by blast
qed

lemma lone_pool_triggered:
  "\<exists>sys. trigger_ready (\<lambda>t i. 7) (lone_pool run_once_immediately) = Inr (1, sys) \<and> pool_ok sys
    \<and> sys = triggered 5 (lone_pool run_once_immediately)"
proof -
  let ?sys = "lone_pool run_once_immediately"
  have "\<forall>t \<in> set (te_list (sys_env ?sys)). waiting (\<lambda>i. 7) t ?sys"
    using lone_pool_waiting[OF run_once_ok] by simp
  from trigger_ready_returns[OF lone_pool_ok this] show ?thesis
    using pool_ok_triggered[OF lone_pool_ok, of 5 run_once_immediately] by (simp add: lone_pool_simps lone_due)
qed

theorem late_worker_stops_scheduler_witness:
  "\<exists>sys. trigger_ready (\<lambda>t i. 7) (lone_pool run_once_immediately) = Inr (1, sys)
    \<and> trigger_ready (\<lambda>t i. 70000000000) sys = Inl AssertFailed"
proof -
  obtain sys where sys: "trigger_ready (\<lambda>t i. 7) (lone_pool run_once_immediately) = Inr (1, sys)" "pool_ok sys"
    "sys = triggered 5 (lone_pool run_once_immediately)"
    using lone_pool_triggered by blast
  let ?s = "(xs_new (\<lambda>i. 0))\<lparr> xs_state := Starting \<rparr>"
  have s: "te_list (sys_env sys) = [5]" "status_of 5 sys = ?s" "st_policy (task_of 5 sys) = run_once_immediately"
    "st_schedule (task_of 5 sys) = default_schedule"
    using status_of_triggered[OF lone_pool_ok, of 5 run_once_immediately 5] by (simp_all add: sys(3) lone_pool_simps)
  have "\<not> fu_running (future_of 5 sys)"
    by (simp add: sys(3) triggered_def future_of_def put_status_def put_future_def lone_pool_simps update_set_def update_guard_def
        task_of_def)
      (simp add: lone_env_def fu_new_def lone_pool_def)
  moreover have "times_ok (\<lambda>i. 70000000000) ?s" "elapsed 70000000000 ?s = 70000000000"
    by (simp_all add: elapsed_def since_last_execution_def since_def in_int64_def xs_new_def xt_new_def times_ok_def mono_def)
  moreover have "status_ok 0 0 ?s" using new_status(1) by (simp add: status_ok_starting)
  ultimately show ?thesis
    using late_worker_stops_scheduler[OF sys(2), of 5 "\<lambda>t i. 70000000000" run_once_immediately 0 0] run_once_ok(1) s sys(1)
    by (simp add: is_starting_def) (simp add: run_once_immediately_def from_millis_def)
qed

section \<open>Removing tasks\<close>

text \<open>\<open>Remove\<close> of the pool is given a scheduled task and compares it with the futures that the tasks run, which
  are other objects.\<close>

lemma pool_remove_other:
  assumes "\<forall>t \<in> set (te_list (sys_env sys)). st_task (task_of t sys) \<noteq> obj"
  shows "pool_remove obj sys = Inr (None, sys)"
proof -
  have "tasks_find obj sys = None" using assms by (simp add: tasks_find_def find_None_iff)
  then show ?thesis by (simp add: pool_remove_def tasks_remove_def)
qed

lemma set_trigger_value_env:
  assumes "set_trigger_value c v sys = Inr sys'"
  shows "sys_env sys' = sys_env sys"
proof (cases v)
  case True
  then obtain ws where "rfold (signal c) ws (update_guard c (\<lambda>g. g\<lparr> gc_trigger := v \<rparr>) sys) = Inr sys'"
    using assms by (auto simp: set_trigger_value_def signal_all_def Let_def)
  then show ?thesis
    by (rule rfold_invariant[where P = "\<lambda>s. sys_env s = sys_env sys"])
      (auto simp: signal_def update_set_def update_guard_def Let_def res_simps split: if_splits)
next
  case False
  then show ?thesis using assms by (auto simp: set_trigger_value_def update_guard_def Let_def)
qed

lemma clear_step_env:
  assumes "rbind (ws_detach w c sys1) (\<lambda>(detached, sys2). asserting detached (Inr (task_finalize t sys2))) = Inr sys3"
  shows "sys_env sys3 = sys_env sys1"
  using assms set_trigger_value_env
  by (fastforce simp: ws_detach_def task_finalize_def reset_handler_def Let_def res_simps)

text \<open>\<open>Clear\<close> empties the list of the tasks but not the one the scheduler goes through: the tasks that were cleared
  are found ready as before, and counted and started although their conditions no longer reach a worker.\<close>

theorem cleared_tasks_still_found:
  assumes "tasks_clear w sys = Inr sys'"
  shows "te_list (sys_env sys') = [] \<and> te_base (sys_env sys') = te_base (sys_env sys)
    \<and> find_ready clock sys' = find_ready clock sys"
proof -
  obtain sys1 where run: "rfold (\<lambda>t sys1. rbind (ws_detach w (cond_of sys1 t) sys1) (\<lambda>(detached, sys2).
      asserting detached (Inr (task_finalize t sys2)))) (te_list (sys_env sys)) sys = Inr sys1"
    "sys' = sys1\<lparr> sys_env := (sys_env sys1)\<lparr> te_list := [] \<rparr> \<rparr>"
    using assms by (auto simp: tasks_clear_def res_simps)
  have env: "sys_env sys1 = sys_env sys"
    by (rule rfold_invariant[OF run(1), where P = "\<lambda>s. sys_env s = sys_env sys"]) (simp_all add: clear_step_env)
  have same: "task_of t sys' = task_of t sys" "status_of t sys' = status_of t sys" for t
    using env by (simp_all add: run(2) status_of_def future_of_def task_of_def)
  have "default_find_ready clock sys' ts acc = default_find_ready clock sys ts acc" for ts acc
  proof (induction ts arbitrary: acc)
    case (Cons t ts)
    obtain m due where acc: "acc = (m, due)" by fastforce
    have "ready_in c t sys' = ready_in c t sys" "task_is_ready c t sys' = task_is_ready c t sys" for c
      using same task_is_ready_cong[of t sys' sys] by (simp_all add: ready_in_def)
    then show ?case by (simp add: acc Cons.IH same cong: if_cong)
  next
    case Nil
    show ?case by (cases acc) simp
  qed
  then show ?thesis using env by (simp add: find_ready_def run(2))
qed

theorem cleared_tasks_still_found_witness:
  "\<exists>sys'. tasks_clear executor_set (lone_pool run_once_immediately) = Inr sys'
    \<and> te_base (sys_env sys') = [5] \<and> find_ready (\<lambda>t i. 7) sys' = Inr (dur_infinite, [5])"
proof -
  let ?sys = "lone_pool run_once_immediately"
  have "sys_ok ?sys" "executor_set \<in> set (gc_wait_sets (sys_guards ?sys 0))"
    using lone_pool_ok[of run_once_immediately] by (auto simp: pool_ok_def lone_pool_simps)
  from ws_detach_ok[OF this] obtain sys' where clear: "tasks_clear executor_set ?sys = Inr sys'"
    by (auto simp: tasks_clear_def lone_pool_simps)
  have "\<forall>t \<in> set [5]. waiting (\<lambda>i. 7) t ?sys" using lone_pool_waiting[OF run_once_ok] by simp
  from default_find_ready_returns[OF this] have "find_ready (\<lambda>t i. 7) ?sys = Inr (dur_infinite, [5])"
    by (simp add: find_ready_def lone_pool_simps lone_due)
  then show ?thesis
    using clear cleared_tasks_still_found[OF clear, of "\<lambda>t i. 7"] by (simp add: lone_pool_simps)
qed

end
