(* ===== verification/Task_Workers.thy ===== *)
theory Task_Workers
  imports Task_Scheduler
begin

text \<open>
  The workers of a pool (\<open>RxConcurrent/ThreadPool/Worker\<close>, \<open>ThreadPool::operator()\<close>) run what the scheduler of
  \<open>Task_Scheduler\<close> has triggered: each queued task once, and no task more often than its policy allows, however
  the rounds of the scheduler, of the workers and of the management of tasks interleave.
\<close>

section \<open>The workers\<close>

lemma signal_other_sets:
  assumes "rfold (signal c) ws sys = Inr sys'" "w \<notin> set ws"
  shows "sys_sets sys' w = sys_sets sys w"
  using assms
proof (induction ws arbitrary: sys)
  case (Cons v ws)
  obtain sys1 where "signal c v sys = Inr sys1" "rfold (signal c) ws sys1 = Inr sys'"
    using Cons.prems(1) by (auto simp: res_simps)
  moreover from this have "sys_sets sys1 w = sys_sets sys w"
    using Cons.prems(2) by (auto simp: signal_def Let_def update_set_def res_simps split: if_splits)
  ultimately show ?case using Cons.IH Cons.prems(2) by simp
qed simp

text \<open>Triggering a condition that the workers do not wait for leaves them alone.\<close>

lemma other_trigger:
  assumes "sys_ok sys" "executor_set \<notin> set (gc_wait_sets (sys_guards sys c))"
  shows "\<exists>sys'. set_trigger_value c True sys = Inr sys' \<and> sys_ok sys' \<and> sys_env sys' = sys_env sys
    \<and> sys_guards sys' = (sys_guards sys)(c := (sys_guards sys c)\<lparr> gc_trigger := True \<rparr>)
    \<and> sys_sets sys' executor_set = sys_sets sys executor_set"
proof -
  obtain sys' where sys': "set_trigger_value c True sys = Inr sys'" "sys_ok sys'" "sys_env sys' = sys_env sys"
    "sys_guards sys' = (sys_guards sys)(c := (sys_guards sys c)\<lparr> gc_trigger := True \<rparr>)"
    using set_trigger_value_ok[OF assms(1)] by blast
  have "sys_sets sys' executor_set = sys_sets sys executor_set"
    using signal_other_sets[where w = executor_set and ws = "gc_wait_sets (sys_guards sys c)"] sys'(1) assms(2)
    by (force simp: set_trigger_value_def signal_all_def update_guard_def Let_def)
  then show ?thesis using sys' by blast
qed

lemma pool_ok_same:
  assumes "pool_ok sys" "sys_ok sys'" "ws_valid (sys_sets sys' executor_set)"
    "te_list (sys_env sys') = te_list (sys_env sys)" "te_base (sys_env sys') = te_base (sys_env sys)"
    "te_tasks (sys_env sys') = te_tasks (sys_env sys)"
    "\<And>c. gc_wait_sets (sys_guards sys' c) = gc_wait_sets (sys_guards sys c)"
    "\<And>c. gc_handler (sys_guards sys' c) = gc_handler (sys_guards sys c)"
  shows "pool_ok sys'"
proof -
  have "task_of t sys' = task_of t sys" for t using assms(6) by (simp add: task_of_def)
  then show ?thesis using assms unfolding pool_ok_def by auto
qed

text \<open>The system once a worker has run the first task of the queue, whose future is then \<open>f\<close>.\<close>

definition dequeued :: "nat \<Rightarrow> 'r pool_system \<Rightarrow> 'r pool_system" where
  "dequeued c sys = update_set executor_set ((sys_sets sys executor_set)\<lparr> ws_queue := tl (ws_queue (sys_sets sys executor_set)),
     ws_triggered := removeAll c (ws_triggered (sys_sets sys executor_set)) \<rparr>) sys"

definition worked :: "nat \<Rightarrow> 'r future \<Rightarrow> 'r pool_system \<Rightarrow> 'r pool_system" where
  "worked t f sys = update_guard (cond_of sys t) (\<lambda>g. g\<lparr> gc_trigger := False \<rparr>) (put_future t f (dequeued (cond_of sys t) sys))"

lemma worked_simps:
  "te_list (sys_env (worked t f sys)) = te_list (sys_env sys)" "te_base (sys_env (worked t f sys)) = te_base (sys_env sys)"
  "te_tasks (sys_env (worked t f sys)) = te_tasks (sys_env sys)" "task_of u (worked t f sys) = task_of u sys"
  "ws_queue (sys_sets (worked t f sys) executor_set) = tl (ws_queue (sys_sets sys executor_set))"
  "ws_valid (sys_sets (worked t f sys) executor_set) = ws_valid (sys_sets sys executor_set)"
  "gc_wait_sets (sys_guards (worked t f sys) c) = gc_wait_sets (sys_guards sys c)"
  "gc_handler (sys_guards (worked t f sys) c) = gc_handler (sys_guards sys c)"
  "gc_trigger (sys_guards (worked t f sys) c) \<longleftrightarrow> c \<noteq> cond_of sys t \<and> gc_trigger (sys_guards sys c)"
  by (simp_all add: worked_def dequeued_def put_future_def update_set_def update_guard_def task_of_def)

lemma future_of_worked:
  "pool_ok sys \<Longrightarrow> t \<in> set (te_list (sys_env sys)) \<Longrightarrow> u \<in> set (te_list (sys_env sys)) \<Longrightarrow>
    future_of u (worked t f sys) = (if u = t then f else future_of u sys)"
  using own_condition(2)[of sys t u]
  by (simp add: worked_def dequeued_def put_future_def update_set_def update_guard_def task_of_def future_of_def)

lemma pool_ok_worked:
  assumes "pool_ok sys" "ws_queue (sys_sets sys executor_set) = cond_of sys t # q"
  shows "pool_ok (worked t f sys)"
proof -
  have ok: "ws_ok (sys_sets sys executor_set)" "sys_ok sys" using assms(1) by (auto simp: pool_ok_def sys_ok_def)
  have "sys_ok (dequeued (cond_of sys t) sys)"
    using dequeue_triggered_ok(2)[OF ok(1) assms(2)] sys_ok_dequeue[OF ok(2)] assms(2) by (simp add: dequeued_def)
  then have "sys_ok (worked t f sys)" by (simp add: worked_def sys_ok_def update_guard_def put_future_def)
  then show ?thesis
    using assms(1) by (intro pool_ok_same[OF assms(1)]) (simp_all add: pool_ok_def worked_simps)
qed

text \<open>One round of a worker runs the first task of the queue.\<close>

lemma worker_round_runs:
  assumes "pool_ok sys" "t \<in> set (te_list (sys_env sys))" "ws_queue (sys_sets sys executor_set) = cond_of sys t # q"
    and "gc_trigger (sys_guards sys (cond_of sys t))" "\<not> is_started (status_of t sys)"
    and "fu_run dflt (bh_now (behave t)) (bh_meanwhile (behave t)) (bh_outcome (behave t)) (future_of t sys) = Inr (thrown, f)"
    and "executor_set \<notin> set (gc_wait_sets (sys_guards sys guard))" "counts_ok b 0 (xs_count status)" "b + 1 < 2147483648"
  shows "\<exists>status' sys'. worker_round (pool_call dflt behave start clock) guard r (status, sys) = Inr (status', sys')
    \<and> counts_ok (b + 1) 0 (xs_count status') \<and> ec_successes (xs_count status') = ec_successes (xs_count status) + 1
    \<and> pool_ok sys' \<and> sys_env sys' = sys_env (worked t f sys)
    \<and> ws_queue (sys_sets sys' executor_set) = q
    \<and> sys_guards sys' = (sys_guards (worked t f sys))(guard := (sys_guards (worked t f sys) guard)\<lparr> gc_trigger := True \<rparr>)"
proof -
  obtain now now' where r: "r = (now, now')" by fastforce
  have ok: "ws_ok (sys_sets sys executor_set)" using assms(1) by (auto simp: pool_ok_def sys_ok_def)
  have handler: "gc_handler (sys_guards sys (cond_of sys t)) = Some t" using assms(1,2) by (simp add: pool_ok_def)
  let ?sys1 = "dequeued (cond_of sys t) sys"
  have same: "future_of t ?sys1 = future_of t sys" "status_of t ?sys1 = status_of t sys" "sys_guards ?sys1 = sys_guards sys"
    by (simp_all add: dequeued_def future_of_def update_set_def task_of_def status_of_def)
  obtain own where own: "xs_success (xs_start start (xs_new clock)) = Inr own"
    by (simp add: xs_success_def ec_success_def xs_start_def xs_new_def ec_start_def ec_new_def in_int32_def)
  have call: "pool_call dflt behave start clock t ?sys1 = Inr (put_future t f ?sys1)"
    using assms(5,6) own by (simp add: pool_call_def same runnable_execution_def Let_def)
  obtain status' where st: "xs_success (xs_start now status) = Inr status'" "counts_ok (b + 1) 0 (xs_count status')"
    "ec_successes (xs_count status') = ec_successes (xs_count status) + 1"
    using assms(8,9) by (auto simp: xs_success_def ec_success_def xs_start_def ec_start_def counts_ok_def in_int32_def)
  have perform: "worker_perform (pool_call dflt behave start clock) now now' (status, sys) = Inr (True, status', worked t f sys)"
    using dequeue_triggered_ok(2)[OF ok assms(3)] call assms(3,4) handler st(1) same
    by (simp add: worker_perform_def dequeued_def dispatch_triggered_condition_def dispatch_def worked_def Let_def)
  have pool: "pool_ok (worked t f sys)" by (rule pool_ok_worked[OF assms(1,3)])
  then obtain sys' where sys': "set_trigger_value guard True (worked t f sys) = Inr sys'" "sys_ok sys'"
    "sys_env sys' = sys_env (worked t f sys)"
    "sys_guards sys' = (sys_guards (worked t f sys))(guard := (sys_guards (worked t f sys) guard)\<lparr> gc_trigger := True \<rparr>)"
    "sys_sets sys' executor_set = sys_sets (worked t f sys) executor_set"
    using other_trigger[of "worked t f sys" guard] assms(7) by (auto simp: pool_ok_def worked_simps)
  have "pool_ok sys'"
    using sys' pool by (intro pool_ok_same[OF pool]) (simp_all add: pool_ok_def)
  then show ?thesis
    using perform sys' st(2,3) assms(3) by (auto simp: worker_round_def r worked_simps)
qed

text \<open>A task that a worker can run to an end.\<close>

definition runnable_task :: "(nat \<Rightarrow> 'r behaviour) \<Rightarrow> nat \<Rightarrow> 'r pool_system \<Rightarrow> bool" where
  "runnable_task behave t sys \<longleftrightarrow> \<not> is_started (status_of t sys)
     \<and> (\<exists>bound open. counts_ok bound open (xs_count (status_of t sys)) \<and> bound + 1 < 2147483648)
     \<and> runs_before (bh_now (behave t)) (status_of t sys)
     \<and> (\<forall>g. same_record (fu_status (bh_meanwhile (behave t) g)) (fu_status g))"

definition run_of :: "'r \<Rightarrow> 'r behaviour \<Rightarrow> 'r future \<Rightarrow> (bool \<times> 'r future) res" where
  "run_of dflt b f = fu_run dflt (bh_now b) (bh_meanwhile b) (bh_outcome b) f"

lemma runnable_task_runs:
  assumes "runnable_task behave t sys"
  shows "\<exists>thrown f. run_of dflt (behave t) (future_of t sys) = Inr (thrown, f)"
proof -
  obtain bound "open" where r: "counts_ok bound open (xs_count (fu_status (future_of t sys)))" "bound + 1 < 2147483648"
    "runs_before (bh_now (behave t)) (fu_status (future_of t sys))"
    "\<And>g. same_record (fu_status (bh_meanwhile (behave t) g)) (fu_status g)"
    using assms by (auto simp: runnable_task_def status_of_def)
  show ?thesis
  proof (cases "bh_outcome (behave t)")
    case (Returns x)
    then show ?thesis using run_returns[OF r, of dflt x] by (auto simp: run_of_def)
  next
    case (ThrowsGeneral e)
    then show ?thesis using run_throws[OF r, of "ThrowsGeneral e" e dflt] by (auto simp: run_of_def)
  next
    case ThrowsOther
    then show ?thesis using run_throws[OF r, of ThrowsOther "[]" dflt] by (auto simp: run_of_def)
  qed
qed

lemma worker_run_queue:
  assumes "pool_ok sys" "distinct ts" "set ts \<subseteq> set (te_list (sys_env sys))"
    and "ws_queue (sys_sets sys executor_set) = map (cond_of sys) ts"
    and "\<forall>t \<in> set ts. gc_trigger (sys_guards sys (cond_of sys t)) \<and> runnable_task behave t sys"
    and "executor_set \<notin> set (gc_wait_sets (sys_guards sys guard))" "counts_ok b 0 (xs_count status)"
    and "b + int (length ts) < 2147483648" "length rs = length ts"
  shows "\<exists>status' sys'. worker_run (pool_call dflt behave start clock) guard rs (status, sys) = Inr (status', sys')
    \<and> pool_ok sys' \<and> ws_queue (sys_sets sys' executor_set) = []
    \<and> ec_successes (xs_count status') = ec_successes (xs_count status) + int (length ts)
    \<and> (\<forall>t \<in> set ts. \<exists>thrown. run_of dflt (behave t) (future_of t sys) = Inr (thrown, future_of t sys'))
    \<and> (\<forall>t \<in> set (te_list (sys_env sys)) - set ts. future_of t sys' = future_of t sys)"
  using assms
proof (induction ts arbitrary: sys status b rs)
  case Nil
  then show ?case by (simp add: worker_run_def)
next
  case (Cons t ts)
  obtain r rs' where rs: "rs = r # rs'" "length rs' = length ts" using Cons.prems(9) by (cases rs) auto
  have t: "t \<in> set (te_list (sys_env sys))" and run: "runnable_task behave t sys" using Cons.prems(3,5) by auto
  obtain thrown f where f: "run_of dflt (behave t) (future_of t sys) = Inr (thrown, f)" using runnable_task_runs[OF run] by blast
  have q: "ws_queue (sys_sets sys executor_set) = cond_of sys t # map (cond_of sys) ts" using Cons.prems(4) by simp
  obtain status1 sys1 where one: "worker_round (pool_call dflt behave start clock) guard r (status, sys) = Inr (status1, sys1)"
    "counts_ok (b + 1) 0 (xs_count status1)" "ec_successes (xs_count status1) = ec_successes (xs_count status) + 1"
    "pool_ok sys1" "sys_env sys1 = sys_env (worked t f sys)" "ws_queue (sys_sets sys1 executor_set) = map (cond_of sys) ts"
    "sys_guards sys1 = (sys_guards (worked t f sys))(guard := (sys_guards (worked t f sys) guard)\<lparr> gc_trigger := True \<rparr>)"
    using worker_round_runs[OF Cons.prems(1) t q, of dflt behave thrown f guard b status start clock r] Cons.prems(5,6,7,8) run f
    by (auto simp: runnable_task_def run_of_def)
  have same: "task_of u sys1 = task_of u sys" "te_list (sys_env sys1) = te_list (sys_env sys)" for u
    using one(5) by (simp_all add: task_of_def worked_simps)
  have fut: "future_of u sys1 = (if u = t then f else future_of u sys)" if "u \<in> set (te_list (sys_env sys))" for u
    using future_of_worked[OF Cons.prems(1) t that, of f] one(5) by (simp add: future_of_def task_of_def)
  have ts: "distinct ts" "set ts \<subseteq> set (te_list (sys_env sys1))" "t \<notin> set ts" using Cons.prems(2,3) same by auto
  have "\<forall>u \<in> set ts. gc_trigger (sys_guards sys1 (cond_of sys1 u)) \<and> runnable_task behave u sys1"
  proof
    fix u assume u: "u \<in> set ts"
    then have u': "u \<in> set (te_list (sys_env sys))" "u \<noteq> t" using Cons.prems(2,3) by auto
    have "gc_trigger (sys_guards sys (cond_of sys u))" "runnable_task behave u sys" using Cons.prems(5) u by auto
    moreover have "cond_of sys u \<noteq> cond_of sys t" using own_condition(1)[OF Cons.prems(1) t u'(1)] u'(2) by simp
    ultimately show "gc_trigger (sys_guards sys1 (cond_of sys1 u)) \<and> runnable_task behave u sys1"
      using fut[OF u'(1)] u'(2) by (simp add: one(7) worked_simps same runnable_task_def status_of_def)
  qed
  moreover have "executor_set \<notin> set (gc_wait_sets (sys_guards sys1 guard))" using Cons.prems(6) by (simp add: one(7) worked_simps)
  ultimately obtain status2 sys2 where
    two: "worker_run (pool_call dflt behave start clock) guard rs' (status1, sys1) = Inr (status2, sys2)"
    "pool_ok sys2" "ws_queue (sys_sets sys2 executor_set) = []"
    "ec_successes (xs_count status2) = ec_successes (xs_count status1) + int (length ts)"
    "\<forall>u \<in> set ts. \<exists>thrown. run_of dflt (behave u) (future_of u sys1) = Inr (thrown, future_of u sys2)"
    "\<forall>u \<in> set (te_list (sys_env sys1)) - set ts. future_of u sys2 = future_of u sys1"
    using Cons.IH[OF one(4) ts(1,2) _ _ _ one(2), of rs'] one(6) rs(2) Cons.prems(8) same by auto
  have "worker_run (pool_call dflt behave start clock) guard rs (status, sys) = Inr (status2, sys2)"
    using one(1) two(1) by (simp add: worker_run_def rs(1))
  moreover have "\<forall>u \<in> set (t # ts). \<exists>thrown. run_of dflt (behave u) (future_of u sys) = Inr (thrown, future_of u sys2)"
  proof
    fix u assume "u \<in> set (t # ts)"
    then consider "u = t" | "u \<in> set ts" "u \<noteq> t" using ts(3) by auto
    then show "\<exists>thrown. run_of dflt (behave u) (future_of u sys) = Inr (thrown, future_of u sys2)"
    proof cases
      case 1
      then show ?thesis using two(6) ts(3) t fut[OF t] f same by auto
    next
      case 2
      then have "u \<in> set (te_list (sys_env sys))" using Cons.prems(3) by auto
      then show ?thesis using two(5) fut[of u] 2 by auto
    qed
  qed
  moreover have "\<forall>u \<in> set (te_list (sys_env sys)) - set (t # ts). future_of u sys2 = future_of u sys"
    using two(6) fut same by auto
  ultimately show ?case using two(2,3,4) one(3) by auto
qed



section \<open>No task runs too often\<close>

text \<open>
  The steps of a pool: rounds of the scheduler, of the workers and of the management of tasks, and what the owners of
  the tasks \<open>T\<close> do meanwhile. Only \<open>Trigger\<close>, which goes past the policy of a task, is left out.
\<close>

definition same_counts :: "exec_status \<Rightarrow> exec_status \<Rightarrow> bool" where
  "same_counts s t \<longleftrightarrow> ec_successes (xs_count s) = ec_successes (xs_count t) \<and> ec_total (xs_count s) = ec_total (xs_count t)
     \<and> ec_false_starts (xs_count s) = ec_false_starts (xs_count t)"

inductive pool_step :: "nat set \<Rightarrow> 'r pool_system \<Rightarrow> 'r pool_system \<Rightarrow> bool" for T where
  ps_trigger: "trigger_ready clock sys = Inr (n, sys') \<Longrightarrow> pool_step T sys sys'"
| ps_work: "worker_perform (pool_call dflt behave start clock) now now' (status, sys) = Inr (b, status', sys') \<Longrightarrow>
    (\<And>t g. same_counts (fu_status (bh_meanwhile (behave t) g)) (fu_status g)) \<Longrightarrow> pool_step T sys sys'"
| ps_wake: "executor_set \<notin> set (gc_wait_sets (sys_guards sys guard)) \<Longrightarrow> set_trigger_value guard True sys = Inr sys' \<Longrightarrow>
    pool_step T sys sys'"
| ps_manage: "manage_tasks clock sys = Inr sys' \<Longrightarrow> pool_step T sys sys'"
| ps_suspend: "t \<in> T \<Longrightarrow> pool_step T sys (task_suspend now t sys)"
| ps_resume: "t \<in> T \<Longrightarrow> task_resume t sys = Inr sys' \<Longrightarrow> pool_step T sys sys'"
| ps_cancel: "t \<in> T \<Longrightarrow> pool_step T sys (snd (task_cancel t sys))"
| ps_interrupt: "t \<in> T \<Longrightarrow> pool_step T sys (snd (task_interrupt now t sys))"

definition success_limit :: "attempt \<Rightarrow> int" where
  "success_limit a = (if at_kind a = UntilSuccess then 1 else at_successes a)"

text \<open>The counts of a task within the limits of its policy, and with room for one more run.\<close>

definition within_attempts :: "attempt \<Rightarrow> exec_count \<Rightarrow> bool" where
  "within_attempts a c \<longleftrightarrow> ec_false_starts c = 0 \<and> 0 \<le> ec_successes c \<and> ec_successes c \<le> ec_total c
     \<and> ec_total c \<le> at_max a \<and> ec_successes c \<le> success_limit a \<and> at_max a < 2147483648"

definition may_run :: "attempt \<Rightarrow> exec_count \<Rightarrow> bool" where
  "may_run a c \<longleftrightarrow> ec_total c < at_max a \<and> ec_successes c < success_limit a"

abbreviation attempt_of :: "'r pool_system \<Rightarrow> nat \<Rightarrow> attempt" where
  "attempt_of sys t \<equiv> tp_attempt (st_policy (task_of t sys))"

definition attempts_inv :: "nat set \<Rightarrow> 'r pool_system \<Rightarrow> bool" where
  "attempts_inv T sys \<longleftrightarrow> sys_ok sys \<and> set (te_base (sys_env sys)) \<subseteq> T \<and> set (te_list (sys_env sys)) \<subseteq> T
     \<and> inj_on (cond_of sys) T \<and> inj_on (\<lambda>t. st_task (task_of t sys)) T
     \<and> (\<forall>t \<in> T. st_schedule (task_of t sys) = default_schedule
          \<and> executor_set \<notin> set (gc_wait_sets (sys_guards sys (st_scheduler_cond (task_of t sys)))))
     \<and> (\<forall>c \<in> set (ws_conditions (sys_sets sys executor_set)). \<forall>t. gc_handler (sys_guards sys c) = Some t \<longrightarrow>
          t \<in> T \<and> cond_of sys t = c)
     \<and> (\<forall>t \<in> T. at_kind (attempt_of sys t) \<noteq> Forever \<longrightarrow> within_attempts (attempt_of sys t) (xs_count (status_of t sys))
          \<and> (cond_of sys t \<in> set (ws_queue (sys_sets sys executor_set)) \<longrightarrow>
               may_run (attempt_of sys t) (xs_count (status_of t sys))))"

lemma in_attempt_may_run:
  assumes "is_in_attempt s a = Inr True" "within_attempts a (xs_count s)" "at_kind a \<noteq> Forever"
  shows "may_run a (xs_count s)"
proof -
  have "in_int32 (ec_total (xs_count s))" using assms(2) by (auto simp: within_attempts_def in_int32_def)
  then have "total_num_attempts (xs_count s) = Inr (ec_total (xs_count s))"
    using assms(2) by (simp add: total_num_attempts_def within_attempts_def)
  then show ?thesis
    using assms by (cases "at_kind a")
      (auto simp: is_in_attempt_def may_run_def success_limit_def num_successes_def within_attempts_def split: if_splits)
qed

lemma ready_in_attempt:
  assumes "is_ready_to_execute clock s a iv retry = Inr True"
  shows "is_in_attempt s a = Inr True"
  using assms by (auto simp: is_ready_to_execute_def res_simps)

lemma due_in_attempt:
  assumes "earliest_ready_in clock s a iv retry timeout = Inr d" "d \<le> 0" "\<not> is_executing s"
  shows "is_in_attempt s a = Inr True"
proof -
  have timeout: "(if \<not> is_interrupted s then time_until_timeout (clock 4) s timeout else dur_infinite) = dur_infinite"
    using assms(3) by (simp add: time_until_timeout_def)
  have inf: "\<not> dur_infinite \<le> dur_zero" by (simp add: dur_infinite_def int64_max_def dur_zero_def)
  have "is_ready_to_execute (later 6 clock) s a iv retry = Inr True"
    using assms inf unfolding earliest_ready_in_def timeout Let_def
    by (auto simp: res_simps dur_zero_def split: if_splits)
  then show ?thesis by (rule ready_in_attempt)
qed

lemma task_ready_in_attempt:
  assumes "task_is_ready clock t sys = Inr True" "\<not> is_executing (status_of t sys)" "st_schedule (task_of t sys) = default_schedule"
  shows "is_in_attempt (status_of t sys) (attempt_of sys t) = Inr True"
  using assms ready_in_attempt due_in_attempt
  by (fastforce simp: task_is_ready_def ready_in_def default_schedule_def Let_def res_simps split: if_splits)

text \<open>A step that runs nothing keeps the invariant when it queues only what may run.\<close>

lemma attempts_inv_quiet:
  assumes "attempts_inv T sys" "sys_ok sys'" "te_tasks (sys_env sys') = te_tasks (sys_env sys)"
    "set (te_base (sys_env sys')) \<subseteq> set (te_base (sys_env sys))" "set (te_list (sys_env sys')) \<subseteq> set (te_list (sys_env sys))"
    "\<And>c. gc_wait_sets (sys_guards sys' c) = gc_wait_sets (sys_guards sys c)"
    "\<And>c. gc_handler (sys_guards sys' c) = gc_handler (sys_guards sys c)"
    "set (ws_conditions (sys_sets sys' executor_set)) = set (ws_conditions (sys_sets sys executor_set))"
    "\<And>t. t \<in> T \<Longrightarrow> same_counts (status_of t sys') (status_of t sys)"
    "\<And>t. t \<in> T \<Longrightarrow> at_kind (attempt_of sys t) \<noteq> Forever \<Longrightarrow> cond_of sys t \<in> set (ws_queue (sys_sets sys' executor_set)) \<Longrightarrow>
       cond_of sys t \<in> set (ws_queue (sys_sets sys executor_set)) \<or> may_run (attempt_of sys t) (xs_count (status_of t sys))"
  shows "attempts_inv T sys'"
proof -
  have task: "task_of t sys' = task_of t sys" for t using assms(3) by (simp add: task_of_def)
  have within: "within_attempts a (xs_count (status_of t sys')) = within_attempts a (xs_count (status_of t sys))"
    "may_run a (xs_count (status_of t sys')) = may_run a (xs_count (status_of t sys))" if "t \<in> T" for a t
    using assms(9)[OF that] by (auto simp: same_counts_def within_attempts_def may_run_def)
  have "inj_on (cond_of sys') T \<and> inj_on (\<lambda>t. st_task (task_of t sys')) T"
    using assms(1) by (simp add: attempts_inv_def task)
  moreover have "\<forall>t \<in> T. at_kind (attempt_of sys' t) \<noteq> Forever \<longrightarrow> within_attempts (attempt_of sys' t) (xs_count (status_of t sys'))
          \<and> (cond_of sys' t \<in> set (ws_queue (sys_sets sys' executor_set)) \<longrightarrow>
               may_run (attempt_of sys' t) (xs_count (status_of t sys')))"
    using assms(1,10) within by (fastforce simp: attempts_inv_def task)
  ultimately show ?thesis
    using assms(1,2,4-8) unfolding attempts_inv_def task by (auto 0 3)
qed

lemma set_trigger_value_queue:
  assumes "set_trigger_value c v sys = Inr sys'" "sys_ok sys"
  shows "set (ws_queue (sys_sets sys' w)) \<subseteq> insert c (set (ws_queue (sys_sets sys w)))
    \<and> ws_conditions (sys_sets sys' w) = ws_conditions (sys_sets sys w)"
proof -
  let ?P = "\<lambda>sys1. set (ws_queue (sys_sets sys1 w)) \<subseteq> insert c (set (ws_queue (sys_sets sys w)))
    \<and> ws_conditions (sys_sets sys1 w) = ws_conditions (sys_sets sys w)"
  have base: "?P (update_guard c (\<lambda>g. g\<lparr> gc_trigger := v \<rparr>) sys)" by (auto simp: update_guard_def)
  have step: "?P sys2" if "?P sys1" "signal c u sys1 = Inr sys2" for u sys1 sys2
    using that by (auto simp: signal_def enqueue_triggered_def Let_def res_simps update_set_def split: if_splits)
  show ?thesis
  proof (cases v)
    case True
    then obtain ws where "rfold (signal c) ws (update_guard c (\<lambda>g. g\<lparr> gc_trigger := v \<rparr>) sys) = Inr sys'"
      using assms(1) by (auto simp: set_trigger_value_def signal_all_def Let_def)
    then show ?thesis by (rule rfold_invariant[where P = ?P, OF _ base]) (use step in blast)
  next
    case False
    then show ?thesis using assms(1) base by (auto simp: set_trigger_value_def Let_def)
  qed
qed

lemma same_counts_refl [simp]: "same_counts s s"
  by (simp add: same_counts_def)

text \<open>Triggering a task that is ready.\<close>

lemma attempts_inv_trigger_task:
  assumes "attempts_inv T sys" "t \<in> T" "trigger_task clock t sys = Inr (b, sys')"
  shows "attempts_inv T sys'" "te_tasks (sys_env sys') = te_tasks (sys_env sys)"
proof -
  have "attempts_inv T sys' \<and> te_tasks (sys_env sys') = te_tasks (sys_env sys)"
  proof (cases "sys' = sys")
    case False
    let ?s = "(status_of t sys)\<lparr> xs_state := Starting \<rparr>" let ?sys1 = "put_status t ?s sys"
    have run: "\<not> is_executing (status_of t sys)" "task_is_ready clock t sys = Inr True"
      "set_trigger_value (cond_of sys t) True ?sys1 = Inr sys'"
      using assms(3) False by (auto simp: trigger_task_def task_trigger_def set_iff_not_executing_def res_simps split: if_splits)
    have default: "st_schedule (task_of t sys) = default_schedule" and ok: "sys_ok ?sys1"
      and may: "at_kind (attempt_of sys t) \<noteq> Forever \<Longrightarrow> within_attempts (attempt_of sys t) (xs_count (status_of t sys))"
      and inj: "inj_on (cond_of sys) T"
      using assms(1,2) by (auto simp: attempts_inv_def)
    have may_run: "may_run (attempt_of sys t) (xs_count (status_of t sys))" if "at_kind (attempt_of sys t) \<noteq> Forever"
      using in_attempt_may_run[OF task_ready_in_attempt[OF run(2,1) default] may[OF that] that] .
    have after: "sys_ok sys'" "sys_env sys' = sys_env ?sys1"
      "sys_guards sys' = (sys_guards sys)(cond_of sys t := (sys_guards sys (cond_of sys t))\<lparr> gc_trigger := True \<rparr>)"
      using set_trigger_value_ok[OF ok, of "cond_of sys t" True] run(3) by auto
    have env: "te_tasks (sys_env ?sys1) = te_tasks (sys_env sys)" by (simp add: put_status_def put_future_def)
    have status: "status_of u sys' = status_of u ?sys1" for u
      using after(2) by (simp add: status_of_def future_of_def task_of_def)
    have shared: "status_of u sys = status_of t sys" if "st_task (task_of u sys) = st_task (task_of t sys)" for u
      using that by (simp add: status_of_def future_of_def)
    have counts: "same_counts (status_of u sys') (status_of u sys)" for u
      using shared[of u] by (simp add: status status_of_put_status same_counts_def)
    note queue = set_trigger_value_queue[OF run(3) ok, of executor_set]
    have "attempts_inv T sys'"
    proof (rule attempts_inv_quiet[OF assms(1) after(1)])
      fix u assume u: "u \<in> T" "at_kind (attempt_of sys u) \<noteq> Forever"
        "cond_of sys u \<in> set (ws_queue (sys_sets sys' executor_set))"
      show "cond_of sys u \<in> set (ws_queue (sys_sets sys executor_set)) \<or> may_run (attempt_of sys u) (xs_count (status_of u sys))"
      proof (cases "cond_of sys u = cond_of sys t")
        case True
        then have "u = t" using inj u(1) assms(2) by (auto simp: inj_on_def)
        then show ?thesis using may_run u(2) by blast
      next
        case False
        then show ?thesis using queue u(3) by auto
      qed
    qed (use after(2,3) env queue counts in auto)
    then show ?thesis using after(2) env by simp
  qed (use assms(1) in simp)
  then show "attempts_inv T sys'" "te_tasks (sys_env sys') = te_tasks (sys_env sys)" by auto
qed

lemma attempts_inv_trigger_tasks:
  assumes "attempts_inv T sys" "set ts \<subseteq> T" "trigger_tasks clock ts sys = Inr (n, sys')"
  shows "attempts_inv T sys'"
  using assms
proof (induction ts arbitrary: sys n)
  case (Cons t ts)
  obtain b sys1 m where "trigger_task (clock t) t sys = Inr (b, sys1)" "trigger_tasks clock ts sys1 = Inr (m, sys')"
    using Cons.prems(3) by (auto simp: res_simps)
  then show ?case
    using attempts_inv_trigger_task(1)[OF Cons.prems(1), of t "clock t" b sys1] Cons.prems(2) Cons.IH[of sys1 m] by simp
qed simp

lemma default_find_ready_subset:
  "default_find_ready clock sys ts (m, acc) = Inr (m', due) \<Longrightarrow> set due \<subseteq> set acc \<union> set ts"
proof (induction ts arbitrary: m acc)
  case (Cons t ts)
  then show ?case by (fastforce simp: res_simps split: if_splits)
qed simp

lemma attempts_inv_trigger_ready:
  assumes "attempts_inv T sys" "trigger_ready clock sys = Inr (n, sys')"
  shows "attempts_inv T sys'"
proof -
  obtain m due where due: "default_find_ready clock sys (te_base (sys_env sys)) (dur_infinite, []) = Inr (m, due)"
    "trigger_tasks (\<lambda>t. later 24 (clock t)) due sys = Inr (n, sys')"
    using assms(2) by (auto simp: trigger_ready_def find_ready_def res_simps)
  have "set due \<subseteq> T" using default_find_ready_subset[OF due(1)] assms(1) by (auto simp: attempts_inv_def)
  then show ?thesis using attempts_inv_trigger_tasks[OF assms(1) _ due(2)] by blast
qed

text \<open>A change of statuses that keeps the counts.\<close>

lemma attempts_inv_put_future:
  assumes "attempts_inv T sys" "same_counts (fu_status f) (status_of t sys)"
  shows "attempts_inv T (put_future t f sys)"
proof (rule attempts_inv_quiet[OF assms(1)])
  show "sys_ok (put_future t f sys)" using assms(1) by (simp add: attempts_inv_def sys_ok_def put_future_def)
  show "same_counts (status_of u (put_future t f sys)) (status_of u sys)" for u
    using assms(2) by (simp add: put_future_def status_of_def future_of_def task_of_def)
qed (simp_all add: put_future_def)

lemma attempts_inv_interrupts:
  "attempts_inv T sys \<Longrightarrow> attempts_inv T (snd (interrupt_timeouts clock ts sys))"
proof (induction ts arbitrary: sys)
  case (Cons t ts)
  have "attempts_inv T (snd (task_interrupt now t sys))" for now
  proof -
    have "same_counts (fu_status (snd (fu_interrupt now (future_of t sys)))) (status_of t sys)"
      by (simp add: fu_interrupt_def same_counts_def status_of_def xs_interrupt_def ec_interrupt_def)
    then show ?thesis using attempts_inv_put_future[OF Cons.prems] by (simp add: task_interrupt_def case_prod_beta Let_def)
  qed
  then show ?case using Cons by (simp add: case_prod_beta Let_def)
qed simp

lemma attempts_inv_remove_done:
  assumes "attempts_inv T sys" "remove_done sys = Inr (ended, sys')"
  shows "attempts_inv T sys'"
proof -
  have "rfold tasks_state_remove ended sys = Inr sys'" using assms(2) by (auto simp: remove_done_def res_simps)
  then show ?thesis
  proof (rule rfold_invariant[where P = "attempts_inv T", OF _ assms(1)])
    fix t sys1 sys2 assume inv: "attempts_inv T sys1" "tasks_state_remove t sys1 = Inr sys2"
    then show "attempts_inv T sys2"
      by (intro attempts_inv_quiet[OF inv(1)])
        (auto simp: tasks_state_remove_def Let_def res_simps attempts_inv_def sys_ok_def same_counts_def status_of_def
          future_of_def task_of_def)
  qed
qed

text \<open>Running a task counts one attempt, and at most one success.\<close>

lemma fu_run_counts:
  assumes "fu_run dflt now meanwhile out f = Inr (thrown, f')" "within_attempts a (xs_count (fu_status f))"
    and "may_run a (xs_count (fu_status f))" "\<And>g. same_counts (fu_status (meanwhile g)) (fu_status g)"
  shows "within_attempts a (xs_count (fu_status f'))"
proof -
  define f1 where "f1 = fu_exit (meanwhile (fu_entry now f))"
  have "in_int32 (ec_total (xs_count (fu_status f)) + 1)" "in_int32 (ec_successes (xs_count (fu_status f)) + 1)"
    using assms(2,3) by (auto simp: within_attempts_def may_run_def in_int32_def)
  then have wrap: "wrap32 (ec_total (xs_count (fu_status f)) + 1) = ec_total (xs_count (fu_status f)) + 1"
    "wrap32 (ec_successes (xs_count (fu_status f)) + 1) = ec_successes (xs_count (fu_status f)) + 1" by simp_all
  have f1: "ec_total (xs_count (fu_status f1)) = ec_total (xs_count (fu_status f)) + 1"
    "ec_successes (xs_count (fu_status f1)) = ec_successes (xs_count (fu_status f))"
    "ec_false_starts (xs_count (fu_status f1)) = ec_false_starts (xs_count (fu_status f))"
    using assms(4)[of "fu_entry now f"] wrap(1)
    by (simp_all add: f1_def fu_exit_def same_counts_def fu_entry_def xs_start_def ec_start_def)
  have failed: "within_attempts a (xs_count (xs_failure (fu_status f1)))"
    using f1 assms(2,3) by (simp add: within_attempts_def may_run_def xs_failure_def ec_failure_def)
  have success: "within_attempts a (xs_count s)" if "xs_success (fu_status f1) = Inr s" for s
    using that f1 wrap(2) assms(2,3)
    by (auto simp: xs_success_def ec_success_def within_attempts_def may_run_def Let_def res_simps)
  show ?thesis
    using assms(1) failed success
    by (cases out) (auto simp: fu_run_def future_execution_def f1_def[symmetric] fu_complete_def fu_next_def fu_error_def
        Let_def res_simps)
qed

lemma attempts_inv_work:
  assumes "attempts_inv T sys" "worker_perform (pool_call dflt behave start clock) now now' (status, sys) = Inr (b, status', sys')"
    and "\<And>t g. same_counts (fu_status (bh_meanwhile (behave t) g)) (fu_status g)"
  shows "attempts_inv T sys'"
proof -
  have ok: "sys_ok sys" "ws_ok (sys_sets sys executor_set)" using assms(1) by (auto simp: attempts_inv_def sys_ok_def)
  show ?thesis
  proof (cases "ws_queue (sys_sets sys executor_set)")
    case Nil
    then have "sys' = update_set executor_set (sys_sets sys executor_set) sys"
      using assms(2) dequeue_triggered_ok(1)[OF ok(2) Nil] by (simp add: worker_perform_def Let_def)
    then show ?thesis using assms(1) by (simp add: update_set_def)
  next
    case (Cons c q)
    let ?sys1 = "dequeued c sys"
    have deq: "dequeue_triggered (sys_sets sys executor_set) = Inr (Some c, sys_sets ?sys1 executor_set)"
      "update_set executor_set (sys_sets ?sys1 executor_set) sys = ?sys1"
      using dequeue_triggered_ok(2)[OF ok(2) Cons] Cons by (simp_all add: dequeued_def update_set_def)
    have q: "ws_queue (sys_sets ?sys1 executor_set) = q" "c \<notin> set q" "c \<in> set (ws_conditions (sys_sets sys executor_set))"
      using Cons ok(2) by (auto simp: dequeued_def update_set_def ws_ok_def)
    have inv1: "attempts_inv T ?sys1"
    proof (rule attempts_inv_quiet[OF assms(1)])
      show "sys_ok ?sys1" using sys_ok_dequeue[OF ok(1) deq(1)] deq(2) by simp
      show "cond_of sys t \<in> set (ws_queue (sys_sets ?sys1 executor_set)) \<Longrightarrow>
          cond_of sys t \<in> set (ws_queue (sys_sets sys executor_set)) \<or> may_run (attempt_of sys t) (xs_count (status_of t sys))" for t
        using q(1) Cons by simp
    qed (simp_all add: dequeued_def update_set_def status_of_def future_of_def task_of_def)
    have untrigger: "attempts_inv T (update_guard c (\<lambda>g. g\<lparr> gc_trigger := False \<rparr>) sys2)" if "attempts_inv T sys2" for sys2
      using that
    proof (rule attempts_inv_quiet)
      show "sys_ok (update_guard c (\<lambda>g. g\<lparr> gc_trigger := False \<rparr>) sys2)"
        using that by (auto simp: attempts_inv_def sys_ok_def update_guard_def)
    qed (simp_all add: update_guard_def status_of_def future_of_def task_of_def)
    obtain d where d: "dispatch_triggered_condition (pool_call dflt behave start clock) (Some c) ?sys1 = Inr (d, sys')"
      using assms(2) deq by (auto simp: worker_perform_def Let_def res_simps split: if_splits)
    show ?thesis
    proof (cases "gc_trigger (sys_guards ?sys1 c) \<and> gc_handler (sys_guards ?sys1 c) \<noteq> None")
      case False
      then show ?thesis
        using d inv1 untrigger by (auto simp: dispatch_triggered_condition_def dispatch_def res_simps split: if_splits)
    next
      case True
      then obtain t where handler: "gc_handler (sys_guards ?sys1 c) = Some t" by blast
      then have t: "t \<in> T" "cond_of ?sys1 t = c"
        using inv1 q(3) by (auto simp: attempts_inv_def dequeued_def update_set_def)
      obtain sys2 where call: "pool_call dflt behave start clock t ?sys1 = Inr sys2"
        "sys' = update_guard c (\<lambda>g. g\<lparr> gc_trigger := False \<rparr>) sys2"
        using d True handler by (auto simp: dispatch_triggered_condition_def dispatch_def res_simps)
      obtain thrown f where f: "fu_run dflt (bh_now (behave t)) (bh_meanwhile (behave t)) (bh_outcome (behave t)) (future_of t ?sys1)
          = Inr (thrown, f)" "sys2 = put_future t f ?sys1"
        using call(1) by (auto simp: pool_call_def runnable_execution_def Let_def res_simps split: if_splits)
      let ?a = "attempt_of ?sys1 t"
      have before: "within_attempts ?a (xs_count (status_of t ?sys1)) \<and> may_run ?a (xs_count (status_of t ?sys1))"
        if "at_kind ?a \<noteq> Forever"
      proof -
        have "c \<in> set (ws_queue (sys_sets sys executor_set))" using Cons by simp
        moreover have "task_of t ?sys1 = task_of t sys" "status_of t ?sys1 = status_of t sys"
          by (simp_all add: dequeued_def)
        ultimately show ?thesis using assms(1) t that by (auto simp: attempts_inv_def)
      qed
      have after: "within_attempts ?a (xs_count (fu_status f))" if "at_kind ?a \<noteq> Forever"
        using fu_run_counts[OF f(1)] before[OF that] assms(3) by (simp add: status_of_def)
      have inj: "inj_on (\<lambda>t. st_task (task_of t ?sys1)) T" using inv1 by (simp add: attempts_inv_def)
      have status: "status_of u sys2 = (if u = t then fu_status f else status_of u ?sys1)" if "u \<in> T" for u
        using inj that t(1) by (auto simp: f(2) put_future_def status_of_def future_of_def task_of_def inj_on_def)
      have rest: "sys_sets sys2 = sys_sets ?sys1" "sys_guards sys2 = sys_guards ?sys1" "task_of u sys2 = task_of u ?sys1"
        "te_list (sys_env sys2) = te_list (sys_env ?sys1)" "te_base (sys_env sys2) = te_base (sys_env ?sys1)" for u
        by (simp_all add: f(2) put_future_def task_of_def)
      have "sys_ok sys2" using inv1 rest by (simp add: attempts_inv_def sys_ok_def)
      moreover have "at_kind (attempt_of sys2 u) \<noteq> Forever \<longrightarrow> within_attempts (attempt_of sys2 u) (xs_count (status_of u sys2))
          \<and> (cond_of sys2 u \<in> set (ws_queue (sys_sets sys2 executor_set)) \<longrightarrow> may_run (attempt_of sys2 u) (xs_count (status_of u sys2)))"
        if u: "u \<in> T" for u
      proof (cases "u = t")
        case True
        then show ?thesis using after status[OF u] rest q(1,2) t(2) by auto
      next
        case False
        then show ?thesis using inv1 u status[OF u] rest by (simp add: attempts_inv_def)
      qed
      ultimately have "attempts_inv T sys2" using inv1 rest unfolding attempts_inv_def by simp
      then show ?thesis using untrigger call(2) by simp
    qed
  qed
qed

lemma attempts_inv_set_trigger:
  assumes "attempts_inv T sys" "executor_set \<notin> set (gc_wait_sets (sys_guards sys c))" "set_trigger_value c True sys = Inr sys'"
  shows "attempts_inv T sys'"
proof -
  have "sys_ok sys" using assms(1) by (simp add: attempts_inv_def)
  from other_trigger[OF this assms(2)] assms(3) have after: "sys_ok sys'" "sys_env sys' = sys_env sys"
    "sys_guards sys' = (sys_guards sys)(c := (sys_guards sys c)\<lparr> gc_trigger := True \<rparr>)"
    "sys_sets sys' executor_set = sys_sets sys executor_set" by auto
  have "status_of t sys' = status_of t sys" for t using after(2) by (simp add: status_of_def future_of_def task_of_def)
  then show ?thesis using after by (intro attempts_inv_quiet[OF assms(1) after(1)]) auto
qed

lemma attempts_inv_step: "pool_step T sys sys' \<Longrightarrow> attempts_inv T sys \<Longrightarrow> attempts_inv T sys'"
proof (induction rule: pool_step.induct)
  case (ps_trigger clock sys n sys')
  then show ?case using attempts_inv_trigger_ready by blast
next
  case (ps_work dflt behave start clock now now' status sys b status' sys')
  show ?case by (rule attempts_inv_work[OF ps_work(3,1,2)])
next
  case (ps_wake sys guard sys')
  then show ?case using attempts_inv_set_trigger by blast
next
  case (ps_manage clock sys sys')
  then show ?case
    using attempts_inv_remove_done attempts_inv_interrupts
    by (fastforce simp: manage_tasks_def interrupt_timeout_tasks_def res_simps)
next
  case (ps_suspend t now sys)
  then show ?case
    using attempts_inv_put_future[OF ps_suspend(2)]
    by (simp add: task_suspend_def put_status_def same_counts_def xs_suspend_def ec_suspend_def)
next
  case (ps_resume t sys sys')
  let ?sys1 = "put_status t (snd (set_iff_not_executing Resumed (status_of t sys))) sys"
  have inv1: "attempts_inv T ?sys1"
    unfolding put_status_def
    by (rule attempts_inv_put_future[OF ps_resume(3)]) (simp add: same_counts_def set_iff_not_executing_def)
  have "executor_set \<notin> set (gc_wait_sets (sys_guards ?sys1 (st_scheduler_cond (task_of t sys))))"
    using ps_resume(1,3) by (simp add: attempts_inv_def)
  then show ?case
    using ps_resume(2) inv1 attempts_inv_set_trigger[OF inv1]
    by (auto simp: task_resume_def Let_def case_prod_beta split: if_splits)
next
  case (ps_cancel t sys)
  have "same_counts (fu_status (snd (fu_cancel (future_of t sys)))) (status_of t sys)"
    by (simp add: fu_cancel_def same_counts_def status_of_def xs_cancel_def ec_failure_def)
  then show ?case using attempts_inv_put_future[OF ps_cancel(2)] by (simp add: task_cancel_def case_prod_beta Let_def)
next
  case (ps_interrupt t sys now)
  have "same_counts (fu_status (snd (fu_interrupt now (future_of t sys)))) (status_of t sys)"
    by (simp add: fu_interrupt_def same_counts_def status_of_def xs_interrupt_def ec_interrupt_def)
  then show ?case using attempts_inv_put_future[OF ps_interrupt(2)] by (simp add: task_interrupt_def case_prod_beta Let_def)
qed

lemma attempts_inv_run: "(pool_step T)\<^sup>*\<^sup>* sys sys' \<Longrightarrow> attempts_inv T sys \<Longrightarrow> attempts_inv T sys'"
  by (induction rule: rtranclp_induct) (auto intro: attempts_inv_step)

lemma lone_attempts_inv: "attempts_inv {5} (lone_pool run_once_immediately)"
proof -
  let ?sys = "lone_pool run_once_immediately"
  have "sys_ok ?sys" using lone_pool_ok[of run_once_immediately] by (simp add: pool_ok_def)
  moreover have "executor_set \<notin> set (gc_wait_sets (sys_guards ?sys (st_scheduler_cond (task_of 5 ?sys))))"
    by (simp add: lone_pool_def lone_env_def task_of_def gc_new_def)
  moreover have "\<forall>c \<in> set (ws_conditions (sys_sets ?sys executor_set)). \<forall>t. gc_handler (sys_guards ?sys c) = Some t \<longrightarrow> t = 5 \<and> c = 0"
    by (simp add: lone_pool_def executor_set_def ws_new_def)
  moreover have "within_attempts (tp_attempt run_once_immediately) (xs_count (xs_new (\<lambda>i. 0)))"
    by (simp add: within_attempts_def run_once_immediately_def until_success_def xs_new_def ec_new_def success_limit_def)
  ultimately show ?thesis by (auto simp: attempts_inv_def lone_pool_simps)
qed



end
