(* ===== verification/Heap_Interface.thy ===== *)
theory Heap_Interface
  imports Prelude
begin

text \<open>
  \<open>GraphLib/treealgs/heap.h\<close>: the abstract class \<open>Heap\<close> with its factory \<open>HeapDesc\<close>. The algorithms
  call a heap through this interface, so it is a record of the operations, and the locale
  \<open>heap_contract\<close> has what the comments of the class promise.
\<close>

record ('h, 'k) heap_class =
  hc_new_instance :: "nat \<Rightarrow> 'h res"
  hc_delete_min :: "'h \<Rightarrow> (nat \<times> 'h) res"
  hc_delete_minimum :: "'h \<Rightarrow> ((nat \<times> 'k) \<times> 'h) res"
  hc_insert :: "nat \<Rightarrow> 'k \<Rightarrow> 'h \<Rightarrow> 'h res"
  hc_decrease_key :: "nat \<Rightarrow> 'k \<Rightarrow> 'h \<Rightarrow> 'h res"
  hc_get_key :: "nat \<Rightarrow> 'h \<Rightarrow> 'k res"
  hc_n_items :: "'h \<Rightarrow> int"
  hc_n_comps :: "'h \<Rightarrow> int"

text \<open>The content of a heap is what \<open>getKey\<close> answers.\<close>

definition hc_content :: "('h, 'k) heap_class \<Rightarrow> 'h \<Rightarrow> nat \<rightharpoonup> 'k" where
  "hc_content H h = (\<lambda>i. case hc_get_key H i h of Inl _ \<Rightarrow> None | Inr k \<Rightarrow> Some k)"

locale heap_contract =
  fixes H :: "('h, 'k::linorder) heap_class"
    and ok :: "'h \<Rightarrow> bool"
    and capacity :: "'h \<Rightarrow> nat"
    and limit :: nat
  assumes new_instance:
      "0 < n \<Longrightarrow> n < limit \<Longrightarrow>
       \<exists>h. hc_new_instance H n = Inr h \<and> ok h \<and> capacity h = n \<and> hc_content H h = Map.empty"
    and insert:
      "ok h \<Longrightarrow> i < capacity h \<Longrightarrow> hc_content H h i = None \<Longrightarrow>
       \<exists>h'. hc_insert H i k h = Inr h' \<and> ok h' \<and> capacity h' = capacity h \<and>
            hc_content H h' = (hc_content H h)(i \<mapsto> k)"
    and decrease_key:
      "ok h \<Longrightarrow> hc_content H h i = Some k \<Longrightarrow> k' \<le> k \<Longrightarrow>
       \<exists>h'. hc_decrease_key H i k' h = Inr h' \<and> ok h' \<and> capacity h' = capacity h \<and>
            hc_content H h' = (hc_content H h)(i \<mapsto> k')"
    and delete_minimum:
      "ok h \<Longrightarrow> hc_content H h \<noteq> Map.empty \<Longrightarrow>
       \<exists>i k h'. hc_delete_minimum H h = Inr ((i, k), h') \<and> ok h' \<and> capacity h' = capacity h \<and>
            hc_content H h i = Some k \<and> (\<forall>j l. hc_content H h j = Some l \<longrightarrow> k \<le> l) \<and>
            hc_content H h' = (hc_content H h)(i := None)"
    and delete_min:
      "hc_delete_min H h = rbind (hc_delete_minimum H h) (\<lambda>((i, k), h'). Inr (i, h'))"
    and items: "ok h \<Longrightarrow> dom (hc_content H h) \<subseteq> {..<capacity h}"
    and n_items: "ok h \<Longrightarrow> hc_n_items H h = int (card (dom (hc_content H h)))"
begin

lemma finite_items: "ok h \<Longrightarrow> finite (dom (hc_content H h))"
  by (rule finite_subset [OF items]) auto

lemma n_items_pos: "ok h \<Longrightarrow> 0 < hc_n_items H h \<longleftrightarrow> hc_content H h \<noteq> Map.empty"
  by (simp add: n_items card_gt_0_iff finite_items)

lemma n_items_bound: "ok h \<Longrightarrow> hc_n_items H h \<le> int (capacity h)"
  using card_mono [OF _ items, of h] by (simp add: n_items)

lemma deletes_min:
  assumes "ok h" "hc_content H h \<noteq> Map.empty"
  obtains i k h' where "hc_delete_min H h = Inr (i, h')" "ok h'" "capacity h' = capacity h"
    "hc_content H h i = Some k" "\<And>j l. hc_content H h j = Some l \<Longrightarrow> k \<le> l"
    "hc_content H h' = (hc_content H h)(i := None)"
proof -
  obtain i k h' where "hc_delete_minimum H h = Inr ((i, k), h')" "ok h'" "capacity h' = capacity h"
    "hc_content H h i = Some k" "\<forall>j l. hc_content H h j = Some l \<longrightarrow> k \<le> l"
    "hc_content H h' = (hc_content H h)(i := None)"
    using delete_minimum [OF assms] by blast
  then show thesis by (intro that [of i h' k]) (auto simp: delete_min)
qed

end

end
