(* ===== verification/Shortest_Paths.thy ===== *)
theory Shortest_Paths
  imports Heap_Interface
begin

text \<open>
  \<open>GraphLib/treealgs/dijkstra_sp\<close>: shortest paths by Dijkstra's algorithm over the abstract class
  \<open>Heap\<close>. A graph is the list of the edges leaving each vertex, in the order in which \<open>out_edges\<close>
  gives them. The distances are \<open>double\<close>s: the type is a parameter, and so are the sum of a weight
  and a distance, the distance 0 and the maximal \<open>double\<close>. Vectors are indexed without a check, so an
  index outside is undefined behaviour.
\<close>

section \<open>Graphs and vectors\<close>

type_synonym 'w graph = "(nat \<times> 'w) list list"

definition num_vertices :: "'w graph \<Rightarrow> nat" where
  "num_vertices g = length g"

definition vec_get :: "'a list \<Rightarrow> nat \<Rightarrow> 'a res" where
  "vec_get xs i = (if i < length xs then Inr (xs ! i) else Inl UndefinedBehaviour)"

definition vec_put :: "nat \<Rightarrow> 'a \<Rightarrow> 'a list \<Rightarrow> 'a list res" where
  "vec_put i x xs = (if i < length xs then Inr (xs[i := x]) else Inl UndefinedBehaviour)"

definition out_edges :: "nat \<Rightarrow> 'w graph \<Rightarrow> (nat \<times> 'w) list res" where
  "out_edges u g = vec_get g u"

lemma vec_get_in [simp]: "i < length xs \<Longrightarrow> vec_get xs i = Inr (xs ! i)"
  by (simp add: vec_get_def)

lemma vec_put_in [simp]: "i < length xs \<Longrightarrow> vec_put i x xs = Inr (xs[i := x])"
  by (simp add: vec_put_def)

section \<open>myDijkstraSPT\<close>

datatype color = White | Gray | Black

record ('h, 'd) spt =
  sp_distance :: "'d list"
  sp_parent :: "nat list"
  sp_color :: "color list"
  sp_heap :: 'h

text \<open>The arithmetic of the distances: the sum of a weight and a distance, 0 and the maximum.\<close>

record 'd distances =
  d_add :: "'d \<Rightarrow> 'd \<Rightarrow> 'd"
  d_zero :: 'd
  d_max :: 'd

definition sp_init_vertex :: "'d distances \<Rightarrow> nat \<Rightarrow> ('h, 'd) spt \<Rightarrow> ('h, 'd) spt res" where
  "sp_init_vertex D v s =
     rbind (vec_put v (d_max D) (sp_distance s)) (\<lambda>ds.
     rbind (vec_put v v (sp_parent s)) (\<lambda>ps.
     rbind (vec_put v White (sp_color s)) (\<lambda>cs.
       Inr (s\<lparr> sp_distance := ds, sp_parent := ps, sp_color := cs \<rparr>))))"

definition sp_relax ::
  "('h, 'd::linorder) heap_class \<Rightarrow> 'd distances \<Rightarrow> nat \<Rightarrow> nat \<times> 'd \<Rightarrow> ('h, 'd) spt \<Rightarrow> ('h, 'd) spt res" where
  "sp_relax H D u e s = (case e of (targ, weight) \<Rightarrow>
     asserting (targ \<noteq> u)
     (rbind (vec_get (sp_distance s) u) (\<lambda>du.
      rbind (vec_get (sp_distance s) targ) (\<lambda>dt.
      rbind (vec_get (sp_color s) targ) (\<lambda>c.
      if d_add D weight du < dt \<and> c \<noteq> Black then
        rbind (vec_put targ (d_add D weight du) (sp_distance s)) (\<lambda>ds.
        rbind (vec_put targ u (sp_parent s)) (\<lambda>ps.
        if c = White then
          rbind (vec_put targ Gray (sp_color s)) (\<lambda>cs.
          rbind (hc_insert H targ (d_add D weight du) (sp_heap s)) (\<lambda>h.
            Inr (s\<lparr> sp_distance := ds, sp_parent := ps, sp_color := cs, sp_heap := h \<rparr>)))
        else
          rbind (hc_decrease_key H targ (d_add D weight du) (sp_heap s)) (\<lambda>h.
            Inr (s\<lparr> sp_distance := ds, sp_parent := ps, sp_heap := h \<rparr>))))
      else Inr s)))))"

text \<open>One round of the loop: the vertex with the least distance, all its edges, and its color.\<close>

definition sp_round ::
  "('h, 'd::linorder) heap_class \<Rightarrow> 'd distances \<Rightarrow> 'd graph \<Rightarrow> ('h, 'd) spt \<Rightarrow> ('h, 'd) spt res" where
  "sp_round H D g s =
     rbind (hc_delete_min H (sp_heap s)) (\<lambda>(u, h).
     rbind (out_edges u g) (\<lambda>es.
     rbind (rfold (sp_relax H D u) es (s\<lparr> sp_heap := h \<rparr>)) (\<lambda>s1.
     rbind (vec_put u Black (sp_color s1)) (\<lambda>cs.
       Inr (s1\<lparr> sp_color := cs \<rparr>)))))"

partial_function (option) sp_loop ::
  "('h, 'd::linorder) heap_class \<Rightarrow> 'd distances \<Rightarrow> 'd graph \<Rightarrow> ('h, 'd) spt \<Rightarrow> ('h, 'd) spt res option" where
  "sp_loop H D g s =
     (if \<not> 0 < hc_n_items H (sp_heap s) then Some (Inr s)
      else case sp_round H D g s of
        Inl e \<Rightarrow> Some (Inl e)
      | Inr s1 \<Rightarrow> sp_loop H D g s1)"

text \<open>The start: a heap for all vertices, the vectors of the vertices given, and the source.\<close>

definition sp_start ::
  "('h, 'd::linorder) heap_class \<Rightarrow> 'd distances \<Rightarrow> 'd graph \<Rightarrow> nat \<Rightarrow> nat list \<Rightarrow> 'd list \<Rightarrow> nat list \<Rightarrow>
     ('h, 'd) spt res" where
  "sp_start H D g src vs zdistance zparent =
     rbind (hc_new_instance H (num_vertices g)) (\<lambda>h.
     rbind (rfold (sp_init_vertex D) vs \<lparr> sp_distance = zdistance, sp_parent = zparent,
              sp_color = replicate (num_vertices g) White, sp_heap = h \<rparr>) (\<lambda>s.
     rbind (vec_put src Gray (sp_color s)) (\<lambda>cs.
     rbind (vec_put src (d_zero D) (sp_distance s)) (\<lambda>ds.
     rbind (hc_insert H src (d_zero D) (sp_heap s)) (\<lambda>h1.
       Inr (s\<lparr> sp_distance := ds, sp_color := cs, sp_heap := h1 \<rparr>))))))"

definition sp_run ::
  "('h, 'd::linorder) heap_class \<Rightarrow> 'd distances \<Rightarrow> 'd graph \<Rightarrow> nat \<Rightarrow> nat list \<Rightarrow> 'd list \<Rightarrow> nat list \<Rightarrow>
     ('d list \<times> nat list) res option" where
  "sp_run H D g src vs zdistance zparent =
     (case sp_start H D g src vs zdistance zparent of
        Inl e \<Rightarrow> Some (Inl e)
      | Inr s \<Rightarrow> map_option (\<lambda>r. rbind r (\<lambda>s'. Inr (sp_distance s', sp_parent s'))) (sp_loop H D g s))"

definition my_dijkstra_spt ::
  "('h, 'd::linorder) heap_class \<Rightarrow> 'd distances \<Rightarrow> 'd graph \<Rightarrow> nat \<Rightarrow> 'd list \<Rightarrow> nat list \<Rightarrow>
     ('d list \<times> nat list) res option" where
  "my_dijkstra_spt H D g src zdistance zparent =
     sp_run H D g src [0..<num_vertices g] zdistance zparent"

text \<open>The overload for the vertices of a tree starts from these vertices only.\<close>

definition my_dijkstra_spt_tree ::
  "('h, 'd::linorder) heap_class \<Rightarrow> 'd distances \<Rightarrow> 'd graph \<Rightarrow> nat \<Rightarrow> nat list \<Rightarrow> 'd list \<Rightarrow> nat list \<Rightarrow>
     ('d list \<times> nat list) res option" where
  "my_dijkstra_spt_tree H D g src treeNodes zdistance zparent =
     sp_run H D g src treeNodes zdistance zparent"

section \<open>Walks\<close>

inductive walk :: "'d distances \<Rightarrow> 'd graph \<Rightarrow> nat \<Rightarrow> nat \<Rightarrow> 'd \<Rightarrow> bool" for D g src where
  walk_start: "walk D g src src (d_zero D)"
| walk_edge: "walk D g src u d \<Longrightarrow> u < length g \<Longrightarrow> (v, w) \<in> set (g ! u) \<Longrightarrow> walk D g src v (d_add D w d)"

text \<open>
  What the algorithm relies on: the sum is monotone in the distance and not smaller than it for a
  weight that is not negative, as for the \<open>double\<close>s, whose addition rounds; every edge leads to
  another vertex of the graph and has such a weight.
\<close>

definition distances_ok :: "'d::linorder distances \<Rightarrow> bool" where
  "distances_ok D \<longleftrightarrow> d_zero D \<le> d_max D \<and>
     (\<forall>w a b. d_zero D \<le> w \<longrightarrow> a \<le> b \<longrightarrow> d_add D w a \<le> d_add D w b) \<and>
     (\<forall>w a. d_zero D \<le> w \<longrightarrow> a \<le> d_add D w a)"

definition graph_ok :: "'d::linorder distances \<Rightarrow> 'd graph \<Rightarrow> bool" where
  "graph_ok D g \<longleftrightarrow>
     (\<forall>u<length g. \<forall>(v, w)\<in>set (g ! u). v < length g \<and> v \<noteq> u \<and> d_zero D \<le> w)"

section \<open>The invariant of the loop\<close>

text \<open>
  \<open>m\<close> is the content of the heap and \<open>cur\<close> the vertex whose edges are being followed. Gray vertices
  wait in the heap under their distance, black ones are finished and not farther than the gray ones.
\<close>

definition sp_vectors :: "'d graph \<Rightarrow> ('h, 'd) spt \<Rightarrow> bool" where
  "sp_vectors g s \<longleftrightarrow> length g \<le> length (sp_distance s) \<and> length g \<le> length (sp_parent s) \<and>
     length (sp_color s) = length g"

definition sp_keys :: "nat option \<Rightarrow> (nat \<rightharpoonup> 'd) \<Rightarrow> 'd graph \<Rightarrow> ('h, 'd) spt \<Rightarrow> bool" where
  "sp_keys cur m g s \<longleftrightarrow> dom m \<subseteq> {..<length g} \<and>
     (\<forall>v<length g. m v = (if sp_color s ! v = Gray \<and> cur \<noteq> Some v then Some (sp_distance s ! v) else None))"

definition sp_reached :: "'d::linorder distances \<Rightarrow> 'd graph \<Rightarrow> nat \<Rightarrow> ('h, 'd) spt \<Rightarrow> bool" where
  "sp_reached D g src s \<longleftrightarrow> src < length g \<and> sp_color s ! src \<noteq> White \<and> sp_distance s ! src \<le> d_zero D \<and>
     (\<forall>v<length g. sp_distance s ! v \<le> d_max D \<and>
        (if sp_color s ! v = White then sp_distance s ! v = d_max D else walk D g src v (sp_distance s ! v)))"

definition sp_finished :: "'d::linorder distances \<Rightarrow> 'd graph \<Rightarrow> ('h, 'd) spt \<Rightarrow> bool" where
  "sp_finished D g s \<longleftrightarrow> (\<forall>b<length g. sp_color s ! b = Black \<longrightarrow>
     (\<forall>v<length g. sp_color s ! v = Gray \<longrightarrow> sp_distance s ! b \<le> sp_distance s ! v) \<and>
     (\<forall>(v, w)\<in>set (g ! b). sp_distance s ! v \<le> d_add D w (sp_distance s ! b)))"

definition sp_parents :: "'d distances \<Rightarrow> 'd graph \<Rightarrow> nat \<Rightarrow> nat option \<Rightarrow> ('h, 'd) spt \<Rightarrow> bool" where
  "sp_parents D g src cur s \<longleftrightarrow> (\<forall>v<length g. v \<noteq> src \<longrightarrow> sp_color s ! v \<noteq> White \<longrightarrow>
     sp_parent s ! v < length g \<and>
     (sp_color s ! (sp_parent s ! v) = Black \<or> cur = Some (sp_parent s ! v)) \<and>
     (\<exists>w. (v, w) \<in> set (g ! (sp_parent s ! v)) \<and>
          sp_distance s ! v = d_add D w (sp_distance s ! (sp_parent s ! v))))"

definition sp_current :: "'d::linorder graph \<Rightarrow> nat option \<Rightarrow> ('h, 'd) spt \<Rightarrow> bool" where
  "sp_current g cur s \<longleftrightarrow> (\<forall>u. cur = Some u \<longrightarrow> u < length g \<and> sp_color s ! u = Gray \<and>
     (\<forall>v<length g. sp_color s ! v = Gray \<longrightarrow> sp_distance s ! u \<le> sp_distance s ! v))"

definition sp_inv ::
  "'d::linorder distances \<Rightarrow> 'd graph \<Rightarrow> nat \<Rightarrow> nat option \<Rightarrow> (nat \<rightharpoonup> 'd) \<Rightarrow> ('h, 'd) spt \<Rightarrow> bool" where
  "sp_inv D g src cur m s \<longleftrightarrow> sp_vectors g s \<and> sp_keys cur m g s \<and> sp_reached D g src s \<and>
     sp_finished D g s \<and> sp_parents D g src cur s \<and> sp_current g cur s"

text \<open>The vertex that leaves the heap becomes the current one.\<close>

lemma sp_inv_take:
  assumes inv: "sp_inv D g src None m s" and u: "m u = Some k"
    and least: "\<And>v l. m v = Some l \<Longrightarrow> k \<le> l"
  shows "sp_inv D g src (Some u) (m(u := None)) (s\<lparr> sp_heap := h \<rparr>)" "u < length g"
proof -
  have keys: "dom m \<subseteq> {..<length g}"
    "\<And>v. v < length g \<Longrightarrow> m v = (if sp_color s ! v = Gray then Some (sp_distance s ! v) else None)"
    using inv by (auto simp: sp_inv_def sp_keys_def)
  show u_in: "u < length g" using keys(1) u by auto
  then have gray: "sp_color s ! u = Gray" "k = sp_distance s ! u"
    using keys(2) [of u] u by (auto split: if_splits)
  have "sp_distance s ! u \<le> sp_distance s ! v" if "v < length g" "sp_color s ! v = Gray" for v
    using least [of v "sp_distance s ! v"] keys(2) [OF that(1)] that(2) gray(2) by simp
  then show "sp_inv D g src (Some u) (m(u := None)) (s\<lparr> sp_heap := h \<rparr>)"
    using inv keys gray u_in
    unfolding sp_inv_def sp_vectors_def sp_keys_def sp_reached_def sp_finished_def sp_parents_def sp_current_def
    by (simp add: subset_insertI2) blast
qed

text \<open>Following an edge that shortens a distance.\<close>

definition sp_improve :: "nat \<Rightarrow> 'd \<Rightarrow> nat \<Rightarrow> ('h, 'd) spt \<Rightarrow> ('h, 'd) spt" where
  "sp_improve t d u s = s\<lparr> sp_distance := (sp_distance s)[t := d], sp_parent := (sp_parent s)[t := u],
     sp_color := (sp_color s)[t := Gray] \<rparr>"

lemma sp_improve_simps:
  assumes "sp_vectors g s" "t < length g"
  shows "sp_distance (sp_improve t d u s) ! v = (if v = t then d else sp_distance s ! v)"
    and "sp_parent (sp_improve t d u s) ! v = (if v = t then u else sp_parent s ! v)"
    and "sp_color (sp_improve t d u s) ! v = (if v = t then Gray else sp_color s ! v)"
    and "sp_vectors g (sp_improve t d u s)"
  using assms by (auto simp: sp_improve_def sp_vectors_def)

lemma sp_inv_improve:
  assumes D: "distances_ok D" and g: "graph_ok D g"
    and inv: "sp_inv D g src (Some u) m s" and edge: "(t, w) \<in> set (g ! u)"
    and better: "d_add D w (sp_distance s ! u) < sp_distance s ! t" and unfinished: "sp_color s ! t \<noteq> Black"
  shows "sp_inv D g src (Some u) (m(t \<mapsto> d_add D w (sp_distance s ! u)))
           (sp_improve t (d_add D w (sp_distance s ! u)) u s)"
    and "t < length g" "t \<noteq> u"
proof -
  let ?d = "d_add D w (sp_distance s ! u)" let ?s = "sp_improve t ?d u s"
  note defs = sp_keys_def sp_reached_def sp_finished_def sp_parents_def sp_current_def
  have vec: "sp_vectors g s" using inv by (simp add: sp_inv_def)
  have u: "u < length g" "sp_color s ! u = Gray"
    "\<And>v. v < length g \<Longrightarrow> sp_color s ! v = Gray \<Longrightarrow> sp_distance s ! u \<le> sp_distance s ! v"
    using inv by (auto simp: sp_inv_def sp_current_def)
  show t: "t < length g" "t \<noteq> u" using g u(1) edge by (auto simp: graph_ok_def)
  have w: "d_zero D \<le> w" using g u(1) edge by (auto simp: graph_ok_def)
  then have up: "sp_distance s ! u \<le> ?d" using D by (simp add: distances_ok_def)
  note sim = sp_improve_simps [OF vec t(1), of ?d u]
  have black: "sp_distance s ! b \<le> sp_distance s ! u" if "b < length g" "sp_color s ! b = Black" for b
    using inv that u(1,2) by (auto simp: sp_inv_def sp_finished_def)
  show "sp_inv D g src (Some u) (m(t \<mapsto> ?d)) ?s"
    unfolding sp_inv_def
  proof (intro conjI)
    show "sp_vectors g ?s" by (rule sim(4))
    show "sp_keys (Some u) (m(t \<mapsto> ?d)) g ?s"
      using inv t by (auto simp: sp_inv_def sp_keys_def sim)
    have "walk D g src t ?d"
      using walk_edge [of D g src u _ t w] inv u(1,2) edge by (auto simp: sp_inv_def sp_reached_def)
    then show "sp_reached D g src ?s"
      using inv better less_imp_le [OF better] by (auto simp: sp_inv_def sp_reached_def sim)
    show "sp_finished D g ?s"
      unfolding sp_finished_def
    proof (intro allI impI conjI)
      fix b assume b: "b < length g" "sp_color ?s ! b = Black"
      then have bt: "b \<noteq> t" "sp_color s ! b = Black" by (auto simp: sim split: if_splits)
      show "sp_distance ?s ! b \<le> sp_distance ?s ! v" if "v < length g" "sp_color ?s ! v = Gray" for v
        using that b bt black [of b] up inv by (auto simp: sim sp_inv_def sp_finished_def split: if_splits)
      show "\<forall>(v, w)\<in>set (g ! b). sp_distance ?s ! v \<le> d_add D w (sp_distance ?s ! b)"
        using inv b(1) bt less_imp_le [OF better]
        by (fastforce simp: sim sp_inv_def sp_finished_def split: if_splits)
    qed
    show "sp_parents D g src (Some u) ?s"
      unfolding sp_parents_def
    proof (intro allI impI)
      fix v assume v: "v < length g" "v \<noteq> src" "sp_color ?s ! v \<noteq> White"
      show "sp_parent ?s ! v < length g \<and>
        (sp_color ?s ! (sp_parent ?s ! v) = Black \<or> Some u = Some (sp_parent ?s ! v)) \<and>
        (\<exists>w. (v, w) \<in> set (g ! (sp_parent ?s ! v)) \<and>
          sp_distance ?s ! v = d_add D w (sp_distance ?s ! (sp_parent ?s ! v)))"
      proof (cases "v = t")
        case True
        then show ?thesis using edge t u(1) by (auto simp: sim)
      next
        case False
        then have old: "sp_parent s ! v < length g"
          "sp_color s ! (sp_parent s ! v) = Black \<or> u = sp_parent s ! v"
          "\<exists>w. (v, w) \<in> set (g ! (sp_parent s ! v)) \<and>
             sp_distance s ! v = d_add D w (sp_distance s ! (sp_parent s ! v))"
          using inv v by (auto simp: sp_inv_def sp_parents_def sim)
        then have "sp_parent s ! v \<noteq> t" using unfinished t(2) by auto
        then show ?thesis using old False by (auto simp: sim)
      qed
    qed
    show "sp_current g (Some u) ?s"
      using u t up by (auto simp: sp_current_def sim)
  qed
qed

text \<open>A vertex all of whose edges have been followed is finished.\<close>

lemma sp_inv_finish:
  assumes inv: "sp_inv D g src (Some u) m s"
    and edges: "\<forall>(v, w)\<in>set (g ! u). sp_distance s ! v \<le> d_add D w (sp_distance s ! u)"
  shows "sp_inv D g src None m (s\<lparr> sp_color := (sp_color s)[u := Black] \<rparr>)"
proof -
  have len: "length (sp_color s) = length g" using inv by (simp add: sp_inv_def sp_vectors_def)
  have u: "u < length g" "sp_color s ! u = Gray"
    "\<And>v. v < length g \<Longrightarrow> sp_color s ! v = Gray \<Longrightarrow> sp_distance s ! u \<le> sp_distance s ! v"
    using inv by (auto simp: sp_inv_def sp_current_def)
  have col: "(sp_color s)[u := Black] ! v = (if v = u then Black else sp_color s ! v)" for v
    using u(1) len by (simp add: nth_list_update)
  show ?thesis
    unfolding sp_inv_def
  proof (intro conjI)
    show "sp_vectors g (s\<lparr> sp_color := (sp_color s)[u := Black] \<rparr>)"
      using inv by (simp add: sp_inv_def sp_vectors_def)
    show "sp_keys None m g (s\<lparr> sp_color := (sp_color s)[u := Black] \<rparr>)"
      using inv by (auto simp: sp_inv_def sp_keys_def col)
    show "sp_reached D g src (s\<lparr> sp_color := (sp_color s)[u := Black] \<rparr>)"
      using inv u(1,2) by (auto simp: sp_inv_def sp_reached_def col)
    show "sp_finished D g (s\<lparr> sp_color := (sp_color s)[u := Black] \<rparr>)"
      using inv u edges by (auto simp: sp_inv_def sp_finished_def col)
    show "sp_parents D g src None (s\<lparr> sp_color := (sp_color s)[u := Black] \<rparr>)"
      using inv u(1,2) by (auto simp: sp_inv_def sp_parents_def col)
    show "sp_current g None (s\<lparr> sp_color := (sp_color s)[u := Black] \<rparr>)"
      by (simp add: sp_current_def)
  qed
qed

text \<open>With no gray vertex left, the distances are those of the shortest walks.\<close>

lemma sp_inv_walk:
  assumes D: "distances_ok D" and g: "graph_ok D g" and inv: "sp_inv D g src None Map.empty s"
    and walk: "walk D g src v d"
  shows "sp_distance s ! v \<le> d"
  using walk
proof (induction rule: walk.induct)
  case walk_start
  then show ?case using inv by (simp add: sp_inv_def sp_reached_def)
next
  case (walk_edge u d v w)
  have v: "v < length g" "d_zero D \<le> w" using g walk_edge.hyps by (auto simp: graph_ok_def)
  have mono: "d_add D w a \<le> d_add D w b" if "a \<le> b" for a b using D v(2) that by (simp add: distances_ok_def)
  have up: "a \<le> d_add D w a" for a using D v(2) by (simp add: distances_ok_def)
  have "sp_color s ! u \<noteq> Gray"
    using inv walk_edge.hyps(2) by (auto simp: sp_inv_def sp_keys_def split: if_splits)
  then consider "sp_color s ! u = Black" | "sp_color s ! u = White" by (cases "sp_color s ! u") auto
  then show ?case
  proof cases
    case 1
    then have "sp_distance s ! v \<le> d_add D w (sp_distance s ! u)"
      using inv walk_edge.hyps by (auto simp: sp_inv_def sp_finished_def)
    then show ?thesis using mono [OF walk_edge.IH] by (rule order_trans)
  next
    case 2
    then have "sp_distance s ! u = d_max D" "sp_distance s ! v \<le> d_max D"
      using inv walk_edge.hyps(2) v(1) by (auto simp: sp_inv_def sp_reached_def)
    then show ?thesis using walk_edge.IH up [of d] by (metis order_trans)
  qed
qed

section \<open>The algorithm over any heap that keeps the contract\<close>

definition unfinished :: "('h, 'd) spt \<Rightarrow> nat" where
  "unfinished s = length (filter (\<lambda>c. c \<noteq> Black) (sp_color s))"

definition sp_ready ::
  "('h, 'd::linorder) heap_class \<Rightarrow> ('h \<Rightarrow> bool) \<Rightarrow> ('h \<Rightarrow> nat) \<Rightarrow> 'd distances \<Rightarrow> 'd graph \<Rightarrow> nat \<Rightarrow> nat option \<Rightarrow>
     ('h, 'd) spt \<Rightarrow> bool" where
  "sp_ready H ok capacity D g src cur s \<longleftrightarrow> ok (sp_heap s) \<and> capacity (sp_heap s) = length g \<and>
     sp_inv D g src cur (hc_content H (sp_heap s)) s"

definition sp_progress :: "'d::linorder graph \<Rightarrow> nat \<Rightarrow> ('h, 'd) spt \<Rightarrow> ('h, 'd) spt \<Rightarrow> bool" where
  "sp_progress g u s s' \<longleftrightarrow> sp_distance s' ! u = sp_distance s ! u \<and>
     (\<forall>v<length g. sp_distance s' ! v \<le> sp_distance s ! v) \<and>
     (\<forall>v<length g. sp_color s ! v = Black \<longrightarrow> sp_color s' ! v = Black)"

lemma sp_init_vertices:
  assumes "set vs \<subseteq> {..<n}" "n \<le> length (sp_distance s)" "n \<le> length (sp_parent s)" "n \<le> length (sp_color s)"
  obtains s' where "rfold (sp_init_vertex D) vs s = Inr s'" "sp_heap s' = sp_heap s"
    "length (sp_distance s') = length (sp_distance s)" "length (sp_parent s') = length (sp_parent s)"
    "length (sp_color s') = length (sp_color s)"
    "\<And>v. v < n \<Longrightarrow> sp_distance s' ! v = (if v \<in> set vs then d_max D else sp_distance s ! v)"
    "\<And>v. v < n \<Longrightarrow> sp_parent s' ! v = (if v \<in> set vs then v else sp_parent s ! v)"
    "\<And>v. v < n \<Longrightarrow> sp_color s' ! v = (if v \<in> set vs then White else sp_color s ! v)"
  using assms
proof (induction vs arbitrary: s thesis)
  case (Cons x xs)
  let ?s = "s\<lparr> sp_distance := (sp_distance s)[x := d_max D], sp_parent := (sp_parent s)[x := x],
              sp_color := (sp_color s)[x := White] \<rparr>"
  obtain s' where s': "rfold (sp_init_vertex D) xs ?s = Inr s'" "sp_heap s' = sp_heap ?s"
    "length (sp_distance s') = length (sp_distance ?s)" "length (sp_parent s') = length (sp_parent ?s)"
    "length (sp_color s') = length (sp_color ?s)"
    "\<And>v. v < n \<Longrightarrow> sp_distance s' ! v = (if v \<in> set xs then d_max D else sp_distance ?s ! v)"
    "\<And>v. v < n \<Longrightarrow> sp_parent s' ! v = (if v \<in> set xs then v else sp_parent ?s ! v)"
    "\<And>v. v < n \<Longrightarrow> sp_color s' ! v = (if v \<in> set xs then White else sp_color ?s ! v)"
    by (rule Cons.IH [of ?s]) (use Cons.prems in auto)
  have "sp_init_vertex D x s = Inr ?s" using Cons.prems by (simp add: sp_init_vertex_def)
  then show ?case
    using s' Cons.prems by (intro Cons.prems(1) [of s']) (auto simp: nth_list_update)
qed auto

context heap_contract
begin

text \<open>What following one edge does to the state, whatever the sum of the distances is.\<close>

lemma relax_step:
  fixes D :: "'k distances"
  assumes h: "ok (sp_heap s)" "capacity (sp_heap s) = length g"
    and vec: "sp_vectors g s" and keys: "sp_keys (Some u) (hc_content H (sp_heap s)) g s"
    and u: "u < length g" and t: "t < length g" "t \<noteq> u"
    and d: "d = d_add D w (sp_distance s ! u)"
  shows "if d < sp_distance s ! t \<and> sp_color s ! t \<noteq> Black
    then \<exists>h'. sp_relax H D u (t, w) s = Inr (sp_improve t d u s\<lparr> sp_heap := h' \<rparr>) \<and> ok h' \<and>
           capacity h' = length g \<and> hc_content H h' = (hc_content H (sp_heap s))(t \<mapsto> d)
    else sp_relax H D u (t, w) s = Inr s"
proof -
  have len: "u < length (sp_distance s)" "t < length (sp_distance s)" "t < length (sp_parent s)"
    "t < length (sp_color s)" using t u vec by (auto simp: sp_vectors_def)
  let ?m = "hc_content H (sp_heap s)"
  have content: "?m t = (if sp_color s ! t = Gray then Some (sp_distance s ! t) else None)"
    using keys t by (simp add: sp_keys_def)
  show ?thesis
  proof (cases "d < sp_distance s ! t \<and> sp_color s ! t \<noteq> Black")
    case False
    then show ?thesis using t len d by (auto simp: sp_relax_def)
  next
    case True
    then have better: "d < sp_distance s ! t" and alive: "sp_color s ! t \<noteq> Black" by auto
    have "\<exists>h'. sp_relax H D u (t, w) s = Inr (sp_improve t d u s\<lparr> sp_heap := h' \<rparr>) \<and> ok h' \<and>
        capacity h' = length g \<and> hc_content H h' = ?m(t \<mapsto> d)"
    proof (cases "sp_color s ! t = White")
      case True
      then obtain h' where "hc_insert H t d (sp_heap s) = Inr h'" "ok h'" "capacity h' = length g"
        "hc_content H h' = ?m(t \<mapsto> d)"
        using insert [OF h(1), of t d] content h(2) t(1) by auto
      then show ?thesis
        using True better t len by (intro exI [of _ h']) (simp add: sp_relax_def sp_improve_def d)
    next
      case False
      then have gray: "sp_color s ! t = Gray" using alive by (cases "sp_color s ! t") auto
      then obtain h' where "hc_decrease_key H t d (sp_heap s) = Inr h'" "ok h'"
        "capacity h' = length g" "hc_content H h' = ?m(t \<mapsto> d)"
        using decrease_key [OF h(1) _ less_imp_le [OF better]] content h(2) by auto
      moreover have "(sp_color s)[t := Gray] = sp_color s" using gray by (simp add: list_update_same_conv len)
      ultimately show ?thesis
        using gray better t len by (intro exI [of _ h']) (simp add: sp_relax_def sp_improve_def d)
    qed
    then show ?thesis using True by simp
  qed
qed

lemma relax_ok:
  assumes D: "distances_ok D" and g: "graph_ok D g"
    and ready: "sp_ready H ok capacity D g src (Some u) s" and edge: "(t, w) \<in> set (g ! u)"
  obtains s' where "sp_relax H D u (t, w) s = Inr s'" "sp_ready H ok capacity D g src (Some u) s'"
    "sp_progress g u s s'" "sp_distance s' ! t \<le> d_add D w (sp_distance s' ! u)"
proof -
  have h: "ok (sp_heap s)" "capacity (sp_heap s) = length g"
    and inv: "sp_inv D g src (Some u) (hc_content H (sp_heap s)) s"
    using ready by (auto simp: sp_ready_def)
  have u: "u < length g" "sp_color s ! u = Gray" using inv by (auto simp: sp_inv_def sp_current_def)
  have t: "t < length g" "t \<noteq> u" and w: "d_zero D \<le> w" using g u(1) edge by (auto simp: graph_ok_def)
  have vec: "sp_vectors g s" and keys: "sp_keys (Some u) (hc_content H (sp_heap s)) g s"
    using inv by (auto simp: sp_inv_def)
  let ?d = "d_add D w (sp_distance s ! u)"
  note step = relax_step [OF h vec keys u(1) t refl, of D w]
  show thesis
  proof (cases "?d < sp_distance s ! t \<and> sp_color s ! t \<noteq> Black")
    case False
    have "sp_distance s ! t \<le> ?d"
    proof (cases "sp_color s ! t = Black")
      case True
      then have "sp_distance s ! t \<le> sp_distance s ! u"
        using inv t(1) u by (auto simp: sp_inv_def sp_finished_def)
      also have "\<dots> \<le> ?d" using D w by (simp add: distances_ok_def)
      finally show ?thesis .
    qed (use False in auto)
    moreover have "sp_relax H D u (t, w) s = Inr s" using step False by simp
    ultimately show thesis using ready by (intro that [of s]) (auto simp: sp_progress_def)
  next
    case True
    let ?s = "sp_improve t ?d u s"
    obtain h' where h': "sp_relax H D u (t, w) s = Inr (?s\<lparr> sp_heap := h' \<rparr>)" "ok h'"
      "capacity h' = length g" "hc_content H h' = (hc_content H (sp_heap s))(t \<mapsto> ?d)"
      using step True by auto
    have "sp_inv D g src (Some u) (hc_content H h') (?s\<lparr> sp_heap := h' \<rparr>)"
      using sp_inv_improve(1) [OF D g inv edge] True h'(4)
      by (simp add: sp_inv_def sp_vectors_def sp_keys_def sp_reached_def sp_finished_def sp_parents_def sp_current_def)
    then have "sp_ready H ok capacity D g src (Some u) (?s\<lparr> sp_heap := h' \<rparr>)"
      using h' by (simp add: sp_ready_def)
    then show thesis
      using h'(1) True t by (intro that) (auto simp: sp_progress_def sp_improve_simps [OF vec t(1)])
  qed
qed

lemma sp_progress_trans: "sp_progress g u s s1 \<Longrightarrow> sp_progress g u s1 s2 \<Longrightarrow> sp_progress g u s s2"
  unfolding sp_progress_def by (metis order_trans)

lemma relaxes_ok:
  assumes D: "distances_ok D" and g: "graph_ok D g"
    and "sp_ready H ok capacity D g src (Some u) s" "set es \<subseteq> set (g ! u)"
  obtains s' where "rfold (sp_relax H D u) es s = Inr s'" "sp_ready H ok capacity D g src (Some u) s'"
    "sp_progress g u s s'" "\<forall>(t, w)\<in>set es. sp_distance s' ! t \<le> d_add D w (sp_distance s' ! u)"
  using assms(3,4)
proof (induction es arbitrary: s thesis)
  case Nil
  then show ?case by (intro Nil(1) [of s]) (auto simp: sp_progress_def)
next
  case (Cons e es)
  obtain t w where e: "e = (t, w)" by (cases e)
  obtain s1 where s1: "sp_relax H D u (t, w) s = Inr s1" "sp_ready H ok capacity D g src (Some u) s1"
    "sp_progress g u s s1" "sp_distance s1 ! t \<le> d_add D w (sp_distance s1 ! u)"
    using relax_ok [OF D g Cons.prems(2)] Cons.prems(3) unfolding e by auto
  obtain s2 where s2: "rfold (sp_relax H D u) es s1 = Inr s2" "sp_ready H ok capacity D g src (Some u) s2"
    "sp_progress g u s1 s2" "\<forall>(t, w)\<in>set es. sp_distance s2 ! t \<le> d_add D w (sp_distance s2 ! u)"
    using Cons.IH [OF _ s1(2)] Cons.prems(3) by auto
  have "u < length g"
    using Cons.prems(2) by (simp add: sp_ready_def sp_inv_def sp_current_def)
  then have "t < length g" using g Cons.prems(3) e by (auto simp: graph_ok_def)
  then have "sp_distance s2 ! t \<le> d_add D w (sp_distance s2 ! u)"
    using s1(4) s2(3) by (auto simp: sp_progress_def intro: order_trans)
  then show ?case
    using s1(1) s2 sp_progress_trans [OF s1(3) s2(3)] by (intro Cons.prems(1) [of s2]) (auto simp: e)
qed

lemma round_ok:
  assumes D: "distances_ok D" and g: "graph_ok D g"
    and ready: "sp_ready H ok capacity D g src None s" and more: "0 < hc_n_items H (sp_heap s)"
  obtains s' where "sp_round H D g s = Inr s'" "sp_ready H ok capacity D g src None s'"
    "unfinished s' < unfinished s"
proof -
  have h: "ok (sp_heap s)" "capacity (sp_heap s) = length g"
    and inv: "sp_inv D g src None (hc_content H (sp_heap s)) s"
    using ready by (auto simp: sp_ready_def)
  obtain u k h1 where del: "hc_delete_min H (sp_heap s) = Inr (u, h1)" "ok h1" "capacity h1 = capacity (sp_heap s)"
    "hc_content H (sp_heap s) u = Some k" "\<And>j l. hc_content H (sp_heap s) j = Some l \<Longrightarrow> k \<le> l"
    "hc_content H h1 = (hc_content H (sp_heap s))(u := None)"
    using deletes_min [OF h(1)] more n_items_pos [OF h(1)] by metis
  have u: "u < length g" by (rule sp_inv_take(2) [OF inv del(4,5)])
  have "sp_inv D g src (Some u) ((hc_content H (sp_heap s))(u := None)) (s\<lparr> sp_heap := h1 \<rparr>)"
    by (rule sp_inv_take(1) [OF inv del(4,5)])
  then have "sp_ready H ok capacity D g src (Some u) (s\<lparr> sp_heap := h1 \<rparr>)"
    using del h(2) by (simp add: sp_ready_def)
  then obtain s1 where s1: "rfold (sp_relax H D u) (g ! u) (s\<lparr> sp_heap := h1 \<rparr>) = Inr s1"
    "sp_ready H ok capacity D g src (Some u) s1" "sp_progress g u (s\<lparr> sp_heap := h1 \<rparr>) s1"
    "\<forall>(t, w)\<in>set (g ! u). sp_distance s1 ! t \<le> d_add D w (sp_distance s1 ! u)"
    using relaxes_ok [OF D g _ subset_refl] by metis
  let ?s = "s1\<lparr> sp_color := (sp_color s1)[u := Black] \<rparr>"
  have len: "length (sp_color s) = length g" "length (sp_color s1) = length g"
    using inv s1(2) by (auto simp: sp_ready_def sp_inv_def sp_vectors_def)
  have "sp_ready H ok capacity D g src None ?s"
    using s1(2,4) sp_inv_finish by (auto simp: sp_ready_def)
  moreover have "sp_round H D g s = Inr ?s"
    using del(1) s1(1) u len by (simp add: sp_round_def out_edges_def)
  moreover have "unfinished ?s < unfinished s"
  proof -
    have "sp_color s ! u = Gray"
      using inv del(4) u by (auto simp: sp_inv_def sp_keys_def split: if_splits)
    moreover have "\<forall>v<length g. sp_color s ! v = Black \<longrightarrow> sp_color ?s ! v = Black"
      using s1(3) len u by (auto simp: sp_progress_def nth_list_update)
    moreover have "sp_color ?s ! u = Black" using u len by simp
    ultimately have "{v. v < length g \<and> sp_color ?s ! v \<noteq> Black} \<subset> {v. v < length g \<and> sp_color s ! v \<noteq> Black}"
      using u by (auto simp: psubset_eq)
    then show ?thesis
      unfolding unfinished_def length_filter_conv_card using len by (auto intro: psubset_card_mono)
  qed
  ultimately show thesis by (intro that)
qed

lemma loop_ok:
  assumes D: "distances_ok D" and g: "graph_ok D g" and "sp_ready H ok capacity D g src None s"
  obtains s' where "sp_loop H D g s = Some (Inr s')" "sp_inv D g src None Map.empty s'"
  using assms(3)
proof (induction "unfinished s" arbitrary: s thesis rule: less_induct)
  case less
  show ?case
  proof (cases "0 < hc_n_items H (sp_heap s)")
    case True
    obtain s1 where s1: "sp_round H D g s = Inr s1" "sp_ready H ok capacity D g src None s1"
      "unfinished s1 < unfinished s" using round_ok [OF D g less.prems(2) True] .
    obtain s2 where s2: "sp_loop H D g s1 = Some (Inr s2)" "sp_inv D g src None Map.empty s2"
      using less.hyps [OF s1(3) _ s1(2)] by metis
    have "sp_loop H D g s = sp_loop H D g s1" using True s1(1) by (subst sp_loop.simps) simp
    then show ?thesis using s2 less.prems(1) by simp
  next
    case False
    then have "hc_content H (sp_heap s) = Map.empty"
      using less.prems(2) n_items_pos by (auto simp: sp_ready_def)
    then have "sp_inv D g src None Map.empty s" using less.prems(2) by (simp add: sp_ready_def)
    moreover have "sp_loop H D g s = Some (Inr s)" using False by (subst sp_loop.simps) simp
    ultimately show ?thesis by (intro less.prems(1))
  qed
qed

lemma start_step:
  fixes D :: "'k distances"
  assumes src: "src < length g" and small: "length g < limit"
    and vs: "set vs = {..<length g}"
    and len: "length g \<le> length ds" "length g \<le> length ps"
  obtains s where "sp_start H D g src vs ds ps = Inr s" "ok (sp_heap s)" "capacity (sp_heap s) = length g"
    "hc_content H (sp_heap s) = [src \<mapsto> d_zero D]" "sp_vectors g s"
    "\<And>v. v < length g \<Longrightarrow> sp_color s ! v = (if v = src then Gray else White)"
    "\<And>v. v < length g \<Longrightarrow> sp_distance s ! v = (if v = src then d_zero D else d_max D)"
proof -
  obtain h where h: "hc_new_instance H (length g) = Inr h" "ok h" "capacity h = length g"
    "hc_content H h = Map.empty" using new_instance [OF _ small] src by (metis gr0I not_less0)
  obtain s where s: "rfold (sp_init_vertex D) vs \<lparr> sp_distance = ds, sp_parent = ps,
      sp_color = replicate (length g) White, sp_heap = h \<rparr> = Inr s" "sp_heap s = h"
    "length (sp_distance s) = length ds" "length (sp_parent s) = length ps" "length (sp_color s) = length g"
    "\<And>v. v < length g \<Longrightarrow> sp_distance s ! v = d_max D" "\<And>v. v < length g \<Longrightarrow> sp_color s ! v = White"
    using sp_init_vertices [of vs "length g" "\<lparr> sp_distance = ds, sp_parent = ps,
      sp_color = replicate (length g) White, sp_heap = h \<rparr>" D] vs len by auto
  obtain h1 where h1: "hc_insert H src (d_zero D) h = Inr h1" "ok h1" "capacity h1 = length g"
    "hc_content H h1 = [src \<mapsto> d_zero D]" using insert [OF h(2), of src "d_zero D"] h src by auto
  let ?s = "s\<lparr> sp_distance := (sp_distance s)[src := d_zero D], sp_color := (sp_color s)[src := Gray],
    sp_heap := h1 \<rparr>"
  have "sp_start H D g src vs ds ps = Inr ?s"
    using h(1) s(1,2,3,5) h1(1) src len(1) by (simp add: sp_start_def num_vertices_def)
  then show thesis
    using h1 s(3-7) len src by (intro that [of ?s]) (auto simp: sp_vectors_def nth_list_update)
qed

lemma start_ok:
  assumes D: "distances_ok D" and src: "src < length g" and "length g < limit"
    and "set vs = {..<length g}" "length g \<le> length ds" "length g \<le> length ps"
  obtains s where "sp_start H D g src vs ds ps = Inr s" "sp_ready H ok capacity D g src None s"
proof -
  obtain s where s: "sp_start H D g src vs ds ps = Inr s" "ok (sp_heap s)" "capacity (sp_heap s) = length g"
    "hc_content H (sp_heap s) = [src \<mapsto> d_zero D]" "sp_vectors g s"
    and col: "\<And>v. v < length g \<Longrightarrow> sp_color s ! v = (if v = src then Gray else White)"
    and dist: "\<And>v. v < length g \<Longrightarrow> sp_distance s ! v = (if v = src then d_zero D else d_max D)"
    using start_step [OF assms(2-), of D] by blast
  have "sp_inv D g src None [src \<mapsto> d_zero D] s"
    unfolding sp_inv_def
  proof (intro conjI)
    show "sp_keys None [src \<mapsto> d_zero D] g s" using src col dist by (auto simp: sp_keys_def)
    show "sp_reached D g src s"
      using D src col dist by (auto simp: sp_reached_def distances_ok_def walk_start)
    show "sp_finished D g s" using col by (auto simp: sp_finished_def)
    show "sp_parents D g src None s" using col by (auto simp: sp_parents_def)
    show "sp_current g None s" by (simp add: sp_current_def)
  qed (rule s(5))
  then show thesis using s(1-4) by (intro that) (auto simp: sp_ready_def)
qed

lemma dijkstra_ok:
  assumes D: "distances_ok D" and g: "graph_ok D g" and src: "src < length g" and small: "length g < limit"
    and vs: "set vs = {..<length g}" and len: "length g \<le> length ds" "length g \<le> length ps"
  obtains s :: "('h, 'k) spt" where "sp_run H D g src vs ds ps = Some (Inr (sp_distance s, sp_parent s))"
    "sp_inv D g src None Map.empty s"
proof -
  obtain s where s: "sp_start H D g src vs ds ps = Inr s" "sp_ready H ok capacity D g src None s"
    using start_ok [OF D src small vs len] .
  obtain s' where "sp_loop H D g s = Some (Inr s')" "sp_inv D g src None Map.empty s'"
    using loop_ok [OF D g s(2)] .
  then show thesis using s(1) by (intro that [of s']) (auto simp: sp_run_def)
qed

end

lemma sp_inv_result:
  assumes D: "distances_ok D" and g: "graph_ok D g" and inv: "sp_inv D g src None Map.empty s"
    and v: "v < length g"
  shows "(\<forall>d. walk D g src v d \<longrightarrow> sp_distance s ! v \<le> d) \<and>
    (sp_distance s ! v = d_max D \<or> walk D g src v (sp_distance s ! v)) \<and>
    (v \<noteq> src \<and> sp_distance s ! v \<noteq> d_max D \<longrightarrow> (\<exists>w. (v, w) \<in> set (g ! (sp_parent s ! v)) \<and>
       sp_distance s ! v = d_add D w (sp_distance s ! (sp_parent s ! v))))"
  using sp_inv_walk [OF D g inv] inv v
  by (auto simp: sp_inv_def sp_reached_def sp_parents_def split: if_splits)

end
