(* ===== verification/Spanning_Tree.thy ===== *)
theory Spanning_Tree
  imports Shortest_Paths Complex_Main
begin

text \<open>
  \<open>GraphLib/treealgs/prim_mst\<close>: minimum spanning trees by Prim's algorithm over the abstract class
  \<open>Heap\<close>. That its tree is minimal is proved by exchanging edges: each edge it takes is a lightest one
  out of the vertices taken before.
\<close>

section \<open>Spanning edges and the exchange of an edge\<close>

text \<open>An edge is given by its ends and its weight; \<open>links\<close> forgets the direction and the weight.\<close>

type_synonym 'w edge = "nat \<times> nat \<times> 'w"

definition links :: "'w edge set \<Rightarrow> (nat \<times> nat) set" where
  "links T = {(u, v). \<exists>w. (u, v, w) \<in> T \<or> (v, u, w) \<in> T}"

definition spans :: "nat \<Rightarrow> 'w edge set \<Rightarrow> bool" where
  "spans n T \<longleftrightarrow> (\<forall>u<n. \<forall>v<n. (u, v) \<in> (links T)\<^sup>*)"

definition total_weight :: "('w \<Rightarrow> real) \<Rightarrow> 'w edge set \<Rightarrow> real" where
  "total_weight val T = (\<Sum>(u, v, w)\<in>T. val w)"

definition graph_edges :: "'w graph \<Rightarrow> 'w edge set" where
  "graph_edges g = {(u, v, w). u < length g \<and> (v, w) \<in> set (g ! u)}"

lemma links_sym: "(u, v) \<in> links T \<Longrightarrow> (v, u) \<in> links T"
  by (auto simp: links_def)

lemma links_mono: "S \<subseteq> T \<Longrightarrow> links S \<subseteq> links T"
  by (auto simp: links_def)

lemma links_rtrancl_sym: "(u, v) \<in> (links T)\<^sup>* \<Longrightarrow> (v, u) \<in> (links T)\<^sup>*"
  by (rule symD [OF sym_rtrancl]) (auto simp: sym_def intro: links_sym)

lemma finite_graph_edges: "finite (graph_edges g)"
proof -
  have "graph_edges g = (\<Union>u<length g. (\<lambda>(v, w). (u, v, w)) ` set (g ! u))"
    by (force simp: graph_edges_def)
  then show ?thesis by simp
qed

lemma last_crossing:
  assumes "(x, y) \<in> R\<^sup>*" "x \<in> B" "y \<notin> B"
  obtains a b where "(a, b) \<in> R" "a \<in> B" "b \<notin> B" "(b, y) \<in> (R \<inter> (- B) \<times> (- B))\<^sup>*"
  using assms
proof (induction arbitrary: thesis rule: rtrancl_induct)
  case base
  then show ?case by blast
next
  case (step z y)
  show ?case
  proof (cases "z \<in> B")
    case True
    then show ?thesis using step.hyps(2) step.prems by blast
  next
    case False
    then obtain a b where "(a, b) \<in> R" "a \<in> B" "b \<notin> B" "(b, z) \<in> (R \<inter> (- B) \<times> (- B))\<^sup>*"
      using step.IH step.prems(2) by blast
    moreover have "(z, y) \<in> R \<inter> (- B) \<times> (- B)" using step False by simp
    ultimately show ?thesis using step.prems(1) by (meson rtrancl.rtrancl_into_rtrancl)
  qed
qed

lemma spans_exchange:
  fixes T :: "'w edge set"
  assumes T: "spans n T" "finite T" "T \<subseteq> E" and S: "S \<subseteq> T"
    and inside: "\<And>a b c. (a, b, c) \<in> S \<Longrightarrow> a \<in> B \<and> b \<in> B"
    and joined: "\<And>a b. a \<in> B \<Longrightarrow> b \<in> B \<Longrightarrow> (a, b) \<in> (links S)\<^sup>*"
    and e: "(x, y, w) \<in> E" "x \<in> B" "y \<notin> B" "x < n" "y < n"
    and symmetric: "\<And>a b c. (a, b, c) \<in> E \<Longrightarrow> (b, a, c) \<in> E"
    and light: "\<And>a b c. (a, b, c) \<in> E \<Longrightarrow> a \<in> B \<Longrightarrow> b \<notin> B \<Longrightarrow> val w \<le> val c"
  obtains T' where "spans n T'" "finite T'" "T' \<subseteq> E" "insert (x, y, w) S \<subseteq> T'"
    "total_weight val T' \<le> total_weight val T"
proof (cases "(x, y, w) \<in> T")
  case True
  then show thesis using T S by (intro that [of T]) auto
next
  case False
  have "(x, y) \<in> (links T)\<^sup>*" using T(1) e by (simp add: spans_def)
  then obtain a b where ab: "(a, b) \<in> links T" "a \<in> B" "b \<notin> B"
    "(b, y) \<in> (links T \<inter> (- B) \<times> (- B))\<^sup>*" using last_crossing e(2,3) by metis
  then obtain f c where f: "f \<in> T" "f = (a, b, c) \<or> f = (b, a, c)" by (auto simp: links_def)
  then have "(a, b, c) \<in> E" using T(3) symmetric by blast
  then have le: "val w \<le> val c" using light ab by blast
  let ?T = "insert (x, y, w) (T - {f})"
  have S': "S \<subseteq> T - {f}" using S inside f(2) ab(3) by blast
  have out: "links T \<inter> (- B) \<times> (- B) \<subseteq> links ?T"
    using f(2) ab(2) by (auto simp: links_def)
  have "(a, x) \<in> (links ?T)\<^sup>*"
    using joined [OF ab(2) e(2)] rtrancl_mono [OF links_mono, of S ?T] S' by blast
  moreover have "(x, y) \<in> links ?T" by (auto simp: links_def)
  moreover have "(y, b) \<in> (links ?T)\<^sup>*"
    using links_rtrancl_sym [of b y ?T] ab(4) rtrancl_mono [OF out] by blast
  ultimately have ab': "(a, b) \<in> (links ?T)\<^sup>*" by (meson rtrancl.rtrancl_into_rtrancl rtrancl_trans)
  have "links T \<subseteq> (links ?T)\<^sup>*"
  proof
    fix p assume "p \<in> links T"
    then obtain q r d where p: "p = (q, r)" "(q, r, d) \<in> T \<or> (r, q, d) \<in> T" by (auto simp: links_def)
    show "p \<in> (links ?T)\<^sup>*"
    proof (cases "(q, r, d) = f \<or> (r, q, d) = f")
      case True
      then have "p = (a, b) \<or> p = (b, a)" using f(2) p by auto
      then show ?thesis using ab' links_rtrancl_sym [OF ab'] by auto
    next
      case False
      then have "p \<in> links ?T" using p by (auto simp: links_def)
      then show ?thesis by auto
    qed
  qed
  then have "(links T)\<^sup>* \<subseteq> (links ?T)\<^sup>*" by (rule rtrancl_subset_rtrancl)
  then have "spans n ?T" using T(1) by (auto simp: spans_def)
  moreover have "finite ?T" "?T \<subseteq> E" "insert (x, y, w) S \<subseteq> ?T" using T e(1) S' by auto
  moreover have "total_weight val ?T \<le> total_weight val T"
  proof -
    have "(x, y, w) \<notin> T - {f}" using False by blast
    then show ?thesis
      using T(2) f le unfolding total_weight_def by (auto simp: sum_diff1)
  qed
  ultimately show thesis by (rule that)
qed

section \<open>myPrimMST\<close>

text \<open>
  The statements are those of \<open>myDijkstraSPT\<close> with the weight of the edge in the place of the sum of
  the weight and the distance: the vector of the distances has the weights of the edges to the parents.
\<close>

abbreviation edge_weight :: "'d distances \<Rightarrow> 'd distances" where
  "edge_weight D \<equiv> D\<lparr> d_add := (\<lambda>w d. w) \<rparr>"

definition my_prim_mst ::
  "('h, 'd::linorder) heap_class \<Rightarrow> 'd distances \<Rightarrow> 'd graph \<Rightarrow> nat \<Rightarrow> 'd list \<Rightarrow> nat list \<Rightarrow>
     ('d list \<times> nat list) res option" where
  "my_prim_mst H D g src zdistance zparent =
     sp_run H (edge_weight D) g src [0..<num_vertices g] zdistance zparent"

definition my_prim_mst_tree ::
  "('h, 'd::linorder) heap_class \<Rightarrow> 'd distances \<Rightarrow> 'd graph \<Rightarrow> nat \<Rightarrow> nat list \<Rightarrow> 'd list \<Rightarrow> nat list \<Rightarrow>
     ('d list \<times> nat list) res option" where
  "my_prim_mst_tree H D g src treeNodes zdistance zparent =
     sp_run H (edge_weight D) g src treeNodes zdistance zparent"

text \<open>The graphs it is for: undirected, without loops, with weights below the maximum.\<close>

definition undirected_ok :: "'d::linorder distances \<Rightarrow> 'd graph \<Rightarrow> bool" where
  "undirected_ok D g \<longleftrightarrow> (\<forall>u<length g. \<forall>(v, w)\<in>set (g ! u).
     v < length g \<and> v \<noteq> u \<and> w < d_max D \<and> (u, w) \<in> set (g ! v))"

lemma undirected_sym: "undirected_ok D g \<Longrightarrow> (a, b, c) \<in> graph_edges g \<Longrightarrow> (b, a, c) \<in> graph_edges g"
  by (auto simp: undirected_ok_def graph_edges_def)

section \<open>The invariant\<close>

text \<open>The vertices taken from the heap so far, and the edges to their parents.\<close>

definition pr_taken :: "nat option \<Rightarrow> 'd graph \<Rightarrow> ('h, 'd) spt \<Rightarrow> nat set" where
  "pr_taken cur g s = {v. v < length g \<and> (sp_color s ! v = Black \<or> cur = Some v)}"

definition tree_edges :: "nat \<Rightarrow> nat set \<Rightarrow> 'd list \<Rightarrow> nat list \<Rightarrow> 'd edge set" where
  "tree_edges src V ds ps = (\<lambda>v. (ps ! v, v, ds ! v)) ` (V - {src})"

text \<open>A set of edges is safe when every spanning set can be replaced by one that is not heavier and
  contains it.\<close>

definition safe_edges :: "('d \<Rightarrow> real) \<Rightarrow> 'd graph \<Rightarrow> 'd edge set \<Rightarrow> bool" where
  "safe_edges val g S \<longleftrightarrow> (\<forall>T\<subseteq>graph_edges g. spans (length g) T \<longrightarrow>
     (\<exists>T'\<subseteq>graph_edges g. spans (length g) T' \<and> S \<subseteq> T' \<and> total_weight val T' \<le> total_weight val T))"

definition pr_inv ::
  "('d \<Rightarrow> real) \<Rightarrow> 'd::linorder distances \<Rightarrow> 'd graph \<Rightarrow> nat \<Rightarrow> nat option \<Rightarrow> (nat \<rightharpoonup> 'd) \<Rightarrow> ('h, 'd) spt \<Rightarrow> bool" where
  "pr_inv val D g src cur m s \<longleftrightarrow> sp_vectors g s \<and> sp_keys cur m g s \<and> src < length g \<and>
     (\<forall>u. cur = Some u \<longrightarrow> u < length g \<and> sp_color s ! u = Gray) \<and>
     (src \<in> pr_taken cur g s \<or>
        cur = None \<and> (\<forall>v<length g. sp_color s ! v = (if v = src then Gray else White))) \<and>
     (\<forall>v<length g. sp_color s ! v = White \<longrightarrow> sp_distance s ! v = d_max D) \<and>
     (\<forall>v<length g. v \<noteq> src \<longrightarrow> sp_color s ! v \<noteq> White \<longrightarrow>
        sp_parent s ! v \<in> pr_taken cur g s \<and> (v, sp_distance s ! v) \<in> set (g ! (sp_parent s ! v))) \<and>
     (\<forall>b<length g. sp_color s ! b = Black \<longrightarrow>
        (\<forall>(v, w)\<in>set (g ! b). v \<notin> pr_taken cur g s \<longrightarrow> sp_distance s ! v \<le> w)) \<and>
     (\<forall>v\<in>pr_taken cur g s.
        (src, v) \<in> (links (tree_edges src (pr_taken cur g s) (sp_distance s) (sp_parent s)))\<^sup>*) \<and>
     safe_edges val g (tree_edges src (pr_taken cur g s) (sp_distance s) (sp_parent s))"

lemma pr_invD:
  assumes "pr_inv val D g src cur m s"
  shows "sp_vectors g s" "sp_keys cur m g s" "src < length g"
    and "\<And>u. cur = Some u \<Longrightarrow> u < length g \<and> sp_color s ! u = Gray"
    and "src \<in> pr_taken cur g s \<or>
        cur = None \<and> (\<forall>v<length g. sp_color s ! v = (if v = src then Gray else White))"
    and "\<And>v. v < length g \<Longrightarrow> sp_color s ! v = White \<Longrightarrow> sp_distance s ! v = d_max D"
    and "\<And>v. v < length g \<Longrightarrow> v \<noteq> src \<Longrightarrow> sp_color s ! v \<noteq> White \<Longrightarrow>
        sp_parent s ! v \<in> pr_taken cur g s \<and> (v, sp_distance s ! v) \<in> set (g ! (sp_parent s ! v))"
    and "\<And>b v w. b < length g \<Longrightarrow> sp_color s ! b = Black \<Longrightarrow> (v, w) \<in> set (g ! b) \<Longrightarrow>
        v \<notin> pr_taken cur g s \<Longrightarrow> sp_distance s ! v \<le> w"
    and "\<And>v. v \<in> pr_taken cur g s \<Longrightarrow>
        (src, v) \<in> (links (tree_edges src (pr_taken cur g s) (sp_distance s) (sp_parent s)))\<^sup>*"
    and "safe_edges val g (tree_edges src (pr_taken cur g s) (sp_distance s) (sp_parent s))"
  using assms unfolding pr_inv_def by blast+

lemma safe_edgesD:
  assumes "safe_edges val g S" "T \<subseteq> graph_edges g" "spans (length g) T"
  obtains T' where "T' \<subseteq> graph_edges g" "spans (length g) T'" "S \<subseteq> T'"
    "total_weight val T' \<le> total_weight val T"
proof -
  have "\<exists>T'\<subseteq>graph_edges g. spans (length g) T' \<and> S \<subseteq> T' \<and> total_weight val T' \<le> total_weight val T"
    using assms by (simp add: safe_edges_def)
  then show thesis by (elim exE conjE) (rule that)
qed

lemma tree_edges_insert:
  "u \<noteq> src \<Longrightarrow> tree_edges src (insert u V) ds ps = insert (ps ! u, u, ds ! u) (tree_edges src V ds ps)"
  by (auto simp: tree_edges_def)

lemma tree_edges_cong:
  "(\<And>v. v \<in> V \<Longrightarrow> ds ! v = ds' ! v \<and> ps ! v = ps' ! v) \<Longrightarrow>
   tree_edges src V ds ps = tree_edges src V ds' ps'"
  by (auto simp: tree_edges_def)

text \<open>The source is taken first; another vertex brings the lightest edge out of the vertices taken.\<close>

lemma pr_inv_take:
  assumes g: "undirected_ok D g" and val: "\<And>a b. a \<le> b \<Longrightarrow> val a \<le> val b"
    and inv: "pr_inv val D g src None m s" and u: "m u = Some k"
    and least: "\<And>v l. m v = Some l \<Longrightarrow> k \<le> l"
  shows "pr_inv val D g src (Some u) (m(u := None)) (s\<lparr> sp_heap := h \<rparr>)"
proof -
  note I = pr_invD [OF inv]
  have keys: "dom m \<subseteq> {..<length g}"
    "\<And>v. v < length g \<Longrightarrow> m v = (if sp_color s ! v = Gray then Some (sp_distance s ! v) else None)"
    using I(2) by (auto simp: sp_keys_def)
  have u_in: "u < length g" using keys(1) u by auto
  then have gray: "sp_color s ! u = Gray" "k = sp_distance s ! u"
    using keys(2) [of u] u by (auto split: if_splits)
  let ?V = "pr_taken None g s" let ?V' = "pr_taken (Some u) g (s\<lparr> sp_heap := h \<rparr>)"
  let ?S = "tree_edges src ?V (sp_distance s) (sp_parent s)"
  let ?S' = "tree_edges src ?V' (sp_distance s) (sp_parent s)"
  have V': "?V' = insert u ?V" using u_in by (auto simp: pr_taken_def)
  have u_out: "u \<notin> ?V" using gray by (simp add: pr_taken_def)
  have tree: "(\<forall>v\<in>?V'. (src, v) \<in> (links ?S')\<^sup>*) \<and> safe_edges val g ?S' \<and> src \<in> ?V'"
  proof (cases "u = src")
    case True
    then have "?V = {}" using I(5) u_out gray by (auto simp: pr_taken_def split: if_splits)
    then have "?V' = {src}" using V' True by simp
    then show ?thesis by (auto simp: tree_edges_def safe_edges_def)
  next
    case False
    then have src: "src \<in> ?V" using I(5) gray(1) u_in by auto
    let ?p = "sp_parent s ! u" let ?e = "(?p, u, sp_distance s ! u)"
    have p: "?p \<in> ?V" "(u, sp_distance s ! u) \<in> set (g ! ?p)" using I(7) [OF u_in False] gray by auto
    have S': "?S' = insert ?e ?S" unfolding V' by (rule tree_edges_insert [OF False])
    have mono: "(links ?S)\<^sup>* \<subseteq> (links ?S')\<^sup>*" unfolding S' by (intro rtrancl_mono links_mono) auto
    have "(src, ?p) \<in> (links ?S')\<^sup>*" using I(9) [OF p(1)] mono by blast
    moreover have "(?p, u) \<in> links ?S'" unfolding S' by (auto simp: links_def)
    ultimately have "(src, u) \<in> (links ?S')\<^sup>*" by (rule rtrancl_into_rtrancl)
    then have "\<forall>v\<in>?V'. (src, v) \<in> (links ?S')\<^sup>*" using I(9) mono unfolding V' by blast
    moreover have "safe_edges val g ?S'"
      unfolding safe_edges_def
    proof (intro allI impI)
      fix T assume T: "T \<subseteq> graph_edges g" "spans (length g) T"
      obtain T1 where T1: "T1 \<subseteq> graph_edges g" "spans (length g) T1" "?S \<subseteq> T1"
        "total_weight val T1 \<le> total_weight val T" by (rule safe_edgesD [OF I(10) T])
      obtain T2 where "spans (length g) T2" "finite T2" "T2 \<subseteq> graph_edges g" "insert ?e ?S \<subseteq> T2"
        "total_weight val T2 \<le> total_weight val T1"
      proof (rule spans_exchange [OF T1(2) _ T1(1,3), of ?V ?p u "sp_distance s ! u" val])
        show "finite T1" using T1(1) finite_graph_edges finite_subset by blast
        show "a \<in> ?V \<and> b \<in> ?V" if "(a, b, c) \<in> ?S" for a b c
          using that I(7) by (auto simp: tree_edges_def pr_taken_def)
        show "(a, b) \<in> (links ?S)\<^sup>*" if "a \<in> ?V" "b \<in> ?V" for a b
          using links_rtrancl_sym [OF I(9) [OF that(1)]] I(9) [OF that(2)] by (rule rtrancl_trans)
        show "?e \<in> graph_edges g" using p by (auto simp: graph_edges_def pr_taken_def)
        show "?p < length g" using p(1) by (simp add: pr_taken_def)
        show "(b, a, c) \<in> graph_edges g" if "(a, b, c) \<in> graph_edges g" for a b c
          using undirected_sym [OF g that] .
        show "val (sp_distance s ! u) \<le> val c" if e: "(a, b, c) \<in> graph_edges g" "a \<in> ?V" "b \<notin> ?V" for a b c
        proof (rule val)
          have ab: "a < length g" "(b, c) \<in> set (g ! a)" using e(1) by (auto simp: graph_edges_def)
          then have b: "b < length g" "c < d_max D" using g by (auto simp: undirected_ok_def)
          have le: "sp_distance s ! b \<le> c" using I(8) [OF ab(1) _ ab(2) e(3)] e(2) by (simp add: pr_taken_def)
          then have "sp_color s ! b \<noteq> White" using I(6) [OF b(1)] b(2) by auto
          then have "sp_color s ! b = Gray" using e(3) b(1) by (cases "sp_color s ! b") (auto simp: pr_taken_def)
          then show "sp_distance s ! u \<le> c" using least [of b] keys(2) [OF b(1)] gray(2) le by auto
        qed
      qed (use p u_in u_out in auto)
      then show "\<exists>T'\<subseteq>graph_edges g. spans (length g) T' \<and> ?S' \<subseteq> T' \<and> total_weight val T' \<le> total_weight val T"
        using T1(4) unfolding S' by (meson order_trans)
    qed
    ultimately show ?thesis using src V' by blast
  qed
  show ?thesis
    unfolding pr_inv_def
  proof (intro conjI)
    show "sp_keys (Some u) (m(u := None)) g (s\<lparr> sp_heap := h \<rparr>)" using keys by (auto simp: sp_keys_def)
    show "\<forall>v<length g. v \<noteq> src \<longrightarrow> sp_color (s\<lparr> sp_heap := h \<rparr>) ! v \<noteq> White \<longrightarrow>
        sp_parent (s\<lparr> sp_heap := h \<rparr>) ! v \<in> ?V' \<and>
        (v, sp_distance (s\<lparr> sp_heap := h \<rparr>) ! v) \<in> set (g ! (sp_parent (s\<lparr> sp_heap := h \<rparr>) ! v))"
      using I(7) unfolding V' by simp
    show "\<forall>b<length g. sp_color (s\<lparr> sp_heap := h \<rparr>) ! b = Black \<longrightarrow>
        (\<forall>(v, w)\<in>set (g ! b). v \<notin> ?V' \<longrightarrow> sp_distance (s\<lparr> sp_heap := h \<rparr>) ! v \<le> w)"
      using I(8) unfolding V' by auto
  qed (use I(1,3,6) tree u_in gray in \<open>auto simp: sp_vectors_def\<close>)
qed

lemma pr_inv_improve:
  assumes g: "undirected_ok D g"
    and inv: "pr_inv val D g src (Some u) m s" and edge: "(t, w) \<in> set (g ! u)"
    and better: "w < sp_distance s ! t" and unfinished: "sp_color s ! t \<noteq> Black"
  shows "pr_inv val D g src (Some u) (m(t \<mapsto> w)) (sp_improve t w u s)"
proof -
  note I = pr_invD [OF inv]
  let ?s = "sp_improve t w u s"
  have u: "u < length g" "sp_color s ! u = Gray" using I(4) by auto
  have t: "t < length g" "t \<noteq> u" using g u(1) edge by (auto simp: undirected_ok_def)
  note sim = sp_improve_simps [OF I(1) t(1), of w u]
  have V: "pr_taken (Some u) g ?s = pr_taken (Some u) g s" using unfinished t by (auto simp: pr_taken_def sim)
  have t_out: "t \<notin> pr_taken (Some u) g s" using unfinished t by (simp add: pr_taken_def)
  have S: "tree_edges src (pr_taken (Some u) g s) (sp_distance ?s) (sp_parent ?s) =
      tree_edges src (pr_taken (Some u) g s) (sp_distance s) (sp_parent s)"
    using t_out by (intro tree_edges_cong) (auto simp: sim)
  show ?thesis
    unfolding pr_inv_def V S
  proof (intro conjI)
    show "sp_vectors g ?s" by (rule sim(4))
    show "sp_keys (Some u) (m(t \<mapsto> w)) g ?s" using I(2) t by (auto simp: sp_keys_def sim)
    show "\<forall>v<length g. v \<noteq> src \<longrightarrow> sp_color ?s ! v \<noteq> White \<longrightarrow>
        sp_parent ?s ! v \<in> pr_taken (Some u) g s \<and> (v, sp_distance ?s ! v) \<in> set (g ! (sp_parent ?s ! v))"
      using I(7) u(1) edge by (auto simp: sim pr_taken_def)
    show "\<forall>b<length g. sp_color ?s ! b = Black \<longrightarrow>
        (\<forall>(v, w)\<in>set (g ! b). v \<notin> pr_taken (Some u) g s \<longrightarrow> sp_distance ?s ! v \<le> w)"
      using I(8) less_imp_le [OF better] by (fastforce simp: sim split: if_splits)
  qed (use I(3,5,6,9,10) u t in \<open>auto simp: sim\<close>)
qed

lemma pr_inv_finish:
  assumes inv: "pr_inv val D g src (Some u) m s"
    and edges: "\<forall>(v, w)\<in>set (g ! u). sp_color s ! v \<noteq> Black \<longrightarrow> sp_distance s ! v \<le> w"
    and targets: "\<forall>(v, w)\<in>set (g ! u). v < length g"
  shows "pr_inv val D g src None m (s\<lparr> sp_color := (sp_color s)[u := Black] \<rparr>)"
proof -
  note I = pr_invD [OF inv]
  let ?s = "s\<lparr> sp_color := (sp_color s)[u := Black] \<rparr>"
  have u: "u < length g" "sp_color s ! u = Gray" using I(4) by auto
  have len: "length (sp_color s) = length g" using I(1) by (simp add: sp_vectors_def)
  have col: "(sp_color s)[u := Black] ! v = (if v = u then Black else sp_color s ! v)" for v
    using u(1) len by (simp add: nth_list_update)
  have V: "pr_taken None g ?s = pr_taken (Some u) g s" using u(1) by (auto simp: pr_taken_def col)
  show ?thesis
    unfolding pr_inv_def V
  proof (intro conjI)
    show "sp_vectors g ?s" using I(1) by (simp add: sp_vectors_def)
    show "sp_keys None m g ?s" using I(2) by (auto simp: sp_keys_def col)
    show "\<forall>b<length g. sp_color ?s ! b = Black \<longrightarrow>
        (\<forall>(v, w)\<in>set (g ! b). v \<notin> pr_taken (Some u) g s \<longrightarrow> sp_distance ?s ! v \<le> w)"
    proof (intro allI impI)
      fix b assume b: "b < length g" "sp_color ?s ! b = Black"
      show "\<forall>(v, w)\<in>set (g ! b). v \<notin> pr_taken (Some u) g s \<longrightarrow> sp_distance ?s ! v \<le> w"
      proof (cases "b = u")
        case True
        then show ?thesis using edges targets by (auto simp: pr_taken_def)
      next
        case False
        then show ?thesis using I(8) b by (auto simp: col)
      qed
    qed
    show "src \<in> pr_taken (Some u) g s \<or>
        None = None \<and> (\<forall>v<length g. sp_color ?s ! v = (if v = src then Gray else White))"
      using I(5) by simp
    show "\<forall>v<length g. v \<noteq> src \<longrightarrow> sp_color ?s ! v \<noteq> White \<longrightarrow>
        sp_parent ?s ! v \<in> pr_taken (Some u) g s \<and> (v, sp_distance ?s ! v) \<in> set (g ! (sp_parent ?s ! v))"
      using I(7) u by (simp add: col)
    show "\<forall>v<length g. sp_color ?s ! v = White \<longrightarrow> sp_distance ?s ! v = d_max D"
      using I(6) by (simp add: col)
    show "safe_edges val g (tree_edges src (pr_taken (Some u) g s) (sp_distance ?s) (sp_parent ?s))"
      "\<forall>v\<in>pr_taken (Some u) g s.
        (src, v) \<in> (links (tree_edges src (pr_taken (Some u) g s) (sp_distance ?s) (sp_parent ?s)))\<^sup>*"
      using I(9,10) by simp_all
  qed (use I(3) in simp_all)
qed

text \<open>At the end every vertex of a connected graph has been taken.\<close>

lemma pr_inv_all_taken:
  assumes g: "undirected_ok D g" and inv: "pr_inv val D g src None Map.empty s"
    and connected: "spans (length g) (graph_edges g)"
  shows "pr_taken None g s = {..<length g}"
proof -
  note I = pr_invD [OF inv]
  have no_gray: "sp_color s ! v \<noteq> Gray" if "v < length g" for v
    using I(2) that by (auto simp: sp_keys_def split: if_splits)
  then have src: "src \<in> pr_taken None g s" using I(3,5) by force
  have "v \<in> pr_taken None g s" if v: "v < length g" for v
  proof (rule ccontr)
    assume out: "v \<notin> pr_taken None g s"
    have "(src, v) \<in> (links (graph_edges g))\<^sup>*" using connected I(3) v by (simp add: spans_def)
    then obtain a b where ab: "(a, b) \<in> links (graph_edges g)" "a \<in> pr_taken None g s" "b \<notin> pr_taken None g s"
      using last_crossing [OF _ src out] by metis
    then obtain c where "(a, b, c) \<in> graph_edges g" using undirected_sym [OF g] by (auto simp: links_def)
    then have e: "a < length g" "(b, c) \<in> set (g ! a)" by (auto simp: graph_edges_def)
    then have b: "b < length g" "c < d_max D" using g by (auto simp: undirected_ok_def)
    have "sp_distance s ! b \<le> c" using I(8) [OF e(1) _ e(2) ab(3)] ab(2) by (simp add: pr_taken_def)
    then have "sp_color s ! b \<noteq> White" using I(6) [OF b(1)] b(2) by auto
    then show False using no_gray [OF b(1)] ab(3) b(1) by (cases "sp_color s ! b") (auto simp: pr_taken_def)
  qed
  then show ?thesis by (auto simp: pr_taken_def)
qed

section \<open>The loop over any heap that keeps the contract\<close>

definition pr_ready ::
  "('h, 'd::linorder) heap_class \<Rightarrow> ('h \<Rightarrow> bool) \<Rightarrow> ('h \<Rightarrow> nat) \<Rightarrow> ('d \<Rightarrow> real) \<Rightarrow> 'd distances \<Rightarrow> 'd graph \<Rightarrow>
     nat \<Rightarrow> nat option \<Rightarrow> ('h, 'd) spt \<Rightarrow> bool" where
  "pr_ready H ok capacity val D g src cur s \<longleftrightarrow> ok (sp_heap s) \<and> capacity (sp_heap s) = length g \<and>
     pr_inv val D g src cur (hc_content H (sp_heap s)) s"

definition pr_progress :: "'d::linorder graph \<Rightarrow> ('h, 'd) spt \<Rightarrow> ('h, 'd) spt \<Rightarrow> bool" where
  "pr_progress g s s' \<longleftrightarrow> (\<forall>v<length g. sp_distance s' ! v \<le> sp_distance s ! v \<and>
     (sp_color s' ! v = Black \<longleftrightarrow> sp_color s ! v = Black))"

lemma pr_progress_trans: "pr_progress g s s1 \<Longrightarrow> pr_progress g s1 s2 \<Longrightarrow> pr_progress g s s2"
  unfolding pr_progress_def by (meson order_trans)

lemma pr_inv_heap [simp]: "pr_inv val D g src cur m (s\<lparr> sp_heap := h \<rparr>) = pr_inv val D g src cur m s"
  by (simp add: pr_inv_def sp_vectors_def sp_keys_def pr_taken_def)

context heap_contract
begin

lemma prim_relax_ok:
  assumes g: "undirected_ok D g" and ready: "pr_ready H ok capacity val D g src (Some u) s"
    and edge: "(t, w) \<in> set (g ! u)"
  obtains s' where "sp_relax H (edge_weight D) u (t, w) s = Inr s'"
    "pr_ready H ok capacity val D g src (Some u) s'" "pr_progress g s s'"
    "sp_color s' ! t \<noteq> Black \<longrightarrow> sp_distance s' ! t \<le> w"
proof -
  have h: "ok (sp_heap s)" "capacity (sp_heap s) = length g"
    and inv: "pr_inv val D g src (Some u) (hc_content H (sp_heap s)) s"
    using ready by (auto simp: pr_ready_def)
  note I = pr_invD [OF inv]
  have u: "u < length g" using I(4) by simp
  have t: "t < length g" "t \<noteq> u" using g u edge by (auto simp: undirected_ok_def)
  have "w = d_add (edge_weight D) w (sp_distance s ! u)" by simp
  note step = relax_step [OF h I(1,2) u t this]
  show thesis
  proof (cases "w < sp_distance s ! t \<and> sp_color s ! t \<noteq> Black")
    case False
    have "sp_relax H (edge_weight D) u (t, w) s = Inr s" using step unfolding if_not_P [OF False] .
    then show thesis using ready False by (intro that [of s]) (auto simp: pr_progress_def)
  next
    case True
    obtain h' where h': "sp_relax H (edge_weight D) u (t, w) s = Inr (sp_improve t w u s\<lparr> sp_heap := h' \<rparr>)"
      "ok h'" "capacity h' = length g" "hc_content H h' = (hc_content H (sp_heap s))(t \<mapsto> w)"
      using step unfolding if_P [OF True] by blast
    have "pr_ready H ok capacity val D g src (Some u) (sp_improve t w u s\<lparr> sp_heap := h' \<rparr>)"
      using pr_inv_improve [OF g inv edge] True h' by (simp add: pr_ready_def)
    then show thesis
      using h'(1) True by (intro that) (auto simp: pr_progress_def sp_improve_simps [OF I(1) t(1)] split: if_splits)
  qed
qed

lemma prim_relaxes_ok:
  assumes g: "undirected_ok D g"
    and "pr_ready H ok capacity val D g src (Some u) s" "set es \<subseteq> set (g ! u)"
  obtains s' where "rfold (sp_relax H (edge_weight D) u) es s = Inr s'"
    "pr_ready H ok capacity val D g src (Some u) s'" "pr_progress g s s'"
    "\<forall>(t, w)\<in>set es. sp_color s' ! t \<noteq> Black \<longrightarrow> sp_distance s' ! t \<le> w"
  using assms(2,3)
proof (induction es arbitrary: s thesis)
  case Nil
  then show ?case by (intro Nil(1) [of s]) (auto simp: pr_progress_def)
next
  case (Cons e es)
  obtain t w where e: "e = (t, w)" by (cases e)
  obtain s1 where s1: "sp_relax H (edge_weight D) u (t, w) s = Inr s1"
    "pr_ready H ok capacity val D g src (Some u) s1" "pr_progress g s s1"
    "sp_color s1 ! t \<noteq> Black \<longrightarrow> sp_distance s1 ! t \<le> w"
    using prim_relax_ok [OF g Cons.prems(2)] Cons.prems(3) unfolding e by auto
  obtain s2 where s2: "rfold (sp_relax H (edge_weight D) u) es s1 = Inr s2"
    "pr_ready H ok capacity val D g src (Some u) s2" "pr_progress g s1 s2"
    "\<forall>(t, w)\<in>set es. sp_color s2 ! t \<noteq> Black \<longrightarrow> sp_distance s2 ! t \<le> w"
    using Cons.IH [OF _ s1(2)] Cons.prems(3) by auto
  have "u < length g" using Cons.prems(2) pr_invD(4) unfolding pr_ready_def by blast
  then have "t < length g" using g Cons.prems(3) e by (auto simp: undirected_ok_def)
  then have "sp_color s2 ! t \<noteq> Black \<longrightarrow> sp_distance s2 ! t \<le> w"
    using s1(4) s2(3) unfolding pr_progress_def by (meson order_trans)
  then show ?case
    using s1(1) s2 pr_progress_trans [OF s1(3) s2(3)] by (intro Cons.prems(1) [of s2]) (auto simp: e)
qed

lemma prim_round_ok:
  assumes g: "undirected_ok D g" and val: "\<And>a b. a \<le> b \<Longrightarrow> val a \<le> val b"
    and ready: "pr_ready H ok capacity val D g src None s" and more: "0 < hc_n_items H (sp_heap s)"
  obtains s' where "sp_round H (edge_weight D) g s = Inr s'" "pr_ready H ok capacity val D g src None s'"
    "unfinished s' < unfinished s"
proof -
  have h: "ok (sp_heap s)" "capacity (sp_heap s) = length g"
    and inv: "pr_inv val D g src None (hc_content H (sp_heap s)) s"
    using ready by (auto simp: pr_ready_def)
  obtain u k h1 where del: "hc_delete_min H (sp_heap s) = Inr (u, h1)" "ok h1" "capacity h1 = capacity (sp_heap s)"
    "hc_content H (sp_heap s) u = Some k" "\<And>j l. hc_content H (sp_heap s) j = Some l \<Longrightarrow> k \<le> l"
    "hc_content H h1 = (hc_content H (sp_heap s))(u := None)"
    using deletes_min [OF h(1)] more n_items_pos [OF h(1)] by metis
  have "pr_inv val D g src (Some u) ((hc_content H (sp_heap s))(u := None)) (s\<lparr> sp_heap := h1 \<rparr>)"
    by (rule pr_inv_take [OF g val inv del(4,5)])
  then have taken: "pr_ready H ok capacity val D g src (Some u) (s\<lparr> sp_heap := h1 \<rparr>)"
    using del h(2) by (simp add: pr_ready_def)
  then have u: "u < length g" "sp_color s ! u = Gray"
    using pr_invD(4) unfolding pr_ready_def by fastforce+
  obtain s1 where s1: "rfold (sp_relax H (edge_weight D) u) (g ! u) (s\<lparr> sp_heap := h1 \<rparr>) = Inr s1"
    "pr_ready H ok capacity val D g src (Some u) s1" "pr_progress g (s\<lparr> sp_heap := h1 \<rparr>) s1"
    "\<forall>(t, w)\<in>set (g ! u). sp_color s1 ! t \<noteq> Black \<longrightarrow> sp_distance s1 ! t \<le> w"
    using prim_relaxes_ok [OF g taken subset_refl] .
  let ?s = "s1\<lparr> sp_color := (sp_color s1)[u := Black] \<rparr>"
  have len: "length (sp_color s) = length g" "length (sp_color s1) = length g"
    using inv s1(2) pr_invD(1) unfolding pr_ready_def sp_vectors_def by blast+
  have "\<forall>(v, w)\<in>set (g ! u). v < length g" using g u(1) by (auto simp: undirected_ok_def)
  then have "pr_ready H ok capacity val D g src None ?s"
    using s1(2,4) pr_inv_finish by (auto simp: pr_ready_def)
  moreover have "sp_round H (edge_weight D) g s = Inr ?s"
    using del(1) s1(1) u len by (simp add: sp_round_def out_edges_def)
  moreover have "unfinished ?s < unfinished s"
  proof -
    have "\<forall>v<length g. sp_color s ! v = Black \<longrightarrow> sp_color ?s ! v = Black"
      using s1(3) len u by (auto simp: pr_progress_def nth_list_update)
    moreover have "sp_color ?s ! u = Black" using u len by simp
    ultimately have "{v. v < length g \<and> sp_color ?s ! v \<noteq> Black} \<subset> {v. v < length g \<and> sp_color s ! v \<noteq> Black}"
      using u by (auto simp: psubset_eq)
    then show ?thesis
      unfolding unfinished_def length_filter_conv_card using len by (auto intro: psubset_card_mono)
  qed
  ultimately show thesis by (intro that)
qed

lemma prim_loop_ok:
  assumes g: "undirected_ok D g" and val: "\<And>a b. a \<le> b \<Longrightarrow> val a \<le> val b"
    and "pr_ready H ok capacity val D g src None s"
  obtains s' where "sp_loop H (edge_weight D) g s = Some (Inr s')" "pr_inv val D g src None Map.empty s'"
  using assms(3)
proof (induction "unfinished s" arbitrary: s thesis rule: less_induct)
  case less
  show ?case
  proof (cases "0 < hc_n_items H (sp_heap s)")
    case True
    obtain s1 where s1: "sp_round H (edge_weight D) g s = Inr s1" "pr_ready H ok capacity val D g src None s1"
      "unfinished s1 < unfinished s" using prim_round_ok [OF g val less.prems(2) True] .
    obtain s2 where s2: "sp_loop H (edge_weight D) g s1 = Some (Inr s2)" "pr_inv val D g src None Map.empty s2"
      using less.hyps [OF s1(3) _ s1(2)] by metis
    have "sp_loop H (edge_weight D) g s = sp_loop H (edge_weight D) g s1"
      using True s1(1) by (subst sp_loop.simps) simp
    then show ?thesis using s2 less.prems(1) by simp
  next
    case False
    then have "hc_content H (sp_heap s) = Map.empty"
      using less.prems(2) n_items_pos by (auto simp: pr_ready_def)
    then have "pr_inv val D g src None Map.empty s" using less.prems(2) by (simp add: pr_ready_def)
    moreover have "sp_loop H (edge_weight D) g s = Some (Inr s)" using False by (subst sp_loop.simps) simp
    ultimately show ?thesis by (intro less.prems(1))
  qed
qed

lemma prim_ok:
  fixes val :: "'k \<Rightarrow> real"
  assumes g: "undirected_ok D g" and val: "\<And>a b. a \<le> b \<Longrightarrow> val a \<le> val b"
    and src: "src < length g" and small: "length g < limit"
    and vs: "set vs = {..<length g}" and len: "length g \<le> length ds" "length g \<le> length ps"
  obtains s :: "('h, 'k) spt" where
    "sp_run H (edge_weight D) g src vs ds ps = Some (Inr (sp_distance s, sp_parent s))"
    "pr_inv val D g src None Map.empty s"
proof -
  obtain s where s: "sp_start H (edge_weight D) g src vs ds ps = Inr s" "ok (sp_heap s)"
    "capacity (sp_heap s) = length g" "hc_content H (sp_heap s) = [src \<mapsto> d_zero (edge_weight D)]" "sp_vectors g s"
    and col: "\<And>v. v < length g \<Longrightarrow> sp_color s ! v = (if v = src then Gray else White)"
    and dist: "\<And>v. v < length g \<Longrightarrow>
      sp_distance s ! v = (if v = src then d_zero (edge_weight D) else d_max (edge_weight D))"
    using start_step [OF src small vs len, of "edge_weight D"] by blast
  have none: "pr_taken None g s = {}" using col by (auto simp: pr_taken_def split: if_splits)
  have keys: "sp_keys None [src \<mapsto> d_zero D] g s" using src col dist by (auto simp: sp_keys_def)
  have safe: "safe_edges val g (tree_edges src {} (sp_distance s) (sp_parent s))"
    by (auto simp: safe_edges_def tree_edges_def)
  have "pr_inv val D g src None [src \<mapsto> d_zero D] s"
    unfolding pr_inv_def none using s(5) keys src col dist safe by (simp split: if_splits)
  then have "pr_ready H ok capacity val D g src None s" using s by (simp add: pr_ready_def)
  then obtain s' where "sp_loop H (edge_weight D) g s = Some (Inr s')" "pr_inv val D g src None Map.empty s'"
    by (rule prim_loop_ok [OF g val, rotated])
  then show thesis using s(1) by (intro that [of s']) (auto simp: sp_run_def)
qed

end

lemma pr_inv_result:
  assumes g: "undirected_ok D g" and inv: "pr_inv val D g src None Map.empty s"
    and connected: "spans (length g) (graph_edges g)"
    and nonneg: "\<forall>(u, v, w)\<in>graph_edges g. 0 \<le> val w"
  defines "T \<equiv> tree_edges src {..<length g} (sp_distance s) (sp_parent s)"
  shows "T \<subseteq> graph_edges g \<and> card T = length g - 1 \<and> spans (length g) T \<and>
    (\<forall>T'\<subseteq>graph_edges g. spans (length g) T' \<longrightarrow> total_weight val T \<le> total_weight val T')"
proof (intro conjI allI impI)
  note I = pr_invD [OF inv] and all = pr_inv_all_taken [OF g inv connected]
  have color: "sp_color s ! v \<noteq> White" if "v < length g" for v
  proof -
    have "v \<in> pr_taken None g s" unfolding all using that by simp
    then show ?thesis by (simp add: pr_taken_def)
  qed
  show "T \<subseteq> graph_edges g"
  proof
    fix e assume "e \<in> T"
    then obtain v where v: "v < length g" "v \<noteq> src" "e = (sp_parent s ! v, v, sp_distance s ! v)"
      by (auto simp: T_def tree_edges_def)
    show "e \<in> graph_edges g"
      using I(7) [OF v(1,2) color [OF v(1)]] unfolding v(3) all graph_edges_def by auto
  qed
  have "inj_on (\<lambda>v. (sp_parent s ! v, v, sp_distance s ! v)) ({..<length g} - {src})"
    by (auto simp: inj_on_def)
  then show "card T = length g - 1" unfolding T_def tree_edges_def using I(3) by (simp add: card_image)
  have "(src, v) \<in> (links T)\<^sup>*" if "v < length g" for v using I(9) that unfolding all T_def by simp
  then show "spans (length g) T"
    unfolding spans_def by (meson links_rtrancl_sym rtrancl_trans)
  fix T' assume T': "T' \<subseteq> graph_edges g" "spans (length g) T'"
  obtain T1 where T1: "T1 \<subseteq> graph_edges g" "T \<subseteq> T1" "total_weight val T1 \<le> total_weight val T'"
    using safe_edgesD [OF I(10) T'] unfolding all T_def by metis
  have "total_weight val T \<le> total_weight val T1"
    unfolding total_weight_def
    using T1(1,2) nonneg finite_subset [OF T1(1) finite_graph_edges]
    by (intro sum_mono2) auto
  then show "total_weight val T \<le> total_weight val T'" using T1(3) by simp
qed

end
