(* ===== verification/Fibonacci_Tree.thy ===== *)
theory Fibonacci_Tree
  imports Prelude "HOL-Library.Multiset"
begin

text \<open>
  The nodes of \<open>GraphLib/treealgs/fheap\<close>. A node is a tree: the circular list of its children is
  the list that starts at \<open>child\<close> and follows the \<open>right\<close> pointers, and the way up through the
  \<open>parent\<close> pointers is a list of frames, each with the siblings on the two sides. The address of a
  node is what the array of nodes of a heap refers to. Keys are ordered linearly (no NaN).
\<close>

section \<open>FHeapNode\<close>

datatype 'k fnode = FNode (fn_addr: nat) (fn_item: nat) (fn_key: 'k) (fn_rank: nat)
  (fn_marked: bool) (fn_children: "'k fnode list")

fun set_marked :: "bool \<Rightarrow> 'k fnode \<Rightarrow> 'k fnode" where
  "set_marked m (FNode a i k r _ cs) = FNode a i k r m cs"

fun set_key :: "'k \<Rightarrow> 'k fnode \<Rightarrow> 'k fnode" where
  "set_key k (FNode a i _ r m cs) = FNode a i k r m cs"

text \<open>
  The linking step of \<open>meld\<close>: \<open>temp\<close> becomes the first child of \<open>root\<close>. At rank 0 the pointer to
  the children is overwritten; at a greater rank it is dereferenced.
\<close>

fun link_trees :: "nat \<Rightarrow> 'k fnode \<Rightarrow> 'k fnode \<Rightarrow> 'k fnode res" where
  "link_trees r (FNode a i k _ m cs) temp =
     (if 0 < r \<and> cs = [] then Inl UndefinedBehaviour
      else Inr (FNode a i k (Suc r) m (set_marked False temp # (if 0 < r then cs else []))))"

section \<open>The way to a node\<close>

datatype 'k fframe = FFrame nat nat 'k nat bool "'k fnode list" "'k fnode list"

fun plug :: "'k fnode \<Rightarrow> 'k fframe list \<Rightarrow> 'k fnode" where
  "plug t [] = t"
| "plug t (FFrame a i k r m ls rs # fs) = plug (FNode a i k r m (ls @ t # rs)) fs"

fun find_node :: "nat \<Rightarrow> 'k fnode \<Rightarrow> 'k fframe list \<Rightarrow> ('k fnode \<times> 'k fframe list) option"
  and find_child :: "nat \<Rightarrow> nat \<Rightarrow> nat \<Rightarrow> 'k \<Rightarrow> nat \<Rightarrow> bool \<Rightarrow> 'k fnode list \<Rightarrow> 'k fnode list \<Rightarrow>
    'k fframe list \<Rightarrow> ('k fnode \<times> 'k fframe list) option" where
  "find_node x (FNode a i k r m cs) fs =
     (if a = x then Some (FNode a i k r m cs, fs) else find_child x a i k r m [] cs fs)"
| "find_child x a i k r m ls [] fs = None"
| "find_child x a i k r m ls (c # rs) fs =
     (case find_node x c (FFrame a i k r m ls rs # fs) of
        Some found \<Rightarrow> Some found
      | None \<Rightarrow> find_child x a i k r m (ls @ [c]) rs fs)"

text \<open>
  The cascade of \<open>decreaseKey\<close>: the loop from the parent of the node just cut. A marked parent is
  cut as well and goes to the front of the new roots; the first parent that is not marked is marked
  and stays where it is. The result is the list of new roots with the tree that remains, or with
  none when the root itself was cut.
\<close>

fun cascade :: "'k fnode list \<Rightarrow> 'k fframe list \<Rightarrow> 'k fnode list \<times> 'k fnode option" where
  "cascade roots [] = (roots, None)"
| "cascade roots (FFrame a i k r m ls rs # fs) =
     (let parent = FNode a i k (r - 1) m (if r - 1 = 0 then [] else ls @ rs)
      in if m then cascade (parent # roots) fs
         else (roots, Some (plug (set_marked True parent) fs)))"

section \<open>What a tree holds\<close>

text \<open>An entry is the address of a node with its item and its key.\<close>

type_synonym 'k fentry = "nat \<times> nat \<times> 'k"

fun tree_entries :: "'k fnode \<Rightarrow> 'k fentry multiset" where
  "tree_entries (FNode a i k r m cs) = add_mset (a, i, k) (sum_list (map tree_entries cs))"

abbreviation forest_entries :: "'k fnode list \<Rightarrow> 'k fentry multiset" where
  "forest_entries ts \<equiv> sum_list (map tree_entries ts)"

fun frames_entries :: "'k fframe list \<Rightarrow> 'k fentry multiset" where
  "frames_entries [] = {#}"
| "frames_entries (FFrame a i k r m ls rs # fs) =
     add_mset (a, i, k) (forest_entries ls + forest_entries rs + frames_entries fs)"

fun node_entry :: "'k fnode \<Rightarrow> 'k fentry" where
  "node_entry (FNode a i k r m cs) = (a, i, k)"

lemma node_entry_alt: "node_entry t = (fn_addr t, fn_item t, fn_key t)"
  by (cases t) simp

lemma node_entry_in [simp, intro]: "node_entry t \<in># tree_entries t"
  by (cases t) simp

lemma forest_entries_iff:
  "e \<in># forest_entries ts \<longleftrightarrow> (\<exists>t\<in>set ts. e \<in># tree_entries t)"
  by (induction ts) auto

lemma set_marked_simps [simp]:
  "fn_addr (set_marked m t) = fn_addr t" "fn_item (set_marked m t) = fn_item t"
  "fn_key (set_marked m t) = fn_key t" "fn_rank (set_marked m t) = fn_rank t"
  "fn_marked (set_marked m t) = m" "fn_children (set_marked m t) = fn_children t"
  "tree_entries (set_marked m t) = tree_entries t"
  by (cases t; simp)+

lemma set_key_simps [simp]:
  "fn_addr (set_key k t) = fn_addr t" "fn_item (set_key k t) = fn_item t"
  "fn_key (set_key k t) = k" "fn_rank (set_key k t) = fn_rank t"
  "fn_marked (set_key k t) = fn_marked t" "fn_children (set_key k t) = fn_children t"
  by (cases t; simp)+

lemma set_key_entries:
  "add_mset (node_entry t) (tree_entries (set_key k t)) =
   add_mset (fn_addr t, fn_item t, k) (tree_entries t)"
  by (cases t) simp

lemma plug_entries: "tree_entries (plug t fs) = tree_entries t + frames_entries fs"
  by (induction t fs rule: plug.induct) (auto simp: add_ac)

lemma find_node_plug:
  "find_node x t fs = Some (c, gs) \<Longrightarrow> fn_addr c = x \<and> plug c gs = plug t fs"
  "find_child x a i k r m ls rs fs = Some (c, gs) \<Longrightarrow>
     fn_addr c = x \<and> plug c gs = plug (FNode a i k r m (ls @ rs)) fs"
  by (induction x t fs and x a i k r m ls rs fs rule: find_node_find_child.induct)
     (auto split: if_splits option.splits)

lemma find_node_none:
  "find_node x t fs = None \<Longrightarrow> x \<notin> fst ` set_mset (tree_entries t)"
  "find_child x a i k r m ls rs fs = None \<Longrightarrow> x \<notin> fst ` set_mset (forest_entries rs)"
  by (induction x t fs and x a i k r m ls rs fs rule: find_node_find_child.induct)
     (auto split: if_splits option.splits)

section \<open>Well-formed trees\<close>

text \<open>
  The rank is the number of children, no child has a smaller key, and a child that was linked as the
  \<open>n\<close>-th one had rank \<open>n\<close> at that time and has lost at most one child since, being marked then.
\<close>

definition mark_bonus :: "'k fnode \<Rightarrow> nat" where
  "mark_bonus t = (if fn_marked t then 1 else 0)"

fun children_ranked :: "'k fnode list \<Rightarrow> bool" where
  "children_ranked [] \<longleftrightarrow> True"
| "children_ranked (c # cs) \<longleftrightarrow> length cs \<le> fn_rank c + mark_bonus c \<and> children_ranked cs"

fun tree_ok :: "'k::linorder fnode \<Rightarrow> bool" where
  "tree_ok (FNode a i k r m cs) \<longleftrightarrow>
     r = length cs \<and> children_ranked cs \<and> (\<forall>c\<in>set cs. k \<le> fn_key c \<and> tree_ok c)"

lemma tree_ok_set_marked [simp]: "tree_ok (set_marked m t) = tree_ok t"
  by (cases t) simp

lemma tree_ok_set_key: "tree_ok t \<Longrightarrow> k \<le> fn_key t \<Longrightarrow> tree_ok (set_key k t)"
  by (cases t) (auto intro: order_trans)

lemma tree_ok_rank: "tree_ok t \<Longrightarrow> fn_rank t = length (fn_children t)"
  by (cases t) simp

lemma tree_ok_child: "tree_ok t \<Longrightarrow> c \<in> set (fn_children t) \<Longrightarrow> tree_ok c"
  by (cases t) simp

lemma tree_min:
  "tree_ok t \<Longrightarrow> e \<in># tree_entries t \<Longrightarrow> fn_key t \<le> snd (snd e)"
proof (induction t)
  case (FNode a i k r m cs)
  then show ?case by (fastforce simp: forest_entries_iff elim: order_trans)
qed

lemma children_ranked_remove:
  "children_ranked (ls @ t # rs) \<Longrightarrow> children_ranked (ls @ rs)"
  by (induction ls) auto

lemma children_ranked_replace:
  "children_ranked (ls @ t # rs) \<Longrightarrow> fn_rank t + mark_bonus t \<le> fn_rank t' + mark_bonus t' \<Longrightarrow>
   children_ranked (ls @ t' # rs)"
  by (induction ls) auto

lemma tree_ok_plugD: "tree_ok (plug t fs) \<Longrightarrow> tree_ok t"
  by (induction t fs rule: plug.induct) auto

lemma tree_ok_plug_replace:
  assumes "tree_ok (plug t fs)" "tree_ok t'" "fn_key t \<le> fn_key t'"
    and "fn_rank t + mark_bonus t \<le> fn_rank t' + mark_bonus t'"
  shows "tree_ok (plug t' fs)"
proof (cases fs)
  case (Cons f gs)
  obtain a i k r m ls rs where f: "f = FFrame a i k r m ls rs" by (cases f)
  show ?thesis
    using assms unfolding Cons f
  proof (simp, induction gs arbitrary: a i k r m ls rs t t')
    case Nil
    then show ?case by (auto intro: order_trans children_ranked_replace)
  next
    case (Cons g gs)
    obtain b j l q n ms ns where g: "g = FFrame b j l q n ms ns" by (cases g)
    have "tree_ok (FNode a i k r m (ls @ t # rs))"
      using Cons.prems(1) by (rule tree_ok_plugD)
    then have "tree_ok (FNode a i k r m (ls @ t' # rs))"
      using Cons.prems(2-) by (auto intro: order_trans children_ranked_replace)
    then show ?case
      using Cons.prems(1) unfolding g by (simp add: Cons.IH mark_bonus_def)
  qed
qed (use assms in simp)

section \<open>The cascade keeps trees well-formed\<close>

lemma tree_ok_cut_child:
  assumes "tree_ok (FNode a i k r m (ls @ t # rs))"
  shows "tree_ok (FNode a i k (r - 1) m' (if r - 1 = 0 then [] else ls @ rs))"
    and "(if r - 1 = 0 then [] else ls @ rs) = ls @ rs" and "0 < r"
  using assms by (auto intro: children_ranked_remove)

lemma cascade_entries:
  assumes "tree_ok (plug c fs)" "cascade roots fs = (roots', rest)"
  shows "forest_entries roots' + (case rest of None \<Rightarrow> {#} | Some t \<Rightarrow> tree_entries t)
         = forest_entries roots + frames_entries fs"
  using assms
proof (induction roots fs arbitrary: c rule: cascade.induct)
  case (2 roots a i k r m ls rs fs)
  have ok: "tree_ok (FNode a i k r m (ls @ c # rs))"
    using 2(2) unfolding plug.simps by (rule tree_ok_plugD)
  note cut = tree_ok_cut_child(2) [OF ok]
  show ?case
  proof (cases m)
    case True
    then show ?thesis
      using 2(1) [OF refl True, of "FNode a i k r m (ls @ c # rs)"] 2(2,3) cut
      by (simp add: add_ac Let_def)
  next
    case False
    then show ?thesis using 2(3) cut by (auto simp: plug_entries add_ac Let_def)
  qed
qed simp

lemma cascade_ok:
  assumes "tree_ok (plug c fs)" "cascade roots fs = (roots', rest)" "\<forall>t\<in>set roots. tree_ok t"
  shows "(\<forall>t\<in>set roots'. tree_ok t) \<and> (\<forall>t. rest = Some t \<longrightarrow> tree_ok t)"
  using assms
proof (induction roots fs arbitrary: c rule: cascade.induct)
  case (2 roots a i k r m ls rs fs)
  let ?p = "FNode a i k (r - 1) m (if r - 1 = 0 then [] else ls @ rs)"
  have ok: "tree_ok (FNode a i k r m (ls @ c # rs))"
    using 2(2) unfolding plug.simps by (rule tree_ok_plugD)
  note cut = tree_ok_cut_child [OF ok]
  show ?case
  proof (cases m)
    case True
    have roots: "\<forall>t\<in>set (?p # roots). tree_ok t"
      unfolding list.set ball_simps using cut(1) [of m] 2(4) by blast
    show ?thesis
    proof (rule 2(1) [OF refl True _ _ roots])
      show "tree_ok (plug (FNode a i k r m (ls @ c # rs)) fs)"
        using 2(2) unfolding plug.simps .
      show "cascade (?p # roots) fs = (roots', rest)"
        using 2(3) True by (simp only: cascade.simps Let_def if_True)
    qed
  next
    case False
    have "tree_ok (plug (set_marked True ?p) fs)"
    proof (rule tree_ok_plug_replace [of "FNode a i k r m (ls @ c # rs)" fs])
      show "tree_ok (set_marked True ?p)"
        unfolding tree_ok_set_marked by (rule cut(1))
    qed (use 2(2) False cut(3) in \<open>simp_all add: mark_bonus_def\<close>)
    then show ?thesis using 2(3,4) False by (auto simp: Let_def)
  qed
qed simp

text \<open>A root is always marked; the cascade either leaves its rank and its mark alone or cuts it.\<close>

lemma plug_root_same:
  "fs \<noteq> [] \<Longrightarrow> fn_rank (plug t fs) = fn_rank (plug t' fs) \<and> fn_marked (plug t fs) = fn_marked (plug t' fs)"
proof (induction fs arbitrary: t t')
  case (Cons f fs)
  then show ?case by (cases f; cases fs) auto
qed simp

lemma cascade_rest:
  assumes "cascade roots fs = (roots', Some t)" "fn_marked (plug c fs)"
  shows "fn_rank t = fn_rank (plug c fs) \<and> fn_marked t"
  using assms
proof (induction roots fs arbitrary: c rule: cascade.induct)
  case (2 roots a i k r m ls rs fs)
  show ?case
  proof (cases m)
    case True
    then show ?thesis
      using 2(1) [OF refl True, of "FNode a i k r m (ls @ c # rs)"] 2(2,3) by (simp add: Let_def)
  next
    case False
    then have "fs \<noteq> []" using 2(3) by auto
    then show ?thesis
      using 2(2,3) False plug_root_same by (auto simp: Let_def)
  qed
qed simp

lemma cascade_root_cut:
  assumes "cascade roots fs = (roots', None)" "tree_ok (plug c fs)" "fs \<noteq> []"
  shows "roots' \<noteq> [] \<and> fn_rank (hd roots') + 1 = fn_rank (plug c fs)"
  using assms
proof (induction roots fs arbitrary: c rule: cascade.induct)
  case (2 roots a i k r m ls rs fs)
  have ok: "tree_ok (FNode a i k r m (ls @ c # rs))"
    using 2(3) unfolding plug.simps by (rule tree_ok_plugD)
  have m: m using 2(2) by (auto simp: Let_def split: if_splits)
  show ?case
  proof (cases fs)
    case Nil
    then show ?thesis using 2(2) m tree_ok_cut_child(3) [OF ok] by (auto simp: Let_def)
  next
    case Cons
    then show ?thesis
      using 2(1) [OF refl m, of "FNode a i k r m (ls @ c # rs)"] 2(2,3) m by (simp add: Let_def)
  qed
qed simp

section \<open>The size of a tree of given rank\<close>

fun fib :: "nat \<Rightarrow> nat" where
  "fib 0 = 0"
| "fib (Suc 0) = 1"
| "fib (Suc (Suc n)) = fib n + fib (Suc n)"

lemma fib_Suc_mono: "fib n \<le> fib (Suc n)"
  by (cases n rule: fib.cases) auto

lemma fib_mono: "m \<le> n \<Longrightarrow> fib m \<le> fib n"
  using lift_Suc_mono_le [of fib] fib_Suc_mono by blast

lemma children_size:
  assumes "children_ranked cs" "\<And>c. c \<in> set cs \<Longrightarrow> fib (fn_rank c + 2) \<le> size (tree_entries c)"
  shows "fib (length cs + 2) \<le> Suc (size (forest_entries cs))"
  using assms
proof (induction cs)
  case (Cons c cs)
  have "fib (Suc (length cs)) \<le> fib (fn_rank c + 2)"
    using Cons.prems(1) by (intro fib_mono) (auto simp: mark_bonus_def split: if_splits)
  also have "\<dots> \<le> size (tree_entries c)" using Cons.prems(2) by simp
  finally show ?case using Cons by simp
qed simp

lemma tree_size: "tree_ok t \<Longrightarrow> fib (fn_rank t + 2) \<le> size (tree_entries t)"
proof (induction t)
  case (FNode a i k r m cs)
  then show ?case using children_size [of cs] by simp
qed

section \<open>Linking\<close>

lemma link_trees_ok:
  assumes "tree_ok root" "tree_ok temp" "fn_rank root = r" "fn_rank temp = r"
    and "fn_key root \<le> fn_key temp"
  obtains t where "link_trees r root temp = Inr t" "tree_ok t" "fn_rank t = Suc r"
    "tree_entries t = tree_entries root + tree_entries temp" "fn_marked t = fn_marked root"
proof -
  obtain a i k q m cs where root: "root = FNode a i k q m cs" by (cases root)
  have r: "r = length cs" "q = r" using assms unfolding root by auto
  show thesis
  proof (rule that [of "FNode a i k (Suc r) m (set_marked False temp # cs)"])
    show "link_trees r root temp = Inr (FNode a i k (Suc r) m (set_marked False temp # cs))"
      by (simp add: root r)
  qed (use assms in \<open>auto simp: root r mark_bonus_def add_ac\<close>)
qed

end
