(* ===== verification/Fibonacci_Heap.thy ===== *)
theory Fibonacci_Heap
  imports Fibonacci_Tree Heap_Interface Complex_Main "HOL-Library.Log_Nat"
begin

text \<open>
  \<open>GraphLib/treealgs/fheap\<close>: the Fibonacci heap with its array of roots by rank and its array of
  nodes by item. A node is allocated with the next address. Arrays are lists; an index outside, a
  null pointer that is followed, a shift by 31 or more and an overflow are undefined behaviour.
\<close>

section \<open>FHeap\<close>

record 'k fheap =
  fh_trees :: "'k fnode option list"
  fh_nodes :: "nat option list"
  fh_max_nodes :: nat
  fh_max_trees :: nat
  fh_item_count :: int
  fh_tree_sum :: int
  fh_comp_count :: int
  fh_next :: nat

definition max_trees_for :: "nat \<Rightarrow> nat" where
  "max_trees_for n = 1 + nat \<lfloor>1.44 * log 2 (real n)\<rfloor>"

definition fh_new :: "nat \<Rightarrow> 'k fheap res" where
  "fh_new n = (if n = 0 then Inl UndefinedBehaviour
     else Inr \<lparr> fh_trees = replicate (max_trees_for n) None, fh_nodes = replicate n None,
                fh_max_nodes = n, fh_max_trees = max_trees_for n, fh_item_count = 0,
                fh_tree_sum = 0, fh_comp_count = 0, fh_next = 0 \<rparr>)"

text \<open>\<open>treeSum\<close> is an \<open>int\<close>.\<close>

definition shift_one :: "nat \<Rightarrow> int res" where
  "shift_one r = (if r < 31 then Inr (2 ^ r) else Inl UndefinedBehaviour)"

definition sum_plus :: "int \<Rightarrow> nat \<Rightarrow> int res" where
  "sum_plus v r = rbind (shift_one r) (\<lambda>b. int_result (v + b))"

definition sum_minus :: "int \<Rightarrow> nat \<Rightarrow> int res" where
  "sum_minus v r = rbind (shift_one r) (\<lambda>b. int_result (v - b))"

definition put_tree :: "nat \<Rightarrow> 'k fnode option \<Rightarrow> 'k fheap \<Rightarrow> 'k fheap res" where
  "put_tree r t h = (if r < length (fh_trees h) then Inr (h\<lparr> fh_trees := (fh_trees h)[r := t] \<rparr>)
     else Inl UndefinedBehaviour)"

definition put_node :: "nat \<Rightarrow> nat option \<Rightarrow> 'k fheap \<Rightarrow> 'k fheap res" where
  "put_node i a h = (if i < length (fh_nodes h) then Inr (h\<lparr> fh_nodes := (fh_nodes h)[i := a] \<rparr>)
     else Inl UndefinedBehaviour)"

text \<open>
  \<open>meld\<close>: the inner loop puts one tree into the array, linking it with the tree of the same rank
  as long as there is one; the outer loop goes through the list of trees.
\<close>

function place :: "nat \<Rightarrow> 'k::linorder fnode \<Rightarrow> 'k fheap \<Rightarrow> 'k fheap res" where
  "place r newRoot h =
     (if length (fh_trees h) \<le> r then Inl UndefinedBehaviour
      else case fh_trees h ! r of
        Some temp \<Rightarrow>
          rbind (sum_minus (fh_tree_sum h) r) (\<lambda>v.
          let (upper, lower) = (if fn_key temp < fn_key newRoot then (temp, newRoot) else (newRoot, temp))
          in rbind (link_trees r upper lower) (\<lambda>joined.
             place (Suc r) joined (h\<lparr> fh_trees := (fh_trees h)[r := None], fh_tree_sum := v,
                                       fh_comp_count := fh_comp_count h + 1 \<rparr>)))
      | None \<Rightarrow>
          rbind (sum_plus (fh_tree_sum h) r) (\<lambda>v.
            Inr (h\<lparr> fh_trees := (fh_trees h)[r := Some (set_marked True newRoot)], fh_tree_sum := v \<rparr>)))"
  by pat_completeness auto
termination
  by (relation "measure (\<lambda>(r, newRoot, h). length (fh_trees h) - r)") auto

declare place.simps [simp del]

definition meld :: "'k::linorder fnode list \<Rightarrow> 'k fheap \<Rightarrow> 'k fheap res" where
  "meld = rfold (\<lambda>t. place (fn_rank t) t)"

definition fh_insert :: "nat \<Rightarrow> 'k::linorder \<Rightarrow> 'k fheap \<Rightarrow> 'k fheap res" where
  "fh_insert item k h =
     (let new = FNode (fh_next h) item k 0 False []
      in rbind (put_node item (Some (fh_next h)) (h\<lparr> fh_next := fh_next h + 1 \<rparr>)) (\<lambda>h1.
         rbind (meld [new] h1) (\<lambda>h2.
         Inr (h2\<lparr> fh_item_count := fh_item_count h2 + 1 \<rparr>))))"

text \<open>
  The search for the minimum: \<open>while(v) { v = v >> 1; r++; }\<close> gives the greatest rank (the loop does
  not end for a negative sum), then the roots are compared from there down.
\<close>

function top_rank :: "int \<Rightarrow> int \<Rightarrow> int res" where
  "top_rank v r = (if v = 0 then Inr r else if v < 0 then Inl UndefinedBehaviour
     else top_rank (v div 2) (r + 1))"
  by pat_completeness auto
termination by (relation "measure (\<lambda>(v, r). nat v)") auto

declare top_rank.simps [simp del]

fun min_scan :: "'k::linorder fnode option list \<Rightarrow> nat \<Rightarrow> 'k fnode \<Rightarrow> int \<Rightarrow> 'k fnode \<times> int" where
  "min_scan ts 0 best comps = (best, comps)"
| "min_scan ts (Suc r) best comps =
     (case ts ! r of
        None \<Rightarrow> min_scan ts r best comps
      | Some candidate \<Rightarrow>
          min_scan ts r (if fn_key candidate < fn_key best then candidate else best) (comps + 1))"

definition find_min :: "'k::linorder fheap \<Rightarrow> ('k fnode \<times> int) res" where
  "find_min h = rbind (top_rank (fh_tree_sum h) (- 1)) (\<lambda>r.
     if r < 0 \<or> int (length (fh_trees h)) \<le> r then Inl UndefinedBehaviour
     else case fh_trees h ! nat r of
       None \<Rightarrow> Inl UndefinedBehaviour
     | Some t \<Rightarrow> Inr (min_scan (fh_trees h) (nat r) t (fh_comp_count h)))"

definition fh_get_min :: "'k::linorder fheap \<Rightarrow> ((nat \<times> 'k) \<times> 'k fheap) res" where
  "fh_get_min h = rbind (find_min h) (\<lambda>(t, comps).
     Inr ((fn_item t, fn_key t), h\<lparr> fh_comp_count := comps \<rparr>))"

definition fh_delete_minimum :: "'k::linorder fheap \<Rightarrow> ((nat \<times> 'k) \<times> 'k fheap) res" where
  "fh_delete_minimum h = rbind (find_min h) (\<lambda>(minNode, comps).
     rbind (put_tree (fn_rank minNode) None (h\<lparr> fh_comp_count := comps \<rparr>)) (\<lambda>h1.
     rbind (sum_minus (fh_tree_sum h1) (fn_rank minNode)) (\<lambda>v.
     rbind (meld (fn_children minNode) (h1\<lparr> fh_tree_sum := v \<rparr>)) (\<lambda>h2.
     rbind (put_node (fn_item minNode) None h2) (\<lambda>h3.
       Inr ((fn_item minNode, fn_key minNode), h3\<lparr> fh_item_count := fh_item_count h3 - 1 \<rparr>))))))"

definition fh_delete_min :: "'k::linorder fheap \<Rightarrow> (nat \<times> 'k fheap) res" where
  "fh_delete_min h = rbind (find_min h) (\<lambda>(minNode, comps).
     rbind (put_tree (fn_rank minNode) None (h\<lparr> fh_comp_count := comps \<rparr>)) (\<lambda>h1.
     rbind (sum_minus (fh_tree_sum h1) (fn_rank minNode)) (\<lambda>v.
     rbind (meld (fn_children minNode) (h1\<lparr> fh_tree_sum := v \<rparr>)) (\<lambda>h2.
     rbind (put_node (fn_item minNode) None h2) (\<lambda>h3.
       Inr (fn_item minNode, h3\<lparr> fh_item_count := fh_item_count h3 - 1 \<rparr>))))))"

text \<open>
  \<open>nodes[item]\<close> and what it points to: the slot of the tree with the node, the node, and the way up
  through its parents.
\<close>

fun find_tree :: "nat \<Rightarrow> nat \<Rightarrow> 'k fnode option list \<Rightarrow>
    (nat \<times> 'k fnode \<times> 'k fframe list) option" where
  "find_tree x r [] = None"
| "find_tree x r (None # ts) = find_tree x (Suc r) ts"
| "find_tree x r (Some t # ts) =
     (case find_node x t [] of
        Some (c, fs) \<Rightarrow> Some (r, c, fs)
      | None \<Rightarrow> find_tree x (Suc r) ts)"

definition node_of :: "nat \<Rightarrow> 'k fheap \<Rightarrow> (nat \<times> 'k fnode \<times> 'k fframe list) res" where
  "node_of item h =
     (if length (fh_nodes h) \<le> item then Inl UndefinedBehaviour
      else case fh_nodes h ! item of
        None \<Rightarrow> Inl UndefinedBehaviour
      | Some a \<Rightarrow> (case find_tree a 0 (fh_trees h) of
          None \<Rightarrow> Inl UndefinedBehaviour
        | Some found \<Rightarrow> Inr found))"

definition fh_get_key :: "nat \<Rightarrow> 'k fheap \<Rightarrow> 'k res" where
  "fh_get_key item h = rbind (node_of item h) (\<lambda>(r, c, fs). Inr (fn_key c))"

definition fh_decrease_key :: "nat \<Rightarrow> 'k::linorder \<Rightarrow> 'k fheap \<Rightarrow> 'k fheap res" where
  "fh_decrease_key item newValue h = rbind (node_of item h) (\<lambda>(r, cutNode, parents).
     if parents = [] then Inr (h\<lparr> fh_trees := (fh_trees h)[r := Some (set_key newValue cutNode)] \<rparr>)
     else case cascade [set_key newValue cutNode] parents of
       (newRoots, None) \<Rightarrow>
         rbind (put_tree (fn_rank (hd newRoots) + 1) None h) (\<lambda>h1.
         rbind (sum_minus (fh_tree_sum h1) (fn_rank (hd newRoots) + 1)) (\<lambda>v.
           meld newRoots (h1\<lparr> fh_tree_sum := v \<rparr>)))
     | (newRoots, Some t) \<Rightarrow> meld newRoots (h\<lparr> fh_trees := (fh_trees h)[r := Some t] \<rparr>))"

definition fh_n_items :: "'k fheap \<Rightarrow> int" where
  "fh_n_items h = fh_item_count h"

definition fh_n_comps :: "'k fheap \<Rightarrow> int" where
  "fh_n_comps h = fh_comp_count h"

text \<open>\<open>HeapD<FHeap>\<close>, and the nodes the destructor deletes.\<close>

definition fheap_class :: "('k::linorder fheap, 'k) heap_class" where
  "fheap_class = \<lparr> hc_new_instance = fh_new, hc_delete_min = fh_delete_min,
     hc_delete_minimum = fh_delete_minimum, hc_insert = fh_insert, hc_decrease_key = fh_decrease_key,
     hc_get_key = fh_get_key, hc_n_items = fh_n_items, hc_n_comps = fh_n_comps \<rparr>"

definition fh_destroyed :: "'k fheap \<Rightarrow> nat list" where
  "fh_destroyed h = List.map_filter (\<lambda>i. fh_nodes h ! i) [0..<fh_max_nodes h]"

section \<open>How many ranks there are\<close>

lemma max_trees_eval:
  assumes "0 < n"
  shows "max_trees_for n = 1 + (floorlog 2 (n ^ 36) - 1) div 25"
proof -
  have "1.44 * log 2 (real n) = log 2 (real (n ^ 36)) / real_of_int 25"
    using assms by (simp add: log_nat_power)
  then have "\<lfloor>1.44 * log 2 (real n)\<rfloor> = \<lfloor>log 2 (real (n ^ 36))\<rfloor> div 25"
    using floor_divide_real_eq_div [of 25 "log 2 (real (n ^ 36))"] by simp
  then show ?thesis
    using assms by (simp add: max_trees_for_def floorlog_def nat_div_distrib)
qed

lemma max_trees_code [code]:
  "max_trees_for n = (if n = 0 then max_trees_for 0 else 1 + (floorlog 2 (n ^ 36) - 1) div 25)"
  using max_trees_eval [of n] by simp

text \<open>The Fibonacci numbers by iteration, for their computation.\<close>

fun fib_iter :: "nat \<Rightarrow> nat \<Rightarrow> nat \<Rightarrow> nat" where
  "fib_iter 0 a b = a"
| "fib_iter (Suc n) a b = fib_iter n b (a + b)"

lemma fib_iter: "fib_iter n (fib m) (fib (Suc m)) = fib (n + m)"
proof (induction n arbitrary: m)
  case (Suc n)
  then show ?case using Suc.IH [of "Suc m"] by simp
qed simp

lemma fib_iter_numeral [simp]: "fib_iter (numeral k) a b = fib_iter (pred_numeral k) b (a + b)"
  by (simp add: numeral_eq_Suc)

lemma fib_eval: "fib (n + 3) = fib_iter n 2 3"
  using fib_iter [of n 3] by (simp add: numeral_eq_Suc)

lemma fib_33: "fib 33 = 3524578"
  using fib_eval [of 30] by simp

lemma fib_power:
  assumes "r < 31"
  shows "2 ^ (25 * r) \<le> fib (r + 2) ^ 36"
proof (cases r)
  case (Suc n)
  have "list_all (\<lambda>n. (2::nat) ^ (25 * n + 25) \<le> fib_iter n 2 3 ^ 36) [0..<30]"
    by (simp add: upt_rec_numeral upt_conv_Cons)
  then have "2 ^ (25 * n + 25) \<le> fib_iter n 2 3 ^ 36"
    using assms Suc unfolding list_all_iff set_upt by auto
  then show ?thesis
    unfolding Suc fib_eval [symmetric] by (simp add: add.commute numeral_3_eq_3)
qed simp

lemma rank_fits:
  assumes "fib (r + 2) \<le> n" "n < fib 33"
  shows "r < 31" "r < max_trees_for n"
proof -
  show r: "r < 31"
  proof (rule ccontr)
    assume "\<not> r < 31"
    then have "fib 33 \<le> fib (r + 2)" by (intro fib_mono) simp
    then show False using assms by simp
  qed
  have n: "0 < n" using assms(1) fib_mono [of 1 "r + 2"] by (cases n) auto
  have "(2::nat) ^ (25 * r) \<le> n ^ 36"
    using fib_power [OF r] power_mono [OF assms(1), of 36] by (rule order_trans) simp
  then have "25 * r < floorlog 2 (n ^ 36)"
    using floorlog_ge_SucI [of 2 "25 * r" "n ^ 36"] by simp
  then show "r < max_trees_for n"
    unfolding max_trees_eval [OF n] by linarith
qed

section \<open>Entries and slots\<close>

fun slot_entries :: "'k fnode option \<Rightarrow> 'k fentry multiset" where
  "slot_entries None = {#}"
| "slot_entries (Some t) = tree_entries t"

definition trees_entries :: "'k fnode option list \<Rightarrow> 'k fentry multiset" where
  "trees_entries ts = sum_list (map slot_entries ts)"

abbreviation fh_entries :: "'k fheap \<Rightarrow> 'k fentry multiset" where
  "fh_entries h \<equiv> trees_entries (fh_trees h)"

lemma trees_entries_simps [simp]:
  "trees_entries [] = {#}"
  "trees_entries (s # ts) = slot_entries s + trees_entries ts"
  by (simp_all add: trees_entries_def)

lemma trees_entries_update:
  "r < length ts \<Longrightarrow> trees_entries (ts[r := s]) + slot_entries (ts ! r) = trees_entries ts + slot_entries s"
  by (induction ts arbitrary: r) (auto simp: nth_Cons' add_ac split: nat.splits)

lemma trees_entries_iff:
  "e \<in># trees_entries ts \<longleftrightarrow> (\<exists>r t. r < length ts \<and> ts ! r = Some t \<and> e \<in># tree_entries t)"
proof (induction ts)
  case (Cons s ts)
  have "e \<in># slot_entries s \<longleftrightarrow> (\<exists>t. s = Some t \<and> e \<in># tree_entries t)" by (cases s) auto
  then show ?case using Cons by (auto simp: nth_Cons' Suc_less_eq2 gr0_conv_Suc less_Suc_eq_0_disj)
qed simp

lemma trees_entries_replicate [simp]: "trees_entries (replicate n None) = {#}"
  by (induction n) auto

definition occupied :: "'k fnode option list \<Rightarrow> nat set" where
  "occupied ts = {r. r < length ts \<and> ts ! r \<noteq> None}"

lemma finite_occupied [simp, intro]: "finite (occupied ts)"
  by (simp add: occupied_def)

lemma occupied_update:
  assumes "r < length ts"
  shows "occupied (ts[r := Some t]) = insert r (occupied ts)"
    and "occupied (ts[r := None]) = occupied ts - {r}"
  using assms by (auto simp: occupied_def nth_list_update)

definition slots_ok :: "'k::linorder fnode option list \<Rightarrow> bool" where
  "slots_ok ts \<longleftrightarrow>
     (\<forall>r t. r < length ts \<longrightarrow> ts ! r = Some t \<longrightarrow> tree_ok t \<and> fn_rank t = r \<and> fn_marked t)"

definition rank_sum :: "nat set \<Rightarrow> int" where
  "rank_sum S = (\<Sum>r\<in>S. 2 ^ r)"

definition forest_ok :: "'k::linorder fheap \<Rightarrow> bool" where
  "forest_ok h \<longleftrightarrow> slots_ok (fh_trees h) \<and> fh_tree_sum h = rank_sum (occupied (fh_trees h)) \<and>
     length (fh_trees h) = max_trees_for (fh_max_nodes h) \<and> fh_max_nodes h < fib 33"

lemma slots_okD:
  "slots_ok ts \<Longrightarrow> r < length ts \<Longrightarrow> ts ! r = Some t \<Longrightarrow> tree_ok t \<and> fn_rank t = r \<and> fn_marked t"
  by (simp add: slots_ok_def)

lemma slots_ok_update:
  "slots_ok ts \<Longrightarrow> (\<And>t. s = Some t \<Longrightarrow> tree_ok t \<and> fn_rank t = r \<and> fn_marked t) \<Longrightarrow> slots_ok (ts[r := s])"
  by (cases "r < length ts") (auto simp: slots_ok_def nth_list_update list_update_beyond split: if_splits)

lemma rank_sum_insert:
  "finite S \<Longrightarrow> r \<notin> S \<Longrightarrow> rank_sum (insert r S) = rank_sum S + 2 ^ r"
  by (simp add: rank_sum_def)

lemma rank_sum_remove:
  "finite S \<Longrightarrow> r \<in> S \<Longrightarrow> rank_sum (S - {r}) = rank_sum S - 2 ^ r"
  by (simp add: rank_sum_def sum_diff1)

lemma rank_sum_below:
  assumes "S \<subseteq> {..<n}"
  shows "0 \<le> rank_sum S" "rank_sum S < 2 ^ n"
proof -
  show "0 \<le> rank_sum S" unfolding rank_sum_def by (intro sum_nonneg) simp
  have "rank_sum S \<le> rank_sum {..<n}"
    unfolding rank_sum_def using assms by (intro sum_mono2) auto
  also have "rank_sum {..<n} = 2 ^ n - 1"
    unfolding rank_sum_def by (induction n) (auto simp: lessThan_Suc)
  finally show "rank_sum S < 2 ^ n" by simp
qed

lemma rank_sum_Max:
  assumes "finite S" "S \<noteq> {}"
  shows "2 ^ Max S \<le> rank_sum S" "rank_sum S < 2 ^ (Max S + 1)"
proof -
  have "rank_sum {Max S} \<le> rank_sum S"
    unfolding rank_sum_def using assms by (intro sum_mono2) auto
  then show "2 ^ Max S \<le> rank_sum S" by (simp add: rank_sum_def)
  show "rank_sum S < 2 ^ (Max S + 1)"
    using assms by (intro rank_sum_below) (auto simp: less_Suc_eq_le)
qed

text \<open>In a forest that is not larger than the capacity no index and no sum is out of range.\<close>

lemma tree_size_le_entries:
  "r < length ts \<Longrightarrow> ts ! r = Some t \<Longrightarrow> size (tree_entries t) \<le> size (trees_entries ts)"
proof (induction ts arbitrary: r)
  case (Cons s ts)
  then show ?case
  proof (cases r)
    case (Suc q)
    then have "size (tree_entries t) \<le> size (trees_entries ts)" using Cons by simp
    then show ?thesis by simp
  qed simp
qed simp

lemma occupied_below:
  assumes "forest_ok h" "size (fh_entries h) \<le> fh_max_nodes h"
  shows "occupied (fh_trees h) \<subseteq> {..<31}"
proof
  fix r assume "r \<in> occupied (fh_trees h)"
  then obtain t where t: "r < length (fh_trees h)" "fh_trees h ! r = Some t"
    by (auto simp: occupied_def)
  then have "tree_ok t \<and> fn_rank t = r"
    using assms(1) by (auto simp: forest_ok_def dest: slots_okD)
  then have "fib (r + 2) \<le> size (tree_entries t)"
    using tree_size [of t] by blast
  also have "\<dots> \<le> fh_max_nodes h"
    using tree_size_le_entries [OF t] assms(2) by simp
  finally show "r \<in> {..<31}"
    using rank_fits(1) assms(1) by (simp add: forest_ok_def)
qed

lemma sum_plus_ok:
  assumes "S \<subseteq> {..<31}" "r < 31" "r \<notin> S"
  shows "sum_plus (rank_sum S) r = Inr (rank_sum (insert r S))"
proof -
  have "finite S" using assms(1) finite_subset by blast
  then have eq: "rank_sum S + 2 ^ r = rank_sum (insert r S)"
    using assms(3) by (simp add: rank_sum_insert)
  have "0 \<le> rank_sum (insert r S)" "rank_sum (insert r S) < 2 ^ 31"
    using rank_sum_below [of "insert r S" 31] assms by auto
  then show ?thesis
    using assms(2) by (simp add: sum_plus_def shift_one_def int_result_def in_int32_def eq)
qed

lemma sum_minus_ok:
  assumes "S \<subseteq> {..<31}" "r \<in> S"
  shows "sum_minus (rank_sum S) r = Inr (rank_sum (S - {r}))"
proof -
  have "finite S" using assms(1) finite_subset by blast
  then have eq: "rank_sum S - 2 ^ r = rank_sum (S - {r})"
    using assms(2) by (simp add: rank_sum_remove)
  have "0 \<le> rank_sum (S - {r})" "rank_sum (S - {r}) < 2 ^ 31"
    using rank_sum_below [of "S - {r}" 31] assms by auto
  moreover have "r < 31" using assms by auto
  ultimately show ?thesis
    by (simp add: sum_minus_def shift_one_def int_result_def in_int32_def eq)
qed

section \<open>Melding\<close>

definition fh_frame :: "'k fheap \<Rightarrow> nat option list \<times> nat \<times> nat \<times> int \<times> nat" where
  "fh_frame h = (fh_nodes h, fh_max_nodes h, fh_max_trees h, fh_item_count h, fh_next h)"

lemma fh_frame_eq:
  "fh_frame h' = fh_frame h \<longleftrightarrow> fh_nodes h' = fh_nodes h \<and> fh_max_nodes h' = fh_max_nodes h \<and>
     fh_max_trees h' = fh_max_trees h \<and> fh_item_count h' = fh_item_count h \<and> fh_next h' = fh_next h"
  by (auto simp: fh_frame_def)

lemma place_ok:
  assumes "forest_ok h" "tree_ok t" "fn_rank t = r"
    and "size (fh_entries h) + size (tree_entries t) \<le> fh_max_nodes h"
  shows "\<exists>h'. place r t h = Inr h' \<and> forest_ok h' \<and> fh_frame h' = fh_frame h \<and>
           fh_entries h' = fh_entries h + tree_entries t"
  using assms
proof (induction r t h rule: place.induct)
  case (1 r t h)
  let ?ts = "fh_trees h"
  have fits: "r < 31" "r < length ?ts"
    using rank_fits [of r "fh_max_nodes h"] tree_size [OF 1(3)] 1(2,4,5) by (auto simp: forest_ok_def)
  have below: "occupied ?ts \<subseteq> {..<31}"
    using occupied_below [OF 1(2)] 1(5) by simp
  have len: "\<not> length ?ts \<le> r" using fits by simp
  have sum: "fh_tree_sum h = rank_sum (occupied ?ts)" using 1(2) by (simp add: forest_ok_def)
  show ?case
  proof (cases "?ts ! r")
    case None
    then have "r \<notin> occupied ?ts" by (simp add: occupied_def)
    note plus = sum_plus_ok [OF below fits(1) this]
    have "slots_ok (?ts[r := Some (set_marked True t)])"
      using 1(2-4) by (intro slots_ok_update) (auto simp: forest_ok_def)
    then show ?thesis
      using 1(2) fits None plus trees_entries_update [OF fits(2), of "Some (set_marked True t)"]
      by (subst place.simps) (simp add: sum forest_ok_def occupied_update fh_frame_def)
  next
    case (Some temp)
    then have occ: "r \<in> occupied ?ts" using fits by (simp add: occupied_def)
    note minus = sum_minus_ok [OF below occ]
    have temp: "tree_ok temp" "fn_rank temp = r"
      using 1(2) slots_okD [OF _ fits(2) Some] by (auto simp: forest_ok_def)
    define upper lower where ul: "upper = (if fn_key temp < fn_key t then temp else t)"
      "lower = (if fn_key temp < fn_key t then t else temp)"
    have "tree_ok upper \<and> tree_ok lower \<and> fn_rank upper = r \<and> fn_rank lower = r \<and>
        fn_key upper \<le> fn_key lower"
      using temp 1(3,4) by (auto simp: ul)
    moreover have pair: "(upper, lower) = (if fn_key temp < fn_key t then (temp, t) else (t, temp))"
      by (simp add: ul)
    ultimately obtain joined where j: "link_trees r upper lower = Inr joined" "tree_ok joined"
      "fn_rank joined = Suc r" "tree_entries joined = tree_entries upper + tree_entries lower"
      using link_trees_ok [of upper lower r] by blast
    have ent: "tree_entries joined = tree_entries t + tree_entries temp"
      using j(4) by (auto simp: ul add.commute)
    let ?v = "rank_sum (occupied ?ts - {r})"
    let ?h = "h\<lparr> fh_trees := ?ts[r := None], fh_tree_sum := ?v, fh_comp_count := fh_comp_count h + 1 \<rparr>"
    have ents: "fh_entries ?h + tree_entries temp = fh_entries h"
      using trees_entries_update [OF fits(2), of None] Some by simp
    then have total: "fh_entries ?h + tree_entries joined = fh_entries h + tree_entries t"
      unfolding ent by (metis add.assoc add.commute)
    have "\<exists>h'. place (Suc r) joined ?h = Inr h' \<and> forest_ok h' \<and> fh_frame h' = fh_frame ?h \<and>
           fh_entries h' = fh_entries ?h + tree_entries joined"
    proof (rule 1(1) [OF len Some minus [folded sum] refl pair j(1) _ j(2,3)])
      show "forest_ok ?h"
        using 1(2) fits by (auto simp: forest_ok_def occupied_update intro: slots_ok_update)
      show "size (fh_entries ?h) + size (tree_entries joined) \<le> fh_max_nodes ?h"
        using arg_cong [OF total, of size] 1(5) by simp
    qed
    moreover have "place r t h = place (Suc r) joined ?h"
      using minus j(1) len Some by (subst place.simps) (simp add: sum pair [symmetric])
    ultimately show ?thesis
      using total by (auto simp: fh_frame_def)
  qed
qed

lemma meld_ok:
  assumes "forest_ok h" "\<forall>t\<in>set ts. tree_ok t"
    and "size (fh_entries h) + size (forest_entries ts) \<le> fh_max_nodes h"
  shows "\<exists>h'. meld ts h = Inr h' \<and> forest_ok h' \<and> fh_frame h' = fh_frame h \<and>
           fh_entries h' = fh_entries h + forest_entries ts"
  using assms
proof (induction ts arbitrary: h)
  case (Cons t ts)
  obtain h1 where 1: "place (fn_rank t) t h = Inr h1" "forest_ok h1" "fh_frame h1 = fh_frame h"
    "fh_entries h1 = fh_entries h + tree_entries t"
    using place_ok [OF Cons(2), of t] Cons(3,4) by auto
  have "fh_max_nodes h1 = fh_max_nodes h" using 1(3) by (simp add: fh_frame_eq)
  then obtain h2 where "meld ts h1 = Inr h2" "forest_ok h2" "fh_frame h2 = fh_frame h1"
    "fh_entries h2 = fh_entries h1 + forest_entries ts"
    using Cons(1) [OF 1(2)] Cons(3,4) 1(4) by auto
  then show ?case using 1 by (auto simp: meld_def add.assoc)
qed (simp add: meld_def)

section \<open>Finding the minimum\<close>

lemma top_rank_power:
  "2 ^ k \<le> v \<Longrightarrow> v < 2 ^ (k + 1) \<Longrightarrow> top_rank v r = Inr (r + int k + 1)"
proof (induction k arbitrary: v r)
  case 0
  then have "v = 1" by simp
  then show ?case by (simp add: top_rank.simps)
next
  case (Suc k)
  then have "2 ^ k \<le> v div 2" "v div 2 < 2 ^ (k + 1)" by auto
  then have "top_rank (v div 2) (r + 1) = Inr (r + 1 + int k + 1)" by (rule Suc.IH)
  moreover have "0 < v" using Suc.prems(1) zero_less_power [of "2::int" "Suc k"] by linarith
  ultimately show ?case by (subst top_rank.simps) simp
qed

text \<open>A negative sum gives a loop that does not end.\<close>

lemma top_rank_negative: "v < 0 \<Longrightarrow> top_rank v r = Inl UndefinedBehaviour"
  by (subst top_rank.simps) simp

lemma min_scan_ok:
  "fn_key (fst (min_scan ts r best comps)) \<le> fn_key best \<and>
   (\<forall>q<r. \<forall>u. ts ! q = Some u \<longrightarrow> fn_key (fst (min_scan ts r best comps)) \<le> fn_key u) \<and>
   (fst (min_scan ts r best comps) = best \<or> (\<exists>q<r. ts ! q = Some (fst (min_scan ts r best comps))))"
proof (induction ts r best comps rule: min_scan.induct)
  case (2 ts r best comps)
  show ?case
  proof (cases "ts ! r")
    case None
    then show ?thesis using 2(1) by (auto simp: less_Suc_eq)
  next
    case (Some c)
    let ?b = "if fn_key c < fn_key best then c else best"
    have "fn_key ?b \<le> fn_key c" "fn_key ?b \<le> fn_key best" by auto
    then show ?thesis
      using 2(2) [OF Some] Some by (fastforce simp: less_Suc_eq)
  qed
qed simp

lemma find_min_ok:
  assumes ok: "forest_ok h" and small: "size (fh_entries h) \<le> fh_max_nodes h"
    and ne: "fh_entries h \<noteq> {#}"
  obtains t comps r where "find_min h = Inr (t, comps)"
    and "r < length (fh_trees h)" and "fh_trees h ! r = Some t"
    and "\<And>e. e \<in># fh_entries h \<Longrightarrow> fn_key t \<le> snd (snd e)"
proof -
  let ?ts = "fh_trees h" let ?S = "occupied ?ts"
  have sum: "fh_tree_sum h = rank_sum ?S" using ok by (simp add: forest_ok_def)
  obtain e where "e \<in># fh_entries h" using ne by blast
  then have S: "?S \<noteq> {}" unfolding trees_entries_iff by (auto simp: occupied_def)
  then have Max: "Max ?S \<in> ?S" by simp
  then obtain b where b: "Max ?S < length ?ts" "?ts ! Max ?S = Some b" by (auto simp: occupied_def)
  obtain t comps where tc: "min_scan ?ts (Max ?S) b (fh_comp_count h) = (t, comps)" by fastforce
  have top: "top_rank (fh_tree_sum h) (- 1) = Inr (int (Max ?S))"
    using top_rank_power [of "Max ?S" "rank_sum ?S" "- 1"] rank_sum_Max [OF _ S] by (simp add: sum)
  have found: "find_min h = Inr (t, comps)"
    using b by (simp add: find_min_def top tc)
  have scan: "fn_key t \<le> fn_key b" "\<And>q u. q < Max ?S \<Longrightarrow> ?ts ! q = Some u \<Longrightarrow> fn_key t \<le> fn_key u"
    "t = b \<or> (\<exists>q<Max ?S. ?ts ! q = Some t)"
    using min_scan_ok [of ?ts "Max ?S" b "fh_comp_count h"] by (auto simp: tc)
  have roots: "fn_key t \<le> fn_key u" if "q < length ?ts" "?ts ! q = Some u" for q u
  proof -
    have "q \<le> Max ?S" using that by (intro Max_ge) (auto simp: occupied_def)
    then have "q < Max ?S \<or> q = Max ?S" by auto
    then show ?thesis using scan(1) scan(2) [OF _ that(2)] that(2) b(2) by auto
  qed
  have all: "fn_key t \<le> snd (snd e)" if "e \<in># fh_entries h" for e
    using that roots tree_min ok unfolding trees_entries_iff forest_ok_def
    by (metis order_trans slots_okD)
  obtain r where "r < length ?ts" "?ts ! r = Some t"
    using scan(3) b by (auto intro: less_trans)
  then show thesis using found all by (intro that)
qed

section \<open>The nodes of a heap\<close>

lemma find_tree_some:
  "find_tree x r ts = Some (q, c, fs) \<Longrightarrow>
     fn_addr c = x \<and> r \<le> q \<and> q - r < length ts \<and> ts ! (q - r) = Some (plug c fs)"
proof (induction x r ts rule: find_tree.induct)
  case (2 x r ts)
  then show ?case by (auto simp: nth_Cons')
next
  case (3 x r t ts)
  then show ?case
    using find_node_plug(1) [of x t "[]" c fs] by (auto simp: nth_Cons' split: option.splits)
qed simp

lemma find_tree_none:
  "find_tree x r ts = None \<Longrightarrow> x \<notin> fst ` set_mset (trees_entries ts)"
proof (induction x r ts rule: find_tree.induct)
  case (3 x r t ts)
  then show ?case
    using find_node_none(1) [of x t "[]"] by (auto split: option.splits)
qed auto

definition distinct_mset :: "'a multiset \<Rightarrow> bool" where
  "distinct_mset M \<longleftrightarrow> (\<forall>x. count M x \<le> 1)"

lemma distinct_mset_add [simp]:
  "distinct_mset (add_mset x M) \<longleftrightarrow> x \<notin># M \<and> distinct_mset M"
  unfolding distinct_mset_def by (auto simp: not_in_iff le_Suc_eq; metis Suc_le_eq le_SucI le_zero_eq not_in_iff)

lemma distinct_mset_empty [simp]: "distinct_mset {#}"
  by (simp add: distinct_mset_def)

lemma distinct_mset_size: "distinct_mset M \<Longrightarrow> size M = card (set_mset M)"
  by (induction M) auto

lemma distinct_mset_image_inj:
  assumes "distinct_mset (image_mset f M)" "x \<in># M" "y \<in># M" "f x = f y"
  shows "x = y"
proof (rule ccontr)
  assume "x \<noteq> y"
  obtain M' where M: "M = add_mset x M'" using assms(2) by (meson multi_member_split)
  then have "y \<in># M'" using assms(3) \<open>x \<noteq> y\<close> by auto
  then have "f x \<in># image_mset f M'" using assms(4) by auto
  then show False using assms(1) M by simp
qed

abbreviation entry_item :: "'k fentry \<Rightarrow> nat" where
  "entry_item e \<equiv> fst (snd e)"

definition fh_ok :: "'k::linorder fheap \<Rightarrow> bool" where
  "fh_ok h \<longleftrightarrow> forest_ok h \<and> fh_max_trees h = max_trees_for (fh_max_nodes h) \<and>
     length (fh_nodes h) = fh_max_nodes h \<and> fh_item_count h = int (size (fh_entries h)) \<and>
     distinct_mset (image_mset fst (fh_entries h)) \<and>
     distinct_mset (image_mset entry_item (fh_entries h)) \<and>
     (\<forall>(a, i, k)\<in>#fh_entries h. a < fh_next h \<and> i < fh_max_nodes h \<and> fh_nodes h ! i = Some a) \<and>
     (\<forall>i<fh_max_nodes h. \<forall>a. fh_nodes h ! i = Some a \<longrightarrow> (\<exists>k. (a, i, k) \<in># fh_entries h))"

lemma fh_okI:
  assumes "forest_ok h" "fh_max_trees h = max_trees_for (fh_max_nodes h)"
    and "length (fh_nodes h) = fh_max_nodes h" "fh_item_count h = int (size (fh_entries h))"
    and "distinct_mset (image_mset fst (fh_entries h))"
    and "distinct_mset (image_mset entry_item (fh_entries h))"
    and "\<And>a i k. (a, i, k) \<in># fh_entries h \<Longrightarrow>
           a < fh_next h \<and> i < fh_max_nodes h \<and> fh_nodes h ! i = Some a"
    and "\<And>i a. i < fh_max_nodes h \<Longrightarrow> fh_nodes h ! i = Some a \<Longrightarrow> \<exists>k. (a, i, k) \<in># fh_entries h"
  shows "fh_ok h"
  unfolding fh_ok_def using assms by blast

lemma fh_ok_forest [simp]: "fh_ok h \<Longrightarrow> forest_ok h"
  by (simp add: fh_ok_def)

lemma fh_ok_entry:
  "fh_ok h \<Longrightarrow> (a, i, k) \<in># fh_entries h \<Longrightarrow>
     a < fh_next h \<and> i < fh_max_nodes h \<and> fh_nodes h ! i = Some a"
  unfolding fh_ok_def by fast

lemma fh_ok_node:
  "fh_ok h \<Longrightarrow> i < fh_max_nodes h \<Longrightarrow> fh_nodes h ! i = Some a \<Longrightarrow> \<exists>k. (a, i, k) \<in># fh_entries h"
  unfolding fh_ok_def by fast

lemma fh_ok_unique:
  assumes "fh_ok h" "(a, i, k) \<in># fh_entries h" "(b, j, l) \<in># fh_entries h" "a = b \<or> i = j"
  shows "a = b \<and> i = j \<and> k = l"
proof -
  have "distinct_mset (image_mset fst (fh_entries h))"
    "distinct_mset (image_mset entry_item (fh_entries h))"
    using assms(1) by (simp_all add: fh_ok_def)
  then show ?thesis
    using assms(2-4) distinct_mset_image_inj [of fst "fh_entries h" "(a, i, k)" "(b, j, l)"]
      distinct_mset_image_inj [of entry_item "fh_entries h" "(a, i, k)" "(b, j, l)"] by auto
qed

lemma fh_ok_small:
  assumes "fh_ok h"
  shows "size (fh_entries h) \<le> fh_max_nodes h"
proof -
  let ?M = "image_mset entry_item (fh_entries h)"
  have "set_mset ?M \<subseteq> {..<fh_max_nodes h}"
    using fh_ok_entry [OF assms] by fastforce
  then have "card (set_mset ?M) \<le> fh_max_nodes h"
    using card_mono [of "{..<fh_max_nodes h}" "set_mset ?M"] by simp
  then show ?thesis
    using distinct_mset_size [of ?M] assms by (simp add: fh_ok_def)
qed

lemma node_of_ok:
  assumes "fh_ok h" "(a, i, k) \<in># fh_entries h"
  obtains r c fs where "node_of i h = Inr (r, c, fs)" "r < length (fh_trees h)"
    "fh_trees h ! r = Some (plug c fs)" "node_entry c = (a, i, k)"
proof -
  have i: "i < length (fh_nodes h)" "fh_nodes h ! i = Some a"
    using fh_ok_entry [OF assms] assms(1) by (simp_all add: fh_ok_def)
  have "a \<in> fst ` set_mset (fh_entries h)" using assms(2) by force
  then have "find_tree a 0 (fh_trees h) \<noteq> None"
    using find_tree_none [of a 0 "fh_trees h"] by blast
  then obtain r c fs where f: "find_tree a 0 (fh_trees h) = Some (r, c, fs)"
    by (metis not_None_eq prod_cases3)
  note found = find_tree_some [OF f, simplified]
  have "node_entry c \<in># fh_entries h"
    using found unfolding trees_entries_iff by (auto simp: plug_entries)
  then have "node_entry c = (a, i, k)"
    using fh_ok_unique [OF assms, of "fn_addr c" "fn_item c" "fn_key c"] found
    by (auto simp: node_entry_alt)
  then show thesis using found i f by (intro that) (auto simp: node_of_def)
qed

abbreviation fh_content :: "'k::linorder fheap \<Rightarrow> nat \<rightharpoonup> 'k" where
  "fh_content \<equiv> hc_content fheap_class"

lemma content_iff:
  assumes "fh_ok h"
  shows "fh_content h i = Some k \<longleftrightarrow> (\<exists>a. (a, i, k) \<in># fh_entries h)"
proof
  assume "\<exists>a. (a, i, k) \<in># fh_entries h"
  then obtain a where "(a, i, k) \<in># fh_entries h" by blast
  then obtain r c fs where "node_of i h = Inr (r, c, fs)" "node_entry c = (a, i, k)"
    using node_of_ok [OF assms] by metis
  then show "fh_content h i = Some k"
    by (simp add: hc_content_def fheap_class_def fh_get_key_def node_entry_alt)
next
  assume *: "fh_content h i = Some k"
  then obtain z where "node_of i h = Inr z"
    by (auto simp: hc_content_def fheap_class_def fh_get_key_def split: sum.splits elim: rbind.elims)
  then have i: "i < fh_max_nodes h" and "fh_nodes h ! i \<noteq> None"
    using assms by (auto simp: node_of_def fh_ok_def split: if_splits option.splits)
  then obtain a l where e: "(a, i, l) \<in># fh_entries h"
    using fh_ok_node [OF assms] by blast
  then obtain r c fs where "node_of i h = Inr (r, c, fs)" "node_entry c = (a, i, l)"
    using node_of_ok [OF assms] by metis
  then show "\<exists>a. (a, i, k) \<in># fh_entries h"
    using * e by (auto simp: hc_content_def fheap_class_def fh_get_key_def node_entry_alt)
qed

lemma content_none:
  "fh_ok h \<Longrightarrow> i < fh_max_nodes h \<Longrightarrow> fh_content h i = None \<longleftrightarrow> fh_nodes h ! i = None"
  using content_iff [of h i] fh_ok_node [of h i] fh_ok_entry [of h _ i]
  by (metis not_None_eq option.distinct(1))

lemma map_eq_iff_some: "(\<And>i k. m i = Some k \<longleftrightarrow> m' i = Some k) \<Longrightarrow> m = m'"
  by (rule ext) (metis option.exhaust)

section \<open>The operations keep the invariant\<close>

lemma occupied_replicate [simp]: "occupied (replicate n None) = {}"
  by (auto simp: occupied_def)

lemma fh_new_ok:
  assumes "0 < n" "n < fib 33"
  obtains h :: "'a::linorder fheap" where "fh_new n = Inr h" "fh_ok h" "fh_max_nodes h = n" "fh_entries h = {#}"
proof (rule that)
  let ?h = "\<lparr> fh_trees = replicate (max_trees_for n) None, fh_nodes = replicate n None,
    fh_max_nodes = n, fh_max_trees = max_trees_for n, fh_item_count = 0,
    fh_tree_sum = 0, fh_comp_count = 0, fh_next = 0 \<rparr>"
  show "fh_new n = Inr ?h" using assms by (simp add: fh_new_def)
  show "fh_ok ?h" using assms by (simp add: fh_ok_def forest_ok_def slots_ok_def rank_sum_def)
qed simp_all

lemma fh_insert_ok:
  assumes ok: "fh_ok h" and i: "i < fh_max_nodes h" and free: "fh_nodes h ! i = None"
  obtains h' where "fh_insert i k h = Inr h'" "fh_ok h'" "fh_max_nodes h' = fh_max_nodes h"
    "fh_entries h' = add_mset (fh_next h, i, k) (fh_entries h)"
proof -
  let ?n = "FNode (fh_next h) i k 0 False []"
  let ?h1 = "h\<lparr> fh_next := fh_next h + 1, fh_nodes := (fh_nodes h)[i := Some (fh_next h)] \<rparr>"
  have len: "length (fh_nodes h) = fh_max_nodes h" using ok by (simp add: fh_ok_def)
  let ?M = "image_mset entry_item (fh_entries h)"
  have fresh: "i \<notin># ?M" "fh_next h \<notin># image_mset fst (fh_entries h)"
    using fh_ok_entry [OF ok] free by fastforce+
  then have "distinct_mset (add_mset i ?M)" using ok by (simp add: fh_ok_def)
  moreover have "set_mset (add_mset i ?M) \<subseteq> {..<fh_max_nodes h}"
    using fh_ok_entry [OF ok] i by fastforce
  ultimately have room: "size (fh_entries h) + 1 \<le> fh_max_nodes h"
    using distinct_mset_size [of "add_mset i ?M"] card_mono [of "{..<fh_max_nodes h}" "set_mset (add_mset i ?M)"]
    by simp
  have "forest_ok ?h1" using ok by (simp add: forest_ok_def fh_ok_def)
  then obtain h2 where h2: "meld [?n] ?h1 = Inr h2" "forest_ok h2" "fh_frame h2 = fh_frame ?h1"
    "fh_entries h2 = fh_entries ?h1 + forest_entries [?n]"
    using meld_ok [of ?h1 "[?n]"] room by auto
  let ?h3 = "h2\<lparr> fh_item_count := fh_item_count h2 + 1 \<rparr>"
  have ent: "fh_entries ?h3 = add_mset (fh_next h, i, k) (fh_entries h)" using h2(4) by simp
  have frame: "fh_max_nodes h2 = fh_max_nodes h" "fh_max_trees h2 = fh_max_trees h"
    "fh_item_count h2 = fh_item_count h" "fh_next h2 = fh_next h + 1"
    "fh_nodes h2 = (fh_nodes h)[i := Some (fh_next h)]"
    using h2(3) by (simp_all add: fh_frame_eq)
  have "fh_ok ?h3"
  proof (rule fh_okI, unfold ent)
    show "forest_ok ?h3" using h2(2) by (simp add: forest_ok_def)
    show "a < fh_next ?h3 \<and> j < fh_max_nodes ?h3 \<and> fh_nodes ?h3 ! j = Some a"
      if "(a, j, l) \<in># add_mset (fh_next h, i, k) (fh_entries h)" for a j l
      using that fh_ok_entry [OF ok, of a j l] fresh(1) i len
      by (force simp: frame nth_list_update)
    show "\<exists>l. (a, j, l) \<in># add_mset (fh_next h, i, k) (fh_entries h)"
      if "j < fh_max_nodes ?h3" "fh_nodes ?h3 ! j = Some a" for j a
      using that fh_ok_node [OF ok, of j a] len i by (cases "j = i") (auto simp: frame)
  qed (use ok fresh in \<open>auto simp: fh_ok_def frame\<close>)
  moreover have "fh_insert i k h = Inr ?h3"
    using h2(1) i len by (simp add: fh_insert_def put_node_def)
  ultimately show thesis using ent frame by (intro that [of ?h3]) simp_all
qed

lemma fh_delete_minimum_ok:
  assumes ok: "fh_ok h" and ne: "fh_entries h \<noteq> {#}"
  obtains i k h' a where "fh_delete_minimum h = Inr ((i, k), h')" "fh_ok h'"
    "fh_max_nodes h' = fh_max_nodes h" "fh_entries h = add_mset (a, i, k) (fh_entries h')"
    "\<And>e. e \<in># fh_entries h \<Longrightarrow> k \<le> snd (snd e)"
proof -
  obtain t comps r where t: "find_min h = Inr (t, comps)" "r < length (fh_trees h)"
    "fh_trees h ! r = Some t" "\<And>e. e \<in># fh_entries h \<Longrightarrow> fn_key t \<le> snd (snd e)"
    using find_min_ok [OF fh_ok_forest [OF ok] fh_ok_small [OF ok] ne] by metis
  have forest: "forest_ok h" using ok by simp
  have tree: "tree_ok t" "fn_rank t = r" using forest slots_okD [OF _ t(2,3)] unfolding forest_ok_def by blast+
  let ?ts = "(fh_trees h)[r := None]" let ?S = "occupied (fh_trees h)"
  let ?h1 = "h\<lparr> fh_comp_count := comps, fh_trees := ?ts \<rparr>"
  let ?h2 = "?h1\<lparr> fh_tree_sum := rank_sum (?S - {r}) \<rparr>"
  have "r \<in> ?S" using t(2,3) by (simp add: occupied_def)
  then have minus: "sum_minus (fh_tree_sum h) r = Inr (rank_sum (?S - {r}))"
    using sum_minus_ok [OF occupied_below [OF forest fh_ok_small [OF ok]]] forest
    by (simp add: forest_ok_def)
  have ents: "trees_entries ?ts + tree_entries t = fh_entries h"
    using trees_entries_update [OF t(2), of None] t(3) by simp
  have te: "tree_entries t = add_mset (node_entry t) (forest_entries (fn_children t))" by (cases t) simp
  have f2: "forest_ok ?h2"
    using forest t(2) by (auto simp: forest_ok_def occupied_update intro: slots_ok_update)
  have "size (fh_entries ?h2) + size (forest_entries (fn_children t)) \<le> fh_max_nodes ?h2"
    using fh_ok_small [OF ok] arg_cong [OF ents, of size] te by simp
  then obtain h3 where h3: "meld (fn_children t) ?h2 = Inr h3" "forest_ok h3"
    "fh_frame h3 = fh_frame ?h2" "fh_entries h3 = fh_entries ?h2 + forest_entries (fn_children t)"
    using meld_ok [OF f2, of "fn_children t"] tree_ok_child [OF tree(1)] by blast
  have frame: "fh_max_nodes h3 = fh_max_nodes h" "fh_max_trees h3 = fh_max_trees h"
    "fh_item_count h3 = fh_item_count h" "fh_next h3 = fh_next h" "fh_nodes h3 = fh_nodes h"
    using h3(3) by (simp_all add: fh_frame_eq)
  let ?i = "fn_item t"
  let ?h4 = "h3\<lparr> fh_nodes := (fh_nodes h)[?i := None], fh_item_count := fh_item_count h - 1 \<rparr>"
  have all: "fh_entries h = add_mset (node_entry t) (fh_entries ?h4)"
    using ents te h3(4) by (simp add: add_ac)
  then have mem: "(fn_addr t, ?i, fn_key t) \<in># fh_entries h" by (simp add: node_entry_alt)
  have len: "length (fh_nodes h) = fh_max_nodes h" using ok by (simp add: fh_ok_def)
  have i: "?i < length (fh_nodes h)" using fh_ok_entry [OF ok mem] len by simp
  have dist: "distinct_mset (image_mset fst (add_mset (node_entry t) (fh_entries ?h4)))"
    "distinct_mset (image_mset entry_item (add_mset (node_entry t) (fh_entries ?h4)))"
    using ok unfolding all [symmetric] by (simp_all add: fh_ok_def)
  have "fh_ok ?h4"
  proof (rule fh_okI)
    show "forest_ok ?h4" using h3(2) by (simp add: forest_ok_def)
    show "distinct_mset (image_mset fst (fh_entries ?h4))"
      "distinct_mset (image_mset entry_item (fh_entries ?h4))"
      using dist by simp_all
    show "fh_item_count ?h4 = int (size (fh_entries ?h4))"
      using ok arg_cong [OF all, of size] by (simp add: fh_ok_def)
    show "a < fh_next ?h4 \<and> j < fh_max_nodes ?h4 \<and> fh_nodes ?h4 ! j = Some a"
      if e: "(a, j, l) \<in># fh_entries ?h4" for a j l
    proof -
      have "j \<noteq> ?i" using dist(2) e by (force simp: node_entry_alt)
      moreover have "(a, j, l) \<in># fh_entries h" using e unfolding all by simp
      ultimately show ?thesis using fh_ok_entry [OF ok] frame by simp
    qed
    show "\<exists>l. (a, j, l) \<in># fh_entries ?h4"
      if n: "j < fh_max_nodes ?h4" "fh_nodes ?h4 ! j = Some a" for j a
    proof -
      have "j \<noteq> ?i" using n i by auto
      then obtain l where "(a, j, l) \<in># fh_entries h"
        using fh_ok_node [OF ok, of j a] n by (auto simp: frame)
      then show ?thesis using \<open>j \<noteq> ?i\<close> unfolding all by (auto simp: node_entry_alt)
    qed
  qed (use ok in \<open>simp_all add: fh_ok_def frame\<close>)
  moreover have "fh_delete_minimum h = Inr ((?i, fn_key t), ?h4)"
    using t(1,2) tree(2) minus h3(1) i frame
    by (simp add: fh_delete_minimum_def put_tree_def put_node_def)
  ultimately show thesis
    using all t(4) frame by (intro that [of ?i "fn_key t" ?h4 "fn_addr t"]) (auto simp: node_entry_alt)
qed

lemma fh_ok_rekey:
  assumes ok: "fh_ok h" and mem: "(a, i, k) \<in># fh_entries h"
    and forest: "forest_ok h'" and frame: "fh_frame h' = fh_frame h"
    and ents: "add_mset (a, i, k) (fh_entries h') = add_mset (a, i, k') (fh_entries h)"
  shows "fh_ok h'"
proof -
  obtain R where R: "fh_entries h = add_mset (a, i, k) R" using mem by (meson multi_member_split)
  then have R': "fh_entries h' = add_mset (a, i, k') R"
    using ents by (simp add: add_mset_commute)
  note fr = frame [unfolded fh_frame_eq]
  show ?thesis
  proof (rule fh_okI [OF forest])
    show "b < fh_next h' \<and> j < fh_max_nodes h' \<and> fh_nodes h' ! j = Some b"
      if "(b, j, l) \<in># fh_entries h'" for b j l
      using that fh_ok_entry [OF ok, of b j] fh_ok_entry [OF ok mem] fr unfolding R R' by auto
    show "\<exists>l. (b, j, l) \<in># fh_entries h'"
      if "j < fh_max_nodes h'" "fh_nodes h' ! j = Some b" for b j
      using that fh_ok_node [OF ok, of j b] fr unfolding R R' by auto
  qed (use ok fr in \<open>simp_all add: fh_ok_def R R'\<close>)
qed

lemma meld_rekey:
  assumes ok: "fh_ok h" and slot: "r < length (fh_trees h)" "fh_trees h ! r = Some (plug c fs)"
    and c: "node_entry c = (a, i, k)"
    and h1: "forest_ok h1" "fh_frame h1 = fh_frame h" "fh_trees h1 = (fh_trees h)[r := rest]"
    and roots: "\<forall>t\<in>set roots. tree_ok t"
    and ents: "forest_entries roots + slot_entries rest = tree_entries (set_key k' c) + frames_entries fs"
  obtains h' where "meld roots h1 = Inr h'" "fh_ok h'" "fh_max_nodes h' = fh_max_nodes h"
    "add_mset (a, i, k) (fh_entries h') = add_mset (a, i, k') (fh_entries h)"
proof -
  let ?T = "tree_entries (plug c fs)"
  have c': "fn_addr c = a" "fn_item c = i" "fn_key c = k" using c by (simp_all add: node_entry_alt)
  have "(a, i, k) \<in># tree_entries (plug c fs)"
    using node_entry_in [of c] c by (simp add: plug_entries)
  then have mem: "(a, i, k) \<in># fh_entries h" using slot unfolding trees_entries_iff by blast
  have key: "add_mset (a, i, k) (tree_entries (set_key k' c)) = add_mset (a, i, k') (tree_entries c)"
    using set_key_entries [of c k'] c by (simp add: c')
  have "fh_entries h1 + ?T = fh_entries h + slot_entries rest"
    using trees_entries_update [OF slot(1), of rest] slot(2) h1(3) by simp
  then have "fh_entries h1 + forest_entries roots + ?T
      = fh_entries h + (tree_entries (set_key k' c) + frames_entries fs)"
    using ents by (metis add.assoc add.commute)
  then have "add_mset (a, i, k) (fh_entries h1 + forest_entries roots) + ?T
      = add_mset (a, i, k') (fh_entries h) + ?T"
    using key by (simp add: plug_entries add_ac)
  then have total: "add_mset (a, i, k) (fh_entries h1 + forest_entries roots) =
      add_mset (a, i, k') (fh_entries h)" by simp
  have "size (fh_entries h1) + size (forest_entries roots) \<le> fh_max_nodes h1"
    using arg_cong [OF total, of size] fh_ok_small [OF ok] h1(2) by (simp add: fh_frame_eq)
  then obtain h' where h': "meld roots h1 = Inr h'" "forest_ok h'" "fh_frame h' = fh_frame h1"
    "fh_entries h' = fh_entries h1 + forest_entries roots"
    using meld_ok [OF h1(1) roots] by blast
  then have "fh_ok h'"
    using fh_ok_rekey [OF ok mem h'(2)] total h1(2) by simp
  then show thesis using h' total h1(2) by (intro that [of h']) (simp_all add: fh_frame_eq)
qed

lemma fh_decrease_key_ok:
  assumes ok: "fh_ok h" and mem: "(a, i, k) \<in># fh_entries h" and le: "k' \<le> k"
  obtains h' where "fh_decrease_key i k' h = Inr h'" "fh_ok h'" "fh_max_nodes h' = fh_max_nodes h"
    "add_mset (a, i, k) (fh_entries h') = add_mset (a, i, k') (fh_entries h)"
proof -
  obtain r c fs where n: "node_of i h = Inr (r, c, fs)" "r < length (fh_trees h)"
    "fh_trees h ! r = Some (plug c fs)" "node_entry c = (a, i, k)"
    using node_of_ok [OF ok mem] .
  have forest: "forest_ok h" using ok by simp
  then have tree: "tree_ok (plug c fs)" "fn_rank (plug c fs) = r" "fn_marked (plug c fs)"
    using slots_okD [OF _ n(2,3)] unfolding forest_ok_def by blast+
  have r: "r \<in> occupied (fh_trees h)" using n(2,3) by (simp add: occupied_def)
  let ?c = "set_key k' c"
  have c: "tree_ok ?c"
    using tree_ok_plugD [OF tree(1)] le n(4) by (intro tree_ok_set_key) (simp_all add: node_entry_alt)
  have put: "forest_ok (h\<lparr> fh_trees := (fh_trees h)[r := Some t] \<rparr>)"
    if "tree_ok t" "fn_rank t = r" "fn_marked t" for t
    using forest that n(2) r
    by (auto simp: forest_ok_def occupied_update insert_absorb intro: slots_ok_update)
  consider (root) "fs = []" | (kept) roots t where "fs \<noteq> []" "cascade [?c] fs = (roots, Some t)"
    | (cut) roots where "fs \<noteq> []" "cascade [?c] fs = (roots, None)"
    by (metis not_None_eq surj_pair)
  then show thesis
  proof cases
    case root
    let ?h' = "h\<lparr> fh_trees := (fh_trees h)[r := Some ?c] \<rparr>"
    obtain h' where "meld [] ?h' = Inr h'" "fh_ok h'" "fh_max_nodes h' = fh_max_nodes h"
      "add_mset (a, i, k) (fh_entries h') = add_mset (a, i, k') (fh_entries h)"
      using meld_rekey [OF ok n(2-4) put [OF c], of "Some ?c" "[]" k'] tree(2,3) root
      by (auto simp: fh_frame_def)
    moreover have "fh_decrease_key i k' h = Inr ?h'" using n(1) root by (simp add: fh_decrease_key_def)
    ultimately show thesis by (intro that) (auto simp: meld_def)
  next
    case kept
    let ?h1 = "h\<lparr> fh_trees := (fh_trees h)[r := Some t] \<rparr>"
    have t: "\<forall>t\<in>set roots. tree_ok t" "tree_ok t"
      using cascade_ok [OF tree(1) kept(2)] c by auto
    have "fn_rank t = r" "fn_marked t" using cascade_rest [OF kept(2) tree(3)] tree(2) by auto
    note h1 = put [OF t(2) this]
    obtain h' where "meld roots ?h1 = Inr h'" "fh_ok h'" "fh_max_nodes h' = fh_max_nodes h"
      "add_mset (a, i, k) (fh_entries h') = add_mset (a, i, k') (fh_entries h)"
      using meld_rekey [OF ok n(2-4) h1, of "Some t" roots k'] t(1) cascade_entries [OF tree(1) kept(2)]
      by (auto simp: fh_frame_def)
    moreover have "fh_decrease_key i k' h = meld roots ?h1"
      using n(1) kept by (simp add: fh_decrease_key_def)
    ultimately show thesis by (intro that) auto
  next
    case cut
    let ?S = "occupied (fh_trees h)"
    let ?h1 = "h\<lparr> fh_trees := (fh_trees h)[r := None], fh_tree_sum := rank_sum (?S - {r}) \<rparr>"
    have t: "\<forall>t\<in>set roots. tree_ok t" using cascade_ok [OF tree(1) cut(2)] c by auto
    have rank: "fn_rank (hd roots) + 1 = r"
      using cascade_root_cut [OF cut(2) tree(1) cut(1)] tree(2) by simp
    have minus: "sum_minus (fh_tree_sum h) r = Inr (rank_sum (?S - {r}))"
      using sum_minus_ok [OF occupied_below [OF forest fh_ok_small [OF ok]] r] forest
      by (simp add: forest_ok_def)
    have h1: "forest_ok ?h1"
      using forest n(2) by (auto simp: forest_ok_def occupied_update intro: slots_ok_update)
    obtain h' where "meld roots ?h1 = Inr h'" "fh_ok h'" "fh_max_nodes h' = fh_max_nodes h"
      "add_mset (a, i, k) (fh_entries h') = add_mset (a, i, k') (fh_entries h)"
      using meld_rekey [OF ok n(2-4) h1, of None roots k'] t cascade_entries [OF tree(1) cut(2)]
      by (auto simp: fh_frame_def)
    moreover have "fh_decrease_key i k' h = meld roots ?h1"
      using n(1,2) cut rank minus by (simp add: fh_decrease_key_def put_tree_def)
    ultimately show thesis by (intro that) auto
  qed
qed

section \<open>The contract of the interface\<close>

lemma fh_delete_min_minimum:
  "fh_delete_min h = rbind (fh_delete_minimum h) (\<lambda>((i, k), h'). Inr (i, h'))"
  unfolding fh_delete_min_def fh_delete_minimum_def
  by (cases "find_min h") (auto simp: rbind_assoc)

lemma content_insert:
  assumes "fh_ok h" "fh_ok h'" "fh_content h i = None"
    and "fh_entries h' = add_mset (a, i, k) (fh_entries h)"
  shows "fh_content h' = (fh_content h)(i \<mapsto> k)"
proof (rule map_eq_iff_some)
  fix j l
  have "(b, i, l) \<notin># fh_entries h" for b l using content_iff [OF assms(1), of i] assms(3) by force
  then show "fh_content h' j = Some l \<longleftrightarrow> ((fh_content h)(i \<mapsto> k)) j = Some l"
    using content_iff [OF assms(1)] content_iff [OF assms(2)] by (auto simp: assms(4))
qed

lemma content_delete:
  assumes "fh_ok h" "fh_ok h'" "fh_entries h = add_mset (a, i, k) (fh_entries h')"
  shows "fh_content h i = Some k" "fh_content h' = (fh_content h)(i := None)"
proof -
  show 1: "fh_content h i = Some k" using content_iff [OF assms(1)] by (auto simp: assms(3))
  have none: "(b, i, l) \<notin># fh_entries h'" for b l
    using assms(1) unfolding fh_ok_def assms(3) by (force simp: image_iff)
  show "fh_content h' = (fh_content h)(i := None)"
  proof (rule map_eq_iff_some)
    fix j l
    show "fh_content h' j = Some l \<longleftrightarrow> ((fh_content h)(i := None)) j = Some l"
      using content_iff [OF assms(1), of j] content_iff [OF assms(2), of j] none by (auto simp: assms(3))
  qed
qed

lemma content_rekey:
  assumes "fh_ok h" "fh_ok h'" "(a, i, k) \<in># fh_entries h"
    and "add_mset (a, i, k) (fh_entries h') = add_mset (a, i, k') (fh_entries h)"
  shows "fh_content h' = (fh_content h)(i \<mapsto> k')"
proof -
  obtain R where R: "fh_entries h = add_mset (a, i, k) R" using assms(3) by (meson multi_member_split)
  then have R': "fh_entries h' = add_mset (a, i, k') R" using assms(4) by (simp add: add_mset_commute)
  have none: "(b, i, l) \<notin># R" for b l
    using assms(1) unfolding fh_ok_def R by (force simp: image_iff)
  show ?thesis
  proof (rule map_eq_iff_some)
    fix j l
    show "fh_content h' j = Some l \<longleftrightarrow> ((fh_content h)(i \<mapsto> k')) j = Some l"
      using content_iff [OF assms(1), of j] content_iff [OF assms(2), of j] none by (auto simp: R R')
  qed
qed

lemma content_empty:
  assumes "fh_ok h"
  shows "fh_content h = Map.empty \<longleftrightarrow> fh_entries h = {#}"
proof -
  have "fh_content h = Map.empty \<longleftrightarrow> (\<forall>i k. fh_content h i \<noteq> Some k)"
    by (metis ext not_None_eq)
  also have "\<dots> \<longleftrightarrow> (\<forall>e. e \<notin># fh_entries h)"
    unfolding content_iff [OF assms] split_paired_All by blast
  finally show ?thesis by (metis multiset_nonemptyE empty_iff set_mset_empty)
qed

lemma content_dom:
  assumes "fh_ok h"
  shows "dom (fh_content h) = set_mset (image_mset entry_item (fh_entries h))"
  by (auto simp: dom_def content_iff [OF assms] intro: rev_image_eqI) blast

interpretation fheap: heap_contract fheap_class fh_ok fh_max_nodes "fib 33"
proof
  fix n :: nat assume "0 < n" "n < fib 33"
  then obtain h :: "'a fheap" where "fh_new n = Inr h" "fh_ok h" "fh_max_nodes h = n" "fh_entries h = {#}"
    by (rule fh_new_ok)
  then show "\<exists>h::'a fheap. hc_new_instance fheap_class n = Inr h \<and> fh_ok h \<and> fh_max_nodes h = n \<and>
      fh_content h = Map.empty"
    using content_empty by (auto simp: fheap_class_def)
next
  fix h :: "'a fheap" and i k assume h: "fh_ok h" "i < fh_max_nodes h" "fh_content h i = None"
  then obtain h' where "fh_insert i k h = Inr h'" "fh_ok h'" "fh_max_nodes h' = fh_max_nodes h"
    "fh_entries h' = add_mset (fh_next h, i, k) (fh_entries h)"
    using fh_insert_ok content_none by metis
  then show "\<exists>h'. hc_insert fheap_class i k h = Inr h' \<and> fh_ok h' \<and> fh_max_nodes h' = fh_max_nodes h \<and>
      fh_content h' = (fh_content h)(i \<mapsto> k)"
    using content_insert [OF h(1) _ h(3)] by (auto simp: fheap_class_def)
next
  fix h :: "'a fheap" and i k k' assume h: "fh_ok h" "fh_content h i = Some k" "k' \<le> k"
  obtain a where a: "(a, i, k) \<in># fh_entries h" using content_iff [OF h(1)] h(2) by blast
  then obtain h' where "fh_decrease_key i k' h = Inr h'" "fh_ok h'" "fh_max_nodes h' = fh_max_nodes h"
    "add_mset (a, i, k) (fh_entries h') = add_mset (a, i, k') (fh_entries h)"
    using fh_decrease_key_ok [OF h(1) _ h(3)] by metis
  then show "\<exists>h'. hc_decrease_key fheap_class i k' h = Inr h' \<and> fh_ok h' \<and>
      fh_max_nodes h' = fh_max_nodes h \<and> fh_content h' = (fh_content h)(i \<mapsto> k')"
    using content_rekey [OF h(1) _ a] by (auto simp: fheap_class_def)
next
  fix h :: "'a fheap" assume h: "fh_ok h" "fh_content h \<noteq> Map.empty"
  then obtain i k h' a where "fh_delete_minimum h = Inr ((i, k), h')" "fh_ok h'"
    "fh_max_nodes h' = fh_max_nodes h" "fh_entries h = add_mset (a, i, k) (fh_entries h')"
    "\<And>e. e \<in># fh_entries h \<Longrightarrow> k \<le> snd (snd e)"
    using fh_delete_minimum_ok content_empty by metis
  moreover have "k \<le> l" if "fh_content h j = Some l" for j l
    using that calculation(5) content_iff [OF h(1)] by force
  ultimately show "\<exists>i k h'. hc_delete_minimum fheap_class h = Inr ((i, k), h') \<and> fh_ok h' \<and>
      fh_max_nodes h' = fh_max_nodes h \<and> fh_content h i = Some k \<and>
      (\<forall>j l. fh_content h j = Some l \<longrightarrow> k \<le> l) \<and> fh_content h' = (fh_content h)(i := None)"
    using content_delete [OF h(1)] by (auto simp: fheap_class_def)
next
  fix h :: "'a fheap"
  show "hc_delete_min fheap_class h =
      rbind (hc_delete_minimum fheap_class h) (\<lambda>((i, k), h'). Inr (i, h'))"
    by (simp add: fheap_class_def fh_delete_min_minimum)
next
  fix h :: "'a fheap" assume h: "fh_ok h"
  show "dom (fh_content h) \<subseteq> {..<fh_max_nodes h}"
    unfolding content_dom [OF h] using fh_ok_entry [OF h] by fastforce
  show "hc_n_items fheap_class h = int (card (dom (fh_content h)))"
    unfolding content_dom [OF h] using h distinct_mset_size [of "image_mset entry_item (fh_entries h)"]
    by (simp add: fheap_class_def fh_n_items_def fh_ok_def)
qed

section \<open>Properties\<close>

text \<open>C10: A well-formed Fibonacci heap implements a map from items to keys: inserting a new item and
  decreasing a key update the map, deleting returns an entry with a least key and removes it, and
  none of them fails or leaves the invariant.\<close>

theorem heap_refines_map:
  assumes "fh_ok h"
  shows "(\<forall>i k. i < fh_max_nodes h \<and> fh_content h i = None \<longrightarrow>
           (\<exists>h'. fh_insert i k h = Inr h' \<and> fh_ok h' \<and> fh_content h' = (fh_content h)(i \<mapsto> k))) \<and>
         (\<forall>i k k'. fh_content h i = Some k \<and> k' \<le> k \<longrightarrow>
           (\<exists>h'. fh_decrease_key i k' h = Inr h' \<and> fh_ok h' \<and> fh_content h' = (fh_content h)(i \<mapsto> k'))) \<and>
         (0 < fh_n_items h \<longrightarrow>
           (\<exists>i k h'. fh_delete_minimum h = Inr ((i, k), h') \<and> fh_delete_min h = Inr (i, h') \<and> fh_ok h' \<and>
              fh_content h i = Some k \<and> (\<forall>j l. fh_content h j = Some l \<longrightarrow> k \<le> l) \<and>
              fh_content h' = (fh_content h)(i := None)))"
proof (intro conjI)
  show "\<forall>i k. i < fh_max_nodes h \<and> fh_content h i = None \<longrightarrow>
      (\<exists>h'. fh_insert i k h = Inr h' \<and> fh_ok h' \<and> fh_content h' = (fh_content h)(i \<mapsto> k))"
    using fheap.insert [OF assms] by (fastforce simp: fheap_class_def)
  show "\<forall>i k k'. fh_content h i = Some k \<and> k' \<le> k \<longrightarrow>
      (\<exists>h'. fh_decrease_key i k' h = Inr h' \<and> fh_ok h' \<and> fh_content h' = (fh_content h)(i \<mapsto> k'))"
    using fheap.decrease_key [OF assms] by (fastforce simp: fheap_class_def)
  show "0 < fh_n_items h \<longrightarrow>
      (\<exists>i k h'. fh_delete_minimum h = Inr ((i, k), h') \<and> fh_delete_min h = Inr (i, h') \<and> fh_ok h' \<and>
         fh_content h i = Some k \<and> (\<forall>j l. fh_content h j = Some l \<longrightarrow> k \<le> l) \<and>
         fh_content h' = (fh_content h)(i := None))"
    using fheap.delete_minimum [OF assms] fheap.n_items_pos [OF assms]
    by (fastforce simp: fheap_class_def fh_delete_min_minimum)
qed

theorem heap_refines_map_witness:
  "\<exists>h h'. fh_new 6 = Inr h \<and> fh_insert 2 (5::int) h = Inr h' \<and> fh_content h' = [2 \<mapsto> 5]"
proof -
  obtain h :: "int fheap" where h: "fh_new 6 = Inr h" "fh_ok h" "fh_max_nodes h = 6" "fh_entries h = {#}"
    using fh_new_ok [of 6] by (auto simp: fib_33)
  then have empty: "fh_content h = Map.empty" using content_empty by blast
  obtain h' where "fh_insert 2 5 h = Inr h'" "fh_content h' = [2 \<mapsto> 5]"
    using conjunct1 [OF heap_refines_map [OF h(2)], rule_format, of 2 5] h(3) empty by auto
  then show ?thesis using h(1) by blast
qed

text \<open>C13: The array of roots, sized with the factor 1.44 that is smaller than the true one, has a
  slot for the rank of every tree that fits into the heap.\<close>

theorem rank_array_suffices:
  assumes "tree_ok t" "size (tree_entries t) \<le> n" "n < fib 33"
  shows "fn_rank t < max_trees_for n \<and> fn_rank t < 31"
  using rank_fits [of "fn_rank t" n] tree_size [OF assms(1)] assms(2,3) by auto

theorem rank_array_suffices_witness:
  "fn_rank (FNode 0 0 (7::int) 1 True [FNode 1 1 9 0 False []]) < max_trees_for 2"
  using rank_array_suffices [of "FNode 0 0 (7::int) 1 True [FNode 1 1 9 0 False []]" 2]
  by (simp add: fib_33)

end
