(* ===== verification/Heap_Cost.thy ===== *)
theory Heap_Cost
  imports Fibonacci_Heap
begin

text \<open>
  Runs of a Fibonacci heap: sequences of legal calls never fail, and \<open>nComps\<close>, the count of the key
  comparisons the class keeps, is bounded by what the calls are charged.
\<close>

section \<open>The number of comparisons\<close>

text \<open>
  The potential of a heap is the number of its trees and of the marked nodes below their roots: what
  an operation does beyond its share is paid from it.
\<close>

fun tree_marks :: "'k fnode \<Rightarrow> nat" where
  "tree_marks (FNode a i k r m cs) = sum_list (map (\<lambda>c. mark_bonus c + tree_marks c) cs)"

abbreviation forest_marks :: "'k fnode list \<Rightarrow> nat" where
  "forest_marks ts \<equiv> sum_list (map tree_marks ts)"

fun slot_potential :: "'k fnode option \<Rightarrow> nat" where
  "slot_potential None = 0"
| "slot_potential (Some t) = 1 + tree_marks t"

definition potential :: "'k fheap \<Rightarrow> nat" where
  "potential h = sum_list (map slot_potential (fh_trees h))"

lemma sum_list_update_nat:
  "r < length xs \<Longrightarrow> sum_list (map f (xs[r := s])) + f (xs ! r) = sum_list (map f xs) + (f s :: nat)"
  by (induction xs arbitrary: r) (auto simp: nth_Cons' split: nat.splits)

lemma tree_marks_set_marked [simp]: "tree_marks (set_marked m t) = tree_marks t"
  by (cases t) simp

lemma tree_marks_set_key [simp]: "tree_marks (set_key k t) = tree_marks t"
  by (cases t) simp

lemma link_trees_marks:
  "link_trees r u l = Inr t \<Longrightarrow> tree_marks t \<le> tree_marks u + tree_marks l"
  by (cases u) (auto simp: mark_bonus_def split: if_splits)

lemma place_comps:
  "place r t h = Inr h' \<Longrightarrow>
     fh_comp_count h' + int (potential h') \<le> fh_comp_count h + int (potential h) + int (tree_marks t) + 1"
proof (induction r t h rule: place.induct)
  case (1 r t h)
  have r: "\<not> length (fh_trees h) \<le> r" using 1(2) by (subst (asm) place.simps) (auto split: if_splits)
  show ?case
  proof (cases "fh_trees h ! r")
    case None
    then obtain v where "h' = h\<lparr> fh_trees := (fh_trees h)[r := Some (set_marked True t)], fh_tree_sum := v \<rparr>"
      using 1(2) r by (subst (asm) place.simps) (auto simp: res_simps)
    then show ?thesis
      using sum_list_update_nat [of r "fh_trees h" slot_potential "Some (set_marked True t)"] r None
      by (simp add: potential_def)
  next
    case (Some temp)
    define p where "p = (if fn_key temp < fn_key t then (temp, t) else (t, temp))"
    obtain u l where p: "p = (u, l)" by (cases p)
    obtain v j where v: "sum_minus (fh_tree_sum h) r = Inr v" and j: "link_trees r u l = Inr j"
      and rest: "place (Suc r) j (h\<lparr> fh_trees := (fh_trees h)[r := None], fh_tree_sum := v,
                                      fh_comp_count := fh_comp_count h + 1 \<rparr>) = Inr h'"
      using 1(2) r Some p unfolding p_def
      by (subst (asm) place.simps) (auto simp: res_simps)
    have "tree_marks j \<le> tree_marks t + tree_marks temp"
      using link_trees_marks [OF j] p by (auto simp: p_def split: if_splits)
    then show ?thesis
      using 1(1) [OF r Some v p_def p [symmetric] j rest] Some r
        sum_list_update_nat [of r "fh_trees h" slot_potential None]
      by (simp add: potential_def)
  qed
qed

lemma meld_comps:
  "meld ts h = Inr h' \<Longrightarrow>
     fh_comp_count h' + int (potential h') \<le>
     fh_comp_count h + int (potential h) + int (forest_marks ts) + int (length ts)"
proof (induction ts arbitrary: h)
  case (Cons t ts)
  then obtain h1 where "place (fn_rank t) t h = Inr h1" "meld ts h1 = Inr h'"
    by (auto simp: meld_def res_simps)
  then show ?case using place_comps [of "fn_rank t" t h h1] Cons.IH [of h1] by simp
qed (simp add: meld_def)

text \<open>A frame counts its siblings, and itself when it is marked and not the root.\<close>

fun frames_marks :: "'k fframe list \<Rightarrow> nat" where
  "frames_marks [] = 0"
| "frames_marks (FFrame a i k r m ls rs # fs) =
     sum_list (map (\<lambda>c. mark_bonus c + tree_marks c) (ls @ rs)) +
     (if m \<and> fs \<noteq> [] then 1 else 0) + frames_marks fs"

lemma plug_marks:
  "tree_marks (plug t fs) = (if fs = [] then 0 else mark_bonus t) + tree_marks t + frames_marks fs"
  by (induction t fs rule: plug.induct) (auto simp: mark_bonus_def)

lemma cascade_marks:
  assumes "cascade roots fs = (roots', rest)"
  shows "forest_marks roots' + length roots' + (case rest of None \<Rightarrow> 0 | Some t \<Rightarrow> tree_marks t) \<le>
         forest_marks roots + length roots + frames_marks fs + 1"
  using assms
proof (induction roots fs rule: cascade.induct)
  case (2 roots a i k r m ls rs fs)
  define p where "p = FNode a i k (r - 1) m (if r - 1 = 0 then [] else ls @ rs)"
  have p: "tree_marks p \<le> sum_list (map (\<lambda>c. mark_bonus c + tree_marks c) (ls @ rs))"
    by (simp add: p_def)
  show ?case
  proof (cases m)
    case False
    then have "roots' = roots" "rest = Some (plug (set_marked True p) fs)"
      using 2(2) by (simp_all add: p_def Let_def)
    then show ?thesis using p by (simp add: plug_marks mark_bonus_def)
  next
    case True
    have *: "cascade (p # roots) fs = (roots', rest)" using 2(2) True by (simp add: p_def Let_def)
    show ?thesis
    proof (cases "fs = []")
      case False
      then show ?thesis using 2(1) [OF p_def True *] p True by simp
    next
      case True
      then show ?thesis using * p by auto
    qed
  qed
qed simp

lemma min_scan_comps: "snd (min_scan ts r best comps) \<le> comps + int r"
proof (induction ts r best comps rule: min_scan.induct)
  case (2 ts r best comps)
  show ?case
  proof (cases "ts ! r")
    case None
    then show ?thesis using 2(1) by simp
  next
    case (Some c)
    then show ?thesis using 2(2) [OF Some] by simp
  qed
qed simp

lemma find_min_comps:
  "find_min h = Inr (t, comps) \<Longrightarrow> comps + 1 \<le> fh_comp_count h + int (length (fh_trees h))"
proof -
  assume "find_min h = Inr (t, comps)"
  then obtain r b where r: "0 \<le> r" "r < int (length (fh_trees h))"
    and m: "min_scan (fh_trees h) (nat r) b (fh_comp_count h) = (t, comps)"
    by (auto simp: find_min_def res_simps not_less not_le split: if_splits option.splits)
  then show ?thesis using min_scan_comps [of "fh_trees h" "nat r" b "fh_comp_count h"] by simp
qed

lemma insert_comps:
  "fh_insert i k h = Inr h' \<Longrightarrow>
     fh_comp_count h' + int (potential h') \<le> fh_comp_count h + int (potential h) + 1"
proof -
  let ?t = "FNode (fh_next h) i k 0 False []"
  let ?h1 = "h\<lparr> fh_next := fh_next h + 1, fh_nodes := (fh_nodes h)[i := Some (fh_next h)] \<rparr>"
  assume "fh_insert i k h = Inr h'"
  then obtain h2 where h2: "meld [?t] ?h1 = Inr h2" "h' = h2\<lparr> fh_item_count := fh_item_count h2 + 1 \<rparr>"
    by (auto simp: fh_insert_def put_node_def res_simps Let_def split: if_splits)
  have "potential ?h1 = potential h" "potential h' = potential h2" by (simp_all add: potential_def h2(2))
  then show ?thesis using meld_comps [OF h2(1)] by (simp add: h2(2))
qed

lemma delete_comps:
  assumes ok: "fh_ok h" and ne: "fh_entries h \<noteq> {#}" and del: "fh_delete_minimum h = Inr (e, h')"
  shows "fh_comp_count h' + int (potential h') + 3 \<le>
    fh_comp_count h + int (potential h) + 2 * int (fh_max_trees h)"
proof -
  obtain t comps r where t: "find_min h = Inr (t, comps)" "r < length (fh_trees h)" "fh_trees h ! r = Some t"
    using find_min_ok [OF fh_ok_forest [OF ok] fh_ok_small [OF ok] ne] by metis
  have rank: "fn_rank t = r" "length (fn_children t) = r"
    using ok slots_okD [OF _ t(2,3)] tree_ok_rank [of t] unfolding fh_ok_def forest_ok_def by auto
  obtain v h2 where h2: "meld (fn_children t) (h\<lparr> fh_comp_count := comps,
      fh_trees := (fh_trees h)[r := None], fh_tree_sum := v \<rparr>) = Inr h2"
    "fh_comp_count h' = fh_comp_count h2" "fh_trees h' = fh_trees h2"
    using del t(1) rank(1)
    by (auto simp: fh_delete_minimum_def put_tree_def put_node_def res_simps split: if_splits)
  let ?h1 = "h\<lparr> fh_comp_count := comps, fh_trees := (fh_trees h)[r := None], fh_tree_sum := v \<rparr>"
  have marks: "forest_marks (fn_children t) \<le> tree_marks t"
    by (cases t) (simp add: sum_list_addf)
  have "potential ?h1 + 1 + tree_marks t = potential h"
    using sum_list_update_nat [OF t(2), of slot_potential None] t(3) by (simp add: potential_def)
  moreover have "potential h' = potential h2" using h2(3) by (simp add: potential_def)
  moreover have "length (fh_trees h) = fh_max_trees h" using ok by (simp add: fh_ok_def forest_ok_def)
  ultimately show ?thesis
    using meld_comps [OF h2(1)] find_min_comps [OF t(1)] marks h2(2) rank(2) t(2) by simp
qed

lemma decrease_comps:
  assumes ok: "fh_ok h" and mem: "(a, i, k) \<in># fh_entries h" and dec: "fh_decrease_key i k' h = Inr h'"
  shows "fh_comp_count h' + int (potential h') \<le> fh_comp_count h + int (potential h) + 2"
proof -
  obtain r c fs where n: "node_of i h = Inr (r, c, fs)" "r < length (fh_trees h)"
    "fh_trees h ! r = Some (plug c fs)" using node_of_ok [OF ok mem] .
  let ?c = "set_key k' c"
  have pot: "sum_list (map slot_potential ((fh_trees h)[r := s])) + 1 + tree_marks (plug c fs)
      = potential h + slot_potential s" for s
    using sum_list_update_nat [OF n(2), of slot_potential s] n(3) by (simp add: potential_def)
  consider (root) "fs = []" | (kept) roots t where "fs \<noteq> []" "cascade [?c] fs = (roots, Some t)"
    | (cut) roots where "fs \<noteq> []" "cascade [?c] fs = (roots, None)"
    by (metis not_None_eq surj_pair)
  then show ?thesis
  proof cases
    case root
    then show ?thesis
      using dec n(1) pot [of "Some ?c"] by (auto simp: fh_decrease_key_def potential_def)
  next
    case kept
    let ?h1 = "h\<lparr> fh_trees := (fh_trees h)[r := Some t] \<rparr>"
    have "meld roots ?h1 = Inr h'" using dec n(1) kept by (simp add: fh_decrease_key_def)
    then have "fh_comp_count h' + int (potential h') \<le>
        fh_comp_count h + int (potential ?h1) + int (forest_marks roots) + int (length roots)"
      using meld_comps [of roots ?h1 h'] by simp
    then show ?thesis
      using cascade_marks [OF kept(2)] pot [of "Some t"] kept(1) by (simp add: potential_def plug_marks)
  next
    case cut
    have rank: "fn_rank (hd roots) + 1 = r"
      using cascade_root_cut [OF cut(2) _ cut(1)] ok slots_okD [OF _ n(2,3)]
      by (auto simp: fh_ok_def forest_ok_def)
    obtain v where m: "meld roots (h\<lparr> fh_trees := (fh_trees h)[r := None], fh_tree_sum := v \<rparr>) = Inr h'"
      using dec n(1,2) cut rank by (auto simp: fh_decrease_key_def put_tree_def res_simps)
    then show ?thesis
      using meld_comps [OF m] cascade_marks [OF cut(2)] pot [of None] cut(1)
      by (simp add: potential_def plug_marks)
  qed
qed

section \<open>Runs of a heap\<close>

datatype 'k heap_op = Insert nat 'k | DecreaseKey nat 'k | DeleteMinimum

fun heap_op_run :: "'k::linorder heap_op \<Rightarrow> 'k fheap \<Rightarrow> 'k fheap res" where
  "heap_op_run (Insert i k) h = fh_insert i k h"
| "heap_op_run (DecreaseKey i k) h = fh_decrease_key i k h"
| "heap_op_run DeleteMinimum h = rbind (fh_delete_minimum h) (\<lambda>(e, h'). Inr h')"

fun heap_op_legal :: "'k::linorder heap_op \<Rightarrow> 'k fheap \<Rightarrow> bool" where
  "heap_op_legal (Insert i k) h \<longleftrightarrow> i < fh_max_nodes h \<and> fh_content h i = None"
| "heap_op_legal (DecreaseKey i k) h \<longleftrightarrow> (case fh_content h i of None \<Rightarrow> False | Some l \<Rightarrow> k \<le> l)"
| "heap_op_legal DeleteMinimum h \<longleftrightarrow> 0 < fh_n_items h"

fun heap_op_cost :: "nat \<Rightarrow> 'k heap_op \<Rightarrow> int" where
  "heap_op_cost trees (Insert i k) = 1"
| "heap_op_cost trees (DecreaseKey i k) = 2"
| "heap_op_cost trees DeleteMinimum = 2 * int trees"

inductive heap_run :: "'k::linorder fheap \<Rightarrow> 'k heap_op list \<Rightarrow> 'k fheap \<Rightarrow> bool" where
  heap_run_Nil: "heap_run h [] h"
| heap_run_step: "heap_run h ops h1 \<Longrightarrow> heap_op_legal x h1 \<Longrightarrow> heap_op_run x h1 = Inr h2 \<Longrightarrow>
    heap_run h (ops @ [x]) h2"

lemma heap_op_ok:
  assumes ok: "fh_ok h" and legal: "heap_op_legal x h"
  obtains h' where "heap_op_run x h = Inr h'" "fh_ok h'" "fh_max_nodes h' = fh_max_nodes h"
    "fh_comp_count h' + int (potential h') \<le>
       fh_comp_count h + int (potential h) + heap_op_cost (fh_max_trees h) x"
proof (cases x)
  case (Insert i k)
  then have "fh_nodes h ! i = None" "i < fh_max_nodes h" using legal content_none [OF ok, of i] by auto
  then obtain h' where "fh_insert i k h = Inr h'" "fh_ok h'" "fh_max_nodes h' = fh_max_nodes h"
    using fh_insert_ok [OF ok] by metis
  then show thesis using insert_comps Insert by (intro that [of h']) auto
next
  case (DecreaseKey i k)
  then obtain l where l: "fh_content h i = Some l" "k \<le> l" using legal by (auto split: option.splits)
  then obtain a where a: "(a, i, l) \<in># fh_entries h" using content_iff [OF ok] by blast
  then obtain h' where "fh_decrease_key i k h = Inr h'" "fh_ok h'" "fh_max_nodes h' = fh_max_nodes h"
    using fh_decrease_key_ok [OF ok a l(2)] by metis
  then show thesis using decrease_comps [OF ok a] DecreaseKey by (intro that [of h']) auto
next
  case DeleteMinimum
  then have ne: "fh_entries h \<noteq> {#}" using legal ok by (auto simp: fh_ok_def fh_n_items_def)
  then obtain e h' where "fh_delete_minimum h = Inr (e, h')" "fh_ok h'" "fh_max_nodes h' = fh_max_nodes h"
    using fh_delete_minimum_ok [OF ok ne] by metis
  then show thesis using delete_comps [OF ok ne, of e h'] DeleteMinimum by (intro that [of h']) auto
qed

lemma heap_run_ok:
  assumes "heap_run h ops h'" "fh_ok h"
  shows "fh_ok h' \<and> fh_max_nodes h' = fh_max_nodes h \<and>
    fh_comp_count h' + int (potential h') \<le>
    fh_comp_count h + int (potential h) + (\<Sum>x\<leftarrow>ops. heap_op_cost (fh_max_trees h) x)"
  using assms
proof (induction rule: heap_run.induct)
  case (heap_run_step h ops h1 x h2)
  then have IH: "fh_ok h1" "fh_max_nodes h1 = fh_max_nodes h"
    "fh_comp_count h1 + int (potential h1) \<le>
     fh_comp_count h + int (potential h) + (\<Sum>x\<leftarrow>ops. heap_op_cost (fh_max_trees h) x)" by auto
  then have "fh_max_trees h1 = fh_max_trees h" using heap_run_step.prems by (simp add: fh_ok_def)
  moreover obtain h3 where h3: "heap_op_run x h1 = Inr h3" "fh_ok h3" "fh_max_nodes h3 = fh_max_nodes h1"
    "fh_comp_count h3 + int (potential h3) \<le>
       fh_comp_count h1 + int (potential h1) + heap_op_cost (fh_max_trees h1) x"
    using heap_op_ok [OF IH(1) heap_run_step.hyps(2)] .
  moreover have "h3 = h2" using h3(1) heap_run_step.hyps(3) by simp
  ultimately have "fh_ok h2" "fh_max_nodes h2 = fh_max_nodes h1"
    "fh_comp_count h2 + int (potential h2) \<le>
       fh_comp_count h1 + int (potential h1) + heap_op_cost (fh_max_trees h) x" by simp_all
  then show ?case using IH(2,3) by auto
qed simp

lemma new_ok:
  assumes "fh_new n = Inr h" "n < fib 33"
  shows "fh_ok h"
proof -
  have "0 < n" using assms(1) by (auto simp: fh_new_def split: if_splits)
  then obtain h0 :: "'a fheap" where "fh_new n = Inr h0" "fh_ok h0" using fh_new_ok assms(2) by metis
  then show ?thesis using assms(1) by simp
qed

lemma run_comparisons:
  assumes "fh_new n = Inr h" "n < fib 33" "heap_run h ops h'"
  shows "fh_n_comps h' \<le> (\<Sum>x\<leftarrow>ops. heap_op_cost (max_trees_for n) x)"
proof -
  have n: "0 < n" using assms(1) by (auto simp: fh_new_def split: if_splits)
  have "fh_ok h" using new_ok [OF assms(1,2)] .
  moreover have "fh_comp_count h = 0" "potential h = 0" "fh_max_trees h = max_trees_for n"
    using assms(1) n by (auto simp: fh_new_def potential_def map_replicate_const sum_list_replicate)
  ultimately show ?thesis using heap_run_ok [OF assms(3)] by (simp add: fh_n_comps_def)
qed

section \<open>Properties\<close>

text \<open>C11: Every legal call on a heap that legal calls have built succeeds, and the heap that results
  is well-formed again.\<close>

theorem legal_calls_never_fail:
  assumes "fh_new n = Inr h" "n < fib 33" "heap_run h ops h'" "heap_op_legal x h'"
  shows "\<exists>h''. heap_op_run x h' = Inr h'' \<and> heap_run h (ops @ [x]) h'' \<and> fh_ok h''"
proof -
  have "fh_ok h'" using heap_run_ok [OF assms(3) new_ok [OF assms(1,2)]] by simp
  then obtain h'' where "heap_op_run x h' = Inr h''" "fh_ok h''" using heap_op_ok assms(4) by metis
  then show ?thesis using heap_run_step [OF assms(3,4)] by blast
qed

theorem legal_calls_never_fail_witness:
  "\<exists>h h'. fh_new 6 = Inr h \<and> heap_op_run (Insert 2 (5::int)) h = Inr h' \<and> fh_ok h'"
proof -
  obtain h :: "int fheap" where h: "fh_new 6 = Inr h" "fh_ok h" "fh_max_nodes h = 6" "fh_entries h = {#}"
    using fh_new_ok [of 6] by (auto simp: fib_33)
  then have "heap_op_legal (Insert 2 5) h" using content_empty [OF h(2)] by simp
  then show ?thesis
    using legal_calls_never_fail [OF h(1) _ heap_run_Nil, of "Insert 2 5"] h(1) by (auto simp: fib_33)
qed

text \<open>C12: The number of key comparisons after any sequence of legal calls is at most one for every
  insertion, two for every decreased key and twice the number of ranks for every deletion.\<close>

theorem comparisons_bounded:
  assumes "fh_new n = Inr h" "n < fib 33" "heap_run h ops h'"
  shows "fh_n_comps h' \<le> (\<Sum>x\<leftarrow>ops. heap_op_cost (max_trees_for n) x)"
  using assms by (rule run_comparisons)

theorem comparisons_bounded_witness:
  "\<exists>h h'. fh_new 6 = Inr h \<and> heap_op_run (Insert 2 (5::int)) h = Inr h' \<and> fh_n_comps h' \<le> 1"
proof -
  obtain h :: "int fheap" where h: "fh_new 6 = Inr h" "fh_ok h" "fh_max_nodes h = 6" "fh_entries h = {#}"
    using fh_new_ok [of 6] by (auto simp: fib_33)
  then have legal: "heap_op_legal (Insert 2 5) h" using content_empty [OF h(2)] by simp
  then obtain h' where h': "heap_op_run (Insert 2 5) h = Inr h'" using heap_op_ok [OF h(2)] by metis
  have "heap_run h ([] @ [Insert 2 5]) h'" by (rule heap_run_step [OF heap_run_Nil legal h'])
  then have "fh_n_comps h' \<le> 1"
    using comparisons_bounded [OF h(1) _ , of "[Insert 2 5]" h'] by (simp add: fib_33)
  then show ?thesis using h(1) h' by blast
qed

text \<open>C17: Whatever legal calls were made on a heap: the tree in slot \<open>r\<close> of the array has \<open>r\<close>
  children at its root, is ordered by its keys and has at least \<open>fib (r + 2)\<close> nodes; \<open>treeSum\<close> has exactly the
  bits of the slots that hold a tree; and \<open>itemCount\<close> is the number of items \<open>nodes\<close> points to.\<close>

theorem heap_well_formed:
  assumes "fh_new n = Inr h" "n < fib 33" "heap_run h ops h'"
  shows "(\<forall>r t. r < length (fh_trees h') \<and> fh_trees h' ! r = Some t \<longrightarrow>
           tree_ok t \<and> fn_rank t = r \<and> fib (r + 2) \<le> size (tree_entries t)) \<and>
         fh_tree_sum h' = (\<Sum>r | r < length (fh_trees h') \<and> fh_trees h' ! r \<noteq> None. 2 ^ r) \<and>
         fh_n_items h' = int (card {i. i < n \<and> fh_nodes h' ! i \<noteq> None})"
proof -
  have n: "fh_max_nodes h = n" using assms(1) by (auto simp: fh_new_def split: if_splits)
  have ok: "fh_ok h'" and m: "fh_max_nodes h' = n"
    using heap_run_ok [OF assms(3) new_ok [OF assms(1,2)]] n by simp_all
  have slots: "slots_ok (fh_trees h')" "fh_tree_sum h' = rank_sum (occupied (fh_trees h'))"
    using fh_ok_forest [OF ok] by (simp_all add: forest_ok_def)
  have "dom (fh_content h') = {i. i < n \<and> fh_nodes h' ! i \<noteq> None}"
  proof (rule set_eqI)
    fix i
    show "i \<in> dom (fh_content h') \<longleftrightarrow> i \<in> {i. i < n \<and> fh_nodes h' ! i \<noteq> None}"
      using fheap.items [OF ok] content_none [OF ok, of i] m by (cases "i < n") (auto simp: subset_iff)
  qed
  then have "fh_n_items h' = int (card {i. i < n \<and> fh_nodes h' ! i \<noteq> None})"
    using fheap.n_items [OF ok] by (simp add: fheap_class_def)
  then show ?thesis
    using slots slots_okD [OF slots(1)] tree_size by (auto simp: rank_sum_def occupied_def)
qed

theorem heap_well_formed_witness:
  "\<exists>h h'. fh_new 6 = Inr h \<and> heap_op_run (Insert 2 (5::int)) h = Inr h' \<and>
     fh_n_items h' = int (card {i. i < 6 \<and> fh_nodes h' ! i \<noteq> None})"
proof -
  obtain h :: "int fheap" where h: "fh_new 6 = Inr h" "fh_ok h" "fh_max_nodes h = 6" "fh_entries h = {#}"
    using fh_new_ok [of 6] by (auto simp: fib_33)
  then have legal: "heap_op_legal (Insert 2 5) h" using content_empty [OF h(2)] by simp
  then obtain h' where h': "heap_op_run (Insert 2 5) h = Inr h'" using heap_op_ok [OF h(2)] by metis
  have "heap_run h ([] @ [Insert 2 5]) h'" by (rule heap_run_step [OF heap_run_Nil legal h'])
  then have "fh_n_items h' = int (card {i. i < 6 \<and> fh_nodes h' ! i \<noteq> None})"
    using heap_well_formed [OF h(1)] by (simp add: fib_33)
  then show ?thesis using h(1) h' by blast
qed

text \<open>The heap is sized for its items and does not notice an item that it holds already: two items
  inserted twice each need a slot that the array does not have. A heap without items has no minimum.\<close>

theorem reinserted_items_overflow:
  "rbind (fh_new 2) (rfold (\<lambda>i. fh_insert i (0::int)) [0, 1, 0, 1]) = Inl UndefinedBehaviour"
proof -
  have "max_trees_for 2 = 2" by (simp add: max_trees_for_def)
  then have new: "fh_new 2 = Inr \<lparr> fh_trees = [None, None], fh_nodes = [None, None],
      fh_max_nodes = 2, fh_max_trees = 2, fh_item_count = 0, fh_tree_sum = 0,
      fh_comp_count = 0, fh_next = 0 \<rparr>"
    by (simp add: fh_new_def numeral_2_eq_2)
  show ?thesis unfolding new by code_simp
qed

theorem empty_heap_has_no_minimum:
  assumes "fh_ok h" "fh_n_items h = 0"
  shows "fh_delete_min h = Inl UndefinedBehaviour \<and> fh_get_min h = Inl UndefinedBehaviour"
proof -
  have "fh_entries h = {#}" using assms by (simp add: fh_ok_def fh_n_items_def)
  then have none: "\<not> (r < length (fh_trees h) \<and> fh_trees h ! r = Some t)" for r t
    using trees_entries_iff [of "node_entry t" "fh_trees h"] node_entry_in [of t] by auto
  then have "occupied (fh_trees h) = {}" unfolding occupied_def by (metis (lifting) Collect_empty_eq not_Some_eq)
  then have "fh_tree_sum h = 0" using assms(1) by (simp add: fh_ok_def forest_ok_def rank_sum_def)
  then have "find_min h = Inl UndefinedBehaviour" by (simp add: find_min_def top_rank.simps)
  then show ?thesis by (simp add: fh_delete_min_def fh_get_min_def)
qed

text \<open>The destructor deletes every node once.\<close>

theorem destructor_deletes_each_node:
  assumes "fh_ok h"
  shows "distinct (fh_destroyed h) \<and> set (fh_destroyed h) = fst ` set_mset (fh_entries h)"
proof -
  have *: "fh_destroyed h = map (\<lambda>i. the (fh_nodes h ! i)) (filter (\<lambda>i. fh_nodes h ! i \<noteq> None) [0..<fh_max_nodes h])"
    by (simp add: fh_destroyed_def List.map_filter_def comp_def)
  have inj: "i = j" if "i < fh_max_nodes h" "j < fh_max_nodes h" "fh_nodes h ! i = Some a"
    "fh_nodes h ! j = Some a" for i j a
    using that fh_ok_node [OF assms] fh_ok_unique [OF assms] by metis
  have "distinct (fh_destroyed h)"
    unfolding * by (auto simp: distinct_map inj_on_def intro: inj)
  moreover have "a \<in> set (fh_destroyed h) \<longleftrightarrow> (\<exists>i k. (a, i, k) \<in># fh_entries h)" for a
  proof -
    have "a \<in> set (fh_destroyed h) \<longleftrightarrow> (\<exists>i<fh_max_nodes h. fh_nodes h ! i = Some a)"
      unfolding * by force
    then show ?thesis using fh_ok_node [OF assms] fh_ok_entry [OF assms] by metis
  qed
  then have "set (fh_destroyed h) = fst ` set_mset (fh_entries h)" by (force simp: set_eq_iff)
  ultimately show ?thesis by blast
qed

end
