(* ===== verification/All_Pairs.thy ===== *)
theory All_Pairs
  imports Shortest_Paths
begin

text \<open>
  \<open>GraphLib/treealgs/floyd_warshall_apsp.cc\<close>: the distances between all pairs of vertices by the algorithm
  of Floyd and Warshall. The three overloads differ in the vertices they run over and in the container of the
  matrices, a map of maps or a vector of vectors, so a matrix is a record of its operations and the locale
  \<open>matrix_contract\<close> has what the algorithm relies on. A graph is the list of its edges in the order in
  which \<open>edges\<close> gives them, and the vertices are those of a \<open>VertexSet\<close> in its order.
\<close>

section \<open>Matrices\<close>

record ('m, 'x) matrix_class =
  mx_get :: "'m \<Rightarrow> nat \<Rightarrow> nat \<Rightarrow> 'x res"
  mx_put :: "nat \<Rightarrow> nat \<Rightarrow> 'x \<Rightarrow> 'm \<Rightarrow> 'm res"

text \<open>A map of maps creates what is missing, so it is a function.\<close>

definition map_matrix :: "(nat \<Rightarrow> nat \<Rightarrow> 'x, 'x) matrix_class" where
  "map_matrix = \<lparr> mx_get = (\<lambda>m i j. Inr (m i j)), mx_put = (\<lambda>i j x m. Inr (m(i := (m i)(j := x)))) \<rparr>"

definition vector_matrix :: "('x list list, 'x) matrix_class" where
  "vector_matrix =
     \<lparr> mx_get = (\<lambda>m i j. rbind (vec_get m i) (\<lambda>row. vec_get row j)),
       mx_put = (\<lambda>i j x m. rbind (vec_get m i) (\<lambda>row. rbind (vec_put j x row) (\<lambda>row'. vec_put i row' m))) \<rparr>"

locale matrix_contract =
  fixes M :: "('m, 'x) matrix_class"
    and ok :: "'m \<Rightarrow> bool"
    and val :: "'m \<Rightarrow> nat \<Rightarrow> nat \<Rightarrow> 'x"
    and Ix :: "nat set"
  assumes get: "ok m \<Longrightarrow> i \<in> Ix \<Longrightarrow> j \<in> Ix \<Longrightarrow> mx_get M m i j = Inr (val m i j)"
    and put: "ok m \<Longrightarrow> i \<in> Ix \<Longrightarrow> j \<in> Ix \<Longrightarrow>
      \<exists>m'. mx_put M i j x m = Inr m' \<and> ok m' \<and>
        (\<forall>a \<in> Ix. \<forall>b \<in> Ix. val m' a b = (if a = i \<and> b = j then x else val m a b))"

interpretation map_mx: matrix_contract map_matrix "\<lambda>_. True" "\<lambda>m. m" UNIV
  by unfold_locales (auto simp: map_matrix_def)

interpretation vec_mx: matrix_contract vector_matrix
    "\<lambda>m. n \<le> length m \<and> (\<forall>i < n. n \<le> length (m ! i))" "\<lambda>m i j. m ! i ! j" "{..<n}"
  for n
proof (unfold_locales, goal_cases)
  case (2 m i j x)
  then have "j < length (m ! i)" by auto
  with 2 show ?case by (auto simp: vector_matrix_def nth_list_update)
qed (auto simp: vector_matrix_def)

section \<open>The algorithm\<close>

type_synonym 'd edges = "(nat \<times> nat \<times> 'd) list"

definition fw_init_pair ::
  "('m, 'd) matrix_class \<Rightarrow> ('p, int) matrix_class \<Rightarrow> 'd distances \<Rightarrow> nat \<Rightarrow> nat \<Rightarrow> 'm \<times> 'p \<Rightarrow> ('m \<times> 'p) res" where
  "fw_init_pair M P D i j = (\<lambda>(d, p).
     rbind (mx_put M i j (if i = j then d_zero D else d_max D) d) (\<lambda>d'.
     rbind (mx_put P i j (- 1) p) (\<lambda>p'. Inr (d', p'))))"

definition fw_init_edge ::
  "('m, 'd) matrix_class \<Rightarrow> ('p, int) matrix_class \<Rightarrow> nat \<times> nat \<times> 'd \<Rightarrow> 'm \<times> 'p \<Rightarrow> ('m \<times> 'p) res" where
  "fw_init_edge M P e = (\<lambda>(d, p). case e of (src, targ, w) \<Rightarrow>
     rbind (mx_put M src targ w d) (\<lambda>d1.
     rbind (mx_put P src targ (int src) p) (\<lambda>p1.
     rbind (mx_put M targ src w d1) (\<lambda>d2.
     rbind (mx_put P targ src (int targ) p1) (\<lambda>p2. Inr (d2, p2))))))"

definition fw_relax ::
  "('m, 'd::linorder) matrix_class \<Rightarrow> ('p, int) matrix_class \<Rightarrow> 'd distances \<Rightarrow> nat \<Rightarrow> nat \<Rightarrow> nat \<Rightarrow>
     'm \<times> 'p \<Rightarrow> ('m \<times> 'p) res" where
  "fw_relax M P D k i j = (\<lambda>(d, p).
     rbind (mx_get M d i j) (\<lambda>dij.
     rbind (mx_get M d i k) (\<lambda>dik.
     rbind (mx_get M d k j) (\<lambda>dkj.
     rbind (if d_add D dik dkj < dij then rbind (mx_get P p k j) (\<lambda>pkj. mx_put P i j pkj p) else Inr p) (\<lambda>p'.
     rbind (mx_put M i j (min dij (d_add D dik dkj)) d) (\<lambda>d'. Inr (d', p')))))))"

definition fw_run ::
  "('m, 'd::linorder) matrix_class \<Rightarrow> ('p, int) matrix_class \<Rightarrow> 'd distances \<Rightarrow> 'd edges \<Rightarrow> nat list \<Rightarrow>
     'm \<Rightarrow> 'p \<Rightarrow> ('m \<times> 'p) res" where
  "fw_run M P D es vs d p =
     rbind (rfold (\<lambda>i. rfold (\<lambda>j. fw_init_pair M P D i j) vs) vs (d, p)) (\<lambda>s.
     rbind (rfold (fw_init_edge M P) es s) (\<lambda>s1.
       rfold (\<lambda>k. rfold (\<lambda>i. rfold (\<lambda>j. fw_relax M P D k i j) vs) vs) vs s1))"

definition floyd_warshall_apsp_tree where
  "floyd_warshall_apsp_tree = fw_run map_matrix map_matrix"

definition floyd_warshall_apsp where
  "floyd_warshall_apsp D es n = fw_run map_matrix map_matrix D es [0..<n]"

definition floyd_warshall_apsp_vectors where
  "floyd_warshall_apsp_vectors = fw_run vector_matrix vector_matrix"

section \<open>The algorithm on functions\<close>

text \<open>What the loops do to the entries, whatever contains them.\<close>

type_synonym 'd entries = "(nat \<Rightarrow> nat \<Rightarrow> 'd) \<times> (nat \<Rightarrow> nat \<Rightarrow> int)"

definition set_entry :: "nat \<Rightarrow> nat \<Rightarrow> 'x \<Rightarrow> (nat \<Rightarrow> nat \<Rightarrow> 'x) \<Rightarrow> nat \<Rightarrow> nat \<Rightarrow> 'x" where
  "set_entry i j x m = (\<lambda>a b. if a = i \<and> b = j then x else m a b)"

definition init_entries :: "'d distances \<Rightarrow> 'd entries" where
  "init_entries D = (\<lambda>i j. if i = j then d_zero D else d_max D, \<lambda>_ _. - 1)"

definition edge_entries :: "nat \<times> nat \<times> 'd \<Rightarrow> 'd entries \<Rightarrow> 'd entries" where
  "edge_entries e s = (case e of (u, v, w) \<Rightarrow>
     (set_entry v u w (set_entry u v w (fst s)), set_entry v u (int v) (set_entry u v (int u) (snd s))))"

definition relax_entries :: "'d::linorder distances \<Rightarrow> nat \<Rightarrow> nat \<times> nat \<Rightarrow> 'd entries \<Rightarrow> 'd entries" where
  "relax_entries D k ij s = (case ij of (i, j) \<Rightarrow>
     if d_add D (fst s i k) (fst s k j) < fst s i j
     then (set_entry i j (d_add D (fst s i k) (fst s k j)) (fst s), set_entry i j (snd s k j) (snd s))
     else s)"

definition phase_entries :: "'d::linorder distances \<Rightarrow> nat list \<Rightarrow> nat \<Rightarrow> 'd entries \<Rightarrow> 'd entries" where
  "phase_entries D vs k s = fold (relax_entries D k) (List.product vs vs) s"

definition run_entries :: "'d::linorder distances \<Rightarrow> 'd edges \<Rightarrow> nat list \<Rightarrow> 'd entries" where
  "run_entries D es vs = fold (phase_entries D vs) vs (fold edge_entries es (init_entries D))"

lemma rfold_product:
  "rfold (\<lambda>i. rfold (\<lambda>j. f i j) ys) xs s = rfold (\<lambda>(i, j). f i j) (List.product xs ys) s"
proof (induction xs arbitrary: s)
  case (Cons x xs)
  have "rfold (\<lambda>j. f x j) ys s = rfold (\<lambda>(i, j). f i j) (map (Pair x) ys) s" for s
    by (induction ys arbitrary: s) (auto intro!: rbind_cong)
  then show ?case using Cons by (auto simp: rfold_append intro!: rbind_cong)
qed simp

text \<open>A step simulates one on functions when the entries stay equal on the indices.\<close>

lemma rfold_simulates:
  assumes "R s t" "\<And>x s t. x \<in> set xs \<Longrightarrow> R s t \<Longrightarrow> \<exists>s'. f x s = Inr s' \<and> R s' (g x t)"
  shows "\<exists>s'. rfold f xs s = Inr s' \<and> R s' (fold g xs t)"
  using assms by (induction xs arbitrary: s t) (simp, fastforce)

locale matrices =
  m: matrix_contract M mok mval Ix + p: matrix_contract P pok pval Ix
  for M :: "('m, 'd::linorder) matrix_class" and mok mval and P :: "('p, int) matrix_class" and pok pval and Ix
begin

definition agree :: "nat set \<Rightarrow> 'm \<times> 'p \<Rightarrow> 'd entries \<Rightarrow> bool" where
  "agree V s t \<longleftrightarrow> mok (fst s) \<and> pok (snd s) \<and>
     (\<forall>i \<in> V. \<forall>j \<in> V. mval (fst s) i j = fst t i j \<and> pval (snd s) i j = snd t i j)"

lemma agreeI:
  "mok (fst s) \<Longrightarrow> pok (snd s) \<Longrightarrow>
     (\<And>a b. a \<in> V \<Longrightarrow> b \<in> V \<Longrightarrow> mval (fst s) a b = fst t a b \<and> pval (snd s) a b = snd t a b) \<Longrightarrow> agree V s t"
  by (simp add: agree_def)

lemma agreeD:
  "agree V s t \<Longrightarrow> a \<in> V \<Longrightarrow> b \<in> V \<Longrightarrow> mval (fst s) a b = fst t a b \<and> pval (snd s) a b = snd t a b"
  by (simp add: agree_def)

lemma puts:
  assumes "mok d" "pok p" "i \<in> Ix" "j \<in> Ix"
  obtains d' p' where "mx_put M i j x d = Inr d'" "mok d'" "mx_put P i j y p = Inr p'" "pok p'"
    "\<And>a b. a \<in> Ix \<Longrightarrow> b \<in> Ix \<Longrightarrow> mval d' a b = (if a = i \<and> b = j then x else mval d a b)"
    "\<And>a b. a \<in> Ix \<Longrightarrow> b \<in> Ix \<Longrightarrow> pval p' a b = (if a = i \<and> b = j then y else pval p a b)"
proof -
  obtain d' where "mx_put M i j x d = Inr d'" "mok d'"
    "\<forall>a \<in> Ix. \<forall>b \<in> Ix. mval d' a b = (if a = i \<and> b = j then x else mval d a b)"
    using m.put[OF assms(1,3,4)] by blast
  moreover obtain p' where "mx_put P i j y p = Inr p'" "pok p'"
    "\<forall>a \<in> Ix. \<forall>b \<in> Ix. pval p' a b = (if a = i \<and> b = j then y else pval p a b)"
    using p.put[OF assms(2-4)] by blast
  ultimately show thesis using that by blast
qed

lemma init_step:
  assumes "mok (fst s) \<and> pok (snd s) \<and> (\<forall>(a, b) \<in> S. mval (fst s) a b = fst (init_entries D) a b \<and> pval (snd s) a b = - 1)"
    and "S \<subseteq> Ix \<times> Ix" "i \<in> Ix" "j \<in> Ix"
  shows "\<exists>s'. fw_init_pair M P D i j s = Inr s' \<and> mok (fst s') \<and> pok (snd s') \<and>
    (\<forall>(a, b) \<in> insert (i, j) S. mval (fst s') a b = fst (init_entries D) a b \<and> pval (snd s') a b = - 1)"
proof -
  obtain d p where s: "s = (d, p)" by force
  have ok: "mok d" "pok p" using assms(1) s by simp_all
  obtain d' p' where 1: "mx_put M i j (if i = j then d_zero D else d_max D) d = Inr d'" "mok d'"
    "mx_put P i j (- 1) p = Inr p'" "pok p'"
    "\<And>a b. a \<in> Ix \<Longrightarrow> b \<in> Ix \<Longrightarrow> mval d' a b = (if a = i \<and> b = j then if i = j then d_zero D else d_max D else mval d a b)"
    "\<And>a b. a \<in> Ix \<Longrightarrow> b \<in> Ix \<Longrightarrow> pval p' a b = (if a = i \<and> b = j then - 1 else pval p a b)"
    using puts[OF ok assms(3,4), of "if i = j then d_zero D else d_max D" "- 1"] by blast
  have "mval d' a b = fst (init_entries D) a b \<and> pval p' a b = - 1" if ab: "(a, b) \<in> insert (i, j) S" for a b
  proof -
    have "a \<in> Ix" "b \<in> Ix" using ab assms(2-4) by auto
    from 1(5,6)[OF this] show ?thesis
      using bspec[OF conjunct2[OF conjunct2[OF assms(1)]], of "(a, b)"] ab by (auto simp: init_entries_def s)
  qed
  then show ?thesis using 1(1-4) by (intro exI[of _ "(d', p')"]) (auto simp: fw_init_pair_def s)
qed

lemma init_all:
  assumes "mok (fst s)" "pok (snd s)" "set vs \<subseteq> Ix"
  shows "\<exists>s'. rfold (\<lambda>i. rfold (\<lambda>j. fw_init_pair M P D i j) vs) vs s = Inr s' \<and> agree (set vs) s' (init_entries D)"
proof -
  have "\<exists>s'. rfold (\<lambda>(i, j). fw_init_pair M P D i j) ps s = Inr s' \<and> mok (fst s') \<and> pok (snd s') \<and>
      (\<forall>(a, b) \<in> set ps \<union> S. mval (fst s') a b = fst (init_entries D) a b \<and> pval (snd s') a b = - 1)"
    if "mok (fst s) \<and> pok (snd s) \<and> (\<forall>(a, b) \<in> S. mval (fst s) a b = fst (init_entries D) a b \<and> pval (snd s) a b = - 1)"
      "S \<subseteq> Ix \<times> Ix" "set ps \<subseteq> Ix \<times> Ix" for S s ps
    using that
  proof (induction ps arbitrary: S s)
    case (Cons ij ps)
    obtain i j where ij: "ij = (i, j)" by force
    obtain s' where "fw_init_pair M P D i j s = Inr s'" "mok (fst s') \<and> pok (snd s') \<and>
        (\<forall>(a, b) \<in> insert (i, j) S. mval (fst s') a b = fst (init_entries D) a b \<and> pval (snd s') a b = - 1)"
      using init_step[OF Cons.prems(1,2), of i j] Cons.prems(3) ij by auto
    then show ?case using Cons.IH[of s' "insert (i, j) S"] Cons.prems(2,3) ij by auto
  qed auto
  from this[of s "{}" "List.product vs vs"] show ?thesis
    using assms by (force simp: rfold_product agree_def init_entries_def)
qed

lemma edge_step:
  assumes "agree V s t" "V \<subseteq> Ix" "fst e \<in> Ix" "fst (snd e) \<in> Ix"
  shows "\<exists>s'. fw_init_edge M P e s = Inr s' \<and> agree V s' (edge_entries e t)"
proof -
  obtain u v w where e: "e = (u, v, w)" by (cases e)
  obtain d p where s: "s = (d, p)" by force
  have uv: "u \<in> Ix" "v \<in> Ix" using assms(3,4) e by simp_all
  have ok: "mok d" "pok p" using assms(1) s by (simp_all add: agree_def)
  obtain d1 p1 where 1: "mx_put M u v w d = Inr d1" "mok d1" "mx_put P u v (int u) p = Inr p1" "pok p1"
    "\<And>a b. a \<in> Ix \<Longrightarrow> b \<in> Ix \<Longrightarrow> mval d1 a b = (if a = u \<and> b = v then w else mval d a b)"
    "\<And>a b. a \<in> Ix \<Longrightarrow> b \<in> Ix \<Longrightarrow> pval p1 a b = (if a = u \<and> b = v then int u else pval p a b)"
    using puts[OF ok uv, of w "int u"] by blast
  obtain d2 p2 where 2: "mx_put M v u w d1 = Inr d2" "mok d2" "mx_put P v u (int v) p1 = Inr p2" "pok p2"
    "\<And>a b. a \<in> Ix \<Longrightarrow> b \<in> Ix \<Longrightarrow> mval d2 a b = (if a = v \<and> b = u then w else mval d1 a b)"
    "\<And>a b. a \<in> Ix \<Longrightarrow> b \<in> Ix \<Longrightarrow> pval p2 a b = (if a = v \<and> b = u then int v else pval p1 a b)"
    using puts[OF 1(2,4) uv(2,1), of w "int v"] by blast
  have "fw_init_edge M P e s = Inr (d2, p2)" using 1 2 by (simp add: fw_init_edge_def e s)
  moreover have "agree V (d2, p2) (edge_entries e t)"
  proof (rule agreeI)
    show "mval (fst (d2, p2)) a b = fst (edge_entries e t) a b \<and> pval (snd (d2, p2)) a b = snd (edge_entries e t) a b"
      if ab: "a \<in> V" "b \<in> V" for a b
    proof -
      have ix: "a \<in> Ix" "b \<in> Ix" using ab assms(2) by auto
      have "mval d a b = fst t a b" "pval p a b = snd t a b" using agreeD[OF assms(1) ab] s by simp_all
      then show ?thesis
        by (simp only: edge_entries_def set_entry_def e prod.case fst_conv snd_conv 2(5,6)[OF ix] 1(5,6)[OF ix])
    qed
  qed (simp_all add: 2)
  ultimately show ?thesis by blast
qed

lemma relax_step:
  assumes "agree V s t" "V \<subseteq> Ix" "k \<in> V" "i \<in> V" "j \<in> V"
  shows "\<exists>s'. fw_relax M P D k i j s = Inr s' \<and> agree V s' (relax_entries D k (i, j) t)"
proof -
  obtain d p where s: "s = (d, p)" by force
  have ix: "i \<in> Ix" "j \<in> Ix" "k \<in> Ix" using assms by auto
  have ok: "mok d" "pok p" using assms(1) s by (simp_all add: agree_def)
  have vals: "mval d a b = fst t a b" "pval p a b = snd t a b" if "a \<in> V" "b \<in> V" for a b
    using assms(1) s that by (simp_all add: agree_def)
  let ?sum = "d_add D (fst t i k) (fst t k j)"
  obtain d' p' where 1: "mx_put M i j (min (fst t i j) ?sum) d = Inr d'" "mok d'"
    "mx_put P i j (snd t k j) p = Inr p'" "pok p'"
    "\<And>a b. a \<in> Ix \<Longrightarrow> b \<in> Ix \<Longrightarrow> mval d' a b = (if a = i \<and> b = j then min (fst t i j) ?sum else mval d a b)"
    "\<And>a b. a \<in> Ix \<Longrightarrow> b \<in> Ix \<Longrightarrow> pval p' a b = (if a = i \<and> b = j then snd t k j else pval p a b)"
    using puts[OF ok ix(1,2), of "min (fst t i j) ?sum" "snd t k j"] by blast
  have "fw_relax M P D k i j s = Inr (d', if ?sum < fst t i j then p' else p)"
    using 1 ok ix assms(3-5) by (simp add: fw_relax_def s m.get p.get vals)
  moreover have "agree V (d', if ?sum < fst t i j then p' else p) (relax_entries D k (i, j) t)"
  proof (rule agreeI)
    show "mval (fst (d', if ?sum < fst t i j then p' else p)) a b = fst (relax_entries D k (i, j) t) a b \<and>
        pval (snd (d', if ?sum < fst t i j then p' else p)) a b = snd (relax_entries D k (i, j) t) a b"
      if ab: "a \<in> V" "b \<in> V" for a b
    proof -
      have ix: "a \<in> Ix" "b \<in> Ix" using ab assms(2) by auto
      show ?thesis using vals[OF ab] 1(5,6)[OF ix]
        by (cases "?sum < fst t i j"; cases "a = i \<and> b = j")
          (auto simp: relax_entries_def set_entry_def not_less min.absorb1 min.absorb4)
    qed
  qed (use 1 ok in simp_all)
  ultimately show ?thesis by blast
qed

lemma run_simulates:
  assumes "mok d" "pok p" "set vs \<subseteq> Ix" "\<forall>(u, v, w) \<in> set es. u \<in> Ix \<and> v \<in> Ix"
  shows "\<exists>s. fw_run M P D es vs d p = Inr s \<and> agree (set vs) s (run_entries D es vs)"
proof -
  obtain s where s: "rfold (\<lambda>i. rfold (\<lambda>j. fw_init_pair M P D i j) vs) vs (d, p) = Inr s"
    "agree (set vs) s (init_entries D)"
    using init_all[of "(d, p)" vs D] assms by auto
  obtain s1 where s1: "rfold (fw_init_edge M P) es s = Inr s1" "agree (set vs) s1 (fold edge_entries es (init_entries D))"
  proof (atomize_elim, rule rfold_simulates[where R = "agree (set vs)", OF s(2)])
    show "\<exists>s'. fw_init_edge M P e s = Inr s' \<and> agree (set vs) s' (edge_entries e t)"
      if "e \<in> set es" "agree (set vs) s t" for e s t
    proof (rule edge_step[OF that(2) assms(3)])
      show "fst e \<in> Ix" "fst (snd e) \<in> Ix" using bspec[OF assms(4) that(1)] by (simp_all add: case_prod_beta)
    qed
  qed
  have phase: "\<exists>s'. rfold (\<lambda>i. rfold (\<lambda>j. fw_relax M P D k i j) vs) vs s = Inr s' \<and>
      agree (set vs) s' (phase_entries D vs k t)" if "k \<in> set vs" "agree (set vs) s t" for k s t
    unfolding rfold_product phase_entries_def
  proof (rule rfold_simulates[where R = "agree (set vs)", OF that(2)])
    show "\<exists>s'. (case ij of (i, j) \<Rightarrow> fw_relax M P D k i j) s = Inr s' \<and> agree (set vs) s' (relax_entries D k ij t)"
      if "ij \<in> set (List.product vs vs)" "agree (set vs) s t" for ij s t
      using relax_step[OF that(2) assms(3) \<open>k \<in> set vs\<close>, of "fst ij" "snd ij"] that(1) by auto
  qed
  show ?thesis
    using rfold_simulates[where R = "agree (set vs)" and g = "phase_entries D vs", OF s1(2) phase] s(1) s1(1)
    by (simp add: fw_run_def run_entries_def)
qed

end

section \<open>Walks over chosen vertices\<close>

definition joins :: "'d edges \<Rightarrow> nat \<Rightarrow> nat \<Rightarrow> 'd \<Rightarrow> bool" where
  "joins es u v w \<longleftrightarrow> (u, v, w) \<in> set es \<or> (v, u, w) \<in> set es"

text \<open>A walk all of whose inner vertices are in \<open>K\<close>.\<close>

inductive through :: "'d distances \<Rightarrow> 'd edges \<Rightarrow> nat set \<Rightarrow> nat \<Rightarrow> nat \<Rightarrow> 'd \<Rightarrow> bool" for D es K i where
  through_none: "through D es K i i (d_zero D)"
| through_edge: "joins es i j w \<Longrightarrow> through D es K i j w"
| through_step: "through D es K i u x \<Longrightarrow> u \<in> K \<Longrightarrow> joins es u j w \<Longrightarrow> through D es K i j (d_add D x w)"

text \<open>
  The sums of several weights are compared, so the arithmetic is exact here. Two edges that join the same
  vertices have the same weight, and none joins a vertex with itself.
\<close>

definition exact_distances :: "'d::linorder distances \<Rightarrow> bool" where
  "exact_distances D \<longleftrightarrow> distances_ok D \<and> (\<forall>a. d_add D a (d_zero D) = a) \<and>
     (\<forall>a b. d_add D a b = d_add D b a) \<and> (\<forall>a b c. d_add D (d_add D a b) c = d_add D a (d_add D b c))"

definition edges_ok :: "'d::linorder distances \<Rightarrow> 'd edges \<Rightarrow> bool" where
  "edges_ok D es \<longleftrightarrow> (\<forall>u v w. joins es u v w \<longrightarrow> u \<noteq> v \<and> d_zero D \<le> w \<and> w \<le> d_max D) \<and>
     (\<forall>u v w w'. joins es u v w \<longrightarrow> joins es u v w' \<longrightarrow> w = w')"

lemma exactD:
  assumes "exact_distances D"
  shows "d_add D a (d_zero D) = a" "d_add D a b = d_add D b a"
    "d_add D (d_add D a b) c = d_add D a (d_add D b c)" "d_zero D \<le> d_max D"
    "d_zero D \<le> w \<Longrightarrow> a \<le> b \<Longrightarrow> d_add D w a \<le> d_add D w b" "d_zero D \<le> w \<Longrightarrow> a \<le> d_add D w a"
  using assms unfolding exact_distances_def distances_ok_def by blast+

lemma exact_increases:
  assumes "exact_distances D" "d_zero D \<le> b"
  shows "a \<le> d_add D a b"
  using exactD(6)[OF assms] unfolding exactD(2)[OF assms(1), of b] .

lemma exact_mono:
  assumes "exact_distances D" "d_zero D \<le> a" "d_zero D \<le> b'" "a \<le> a'" "b \<le> b'"
  shows "d_add D a b \<le> d_add D a' b'"
proof -
  have "d_add D a b \<le> d_add D a b'" by (rule exactD(5)[OF assms(1,2,5)])
  also have "d_add D a b' = d_add D b' a" by (rule exactD(2)[OF assms(1)])
  also have "\<dots> \<le> d_add D b' a'" by (rule exactD(5)[OF assms(1,3,4)])
  also have "d_add D b' a' = d_add D a' b'" by (rule exactD(2)[OF assms(1)])
  finally show ?thesis .
qed

lemma through_nonneg:
  assumes "exact_distances D" "edges_ok D es" "through D es K i j x"
  shows "d_zero D \<le> x"
  using assms(3)
proof (induction rule: through.induct)
  case (through_step u x j w)
  then have w: "d_zero D \<le> w" using assms(2) by (auto simp: edges_ok_def)
  show ?case by (rule order_trans[OF through_step.IH exact_increases[OF assms(1) w]])
qed (use assms(2) in \<open>auto simp: edges_ok_def\<close>)

lemma through_trans:
  assumes "exact_distances D" "through D es K i k a" "k \<in> K" "through D es K k j b"
  shows "through D es K i j (d_add D a b)"
  using assms(4,2,3)
proof (induction rule: through.induct)
  case through_none
  then show ?case using exactD(1)[OF assms(1)] by simp
next
  case (through_edge j w)
  then show ?case by (auto intro: through.through_step)
next
  case (through_step u x j w)
  then have "through D es K i j (d_add D (d_add D a x) w)" by (auto intro: through.through_step)
  then show ?case unfolding exactD(3)[OF assms(1)] .
qed

lemma through_split:
  assumes "exact_distances D" "edges_ok D es" "through D es (insert k K) i j x"
  shows "through D es K i j x \<or>
    (\<exists>a b. through D es K i k a \<and> through D es K k j b \<and> d_add D a b \<le> x)"
  using assms(3)
proof (induction rule: through.induct)
  case (through_step u x j w)
  have w: "d_zero D \<le> w" using assms(2) through_step.hyps(3) by (auto simp: edges_ok_def)
  have edge: "through D es K k j w" if "u = k" using through_step.hyps(3) that by (auto intro: through_edge)
  from through_step.IH show ?case
  proof (elim disjE exE conjE)
    assume d: "through D es K i u x"
    show ?case
    proof (cases "u = k")
      case True
      with d edge show ?thesis by blast
    next
      case False
      with d through_step.hyps(2,3) show ?thesis by (auto intro: through.through_step)
    qed
  next
    fix a b assume ab: "through D es K i k a" "through D es K k u b" "d_add D a b \<le> x"
    have nonneg: "d_zero D \<le> a" "d_zero D \<le> b" using through_nonneg[OF assms(1,2)] ab by blast+
    have "d_zero D \<le> d_add D a b" using nonneg(1) exact_increases[OF assms(1) nonneg(2), of a] by (rule order_trans)
    then have sum: "d_add D a (d_add D b w) \<le> d_add D x w"
      using exact_mono[OF assms(1) _ w ab(3) order_refl] unfolding exactD(3)[OF assms(1)] by blast
    show ?case
    proof (cases "u = k")
      case True
      have "d_add D a w \<le> d_add D a (d_add D b w)"
        by (rule exactD(5)[OF assms(1) nonneg(1) exactD(6)[OF assms(1) nonneg(2)]])
      with True edge ab(1) sum show ?thesis by (meson order_trans)
    next
      case False
      with ab through_step.hyps(2,3) have "through D es K k j (d_add D b w)" by (auto intro: through.through_step)
      with ab(1) sum show ?thesis by blast
    qed
  qed
qed (auto intro: through.intros)

section \<open>The invariant of the phases\<close>

definition entry_ok :: "'d::linorder distances \<Rightarrow> 'd edges \<Rightarrow> nat set \<Rightarrow> nat \<Rightarrow> nat \<Rightarrow> 'd \<Rightarrow> int \<Rightarrow> bool" where
  "entry_ok D es V i j y p \<longleftrightarrow> y \<le> d_max D \<and> (i = j \<longrightarrow> y = d_zero D) \<and>
     (y = d_max D \<or> through D es V i j y) \<and>
     (i \<noteq> j \<longrightarrow> y \<noteq> d_max D \<longrightarrow>
        (\<exists>u x w. p = int u \<and> u \<in> V \<and> through D es V i u x \<and> joins es u j w \<and> y = d_add D x w))"

definition fw_sound :: "'d::linorder distances \<Rightarrow> 'd edges \<Rightarrow> nat set \<Rightarrow> 'd entries \<Rightarrow> bool" where
  "fw_sound D es V s \<longleftrightarrow> (\<forall>i \<in> V. \<forall>j \<in> V. entry_ok D es V i j (fst s i j) (snd s i j))"

definition fw_least :: "'d::linorder distances \<Rightarrow> 'd edges \<Rightarrow> nat set \<Rightarrow> nat set \<Rightarrow> 'd entries \<Rightarrow> bool" where
  "fw_least D es V K s \<longleftrightarrow> (\<forall>i \<in> V. \<forall>j \<in> V. \<forall>x. through D es K i j x \<longrightarrow> fst s i j \<le> x)"

lemma fw_soundD:
  assumes "fw_sound D es V s" "i \<in> V" "j \<in> V"
  shows "fst s i j \<le> d_max D" "i = j \<Longrightarrow> fst s i j = d_zero D"
    "fst s i j \<noteq> d_max D \<Longrightarrow> through D es V i j (fst s i j)"
    "i \<noteq> j \<Longrightarrow> fst s i j \<noteq> d_max D \<Longrightarrow>
       \<exists>u x w. snd s i j = int u \<and> u \<in> V \<and> through D es V i u x \<and> joins es u j w \<and> fst s i j = d_add D x w"
  using assms unfolding fw_sound_def entry_ok_def by blast+

lemma fw_sound_nonneg:
  assumes "exact_distances D" "edges_ok D es" "fw_sound D es V s" "i \<in> V" "j \<in> V"
  shows "d_zero D \<le> fst s i j"
  using fw_soundD(3)[OF assms(3-5)] through_nonneg[OF assms(1,2)] exactD(4)[OF assms(1)] by metis

lemma relax_decreases: "fst (relax_entries D k ij s) a b \<le> fst s a b"
  by (auto simp: relax_entries_def set_entry_def split: prod.splits)

lemma relaxes_decrease: "fst (fold (relax_entries D k) ps s) a b \<le> fst s a b"
proof (induction ps arbitrary: s)
  case (Cons p ps)
  show ?case using order_trans[OF Cons.IH relax_decreases[of D k p s a b]] by simp
qed simp

lemma relax_sound:
  assumes D: "exact_distances D" "edges_ok D es" and s: "fw_sound D es V s" and V: "k \<in> V" "i \<in> V" "j \<in> V"
  shows "fw_sound D es V (relax_entries D k (i, j) s)"
proof (cases "d_add D (fst s i k) (fst s k j) < fst s i j")
  case True
  let ?x = "d_add D (fst s i k) (fst s k j)"
  have nonneg: "d_zero D \<le> fst s i k" "d_zero D \<le> fst s k j" using fw_sound_nonneg[OF D s] V by blast+
  have le: "fst s i k \<le> ?x" "fst s k j \<le> ?x"
    by (rule exact_increases[OF D(1) nonneg(2)], rule exactD(6)[OF D(1) nonneg(1)])
  have small: "?x < d_max D" using True fw_soundD(1)[OF s V(2,3)] by (rule less_le_trans)
  then have ne: "fst s i k \<noteq> d_max D" "fst s k j \<noteq> d_max D" using le by auto
  have ik: "through D es V i k (fst s i k)" and kj: "through D es V k j (fst s k j)"
    using fw_soundD(3)[OF s] V ne by blast+
  have "i \<noteq> j"
  proof
    assume "i = j"
    then have "fst s i j = d_zero D" by (rule fw_soundD(2)[OF s V(2,3)])
    moreover have "d_zero D \<le> ?x" by (rule order_trans[OF nonneg(1) le(1)])
    ultimately show False using True by simp
  qed
  have "k \<noteq> j" using True le(1) by auto
  then obtain u x w where u: "snd s k j = int u" "u \<in> V" "through D es V k u x" "joins es u j w" "fst s k j = d_add D x w"
    using fw_soundD(4)[OF s V(1,3) _ ne(2)] by blast
  have "through D es V i u (d_add D (fst s i k) x)" by (rule through_trans[OF D(1) ik V(1) u(3)])
  moreover have "?x = d_add D (d_add D (fst s i k) x) w" unfolding u(5) exactD(3)[OF D(1)] ..
  ultimately have "\<exists>u x w. snd s k j = int u \<and> u \<in> V \<and> through D es V i u x \<and> joins es u j w \<and> ?x = d_add D x w"
    using u by blast
  moreover have "through D es V i j ?x" by (rule through_trans[OF D(1) ik V(1) kj])
  ultimately have new: "entry_ok D es V i j ?x (snd s k j)"
    unfolding entry_ok_def using \<open>i \<noteq> j\<close> small by (simp add: less_imp_le)
  have entries: "relax_entries D k (i, j) s = (set_entry i j ?x (fst s), set_entry i j (snd s k j) (snd s))"
    using True by (simp add: relax_entries_def)
  show ?thesis unfolding fw_sound_def entries fst_conv snd_conv set_entry_def
    using new s[unfolded fw_sound_def] by simp
qed (use s in \<open>simp add: relax_entries_def\<close>)

lemma relaxations_ok:
  assumes D: "exact_distances D" "edges_ok D es" and k: "k \<in> V"
    and s: "fw_sound D es V s" "set ps \<subseteq> V \<times> V"
    and start: "\<And>a b. a \<in> V \<Longrightarrow> b \<in> V \<Longrightarrow> fst s a b \<le> m a b"
  shows "fw_sound D es V (fold (relax_entries D k) ps s) \<and>
    (\<forall>(i, j) \<in> set ps. fst (fold (relax_entries D k) ps s) i j \<le> d_add D (m i k) (m k j))"
  using s start
proof (induction ps arbitrary: s)
  case (Cons ij ps)
  obtain i j where ij: "ij = (i, j)" "i \<in> V" "j \<in> V" using Cons.prems(2) by auto
  let ?s = "relax_entries D k (i, j) s"
  have sound: "fw_sound D es V ?s" by (rule relax_sound[OF D Cons.prems(1) k ij(2,3)])
  have below: "fst ?s a b \<le> m a b" if "a \<in> V" "b \<in> V" for a b
    using relax_decreases[of D k "(i, j)" s a b] Cons.prems(3)[OF that] by simp
  have nonneg: "d_zero D \<le> fst s i k" "d_zero D \<le> fst s k j"
    using fw_sound_nonneg[OF D Cons.prems(1)] ij k by blast+
  have "fst ?s i j \<le> d_add D (fst s i k) (fst s k j)"
    by (auto simp: relax_entries_def set_entry_def)
  also have "\<dots> \<le> d_add D (m i k) (m k j)"
    using Cons.prems(3) ij k nonneg by (intro exact_mono[OF D(1)]) (auto intro: order_trans)
  finally have "fst (fold (relax_entries D k) ps ?s) i j \<le> d_add D (m i k) (m k j)"
    using relaxes_decrease[of D k ps ?s i j] by simp
  then show ?case using Cons.IH[OF sound _ below] Cons.prems(2) ij by auto
qed simp

lemma phase_ok:
  assumes D: "exact_distances D" "edges_ok D es" and k: "k \<in> set vs"
    and s: "fw_sound D es (set vs) s" "fw_least D es (set vs) K s"
  shows "fw_sound D es (set vs) (phase_entries D vs k s) \<and> fw_least D es (set vs) (insert k K) (phase_entries D vs k s)"
proof -
  let ?s = "phase_entries D vs k s"
  have r: "fw_sound D es (set vs) ?s"
    "\<And>i j. i \<in> set vs \<Longrightarrow> j \<in> set vs \<Longrightarrow> fst ?s i j \<le> d_add D (fst s i k) (fst s k j)"
    using relaxations_ok[OF D k s(1), of "List.product vs vs" "fst s"] by (auto simp: phase_entries_def)
  have "fst ?s i j \<le> x" if ij: "i \<in> set vs" "j \<in> set vs" and x: "through D es (insert k K) i j x" for i j x
  proof -
    from through_split[OF D x] show ?thesis
    proof (elim disjE exE conjE)
      assume "through D es K i j x"
      then have "fst s i j \<le> x" using s(2) ij by (simp add: fw_least_def)
      then show ?thesis using relaxes_decrease[of D k "List.product vs vs" s i j] by (simp add: phase_entries_def)
    next
      fix a b assume ab: "through D es K i k a" "through D es K k j b" "d_add D a b \<le> x"
      then have "fst s i k \<le> a" "fst s k j \<le> b" using s(2) ij k by (simp_all add: fw_least_def)
      then have "d_add D (fst s i k) (fst s k j) \<le> d_add D a b"
        using fw_sound_nonneg[OF D s(1)] through_nonneg[OF D ab(2)] ij k by (intro exact_mono[OF D(1)]) auto
      with r(2)[OF ij] ab(3) show ?thesis by (meson order_trans)
    qed
  qed
  then show ?thesis using r(1) by (simp add: fw_least_def)
qed

text \<open>After the edges every pair that is joined has the weight of its edge, every other pair what it had.\<close>

lemma edges_entries:
  "(\<exists>w. joins es i j w \<and> fst (fold edge_entries es s) i j = w \<and> snd (fold edge_entries es s) i j = int i) \<or>
   (\<forall>w. \<not> joins es i j w) \<and> fst (fold edge_entries es s) i j = fst s i j \<and>
     snd (fold edge_entries es s) i j = snd s i j"
proof (induction es rule: rev_induct)
  case (snoc e es)
  obtain u v w where e: "e = (u, v, w)" by (cases e)
  show ?case
  proof (cases "i = u \<and> j = v \<or> i = v \<and> j = u")
    case True
    then have "joins (es @ [e]) i j w" by (auto simp: joins_def e)
    moreover have "fst (fold edge_entries (es @ [e]) s) i j = w" "snd (fold edge_entries (es @ [e]) s) i j = int i"
      using True by (auto simp: edge_entries_def set_entry_def e)
    ultimately show ?thesis by blast
  next
    case False
    then have same: "joins (es @ [e]) i j x \<longleftrightarrow> joins es i j x" for x by (auto simp: joins_def e)
    have n: "(i = v \<and> j = u) = False" "(i = u \<and> j = v) = False" using False by auto
    have last: "fold edge_entries (es @ [(u, v, w)]) s = edge_entries (u, v, w) (fold edge_entries es s)" by simp
    moreover have "fst (fold edge_entries (es @ [e]) s) i j = fst (fold edge_entries es s) i j"
      "snd (fold edge_entries (es @ [e]) s) i j = snd (fold edge_entries es s) i j"
      by (simp_all only: e last edge_entries_def prod.case fst_conv snd_conv set_entry_def n if_False)
    ultimately show ?thesis using snoc.IH same by simp
  qed
qed (simp add: joins_def)

lemma start_entries_ok:
  assumes D: "exact_distances D" "edges_ok D es"
  shows "fw_sound D es V (fold edge_entries es (init_entries D))"
    and "fw_least D es V {} (fold edge_entries es (init_entries D))"
proof -
  let ?s = "fold edge_entries es (init_entries D)"
  have cases: "(\<exists>w. joins es i j w \<and> i \<noteq> j \<and> w \<le> d_max D \<and> d_zero D \<le> w \<and> fst ?s i j = w \<and> snd ?s i j = int i) \<or>
      (\<forall>w. \<not> joins es i j w) \<and> fst ?s i j = (if i = j then d_zero D else d_max D)" for i j
    using edges_entries[of es i j "init_entries D"] D(2) by (auto simp: edges_ok_def init_entries_def)
  have zero: "fst ?s i i = d_zero D" for i using cases[of i i] by auto
  show "fw_sound D es V ?s"
    unfolding fw_sound_def
  proof (intro ballI)
    fix i j assume ij: "i \<in> V" "j \<in> V"
    from cases[of i j] show "entry_ok D es V i j (fst ?s i j) (snd ?s i j)"
    proof (elim disjE exE conjE)
      fix w assume w: "joins es i j w" "i \<noteq> j" "w \<le> d_max D" "fst ?s i j = w" "snd ?s i j = int i"
      have "w = d_add D (d_zero D) w" using exactD(1,2)[OF D(1)] by metis
      then show ?thesis
        unfolding entry_ok_def w(4,5) using w(1-3) ij(1) through_none[of D es V i] by (auto intro: through_edge)
    qed (auto simp: entry_ok_def exactD(4)[OF D(1)] intro: through_none)
  qed
  have "fst ?s i j \<le> x" if "through D es {} i j x" for i j x
    using that
  proof (cases rule: through.cases)
    case through_none
    then show ?thesis using zero by simp
  next
    case through_edge
    have uniq: "w = x" if "joins es i j w" for w
      using D(2) that through_edge unfolding edges_ok_def by blast
    from cases[of i j] show ?thesis
    proof (elim disjE exE conjE)
      fix w assume "joins es i j w" "fst ?s i j = w"
      then show ?thesis using uniq by simp
    qed (use through_edge in blast)
  qed simp
  then show "fw_least D es V {} ?s" by (simp add: fw_least_def)
qed

lemma phases_ok:
  assumes D: "exact_distances D" "edges_ok D es" and ks: "set ks \<subseteq> set vs"
    and s: "fw_sound D es (set vs) s" "fw_least D es (set vs) K s"
  shows "fw_sound D es (set vs) (fold (phase_entries D vs) ks s) \<and>
    fw_least D es (set vs) (set ks \<union> K) (fold (phase_entries D vs) ks s)"
  using ks s
proof (induction ks arbitrary: s K)
  case (Cons k ks)
  have "fw_sound D es (set vs) (phase_entries D vs k s)" "fw_least D es (set vs) (insert k K) (phase_entries D vs k s)"
    using phase_ok[OF D, of k vs s K] Cons.prems by simp_all
  from Cons.IH[OF _ this] Cons.prems(1) show ?case by simp
qed simp

lemma run_entries_ok:
  assumes "exact_distances D" "edges_ok D es"
  shows "fw_sound D es (set vs) (run_entries D es vs)" "fw_least D es (set vs) (set vs) (run_entries D es vs)"
  using phases_ok[OF assms order_refl start_entries_ok[OF assms]] by (simp_all add: run_entries_def)

lemma run_entries_parent:
  assumes D: "exact_distances D" "edges_ok D es" and ij: "i \<in> set vs" "j \<in> set vs" "i \<noteq> j"
    and max: "fst (run_entries D es vs) i j \<noteq> d_max D"
  shows "\<exists>u \<in> set vs. snd (run_entries D es vs) i j = int u \<and>
    (\<exists>w. joins es u j w \<and> fst (run_entries D es vs) i j = d_add D (fst (run_entries D es vs) i u) w)"
proof -
  let ?s = "run_entries D es vs"
  note ok = run_entries_ok[OF D, of vs]
  obtain u x w where u: "snd ?s i j = int u" "u \<in> set vs" "through D es (set vs) i u x" "joins es u j w"
    "fst ?s i j = d_add D x w"
    using fw_soundD(4)[OF ok(1) ij max] by blast
  have w: "d_zero D \<le> w" using D(2) u(4) by (auto simp: edges_ok_def)
  have x: "d_zero D \<le> x" by (rule through_nonneg[OF D u(3)])
  have le: "fst ?s i u \<le> x" using ok(2) ij(1) u(2,3) by (simp add: fw_least_def)
  have "fst ?s i u < d_max D"
  proof -
    have "fst ?s i u \<le> fst ?s i j" using order_trans[OF le exact_increases[OF D(1) w, of x]] u(5) by simp
    also have "\<dots> < d_max D" using fw_soundD(1)[OF ok(1) ij(1,2)] max by simp
    finally show ?thesis .
  qed
  then have "through D es (set vs) i u (fst ?s i u)" using fw_soundD(3)[OF ok(1) ij(1) u(2)] by auto
  then have "through D es (set vs) i j (d_add D (fst ?s i u) w)" using u(2,4) by (rule through_step)
  then have "fst ?s i j \<le> d_add D (fst ?s i u) w" using ok(2) ij by (simp add: fw_least_def)
  moreover have "d_add D (fst ?s i u) w \<le> d_add D x w"
    using fw_sound_nonneg[OF D ok(1) ij(1) u(2)] w le by (intro exact_mono[OF D(1)]) auto
  ultimately have "fst ?s i j = d_add D (fst ?s i u) w" unfolding u(5) by (rule order_antisym)
  then show ?thesis using u(1,2,4) by blast
qed

section \<open>Properties\<close>

interpretation map_map: matrices map_matrix "\<lambda>_. True" "\<lambda>m. m" map_matrix "\<lambda>_. True" "\<lambda>m. m" UNIV ..

interpretation vec_vec: matrices
    vector_matrix "\<lambda>m. n \<le> length m \<and> (\<forall>i < n. n \<le> length (m ! i))" "\<lambda>m i j. m ! i ! j"
    vector_matrix "\<lambda>m. n \<le> length m \<and> (\<forall>i < n. n \<le> length (m ! i))" "\<lambda>m i j. m ! i ! j" "{..<n}"
  for n ..

lemma map_run:
  "\<exists>dist parent. fw_run map_matrix map_matrix D es vs d p = Inr (dist, parent) \<and>
     (\<forall>i \<in> set vs. \<forall>j \<in> set vs.
        dist i j = fst (run_entries D es vs) i j \<and> parent i j = snd (run_entries D es vs) i j)"
  using map_map.run_simulates[where d = d and p = p and vs = vs and es = es and D = D] by (auto simp: map_map.agree_def)

text \<open>C15: With exact arithmetic \<open>floyd_warshall_apsp\<close> returns, and for any two vertices of the set the distance
  is that of a shortest walk over vertices of the set, or the maximum where no walk is shorter than it, and
  the parent is a vertex with an edge to the second one that completes such a walk.\<close>

theorem floyd_warshall_finds_shortest:
  assumes "exact_distances D" "edges_ok D es"
  shows "\<exists>dist parent. floyd_warshall_apsp_tree D es vs d p = Inr (dist, parent) \<and>
    (\<forall>i \<in> set vs. \<forall>j \<in> set vs. (\<forall>x. through D es (set vs) i j x \<longrightarrow> dist i j \<le> x) \<and>
       (dist i j = d_max D \<or> through D es (set vs) i j (dist i j)) \<and>
       (i \<noteq> j \<and> dist i j \<noteq> d_max D \<longrightarrow>
          (\<exists>u \<in> set vs. parent i j = int u \<and> (\<exists>w. joins es u j w \<and> dist i j = d_add D (dist i u) w))))"
proof -
  obtain dist parent where r: "fw_run map_matrix map_matrix D es vs d p = Inr (dist, parent)"
    "\<And>i j. i \<in> set vs \<Longrightarrow> j \<in> set vs \<Longrightarrow> dist i j = fst (run_entries D es vs) i j \<and> parent i j = snd (run_entries D es vs) i j"
    using map_run by blast
  have "(\<forall>x. through D es (set vs) i j x \<longrightarrow> dist i j \<le> x) \<and>
       (dist i j = d_max D \<or> through D es (set vs) i j (dist i j)) \<and>
       (i \<noteq> j \<and> dist i j \<noteq> d_max D \<longrightarrow>
          (\<exists>u \<in> set vs. parent i j = int u \<and> (\<exists>w. joins es u j w \<and> dist i j = d_add D (dist i u) w)))"
    if "i \<in> set vs" "j \<in> set vs" for i j
    using run_entries_ok[OF assms, of vs] run_entries_parent[OF assms that] fw_soundD(3)[OF run_entries_ok(1)[OF assms] that]
      r(2) that by (auto simp: fw_least_def)
  with r(1) show ?thesis by (auto simp: floyd_warshall_apsp_tree_def)
qed

definition int_edges :: "(nat \<times> nat \<times> int) list" where
  "int_edges = [(0, 1, 10), (0, 2, 1), (2, 1, 2)]"

definition int_distances :: "int distances" where
  "int_distances = \<lparr> d_add = (+), d_zero = 0, d_max = 1000 \<rparr>"

lemma int_edges_exact: "exact_distances int_distances" "edges_ok int_distances int_edges"
  by (auto simp: exact_distances_def distances_ok_def int_distances_def edges_ok_def joins_def int_edges_def)

theorem floyd_warshall_finds_shortest_witness:
  "\<exists>dist parent. floyd_warshall_apsp_tree int_distances int_edges [0, 1, 2] (\<lambda>_ _. 0) (\<lambda>_ _. 0) = Inr (dist, parent) \<and>
     dist 0 1 \<le> 3"
proof -
  have "through int_distances int_edges {0, 1, 2} 0 1 (d_add int_distances 1 2)"
    by (intro through_step[of _ _ _ _ 2] through_edge) (auto simp: joins_def int_edges_def)
  then have "through int_distances int_edges (set [0, 1, 2]) 0 1 3" by (simp add: int_distances_def)
  with floyd_warshall_finds_shortest[OF int_edges_exact, of "[0, 1, 2]" "\<lambda>_ _. 0" "\<lambda>_ _. 0"] show ?thesis
    by (metis list.set_intros)
qed

text \<open>The overload for vectors computes the entries of the overload for maps, when the vectors have room for the
  vertices and the ends of the edges; a map of maps has room for everything.\<close>

theorem floyd_warshall_vectors_agree:
  assumes "set vs \<subseteq> {..<n}" "\<forall>(u, v, w) \<in> set es. u < n \<and> v < n"
    and "n \<le> length d \<and> (\<forall>i < n. n \<le> length (d ! i))" "n \<le> length p \<and> (\<forall>i < n. n \<le> length (p ! i))"
  shows "\<exists>dist parent dv pv. floyd_warshall_apsp_tree D es vs dm pm = Inr (dist, parent) \<and>
    floyd_warshall_apsp_vectors D es vs d p = Inr (dv, pv) \<and>
    (\<forall>i \<in> set vs. \<forall>j \<in> set vs. dv ! i ! j = dist i j \<and> pv ! i ! j = parent i j)"
proof -
  obtain dist parent where "fw_run map_matrix map_matrix D es vs dm pm = Inr (dist, parent)"
    "\<And>i j. i \<in> set vs \<Longrightarrow> j \<in> set vs \<Longrightarrow> dist i j = fst (run_entries D es vs) i j \<and> parent i j = snd (run_entries D es vs) i j"
    using map_run by blast
  moreover obtain dv pv where "fw_run vector_matrix vector_matrix D es vs d p = Inr (dv, pv)"
    "\<And>i j. i \<in> set vs \<Longrightarrow> j \<in> set vs \<Longrightarrow> dv ! i ! j = fst (run_entries D es vs) i j \<and> pv ! i ! j = snd (run_entries D es vs) i j"
    using vec_vec.run_simulates[OF assms(3,4,1), of es D] assms(2) by (auto simp: vec_vec.agree_def)
  ultimately show ?thesis by (auto simp: floyd_warshall_apsp_tree_def floyd_warshall_apsp_vectors_def)
qed

theorem floyd_warshall_vectors_agree_witness:
  "\<exists>dist parent dv pv. floyd_warshall_apsp_tree int_distances int_edges [0, 1, 2] (\<lambda>_ _. 0) (\<lambda>_ _. 0) = Inr (dist, parent) \<and>
     floyd_warshall_apsp_vectors int_distances int_edges [0, 1, 2] (replicate 3 [7, 7, 7]) (replicate 3 [8, 8, 8]) = Inr (dv, pv) \<and>
     dv ! 0 ! 1 = dist 0 1"
proof -
  have "set [0, 1, 2] \<subseteq> {..<3 :: nat}" "\<forall>(u, v, w) \<in> set int_edges. u < 3 \<and> v < 3"
    by (auto simp: int_edges_def)
  from floyd_warshall_vectors_agree[OF this, of "replicate 3 [7, 7, 7]" "replicate 3 [8, 8, 8]" int_distances "\<lambda>_ _. 0" "\<lambda>_ _. 0"]
  show ?thesis by fastforce
qed

text \<open>Of two edges that join the same vertices the last one counts, even when the other one is shorter.\<close>

theorem parallel_edge_overwrites:
  "\<exists>dist parent. floyd_warshall_apsp int_distances [(0, 1, 1), (0, 1, 5)] 2 d p = Inr (dist, parent) \<and> dist 0 1 = 5 \<and>
     through int_distances [(0, 1, 1), (0, 1, 5)] {..<2} 0 1 1"
proof -
  obtain dist parent where r: "fw_run map_matrix map_matrix int_distances [(0, 1, 1), (0, 1, 5)] [0, 1] d p = Inr (dist, parent)"
    "dist 0 1 = fst (run_entries int_distances [(0, 1, 1), (0, 1, 5)] [0, 1]) 0 1"
    using map_run[of int_distances "[(0, 1, 1), (0, 1, 5)]" "[0, 1]" d p] by auto
  have "fst (run_entries int_distances [(0, 1, 1), (0, 1, 5)] [0, 1]) 0 1 = 5"
    by (simp add: run_entries_def phase_entries_def relax_entries_def edge_entries_def set_entry_def init_entries_def int_distances_def)
  moreover have "[0..<2] = [0, 1 :: nat]" by (simp add: upt_rec)
  ultimately show ?thesis using r by (auto simp: floyd_warshall_apsp_def joins_def intro: through_edge)
qed

end
