(* ===== verification/Path_Algorithms.thy ===== *)
theory Path_Algorithms
  imports Spanning_Tree Heap_Cost All_Pairs
begin

text \<open>
  \<open>GraphLib/treealgs/dijkstra_sp\<close> and \<open>prim_mst\<close> with the heap the repository uses, \<open>HeapD<FHeap>\<close>, and
  the variant \<open>myDijkstraSPT_TieBr\<close> that also counts the edges of a path.
\<close>

interpretation dijkstra: heap_contract fheap_class fh_ok fh_max_nodes 3524578
  using fheap.heap_contract_axioms by (simp only: fib_33)

section \<open>myDijkstraSPT\_TieBr\<close>

text \<open>The state has the vector \<open>zhop\<close> beside; \<open>one\<close> is the number of edges of an edge.\<close>

definition tb_init_vertex ::
  "'d distances \<Rightarrow> nat \<Rightarrow> ('h, 'd) spt \<times> 'd list \<Rightarrow> (('h, 'd) spt \<times> 'd list) res" where
  "tb_init_vertex D v = (\<lambda>(s, zhop).
     rbind (sp_init_vertex D v s) (\<lambda>s1.
     rbind (vec_put v (d_max D) zhop) (\<lambda>hs. Inr (s1, hs))))"

definition tb_relax ::
  "('h, 'd::linorder) heap_class \<Rightarrow> 'd distances \<Rightarrow> 'd \<Rightarrow> nat \<Rightarrow> nat \<times> 'd \<Rightarrow>
     ('h, 'd) spt \<times> 'd list \<Rightarrow> (('h, 'd) spt \<times> 'd list) res" where
  "tb_relax H D one u e = (\<lambda>(s, zhop). case e of (targ, weight) \<Rightarrow>
     asserting (targ \<noteq> u)
     (rbind (vec_get (sp_distance s) u) (\<lambda>du.
      rbind (vec_get (sp_distance s) targ) (\<lambda>dt.
      rbind (vec_get (sp_color s) targ) (\<lambda>c.
      rbind (vec_get zhop u) (\<lambda>hu.
      rbind (vec_get zhop targ) (\<lambda>ht.
      if d_add D weight du \<le> dt \<and> c \<noteq> Black \<and> d_add D one hu < ht then
        rbind (vec_put targ (d_add D weight du) (sp_distance s)) (\<lambda>ds.
        rbind (vec_put targ u (sp_parent s)) (\<lambda>ps.
        rbind (vec_put targ (d_add D one hu) zhop) (\<lambda>hs.
        if c = White then
          rbind (vec_put targ Gray (sp_color s)) (\<lambda>cs.
          rbind (hc_insert H targ (d_add D weight du) (sp_heap s)) (\<lambda>h.
            Inr (s\<lparr> sp_distance := ds, sp_parent := ps, sp_color := cs, sp_heap := h \<rparr>, hs)))
        else
          rbind (hc_decrease_key H targ (d_add D weight du) (sp_heap s)) (\<lambda>h.
            Inr (s\<lparr> sp_distance := ds, sp_parent := ps, sp_heap := h \<rparr>, hs)))))
      else Inr (s, zhop))))))))"

definition tb_round ::
  "('h, 'd::linorder) heap_class \<Rightarrow> 'd distances \<Rightarrow> 'd \<Rightarrow> 'd graph \<Rightarrow>
     ('h, 'd) spt \<times> 'd list \<Rightarrow> (('h, 'd) spt \<times> 'd list) res" where
  "tb_round H D one g = (\<lambda>(s, zhop).
     rbind (hc_delete_min H (sp_heap s)) (\<lambda>(u, h).
     rbind (out_edges u g) (\<lambda>es.
     rbind (rfold (tb_relax H D one u) es (s\<lparr> sp_heap := h \<rparr>, zhop)) (\<lambda>(s1, hs).
     rbind (vec_put u Black (sp_color s1)) (\<lambda>cs.
       Inr (s1\<lparr> sp_color := cs \<rparr>, hs))))))"

partial_function (option) tb_loop ::
  "('h, 'd::linorder) heap_class \<Rightarrow> 'd distances \<Rightarrow> 'd \<Rightarrow> 'd graph \<Rightarrow>
     ('h, 'd) spt \<times> 'd list \<Rightarrow> (('h, 'd) spt \<times> 'd list) res option" where
  "tb_loop H D one g s =
     (if \<not> 0 < hc_n_items H (sp_heap (fst s)) then Some (Inr s)
      else case tb_round H D one g s of
        Inl e \<Rightarrow> Some (Inl e)
      | Inr s1 \<Rightarrow> tb_loop H D one g s1)"

declare tb_loop.simps [code]

definition tb_start ::
  "('h, 'd::linorder) heap_class \<Rightarrow> 'd distances \<Rightarrow> 'd graph \<Rightarrow> nat \<Rightarrow> nat list \<Rightarrow> 'd list \<Rightarrow> nat list \<Rightarrow>
     (('h, 'd) spt \<times> 'd list) res" where
  "tb_start H D g src treeNodes zdistance zparent =
     rbind (hc_new_instance H (num_vertices g)) (\<lambda>h.
     rbind (rfold (tb_init_vertex D) treeNodes (\<lparr> sp_distance = zdistance, sp_parent = zparent,
              sp_color = replicate (num_vertices g) White, sp_heap = h \<rparr>,
              replicate (num_vertices g) (d_zero D))) (\<lambda>(s, zhop).
     rbind (vec_put src Gray (sp_color s)) (\<lambda>cs.
     rbind (vec_put src (d_zero D) (sp_distance s)) (\<lambda>ds.
     rbind (vec_put src (d_zero D) zhop) (\<lambda>hs.
     rbind (hc_insert H src (d_zero D) (sp_heap s)) (\<lambda>h1.
       Inr (s\<lparr> sp_distance := ds, sp_color := cs, sp_heap := h1 \<rparr>, hs)))))))"

definition my_dijkstra_spt_tiebr ::
  "('h, 'd::linorder) heap_class \<Rightarrow> 'd distances \<Rightarrow> 'd \<Rightarrow> 'd graph \<Rightarrow> nat \<Rightarrow> nat list \<Rightarrow> 'd list \<Rightarrow> nat list \<Rightarrow>
     ('d list \<times> nat list) res option" where
  "my_dijkstra_spt_tiebr H D one g src treeNodes zdistance zparent =
     (case tb_start H D g src treeNodes zdistance zparent of
        Inl e \<Rightarrow> Some (Inl e)
      | Inr s \<Rightarrow> map_option (\<lambda>r. rbind r (\<lambda>(s', hs). Inr (sp_distance s', sp_parent s'))) (tb_loop H D one g s))"

section \<open>Properties\<close>

text \<open>C8: With a Fibonacci heap \<open>myDijkstraSPT\<close> returns, and then every distance is that of a shortest
  walk from the source, or the maximum where no walk is shorter than it; the parent of a vertex is the
  vertex before it on such a walk.\<close>

theorem dijkstra_finds_shortest:
  assumes "distances_ok D" "graph_ok D g" "src < length g" "length g < 3524578"
    and "length g \<le> length ds" "length g \<le> length ps"
  shows "\<exists>dist parent. my_dijkstra_spt fheap_class D g src ds ps = Some (Inr (dist, parent)) \<and>
    (\<forall>v<length g. (\<forall>d. walk D g src v d \<longrightarrow> dist ! v \<le> d) \<and>
       (dist ! v = d_max D \<or> walk D g src v (dist ! v)) \<and>
       (v \<noteq> src \<and> dist ! v \<noteq> d_max D \<longrightarrow>
          (\<exists>w. (v, w) \<in> set (g ! (parent ! v)) \<and> dist ! v = d_add D w (dist ! (parent ! v)))))"
proof -
  have "set [0..<length g] = {..<length g}" by auto
  then obtain s :: "('a fheap, 'a) spt" where s:
    "sp_run fheap_class D g src [0..<length g] ds ps = Some (Inr (sp_distance s, sp_parent s))"
    "sp_inv D g src None Map.empty s"
    using dijkstra.dijkstra_ok [OF assms(1-4) _ assms(5,6)] by metis
  then show ?thesis
    using sp_inv_result [OF assms(1,2) s(2)] by (simp add: my_dijkstra_spt_def num_vertices_def)
qed

definition detour_graph :: "int graph" where
  "detour_graph = [[(1, 10), (2, 1)], [], [(1, 2)]]"

lemma int_distances_ok: "distances_ok int_distances"
  by (simp add: distances_ok_def int_distances_def)

lemma detour_graph_ok: "graph_ok int_distances detour_graph"
  unfolding graph_ok_def int_distances_def detour_graph_def
  by (auto simp: less_Suc_eq numeral_eq_Suc)

lemma detour_walk: "walk int_distances detour_graph 0 1 3"
proof -
  have "walk int_distances detour_graph 0 0 0"
    using walk_start [of int_distances detour_graph 0] by (simp add: int_distances_def)
  from walk_edge [OF this, of 2 1] have "walk int_distances detour_graph 0 2 1"
    by (simp add: int_distances_def detour_graph_def)
  from walk_edge [OF this, of 1 2] show ?thesis
    by (simp add: int_distances_def detour_graph_def)
qed

theorem dijkstra_finds_shortest_witness:
  "\<exists>dist parent. my_dijkstra_spt fheap_class int_distances detour_graph 0 [0, 0, 0] [0, 0, 0] =
     Some (Inr (dist, parent)) \<and> dist ! 1 \<le> 3"
  using dijkstra_finds_shortest [OF int_distances_ok detour_graph_ok, of 0 "[0, 0, 0]" "[0, 0, 0]"] detour_walk
  by (force simp: detour_graph_def)


lemma sp_start_vertices:
  assumes "set vs = {..<length g}" "length g = length ds" "length g = length ps"
  shows "sp_start H D g src vs ds ps = sp_start H D g src [0..<length g] ds ps"
proof (cases "hc_new_instance H (num_vertices g)")
  case (Inr h)
  let ?s = "\<lparr> sp_distance = ds, sp_parent = ps, sp_color = replicate (num_vertices g) White, sp_heap = h \<rparr>"
  have init: "rfold (sp_init_vertex D) us ?s = Inr \<lparr> sp_distance = replicate (length g) (d_max D),
      sp_parent = [0..<length g], sp_color = replicate (length g) White, sp_heap = h \<rparr>"
    if us: "set us = {..<length g}" for us
  proof -
    obtain s' where s': "rfold (sp_init_vertex D) us ?s = Inr s'" "sp_heap s' = h"
      "length (sp_distance s') = length g" "length (sp_parent s') = length g" "length (sp_color s') = length g"
      "\<And>v. v < length g \<Longrightarrow> sp_distance s' ! v = d_max D" "\<And>v. v < length g \<Longrightarrow> sp_parent s' ! v = v"
      "\<And>v. v < length g \<Longrightarrow> sp_color s' ! v = White"
      using sp_init_vertices [of us "length g" ?s D] us assms by (auto simp: num_vertices_def)
    have "sp_distance s' = replicate (length g) (d_max D)" "sp_parent s' = [0..<length g]"
      "sp_color s' = replicate (length g) White"
      using s'(3-8) by (auto intro: nth_equalityI)
    then show ?thesis using s'(1,2) by (cases s') simp
  qed
  have "set [0..<length g] = {..<length g}" by auto
  then show ?thesis
    unfolding sp_start_def Inr rbind.simps by (simp only: init [OF assms(1)] init)
qed (simp add: sp_start_def)

text \<open>The overload for the vertices of a tree gives what the other gives when the tree has every
  vertex of the graph, in whatever order and however often the vertices come.\<close>

theorem dijkstra_overloads_agree:
  assumes "set treeNodes = {..<length g}" "length ds = length g" "length ps = length g"
  shows "my_dijkstra_spt_tree H D g src treeNodes ds ps = my_dijkstra_spt H D g src ds ps \<and>
    my_prim_mst_tree H D g src treeNodes ds ps = my_prim_mst H D g src ds ps"
proof -
  note start = sp_start_vertices [OF assms(1) assms(2,3) [symmetric]]
  show ?thesis
    unfolding my_dijkstra_spt_tree_def my_dijkstra_spt_def my_prim_mst_tree_def my_prim_mst_def
      sp_run_def num_vertices_def start by simp
qed

theorem dijkstra_overloads_agree_witness:
  "my_dijkstra_spt_tree fheap_class int_distances detour_graph 0 [2, 0, 1, 0] [0, 0, 0] [0, 0, 0] =
   my_dijkstra_spt fheap_class int_distances detour_graph 0 [0, 0, 0] [0, 0, 0]"
proof -
  have "set [2, 0, 1, 0] = {..<length detour_graph}" by (auto simp: detour_graph_def)
  then show ?thesis
    using dijkstra_overloads_agree [of "[2, 0, 1, 0]" detour_graph "[0, 0, 0]" "[0, 0, 0]" fheap_class int_distances 0]
    by (simp only: detour_graph_def list.size)
qed

text \<open>C9: With a Fibonacci heap \<open>myPrimMST\<close> returns on a connected undirected graph, and the edges to
  the parents are a minimum spanning tree: they are edges of the graph, one fewer than it has vertices,
  they connect all vertices, and no set of edges that does has a smaller total weight.\<close>

theorem prim_finds_minimum_spanning_tree:
  assumes "undirected_ok D g" "src < length g" "length g < 3524578"
    and "length g \<le> length ds" "length g \<le> length ps"
    and "spans (length g) (graph_edges g)"
    and "\<forall>a b. a \<le> b \<longrightarrow> val a \<le> val b" "\<forall>(u, v, w)\<in>graph_edges g. 0 \<le> val w"
  shows "\<exists>weights parents. my_prim_mst fheap_class D g src ds ps = Some (Inr (weights, parents)) \<and>
    (let T = tree_edges src {..<length g} weights parents in
       T \<subseteq> graph_edges g \<and> card T = length g - 1 \<and> spans (length g) T \<and>
       (\<forall>T'\<subseteq>graph_edges g. spans (length g) T' \<longrightarrow> total_weight val T \<le> total_weight val T'))"
proof -
  have vs: "set [0..<length g] = {..<length g}" by auto
  have val: "val a \<le> val b" if "a \<le> b" for a b using assms(7) that by blast
  obtain s :: "('a fheap, 'a) spt" where s:
    "sp_run fheap_class (edge_weight D) g src [0..<length g] ds ps = Some (Inr (sp_distance s, sp_parent s))"
    "pr_inv val D g src None Map.empty s"
    by (rule dijkstra.prim_ok [OF assms(1) val assms(2,3) vs assms(4,5)])
  then show ?thesis
    using pr_inv_result [OF assms(1) s(2) assms(6,8)]
    by (auto simp: my_prim_mst_def num_vertices_def Let_def)
qed

definition triangle_graph :: "int graph" where
  "triangle_graph = [[(1, 10), (2, 1)], [(0, 10), (2, 2)], [(0, 1), (1, 2)]]"

lemma triangle_graph_ok: "undirected_ok int_distances triangle_graph"
  unfolding undirected_ok_def int_distances_def triangle_graph_def
  by (auto simp: less_Suc_eq numeral_eq_Suc)

lemma triangle_edges: "{(0, 2, 1), (1, 2, 2)} \<subseteq> graph_edges triangle_graph"
  by (auto simp: graph_edges_def triangle_graph_def)

lemma triangle_connected: "spans 3 {(0, 2, 1), (1, 2, 2 :: int)}"
proof -
  let ?R = "links {(0, 2, 1), (1, 2, 2 :: int)}"
  have "(u, 2) \<in> ?R\<^sup>*" if "u < 3" for u
  proof -
    have "u = 0 \<or> u = 1 \<or> u = 2" using that by arith
    then show ?thesis by (auto simp: links_def)
  qed
  then show ?thesis unfolding spans_def by (meson links_rtrancl_sym rtrancl_trans)
qed

theorem prim_finds_minimum_spanning_tree_witness:
  "\<exists>weights parents. my_prim_mst fheap_class int_distances triangle_graph 0 [0, 0, 0] [0, 0, 0] =
     Some (Inr (weights, parents)) \<and>
   total_weight real_of_int (tree_edges 0 {..<3} weights parents) \<le> 3"
proof -
  have len: "length triangle_graph = 3" by (simp add: triangle_graph_def)
  have connected: "spans (length triangle_graph) (graph_edges triangle_graph)"
    using triangle_connected rtrancl_mono [OF links_mono [OF triangle_edges]]
    unfolding spans_def len by blast
  have nonneg: "\<forall>(u, v, w)\<in>graph_edges triangle_graph. 0 \<le> real_of_int w"
    by (auto simp: graph_edges_def triangle_graph_def less_Suc_eq numeral_eq_Suc)
  obtain weights parents where
    r: "my_prim_mst fheap_class int_distances triangle_graph 0 [0, 0, 0] [0, 0, 0] = Some (Inr (weights, parents))"
    and "\<forall>T'\<subseteq>graph_edges triangle_graph. spans 3 T' \<longrightarrow>
      total_weight real_of_int (tree_edges 0 {..<3} weights parents) \<le> total_weight real_of_int T'"
    using prim_finds_minimum_spanning_tree [OF triangle_graph_ok _ _ _ _ connected _ nonneg,
        of 0 "[0, 0, 0]" "[0, 0, 0]"]
    by (auto simp: len Let_def)
  then have "total_weight real_of_int (tree_edges 0 {..<3} weights parents) \<le>
      total_weight real_of_int {(0, 2, 1), (1, 2, 2 :: int)}"
    using triangle_edges triangle_connected by blast
  then show ?thesis using r by (auto simp: total_weight_def)
qed

section \<open>All pairs and single source\<close>

text \<open>The edges of a graph, each once and in any direction.\<close>

definition edges_of_graph :: "'d graph \<Rightarrow> 'd edges \<Rightarrow> bool" where
  "edges_of_graph g es \<longleftrightarrow> (\<forall>(u, v, w) \<in> set es. u < length g \<and> v < length g) \<and>
     (\<forall>u < length g. \<forall>v w. (v, w) \<in> set (g ! u) \<longleftrightarrow> joins es u v w)"

lemma walk_through:
  assumes D: "exact_distances D" and g: "edges_of_graph g es" and src: "src < length g"
  shows "walk D g src v x \<longleftrightarrow> through D es {..<length g} src v x"
proof
  assume "walk D g src v x"
  then show "through D es {..<length g} src v x"
  proof (induction rule: walk.induct)
    case (walk_edge u d v w)
    then have "joins es u v w" using g by (auto simp: edges_of_graph_def)
    then have "through D es {..<length g} src v (d_add D d w)"
      using walk_edge by (auto intro: through_step)
    then show ?case unfolding exactD(2)[OF D, of w d] .
  qed (rule through_none)
next
  assume "through D es {..<length g} src v x"
  then show "walk D g src v x"
  proof (induction rule: through.induct)
    case (through_edge j w)
    then have "walk D g src j (d_add D w (d_zero D))"
      using g src by (intro walk_edge[OF walk_start]) (auto simp: edges_of_graph_def)
    then show ?case unfolding exactD(1)[OF D] .
  next
    case (through_step u x j w)
    then have "walk D g src j (d_add D w x)"
      using g by (intro walk_edge[of D g src u]) (auto simp: edges_of_graph_def)
    then show ?case unfolding exactD(2)[OF D, of w x] .
  qed (rule walk_start)
qed

lemma edges_graph_ok:
  assumes "edges_ok D es" "edges_of_graph g es"
  shows "graph_ok D g"
proof -
  have "v < length g \<and> v \<noteq> u \<and> d_zero D \<le> w" if "u < length g" "(v, w) \<in> set (g ! u)" for u v w
  proof -
    have j: "joins es u v w" using that assms(2) by (auto simp: edges_of_graph_def)
    then have "u \<noteq> v" "d_zero D \<le> w" using assms(1) unfolding edges_ok_def by blast+
    moreover have "v < length g" using j assms(2) unfolding edges_of_graph_def joins_def by fast
    ultimately show ?thesis by simp
  qed
  then show ?thesis by (auto simp: graph_ok_def)
qed

text \<open>C16: With exact arithmetic the distances that \<open>floyd_warshall_apsp\<close> computes from a vertex are those that
  \<open>myDijkstraSPT\<close> computes with that vertex as the source.\<close>

theorem floyd_warshall_agrees_with_dijkstra:
  assumes "exact_distances D" "edges_ok D es" "edges_of_graph g es" "length g < 3524578"
    and "src < length g" "length g \<le> length ds" "length g \<le> length ps"
  shows "\<exists>dist parent dd pp. my_dijkstra_spt fheap_class D g src ds ps = Some (Inr (dist, parent)) \<and>
    floyd_warshall_apsp D es (length g) d p = Inr (dd, pp) \<and> (\<forall>v < length g. dist ! v = dd src v)"
proof -
  have D: "distances_ok D" using assms(1) by (simp add: exact_distances_def)
  note g = edges_graph_ok[OF assms(2,3)]
  have "set [0..<length g] = {..<length g}" by auto
  then obtain s :: "('a fheap, 'a) spt" where s:
    "sp_run fheap_class D g src [0..<length g] ds ps = Some (Inr (sp_distance s, sp_parent s))"
    "sp_inv D g src None Map.empty s"
    using dijkstra.dijkstra_ok [OF D g assms(5,4) _ assms(6,7)] by metis
  obtain dd pp where r: "fw_run map_matrix map_matrix D es [0..<length g] d p = Inr (dd, pp)"
    "\<forall>i \<in> set [0..<length g]. \<forall>j \<in> set [0..<length g]. dd i j = fst (run_entries D es [0..<length g]) i j"
    using map_run[of D es "[0..<length g]" d p] by blast
  note fw = run_entries_ok[OF assms(1,2), of "[0..<length g]"]
  have "sp_distance s ! v = dd src v" if v: "v < length g" for v
  proof -
    have in_set: "src \<in> set [0..<length g]" "v \<in> set [0..<length g]" using assms(5) v by simp_all
    have dd: "dd src v = fst (run_entries D es [0..<length g]) src v" using r(2) in_set by blast
    have vs: "set [0..<length g] = {..<length g}" by auto
    have 1: "sp_distance s ! v \<le> x" if "through D es {..<length g} src v x" for x
      using sp_inv_result [OF D g s(2) v] that walk_through[OF assms(1,3,5)] by blast
    have 2: "sp_distance s ! v = d_max D \<or> through D es {..<length g} src v (sp_distance s ! v)"
      using sp_inv_result [OF D g s(2) v] walk_through[OF assms(1,3,5)] by blast
    have 3: "dd src v \<le> x" if "through D es {..<length g} src v x" for x
      using fw(2) in_set that unfolding fw_least_def dd vs by blast
    have 4: "dd src v = d_max D \<or> through D es {..<length g} src v (dd src v)"
      using fw_soundD(3)[OF fw(1) in_set] unfolding dd vs by blast
    have 5: "dd src v \<le> d_max D" using fw_soundD(1)[OF fw(1) in_set] by (simp only: dd)
    have 6: "sp_distance s ! v \<le> d_max D"
      using s(2) v by (simp add: sp_inv_def sp_reached_def)
    show ?thesis
    proof (rule order_antisym)
      show "sp_distance s ! v \<le> dd src v" using 4 1 6 by metis
      show "dd src v \<le> sp_distance s ! v" using 2 3 5 by metis
    qed
  qed
  then show ?thesis
    using s(1) r(1) by (auto simp: my_dijkstra_spt_def floyd_warshall_apsp_def num_vertices_def)
qed

definition round_graph :: "int graph" where
  "round_graph = [[(1, 10), (2, 1)], [(0, 10), (2, 2)], [(0, 1), (1, 2)]]"

theorem floyd_warshall_agrees_with_dijkstra_witness:
  "\<exists>dist parent dd pp. my_dijkstra_spt fheap_class int_distances round_graph 0 [0, 0, 0] [0, 0, 0] = Some (Inr (dist, parent)) \<and>
    floyd_warshall_apsp int_distances int_edges 3 (\<lambda>_ _. 0) (\<lambda>_ _. 0) = Inr (dd, pp) \<and> dist ! 1 = dd 0 1"
proof -
  have g: "edges_of_graph round_graph int_edges"
    unfolding edges_of_graph_def round_graph_def int_edges_def joins_def by (auto simp: less_Suc_eq numeral_eq_Suc)
  have len: "length round_graph = 3" by (simp add: round_graph_def)
  have sizes: "length round_graph < 3524578" "0 < length round_graph"
    "length round_graph \<le> length [0 :: int, 0, 0]" "length round_graph \<le> length [0 :: nat, 0, 0]"
    by (simp_all add: len)
  obtain dist parent dd pp where
    "my_dijkstra_spt fheap_class int_distances round_graph 0 [0, 0, 0] [0, 0, 0] = Some (Inr (dist, parent))"
    "floyd_warshall_apsp int_distances int_edges (length round_graph) (\<lambda>_ _. 0) (\<lambda>_ _. 0) = Inr (dd, pp)"
    "\<forall>v < length round_graph. dist ! v = dd 0 v"
    using floyd_warshall_agrees_with_dijkstra[OF int_edges_exact g sizes, of "\<lambda>_ _. 0" "\<lambda>_ _. 0"] by blast
  then show ?thesis by (auto simp: len)
qed

end
