(* ===== verification/Flow_Queues.thy ===== *)
theory Flow_Queues
  imports Complex_Main Prelude
begin

text \<open>
  \<open>BaseLib/Collection/WeightedFairQueue.h\<close>: what its queues share. \<open>Queue\<close> is an abstract class, so
  a queue is a record of its operations; the locale \<open>flow_queue\<close> has what a client expects of one that
  keeps the objects of each flow in order. The element type is a parameter, \<open>dflt\<close> is the value \<open>T()\<close> has
  and \<open>sz\<close> the value of \<open>sizeof(T)\<close>. The operations of \<open>double\<close> are a parameter too, so that what does not
  depend on rounding is proved for every arithmetic; \<open>rat_doubles\<close> is the exact one.
  \<open>WFQueue\<close> and \<open>RWFQueue\<close> declare the same members twice; their flows differ in what they carry beside
  the queue, which is the extension of the record \<open>flow\<close>. A pointer to a flow is its position in the
  list, as no flow is in the list twice.
\<close>

record flow_info =
  fi_id :: int
  fi_weight :: int

record 'd doubles =
  db_of_int :: "int \<Rightarrow> 'd"
  db_add :: "'d \<Rightarrow> 'd \<Rightarrow> 'd"
  db_sub :: "'d \<Rightarrow> 'd \<Rightarrow> 'd"
  db_mul :: "'d \<Rightarrow> 'd \<Rightarrow> 'd"
  db_div :: "'d \<Rightarrow> 'd \<Rightarrow> 'd"
  db_le :: "'d \<Rightarrow> 'd \<Rightarrow> bool"
  db_less :: "'d \<Rightarrow> 'd \<Rightarrow> bool"

definition rat_doubles :: "rat doubles" where
  "rat_doubles = \<lparr> db_of_int = of_int, db_add = (+), db_sub = (-), db_mul = (*), db_div = (/),
     db_le = (\<le>), db_less = (<) \<rparr>"

lemma rat_doubles_simps [simp]:
  "db_of_int rat_doubles = of_int" "db_add rat_doubles = (+)" "db_sub rat_doubles = (-)"
  "db_mul rat_doubles = (*)" "db_div rat_doubles = (/)" "db_le rat_doubles = (\<le>)"
  "db_less rat_doubles = (<)"
  by (simp_all add: rat_doubles_def)

section \<open>The class Queue and its contract\<close>

record ('a, 'c) queue_class =
  qc_enqueue :: "'a \<Rightarrow> flow_info \<Rightarrow> 'c \<Rightarrow> bool \<times> 'c"
  qc_dequeue :: "'c \<Rightarrow> ('a \<times> 'c) res"
  qc_is_empty :: "'c \<Rightarrow> bool"
  qc_is_empty_flow :: "int \<Rightarrow> 'c \<Rightarrow> bool"
  qc_length :: "'c \<Rightarrow> int"
  qc_length_flow :: "int \<Rightarrow> 'c \<Rightarrow> int"
  qc_is_full :: "int \<Rightarrow> 'c \<Rightarrow> bool"
  qc_clear :: "'c \<Rightarrow> 'c"
  qc_clear_flow :: "int \<Rightarrow> 'c \<Rightarrow> 'c"

datatype 'a queue_op = Put 'a flow_info | Get

text \<open>A sequence of calls with what the calls of \<open>Dequeue\<close> return.\<close>

fun queue_run :: "('a, 'c) queue_class \<Rightarrow> 'a queue_op list \<Rightarrow> 'c \<Rightarrow> ('a list \<times> 'c) res" where
  "queue_run C [] c = Inr ([], c)"
| "queue_run C (Put x info # ops) c = queue_run C ops (snd (qc_enqueue C x info c))"
| "queue_run C (Get # ops) c =
     rbind (qc_dequeue C c) (\<lambda>(x, c'). rbind (queue_run C ops c') (\<lambda>(xs, c''). Inr (x # xs, c'')))"

text \<open>
  The objects put into a flow, and those an assignment of the calls of \<open>Dequeue\<close> to flows takes out of
  it: \<open>None\<close> stands for a call that found nothing.
\<close>

fun put_into :: "int \<Rightarrow> 'a queue_op list \<Rightarrow> 'a list" where
  "put_into i [] = []"
| "put_into i (Put x info # ops) = (if fi_id info = i then x # put_into i ops else put_into i ops)"
| "put_into i (Get # ops) = put_into i ops"

lemma put_into_length: "length (put_into i ops) \<le> length ops"
  by (induction i ops rule: put_into.induct) auto

definition taken_from :: "int \<Rightarrow> (int option \<times> 'a) list \<Rightarrow> 'a list" where
  "taken_from i outs = map snd (filter (\<lambda>(f, x). f = Some i) outs)"

lemma taken_from_simps [simp]:
  "taken_from i [] = []"
  "taken_from i ((f, x) # outs) = (if f = Some i then x # taken_from i outs else taken_from i outs)"
  by (simp_all add: taken_from_def)

definition uses_infos :: "flow_info set \<Rightarrow> 'a queue_op list \<Rightarrow> bool" where
  "uses_infos I ops \<longleftrightarrow> (\<forall>op \<in> set ops. case op of Put x info \<Rightarrow> info \<in> I | Get \<Rightarrow> True)"

lemma uses_infos_simps [simp]:
  "uses_infos I []"
  "uses_infos I (Put x info # ops) \<longleftrightarrow> info \<in> I \<and> uses_infos I ops"
  "uses_infos I (Get # ops) \<longleftrightarrow> uses_infos I ops"
  by (simp_all add: uses_infos_def)

locale flow_queue =
  fixes C :: "('a, 'c) queue_class"
    and dflt :: 'a
    and ok :: "flow_info set \<Rightarrow> 'c \<Rightarrow> bool"
    and contents :: "'c \<Rightarrow> int \<Rightarrow> 'a list"
  assumes enqueue:
      "ok I c \<Longrightarrow> info \<in> I \<Longrightarrow> \<not> qc_is_full C (fi_id info) c \<Longrightarrow>
       \<exists>c'. qc_enqueue C x info c = (True, c') \<and> ok I c' \<and>
            contents c' = (contents c)(fi_id info := contents c (fi_id info) @ [x])"
    and dequeue:
      "ok I c \<Longrightarrow> \<exists>x c'. qc_dequeue C c = Inr (x, c') \<and> ok I c' \<and>
         (x = dflt \<and> contents c' = contents c \<or>
          (\<exists>i xs. contents c i = x # xs \<and> contents c' = (contents c)(i := xs)))"
    and is_full: "ok I c \<Longrightarrow> qc_is_full C i c \<longleftrightarrow> 9223372036854775807 \<le> int (length (contents c i))"
begin

text \<open>
  The objects of a flow leave in the order in which they came. The room is counted for the whole run:
  no flow ever holds more objects than it held at the start and was given.
\<close>

lemma run_in_order:
  assumes "ok I c" "uses_infos I ops"
    and "\<And>i. int (length (contents c i) + length (put_into i ops)) < 9223372036854775807"
  shows "\<exists>outs c'. queue_run C ops c = Inr (map snd outs, c') \<and> ok I c' \<and>
    length outs = length (filter (\<lambda>op. op = Get) ops) \<and>
    (\<forall>(f, x) \<in> set outs. f = None \<longrightarrow> x = dflt) \<and>
    (\<forall>i. contents c i @ put_into i ops = taken_from i outs @ contents c' i)"
  using assms
proof (induction ops arbitrary: c)
  case Nil
  then show ?case by (intro exI[of _ "[]"] exI[of _ c]) simp
next
  case (Cons op ops)
  show ?case
  proof (cases op)
    case (Put x info)
    have "\<not> qc_is_full C (fi_id info) c"
      using Cons.prems(3)[of "fi_id info"] Put by (simp add: is_full[OF Cons.prems(1)])
    then obtain c1 where c1: "qc_enqueue C x info c = (True, c1)" "ok I c1"
      "contents c1 = (contents c)(fi_id info := contents c (fi_id info) @ [x])"
      using enqueue[OF Cons.prems(1)] Cons.prems(2) Put by fastforce
    have "int (length (contents c1 i) + length (put_into i ops)) < 9223372036854775807" for i
      using Cons.prems(3)[of i] by (simp add: c1(3) Put split: if_splits)
    from Cons.IH[OF c1(2) _ this] Cons.prems(2) Put obtain outs c' where
      r: "queue_run C ops c1 = Inr (map snd outs, c')" "ok I c'"
        "length outs = length (filter (\<lambda>op. op = Get) ops)"
        "\<forall>(f, x) \<in> set outs. f = None \<longrightarrow> x = dflt"
        "\<forall>i. contents c1 i @ put_into i ops = taken_from i outs @ contents c' i" by auto
    have "contents c i @ put_into i (op # ops) = taken_from i outs @ contents c' i" for i
      using r(5)[rule_format, of i] by (auto simp: c1(3) Put split: if_splits)
    with r Put c1(1) show ?thesis by (intro exI[of _ outs] exI[of _ c']) simp
  next
    case Get
    obtain x c1 where c1: "qc_dequeue C c = Inr (x, c1)" "ok I c1"
      "x = dflt \<and> contents c1 = contents c \<or>
          (\<exists>i xs. contents c i = x # xs \<and> contents c1 = (contents c)(i := xs))"
      using dequeue[OF Cons.prems(1)] by blast
    then obtain f where f: "f = None \<longrightarrow> x = dflt"
      "\<And>i. contents c i = (if f = Some i then x # contents c1 i else contents c1 i)"
    proof (elim disjE exE conjE, goal_cases)
      case 1
      then show ?case by (intro that[of None]) auto
    next
      case (2 i xs)
      then show ?case by (intro that(1)[of "Some i"]) (auto simp: fun_eq_iff split: if_splits)
    qed
    have "int (length (contents c1 i) + length (put_into i ops)) < 9223372036854775807" for i
      using Cons.prems(3)[of i] f(2)[of i] by (simp add: Get split: if_splits)
    from Cons.IH[OF c1(2) _ this] Cons.prems(2) Get obtain outs c' where
      r: "queue_run C ops c1 = Inr (map snd outs, c')" "ok I c'"
        "length outs = length (filter (\<lambda>op. op = Get) ops)"
        "\<forall>(f, x) \<in> set outs. f = None \<longrightarrow> x = dflt"
        "\<forall>i. contents c1 i @ put_into i ops = taken_from i outs @ contents c' i" by auto
    have "contents c i @ put_into i (op # ops) = taken_from i ((f, x) # outs) @ contents c' i" for i
      using r(5)[rule_format, of i] f(2)[of i] by (simp add: Get)
    with r Get c1(1) f(1) show ?thesis by (intro exI[of _ "(f, x) # outs"] exI[of _ c']) auto
  qed
qed

end

section \<open>Flows\<close>

record 'a flow =
  fl_id :: int
  fl_weight :: int
  fl_active :: bool
  fl_queue :: "'a list"
  fl_capacity :: int

definition has_room :: "('a, 'z) flow_scheme \<Rightarrow> bool" where
  "has_room f \<longleftrightarrow> int (length (fl_queue f)) < fl_capacity f mod 18446744073709551616"

record ('a, 'z) flow_state =
  fq_flows :: "('a, 'z) flow_scheme list"
  fq_num :: int
  fq_capacity :: int

definition fq_new :: "int \<Rightarrow> ('a, 'z) flow_state" where
  "fq_new capacity = \<lparr> fq_flows = [], fq_num = 0, fq_capacity = capacity \<rparr>"

fun get_flow :: "int \<Rightarrow> ('a, 'z) flow_scheme list \<Rightarrow> nat option" where
  "get_flow i [] = None"
| "get_flow i (f # fs) = (if fl_id f = i then Some 0 else map_option Suc (get_flow i fs))"

definition get_or_create_flow ::
  "(flow_info \<Rightarrow> ('a, 'z) flow_scheme) \<Rightarrow> flow_info \<Rightarrow> ('a, 'z) flow_scheme list \<Rightarrow>
     nat \<times> ('a, 'z) flow_scheme list" where
  "get_or_create_flow create info fs = (case get_flow (fi_id info) fs of
       Some k \<Rightarrow> (k, fs)
     | None \<Rightarrow> (length fs, fs @ [create info]))"

definition delete_flow :: "nat \<Rightarrow> ('a, 'z) flow_scheme list \<Rightarrow> ('a, 'z) flow_scheme list" where
  "delete_flow k fs = take k fs @ drop (Suc k) fs"

definition fq_enqueue ::
  "(flow_info \<Rightarrow> ('a, 'z) flow_scheme) \<Rightarrow> 'a \<Rightarrow> flow_info \<Rightarrow> ('a, 'z) flow_state \<Rightarrow>
     bool \<times> ('a, 'z) flow_state" where
  "fq_enqueue create x info q =
     (let (k, fs) = get_or_create_flow create info (fq_flows q)
      in if \<not> has_room (fs ! k) then (False, q\<lparr> fq_flows := fs \<rparr>)
         else (True, q\<lparr> fq_flows := fs[k := (fs ! k)\<lparr> fl_queue := fl_queue (fs ! k) @ [x] \<rparr>],
                        fq_num := fq_num q + 1 \<rparr>))"

definition fq_is_empty :: "('a, 'z) flow_state \<Rightarrow> bool" where
  "fq_is_empty q \<longleftrightarrow> fq_num q = 0"

definition fq_is_empty_flow :: "int \<Rightarrow> ('a, 'z) flow_state \<Rightarrow> bool" where
  "fq_is_empty_flow i q = (case get_flow i (fq_flows q) of
       None \<Rightarrow> True
     | Some k \<Rightarrow> fl_queue (fq_flows q ! k) = [])"

definition fq_length_flow :: "int \<Rightarrow> ('a, 'z) flow_state \<Rightarrow> int" where
  "fq_length_flow i q = (case get_flow i (fq_flows q) of
       None \<Rightarrow> 0
     | Some k \<Rightarrow> int (length (fl_queue (fq_flows q ! k))))"

definition fq_has_capacity :: "int \<Rightarrow> ('a, 'z) flow_state \<Rightarrow> bool" where
  "fq_has_capacity i q = (case get_flow i (fq_flows q) of
       None \<Rightarrow> True
     | Some k \<Rightarrow> has_room (fq_flows q ! k))"

definition fq_is_full :: "int \<Rightarrow> ('a, 'z) flow_state \<Rightarrow> bool" where
  "fq_is_full i q \<longleftrightarrow> \<not> fq_has_capacity i q"

definition fq_set_capacity :: "int \<Rightarrow> ('a, 'z) flow_state \<Rightarrow> ('a, 'z) flow_state" where
  "fq_set_capacity n q = q\<lparr> fq_capacity := n \<rparr>"

text \<open>Neither \<open>Clear\<close> touches the number of objects.\<close>

definition fq_clear :: "('a, 'z) flow_state \<Rightarrow> ('a, 'z) flow_state" where
  "fq_clear q = q\<lparr> fq_flows := [] \<rparr>"

definition fq_clear_flow :: "int \<Rightarrow> ('a, 'z) flow_state \<Rightarrow> ('a, 'z) flow_state" where
  "fq_clear_flow i q = (case get_flow i (fq_flows q) of
       None \<Rightarrow> q
     | Some k \<Rightarrow> q\<lparr> fq_flows := delete_flow k (fq_flows q) \<rparr>)"

section \<open>What the flows hold\<close>

definition flow_contents :: "('a, 'z) flow_scheme list \<Rightarrow> int \<Rightarrow> 'a list" where
  "flow_contents fs i = (case find (\<lambda>f. fl_id f = i) fs of None \<Rightarrow> [] | Some f \<Rightarrow> fl_queue f)"

definition distinct_ids :: "('a, 'z) flow_scheme list \<Rightarrow> bool" where
  "distinct_ids fs \<longleftrightarrow> distinct (map fl_id fs)"

definition count_objects :: "('a, 'z) flow_scheme list \<Rightarrow> int" where
  "count_objects fs = (\<Sum>f\<leftarrow>fs. int (length (fl_queue f)))"

text \<open>
  What both queues keep: one flow for each identifier, each with the weight it was created with and the
  default capacity, and the number of objects. The weights of all possible flows fit an \<open>int\<close>.
\<close>

definition infos_ok :: "flow_info set \<Rightarrow> bool" where
  "infos_ok I \<longleftrightarrow> finite I \<and> (\<forall>i \<in> I. 0 \<le> fi_weight i) \<and> (\<Sum>i\<in>I. fi_weight i) \<le> 2147483647"

definition flow_ok :: "flow_info set \<Rightarrow> ('a, 'z) flow_scheme \<Rightarrow> bool" where
  "flow_ok I f \<longleftrightarrow> \<lparr> fi_id = fl_id f, fi_weight = fl_weight f \<rparr> \<in> I \<and>
     fl_capacity f = 9223372036854775807"

definition flows_ok :: "flow_info set \<Rightarrow> ('a, 'z) flow_scheme list \<Rightarrow> bool" where
  "flows_ok I fs \<longleftrightarrow> infos_ok I \<and> distinct_ids fs \<and> (\<forall>f \<in> set fs. flow_ok I f)"

lemma flow_contents_simps [simp]:
  "flow_contents [] i = []"
  "flow_contents (f # fs) i = (if fl_id f = i then fl_queue f else flow_contents fs i)"
  by (simp_all add: flow_contents_def)

lemma get_flow_None [simp]: "get_flow i fs = None \<longleftrightarrow> i \<notin> fl_id ` set fs"
  by (induction fs) auto

lemma get_flow_Some:
  "get_flow i fs = Some k \<Longrightarrow>
     k < length fs \<and> fl_id (fs ! k) = i \<and> flow_contents fs i = fl_queue (fs ! k)"
  by (induction fs arbitrary: k) (auto split: if_splits)

lemma flow_contents_absent [simp]: "i \<notin> fl_id ` set fs \<Longrightarrow> flow_contents fs i = []"
  by (induction fs) auto

lemma flow_contents_append:
  "flow_contents (fs @ gs) i = (if i \<in> fl_id ` set fs then flow_contents fs i else flow_contents gs i)"
  by (induction fs) auto

lemma flow_contents_update:
  "k < length fs \<Longrightarrow> fl_id f = fl_id (fs ! k) \<Longrightarrow> distinct_ids fs \<Longrightarrow>
     flow_contents (fs[k := f]) = (flow_contents fs)(fl_id f := fl_queue f)"
proof (induction fs arbitrary: k)
  case (Cons g fs)
  show ?case
  proof (cases k)
    case (Suc j)
    with Cons.prems have "fl_id f \<in> fl_id ` set fs" by (metis Suc_less_eq image_eqI length_Cons nth_Cons_Suc nth_mem)
    with Suc Cons.prems show ?thesis by (auto simp: fun_eq_iff distinct_ids_def Cons.IH)
  qed (use Cons.prems in \<open>auto simp: fun_eq_iff distinct_ids_def\<close>)
qed simp

lemma distinct_ids_simps [simp]:
  "distinct_ids []"
  "distinct_ids (f # fs) \<longleftrightarrow> fl_id f \<notin> fl_id ` set fs \<and> distinct_ids fs"
  by (simp_all add: distinct_ids_def)

lemma distinct_ids_append:
  "distinct_ids (fs @ gs) \<longleftrightarrow> distinct_ids fs \<and> distinct_ids gs \<and> fl_id ` set fs \<inter> fl_id ` set gs = {}"
  by (auto simp: distinct_ids_def)

lemma distinct_ids_update:
  "k < length fs \<Longrightarrow> fl_id f = fl_id (fs ! k) \<Longrightarrow> distinct_ids (fs[k := f]) = distinct_ids fs"
  by (simp add: distinct_ids_def map_update) (metis length_map list_update_id nth_map)

lemma count_objects_simps [simp]:
  "count_objects [] = 0"
  "count_objects (f # fs) = int (length (fl_queue f)) + count_objects fs"
  "count_objects (fs @ gs) = count_objects fs + count_objects gs"
  by (simp_all add: count_objects_def)

lemma count_objects_update:
  "k < length fs \<Longrightarrow> count_objects (fs[k := f]) =
     count_objects fs - int (length (fl_queue (fs ! k))) + int (length (fl_queue f))"
  by (induction fs arbitrary: k) (auto split: nat.split)

lemma count_objects_zero: "count_objects fs = 0 \<longleftrightarrow> (\<forall>f \<in> set fs. fl_queue f = [])"
proof (induction fs)
  case (Cons f fs)
  have "0 \<le> count_objects fs" by (induction fs) auto
  with Cons show ?case by auto
qed simp

lemma flows_ok_update:
  "flows_ok I fs \<Longrightarrow> k < length fs \<Longrightarrow> fl_id f = fl_id (fs ! k) \<Longrightarrow> fl_weight f = fl_weight (fs ! k) \<Longrightarrow>
     fl_capacity f = fl_capacity (fs ! k) \<Longrightarrow> flows_ok I (fs[k := f])"
  by (auto simp: flows_ok_def distinct_ids_update flow_ok_def dest!: set_update_subset_insert[THEN subsetD])

lemma flows_ok_append:
  "flows_ok I (fs @ gs) \<longleftrightarrow>
     flows_ok I fs \<and> flows_ok I gs \<and> fl_id ` set fs \<inter> fl_id ` set gs = {}"
  by (auto simp: flows_ok_def distinct_ids_append)

lemma flows_ok_Cons:
  "flows_ok I (f # fs) \<longleftrightarrow> flow_ok I f \<and> flows_ok I fs \<and> fl_id f \<notin> fl_id ` set fs"
  by (auto simp: flows_ok_def)

section \<open>Enqueue\<close>

lemma fq_is_full_iff:
  assumes "flows_ok I (fq_flows q)"
  shows "fq_is_full i q \<longleftrightarrow> 9223372036854775807 \<le> int (length (flow_contents (fq_flows q) i))"
proof (cases "get_flow i (fq_flows q)")
  case None
  then have "flow_contents (fq_flows q) i = []" by simp
  with None show ?thesis by (simp add: fq_is_full_def fq_has_capacity_def del: get_flow_None)
next
  case (Some k)
  then have "fl_capacity (fq_flows q ! k) = 9223372036854775807"
    using assms get_flow_Some[OF Some] by (simp add: flows_ok_def flow_ok_def)
  then show ?thesis
    using get_flow_Some[OF Some] by (simp add: fq_is_full_def fq_has_capacity_def Some has_room_def not_less)
qed

lemma fq_enqueue_ok:
  assumes "flows_ok I (fq_flows q)" "info \<in> I" "\<not> fq_is_full (fi_id info) q"
    and create: "fl_id (create info) = fi_id info" "fl_weight (create info) = fi_weight info"
      "fl_queue (create info) = []" "fl_capacity (create info) = 9223372036854775807"
    and count: "fq_num q = count_objects (fq_flows q)"
  shows "\<exists>k f q'. fq_enqueue create x info q = (True, q') \<and> flows_ok I (fq_flows q') \<and>
    fq_num q' = count_objects (fq_flows q') \<and>
    flow_contents (fq_flows q') =
      (flow_contents (fq_flows q))(fi_id info := flow_contents (fq_flows q) (fi_id info) @ [x]) \<and>
    (k < length (fq_flows q) \<and> f = fq_flows q ! k \<and> fq_flows q' = (fq_flows q)[k := f\<lparr> fl_queue := fl_queue f @ [x] \<rparr>] \<or>
     f = create info \<and> fq_flows q' = fq_flows q @ [f\<lparr> fl_queue := [x] \<rparr>])"
proof (cases "get_flow (fi_id info) (fq_flows q)")
  case None
  then have abs: "fi_id info \<notin> fl_id ` set (fq_flows q)" by simp
  have ok: "flow_ok I ((create info)\<lparr> fl_queue := [x] \<rparr>)"
    using assms(2) create by (cases info) (simp add: flow_ok_def)
  have "fq_enqueue create x info q = (True, q\<lparr> fq_flows := fq_flows q @ [(create info)\<lparr> fl_queue := [x] \<rparr>],
      fq_num := fq_num q + 1 \<rparr>)"
    using None create by (simp add: fq_enqueue_def get_or_create_flow_def has_room_def del: get_flow_None)
  moreover have "flows_ok I (fq_flows q @ [(create info)\<lparr> fl_queue := [x] \<rparr>])"
    using assms(1) ok abs create by (auto simp: flows_ok_append) (simp add: flows_ok_def)
  ultimately show ?thesis
    using abs create count by (auto simp: fun_eq_iff flow_contents_append)
next
  case (Some k)
  note k = get_flow_Some[OF Some]
  let ?f = "fq_flows q ! k"
  have room: "has_room ?f"
    using assms(3) Some by (simp add: fq_is_full_def fq_has_capacity_def)
  have "fq_enqueue create x info q = (True, q\<lparr> fq_flows := (fq_flows q)[k := ?f\<lparr> fl_queue := fl_queue ?f @ [x] \<rparr>],
      fq_num := fq_num q + 1 \<rparr>)"
    using room by (simp add: fq_enqueue_def get_or_create_flow_def Some)
  moreover have "flow_contents ((fq_flows q)[k := ?f\<lparr> fl_queue := fl_queue ?f @ [x] \<rparr>]) =
      (flow_contents (fq_flows q))(fi_id info := flow_contents (fq_flows q) (fi_id info) @ [x])"
    using k assms(1) by (simp add: flow_contents_update flows_ok_def)
  ultimately show ?thesis
    using k assms(1) count
    by (intro exI[of _ k] exI[of _ ?f] exI) (auto intro!: flows_ok_update simp: count_objects_update)
qed

end
