(* ===== verification/Fair_Queue.thy ===== *)
theory Fair_Queue
  imports Flow_Queues
begin

text \<open>
  \<open>WFQueue\<close> of \<open>BaseLib/Collection/WeightedFairQueue.h\<close>: the flow at the front is served as long as
  its deficit counter pays for an object; otherwise it goes to the back and earns a new share when it
  is at the front again.
\<close>

record 'd denominator =
  dn_dc :: 'd
  dn_used :: 'd
  dn_orig :: 'd

record ('a, 'd) wf_flow = "'a flow" +
  fl_denominator :: "'d denominator"

type_synonym ('a, 'd) wf_flows = "('a, \<lparr> fl_denominator :: 'd denominator \<rparr>) flow_scheme list"
type_synonym ('a, 'd) wf_queue = "('a, \<lparr> fl_denominator :: 'd denominator \<rparr>) flow_state"

definition dn_new :: "'d doubles \<Rightarrow> 'd denominator" where
  "dn_new D = \<lparr> dn_dc = db_of_int D 0, dn_used = db_of_int D 0, dn_orig = db_of_int D 0 \<rparr>"

definition wf_create_flow :: "'d doubles \<Rightarrow> flow_info \<Rightarrow> ('a, 'd) wf_flow" where
  "wf_create_flow D info =
     \<lparr> fl_id = fi_id info, fl_weight = fi_weight info, fl_active = False, fl_queue = [],
       fl_capacity = 9223372036854775807, fl_denominator = dn_new D \<rparr>"

definition wf_enqueue ::
  "'d doubles \<Rightarrow> 'a \<Rightarrow> flow_info \<Rightarrow> ('a, 'd) wf_queue \<Rightarrow> bool \<times> ('a, 'd) wf_queue" where
  "wf_enqueue D = fq_enqueue (wf_create_flow D)"

definition calculate_system_weight :: "('a, 'z) flow_scheme list \<Rightarrow> int res" where
  "calculate_system_weight fs = rfold (\<lambda>f w. int_result (w + fl_weight f)) fs 0"

definition calculate_dc ::
  "'d doubles \<Rightarrow> int \<Rightarrow> 'd denominator \<Rightarrow> int \<Rightarrow> int \<Rightarrow> 'd denominator" where
  "calculate_dc D sz d weight system_weight =
     (let quota = db_div D (db_of_int D weight) (db_of_int D system_weight);
          service = db_mul D (db_mul D (db_of_int D sz) quota) (db_add D (db_of_int D 1) quota);
          dc = db_add D (dn_dc d) service
      in d\<lparr> dn_dc := dc, dn_orig := dc \<rparr>)"

definition update_dc :: "'d doubles \<Rightarrow> int \<Rightarrow> 'd denominator \<Rightarrow> 'd denominator res" where
  "update_dc D sz d =
     (let d' = d\<lparr> dn_dc := db_sub D (dn_dc d) (db_of_int D sz),
                  dn_used := db_add D (dn_used d) (db_of_int D sz) \<rparr>
      in asserting (db_le D (db_of_int D 0) (dn_dc d')) (Inr d'))"

text \<open>\<open>getOrSetActiveQueue\<close> returns the flow at the front; no flow is left when it returns \<open>NULL\<close>.\<close>

fun get_or_set_active_queue ::
  "'d doubles \<Rightarrow> int \<Rightarrow> ('a, 'd) wf_flows \<Rightarrow> ('a, 'd) wf_flows res" where
  "get_or_set_active_queue D sz [] = Inr []"
| "get_or_set_active_queue D sz (f # fs) =
     (if fl_queue f = [] then get_or_set_active_queue D sz fs
      else rbind (if \<not> fl_active f then
                    rbind (calculate_system_weight (f # fs)) (\<lambda>system_weight.
                      Inr (f\<lparr> fl_denominator := calculate_dc D sz (fl_denominator f) (fl_weight f) system_weight,
                              fl_active := True \<rparr>))
                  else Inr f) (\<lambda>f'.
           asserting (fl_active f') (asserting (fl_queue f' \<noteq> []) (Inr (f' # fs)))))"

lemma get_or_set_length:
  "get_or_set_active_queue D sz fs = Inr fs' \<Longrightarrow> length fs' \<le> length fs"
  by (induction D sz fs rule: get_or_set_active_queue.induct) (auto simp: res_simps split: if_splits)

function wf_dequeue_loop ::
  "'d doubles \<Rightarrow> 'a \<Rightarrow> int \<Rightarrow> nat \<Rightarrow> ('a, 'd) wf_queue \<Rightarrow> ('a \<times> ('a, 'd) wf_queue) res" where
  "wf_dequeue_loop D dflt sz i q =
     (if i < length (fq_flows q) * 2 then
        (case get_or_set_active_queue D sz (fq_flows q) of
           Inl e \<Rightarrow> Inl e
         | Inr [] \<Rightarrow> Inr (dflt, q\<lparr> fq_flows := [] \<rparr>)
         | Inr (f # fs) \<Rightarrow>
             (case fl_queue f of
                [] \<Rightarrow> Inl AssertFailed
              | x # xs \<Rightarrow>
                  if db_le D (db_of_int D sz) (dn_dc (fl_denominator f)) then
                    rbind (update_dc D sz (fl_denominator f)) (\<lambda>d.
                      Inr (x, q\<lparr> fq_flows := f\<lparr> fl_queue := xs, fl_denominator := d \<rparr> # fs,
                                 fq_num := fq_num q - 1 \<rparr>))
                  else
                    wf_dequeue_loop D dflt sz (Suc i)
                      (q\<lparr> fq_flows := fs @ [f\<lparr> fl_active := False \<rparr>] \<rparr>)))
      else Inr (dflt, q))"
  by pat_completeness auto
termination
  by (relation "measure (\<lambda>(D, dflt, sz, i, q). length (fq_flows q) * 2 - i)")
    (auto dest!: get_or_set_length)

definition wf_dequeue ::
  "'d doubles \<Rightarrow> 'a \<Rightarrow> int \<Rightarrow> ('a, 'd) wf_queue \<Rightarrow> ('a \<times> ('a, 'd) wf_queue) res" where
  "wf_dequeue D dflt sz q = (if fq_num q = 0 then Inr (dflt, q) else wf_dequeue_loop D dflt sz 0 q)"

definition wf_class :: "'d doubles \<Rightarrow> 'a \<Rightarrow> int \<Rightarrow> ('a, ('a, 'd) wf_queue) queue_class" where
  "wf_class D dflt sz =
     \<lparr> qc_enqueue = wf_enqueue D, qc_dequeue = wf_dequeue D dflt sz, qc_is_empty = fq_is_empty,
       qc_is_empty_flow = fq_is_empty_flow, qc_length = fq_num, qc_length_flow = fq_length_flow,
       qc_is_full = fq_is_full, qc_clear = fq_clear, qc_clear_flow = fq_clear_flow \<rparr>"

declare wf_dequeue_loop.simps [simp del]

section \<open>What every call keeps\<close>

text \<open>
  The only law of arithmetic the queue needs: what is at least the size of an object is not negative
  after the size is subtracted, which \<open>ASSERT\<close> checks.
\<close>

definition wf_ok :: "'d doubles \<Rightarrow> int \<Rightarrow> flow_info set \<Rightarrow> ('a, 'd) wf_queue \<Rightarrow> bool" where
  "wf_ok D sz I q \<longleftrightarrow> flows_ok I (fq_flows q) \<and> fq_num q = count_objects (fq_flows q) \<and>
     (\<forall>d. db_le D (db_of_int D sz) d \<longrightarrow> db_le D (db_of_int D 0) (db_sub D d (db_of_int D sz)))"

lemma weights_fit:
  assumes "flows_ok I fs"
  shows "calculate_system_weight fs = Inr (\<Sum>f\<leftarrow>fs. fl_weight f)" (is ?sum)
    and "0 \<le> (\<Sum>f\<leftarrow>fs. fl_weight f)" and "(\<Sum>f\<leftarrow>fs. fl_weight f) \<le> 2147483647"
proof -
  let ?info = "\<lambda>f. \<lparr> fi_id = fl_id f, fi_weight = fl_weight f \<rparr>"
  have I: "finite I" "\<And>i. i \<in> I \<Longrightarrow> 0 \<le> fi_weight i" "(\<Sum>i\<in>I. fi_weight i) \<le> 2147483647"
    using assms by (auto simp: flows_ok_def infos_ok_def)
  have w: "0 \<le> fl_weight f" if "f \<in> set fs" for f
    using assms that I(2)[of "?info f"] by (auto simp: flows_ok_def flow_ok_def)
  have le: "(\<Sum>f\<leftarrow>fs. fl_weight f) \<le> 2147483647" if "flows_ok I fs" for fs :: "('a, 'b) flow_scheme list"
  proof -
    have "distinct (map ?info fs)"
      using that by (auto simp: flows_ok_def distinct_ids_def distinct_map inj_on_def)
    then have "(\<Sum>f\<leftarrow>fs. fl_weight f) = (\<Sum>i\<in>set (map ?info fs). fi_weight i)"
      by (subst sum_list_distinct_conv_sum_set[symmetric]) (auto simp: o_def)
    also have "\<dots> \<le> (\<Sum>i\<in>I. fi_weight i)"
      using that I by (intro sum_mono2) (auto simp: flows_ok_def flow_ok_def)
    finally show ?thesis using I(3) by simp
  qed
  have go: "rfold (\<lambda>f w. int_result (w + fl_weight f)) fs v = Inr (v + (\<Sum>f\<leftarrow>fs. fl_weight f))"
    if "0 \<le> v" "v + (\<Sum>f\<leftarrow>fs. fl_weight f) \<le> 2147483647" "\<forall>f \<in> set fs. 0 \<le> fl_weight f"
    for v and fs :: "('a, 'b) flow_scheme list"
    using that
  proof (induction fs arbitrary: v)
    case (Cons f fs)
    have "0 \<le> (\<Sum>f\<leftarrow>fs. fl_weight f)" using Cons.prems(3) by (intro sum_list_nonneg) auto
    with Cons show ?case by (simp add: int_result_def in_int32_def add.assoc)
  qed simp
  show ?sum using go[of 0 fs] le[OF assms] w by (simp add: calculate_system_weight_def)
  show "0 \<le> (\<Sum>f\<leftarrow>fs. fl_weight f)" using w by (intro sum_list_nonneg) auto
  show "(\<Sum>f\<leftarrow>fs. fl_weight f) \<le> 2147483647" by (rule le[OF assms])
qed

text \<open>The flow that is found, and nothing lost of the other flows.\<close>

lemma get_or_set_ok:
  assumes "flows_ok I fs"
  shows "\<exists>fs'. get_or_set_active_queue D sz fs = Inr fs' \<and> flows_ok I fs' \<and>
    flow_contents fs' = flow_contents fs \<and> count_objects fs' = count_objects fs \<and>
    (fs' \<noteq> [] \<longrightarrow> fl_queue (hd fs') \<noteq> [])"
  using assms
proof (induction fs)
  case (Cons f fs)
  show ?case
  proof (cases "fl_queue f = []")
    case True
    then show ?thesis using Cons by (auto simp: flows_ok_Cons fun_eq_iff)
  next
    case False
    have "flows_ok I (f\<lparr> fl_denominator := d, fl_active := True \<rparr> # fs)" for d
      using Cons.prems by (auto simp: flows_ok_Cons flow_ok_def)
    with False Cons.prems show ?thesis
      using weights_fit(1)[OF Cons.prems] by (auto simp: fun_eq_iff)
  qed
qed simp

lemma flow_contents_rotate:
  "flows_ok I (f # fs) \<Longrightarrow> fl_id g = fl_id f \<Longrightarrow> fl_queue g = fl_queue f \<Longrightarrow>
     flow_contents (fs @ [g]) = flow_contents (f # fs)"
  by (auto simp: fun_eq_iff flow_contents_append flows_ok_Cons)

lemma flows_ok_rotate:
  "flows_ok I (f # fs) \<Longrightarrow> fl_id g = fl_id f \<Longrightarrow> fl_weight g = fl_weight f \<Longrightarrow>
     fl_capacity g = fl_capacity f \<Longrightarrow> flows_ok I (fs @ [g])"
  by (auto simp: flows_ok_append flows_ok_Cons flow_ok_def) (auto simp: flows_ok_def)

lemma wf_loop_ok:
  assumes "wf_ok D sz I q"
  shows "\<exists>x q'. wf_dequeue_loop D dflt sz i q = Inr (x, q') \<and> wf_ok D sz I q' \<and>
    (x = dflt \<and> flow_contents (fq_flows q') = flow_contents (fq_flows q) \<or>
     (\<exists>j xs. flow_contents (fq_flows q) j = x # xs \<and>
        flow_contents (fq_flows q') = (flow_contents (fq_flows q))(j := xs)))"
  using assms
proof (induction D dflt sz i q rule: wf_dequeue_loop.induct)
  case (1 D dflt sz i q)
  obtain fs where fs: "get_or_set_active_queue D sz (fq_flows q) = Inr fs" "flows_ok I fs"
    "flow_contents fs = flow_contents (fq_flows q)" "count_objects fs = count_objects (fq_flows q)"
    "fs \<noteq> [] \<longrightarrow> fl_queue (hd fs) \<noteq> []"
    using get_or_set_ok[of I "fq_flows q" D sz] "1.prems" unfolding wf_ok_def by blast
  show ?case
  proof (cases "i < length (fq_flows q) * 2")
    case i: True
    show ?thesis
    proof (cases fs)
      case Nil
      with fs i "1.prems" show ?thesis
        by (simp add: wf_dequeue_loop.simps[of D dflt sz i q] wf_ok_def)
    next
      case (Cons f gs)
      then obtain x xs where x: "fl_queue f = x # xs" using fs(5) by (cases "fl_queue f") auto
      show ?thesis
      proof (cases "db_le D (db_of_int D sz) (dn_dc (fl_denominator f))")
        case True
        then obtain d where d: "update_dc D sz (fl_denominator f) = Inr d"
          using "1.prems" by (auto simp: update_dc_def wf_ok_def)
        have "flows_ok I (f\<lparr> fl_queue := xs, fl_denominator := d \<rparr> # gs)"
          using fs(2) Cons by (auto simp: flows_ok_Cons flow_ok_def)
        moreover have "flow_contents (fq_flows q) = flow_contents (f # gs)" using fs(3) Cons by simp
        ultimately show ?thesis using i fs(1,4) Cons x True d "1.prems"
          by (auto simp: wf_dequeue_loop.simps[of D dflt sz i q] wf_ok_def fun_eq_iff
              intro!: exI[of _ "fl_id f"])
      next
        case False
        let ?q = "q\<lparr> fq_flows := gs @ [f\<lparr> fl_active := False \<rparr>] \<rparr>"
        have ok: "wf_ok D sz I ?q"
          using "1.prems" fs(2,4) Cons flows_ok_rotate[of I f gs "f\<lparr> fl_active := False \<rparr>"]
          by (simp add: wf_ok_def)
        have "flow_contents (fq_flows ?q) = flow_contents (fq_flows q)"
          using flow_contents_rotate[of I f gs "f\<lparr> fl_active := False \<rparr>"] fs(2,3) Cons by simp
        then show ?thesis
          using "1.IH"[OF i fs(1) Cons x False ok] i fs(1) Cons x False
          by (simp add: wf_dequeue_loop.simps[of D dflt sz i q])
      qed
    qed
  next
    case False
    then show ?thesis using "1.prems" by (simp add: wf_dequeue_loop.simps[of D dflt sz i q])
  qed
qed

interpretation wfq: flow_queue "wf_class D dflt sz" dflt "wf_ok D sz" "\<lambda>q. flow_contents (fq_flows q)"
  for D dflt sz
proof (unfold_locales, goal_cases)
  case (1 I c info x)
  have ok: "flows_ok I (fq_flows c)" "fq_num c = count_objects (fq_flows c)"
    using 1(1) by (simp_all add: wf_ok_def)
  have full: "\<not> fq_is_full (fi_id info) c" using 1(3) by (simp add: wf_class_def)
  show ?case
    using fq_enqueue_ok[OF ok(1) 1(2) full, of "wf_create_flow D" x] ok(2) 1(1)
    by (fastforce simp: wf_class_def wf_enqueue_def wf_create_flow_def wf_ok_def)
next
  case (2 I c)
  show ?case
  proof (cases "fq_num c = 0")
    case True
    then show ?thesis using 2 by (simp add: wf_class_def wf_dequeue_def)
  next
    case False
    then show ?thesis using wf_loop_ok[OF 2, of dflt 0] by (simp add: wf_class_def wf_dequeue_def)
  qed
next
  case (3 I c i)
  then show ?case using fq_is_full_iff[of I c i] by (simp add: wf_class_def wf_ok_def)
qed

section \<open>Rounds in exact arithmetic\<close>

text \<open>What a flow earns each time it comes to the front, of the size of an object.\<close>

definition wf_gain :: "int \<Rightarrow> int \<Rightarrow> rat" where
  "wf_gain w W = of_int w / of_int W * (1 + of_int w / of_int W)"

definition wf_total :: "('a, 'z) flow_scheme list \<Rightarrow> int" where
  "wf_total fs = (\<Sum>f\<leftarrow>fs. fl_weight f)"

definition wf_credit :: "('a, rat) wf_flow \<Rightarrow> rat" where
  "wf_credit f = dn_dc (fl_denominator f)"

definition waiting_flows :: "('a, 'd) wf_flows \<Rightarrow> bool" where
  "waiting_flows fs \<longleftrightarrow> (\<forall>f \<in> set fs. \<not> fl_active f \<and> fl_queue f \<noteq> [])"

definition wf_visit :: "int \<Rightarrow> int \<Rightarrow> ('a, rat) wf_flow \<Rightarrow> ('a, rat) wf_flow" where
  "wf_visit sz W f = f\<lparr> fl_denominator := calculate_dc rat_doubles sz (fl_denominator f) (fl_weight f) W,
     fl_active := False \<rparr>"

lemma wf_visit_simps [simp]:
  "fl_id (wf_visit sz W f) = fl_id f" "fl_weight (wf_visit sz W f) = fl_weight f"
  "fl_queue (wf_visit sz W f) = fl_queue f" "fl_capacity (wf_visit sz W f) = fl_capacity f"
  "fl_active (wf_visit sz W f) = False"
  "wf_credit (wf_visit sz W f) = wf_credit f + of_int sz * wf_gain (fl_weight f) W"
  by (simp_all add: wf_visit_def wf_credit_def calculate_dc_def wf_gain_def Let_def)

lemma flow_contents_visit: "flow_contents (map (wf_visit sz W) fs) = flow_contents fs"
proof
  show "flow_contents (map (wf_visit sz W) fs) i = flow_contents fs i" for i by (induction fs) auto
qed

lemma wf_total_simps [simp]:
  "wf_total [] = 0" "wf_total (f # fs) = fl_weight f + wf_total fs"
  "wf_total (fs @ gs) = wf_total fs + wf_total gs"
  "wf_total (map (wf_visit sz W) gs') = wf_total gs'"
  by (simp_all add: wf_total_def o_def)

lemma waiting_flows_simps [simp]:
  "waiting_flows []"
  "waiting_flows (f # fs) \<longleftrightarrow> \<not> fl_active f \<and> fl_queue f \<noteq> [] \<and> waiting_flows fs"
  "waiting_flows (fs @ gs) \<longleftrightarrow> waiting_flows fs \<and> waiting_flows gs"
  "waiting_flows (map (wf_visit sz W) hs) \<longleftrightarrow> (\<forall>f \<in> set hs. fl_queue f \<noteq> [])"
  by (auto simp: waiting_flows_def)

lemma waiting_has_objects: "waiting_flows fs \<Longrightarrow> fl_queue f = [] \<Longrightarrow> f \<notin> set fs"
  by (auto simp: waiting_flows_def)

lemma wf_ok_rat:
  "wf_ok rat_doubles sz I q \<longleftrightarrow> flows_ok I (fq_flows q) \<and> fq_num q = count_objects (fq_flows q)"
  by (simp add: wf_ok_def)

text \<open>One step of the loop, and the steps that serve nobody.\<close>

lemma wf_loop_step:
  assumes "fq_flows q = f # fs" "flows_ok I (f # fs)" "waiting_flows (f # fs)"
    and "i < length (f # fs) * 2" "W = wf_total (f # fs)"
  shows "wf_credit f + of_int sz * wf_gain (fl_weight f) W < of_int sz \<Longrightarrow>
      wf_dequeue_loop rat_doubles dflt sz i q =
      wf_dequeue_loop rat_doubles dflt sz (Suc i) (q\<lparr> fq_flows := fs @ [wf_visit sz W f] \<rparr>)"
    and "of_int sz \<le> wf_credit f + of_int sz * wf_gain (fl_weight f) W \<Longrightarrow>
      \<exists>g. fl_id g = fl_id f \<and> fl_queue g = tl (fl_queue f) \<and>
        wf_dequeue_loop rat_doubles dflt sz i q =
        Inr (hd (fl_queue f), q\<lparr> fq_flows := g # fs, fq_num := fq_num q - 1 \<rparr>)"
proof -
  obtain x xs where x: "fl_queue f = x # xs" using assms(3) by (cases "fl_queue f") auto
  have w: "calculate_system_weight (f # fs) = Inr W"
    using weights_fit(1)[OF assms(2)] assms(5) by (simp add: wf_total_def)
  have act: "get_or_set_active_queue rat_doubles sz (fq_flows q) =
      Inr ((wf_visit sz W f)\<lparr> fl_active := True \<rparr> # fs)"
    using assms(3) x w by (simp add: assms(1) wf_visit_def)
  have dc: "dn_dc (fl_denominator (wf_visit sz W f)) = wf_credit f + of_int sz * wf_gain (fl_weight f) W"
    using wf_visit_simps(6)[of sz W f] by (simp add: wf_credit_def)
  have room: "i < length (fq_flows q) * 2" using assms(1,4) by simp
  show "wf_dequeue_loop rat_doubles dflt sz i q =
      wf_dequeue_loop rat_doubles dflt sz (Suc i) (q\<lparr> fq_flows := fs @ [wf_visit sz W f] \<rparr>)"
    if "wf_credit f + of_int sz * wf_gain (fl_weight f) W < of_int sz"
  proof -
    have same: "(wf_visit sz W f)\<lparr> fl_active := False \<rparr> = wf_visit sz W f" by (simp add: wf_visit_def)
    show ?thesis
      using that by (subst wf_dequeue_loop.simps) (simp add: room act x dc same)
  qed
  show "\<exists>g. fl_id g = fl_id f \<and> fl_queue g = tl (fl_queue f) \<and>
        wf_dequeue_loop rat_doubles dflt sz i q =
        Inr (hd (fl_queue f), q\<lparr> fq_flows := g # fs, fq_num := fq_num q - 1 \<rparr>)"
    if rich: "of_int sz \<le> wf_credit f + of_int sz * wf_gain (fl_weight f) W"
  proof -
    obtain d where d: "update_dc rat_doubles sz (fl_denominator (wf_visit sz W f)) = Inr d"
      using rich by (simp add: update_dc_def dc)
    show ?thesis
      using rich
      by (intro exI[of _ "(wf_visit sz W f)\<lparr> fl_active := True, fl_queue := xs, fl_denominator := d \<rparr>"],
          subst wf_dequeue_loop.simps) (simp add: room act x dc d)
  qed
qed

lemma wf_loop_pass:
  assumes "fq_flows q = xs @ ys" "flows_ok I (xs @ ys)" "waiting_flows (xs @ ys)"
    and "i + length xs \<le> length (xs @ ys) * 2" "W = wf_total (xs @ ys)"
    and "\<And>f. f \<in> set xs \<Longrightarrow> wf_credit f + of_int sz * wf_gain (fl_weight f) W < of_int sz"
  shows "wf_dequeue_loop rat_doubles dflt sz i q =
    wf_dequeue_loop rat_doubles dflt sz (i + length xs) (q\<lparr> fq_flows := ys @ map (wf_visit sz W) xs \<rparr>)"
  using assms
proof (induction xs arbitrary: i q ys)
  case (Cons f xs)
  let ?q = "q\<lparr> fq_flows := (xs @ ys) @ [wf_visit sz W f] \<rparr>"
  have "wf_dequeue_loop rat_doubles dflt sz i q = wf_dequeue_loop rat_doubles dflt sz (Suc i) ?q"
    using Cons.prems by (intro wf_loop_step(1)[of q f "xs @ ys" I]) auto
  also have "\<dots> = wf_dequeue_loop rat_doubles dflt sz (Suc i + length xs)
      (?q\<lparr> fq_flows := (ys @ [wf_visit sz W f]) @ map (wf_visit sz W) xs \<rparr>)"
  proof (rule Cons.IH)
    show "flows_ok I (xs @ ys @ [wf_visit sz W f])"
      using Cons.prems(2) flows_ok_rotate[of I f "xs @ ys" "wf_visit sz W f"] by simp
  qed (use Cons.prems in auto)
  finally show ?case by simp
qed simp

text \<open>Two rounds over flows that wait.\<close>

lemma wf_dequeue_waiting:
  assumes "wf_ok rat_doubles sz I q" "waiting_flows (fq_flows q)" "fq_flows q \<noteq> []"
    and "W = wf_total (fq_flows q)" "0 \<le> sz"
  shows "(\<And>f. f \<in> set (fq_flows q) \<Longrightarrow> wf_credit f + 2 * (of_int sz * wf_gain (fl_weight f) W) < of_int sz) \<Longrightarrow>
      wf_dequeue rat_doubles dflt sz q =
      Inr (dflt, q\<lparr> fq_flows := map (\<lambda>f. wf_visit sz W (wf_visit sz W f)) (fq_flows q) \<rparr>)"
    and "f \<in> set (fq_flows q) \<Longrightarrow> of_int sz \<le> wf_credit f + 2 * (of_int sz * wf_gain (fl_weight f) W) \<Longrightarrow>
      \<exists>x q' i xs. wf_dequeue rat_doubles dflt sz q = Inr (x, q') \<and>
        flow_contents (fq_flows q) i = x # xs \<and>
        flow_contents (fq_flows q') = (flow_contents (fq_flows q))(i := xs)"
proof -
  let ?fs = "fq_flows q" and ?v = "wf_visit sz W"
  let ?gs = "map ?v ?fs"
  have ok: "flows_ok I ?fs" and num: "fq_num q \<noteq> 0"
    using assms(1-3) count_objects_zero[of ?fs] by (auto simp: wf_ok_rat waiting_flows_def)
  have gain: "0 \<le> of_int sz * wf_gain (fl_weight f) W" if "f \<in> set ?fs" for f
  proof -
    have "0 \<le> fl_weight f" using ok that by (fastforce simp: flows_ok_def flow_ok_def infos_ok_def)
    then show ?thesis using weights_fit(2)[OF ok] assms(4,5) by (simp add: wf_gain_def wf_total_def)
  qed
  have gs: "flows_ok I ?gs" using ok by (auto simp: flows_ok_def distinct_ids_def flow_ok_def o_def)
  have wgs: "waiting_flows ?gs" using assms(2) by (auto simp: waiting_flows_def)
  have start: "wf_dequeue rat_doubles dflt sz q = wf_dequeue_loop rat_doubles dflt sz 0 q"
    using num by (simp add: wf_dequeue_def)
  show "wf_dequeue rat_doubles dflt sz q = Inr (dflt, q\<lparr> fq_flows := map (\<lambda>f. ?v (?v f)) ?fs \<rparr>)"
    if poor: "\<And>f. f \<in> set ?fs \<Longrightarrow> wf_credit f + 2 * (of_int sz * wf_gain (fl_weight f) W) < of_int sz"
  proof -
    have p: "wf_credit f + of_int sz * wf_gain (fl_weight f) W < of_int sz" if "f \<in> set ?fs" for f
      using poor[OF that] gain[OF that] by linarith
    have "wf_dequeue_loop rat_doubles dflt sz 0 q = wf_dequeue_loop rat_doubles dflt sz (length ?fs) (q\<lparr> fq_flows := ?gs \<rparr>)"
      using wf_loop_pass[of q ?fs "[]" I 0 W sz dflt] ok assms(2,4) p by simp
    also have "\<dots> = wf_dequeue_loop rat_doubles dflt sz (length ?fs + length ?gs) (q\<lparr> fq_flows := map ?v ?gs \<rparr>)"
    proof -
      have "wf_credit f + of_int sz * wf_gain (fl_weight f) W < of_int sz" if "f \<in> set ?gs" for f
        using that poor by (fastforce simp: algebra_simps)
      then show ?thesis
        using wf_loop_pass[of "q\<lparr> fq_flows := ?gs \<rparr>" ?gs "[]" I "length ?fs" W sz dflt] gs wgs assms(4) by simp
    qed
    finally show ?thesis
      by (simp add: start wf_dequeue_loop.simps[of _ _ _ "length ?fs + length ?fs"] o_def)
  qed
  have serve: "\<exists>x q' j ys. wf_dequeue_loop rat_doubles dflt sz i r = Inr (x, q') \<and>
        flow_contents (fq_flows r) j = x # ys \<and>
        flow_contents (fq_flows q') = (flow_contents (fq_flows r))(j := ys)"
    if r: "flows_ok I (fq_flows r)" "waiting_flows (fq_flows r)" "W = wf_total (fq_flows r)"
      "i + length (fq_flows r) \<le> length (fq_flows r) * 2"
      and rich: "\<exists>f \<in> set (fq_flows r). of_int sz \<le> wf_credit f + of_int sz * wf_gain (fl_weight f) W" for i r
  proof -
    obtain xs f ys where f: "fq_flows r = xs @ f # ys"
      "of_int sz \<le> wf_credit f + of_int sz * wf_gain (fl_weight f) W"
      "\<forall>g \<in> set xs. \<not> of_int sz \<le> wf_credit g + of_int sz * wf_gain (fl_weight g) W"
      using split_list_first_prop[OF rich] by blast
    let ?r = "r\<lparr> fq_flows := (f # ys) @ map ?v xs \<rparr>"
    have "wf_dequeue_loop rat_doubles dflt sz i r = wf_dequeue_loop rat_doubles dflt sz (i + length xs) ?r"
      using r f by (intro wf_loop_pass[of r xs "f # ys" I]) auto
    moreover have okr: "flows_ok I (f # ys @ map ?v xs)"
      using r(1) unfolding f(1) by (auto simp: flows_ok_append flows_ok_Cons) (auto simp: flows_ok_def flow_ok_def distinct_ids_def o_def)
    moreover have "\<exists>g. fl_id g = fl_id f \<and> fl_queue g = tl (fl_queue f) \<and>
        wf_dequeue_loop rat_doubles dflt sz (i + length xs) ?r =
        Inr (hd (fl_queue f), ?r\<lparr> fq_flows := g # (ys @ map ?v xs), fq_num := fq_num ?r - 1 \<rparr>)"
      using r f okr by (intro wf_loop_step(2)[of ?r f "ys @ map ?v xs" I]) (auto simp: waiting_flows_def)
    moreover have "flow_contents (fq_flows r) = flow_contents (f # ys @ map ?v xs)"
    proof
      fix j
      have "flow_contents (map ?v xs) j = flow_contents xs j" by (simp add: flow_contents_visit)
      moreover have "distinct_ids (xs @ f # ys)" using r(1) f(1) by (simp add: flows_ok_def)
      ultimately show "flow_contents (fq_flows r) j = flow_contents (f # ys @ map ?v xs) j"
        by (auto simp: f(1) flow_contents_append distinct_ids_append)
    qed
    moreover have "fl_queue f \<noteq> []" using r(2) f(1) by simp
    ultimately show ?thesis
      by (auto simp: fun_eq_iff intro!: exI[of _ "fl_id f"])
  qed
  show "\<exists>x q' i xs. wf_dequeue rat_doubles dflt sz q = Inr (x, q') \<and>
        flow_contents ?fs i = x # xs \<and> flow_contents (fq_flows q') = (flow_contents ?fs)(i := xs)"
    if f: "f \<in> set ?fs" "of_int sz \<le> wf_credit f + 2 * (of_int sz * wf_gain (fl_weight f) W)"
  proof (cases "\<exists>f \<in> set ?fs. of_int sz \<le> wf_credit f + of_int sz * wf_gain (fl_weight f) W")
    case True
    then show ?thesis using serve[of q 0] ok assms(2,4) start by simp
  next
    case False
    then have "wf_dequeue_loop rat_doubles dflt sz 0 q = wf_dequeue_loop rat_doubles dflt sz (length ?fs) (q\<lparr> fq_flows := ?gs \<rparr>)"
      using wf_loop_pass[of q ?fs "[]" I 0 W sz dflt] ok assms(2,4) by (auto simp: not_le)
    moreover have "flow_contents ?gs = flow_contents ?fs"
      by (rule flow_contents_visit)
    ultimately show ?thesis
      using serve[of "q\<lparr> fq_flows := ?gs \<rparr>" "length ?fs"] gs wgs assms(4) f start by (auto simp: algebra_simps)
  qed
qed

section \<open>Calls that find nothing\<close>

lemma wf_idle_calls:
  assumes "wf_ok rat_doubles sz I q" "waiting_flows (fq_flows q)" "fq_flows q \<noteq> []" "0 \<le> sz"
    and "W = wf_total (fq_flows q)"
    and "\<forall>f \<in> set (fq_flows q). wf_credit f + 2 * of_nat n * (of_int sz * wf_gain (fl_weight f) W) < of_int sz"
    and "\<exists>f \<in> set (fq_flows q). of_int sz \<le> wf_credit f + 2 * of_nat (Suc n) * (of_int sz * wf_gain (fl_weight f) W)"
  shows "\<exists>x q' i xs. queue_run (wf_class rat_doubles dflt sz) (replicate (Suc n) Get) q = Inr (replicate n dflt @ [x], q') \<and>
    flow_contents (fq_flows q) i = x # xs \<and>
    flow_contents (fq_flows q') = (flow_contents (fq_flows q))(i := xs)"
  using assms
proof (induction n arbitrary: q)
  case 0
  then obtain f where "f \<in> set (fq_flows q)" "of_int sz \<le> wf_credit f + 2 * (of_int sz * wf_gain (fl_weight f) W)"
    by auto
  from wf_dequeue_waiting(2)[OF "0.prems"(1-3,5,4) this, of dflt] obtain x q' i xs where
    "wf_dequeue rat_doubles dflt sz q = Inr (x, q')" "flow_contents (fq_flows q) i = x # xs"
    "flow_contents (fq_flows q') = (flow_contents (fq_flows q))(i := xs)" by blast
  then show ?case by (intro exI[of _ x] exI[of _ q'] exI[of _ i] exI[of _ xs]) (simp add: wf_class_def)
next
  case (Suc n)
  let ?v = "wf_visit sz W"
  let ?q = "q\<lparr> fq_flows := map (\<lambda>f. ?v (?v f)) (fq_flows q) \<rparr>"
  have ok: "flows_ok I (fq_flows q)" using Suc.prems(1) by (simp add: wf_ok_rat)
  have "wf_credit f + 2 * (of_int sz * wf_gain (fl_weight f) W) < of_int sz" if f: "f \<in> set (fq_flows q)" for f
  proof -
    have "0 \<le> fl_weight f" using ok f by (fastforce simp: flows_ok_def flow_ok_def infos_ok_def)
    then have "0 \<le> of_int sz * wf_gain (fl_weight f) W"
      using weights_fit(2)[OF ok] Suc.prems(4,5) by (simp add: wf_gain_def wf_total_def)
    then have "2 * (of_int sz * wf_gain (fl_weight f) W) \<le> 2 * of_nat (Suc n) * (of_int sz * wf_gain (fl_weight f) W)"
      by (intro mult_right_mono) auto
    then show ?thesis using bspec[OF Suc.prems(6) f] by linarith
  qed
  from wf_dequeue_waiting(1)[OF Suc.prems(1-3,5,4) this, of dflt]
  have "wf_dequeue rat_doubles dflt sz q = Inr (dflt, ?q)" .
  moreover have "flow_contents (fq_flows ?q) = flow_contents (fq_flows q)"
  proof
    fix i
    show "flow_contents (fq_flows ?q) i = flow_contents (fq_flows q) i"
      using flow_contents_visit[of sz W "map ?v (fq_flows q)"] flow_contents_visit[of sz W "fq_flows q"]
      by (simp add: o_def)
  qed
  moreover obtain x q' i xs where "queue_run (wf_class rat_doubles dflt sz) (replicate (Suc n) Get) ?q = Inr (replicate n dflt @ [x], q')"
    "flow_contents (fq_flows ?q) i = x # xs"
    "flow_contents (fq_flows q') = (flow_contents (fq_flows ?q))(i := xs)"
  proof (atomize_elim, rule Suc.IH)
    show "wf_ok rat_doubles sz I ?q"
      using Suc.prems(1) by (auto simp: wf_ok_rat flows_ok_def flow_ok_def distinct_ids_def count_objects_def o_def)
    show "waiting_flows (fq_flows ?q)" using Suc.prems(2) by (auto simp: waiting_flows_def)
    show "W = wf_total (fq_flows ?q)" using Suc.prems(5) by (simp add: wf_total_def o_def)
  qed (use Suc.prems in \<open>auto simp: algebra_simps\<close>)
  ultimately show ?case
    by (intro exI[of _ x] exI[of _ q'] exI[of _ i] exI[of _ xs]) (simp add: wf_class_def)
qed

text \<open>A queue into which objects were put and nothing else was done.\<close>

definition wf_filled :: "flow_info set \<Rightarrow> ('a, rat) wf_queue \<Rightarrow> bool" where
  "wf_filled I q \<longleftrightarrow> flows_ok I (fq_flows q) \<and> fq_num q = count_objects (fq_flows q) \<and>
     waiting_flows (fq_flows q) \<and> (\<forall>f \<in> set (fq_flows q). wf_credit f = 0)"

definition all_puts :: "('a \<times> flow_info) list \<Rightarrow> 'a queue_op list" where
  "all_puts puts = map (\<lambda>(x, info). Put x info) puts"

lemma wf_filled_put:
  assumes "wf_filled I q" "info \<in> I" "\<not> fq_is_full (fi_id info) q"
  shows "\<exists>q'. wf_enqueue rat_doubles x info q = (True, q') \<and> wf_filled I q' \<and> fq_flows q' \<noteq> [] \<and>
    flow_contents (fq_flows q') =
      (flow_contents (fq_flows q))(fi_id info := flow_contents (fq_flows q) (fi_id info) @ [x])"
proof -
  let ?new = "wf_create_flow rat_doubles info"
  obtain k f q' where q': "fq_enqueue (wf_create_flow rat_doubles) x info q = (True, q')" "flows_ok I (fq_flows q')"
    "fq_num q' = count_objects (fq_flows q')"
    "flow_contents (fq_flows q') =
      (flow_contents (fq_flows q))(fi_id info := flow_contents (fq_flows q) (fi_id info) @ [x])"
    "k < length (fq_flows q) \<and> f = fq_flows q ! k \<and> fq_flows q' = (fq_flows q)[k := f\<lparr> fl_queue := fl_queue f @ [x] \<rparr>] \<or>
     f = ?new \<and> fq_flows q' = fq_flows q @ [f\<lparr> fl_queue := [x] \<rparr>]"
    using fq_enqueue_ok[of I q info "wf_create_flow rat_doubles" x] assms
    unfolding wf_filled_def by (auto simp: wf_create_flow_def)
  have "wf_credit (?new\<lparr> fl_queue := [x] \<rparr>) = 0" "\<not> fl_active (?new\<lparr> fl_queue := [x] \<rparr>)"
    by (simp_all add: wf_credit_def wf_create_flow_def dn_new_def)
  moreover have "wf_credit (g\<lparr> fl_queue := ys \<rparr>) = wf_credit g" for g :: "('a, rat) wf_flow" and ys
    by (simp add: wf_credit_def)
  ultimately have "\<not> fl_active g \<and> fl_queue g \<noteq> [] \<and> wf_credit g = 0" if "g \<in> set (fq_flows q')" for g
    using q'(5) that assms(1)
    by (auto simp: wf_filled_def waiting_flows_def dest!: set_update_subset_insert[THEN subsetD])
  then have "wf_filled I q'" using q' by (simp add: wf_filled_def waiting_flows_def)
  then show ?thesis using q' by (auto simp: wf_enqueue_def)
qed

lemma wf_filled_run:
  assumes "wf_filled I q" "snd ` set puts \<subseteq> I"
    and "\<And>i. int (length (flow_contents (fq_flows q) i) + length puts) < 9223372036854775807"
  shows "\<exists>q'. queue_run (wf_class rat_doubles dflt sz) (all_puts puts) q = Inr ([], q') \<and> wf_filled I q' \<and>
    (puts \<noteq> [] \<longrightarrow> fq_flows q' \<noteq> [])"
  using assms
proof (induction puts arbitrary: q)
  case (Cons p puts)
  obtain x info where p: "p = (x, info)" by force
  have full: "\<not> fq_is_full (fi_id info) q"
    using fq_is_full_iff[of I q "fi_id info"] Cons.prems(1) Cons.prems(3)[of "fi_id info"] by (simp add: wf_filled_def)
  obtain q1 where q1: "wf_enqueue rat_doubles x info q = (True, q1)" "wf_filled I q1" "fq_flows q1 \<noteq> []"
    "flow_contents (fq_flows q1) =
      (flow_contents (fq_flows q))(fi_id info := flow_contents (fq_flows q) (fi_id info) @ [x])"
    using wf_filled_put[OF Cons.prems(1) _ full] Cons.prems(2) p by fastforce
  have "int (length (flow_contents (fq_flows q1) i) + length puts) < 9223372036854775807" for i
    using Cons.prems(3)[of i] by (auto simp: q1(4))
  from Cons.IH[OF q1(2) _ this] Cons.prems(2) q1(1,3) p show ?case
    by (cases puts) (auto simp: all_puts_def wf_class_def)
qed (simp add: all_puts_def)

lemma wf_filled_new: "infos_ok I \<Longrightarrow> wf_filled I (fq_new capacity)"
  by (simp add: wf_filled_def fq_new_def flows_ok_def)

lemma wf_gain_pos: "0 < w \<Longrightarrow> w \<le> W \<Longrightarrow> 0 < wf_gain w W"
  by (simp add: wf_gain_def add_pos_nonneg)

lemma gain_reaches_one:
  assumes "f \<in> set fs" "0 < wf_gain (fl_weight f) W"
  shows "\<exists>n. (\<forall>f \<in> set fs. 2 * of_nat n * wf_gain (fl_weight f) W < 1) \<and>
    (\<exists>f \<in> set fs. 1 \<le> 2 * of_nat (Suc n) * wf_gain (fl_weight f) W)"
proof -
  let ?P = "\<lambda>n. \<exists>f \<in> set fs. 1 \<le> 2 * of_nat (Suc n) * wf_gain (fl_weight f) W"
  obtain m :: nat where "1 < of_nat m * (2 * wf_gain (fl_weight f) W)"
    using ex_less_of_nat_mult[of "2 * wf_gain (fl_weight f) W" 1] assms(2) by auto
  then have "1 \<le> 2 * of_nat (Suc m) * wf_gain (fl_weight f) W"
    using assms(2) by (simp add: algebra_simps)
  then have ex: "?P m" using assms(1) by blast
  define n where "n = (LEAST n. ?P n)"
  have "?P n" unfolding n_def by (rule LeastI[of ?P, OF ex])
  moreover have "2 * of_nat n * wf_gain (fl_weight f) W < 1" if "f \<in> set fs" for f
  proof (cases n)
    case (Suc k)
    then have "\<not> ?P k" using not_less_Least[of k ?P] by (simp add: n_def)
    then show ?thesis using that Suc by (auto simp: not_le)
  qed simp
  ultimately show ?thesis by blast
qed

text \<open>C18: \<open>WFQueue\<close>, whatever the rounding of \<open>double\<close>: for every sequence of calls of \<open>Enqueue\<close> and
  \<open>Dequeue\<close> on a new queue, no assertion fails, and the calls of \<open>Dequeue\<close> can be assigned to flows (or to none,
  when they return \<open>T()\<close>) such that each flow gives its objects back in the order they were put in,
  losing none. The number of objects is exact.
\<close>

theorem fair_queue_in_order:
  assumes "\<forall>d. db_le D (db_of_int D sz) d \<longrightarrow> db_le D (db_of_int D 0) (db_sub D d (db_of_int D sz))"
    and "infos_ok I" "uses_infos I ops" "int (length ops) < 9223372036854775807"
  shows "\<exists>outs q. queue_run (wf_class D dflt sz) ops (fq_new capacity) = Inr (map snd outs, q) \<and>
    length outs = length (filter (\<lambda>op. op = Get) ops) \<and>
    (\<forall>(f, x) \<in> set outs. f = None \<longrightarrow> x = dflt) \<and>
    (\<forall>i. put_into i ops = taken_from i outs @ flow_contents (fq_flows q) i) \<and>
    fq_num q = count_objects (fq_flows q)"
proof -
  have "wf_ok D sz I (fq_new capacity)"
    using assms(1,2) by (simp add: wf_ok_def fq_new_def flows_ok_def)
  moreover have "int (length (put_into i ops)) < 9223372036854775807" for i
    using put_into_length[of i ops] assms(4) by linarith
  ultimately obtain outs q where "queue_run (wf_class D dflt sz) ops (fq_new capacity) = Inr (map snd outs, q)"
    "wf_ok D sz I q" "length outs = length (filter (\<lambda>op. op = Get) ops)"
    "\<forall>(f, x) \<in> set outs. f = None \<longrightarrow> x = dflt"
    "\<forall>i. put_into i ops = taken_from i outs @ flow_contents (fq_flows q) i"
    using wfq.run_in_order[of D sz I "fq_new capacity" ops dflt] assms(3) by (auto simp: fq_new_def)
  then show ?thesis by (intro exI[of _ outs] exI[of _ q]) (simp add: fq_new_def wf_ok_def)
qed

theorem fair_queue_in_order_witness:
  "\<exists>outs q. queue_run (wf_class rat_doubles (0 :: nat) 8)
      [Put 1 \<lparr> fi_id = 5, fi_weight = 2 \<rparr>, Put 2 \<lparr> fi_id = 6, fi_weight = 1 \<rparr>, Get, Get] (fq_new 9) =
      Inr (map snd outs, q) \<and> length outs = 2 \<and>
    (\<forall>i. put_into i [Put 1 \<lparr> fi_id = 5, fi_weight = 2 \<rparr>, Put 2 \<lparr> fi_id = 6, fi_weight = 1 \<rparr>, Get, Get] =
      taken_from i outs @ flow_contents (fq_flows q) i)"
proof -
  let ?ops = "[Put (1 :: nat) \<lparr> fi_id = 5, fi_weight = 2 \<rparr>, Put 2 \<lparr> fi_id = 6, fi_weight = 1 \<rparr>, Get, Get]"
  let ?I = "{\<lparr> fi_id = 5, fi_weight = 2 \<rparr>, \<lparr> fi_id = 6, fi_weight = 1 \<rparr>}"
  have "\<forall>d. db_le rat_doubles (db_of_int rat_doubles 8) d \<longrightarrow>
      db_le rat_doubles (db_of_int rat_doubles 0) (db_sub rat_doubles d (db_of_int rat_doubles 8))" by simp
  moreover have "infos_ok ?I" "uses_infos ?I ?ops" by (simp_all add: infos_ok_def)
  ultimately obtain outs q where "queue_run (wf_class rat_doubles 0 8) ?ops (fq_new 9) = Inr (map snd outs, q)"
    "length outs = length (filter (\<lambda>op. op = Get) ?ops)"
    "\<forall>i. put_into i ?ops = taken_from i outs @ flow_contents (fq_flows q) i"
    using fair_queue_in_order[of rat_doubles 8 ?I ?ops 0 9] by auto
  then show ?thesis
    by (intro exI[of _ outs] exI[of _ q]) (simp del: queue_run.simps put_into.simps)
qed

text \<open>C19: In exact arithmetic, a \<open>WFQueue\<close> into which objects were put returns \<open>T()\<close> from its first \<open>n\<close> calls
  of \<open>Dequeue\<close> and an object from the next one, where \<open>n\<close> is the least number such that two rounds for
  each of \<open>n + 1\<close> calls pay for an object of some flow: a flow whose share of the total weight is \<open>s\<close> earns
  \<open>s (1 + s)\<close> objects a round. So objects do leave, but \<open>n\<close> is zero only if some share exceeds a third.
\<close>

theorem fair_queue_idle_calls:
  fixes dflt :: 'a
  assumes "infos_ok I" "snd ` set puts \<subseteq> I" "int (length puts) < 9223372036854775807" "0 < sz"
    and "queue_run (wf_class rat_doubles dflt sz) (all_puts puts) (fq_new capacity) = Inr ([], q)"
    and "\<exists>f \<in> set (fq_flows q). 0 < fl_weight f"
  shows "\<exists>n x q' i xs.
    queue_run (wf_class rat_doubles dflt sz) (replicate (Suc n) Get) q = Inr (replicate n dflt @ [x], q') \<and>
    flow_contents (fq_flows q) i = x # xs \<and>
    flow_contents (fq_flows q') = (flow_contents (fq_flows q))(i := xs) \<and>
    (\<forall>f \<in> set (fq_flows q). 2 * of_nat n * wf_gain (fl_weight f) (wf_total (fq_flows q)) < 1) \<and>
    (\<exists>f \<in> set (fq_flows q). 1 \<le> 2 * of_nat (Suc n) * wf_gain (fl_weight f) (wf_total (fq_flows q)))"
proof -
  let ?W = "wf_total (fq_flows q)"
  have filled: "wf_filled I q"
    using wf_filled_run[OF wf_filled_new[OF assms(1)] assms(2), of capacity dflt sz] assms(3,5) by (auto simp: fq_new_def)
  obtain f where f: "f \<in> set (fq_flows q)" "0 < fl_weight f" using assms(6) by blast
  have "fl_weight f \<le> ?W"
  proof -
    have "0 \<le> fl_weight g" if "g \<in> set (fq_flows q)" for g
      using filled that by (fastforce simp: wf_filled_def flows_ok_def flow_ok_def infos_ok_def)
    then show ?thesis using f(1) by (auto simp: wf_total_def intro!: member_le_sum_list)
  qed
  then obtain n where n: "\<forall>f \<in> set (fq_flows q). 2 * of_nat n * wf_gain (fl_weight f) ?W < 1"
    "\<exists>f \<in> set (fq_flows q). 1 \<le> 2 * of_nat (Suc n) * wf_gain (fl_weight f) ?W"
    using gain_reaches_one[OF f(1), of ?W] wf_gain_pos[OF f(2)] by blast
  have scale: "c * (of_int sz * g) < of_int sz \<longleftrightarrow> c * g < 1" "of_int sz \<le> c * (of_int sz * g) \<longleftrightarrow> 1 \<le> c * g"
    for c g :: rat
    using mult_less_cancel_left_pos[of "of_int sz" "c * g" 1] mult_le_cancel_left_pos[of "of_int sz" 1 "c * g"] assms(4)
    by (simp_all add: mult.left_commute)
  have zero: "wf_credit f = 0" if "f \<in> set (fq_flows q)" for f using filled that by (simp add: wf_filled_def)
  have ok: "wf_ok rat_doubles sz I q" "waiting_flows (fq_flows q)" "fq_flows q \<noteq> []" "0 \<le> sz"
    using filled f(1) assms(4) by (auto simp: wf_filled_def wf_ok_rat)
  have "\<exists>x q' i xs. queue_run (wf_class rat_doubles dflt sz) (replicate (Suc n) Get) q = Inr (replicate n dflt @ [x], q') \<and>
    flow_contents (fq_flows q) i = x # xs \<and> flow_contents (fq_flows q') = (flow_contents (fq_flows q))(i := xs)"
    using n zero scale by (intro wf_idle_calls[OF ok refl]) simp_all
  with n show ?thesis by blast
qed

text \<open>Three flows of the same weight with an object each.\<close>

definition equal_puts :: "(nat \<times> flow_info) list" where
  "equal_puts = [(1, \<lparr> fi_id = 1, fi_weight = 1 \<rparr>), (2, \<lparr> fi_id = 2, fi_weight = 1 \<rparr>), (3, \<lparr> fi_id = 3, fi_weight = 1 \<rparr>)]"

definition equal_flow :: "int \<Rightarrow> nat \<Rightarrow> (nat, rat) wf_flow" where
  "equal_flow i x = (wf_create_flow rat_doubles \<lparr> fi_id = i, fi_weight = 1 \<rparr>)\<lparr> fl_queue := [x] \<rparr>"

definition equal_queue :: "(nat, rat) wf_queue" where
  "equal_queue = \<lparr> fq_flows = [equal_flow 1 1, equal_flow 2 2, equal_flow 3 3], fq_num = 3, fq_capacity = 9 \<rparr>"

lemma equal_puts_run:
  "queue_run (wf_class rat_doubles 0 8) (all_puts equal_puts) (fq_new 9) = Inr ([], equal_queue)"
  by (simp add: all_puts_def equal_puts_def wf_class_def wf_enqueue_def fq_enqueue_def get_or_create_flow_def
      has_room_def wf_create_flow_def fq_new_def equal_queue_def equal_flow_def)

lemma equal_infos_ok: "infos_ok (snd ` set equal_puts)"
  by (simp add: infos_ok_def equal_puts_def)

lemma equal_flow_simps [simp]:
  "fl_id (equal_flow i x) = i" "fl_weight (equal_flow i x) = 1" "fl_queue (equal_flow i x) = [x]"
  by (simp_all add: equal_flow_def wf_create_flow_def)

theorem fair_queue_idle_calls_witness:
  "\<exists>x q' i xs. queue_run (wf_class rat_doubles 0 8) [Get, Get] equal_queue = Inr ([0, x], q') \<and>
    flow_contents (fq_flows equal_queue) i = x # xs"
proof -
  have w: "wf_total (fq_flows equal_queue) = 3" "wf_gain 1 3 = 4 / 9"
    by (simp_all add: equal_queue_def wf_gain_def)
  have flows: "\<forall>f \<in> set (fq_flows equal_queue). fl_weight f = 1" "fq_flows equal_queue \<noteq> []"
    by (simp_all add: equal_queue_def)
  then have ex: "\<exists>f \<in> set (fq_flows equal_queue). 0 < fl_weight f" by (metis list.set_sel(1) zero_less_one)
  have len: "int (length equal_puts) < 9223372036854775807" by (simp add: equal_puts_def)
  obtain n x q' i xs where n: "queue_run (wf_class rat_doubles 0 8) (replicate (Suc n) Get) equal_queue =
      Inr (replicate n 0 @ [x], q')" "flow_contents (fq_flows equal_queue) i = x # xs"
    "\<forall>f \<in> set (fq_flows equal_queue). 2 * of_nat n * wf_gain (fl_weight f) (wf_total (fq_flows equal_queue)) < 1"
    "\<exists>f \<in> set (fq_flows equal_queue). 1 \<le> 2 * of_nat (Suc n) * wf_gain (fl_weight f) (wf_total (fq_flows equal_queue))"
    using fair_queue_idle_calls[OF equal_infos_ok order_refl len zero_less_numeral equal_puts_run ex] by blast
  have "2 * of_nat n * (4 / 9) < (1 :: rat)" "1 \<le> 2 * of_nat (Suc n) * (4 / 9 :: rat)"
    using n(3,4) flows w by (metis list.set_sel(1))+
  then have "of_nat n < (2 :: rat)" "(0 :: rat) < of_nat n" by auto
  then have "n = 1" by (metis One_nat_def gr0_conv_Suc less_2_cases_iff less_nat_zero_code of_nat_0_less_iff of_nat_less_iff of_nat_numeral)
  with n(1,2) show ?thesis
    by (intro exI[of _ x] exI[of _ q'] exI[of _ i] exI[of _ xs]) (simp add: numeral_2_eq_2)
qed

lemma equal_share_bound:
  fixes n :: rat
  assumes "3 \<le> n"
  shows "2 * (1 / n * (1 + 1 / n)) < 1"
proof -
  have "2 * (n + 1) < 3 * n" using assms by (simp add: algebra_simps)
  also have "\<dots> \<le> n * n" using assms by (intro mult_right_mono) auto
  finally have "2 * (n + 1) / (n * n) < 1" using assms by (simp add: divide_less_eq)
  also have "2 * (n + 1) / (n * n) = 2 * (1 / n * (1 + 1 / n))" using assms by (simp add: field_simps)
  finally show ?thesis .
qed

text \<open>In exact arithmetic, a \<open>WFQueue\<close> with at least three flows of equal weight answers the first
  \<open>Dequeue\<close> with \<open>T()\<close>, the answer of an empty queue, although every flow holds objects.
\<close>

theorem equal_flows_find_nothing:
  fixes dflt :: 'a
  assumes "infos_ok I" "snd ` set puts \<subseteq> I" "int (length puts) < 9223372036854775807" "0 < sz"
    and "queue_run (wf_class rat_doubles dflt sz) (all_puts puts) (fq_new capacity) = Inr ([], q)"
    and "\<forall>f \<in> set (fq_flows q). fl_weight f = w" "0 < w" "3 \<le> length (fq_flows q)"
  shows "\<exists>q'. wf_dequeue rat_doubles dflt sz q = Inr (dflt, q') \<and> fq_num q' = fq_num q \<and> 3 \<le> fq_num q \<and>
    flow_contents (fq_flows q') = flow_contents (fq_flows q)"
proof -
  let ?fs = "fq_flows q" and ?W = "wf_total (fq_flows q)"
  have filled: "wf_filled I q"
    using wf_filled_run[OF wf_filled_new[OF assms(1)] assms(2), of capacity dflt sz] assms(3,5) by (auto simp: fq_new_def)
  let ?n = "of_nat (length ?fs) :: rat"
  have "(\<Sum>f\<leftarrow>fs. fl_weight f) = int (length fs) * w" if "\<forall>f \<in> set fs. fl_weight f = w"
    for fs :: "('a, rat) wf_flows" using that by (induction fs) (auto simp: algebra_simps)
  then have share: "of_int w / of_int ?W = 1 / ?n" using assms(6-8) by (simp add: wf_total_def)
  have three: "3 \<le> ?n" using assms(8) by simp
  have poor: "2 * wf_gain (fl_weight f) ?W < 1" if "f \<in> set ?fs" for f
  proof -
    have "fl_weight f = w" using that assms(6) by simp
    then show ?thesis using equal_share_bound[OF three] by (simp only: wf_gain_def share)
  qed
  have "wf_dequeue rat_doubles dflt sz q =
      Inr (dflt, q\<lparr> fq_flows := map (\<lambda>f. wf_visit sz ?W (wf_visit sz ?W f)) ?fs \<rparr>)"
  proof (rule wf_dequeue_waiting(1)[OF _ _ _ refl])
    fix f assume f: "f \<in> set ?fs"
    have "of_int sz * (2 * wf_gain (fl_weight f) ?W) < of_int sz * 1"
      using poor[OF f] assms(4) by (intro mult_strict_left_mono) auto
    then show "wf_credit f + 2 * (of_int sz * wf_gain (fl_weight f) ?W) < of_int sz"
      using filled f by (simp add: wf_filled_def algebra_simps)
  qed (use filled assms(4,8) in \<open>auto simp: wf_filled_def wf_ok_rat\<close>)
  moreover have "flow_contents (map (\<lambda>f. wf_visit sz ?W (wf_visit sz ?W f)) ?fs) = flow_contents ?fs"
    using flow_contents_visit[of sz ?W "map (wf_visit sz ?W) ?fs"] flow_contents_visit[of sz ?W ?fs]
    by (simp add: o_def)
  moreover have "int (length fs) \<le> count_objects fs" if "waiting_flows fs" for fs :: "('a, rat) wf_flows"
    using that by (induction fs) (auto simp: neq_Nil_conv)
  then have "3 \<le> fq_num q" using filled assms(8) by (force simp: wf_filled_def)
  ultimately show ?thesis by simp
qed

theorem equal_flows_find_nothing_witness:
  "\<exists>q'. wf_dequeue rat_doubles 0 8 equal_queue = Inr (0, q') \<and> fq_num q' = 3"
  using equal_flows_find_nothing[OF equal_infos_ok order_refl _ _ equal_puts_run, of 1]
  by (auto simp: equal_puts_def equal_queue_def)

end
