(* ===== verification/Random_Fair_Queue.thy ===== *)
theory Random_Fair_Queue
  imports Flow_Queues
begin

text \<open>
  \<open>RWFQueue\<close> of \<open>BaseLib/Collection/WeightedFairQueue.h\<close>: every call of \<open>Dequeue\<close> draws the flow to
  serve, with probabilities that are proportional to the weights. The value \<open>rand()\<close> returns is a
  parameter; for the interface, the state is the queue with the values the next calls of \<open>rand()\<close> return.
\<close>

record ('a, 'd) rw_flow = "'a flow" +
  fl_probability :: 'd

type_synonym ('a, 'd) rw_flows = "('a, \<lparr> fl_probability :: 'd \<rparr>) flow_scheme list"
type_synonym ('a, 'd) rw_queue = "('a, \<lparr> fl_probability :: 'd \<rparr>) flow_state"

definition rw_create_flow :: "'d doubles \<Rightarrow> flow_info \<Rightarrow> ('a, 'd) rw_flow" where
  "rw_create_flow D info =
     \<lparr> fl_id = fi_id info, fl_weight = fi_weight info, fl_active = False, fl_queue = [],
       fl_capacity = 9223372036854775807, fl_probability = db_of_int D 0 \<rparr>"

definition rw_enqueue ::
  "'d doubles \<Rightarrow> 'a \<Rightarrow> flow_info \<Rightarrow> ('a, 'd) rw_queue \<Rightarrow> bool \<times> ('a, 'd) rw_queue" where
  "rw_enqueue D = fq_enqueue (rw_create_flow D)"

definition rand_max :: int where
  "rand_max = 2147483647"

definition generate_random :: "'d doubles \<Rightarrow> int \<Rightarrow> 'd" where
  "generate_random D r = db_div D (db_of_int D r) (db_of_int D rand_max)"

text \<open>The weight of an object of a flow: \<open>(double) Weight() / (double) sizeof(...)\<close>.\<close>

definition object_weight :: "'d doubles \<Rightarrow> int \<Rightarrow> ('a, 'd) rw_flow \<Rightarrow> 'd" where
  "object_weight D sz f = db_div D (db_of_int D (fl_weight f)) (db_of_int D sz)"

definition calculate_probabilities ::
  "'d doubles \<Rightarrow> int \<Rightarrow> ('a, 'd) rw_queue \<Rightarrow> (bool \<times> ('a, 'd) rw_queue) res" where
  "calculate_probabilities D sz q = (case fq_flows q of
       [] \<Rightarrow> Inr (False, q)
     | f # fs \<Rightarrow>
         if fq_num q = 0 then Inr (False, q)
         else rbind (rfold (\<lambda>g d. asserting (fl_queue g \<noteq> []) (Inr (db_add D d (object_weight D sz g))))
                      (f # fs) (db_of_int D 0)) (\<lambda>denominator.
           let p = db_mul D (object_weight D sz f) (db_div D (db_of_int D 1) denominator);
               first_denom = db_div D (db_mul D p (db_of_int D sz)) (db_of_int D (fl_weight f))
           in Inr (True, q\<lparr> fq_flows := f\<lparr> fl_probability := p \<rparr> #
                map (\<lambda>g. g\<lparr> fl_probability := db_mul D first_denom (object_weight D sz g) \<rparr>) fs \<rparr>)))"

text \<open>The loop that picks the flow; the last one is kept when no sum exceeds the random value.\<close>

fun choose_flow :: "'d doubles \<Rightarrow> 'd \<Rightarrow> 'd \<Rightarrow> nat \<Rightarrow> ('a, 'd) rw_flows \<Rightarrow> nat res" where
  "choose_flow D random acc k [] = Inl AssertFailed"
| "choose_flow D random acc k (f # fs) =
     asserting (fl_queue f \<noteq> [])
       (let acc' = db_add D acc (fl_probability f)
        in if db_less D random acc' \<or> fs = [] then Inr k
           else choose_flow D random acc' (Suc k) fs)"

definition dequeue_flow :: "nat \<Rightarrow> ('a, 'd) rw_queue \<Rightarrow> ('a \<times> ('a, 'd) rw_queue) res" where
  "dequeue_flow k q = (case fl_queue (fq_flows q ! k) of
       [] \<Rightarrow> Inl AssertFailed
     | x # xs \<Rightarrow>
         Inr (x, q\<lparr> fq_flows := (if xs = [] then delete_flow k (fq_flows q)
                                 else (fq_flows q)[k := (fq_flows q ! k)\<lparr> fl_queue := xs \<rparr>]),
                    fq_num := fq_num q - 1 \<rparr>))"

definition rw_dequeue ::
  "'d doubles \<Rightarrow> 'a \<Rightarrow> int \<Rightarrow> int \<Rightarrow> ('a, 'd) rw_queue \<Rightarrow> ('a \<times> ('a, 'd) rw_queue) res" where
  "rw_dequeue D dflt sz r q =
     rbind (calculate_probabilities D sz q) (\<lambda>(is_calculated, q1).
       if \<not> is_calculated then Inr (dflt, q1)
       else let random = generate_random D r
            in asserting (db_le D (db_of_int D 0) random \<and> db_less D random (db_of_int D 1))
                 (rbind (choose_flow D random (db_of_int D 0) 0 (fq_flows q1)) (\<lambda>k. dequeue_flow k q1)))"

text \<open>\<open>rand()\<close> is called unless there are no flows or no objects.\<close>

definition rw_draws :: "('a, 'd) rw_queue \<Rightarrow> bool" where
  "rw_draws q \<longleftrightarrow> fq_flows q \<noteq> [] \<and> fq_num q \<noteq> 0"

definition rw_class ::
  "'d doubles \<Rightarrow> 'a \<Rightarrow> int \<Rightarrow> ('a, ('a, 'd) rw_queue \<times> (nat \<Rightarrow> int)) queue_class" where
  "rw_class D dflt sz =
     \<lparr> qc_enqueue = (\<lambda>x info (q, rs). let (b, q') = rw_enqueue D x info q in (b, (q', rs))),
       qc_dequeue = (\<lambda>(q, rs). rbind (rw_dequeue D dflt sz (rs 0) q) (\<lambda>(x, q').
         Inr (x, (q', if rw_draws q then (\<lambda>n. rs (Suc n)) else rs)))),
       qc_is_empty = (\<lambda>c. fq_is_empty (fst c)), qc_is_empty_flow = (\<lambda>i c. fq_is_empty_flow i (fst c)),
       qc_length = (\<lambda>c. fq_num (fst c)), qc_length_flow = (\<lambda>i c. fq_length_flow i (fst c)),
       qc_is_full = (\<lambda>i c. fq_is_full i (fst c)), qc_clear = (\<lambda>(q, rs). (fq_clear q, rs)),
       qc_clear_flow = (\<lambda>i (q, rs). (fq_clear_flow i q, rs)) \<rparr>"

section \<open>What every call keeps\<close>

definition rw_ok :: "'d doubles \<Rightarrow> flow_info set \<Rightarrow> ('a, 'd) rw_queue \<times> (nat \<Rightarrow> int) \<Rightarrow> bool" where
  "rw_ok D I c \<longleftrightarrow> flows_ok I (fq_flows (fst c)) \<and> fq_num (fst c) = count_objects (fq_flows (fst c)) \<and>
     (\<forall>f \<in> set (fq_flows (fst c)). fl_queue f \<noteq> []) \<and>
     (\<forall>n. db_le D (db_of_int D 0) (generate_random D (snd c n)) \<and>
          db_less D (generate_random D (snd c n)) (db_of_int D 1))"

lemma calculate_probabilities_ok:
  assumes "\<forall>f \<in> set (fq_flows q). fl_queue f \<noteq> []" "flows_ok I (fq_flows q)" "rw_draws q"
  shows "\<exists>q1. calculate_probabilities D sz q = Inr (True, q1) \<and> flows_ok I (fq_flows q1) \<and> fq_flows q1 \<noteq> [] \<and>
    map fl_queue (fq_flows q1) = map fl_queue (fq_flows q) \<and> map fl_id (fq_flows q1) = map fl_id (fq_flows q) \<and>
    flow_contents (fq_flows q1) = flow_contents (fq_flows q) \<and>
    count_objects (fq_flows q1) = count_objects (fq_flows q) \<and> fq_num q1 = fq_num q"
proof -
  obtain f fs where fs: "fq_flows q = f # fs" "fq_num q \<noteq> 0"
    using assms(3) by (auto simp: rw_draws_def neq_Nil_conv)
  have folds: "\<exists>d'. rfold (\<lambda>g d. asserting (fl_queue g \<noteq> []) (Inr (db_add D d (object_weight D sz g)))) gs d = Inr d'"
    if "\<forall>f \<in> set gs. fl_queue f \<noteq> []" for gs :: "('a, 'b) rw_flows" and d
    using that by (induction gs arbitrary: d) auto
  obtain d where d: "rfold (\<lambda>g d. asserting (fl_queue g \<noteq> []) (Inr (db_add D d (object_weight D sz g)))) (f # fs) (db_of_int D 0) = Inr d"
    using folds[of "f # fs"] assms(1) fs(1) by auto
  have same: "flow_contents (map (\<lambda>g. g\<lparr> fl_probability := p g \<rparr>) gs) = flow_contents gs" for p and gs :: "('a, 'b) rw_flows"
    by (rule ext, induct gs) auto
  have ok: "flows_ok I (map (\<lambda>g. g\<lparr> fl_probability := p g \<rparr>) gs)" if "flows_ok I gs" for p and gs :: "('a, 'b) rw_flows"
    using that by (auto simp: flows_ok_def flow_ok_def distinct_ids_def o_def)
  show ?thesis
    using d fs assms(2) same[of _ fs] ok[of fs]
    by (auto simp: calculate_probabilities_def Let_def o_def count_objects_def fun_eq_iff flows_ok_Cons flow_ok_def
        simp del: rfold.simps)
qed

lemma choose_flow_in_range:
  "fs \<noteq> [] \<Longrightarrow> \<forall>f \<in> set fs. fl_queue f \<noteq> [] \<Longrightarrow>
     \<exists>j < length fs. choose_flow D random acc k fs = Inr (k + j)"
proof (induction fs arbitrary: acc k)
  case (Cons f fs)
  show ?case
  proof (cases "db_less D random (db_add D acc (fl_probability f)) \<or> fs = []")
    case True
    then show ?thesis using Cons.prems by (auto simp: Let_def)
  next
    case False
    then obtain j where "j < length fs"
      "choose_flow D random (db_add D acc (fl_probability f)) (Suc k) fs = Inr (Suc k + j)"
      using Cons.IH[of "db_add D acc (fl_probability f)" "Suc k"] Cons.prems by auto
    then show ?thesis using Cons.prems False by (intro exI[of _ "Suc j"]) (auto simp: Let_def)
  qed
qed simp

lemma delete_flow_split: "delete_flow (length xs) (xs @ f # ys) = xs @ ys"
  by (simp add: delete_flow_def)

lemma dequeue_flow_ok:
  assumes "k < length (fq_flows q)" "flows_ok I (fq_flows q)" "\<forall>f \<in> set (fq_flows q). fl_queue f \<noteq> []"
    and "fq_num q = count_objects (fq_flows q)"
  shows "\<exists>q'. dequeue_flow k q = Inr (hd (fl_queue (fq_flows q ! k)), q') \<and> flows_ok I (fq_flows q') \<and>
    (\<forall>f \<in> set (fq_flows q'). fl_queue f \<noteq> []) \<and> fq_num q' = count_objects (fq_flows q') \<and>
    fl_queue (fq_flows q ! k) \<noteq> [] \<and>
    flow_contents (fq_flows q) (fl_id (fq_flows q ! k)) = fl_queue (fq_flows q ! k) \<and>
    flow_contents (fq_flows q') =
      (flow_contents (fq_flows q))(fl_id (fq_flows q ! k) := tl (fl_queue (fq_flows q ! k)))"
proof -
  obtain xs f ys where q: "fq_flows q = xs @ f # ys" "length xs = k"
    using assms(1) id_take_nth_drop[of k "fq_flows q"] by (metis length_take min.absorb4)
  then have f: "fq_flows q ! k = f" by (simp add: nth_append)
  obtain x rest where x: "fl_queue f = x # rest" using assms(3) q(1) by (cases "fl_queue f") auto
  have ids: "fl_id f \<notin> fl_id ` set xs" "fl_id f \<notin> fl_id ` set ys" "fl_id ` set xs \<inter> fl_id ` set ys = {}"
    using assms(2) by (auto simp: q(1) flows_ok_append flows_ok_Cons)
  show ?thesis
  proof (cases "rest = []")
    case True
    with x q f ids assms show ?thesis
      by (auto simp: dequeue_flow_def delete_flow_split[of xs, unfolded q(2)] flows_ok_append flows_ok_Cons
          flow_contents_append fun_eq_iff)
  next
    case False
    with x q f ids assms show ?thesis
      by (auto simp: dequeue_flow_def flows_ok_append flows_ok_Cons flow_ok_def
          flow_contents_append fun_eq_iff list_update_append)
  qed
qed

lemma rw_dequeue_ok:
  assumes "rw_ok D I (q, rs)" "rw_draws q"
  shows "\<exists>k q1 q'. calculate_probabilities D sz q = Inr (True, q1) \<and>
    choose_flow D (generate_random D (rs 0)) (db_of_int D 0) 0 (fq_flows q1) = Inr k \<and> k < length (fq_flows q) \<and>
    rw_dequeue D dflt sz (rs 0) q = Inr (hd (fl_queue (fq_flows q ! k)), q') \<and> rw_ok D I (q', \<lambda>n. rs (Suc n)) \<and>
    fl_queue (fq_flows q ! k) \<noteq> [] \<and>
    flow_contents (fq_flows q) (fl_id (fq_flows q ! k)) = fl_queue (fq_flows q ! k) \<and>
    flow_contents (fq_flows q') =
      (flow_contents (fq_flows q))(fl_id (fq_flows q ! k) := tl (fl_queue (fq_flows q ! k)))"
proof -
  have ok: "flows_ok I (fq_flows q)" "fq_num q = count_objects (fq_flows q)" "\<forall>f \<in> set (fq_flows q). fl_queue f \<noteq> []"
    "\<forall>n. db_le D (db_of_int D 0) (generate_random D (rs n)) \<and> db_less D (generate_random D (rs n)) (db_of_int D 1)"
    using assms(1) by (auto simp: rw_ok_def)
  obtain q1 where q1: "calculate_probabilities D sz q = Inr (True, q1)" "flows_ok I (fq_flows q1)" "fq_flows q1 \<noteq> []"
    "map fl_queue (fq_flows q1) = map fl_queue (fq_flows q)" "map fl_id (fq_flows q1) = map fl_id (fq_flows q)"
    "flow_contents (fq_flows q1) = flow_contents (fq_flows q)"
    "count_objects (fq_flows q1) = count_objects (fq_flows q)" "fq_num q1 = fq_num q"
    using calculate_probabilities_ok[OF ok(3,1) assms(2)] by blast
  have len: "length (fq_flows q1) = length (fq_flows q)" using arg_cong[OF q1(4), of length] by simp
  have queues: "fl_queue (fq_flows q1 ! k) = fl_queue (fq_flows q ! k)" if "k < length (fq_flows q)" for k
    using arg_cong[OF q1(4), of "\<lambda>xs. xs ! k"] that len by simp
  have ids: "fl_id (fq_flows q1 ! k) = fl_id (fq_flows q ! k)" if "k < length (fq_flows q)" for k
    using arg_cong[OF q1(5), of "\<lambda>xs. xs ! k"] that len by simp
  have ne: "\<forall>f \<in> set (fq_flows q1). fl_queue f \<noteq> []"
    using ok(3) queues len by (metis in_set_conv_nth)
  obtain k where k: "k < length (fq_flows q1)" "choose_flow D (generate_random D (rs 0)) (db_of_int D 0) 0 (fq_flows q1) = Inr k"
    using choose_flow_in_range[OF q1(3) ne, of D "generate_random D (rs 0)" "db_of_int D 0" 0] by auto
  obtain q' where q': "dequeue_flow k q1 = Inr (hd (fl_queue (fq_flows q1 ! k)), q')" "flows_ok I (fq_flows q')"
    "\<forall>f \<in> set (fq_flows q'). fl_queue f \<noteq> []" "fq_num q' = count_objects (fq_flows q')"
    "fl_queue (fq_flows q1 ! k) \<noteq> []"
    "flow_contents (fq_flows q1) (fl_id (fq_flows q1 ! k)) = fl_queue (fq_flows q1 ! k)"
    "flow_contents (fq_flows q') = (flow_contents (fq_flows q1))(fl_id (fq_flows q1 ! k) := tl (fl_queue (fq_flows q1 ! k)))"
    using dequeue_flow_ok[OF k(1) q1(2) ne] q1(7,8) ok(2) by auto
  have "rw_dequeue D dflt sz (rs 0) q = Inr (hd (fl_queue (fq_flows q1 ! k)), q')"
    using q1(1) k(2) q'(1) ok(4) by (simp add: rw_dequeue_def Let_def)
  then show ?thesis
    using q1(1,6) k q' ok(4) len queues[of k] ids[of k]
    by (intro exI[of _ k] exI[of _ q1] exI[of _ q']) (simp add: rw_ok_def)
qed

interpretation rwq: flow_queue "rw_class D dflt sz" dflt "rw_ok D" "\<lambda>c. flow_contents (fq_flows (fst c))"
  for D dflt sz
proof (unfold_locales, goal_cases)
  case (1 I c info x)
  obtain q rs where c: "c = (q, rs)" by force
  have ok: "flows_ok I (fq_flows q)" "fq_num q = count_objects (fq_flows q)"
    using 1(1) by (simp_all add: rw_ok_def c)
  have full: "\<not> fq_is_full (fi_id info) q" using 1(3) by (simp add: rw_class_def c)
  obtain k f q' where q': "fq_enqueue (rw_create_flow D) x info q = (True, q')" "flows_ok I (fq_flows q')"
    "fq_num q' = count_objects (fq_flows q')"
    "flow_contents (fq_flows q') =
      (flow_contents (fq_flows q))(fi_id info := flow_contents (fq_flows q) (fi_id info) @ [x])"
    "k < length (fq_flows q) \<and> f = fq_flows q ! k \<and> fq_flows q' = (fq_flows q)[k := f\<lparr> fl_queue := fl_queue f @ [x] \<rparr>] \<or>
     f = rw_create_flow D info \<and> fq_flows q' = fq_flows q @ [f\<lparr> fl_queue := [x] \<rparr>]"
    using fq_enqueue_ok[OF ok(1) 1(2) full, of "rw_create_flow D" x] ok(2) by (auto simp: rw_create_flow_def)
  have "\<forall>f \<in> set (fq_flows q'). fl_queue f \<noteq> []"
    using q'(5) 1(1) by (auto simp: rw_ok_def c dest!: set_update_subset_insert[THEN subsetD])
  then show ?case using q' 1(1) by (auto simp: rw_class_def rw_enqueue_def rw_ok_def c)
next
  case (2 I c)
  obtain q rs where c: "c = (q, rs)" by force
  show ?case
  proof (cases "rw_draws q")
    case True
    from rw_dequeue_ok[OF 2[unfolded c] True, of sz dflt] obtain k q' where
      r: "rw_dequeue D dflt sz (rs 0) q = Inr (hd (fl_queue (fq_flows q ! k)), q')" "rw_ok D I (q', \<lambda>n. rs (Suc n))"
      "fl_queue (fq_flows q ! k) \<noteq> []"
      "flow_contents (fq_flows q) (fl_id (fq_flows q ! k)) = fl_queue (fq_flows q ! k)"
      "flow_contents (fq_flows q') = (flow_contents (fq_flows q))(fl_id (fq_flows q ! k) := tl (fl_queue (fq_flows q ! k)))"
      by (elim exE conjE) (rule that)
    then have "flow_contents (fq_flows q) (fl_id (fq_flows q ! k)) = hd (fl_queue (fq_flows q ! k)) # tl (fl_queue (fq_flows q ! k))"
      by simp
    with r True show ?thesis by (force simp: rw_class_def c)
  next
    case False
    then have "rw_dequeue D dflt sz (rs 0) q = Inr (dflt, q)"
      by (auto simp: rw_dequeue_def calculate_probabilities_def rw_draws_def split: list.split)
    then show ?thesis using 2 False by (simp add: rw_class_def c)
  qed
next
  case (3 I c i)
  then show ?case using fq_is_full_iff[of I "fst c" i] by (simp add: rw_class_def rw_ok_def split: prod.splits)
qed

section \<open>The flow that is drawn\<close>

definition weights_sum :: "('a, 'z) flow_scheme list \<Rightarrow> int" where
  "weights_sum fs = (\<Sum>f\<leftarrow>fs. fl_weight f)"

lemma weights_sum_simps [simp]:
  "weights_sum [] = 0" "weights_sum (f # fs) = fl_weight f + weights_sum fs"
  by (simp_all add: weights_sum_def)

lemma weights_sum_pos: "\<forall>f \<in> set fs. 0 < fl_weight f \<Longrightarrow> fs \<noteq> [] \<Longrightarrow> 0 < weights_sum fs"
proof (induction fs)
  case (Cons f fs)
  then show ?case by (cases fs) auto
qed simp

definition with_shares :: "int \<Rightarrow> ('a, rat) rw_flows \<Rightarrow> ('a, rat) rw_flows" where
  "with_shares W fs = map (\<lambda>f. f\<lparr> fl_probability := of_int (fl_weight f) / of_int W \<rparr>) fs"

lemma probabilities_are_shares:
  assumes "rw_draws q" "\<forall>f \<in> set (fq_flows q). fl_queue f \<noteq> [] \<and> 0 < fl_weight f" "0 < sz"
  shows "calculate_probabilities rat_doubles sz q =
    Inr (True, q\<lparr> fq_flows := with_shares (weights_sum (fq_flows q)) (fq_flows q) \<rparr>)"
proof -
  obtain f fs where fs: "fq_flows q = f # fs" "fq_num q \<noteq> 0"
    using assms(1) by (auto simp: rw_draws_def neq_Nil_conv)
  have folds: "rfold (\<lambda>g d. asserting (fl_queue g \<noteq> []) (Inr (db_add rat_doubles d (object_weight rat_doubles sz g)))) gs d =
      Inr (d + of_int (weights_sum gs) / of_int sz)" if "\<forall>g \<in> set gs. fl_queue g \<noteq> []" for gs :: "('a, rat) rw_flows" and d
    using that by (induction gs arbitrary: d) (auto simp: object_weight_def add_divide_distrib)
  have W: "0 < weights_sum (fq_flows q)" using assms(2) fs by (intro weights_sum_pos) auto
  have w: "0 < fl_weight f" using assms(2) fs by simp
  have p: "object_weight rat_doubles sz f * (1 / (of_int (weights_sum (fq_flows q)) / of_int sz)) =
      of_int (fl_weight f) / of_int (weights_sum (fq_flows q))"
    using assms(3) by (simp add: object_weight_def)
  have d: "of_int (fl_weight f) / of_int (weights_sum (fq_flows q)) * of_int sz / of_int (fl_weight f) *
      object_weight rat_doubles sz g = of_int (fl_weight g) / of_int (weights_sum (fq_flows q))" for g :: "('a, rat) rw_flow"
    using assms(3) w by (simp add: object_weight_def)
  have "calculate_probabilities rat_doubles sz q = Inr (True, q\<lparr> fq_flows :=
      f\<lparr> fl_probability := object_weight rat_doubles sz f * (1 / (of_int (weights_sum (fq_flows q)) / of_int sz)) \<rparr> #
      map (\<lambda>g. g\<lparr> fl_probability := object_weight rat_doubles sz f * (1 / (of_int (weights_sum (fq_flows q)) / of_int sz)) *
        of_int sz / of_int (fl_weight f) * object_weight rat_doubles sz g \<rparr>) fs \<rparr>)"
    using folds[of "fq_flows q" 0] fs assms(2)
    by (simp add: calculate_probabilities_def Let_def del: rfold.simps)
  then show ?thesis by (simp only: p d) (simp add: fs with_shares_def)
qed

lemma choose_flow_share:
  assumes "k < length fs" "\<forall>f \<in> set fs. fl_queue f \<noteq> [] \<and> 0 < fl_weight f" "0 < W"
    and "acc + of_int (weights_sum (take k fs)) / of_int W \<le> random"
    and "random < acc + of_int (weights_sum (take (Suc k) fs)) / of_int W"
  shows "choose_flow rat_doubles random acc n (with_shares W fs) = Inr (n + k)"
  using assms
proof (induction k arbitrary: fs acc n)
  case 0
  then show ?case by (cases fs) (auto simp: with_shares_def Let_def)
next
  case (Suc k)
  then obtain f gs where split: "fs = f # gs" by (cases fs) auto
  with Suc.prems(1) have fs: "fs = f # gs" "gs \<noteq> []" by auto
  let ?acc = "acc + of_int (fl_weight f) / of_int W"
  have nonneg: "0 \<le> weights_sum (take k gs)"
    using Suc.prems(2) fs by (auto simp: weights_sum_def dest!: in_set_takeD intro!: sum_list_nonneg) (fastforce dest: in_set_takeD)
  have "?acc \<le> random"
  proof -
    have "?acc \<le> acc + of_int (weights_sum (take (Suc k) fs)) / of_int W"
      using nonneg Suc.prems(3) by (simp add: fs divide_right_mono)
    with Suc.prems(4) show ?thesis by linarith
  qed
  then have "choose_flow rat_doubles random acc n (with_shares W fs) =
      choose_flow rat_doubles random ?acc (Suc n) (with_shares W gs)"
    using Suc.prems(2) fs by (simp add: with_shares_def Let_def)
  also have "\<dots> = Inr (Suc n + k)"
    using Suc.prems fs by (intro Suc.IH) (auto simp: add_divide_distrib add.assoc)
  finally show ?case by simp
qed

text \<open>C20: In exact arithmetic, \<open>RWFQueue\<close> draws flows in proportion to their weights: \<open>Dequeue\<close> takes the
  front object of the flow at position \<open>k\<close> exactly for the values \<open>r\<close> of \<open>rand()\<close> with \<open>r / RAND_MAX\<close>
  between the sum of the shares before \<open>k\<close> and that sum with the share of \<open>k\<close>, and leaves every other flow alone.
\<close>

theorem random_queue_draws_by_weight:
  assumes "rw_ok rat_doubles I (q, \<lambda>_. r)" "0 < sz" "rw_draws q" "\<forall>f \<in> set (fq_flows q). 0 < fl_weight f"
    and "k < length (fq_flows q)"
    and "rand_max * weights_sum (take k (fq_flows q)) \<le> r * weights_sum (fq_flows q)"
    and "r * weights_sum (fq_flows q) < rand_max * weights_sum (take (Suc k) (fq_flows q))"
  shows "\<exists>x xs q'. fl_queue (fq_flows q ! k) = x # xs \<and>
    rw_dequeue rat_doubles dflt sz r q = Inr (x, q') \<and> fq_num q' = fq_num q - 1 \<and>
    flow_contents (fq_flows q') = (flow_contents (fq_flows q))(fl_id (fq_flows q ! k) := xs)"
proof -
  let ?W = "weights_sum (fq_flows q)"
  have ne: "\<forall>f \<in> set (fq_flows q). fl_queue f \<noteq> [] \<and> 0 < fl_weight f"
    using assms(1,4) by (auto simp: rw_ok_def)
  have W: "0 < ?W" using assms(3,4) by (intro weights_sum_pos) (auto simp: rw_draws_def)
  have scale: "of_int a / of_int ?W \<le> generate_random rat_doubles r \<longleftrightarrow> rand_max * a \<le> r * ?W" for a
  proof -
    have "of_int a / of_int ?W \<le> generate_random rat_doubles r \<longleftrightarrow> rat_of_int (rand_max * a) \<le> rat_of_int (r * ?W)"
      using W by (simp add: generate_random_def rand_max_def field_simps)
    then show ?thesis by (simp only: of_int_le_iff)
  qed
  have "choose_flow rat_doubles (generate_random rat_doubles r) 0 0 (with_shares ?W (fq_flows q)) = Inr (0 + k)"
  proof (rule choose_flow_share[OF assms(5) ne W])
    show "0 + of_int (weights_sum (take k (fq_flows q))) / of_int ?W \<le> generate_random rat_doubles r"
      using scale assms(6) by simp
    show "generate_random rat_doubles r < 0 + of_int (weights_sum (take (Suc k) (fq_flows q))) / of_int ?W"
      using scale[of "weights_sum (take (Suc k) (fq_flows q))"] assms(7) by (simp add: not_le[symmetric])
  qed
  moreover obtain k' q' where k': "choose_flow rat_doubles (generate_random rat_doubles r) 0 0 (with_shares ?W (fq_flows q)) = Inr k'"
    "rw_dequeue rat_doubles dflt sz r q = Inr (hd (fl_queue (fq_flows q ! k')), q')" "rw_ok rat_doubles I (q', \<lambda>_. r)"
    "fl_queue (fq_flows q ! k') \<noteq> []"
    "flow_contents (fq_flows q') = (flow_contents (fq_flows q))(fl_id (fq_flows q ! k') := tl (fl_queue (fq_flows q ! k')))"
    using rw_dequeue_ok[OF assms(1,3), of sz dflt] probabilities_are_shares[OF assms(3) ne assms(2)] by auto
  ultimately have k: "k' = k" by simp
  have "calculate_probabilities rat_doubles sz q = Inr (True, q\<lparr> fq_flows := with_shares ?W (fq_flows q) \<rparr>)"
    by (rule probabilities_are_shares[OF assms(3) ne assms(2)])
  then have "fq_num q' = fq_num q - 1"
    using k'(1,2) by (auto simp: rw_dequeue_def Let_def dequeue_flow_def res_simps split: list.splits)
  with k' k show ?thesis by (intro exI[of _ "hd (fl_queue (fq_flows q ! k))"] exI[of _ "tl (fl_queue (fq_flows q ! k))"] exI[of _ q']) simp
qed

definition two_flows :: "(nat, rat) rw_queue" where
  "two_flows = snd (rw_enqueue rat_doubles 8 \<lparr> fi_id = 2, fi_weight = 3 \<rparr>
     (snd (rw_enqueue rat_doubles 7 \<lparr> fi_id = 1, fi_weight = 1 \<rparr> (fq_new 9))))"

lemma two_flows_simps:
  "fq_flows two_flows = [(rw_create_flow rat_doubles \<lparr> fi_id = 1, fi_weight = 1 \<rparr>)\<lparr> fl_queue := [7] \<rparr>,
     (rw_create_flow rat_doubles \<lparr> fi_id = 2, fi_weight = 3 \<rparr>)\<lparr> fl_queue := [8] \<rparr>]"
  "fq_num two_flows = 2"
  by (simp_all add: two_flows_def rw_enqueue_def fq_enqueue_def get_or_create_flow_def rw_create_flow_def
      has_room_def fq_new_def)

theorem random_queue_draws_by_weight_witness:
  "\<exists>q'. rw_dequeue rat_doubles 0 8 1000000000 two_flows = Inr (8, q') \<and> fq_num q' = 1"
proof -
  have "rw_ok rat_doubles {\<lparr> fi_id = 1, fi_weight = 1 \<rparr>, \<lparr> fi_id = 2, fi_weight = 3 \<rparr>} (two_flows, \<lambda>_. 1000000000)"
    by (simp add: rw_ok_def two_flows_simps flows_ok_def flow_ok_def infos_ok_def rw_create_flow_def
        generate_random_def rand_max_def)
  from random_queue_draws_by_weight[OF this, of 8 1 0] show ?thesis
    by (auto simp: two_flows_simps rw_draws_def rw_create_flow_def rand_max_def numeral_2_eq_2)
qed

text \<open>\<open>generateRandom\<close> divides by \<open>RAND_MAX\<close>, so when \<open>rand()\<close> returns \<open>RAND_MAX\<close> the value is 1 and the
  assertion of \<open>Dequeue\<close> that it is below 1 stops the program, however the queue is filled.
\<close>

theorem greatest_random_stops:
  assumes "rw_ok D I (q, rs)" "rw_draws q"
    and "db_div D (db_of_int D rand_max) (db_of_int D rand_max) = db_of_int D 1"
    and "\<not> db_less D (db_of_int D 1) (db_of_int D 1)"
  shows "rw_dequeue D dflt sz rand_max q = Inl AssertFailed"
proof -
  obtain q1 where "calculate_probabilities D sz q = Inr (True, q1)"
    using calculate_probabilities_ok[of q I D sz] assms(1,2) by (auto simp: rw_ok_def)
  then show ?thesis using assms(3,4) by (simp add: rw_dequeue_def generate_random_def)
qed

theorem greatest_random_stops_witness: "rw_dequeue rat_doubles 0 8 2147483647 two_flows = Inl AssertFailed"
proof -
  have "rw_ok rat_doubles {\<lparr> fi_id = 1, fi_weight = 1 \<rparr>, \<lparr> fi_id = 2, fi_weight = 3 \<rparr>} (two_flows, \<lambda>_. 0)"
    by (simp add: rw_ok_def two_flows_simps flows_ok_def flow_ok_def infos_ok_def rw_create_flow_def
        generate_random_def rand_max_def)
  from greatest_random_stops[OF this] show ?thesis
    by (simp add: two_flows_simps rw_draws_def rand_max_def)
qed

end
