(* ===== verification/Concurrent_Fair_Queue.thy ===== *)
theory Concurrent_Fair_Queue
  imports Fair_Queue Random_Fair_Queue
begin

text \<open>
  \<open>ConcurrentWFQueue\<close> of \<open>BaseLib/Collection/WeightedFairQueue.h\<close>: a queue behind a lock, with any class
  with the interface of \<open>Queue\<close> as its container. \<open>hasCapacity\<close> returns what \<open>IsFull\<close> of the
  container returns, and the model keeps that. A call that waits gives up the lock, and \<open>env\<close> is what the other
  threads do meanwhile. \<open>Dequeue\<close> with a timeout compares a \<open>bool\<close> with \<open>nullptr\<close> in \<open>waitForData\<close>,
  which no compiler accepts, so it has no model; the signals to waiting threads have none either.
\<close>

record 'c concurrent_queue =
  cq_container :: 'c
  cq_capacity :: int

definition cq_new :: "'c \<Rightarrow> int \<Rightarrow> 'c concurrent_queue" where
  "cq_new container capacity = \<lparr> cq_container = container, cq_capacity = capacity \<rparr>"

definition cq_has_capacity :: "('a, 'c) queue_class \<Rightarrow> int \<Rightarrow> 'c concurrent_queue \<Rightarrow> bool" where
  "cq_has_capacity C i s = qc_is_full C i (cq_container s)"

definition cq_put ::
  "('a, 'c) queue_class \<Rightarrow> 'a \<Rightarrow> flow_info \<Rightarrow> 'c concurrent_queue \<Rightarrow> (bool \<times> 'c concurrent_queue) res" where
  "cq_put C x info s = asserting (cq_has_capacity C (fi_id info) s)
     (let (is_queued, c) = qc_enqueue C x info (cq_container s)
      in Inr (is_queued, s\<lparr> cq_container := c \<rparr>))"

definition cq_enqueue ::
  "('a, 'c) queue_class \<Rightarrow> 'a \<Rightarrow> flow_info \<Rightarrow> 'c concurrent_queue \<Rightarrow> (bool \<times> 'c concurrent_queue) res" where
  "cq_enqueue C x info s =
     (if cq_has_capacity C (fi_id info) s then cq_put C x info s else Inr (False, s))"

definition cq_wait_for_capacity ::
  "('a, 'c) queue_class \<Rightarrow> ('c concurrent_queue \<Rightarrow> 'c concurrent_queue) \<Rightarrow> int \<Rightarrow> 'c concurrent_queue \<Rightarrow>
     bool \<times> 'c concurrent_queue" where
  "cq_wait_for_capacity C env i s =
     (let s' = if cq_has_capacity C i s then s else env s in (cq_has_capacity C i s', s'))"

definition cq_enqueue_wait ::
  "('a, 'c) queue_class \<Rightarrow> ('c concurrent_queue \<Rightarrow> 'c concurrent_queue) \<Rightarrow> 'a \<Rightarrow> flow_info \<Rightarrow>
     'c concurrent_queue \<Rightarrow> (bool \<times> 'c concurrent_queue) res" where
  "cq_enqueue_wait C env x info s =
     (if \<not> cq_has_capacity C (fi_id info) s then
        (let (has_capacity, s') = cq_wait_for_capacity C env (fi_id info) s
         in if \<not> has_capacity then Inr (False, s') else cq_put C x info s')
      else cq_put C x info s)"

definition cq_dequeue ::
  "('a, 'c) queue_class \<Rightarrow> 'c concurrent_queue \<Rightarrow> ('a \<times> 'c concurrent_queue) res" where
  "cq_dequeue C s = rbind (qc_dequeue C (cq_container s)) (\<lambda>(x, c). Inr (x, s\<lparr> cq_container := c \<rparr>))"

definition cq_is_empty :: "('a, 'c) queue_class \<Rightarrow> 'c concurrent_queue \<Rightarrow> bool" where
  "cq_is_empty C s = qc_is_empty C (cq_container s)"

definition cq_is_empty_flow :: "('a, 'c) queue_class \<Rightarrow> int \<Rightarrow> 'c concurrent_queue \<Rightarrow> bool" where
  "cq_is_empty_flow C i s = qc_is_empty_flow C i (cq_container s)"

definition cq_length :: "('a, 'c) queue_class \<Rightarrow> 'c concurrent_queue \<Rightarrow> int" where
  "cq_length C s = qc_length C (cq_container s)"

definition cq_length_flow :: "('a, 'c) queue_class \<Rightarrow> int \<Rightarrow> 'c concurrent_queue \<Rightarrow> int" where
  "cq_length_flow C i s = qc_length_flow C i (cq_container s)"

definition cq_is_full :: "('a, 'c) queue_class \<Rightarrow> int \<Rightarrow> 'c concurrent_queue \<Rightarrow> bool" where
  "cq_is_full C i s = (\<not> cq_has_capacity C i s)"

definition cq_set_capacity :: "int \<Rightarrow> 'c concurrent_queue \<Rightarrow> 'c concurrent_queue" where
  "cq_set_capacity n s = s\<lparr> cq_capacity := n \<rparr>"

definition cq_clear :: "('a, 'c) queue_class \<Rightarrow> 'c concurrent_queue \<Rightarrow> 'c concurrent_queue" where
  "cq_clear C s = s\<lparr> cq_container := qc_clear C (cq_container s) \<rparr>"

definition cq_clear_flow :: "('a, 'c) queue_class \<Rightarrow> int \<Rightarrow> 'c concurrent_queue \<Rightarrow> 'c concurrent_queue" where
  "cq_clear_flow C i s = s\<lparr> cq_container := qc_clear_flow C i (cq_container s) \<rparr>"

text \<open>
  The states the calls of any threads lead to: what other threads do while a call waits is itself
  a sequence of calls.
\<close>

inductive cq_reach ::
  "('a, 'c) queue_class \<Rightarrow> 'c concurrent_queue \<Rightarrow> 'c concurrent_queue \<Rightarrow> bool"
  for C s0 where
  start: "cq_reach C s0 s0"
| enqueue: "cq_reach C s0 s \<Longrightarrow> cq_enqueue C x info s = Inr (b, s') \<Longrightarrow> cq_reach C s0 s'"
| enqueue_wait: "cq_reach C s0 s \<Longrightarrow> cq_reach C s0 (env s) \<Longrightarrow>
    cq_enqueue_wait C env x info s = Inr (b, s') \<Longrightarrow> cq_reach C s0 s'"
| dequeue: "cq_reach C s0 s \<Longrightarrow> cq_dequeue C s = Inr (x, s') \<Longrightarrow> cq_reach C s0 s'"
| clear: "cq_reach C s0 s \<Longrightarrow> cq_reach C s0 (cq_clear C s)"
| clear_flow: "cq_reach C s0 s \<Longrightarrow> cq_reach C s0 (cq_clear_flow C i s)"
| set_capacity: "cq_reach C s0 s \<Longrightarrow> cq_reach C s0 (cq_set_capacity n s)"

text \<open>A container that stays empty when it is cleared.\<close>

locale clearable_queue = flow_queue +
  assumes clear: "ok I c \<Longrightarrow> contents c = (\<lambda>_. []) \<Longrightarrow>
      ok I (qc_clear C c) \<and> contents (qc_clear C c) = (\<lambda>_. [])"
    and clear_flow: "ok I c \<Longrightarrow> contents c = (\<lambda>_. []) \<Longrightarrow>
      ok I (qc_clear_flow C i c) \<and> contents (qc_clear_flow C i c) = (\<lambda>_. [])"
begin

lemma empty_is_refused:
  assumes "ok I (cq_container s)" "contents (cq_container s) = (\<lambda>_. [])"
  shows "\<not> cq_has_capacity C i s" and "cq_enqueue C x info s = Inr (False, s)"
    and "\<exists>s'. cq_dequeue C s = Inr (dflt, s') \<and> ok I (cq_container s') \<and> contents (cq_container s') = (\<lambda>_. [])"
proof -
  show no: "\<not> cq_has_capacity C i s" for i
    by (simp add: cq_has_capacity_def is_full[OF assms(1)] assms(2))
  show "cq_enqueue C x info s = Inr (False, s)" by (simp add: cq_enqueue_def no)
  show "\<exists>s'. cq_dequeue C s = Inr (dflt, s') \<and> ok I (cq_container s') \<and> contents (cq_container s') = (\<lambda>_. [])"
    using dequeue[OF assms(1)] assms(2) by (auto simp: cq_dequeue_def)
qed

lemma reachable_is_empty:
  assumes "cq_reach C s0 s" "ok I (cq_container s0)" "contents (cq_container s0) = (\<lambda>_. [])"
  shows "ok I (cq_container s) \<and> contents (cq_container s) = (\<lambda>_. [])"
  using assms
proof (induction rule: cq_reach.induct)
  case (enqueue s x info b s')
  then show ?case using empty_is_refused(2)[of I s x info] by simp
next
  case (enqueue_wait s env x info b s')
  then have "cq_enqueue_wait C env x info s = Inr (False, env s)"
    using empty_is_refused(1)[of I s] empty_is_refused(1)[of I "env s"]
    by (simp add: cq_enqueue_wait_def cq_wait_for_capacity_def)
  with enqueue_wait show ?case by simp
next
  case (dequeue s x s')
  then show ?case using empty_is_refused(3)[of I s] by auto
qed (auto simp: cq_clear_def cq_clear_flow_def cq_set_capacity_def clear clear_flow)

end

lemma flows_without_objects:
  assumes "flows_ok I fs" "flow_contents fs = (\<lambda>_. [])"
  shows "count_objects fs = 0" and "count_objects (delete_flow k fs) = 0"
    and "flows_ok I (delete_flow k fs)" and "flow_contents (delete_flow k fs) = (\<lambda>_. [])"
proof -
  have "fl_queue f = []" if f: "f \<in> set fs" for f
  proof -
    obtain xs ys where fs: "fs = xs @ f # ys" using split_list[OF f] by blast
    then have "flow_contents fs (fl_id f) = fl_queue f"
      using assms(1) by (auto simp: flows_ok_append flow_contents_append flows_ok_Cons)
    with assms(2) show ?thesis by simp
  qed
  then have ne: "\<forall>f \<in> set fs. fl_queue f = []" by blast
  have sub: "set (delete_flow k fs) \<subseteq> set fs"
    by (auto simp: delete_flow_def dest: in_set_takeD in_set_dropD)
  show "count_objects fs = 0" "count_objects (delete_flow k fs) = 0"
    using ne sub by (auto simp: count_objects_zero)
  have "fs = take k fs @ take 1 (drop k fs) @ drop (Suc k) fs"
    by (metis append_take_drop_id drop_drop One_nat_def plus_1_eq_Suc)
  then have "distinct_ids (delete_flow k fs)"
    using assms(1) distinct_ids_append[of "take k fs" "take 1 (drop k fs) @ drop (Suc k) fs"]
      distinct_ids_append[of "take 1 (drop k fs)" "drop (Suc k) fs"]
    by (auto simp: flows_ok_def delete_flow_def distinct_ids_append)
  then show "flows_ok I (delete_flow k fs)" using assms(1) sub by (auto simp: flows_ok_def)
  show "flow_contents (delete_flow k fs) = (\<lambda>_. [])"
    using ne sub by (auto simp: fun_eq_iff flow_contents_def split: option.split dest!: find_Some_iff[THEN iffD1])
      (metis nth_mem subsetD)
qed

lemma cleared_flows_ok:
  assumes "flows_ok I (fq_flows q)" "fq_num q = count_objects (fq_flows q)" "flow_contents (fq_flows q) = (\<lambda>_. [])"
    and "q' = fq_clear q \<or> q' = fq_clear_flow i q"
  shows "flows_ok I (fq_flows q')" and "fq_num q' = count_objects (fq_flows q')"
    and "flow_contents (fq_flows q') = (\<lambda>_. [])" and "set (fq_flows q') \<subseteq> set (fq_flows q)"
  using assms(4) assms(1-3) flows_without_objects[OF assms(1,3)]
  by (auto simp: fq_clear_def fq_clear_flow_def flows_ok_def fun_eq_iff delete_flow_def
      split: option.splits dest: in_set_takeD in_set_dropD)

interpretation wfc: clearable_queue "wf_class D dflt sz" dflt "wf_ok D sz" "\<lambda>q. flow_contents (fq_flows q)"
  for D dflt sz
proof (unfold_locales, goal_cases)
  case (1 I c)
  then show ?case using cleared_flows_ok[of I c "fq_clear c"] by (auto simp: wf_class_def wf_ok_def)
next
  case (2 I c i)
  then show ?case using cleared_flows_ok[of I c "fq_clear_flow i c" i] by (auto simp: wf_class_def wf_ok_def)
qed

interpretation rwc: clearable_queue "rw_class D dflt sz" dflt "rw_ok D" "\<lambda>c. flow_contents (fq_flows (fst c))"
  for D dflt sz
proof (unfold_locales, goal_cases)
  case (1 I c)
  then show ?case
    using cleared_flows_ok[of I "fst c" "fq_clear (fst c)"]
    by (cases c) (auto simp: rw_class_def rw_ok_def)
next
  case (2 I c i)
  then show ?case
    using cleared_flows_ok[of I "fst c" "fq_clear_flow i (fst c)" i]
    by (cases c) (auto simp: rw_class_def rw_ok_def)
qed

text \<open>C21: \<open>hasCapacity\<close> of \<open>ConcurrentWFQueue\<close> is true when the container is full and false when it has room. So
  whatever calls any threads make on a new queue, and whatever others do while a call waits, no flow ever
  holds an object, \<open>Enqueue\<close> refuses every object and \<open>Dequeue\<close> returns \<open>T()\<close>.
\<close>

theorem concurrent_queue_never_stores:
  assumes "\<forall>d. db_le D (db_of_int D sz) d \<longrightarrow> db_le D (db_of_int D 0) (db_sub D d (db_of_int D sz))"
    and "cq_reach (wf_class D dflt sz) (cq_new (fq_new 9223372036854775807) capacity) s"
  shows "flow_contents (fq_flows (cq_container s)) i = [] \<and>
    cq_enqueue (wf_class D dflt sz) x info s = Inr (False, s) \<and>
    (\<exists>s'. cq_dequeue (wf_class D dflt sz) s = Inr (dflt, s'))"
proof -
  have "wf_ok D sz {} (cq_container (cq_new (fq_new 9223372036854775807) capacity))"
    using assms(1) by (simp add: wf_ok_def cq_new_def fq_new_def flows_ok_def infos_ok_def)
  from wfc.reachable_is_empty[OF assms(2) this]
  have ok: "wf_ok D sz {} (cq_container s)" "flow_contents (fq_flows (cq_container s)) = (\<lambda>_. [])"
    by (simp_all add: cq_new_def fq_new_def fun_eq_iff)
  show ?thesis
    using ok(2) wfc.empty_is_refused(2)[OF ok, of dflt x info] wfc.empty_is_refused(3)[OF ok, of dflt] by auto
qed

theorem concurrent_queue_never_stores_witness:
  "cq_enqueue (wf_class rat_doubles (0 :: nat) 8) 7 \<lparr> fi_id = 1, fi_weight = 1 \<rparr>
     (cq_new (fq_new 9223372036854775807) 10) =
   Inr (False, cq_new (fq_new 9223372036854775807) 10)"
proof -
  let ?s = "cq_new (fq_new 9223372036854775807) 10 :: (nat, rat) wf_queue concurrent_queue"
  have "cq_reach (wf_class rat_doubles 0 8) ?s ?s" by (rule cq_reach.start)
  from concurrent_queue_never_stores[OF _ this, of 1 7 "\<lparr> fi_id = 1, fi_weight = 1 \<rparr>"] show ?thesis by simp
qed

text \<open>Neither \<open>Clear\<close> sets the number of objects back: after \<open>Clear\<close> a queue that held objects still says
  that it is not empty and how long it was, and \<open>Dequeue\<close> returns \<open>T()\<close> without changing it, in both classes.
\<close>

theorem cleared_queue_not_empty:
  assumes "fq_num q \<noteq> 0"
  shows "\<not> fq_is_empty (fq_clear q) \<and> fq_num (fq_clear q) = fq_num q \<and> fq_length_flow i (fq_clear q) = 0 \<and>
    wf_dequeue D dflt sz (fq_clear q) = Inr (dflt, fq_clear q) \<and>
    rw_dequeue D dflt sz r (fq_clear q') = Inr (dflt, fq_clear q')"
  using assms
  by (simp add: rw_dequeue_def calculate_probabilities_def fq_is_empty_def fq_clear_def fq_length_flow_def wf_dequeue_def wf_dequeue_loop.simps)

theorem cleared_queue_not_empty_witness:
  "\<not> fq_is_empty (fq_clear equal_queue) \<and> wf_dequeue rat_doubles 0 8 (fq_clear equal_queue) = Inr (0, fq_clear equal_queue)"
  using cleared_queue_not_empty[of equal_queue 1 rat_doubles 0 8] by (auto simp: equal_queue_def)

end
