(* ===== verification/Spec2Isabelle.thy ===== *)
theory Spec2Isabelle
  imports Virtual_Machine Status_Tracker Task_Workers Path_Algorithms
    Concurrent_Fair_Queue
begin

text \<open>
  A model of the messaging core of this repository, an implementation of the RTPS wire protocol
  (\<open>src/RTPS\<close>) over the serialisation of \<open>src/NetworkLib/Serialize\<close>, the timers of
  \<open>src/BaseLib\<close> and the callbacks of \<open>src/RxConcurrent\<close>, and of the tree algorithms its overlay networks
  rest on (\<open>src/GraphLib/treealgs\<close>): the Fibonacci heap, the algorithms of Dijkstra and Prim over it,
  and the algorithm of Floyd and Warshall.

  How the program works. An application hands a change to a writer, which numbers it, keeps it in
  its history cache and notes for every matched reader that the change is unsent
  (\<open>Stateful/StatefulWriter\<close>, \<open>Stateful/ReaderProxy\<close>, \<open>Cache/DataCache\<close>). Raising a guard
  condition makes a wait set call the writer back (\<open>RxConcurrent/WaitSet\<close>, \<open>GuardCondition\<close>), and
  the writer lets the message sender turn the changes into submessages and these into datagrams
  (\<open>Machine/RtpsMessageSender\<close>). On the other side the message receiver parses a datagram into
  submessages (\<open>Machine/RtpsMessageReceiver\<close>), which the endpoints process: acknowledgements move
  the statuses of the changes in the reader proxies, heartbeats and gaps those in the writer proxies
  (\<open>Stateful/WriterProxy\<close>), and data go into the caches of the readers (\<open>Stateful/StatefulReader\<close>,
  \<open>Stateless/StatelessReader\<close>). A virtual machine (\<open>Machine/VirtualMachine\<close>) joins a receiver, a
  sender, a writer and a reader and dispatches every parsed submessage to its endpoints.
  Beside the protocol, the queues that decouple producers from consumers are ring buffers that report
  to a status (\<open>BaseLib/Collection/RingBufferQueue\<close>, \<open>BaseLib/Status\<close>), and work is done by a
  thread pool: a client hands it a task with a policy, the scheduler triggers the condition of every task
  that is due, and the workers take the triggered conditions from a wait set and run the futures of the
  tasks (\<open>RxConcurrent/ThreadPool\<close>, \<open>RxConcurrent/Strategy\<close>).
  Where the flows of a link have weights, \<open>BaseLib/Collection/WeightedFairQueue.h\<close> has queues that share the
  service among them: \<open>WFQueue\<close> by deficit counters, \<open>RWFQueue\<close> by random draws, and
  \<open>ConcurrentWFQueue\<close> with either behind a lock.
  The graph library computes trees over the nodes of a group: \<open>GraphLib/treealgs/dijkstra_sp.cc\<close> and
  \<open>GraphLib/treealgs/prim_mst.cc\<close> share one loop, which takes the least vertex from a heap and relaxes the
  edges that leave it; the heap is reached through the virtual class \<open>Heap\<close>
  (\<open>GraphLib/treealgs/heap.h\<close>) and is the Fibonacci heap of \<open>GraphLib/treealgs/fheap.cc\<close>.
  \<open>GraphLib/treealgs/floyd_warshall_apsp.cc\<close> computes the distances between all pairs of vertices, into maps of
  maps or into vectors of vectors.

  Theories, in the order of their imports:
  \<^item> \<open>Prelude\<close>: faults and the result monad, wrapping of the machine integers.
  \<^item> \<open>Ordered_Map\<close>: \<open>std::map\<close> over the comparators of the program; the locale \<open>key_order\<close> has
    the laws of the container for comparators that are strict orders on their keys.
  \<^item> \<open>Serialize\<close>, \<open>Codec\<close>: \<open>ByteArray\<close> and \<open>InByteArray\<close> with their growth and positions; readers
    and writers of values, and the locale \<open>wire_codec\<close> that every encoding interprets.
  \<^item> \<open>Sequence_Number\<close>, \<open>Sequence_Set\<close>, \<open>Identity\<close>, \<open>Elements\<close>: the value classes of
    \<open>RTPS/Elements\<close>.
  \<^item> \<open>Headers\<close>, \<open>Submessages\<close>, \<open>Info_Submessages\<close>, \<open>Data_Submessages\<close>: the classes of
    \<open>RTPS/Headers\<close> and \<open>RTPS/Submessages\<close>, with what survives a transfer.
  \<^item> \<open>Data_Cache\<close>, \<open>Reader_Proxy\<close>, \<open>Writer_Proxy\<close>: the history cache and the two kinds of proxy.
  \<^item> \<open>Message_Receiver\<close>, \<open>Message_Sender\<close>: parsing and sending.
  \<^item> \<open>Timing\<close>, \<open>Wait_Set\<close>: durations, timers, guard conditions and wait sets.
  \<^item> \<open>Rtps_Writer\<close>, \<open>Stateful_Writer\<close>, \<open>Writer_Protocol\<close>: the writers, the operations of the
    stateful one, and that writer as a transition system with its invariant.
  \<^item> \<open>Stateless_Writer\<close>, \<open>Rtps_Reader\<close>, \<open>Stateful_Reader\<close>: the stateless writer with its reader
    locators, the stateless reader, and the stateful reader with its acknowledgements.
  \<^item> \<open>Exchange\<close>: what the message sender writes and the message receiver makes of it.
  \<^item> \<open>Virtual_Machine\<close>: dispatch of submessages to endpoints, the factory functions, and the way of
    a change from a writer to the cache of a reader.
  \<^item> \<open>Ring_Buffer\<close>: the ring buffer and the queue around it; the locale \<open>bounded_fifo\<close> has what the
    operations on several elements need of those on one.
  \<^item> \<open>Status_Tracker\<close>: counting trackers, trackers over a window of time and over states, and the
    status a queue reports to.
  \<^item> \<open>Execution_Status\<close>, \<open>Execution_Checker\<close>: the counts, times and state of a task, and when its
    policies let it run.
  \<^item> \<open>Futures\<close>: the future of a task and its run.
  \<^item> \<open>Task_Scheduler\<close>, \<open>Task_Workers\<close>: scheduled tasks and the collection of them, rounds of the
    scheduler and of the workers, and the pool as a transition system with its invariant.
  \<^item> \<open>Heap_Interface\<close>: the virtual class \<open>Heap\<close> as a record of functions, and the locale
    \<open>heap_contract\<close> with what its clients rely on.
  \<^item> \<open>Fibonacci_Tree\<close>, \<open>Fibonacci_Heap\<close>, \<open>Heap_Cost\<close>: the trees of the heap with linking and cascading
    cuts, the heap with its invariant and the interpretation of the contract, and the number of key
    comparisons of a sequence of calls.
  \<^item> \<open>Shortest_Paths\<close>, \<open>Spanning_Tree\<close>, \<open>Path_Algorithms\<close>: the loop of the algorithms with the
    correctness of Dijkstra's algorithm over any heap, of Prim's over any heap, and both over the
    Fibonacci heap with the variant that breaks ties.
  \<^item> \<open>All_Pairs\<close>: the matrices of distances behind the locale \<open>matrix_contract\<close>, which the maps and the
    vectors interpret, and the algorithm of Floyd and Warshall over both; \<open>Path_Algorithms\<close> compares it with
    Dijkstra's.
  \<^item> \<open>Flow_Queues\<close>, \<open>Fair_Queue\<close>, \<open>Random_Fair_Queue\<close>, \<open>Concurrent_Fair_Queue\<close>: the interface
    \<open>Queue\<close> with the locale \<open>flow_queue\<close>, the two weighted fair queues that interpret it, and the queue
    behind a lock, whose lemmas are proved in the locale \<open>clearable_queue\<close> for both.

  Conventions. A class is a record of its members, a method a function that returns the new object;
  a failed \<open>ASSERT\<close>, a thrown exception and undefined behaviour are the values of \<open>fault\<close>. Machine
  integers are \<open>int\<close> with the wrap-around written out, octets are 8-bit words; the platform is
  64-bit Linux (\<open>long\<close> has 64 bits, \<open>char\<close> is signed, the order of bytes is little-endian).
  \<open>ASSERT\<close> is taken to be active in every build and to stop the program. Shared pointers to objects
  no two containers share are modelled by the objects. Clock readings, the socket and what callbacks
  do are parameters. A function that reads the clock several times has its readings as a function of their
  order, and an operation on many tasks one such function for each; the readings are numbered so that a
  branch that is not taken skips its numbers. Differences of time points wrap at 64 bits.
  In the Fibonacci heap the nodes are the values of a recursive type: the circular lists of children and
  the pointers to parents are the shape of the tree, and \<open>plug\<close> with a path of frames stands for
  following \<open>parent\<close>. Keys and distances are of any linear order, which excludes the \<open>NaN\<close> of
  \<open>double\<close>; distances have as parameters an addition, a zero and a greatest value, and the theorems
  assume that adding a weight is monotone and never decreases; those about the algorithm of Floyd and Warshall,
  which adds up walks in another order, assume exact arithmetic (\<open>exact_distances\<close>). The counters of nodes and of comparisons
  are unbounded, and the size of the array of roots is computed with an exact logarithm. A graph is its
  lists of out-edges, and the maps of weights, distances, parents and colours are functions of the vertices; for the distances of
  all pairs it is the list of its edges in the order of the iterator.
  In the weighted fair queues the operations of \<open>double\<close> are a parameter: what holds whatever the rounding is
  proved for all of them, and what depends on the values for exact arithmetic. The number of objects is unbounded.

  What the lemmas show. The codecs prove that reading inverts writing and give the bytes; the data
  structure theories relate the loops of the code to finite maps; the protocol theory proves the
  invariant of every reachable writer and what sending, acknowledgement and the timers do to the
  statuses of the changes; the wait set theory proves that no assertion of the trigger queue fails
  and that handlers run once each in trigger order. The exchange theory proves that a message of data
  submessages is parsed back, and the virtual machine theory composes sender, receiver and reader end to
  end and shows which submessages stop a machine. The ring buffer theory relates the buffer to the list
  of its contents and shows what holds of a queue that becomes full or empty; the tracker theory relates
  windows, states and shown sizes to the full history of the calls. The theories of the thread pool
  say when a task is due, that a round of the scheduler triggers what is due and nothing else, that the
  workers run what was triggered once each, that no interleaving runs a task more often than its policy
  allows, and in which situations the assertions of the scheduler fail. The theories of the heap show that
  it implements a finite map with deletion of a least entry, that legal calls never overrun its array of
  roots, and the amortised number of comparisons; the graph theories show that the loop returns shortest
  walks and minimum spanning trees, where breaking ties goes wrong, that the distances of all pairs are those
  of shortest walks and of Dijkstra's algorithm, and that of parallel edges the last one counts. The theories of the weighted fair queues
  show that flows keep their order and lose nothing, how long a queue with objects answers that it has none,
  that draws are proportional to the weights, and that the queue behind a lock refuses every object.

  Fuel. The parser carries as fuel the unread octets plus one; every round reads at least one octet,
  so the fuel always suffices (\<open>parse_loop_enough_fuel\<close>). Loops that may not end are partial
  functions into \<open>option\<close>; that the loops of Dijkstra and Prim return is part of their theorems.

  Not modelled. Locks, thread loops and blocking waits (the operations are the sequential bodies of
  the protected functions), logging, socket input and output, and the layers of the repository listed
  as not modelled in the manifest. The endpoints run one after the other: which thread runs which callback
  is not modelled. An operation of a queue that waits takes what the other threads do meanwhile as a
  parameter. Of the graph library only the heap and the algorithms named above are modelled: the variants
  with bounds on the degree and the other tree heuristics are configured by global simulation arguments and
  rest on the graph containers of another library. The printing functions of the heap are left out; \<open>BaseLib/Collection/IHeap.h\<close>
  is a copy of that heap. Of the weighted fair queues, \<open>Dequeue\<close> with a timeout does not compile and has no model.
\<close>

end
